(* ===== verification/Prelude.thy ===== *)
theory Prelude
  imports Main "HOL-Library.Word"
begin

text \<open>
  What every component of the development shares: the machine integer types of the C code, the
  error codes of \<open>esp_err.h\<close>, little-endian 32-bit words in byte memory, copying of byte blocks
  (\<open>memcpy\<close>), and alignment to a power of two.  A memory is a function from byte addresses to
  bytes; \<open>mcpy m a bs\<close> is \<open>memcpy(a, bs, length bs)\<close> and \<open>mget m a n\<close> reads \<open>n\<close> bytes.  The
  collection \<open>mem_simps\<close> holds the read-over-write equations that the proofs about flash, ring
  buffers and message buffers use.
\<close>

unbundle bit_operations_syntax

section \<open>Machine integers and error codes\<close>

type_synonym u8 = "8 word"
type_synonym u16 = "16 word"
type_synonym u32 = "32 word"
type_synonym memory = "nat \<Rightarrow> u8"

datatype esp_err =
    ESP_OK
  | ESP_FAIL
  | ESP_ERR_NO_MEM
  | ESP_ERR_INVALID_ARG
  | ESP_ERR_INVALID_STATE
  | ESP_ERR_INVALID_SIZE
  | ESP_ERR_NOT_FOUND
  | ESP_ERR_NOT_SUPPORTED
  | ESP_ERR_TIMEOUT
  | ESP_ERR_FLASH_OP_FAIL
  | ESP_ERR_OTA_PARTITION_CONFLICT
  | ESP_ERR_OTA_VALIDATE_FAILED
  | ESP_ERR_IMAGE_INVALID

named_theorems mem_simps "read-over-write equations for byte memories"

text \<open>\<open>u32_of_int\<close> is the conversion of a mathematical integer to \<open>size_t\<close>/\<open>uint32_t\<close> (modulo
  \<open>2^32\<close>); \<open>s32_of_int\<close> the conversion to a 32-bit \<open>int\<close> in two's complement.\<close>

definition u32_of_int :: "int \<Rightarrow> nat" where
  "u32_of_int x = nat (x mod 2 ^ 32)"

definition s32_of_int :: "int \<Rightarrow> int" where
  "s32_of_int x = (x + 2 ^ 31) mod 2 ^ 32 - 2 ^ 31"

lemma u32_of_int_small [simp]: "0 \<le> x \<Longrightarrow> x < 2 ^ 32 \<Longrightarrow> u32_of_int x = nat x"
  by (simp add: u32_of_int_def)

lemma u32_of_int_bound: "u32_of_int x < 2 ^ 32"
  by (simp add: u32_of_int_def nat_less_iff)

lemma s32_of_int_small [simp]: "- (2 ^ 31) \<le> x \<Longrightarrow> x < 2 ^ 31 \<Longrightarrow> s32_of_int x = x"
  by (simp add: s32_of_int_def)

section \<open>Byte blocks in memory\<close>

definition mget :: "memory \<Rightarrow> nat \<Rightarrow> nat \<Rightarrow> u8 list" where
  "mget m a n = map m [a..<a + n]"

definition mcpy :: "memory \<Rightarrow> nat \<Rightarrow> u8 list \<Rightarrow> memory" where
  "mcpy m a bs = (\<lambda>b. if a \<le> b \<and> b < a + length bs then bs ! (b - a) else m b)"

lemma length_mget [simp]: "length (mget m a n) = n"
  by (simp add: mget_def)

lemma nth_mget [simp]: "i < n \<Longrightarrow> mget m a n ! i = m (a + i)"
  by (simp add: mget_def)

lemma mget_0 [simp]: "mget m a 0 = []"
  by (simp add: mget_def)

lemma mget_Suc: "mget m a (Suc n) = m a # mget m (Suc a) n"
  by (simp add: mget_def upt_conv_Cons del: upt_Suc)

lemma mcpy_Nil [simp]: "mcpy m a [] = m"
  by (rule ext) (auto simp: mcpy_def)

lemma mget_add: "mget m a (n + k) = mget m a n @ mget m (a + n) k"
  by (rule nth_equalityI) (auto simp: nth_append)

lemma mget_cong: "(\<And>b. a \<le> b \<Longrightarrow> b < a + n \<Longrightarrow> m b = m' b) \<Longrightarrow> mget m a n = mget m' a n"
  by (simp add: mget_def)

lemma mget_eq_iff: "mget m a n = bs \<longleftrightarrow> length bs = n \<and> (\<forall>i<n. m (a + i) = bs ! i)"
  by (auto simp: list_eq_iff_nth_eq)

lemma mcpy_in [mem_simps]: "a \<le> b \<Longrightarrow> b < a + length bs \<Longrightarrow> mcpy m a bs b = bs ! (b - a)"
  by (simp add: mcpy_def)

lemma mcpy_out [mem_simps]: "b < a \<or> a + length bs \<le> b \<Longrightarrow> mcpy m a bs b = m b"
  by (auto simp: mcpy_def)

lemma mget_mcpy_same [mem_simps]: "n = length bs \<Longrightarrow> mget (mcpy m a bs) a n = bs"
  by (simp add: mget_eq_iff mcpy_def)

lemma mget_mcpy_disjoint [mem_simps]:
  "b + n \<le> a \<or> a + length bs \<le> b \<Longrightarrow> mget (mcpy m a bs) b n = mget m b n"
  by (rule mget_cong) (auto simp: mcpy_def)

lemma mcpy_append: "mcpy m a (bs @ cs) = mcpy (mcpy m a bs) (a + length bs) cs"
  by (auto simp: mcpy_def fun_eq_iff nth_append)

section \<open>Little-endian words\<close>

definition le32 :: "u32 \<Rightarrow> u8 list" where
  "le32 w = [ucast w, ucast (drop_bit 8 w), ucast (drop_bit 16 w), ucast (drop_bit 24 w)]"

definition of_le32 :: "u8 list \<Rightarrow> u32" where
  "of_le32 bs = ucast (bs ! 0) OR push_bit 8 (ucast (bs ! 1))
     OR push_bit 16 (ucast (bs ! 2)) OR push_bit 24 (ucast (bs ! 3))"

lemma length_le32 [simp]: "length (le32 w) = 4"
  by (simp add: le32_def)

lemma of_le32_le32 [simp]: "of_le32 (le32 w) = w"
proof (rule bit_word_eqI)
  fix n assume "n < LENGTH(32)"
  then have "n < 8 \<or> 8 \<le> n \<and> n < 16 \<or> 16 \<le> n \<and> n < 24 \<or> 24 \<le> n \<and> n < 32" by auto
  then show "bit (of_le32 (le32 w)) n \<longleftrightarrow> bit w n"
    by (elim disjE) (auto simp: of_le32_def le32_def bit_simps)
qed

section \<open>Alignment\<close>

text \<open>\<open>align_up k x\<close> is \<open>(x + (k - 1)) & ~(k - 1)\<close> on \<open>size_t\<close> for a power of two \<open>k\<close>.\<close>

definition align_up :: "nat \<Rightarrow> nat \<Rightarrow> nat" where
  "align_up k x = ((x + (k - 1)) mod 2 ^ 32) div k * k"

lemma align_up_dvd [simp]: "k dvd align_up k x"
  by (simp add: align_up_def)

lemma align_up_ge: "0 < k \<Longrightarrow> x + (k - 1) < 2 ^ 32 \<Longrightarrow> x \<le> align_up k x"
proof -
  assume k: "0 < k" and b: "x + (k - 1) < 2 ^ 32"
  have "(x + (k - 1)) mod k \<le> k - 1"
    using mod_less_divisor [OF k, of "x + (k - 1)"] by linarith
  moreover have "(x + (k - 1)) div k * k + (x + (k - 1)) mod k = x + (k - 1)"
    by (rule div_mult_mod_eq)
  ultimately have "x \<le> (x + (k - 1)) div k * k" by linarith
  then show ?thesis using b by (simp add: align_up_def)
qed

lemma align_up_less: "0 < k \<Longrightarrow> x + (k - 1) < 2 ^ 32 \<Longrightarrow> align_up k x < x + k"
proof -
  assume k: "0 < k" and b: "x + (k - 1) < 2 ^ 32"
  have "(x + (k - 1)) div k * k \<le> x + (k - 1)" by (rule div_times_less_eq_dividend)
  then have "(x + (k - 1)) div k * k < x + k" using k by linarith
  then show ?thesis using b by (simp add: align_up_def)
qed

lemma align_up_id: "k dvd x \<Longrightarrow> 0 < k \<Longrightarrow> x + (k - 1) < 2 ^ 32 \<Longrightarrow> align_up k x = x"
proof -
  assume "k dvd x" and k: "0 < k" and b: "x + (k - 1) < 2 ^ 32"
  then obtain q where q: "x = k * q" by (auto elim: dvdE)
  have "(k - 1) div k = 0" using k by (intro div_less) linarith
  moreover have "(k * q + (k - 1)) div k = q + (k - 1) div k"
    using k by (intro div_mult_self4) simp
  ultimately have "(k * q + (k - 1)) div k = q" by simp
  then show ?thesis using b q by (simp add: align_up_def mult.commute)
qed

lemma align_up_0 [simp]: "align_up k 0 = 0"
proof (cases "k = 0")
  case False
  have "(k - 1) mod 2 ^ 32 \<le> k - 1" by simp
  then have "(k - 1) mod 2 ^ 32 < k" using False by linarith
  then show ?thesis by (simp add: align_up_def)
qed (simp add: align_up_def)

end
