(* ===== verification/Crc.thy ===== *)
theory Crc
  imports Prelude
begin

text \<open>
  The checksums of \<open>components/util/src/crc.c\<close>: the three 256-entry tables as they stand in the
  file, and the three routines \<open>crc32_le\<close>, \<open>crc16_le\<close> and \<open>esp_crc8\<close> that fold a buffer through
  them.  A reference is stated bit by bit (\<open>crc_bit\<close>, the reflected shift register of a
  polynomial) and each table-driven routine is proved equal to it; \<open>crc32_le\<close> is the checksum that
  guards the OTA selection records.
\<close>

section \<open>Tables and routines\<close>

definition crc32_le_table :: "u32 list" where
  "crc32_le_table = [
    0x00000000, 0x77073096, 0xee0e612c, 0x990951ba, 0x076dc419, 0x706af48f, 0xe963a535, 0x9e6495a3,
    0x0edb8832, 0x79dcb8a4, 0xe0d5e91e, 0x97d2d988, 0x09b64c2b, 0x7eb17cbd, 0xe7b82d07, 0x90bf1d91,
    0x1db71064, 0x6ab020f2, 0xf3b97148, 0x84be41de, 0x1adad47d, 0x6ddde4eb, 0xf4d4b551, 0x83d385c7,
    0x136c9856, 0x646ba8c0, 0xfd62f97a, 0x8a65c9ec, 0x14015c4f, 0x63066cd9, 0xfa0f3d63, 0x8d080df5,
    0x3b6e20c8, 0x4c69105e, 0xd56041e4, 0xa2677172, 0x3c03e4d1, 0x4b04d447, 0xd20d85fd, 0xa50ab56b,
    0x35b5a8fa, 0x42b2986c, 0xdbbbc9d6, 0xacbcf940, 0x32d86ce3, 0x45df5c75, 0xdcd60dcf, 0xabd13d59,
    0x26d930ac, 0x51de003a, 0xc8d75180, 0xbfd06116, 0x21b4f4b5, 0x56b3c423, 0xcfba9599, 0xb8bda50f,
    0x2802b89e, 0x5f058808, 0xc60cd9b2, 0xb10be924, 0x2f6f7c87, 0x58684c11, 0xc1611dab, 0xb6662d3d,
    0x76dc4190, 0x01db7106, 0x98d220bc, 0xefd5102a, 0x71b18589, 0x06b6b51f, 0x9fbfe4a5, 0xe8b8d433,
    0x7807c9a2, 0x0f00f934, 0x9609a88e, 0xe10e9818, 0x7f6a0dbb, 0x086d3d2d, 0x91646c97, 0xe6635c01,
    0x6b6b51f4, 0x1c6c6162, 0x856530d8, 0xf262004e, 0x6c0695ed, 0x1b01a57b, 0x8208f4c1, 0xf50fc457,
    0x65b0d9c6, 0x12b7e950, 0x8bbeb8ea, 0xfcb9887c, 0x62dd1ddf, 0x15da2d49, 0x8cd37cf3, 0xfbd44c65,
    0x4db26158, 0x3ab551ce, 0xa3bc0074, 0xd4bb30e2, 0x4adfa541, 0x3dd895d7, 0xa4d1c46d, 0xd3d6f4fb,
    0x4369e96a, 0x346ed9fc, 0xad678846, 0xda60b8d0, 0x44042d73, 0x33031de5, 0xaa0a4c5f, 0xdd0d7cc9,
    0x5005713c, 0x270241aa, 0xbe0b1010, 0xc90c2086, 0x5768b525, 0x206f85b3, 0xb966d409, 0xce61e49f,
    0x5edef90e, 0x29d9c998, 0xb0d09822, 0xc7d7a8b4, 0x59b33d17, 0x2eb40d81, 0xb7bd5c3b, 0xc0ba6cad,
    0xedb88320, 0x9abfb3b6, 0x03b6e20c, 0x74b1d29a, 0xead54739, 0x9dd277af, 0x04db2615, 0x73dc1683,
    0xe3630b12, 0x94643b84, 0x0d6d6a3e, 0x7a6a5aa8, 0xe40ecf0b, 0x9309ff9d, 0x0a00ae27, 0x7d079eb1,
    0xf00f9344, 0x8708a3d2, 0x1e01f268, 0x6906c2fe, 0xf762575d, 0x806567cb, 0x196c3671, 0x6e6b06e7,
    0xfed41b76, 0x89d32be0, 0x10da7a5a, 0x67dd4acc, 0xf9b9df6f, 0x8ebeeff9, 0x17b7be43, 0x60b08ed5,
    0xd6d6a3e8, 0xa1d1937e, 0x38d8c2c4, 0x4fdff252, 0xd1bb67f1, 0xa6bc5767, 0x3fb506dd, 0x48b2364b,
    0xd80d2bda, 0xaf0a1b4c, 0x36034af6, 0x41047a60, 0xdf60efc3, 0xa867df55, 0x316e8eef, 0x4669be79,
    0xcb61b38c, 0xbc66831a, 0x256fd2a0, 0x5268e236, 0xcc0c7795, 0xbb0b4703, 0x220216b9, 0x5505262f,
    0xc5ba3bbe, 0xb2bd0b28, 0x2bb45a92, 0x5cb36a04, 0xc2d7ffa7, 0xb5d0cf31, 0x2cd99e8b, 0x5bdeae1d,
    0x9b64c2b0, 0xec63f226, 0x756aa39c, 0x026d930a, 0x9c0906a9, 0xeb0e363f, 0x72076785, 0x05005713,
    0x95bf4a82, 0xe2b87a14, 0x7bb12bae, 0x0cb61b38, 0x92d28e9b, 0xe5d5be0d, 0x7cdcefb7, 0x0bdbdf21,
    0x86d3d2d4, 0xf1d4e242, 0x68ddb3f8, 0x1fda836e, 0x81be16cd, 0xf6b9265b, 0x6fb077e1, 0x18b74777,
    0x88085ae6, 0xff0f6a70, 0x66063bca, 0x11010b5c, 0x8f659eff, 0xf862ae69, 0x616bffd3, 0x166ccf45,
    0xa00ae278, 0xd70dd2ee, 0x4e048354, 0x3903b3c2, 0xa7672661, 0xd06016f7, 0x4969474d, 0x3e6e77db,
    0xaed16a4a, 0xd9d65adc, 0x40df0b66, 0x37d83bf0, 0xa9bcae53, 0xdebb9ec5, 0x47b2cf7f, 0x30b5ffe9,
    0xbdbdf21c, 0xcabac28a, 0x53b39330, 0x24b4a3a6, 0xbad03605, 0xcdd70693, 0x54de5729, 0x23d967bf,
    0xb3667a2e, 0xc4614ab8, 0x5d681b02, 0x2a6f2b94, 0xb40bbe37, 0xc30c8ea1, 0x5a05df1b, 0x2d02ef8d]"

definition crc16_le_table :: "u16 list" where
  "crc16_le_table = [
    0x0000, 0x1189, 0x2312, 0x329b, 0x4624, 0x57ad, 0x6536, 0x74bf,
    0x8c48, 0x9dc1, 0xaf5a, 0xbed3, 0xca6c, 0xdbe5, 0xe97e, 0xf8f7,
    0x1081, 0x0108, 0x3393, 0x221a, 0x56a5, 0x472c, 0x75b7, 0x643e,
    0x9cc9, 0x8d40, 0xbfdb, 0xae52, 0xdaed, 0xcb64, 0xf9ff, 0xe876,
    0x2102, 0x308b, 0x0210, 0x1399, 0x6726, 0x76af, 0x4434, 0x55bd,
    0xad4a, 0xbcc3, 0x8e58, 0x9fd1, 0xeb6e, 0xfae7, 0xc87c, 0xd9f5,
    0x3183, 0x200a, 0x1291, 0x0318, 0x77a7, 0x662e, 0x54b5, 0x453c,
    0xbdcb, 0xac42, 0x9ed9, 0x8f50, 0xfbef, 0xea66, 0xd8fd, 0xc974,
    0x4204, 0x538d, 0x6116, 0x709f, 0x0420, 0x15a9, 0x2732, 0x36bb,
    0xce4c, 0xdfc5, 0xed5e, 0xfcd7, 0x8868, 0x99e1, 0xab7a, 0xbaf3,
    0x5285, 0x430c, 0x7197, 0x601e, 0x14a1, 0x0528, 0x37b3, 0x263a,
    0xdecd, 0xcf44, 0xfddf, 0xec56, 0x98e9, 0x8960, 0xbbfb, 0xaa72,
    0x6306, 0x728f, 0x4014, 0x519d, 0x2522, 0x34ab, 0x0630, 0x17b9,
    0xef4e, 0xfec7, 0xcc5c, 0xddd5, 0xa96a, 0xb8e3, 0x8a78, 0x9bf1,
    0x7387, 0x620e, 0x5095, 0x411c, 0x35a3, 0x242a, 0x16b1, 0x0738,
    0xffcf, 0xee46, 0xdcdd, 0xcd54, 0xb9eb, 0xa862, 0x9af9, 0x8b70,
    0x8408, 0x9581, 0xa71a, 0xb693, 0xc22c, 0xd3a5, 0xe13e, 0xf0b7,
    0x0840, 0x19c9, 0x2b52, 0x3adb, 0x4e64, 0x5fed, 0x6d76, 0x7cff,
    0x9489, 0x8500, 0xb79b, 0xa612, 0xd2ad, 0xc324, 0xf1bf, 0xe036,
    0x18c1, 0x0948, 0x3bd3, 0x2a5a, 0x5ee5, 0x4f6c, 0x7df7, 0x6c7e,
    0xa50a, 0xb483, 0x8618, 0x9791, 0xe32e, 0xf2a7, 0xc03c, 0xd1b5,
    0x2942, 0x38cb, 0x0a50, 0x1bd9, 0x6f66, 0x7eef, 0x4c74, 0x5dfd,
    0xb58b, 0xa402, 0x9699, 0x8710, 0xf3af, 0xe226, 0xd0bd, 0xc134,
    0x39c3, 0x284a, 0x1ad1, 0x0b58, 0x7fe7, 0x6e6e, 0x5cf5, 0x4d7c,
    0xc60c, 0xd785, 0xe51e, 0xf497, 0x8028, 0x91a1, 0xa33a, 0xb2b3,
    0x4a44, 0x5bcd, 0x6956, 0x78df, 0x0c60, 0x1de9, 0x2f72, 0x3efb,
    0xd68d, 0xc704, 0xf59f, 0xe416, 0x90a9, 0x8120, 0xb3bb, 0xa232,
    0x5ac5, 0x4b4c, 0x79d7, 0x685e, 0x1ce1, 0x0d68, 0x3ff3, 0x2e7a,
    0xe70e, 0xf687, 0xc41c, 0xd595, 0xa12a, 0xb0a3, 0x8238, 0x93b1,
    0x6b46, 0x7acf, 0x4854, 0x59dd, 0x2d62, 0x3ceb, 0x0e70, 0x1ff9,
    0xf78f, 0xe606, 0xd49d, 0xc514, 0xb1ab, 0xa022, 0x92b9, 0x8330,
    0x7bc7, 0x6a4e, 0x58d5, 0x495c, 0x3de3, 0x2c6a, 0x1ef1, 0x0f78]"

definition crc8_le_table :: "u8 list" where
  "crc8_le_table = [
    0x00, 0x5e, 0xbc, 0xe2, 0x61, 0x3f, 0xdd, 0x83, 0xc2, 0x9c, 0x7e, 0x20, 0xa3, 0xfd, 0x1f, 0x41,
    0x9d, 0xc3, 0x21, 0x7f, 0xfc, 0xa2, 0x40, 0x1e, 0x5f, 0x01, 0xe3, 0xbd, 0x3e, 0x60, 0x82, 0xdc,
    0x23, 0x7d, 0x9f, 0xc1, 0x42, 0x1c, 0xfe, 0xa0, 0xe1, 0xbf, 0x5d, 0x03, 0x80, 0xde, 0x3c, 0x62,
    0xbe, 0xe0, 0x02, 0x5c, 0xdf, 0x81, 0x63, 0x3d, 0x7c, 0x22, 0xc0, 0x9e, 0x1d, 0x43, 0xa1, 0xff,
    0x46, 0x18, 0xfa, 0xa4, 0x27, 0x79, 0x9b, 0xc5, 0x84, 0xda, 0x38, 0x66, 0xe5, 0xbb, 0x59, 0x07,
    0xdb, 0x85, 0x67, 0x39, 0xba, 0xe4, 0x06, 0x58, 0x19, 0x47, 0xa5, 0xfb, 0x78, 0x26, 0xc4, 0x9a,
    0x65, 0x3b, 0xd9, 0x87, 0x04, 0x5a, 0xb8, 0xe6, 0xa7, 0xf9, 0x1b, 0x45, 0xc6, 0x98, 0x7a, 0x24,
    0xf8, 0xa6, 0x44, 0x1a, 0x99, 0xc7, 0x25, 0x7b, 0x3a, 0x64, 0x86, 0xd8, 0x5b, 0x05, 0xe7, 0xb9,
    0x8c, 0xd2, 0x30, 0x6e, 0xed, 0xb3, 0x51, 0x0f, 0x4e, 0x10, 0xf2, 0xac, 0x2f, 0x71, 0x93, 0xcd,
    0x11, 0x4f, 0xad, 0xf3, 0x70, 0x2e, 0xcc, 0x92, 0xd3, 0x8d, 0x6f, 0x31, 0xb2, 0xec, 0x0e, 0x50,
    0xaf, 0xf1, 0x13, 0x4d, 0xce, 0x90, 0x72, 0x2c, 0x6d, 0x33, 0xd1, 0x8f, 0x0c, 0x52, 0xb0, 0xee,
    0x32, 0x6c, 0x8e, 0xd0, 0x53, 0x0d, 0xef, 0xb1, 0xf0, 0xae, 0x4c, 0x12, 0x91, 0xcf, 0x2d, 0x73,
    0xca, 0x94, 0x76, 0x28, 0xab, 0xf5, 0x17, 0x49, 0x08, 0x56, 0xb4, 0xea, 0x69, 0x37, 0xd5, 0x8b,
    0x57, 0x09, 0xeb, 0xb5, 0x36, 0x68, 0x8a, 0xd4, 0x95, 0xcb, 0x29, 0x77, 0xf4, 0xaa, 0x48, 0x16,
    0xe9, 0xb7, 0x55, 0x0b, 0x88, 0xd6, 0x34, 0x6a, 0x2b, 0x75, 0x97, 0xc9, 0x4a, 0x14, 0xf6, 0xa8,
    0x74, 0x2a, 0xc8, 0x96, 0x15, 0x4b, 0xa9, 0xf7, 0xb6, 0xe8, 0x0a, 0x54, 0xd7, 0x89, 0x6b, 0x35]"

definition crc32_step :: "u32 \<Rightarrow> u8 \<Rightarrow> u32" where
  "crc32_step crc b = crc32_le_table ! unat ((crc XOR ucast b) AND 0xff) XOR drop_bit 8 crc"

definition crc32_le :: "u32 \<Rightarrow> u8 list \<Rightarrow> u32" where
  "crc32_le crc buf = NOT (foldl crc32_step (NOT crc) buf)"

definition crc16_step :: "u16 \<Rightarrow> u8 \<Rightarrow> u16" where
  "crc16_step crc b = crc16_le_table ! unat ((crc XOR ucast b) AND 0xff) XOR drop_bit 8 crc"

definition crc16_le :: "u16 \<Rightarrow> u8 list \<Rightarrow> u16" where
  "crc16_le crc buf = NOT (foldl crc16_step (NOT crc) buf)"

definition esp_crc8 :: "u8 list \<Rightarrow> u8" where
  "esp_crc8 p = foldl (\<lambda>crc b. crc8_le_table ! unat (crc XOR b)) 0 p"

section \<open>Reference: the reflected shift register, bit by bit\<close>

definition crc_bit :: "'a::len word \<Rightarrow> 'a word \<Rightarrow> 'a word" where
  "crc_bit poly c = (if bit c 0 then drop_bit 1 c XOR poly else drop_bit 1 c)"

definition crc_byte :: "'a::len word \<Rightarrow> 'a word \<Rightarrow> u8 \<Rightarrow> 'a word" where
  "crc_byte poly c b = (crc_bit poly ^^ 8) (c XOR ucast b)"

lemma crc_bit_xor: "crc_bit p (a XOR b) = crc_bit p a XOR crc_bit p b"
  by (auto simp: crc_bit_def drop_bit_xor bit_simps ac_simps)

lemma crc_bit_pow_xor: "(crc_bit p ^^ n) (a XOR b) = (crc_bit p ^^ n) a XOR (crc_bit p ^^ n) b"
  by (induction n) (simp_all add: crc_bit_xor)

lemma crc_bit_pow_shift:
  "(\<And>i. i < n \<Longrightarrow> \<not> bit c i) \<Longrightarrow> (crc_bit p ^^ n) c = drop_bit n c"
proof (induction n)
  case (Suc n)
  then have "(crc_bit p ^^ n) c = drop_bit n c" by simp
  moreover have "\<not> bit (drop_bit n c) 0" using Suc.prems [of n] by (simp add: bit_simps)
  ultimately have "crc_bit p ((crc_bit p ^^ n) c) = drop_bit 1 (drop_bit n c)"
    by (simp only: crc_bit_def if_False)
  then show ?case by (simp add: drop_bit_drop_bit)
qed simp

lemma ff_mask: "(0xff :: 'a::len word) = mask 8"
  by (simp add: mask_eq_exp_minus_1)

lemma low_high_split: "(c :: 'a::len word) = (c AND 0xff) XOR (c AND NOT 0xff)"
  by (rule bit_word_eqI) (auto simp: bit_simps)

text \<open>On integers the same shift register evaluates quickly in the kernel; it certifies the tables.\<close>

definition crc_bit_int :: "int \<Rightarrow> int \<Rightarrow> int" where
  "crc_bit_int p c = (if c mod 2 = 1 then (c div 2) XOR p else c div 2)"

lemma uint_crc_bit: "uint (crc_bit p c) = crc_bit_int (uint p) (uint c)"
proof -
  have "bit c 0 \<longleftrightarrow> uint c mod 2 = 1"
    using bit_uint_iff [of c 0] by (simp add: bit_0 odd_iff_mod_2_eq_one)
  moreover have "uint (drop_bit 1 c) = uint c div 2"
    unfolding unsigned_drop_bit_eq by (simp add: drop_bit_eq_div take_bit_eq_mod)
  ultimately show ?thesis by (simp add: crc_bit_def crc_bit_int_def unsigned_xor_eq)
qed

lemma uint_crc_bit_pow: "uint ((crc_bit p ^^ n) c) = (crc_bit_int (uint p) ^^ n) (uint c)"
  by (induction n) (simp_all add: uint_crc_bit)

definition crc_byte_int :: "int \<Rightarrow> int \<Rightarrow> int" where
  "crc_byte_int p c = crc_bit_int p (crc_bit_int p (crc_bit_int p (crc_bit_int p
     (crc_bit_int p (crc_bit_int p (crc_bit_int p (crc_bit_int p c)))))))"

lemma crc_byte_int_pow: "crc_byte_int p c = (crc_bit_int p ^^ 8) c"
  by (simp add: crc_byte_int_def eval_nat_numeral)

definition crc_table_ok :: "'a::len word list \<Rightarrow> int \<Rightarrow> bool" where
  "crc_table_ok tbl p \<longleftrightarrow> map uint tbl = map (crc_byte_int p) [0..255]"

lemma crc_table_okD:
  assumes "crc_table_ok (tbl :: 'a::len word list) (uint p)" and "8 \<le> LENGTH('a)" and "i < 256"
  shows "tbl ! i = (crc_bit p ^^ 8) (word_of_nat i)"
proof -
  have "length (map uint tbl) = length (map (crc_byte_int (uint p)) [0..255])"
    using assms(1) by (simp only: crc_table_ok_def)
  then have len: "length tbl = 256" by simp
  have "(2::nat) ^ 8 \<le> 2 ^ LENGTH('a)" using assms(2) by (rule power_increasing) simp
  then have "i < 2 ^ LENGTH('a)" using assms(3) by simp
  then have small: "uint (word_of_nat i :: 'a word) = int i"
    by (simp add: unsigned_of_nat take_bit_eq_mod)
  have "uint (tbl ! i) = map uint tbl ! i" using assms(3) len by simp
  also have "\<dots> = (crc_bit_int (uint p) ^^ 8) (int i)"
    using assms(1,3) by (simp only: crc_table_ok_def) (simp add: crc_byte_int_pow)
  also have "\<dots> = uint ((crc_bit p ^^ 8) (word_of_nat i))"
    by (simp add: uint_crc_bit_pow small)
  finally show ?thesis by (simp only: word_uint_eq_iff)
qed

lemma crc32_table_ok: "crc_table_ok crc32_le_table 0xEDB88320"
  unfolding crc_table_ok_def by code_simp

lemma crc16_table_ok: "crc_table_ok crc16_le_table 0x8408"
  unfolding crc_table_ok_def by code_simp

lemma crc8_table_ok: "crc_table_ok crc8_le_table 0x8C"
  unfolding crc_table_ok_def by code_simp

text \<open>One table lookup does eight steps of the shift register.\<close>

lemma crc_byte_table:
  fixes c :: "'a::len word"
  assumes "crc_table_ok tbl (uint p)" and "8 \<le> LENGTH('a)"
  shows "tbl ! unat ((c XOR ucast b) AND 0xff) XOR drop_bit 8 c = crc_byte p c b"
proof -
  let ?x = "c XOR ucast b"
  have "?x AND 0xff = take_bit 8 ?x"
    by (simp only: take_bit_eq_mask ff_mask)
  then have "unat (?x AND 0xff) = take_bit 8 (unat ?x)"
    by (simp only: unsigned_take_bit_eq)
  then have lt: "unat (?x AND 0xff) < 256"
    by (simp add: take_bit_eq_mod)
  have hi: "(crc_bit p ^^ 8) (?x AND NOT 0xff) = drop_bit 8 (?x AND NOT 0xff)"
    unfolding ff_mask by (rule crc_bit_pow_shift) (auto simp: bit_simps)
  have "drop_bit 8 (?x AND NOT 0xff) = drop_bit 8 c"
    unfolding ff_mask by (rule bit_word_eqI) (auto simp: bit_simps dest: bit_imp_le_length)
  moreover have "tbl ! unat (?x AND 0xff) = (crc_bit p ^^ 8) (?x AND 0xff)"
    using crc_table_okD [OF assms lt] by simp
  moreover have "crc_byte p c b = (crc_bit p ^^ 8) (?x AND 0xff) XOR (crc_bit p ^^ 8) (?x AND NOT 0xff)"
    unfolding crc_byte_def crc_bit_pow_xor [symmetric] low_high_split [symmetric] ..
  ultimately show ?thesis using hi by simp
qed

lemma crc32_step_eq: "crc32_step c b = crc_byte 0xEDB88320 c b"
  unfolding crc32_step_def by (rule crc_byte_table) (simp_all add: crc32_table_ok)

lemma crc16_step_eq: "crc16_step c b = crc_byte 0x8408 c b"
  unfolding crc16_step_def by (rule crc_byte_table) (simp_all add: crc16_table_ok)

lemma crc8_step_eq: "crc8_le_table ! unat (c XOR b) = crc_byte 0x8C c b"
proof -
  have "(c XOR b) AND 0xff = c XOR b"
    unfolding ff_mask by (rule bit_word_eqI) (auto simp: bit_simps)
  moreover have "drop_bit 8 c = 0" by (rule bit_word_eqI) (auto simp: bit_simps)
  ultimately show ?thesis
    using crc_byte_table [of crc8_le_table "0x8C" c b] crc8_table_ok by simp
qed

section \<open>Injectivity: a changed word never keeps its checksum\<close>

lemma xor_right_cancel: "x XOR p = y XOR p \<longleftrightarrow> x = (y :: 'a::len word)"
  by (metis xor.assoc xor_self_eq xor.right_neutral)

lemma crc_bit_inj:
  fixes p :: "'a::len word"
  assumes "bit p (LENGTH('a) - 1)"
  shows "inj (crc_bit p)"
proof (rule injI)
  fix a b :: "'a word"
  assume eq: "crc_bit p a = crc_bit p b"
  have top: "bit (crc_bit p x) (LENGTH('a) - 1) \<longleftrightarrow> bit x 0" for x
    using assms by (auto simp: crc_bit_def bit_simps dest: bit_imp_le_length)
  then have low: "bit a 0 \<longleftrightarrow> bit b 0" using eq by metis
  then have sh: "drop_bit 1 a = drop_bit 1 b"
    using eq by (cases "bit b 0") (simp_all add: crc_bit_def xor_right_cancel)
  show "a = b"
  proof (rule bit_word_eqI)
    fix n assume "n < LENGTH('a)"
    show "bit a n \<longleftrightarrow> bit b n"
    proof (cases n)
      case (Suc m)
      then show ?thesis using arg_cong [OF sh, of "\<lambda>w. bit w m"] by (simp add: bit_simps)
    qed (simp add: low)
  qed
qed

lemma crc_byte_le32:
  fixes p c w :: u32
  shows "foldl (crc_byte p) c (le32 w) = (crc_bit p ^^ 32) (c XOR w)"
proof -
  let ?B = "\<lambda>n::nat. (ucast (drop_bit n w) :: u8)"
  have sh: "(crc_bit p ^^ n) (push_bit n (ucast (x :: u8))) = ucast x" if "n \<le> 24" for n x
  proof -
    have "(crc_bit p ^^ n) (push_bit n (ucast x)) = drop_bit n (push_bit n (ucast x :: u32))"
      by (rule crc_bit_pow_shift) (auto simp: bit_simps)
    also have "\<dots> = ucast x" using that
      by (intro bit_word_eqI) (auto simp: bit_simps dest: bit_imp_le_length)
    finally show ?thesis .
  qed
  have step: "crc_byte p ((crc_bit p ^^ n) y) x = (crc_bit p ^^ (8 + n)) (y XOR push_bit n (ucast x))"
    if "n \<le> 24" for n y x
    using sh [OF that, of x] by (simp add: crc_byte_def crc_bit_pow_xor funpow_add)
  have w: "w = ucast (?B 0) XOR push_bit 8 (ucast (?B 8)) XOR push_bit 16 (ucast (?B 16))
      XOR push_bit 24 (ucast (?B 24))"
  proof (rule bit_word_eqI)
    fix n assume "n < LENGTH(32)"
    then have "n < 8 \<or> 8 \<le> n \<and> n < 16 \<or> 16 \<le> n \<and> n < 24 \<or> 24 \<le> n \<and> n < 32" by auto
    then show "bit w n \<longleftrightarrow> bit (ucast (?B 0) XOR push_bit 8 (ucast (?B 8))
        XOR push_bit 16 (ucast (?B 16)) XOR push_bit 24 (ucast (?B 24)) :: u32) n"
      by (elim disjE) (auto simp: bit_simps)
  qed
  have "foldl (crc_byte p) c (le32 w) =
      crc_byte p (crc_byte p (crc_byte p ((crc_bit p ^^ 8) (c XOR ucast (?B 0))) (?B 8)) (?B 16)) (?B 24)"
    by (simp add: le32_def crc_byte_def [of p c])
  also have "\<dots> = crc_byte p (crc_byte p
      ((crc_bit p ^^ 16) ((c XOR ucast (?B 0)) XOR push_bit 8 (ucast (?B 8)))) (?B 16)) (?B 24)"
    using step [of 8] by simp
  also have "\<dots> = crc_byte p ((crc_bit p ^^ 24) (((c XOR ucast (?B 0)) XOR push_bit 8 (ucast (?B 8)))
      XOR push_bit 16 (ucast (?B 16)))) (?B 24)"
    using step [of 16] by simp
  also have "\<dots> = (crc_bit p ^^ 32) ((((c XOR ucast (?B 0)) XOR push_bit 8 (ucast (?B 8)))
      XOR push_bit 16 (ucast (?B 16))) XOR push_bit 24 (ucast (?B 24)))"
    using step [of 24] by simp
  also have "\<dots> = (crc_bit p ^^ 32) (c XOR w)"
    by (subst (5) w) (simp only: xor.assoc)
  finally show ?thesis .
qed

lemma crc_word_inj:
  fixes p c :: u32
  assumes "bit p 31"
  shows "foldl (crc_byte p) c (le32 a) = foldl (crc_byte p) c (le32 b) \<longleftrightarrow> a = b"
proof -
  have "inj (crc_bit p ^^ 32)" using assms by (intro inj_fn crc_bit_inj) simp
  moreover have "c XOR a = c XOR b \<longleftrightarrow> a = b"
    by (metis xor.assoc xor_self_eq xor.left_neutral)
  ultimately show ?thesis by (simp only: crc_byte_le32 inj_eq)
qed

lemma crc32_le_bits: "crc32_le c buf = NOT (foldl (crc_byte 0xEDB88320) (NOT c) buf)"
  unfolding crc32_le_def crc32_step_eq [abs_def] ..

lemma crc32_le_word_inj: "crc32_le c (le32 a) = crc32_le c (le32 b) \<longleftrightarrow> a = b"
  unfolding crc32_le_bits bit.compl_eq_compl_iff by (rule crc_word_inj) (simp add: bit_numeral_rec)

text \<open>One step is injective in the register and in the byte, so a single changed byte changes every
  checksum that follows it.\<close>

lemma crc_byte_inj_reg: "crc_byte (0xEDB88320 :: u32) c b = crc_byte 0xEDB88320 d b \<longleftrightarrow> c = d"
proof -
  have "inj (crc_bit (0xEDB88320 :: u32) ^^ 8)"
    by (intro inj_fn crc_bit_inj) (simp add: bit_numeral_rec)
  then show ?thesis by (simp add: crc_byte_def inj_eq xor_right_cancel)
qed

lemma crc_byte_inj_byte: "crc_byte (0xEDB88320 :: u32) c a = crc_byte 0xEDB88320 c b \<longleftrightarrow> a = b"
proof -
  have "inj (crc_bit (0xEDB88320 :: u32) ^^ 8)"
    by (intro inj_fn crc_bit_inj) (simp add: bit_numeral_rec)
  moreover have "c XOR ucast a = c XOR ucast b \<longleftrightarrow> ucast a = (ucast b :: u32)"
    by (metis xor.commute xor_right_cancel)
  moreover have "(ucast a :: u32) = ucast b \<longleftrightarrow> a = b" 
  proof
    assume eq: "(ucast a :: u32) = ucast b"
    show "a = b"
    proof (rule bit_word_eqI)
      fix n assume "n < LENGTH(8)"
      then show "bit a n \<longleftrightarrow> bit b n"
        using arg_cong [OF eq, of "\<lambda>w. bit w n"] by (simp add: bit_simps)
    qed
  qed simp
  ultimately show ?thesis by (simp add: crc_byte_def inj_eq)
qed

lemma crc_fold_inj_reg:
  "foldl (crc_byte (0xEDB88320 :: u32)) c bs = foldl (crc_byte 0xEDB88320) d bs \<longleftrightarrow> c = d"
  by (induction bs arbitrary: c d) (simp_all add: crc_byte_inj_reg)

section \<open>Properties\<close>

text \<open>C40: The three table-driven checksums are the bit-serial shift registers of their polynomials
  (CRC-32 and CRC-16 with complemented input and output, CRC-8 plain), for every buffer and every
  starting value.\<close>

theorem crc_tables_bit_serial:
  "crc32_le c buf = NOT (foldl (crc_byte 0xEDB88320) (NOT c) buf) \<and>
   crc16_le d buf = NOT (foldl (crc_byte 0x8408) (NOT d) buf) \<and>
   esp_crc8 buf = foldl (crc_byte 0x8C) 0 buf"
  unfolding crc32_le_def crc16_le_def esp_crc8_def crc32_step_eq [abs_def] crc16_step_eq [abs_def]
    crc8_step_eq by blast

text \<open>Changing one byte of a buffer always changes its CRC-32.\<close>

theorem crc32_detects_byte:
  assumes "i < length buf" and "x \<noteq> buf ! i"
  shows "crc32_le c (buf[i := x]) \<noteq> crc32_le c buf"
proof -
  let ?f = "foldl (crc_byte (0xEDB88320 :: u32))"
  have split: "?f r (take i buf @ y # drop (Suc i) buf)
      = ?f (crc_byte 0xEDB88320 (?f r (take i buf)) y) (drop (Suc i) buf)" for r y by simp
  have "buf = take i buf @ buf ! i # drop (Suc i) buf" using assms(1) by (rule id_take_nth_drop)
  then have 1: "?f r buf = ?f (crc_byte 0xEDB88320 (?f r (take i buf)) (buf ! i)) (drop (Suc i) buf)" for r
    using split [of r "buf ! i"] by (simp only:)
  have 2: "?f r (buf[i := x]) = ?f (crc_byte 0xEDB88320 (?f r (take i buf)) x) (drop (Suc i) buf)" for r
    unfolding upd_conv_take_nth_drop [OF assms(1)] by (rule split)
  have "?f r (buf[i := x]) \<noteq> ?f r buf" for r
    unfolding 1 [of r] 2 [of r] crc_fold_inj_reg crc_byte_inj_byte by (rule assms(2))
  then show ?thesis by (simp add: crc32_le_bits)
qed

lemma crc32_detects_byte_witness: "crc32_le 0 ([1, 2, 3][1 := 7]) \<noteq> crc32_le 0 [1, 2, 3]"
  by (rule crc32_detects_byte) simp_all

end
