(* ===== verification/SpiFlash.thy ===== *)
theory SpiFlash
  imports Prelude "HOL-Library.Monad_Syntax"
begin

text \<open>
  The flash driver: \<open>components/spi_flash/src/spi_flash_raw.c\<close> (the wrappers over the ROM) and
  \<open>components/spi_flash/src/spi_flash.c\<close> (sector erase, page program, and the byte-granular
  \<open>spi_flash_read\<close>, \<open>spi_flash_write\<close>, \<open>spi_flash_erase_range\<close> built on them).  The mask-ROM
  routines and the chip behind them are the parameter \<open>rom\<close>, a record of functions on a chip state
  of any type; the locale \<open>nor_chip\<close> states what a NOR flash promises of them (programming only
  clears bits, erasing sets a sector to 0xFF, nothing else changes), for calls that respect the
  chip's word alignment and page boundaries, and allowing every operation to fail half way.  The
  locale \<open>flash_dev\<close> is the contract that the partition and OTA layers rely on; the driver meets it
  over any NOR chip (\<open>sublocale\<close>), and the chip with scripted faults at the end is a NOR chip.

  Addresses and sizes are natural numbers below \<open>2^32\<close>, with the \<open>size_t\<close> sums of the range checks
  wrapped as in C.  A routine whose loop may run for ever returns an option, \<open>None\<close> for not
  returning: \<open>spi_flash_program\<close> counts pages in a \<open>uint8_t\<close>.  Locking, the watchdog, cache control
  and log output have no effect on the data and are left out.
\<close>

section \<open>The ROM routines and their wrappers\<close>

record 'c flash_rom =
  chip_size :: nat
  SPI_read_data :: "'c \<Rightarrow> nat \<Rightarrow> nat \<Rightarrow> u8 list option"
  SPI_page_program :: "'c \<Rightarrow> nat \<Rightarrow> u8 list \<Rightarrow> esp_err \<times> 'c"
  SPI_write_enable :: "'c \<Rightarrow> esp_err \<times> 'c"
  SPI_sector_erase :: "'c \<Rightarrow> nat \<Rightarrow> esp_err \<times> 'c"
  SPI_read_status :: "'c \<Rightarrow> esp_err \<times> u32"
  SPI_write_status :: "'c \<Rightarrow> u32 \<Rightarrow> esp_err \<times> 'c"
  read_id :: "'c \<Rightarrow> u32"
  user_rx :: "'c \<Rightarrow> u8 \<Rightarrow> nat option \<Rightarrow> nat \<Rightarrow> nat \<Rightarrow> u32"
  user_tx :: "'c \<Rightarrow> u8 \<Rightarrow> u32 \<Rightarrow> nat \<Rightarrow> bool \<Rightarrow> 'c"

definition spi_flash_read_raw :: "'c flash_rom \<Rightarrow> 'c \<Rightarrow> nat \<Rightarrow> nat \<Rightarrow> u8 list option" where
  "spi_flash_read_raw rom c src_addr sz = SPI_read_data rom c src_addr sz"

definition spi_flash_write_raw :: "'c flash_rom \<Rightarrow> 'c \<Rightarrow> nat \<Rightarrow> u8 list \<Rightarrow> esp_err \<times> 'c" where
  "spi_flash_write_raw rom c dest_addr src = SPI_page_program rom c dest_addr src"

text \<open>The erase command is issued even when the write-enable command failed; only the code returned
  remembers the failure.\<close>

definition spi_flash_erase_sector_raw :: "'c flash_rom \<Rightarrow> 'c \<Rightarrow> nat \<Rightarrow> nat \<Rightarrow> esp_err \<times> 'c" where
  "spi_flash_erase_sector_raw rom c sec sec_size =
     (case SPI_write_enable rom c of (r1, c1) \<Rightarrow>
      case SPI_sector_erase rom c1 (sec * sec_size) of (r2, c2) \<Rightarrow>
        (if r1 \<noteq> ESP_OK \<or> r2 \<noteq> ESP_OK then ESP_ERR_FLASH_OP_FAIL else ESP_OK, c2))"

definition SPI_FLASH_SEC_SIZE :: nat where "SPI_FLASH_SEC_SIZE = 0x1000"
definition SPI_FLASH_PAGE_SIZE :: nat where "SPI_FLASH_PAGE_SIZE = 256"
definition SPI_READ_BUF_MAX :: nat where "SPI_READ_BUF_MAX = 64"

lemmas flash_consts = SPI_FLASH_SEC_SIZE_def SPI_FLASH_PAGE_SIZE_def SPI_READ_BUF_MAX_def

text \<open>\<open>NOT_ALIGN\<close>, \<open>FLASH_ALIGN\<close> and \<open>FLASH_ALIGN_BEFORE\<close> for the 4-byte word of the flash bus.\<close>

definition NOT_ALIGN :: "nat \<Rightarrow> bool" where
  "NOT_ALIGN a \<longleftrightarrow> a mod 4 \<noteq> 0"

definition FLASH_ALIGN :: "nat \<Rightarrow> nat" where
  "FLASH_ALIGN a = align_up 4 a"

definition FLASH_ALIGN_BEFORE :: "nat \<Rightarrow> nat" where
  "FLASH_ALIGN_BEFORE a = FLASH_ALIGN a - 4"

section \<open>Status register and write protection\<close>

definition spi_flash_read_status :: "'c flash_rom \<Rightarrow> 'c \<Rightarrow> esp_err \<times> u32" where
  "spi_flash_read_status rom c = SPI_read_status rom c"

definition spi_flash_write_status_raw :: "'c flash_rom \<Rightarrow> 'c \<Rightarrow> u32 \<Rightarrow> esp_err \<times> 'c" where
  "spi_flash_write_status_raw rom c status_value =
     (case SPI_write_enable rom c of (r1, c1) \<Rightarrow>
        if r1 \<noteq> ESP_OK then (ESP_ERR_FLASH_OP_FAIL, c1)
        else case SPI_write_status rom c1 status_value of (r2, c2) \<Rightarrow>
          if r2 \<noteq> ESP_OK then (ESP_ERR_FLASH_OP_FAIL, c2) else (ESP_OK, c2))"

text \<open>\<open>spi_flash_write_status\<close> drops the outcome of the raw routine.\<close>

definition spi_flash_write_status :: "'c flash_rom \<Rightarrow> 'c \<Rightarrow> u32 \<Rightarrow> esp_err \<times> 'c" where
  "spi_flash_write_status rom c status_value =
     (ESP_OK, snd (spi_flash_write_status_raw rom c status_value))"

definition special_flash_read_status :: "'c flash_rom \<Rightarrow> 'c \<Rightarrow> u8 \<Rightarrow> u32 \<Rightarrow> nat \<Rightarrow> bool \<times> u32" where
  "special_flash_read_status rom c command status len =
     (if 2 < len \<or> len < 1 then (False, status) else (True, user_rx rom c command None 0 len))"

definition special_flash_write_status ::
  "'c flash_rom \<Rightarrow> 'c \<Rightarrow> u8 \<Rightarrow> u32 \<Rightarrow> nat \<Rightarrow> bool \<Rightarrow> bool \<times> 'c" where
  "special_flash_write_status rom c command status len write_en =
     (if 2 < len \<or> len < 1 then (False, c)
      else (True, user_tx rom c command status (if 1 < len then 2 else 1) write_en))"

definition en25q16x_read_sfdp :: "'c flash_rom \<Rightarrow> 'c \<Rightarrow> u8" where
  "en25q16x_read_sfdp rom c = ucast (user_rx rom c 0x5a (Some 0x3000) 8 1)"

definition SPI_FLASH_RDSR2 :: u8 where "SPI_FLASH_RDSR2 = 0x35"
definition SPI_ISSI_FLASH_WRITE_PROTECT_STATUS :: u32 where
  "SPI_ISSI_FLASH_WRITE_PROTECT_STATUS = 0x3C"
definition SPI_GD25Q32_FLASH_WRITE_PROTECT_STATUS :: u32 where
  "SPI_GD25Q32_FLASH_WRITE_PROTECT_STATUS = 0x7C"
definition SPI_FLASH_PROTECT_STATUS :: u32 where "SPI_FLASH_PROTECT_STATUS = 0x407C"

text \<open>The step all chips but the generic one share: when the status register can be read and has a
  bit of the mask set, it is written back without the mask.\<close>

definition clear_status_mask :: "'c flash_rom \<Rightarrow> 'c \<Rightarrow> u32 \<Rightarrow> 'c" where
  "clear_status_mask rom c bits =
     (case spi_flash_read_status rom c of (r, status) \<Rightarrow>
        if r = ESP_OK \<and> status AND bits \<noteq> 0
        then snd (special_flash_write_status rom c 0x1 (status AND NOT bits) 1 True) else c)"

text \<open>\<open>spi_flash_check_wr_protect\<close> clears the protection bits in the way the chip's id asks for, and
  always answers true.  The two EN25Q16 masks are the ISSI mask.\<close>

definition spi_flash_check_wr_protect :: "'c flash_rom \<Rightarrow> 'c \<Rightarrow> bool \<times> 'c" where
  "spi_flash_check_wr_protect rom c =
     (let flash_id = read_id rom c in
      (True,
       if flash_id AND 0xffffff = 0x15701c then
         (let sfdp = en25q16x_read_sfdp rom c in
          if sfdp = 0xE5 then clear_status_mask rom c SPI_ISSI_FLASH_WRITE_PROTECT_STATUS
          else if sfdp = 0xED then clear_status_mask rom c SPI_ISSI_FLASH_WRITE_PROTECT_STATUS
          else c)
       else if flash_id AND 0xFF = 0x9D \<or> flash_id AND 0xFF = 0xC2 \<or> flash_id AND 0xFF = 0x1C then
         clear_status_mask rom c SPI_ISSI_FLASH_WRITE_PROTECT_STATUS
       else if flash_id = 0x1640C8 \<or> flash_id = 0x1840C8 then
         clear_status_mask rom c SPI_GD25Q32_FLASH_WRITE_PROTECT_STATUS
       else (case spi_flash_read_status rom c of (r, status) \<Rightarrow>
          if r = ESP_OK then
            (let status1 = snd (special_flash_read_status rom c SPI_FLASH_RDSR2 0 1);
                 status = push_bit 8 status1 OR (status AND 0xff) in
             if status AND SPI_FLASH_PROTECT_STATUS \<noteq> 0
             then snd (spi_flash_write_status rom c (status AND NOT SPI_FLASH_PROTECT_STATUS AND 0xffff))
             else c)
          else c)))"

section \<open>Erase\<close>

definition spi_flash_erase_sector :: "'c flash_rom \<Rightarrow> 'c \<Rightarrow> nat \<Rightarrow> esp_err \<times> 'c" where
  "spi_flash_erase_sector rom c sec =
     (if chip_size rom div SPI_FLASH_SEC_SIZE \<le> sec then (ESP_ERR_FLASH_OP_FAIL, c)
      else case spi_flash_check_wr_protect rom c of
        (False, c) \<Rightarrow> (ESP_ERR_FLASH_OP_FAIL, c)
      | (True, c) \<Rightarrow> spi_flash_erase_sector_raw rom c sec SPI_FLASH_SEC_SIZE)"

text \<open>The \<open>do \<dots> while (ret == ESP_OK && --num)\<close> loop: \<open>num\<close> is a \<open>size_t\<close>, so the predecessor of 0
  is \<open>2^32 - 1\<close>.  It ends because a sector past the end of the chip is refused.\<close>

function erase_loop :: "'c flash_rom \<Rightarrow> 'c \<Rightarrow> nat \<Rightarrow> nat \<Rightarrow> esp_err \<times> 'c" where
  "erase_loop rom c sec num =
     (case spi_flash_erase_sector rom c sec of (ret, c') \<Rightarrow>
        (let num' = (if num = 0 then 2 ^ 32 - 1 else num - 1) in
         if ret = ESP_OK \<and> num' \<noteq> 0 then erase_loop rom c' (Suc sec) num'
         else (ret, c')))"
  by pat_completeness auto
termination
  by (relation "measure (\<lambda>(rom, c, sec, num). chip_size rom div SPI_FLASH_SEC_SIZE - sec)")
    (auto simp: spi_flash_erase_sector_def split: if_splits)

declare erase_loop.simps [simp del]

definition spi_flash_erase_range :: "'c flash_rom \<Rightarrow> 'c \<Rightarrow> nat \<Rightarrow> nat \<Rightarrow> esp_err \<times> 'c" where
  "spi_flash_erase_range rom c start_address sz =
     (if start_address mod SPI_FLASH_SEC_SIZE \<noteq> 0 \<or> sz mod SPI_FLASH_SEC_SIZE \<noteq> 0
      then (ESP_ERR_FLASH_OP_FAIL, c)
      else case spi_flash_check_wr_protect rom c of
        (False, c) \<Rightarrow> (ESP_ERR_FLASH_OP_FAIL, c)
      | (True, c) \<Rightarrow> erase_loop rom c (start_address div SPI_FLASH_SEC_SIZE)
                        (sz div SPI_FLASH_SEC_SIZE))"

section \<open>Read\<close>

definition flash_read_raw :: "'c flash_rom \<Rightarrow> 'c \<Rightarrow> nat \<Rightarrow> nat \<Rightarrow> esp_err + u8 list" where
  "flash_read_raw rom c src_addr sz =
     (case spi_flash_read_raw rom c src_addr sz of None \<Rightarrow> Inl ESP_ERR_FLASH_OP_FAIL | Some bs \<Rightarrow> Inr bs)"

text \<open>The loop \<open>while (size)\<close> of the unaligned path: at most 64 bytes at a time, whole words.\<close>

function read_chunks :: "'c flash_rom \<Rightarrow> 'c \<Rightarrow> nat \<Rightarrow> nat \<Rightarrow> esp_err + u8 list" where
  "read_chunks rom c src_addr sz =
     (if sz = 0 then Inr []
      else let len = (if SPI_READ_BUF_MAX \<le> sz then SPI_READ_BUF_MAX else sz);
               wlen = FLASH_ALIGN len in
        case flash_read_raw rom c src_addr wlen of
          Inl e \<Rightarrow> Inl e
        | Inr buf \<Rightarrow> (case read_chunks rom c (src_addr + len) (sz - len) of
              Inl e \<Rightarrow> Inl e
            | Inr rest \<Rightarrow> Inr (take len buf @ rest)))"
  by pat_completeness auto
termination
  by (relation "measure (\<lambda>(rom, c, a, n). n)") (auto simp: flash_consts)

declare read_chunks.simps [simp del]

text \<open>\<open>dest_na\<close> is the outcome of \<open>NOT_ALIGN(dest)\<close> for the caller's buffer.\<close>

definition spi_flash_read :: "'c flash_rom \<Rightarrow> 'c \<Rightarrow> bool \<Rightarrow> nat \<Rightarrow> nat \<Rightarrow> esp_err + u8 list" where
  "spi_flash_read rom c dest_na src_addr sz =
     (if sz = 0 then Inr []
      else if NOT_ALIGN src_addr \<or> dest_na \<or> NOT_ALIGN sz then
        (if NOT_ALIGN src_addr then
           let r_addr = FLASH_ALIGN_BEFORE src_addr;
               c_off = src_addr - r_addr;
               wbytes = 4 - c_off;
               wbytes = (if sz < wbytes then sz else wbytes) in
           case flash_read_raw rom c r_addr 4 of
             Inl e \<Rightarrow> Inl e
           | Inr buf \<Rightarrow> (case read_chunks rom c (src_addr + wbytes) (sz - wbytes) of
                 Inl e \<Rightarrow> Inl e
               | Inr rest \<Rightarrow> Inr (take wbytes (drop c_off buf) @ rest))
         else read_chunks rom c src_addr sz)
      else flash_read_raw rom c src_addr sz)"

section \<open>Program and write\<close>

text \<open>The whole pages of \<open>spi_flash_program\<close>: \<open>i\<close> is the \<open>uint8_t\<close> counter, \<open>n\<close> is \<open>pgm_num\<close>, and
  the source pointer advances in words (\<open>src_addr + (pgm_len >> 2)\<close>).\<close>

partial_function (option) program_pages ::
  "'c flash_rom \<Rightarrow> 'c \<Rightarrow> u8 \<Rightarrow> nat \<Rightarrow> nat \<Rightarrow> u8 list \<Rightarrow> nat \<Rightarrow> (esp_err \<times> nat \<times> 'c) option" where
  "program_pages rom c i n target src pgm_len =
     (if unat i < n then
        (case spi_flash_write_raw rom c (target + pgm_len)
            (take SPI_FLASH_PAGE_SIZE (drop (4 * (pgm_len div 4)) src)) of
          (ret, c') \<Rightarrow>
            if ret \<noteq> ESP_OK then Some (ESP_ERR_FLASH_OP_FAIL, pgm_len, c')
            else program_pages rom c' (i + 1) n target src (pgm_len + SPI_FLASH_PAGE_SIZE))
      else Some (ESP_OK, pgm_len, c))"

definition spi_flash_program ::
  "'c flash_rom \<Rightarrow> 'c \<Rightarrow> nat \<Rightarrow> u8 list \<Rightarrow> (esp_err \<times> 'c) option" where
  "spi_flash_program rom c target src =
     (let len = length src;
          pgm_len = SPI_FLASH_PAGE_SIZE - target mod SPI_FLASH_PAGE_SIZE in
      if len < pgm_len then
        (case spi_flash_write_raw rom c target src of (ret, c') \<Rightarrow>
           if ret \<noteq> ESP_OK then Some (ESP_ERR_FLASH_OP_FAIL, c') else Some (ESP_OK, c'))
      else
        (case spi_flash_write_raw rom c target (take pgm_len src) of (ret, c') \<Rightarrow>
           if ret \<noteq> ESP_OK then Some (ESP_ERR_FLASH_OP_FAIL, c')
           else do {
             (ret, pgm_len, c'') \<leftarrow> program_pages rom c' 0 ((len - pgm_len) div SPI_FLASH_PAGE_SIZE)
                                      target src pgm_len;
             if ret \<noteq> ESP_OK then Some (ESP_ERR_FLASH_OP_FAIL, c'')
             else (case spi_flash_write_raw rom c'' (target + pgm_len)
                       (take (len - pgm_len) (drop (4 * (pgm_len div 4)) src)) of
                 (ret, c3) \<Rightarrow> if ret \<noteq> ESP_OK then Some (ESP_ERR_FLASH_OP_FAIL, c3)
                              else Some (ESP_OK, c3))
           }))"

text \<open>The loop \<open>while (size > 0)\<close> of \<open>spi_flash_write\<close>: the last word is read back so that the bytes
  after the data keep their value.\<close>

definition chunk_tail :: "'c flash_rom \<Rightarrow> 'c \<Rightarrow> nat \<Rightarrow> nat \<Rightarrow> esp_err + u8 list" where
  "chunk_tail rom c dest_addr len =
     (let wlen = FLASH_ALIGN len in
      if wlen \<noteq> len then
        (let l_b = wlen - 4 in
         case spi_flash_read rom c False (dest_addr + l_b) 4 of
           Inl e \<Rightarrow> Inl e
         | Inr w \<Rightarrow> Inr (drop (len - l_b) w))
      else Inr [])"

function write_chunks ::
  "'c flash_rom \<Rightarrow> 'c \<Rightarrow> nat \<Rightarrow> u8 list \<Rightarrow> (esp_err \<times> 'c) option" where
  "write_chunks rom c dest_addr src =
     (if src = [] then Some (ESP_OK, c)
      else let len = (if SPI_READ_BUF_MAX \<le> length src then SPI_READ_BUF_MAX else length src) in
        case chunk_tail rom c dest_addr len of
          Inl e \<Rightarrow> Some (e, c)
        | Inr rest \<Rightarrow> do {
            (ret, c') \<leftarrow> spi_flash_program rom c dest_addr (take len src @ rest);
            if ret \<noteq> ESP_OK then Some (ret, c')
            else write_chunks rom c' (dest_addr + len) (drop len src)
          })"
  by pat_completeness auto
termination
  by (relation "measure (\<lambda>(rom, c, a, src). length src)") (auto simp: flash_consts)

declare write_chunks.simps [simp del]

text \<open>\<open>src_na\<close> is the outcome of \<open>NOT_ALIGN(src) || IS_FLASH(src)\<close>; \<open>src = None\<close> is the null pointer.\<close>

definition spi_flash_write ::
  "'c flash_rom \<Rightarrow> 'c \<Rightarrow> bool \<Rightarrow> nat \<Rightarrow> u8 list option \<Rightarrow> nat \<Rightarrow> (esp_err \<times> 'c) option" where
  "spi_flash_write rom c src_na dest_addr src sz =
     (if sz = 0 then Some (ESP_OK, c)
      else case src of None \<Rightarrow> Some (ESP_ERR_FLASH_OP_FAIL, c) | Some src \<Rightarrow>
        if chip_size rom < (dest_addr + sz) mod 2 ^ 32 then Some (ESP_ERR_FLASH_OP_FAIL, c)
        else case spi_flash_check_wr_protect rom c of
          (False, c) \<Rightarrow> Some (ESP_ERR_FLASH_OP_FAIL, c)
        | (True, c) \<Rightarrow>
            let tmp = take sz src in
            if NOT_ALIGN dest_addr \<or> src_na \<or> NOT_ALIGN sz then
              (if NOT_ALIGN dest_addr then
                 let r_addr = FLASH_ALIGN_BEFORE dest_addr;
                     c_off = dest_addr - r_addr;
                     wbytes = 4 - c_off;
                     wbytes = (if sz < wbytes then sz else wbytes) in
                 case spi_flash_read rom c False r_addr 4 of
                   Inl e \<Rightarrow> Some (e, c)
                 | Inr buf \<Rightarrow> do {
                     (ret, c') \<leftarrow> spi_flash_program rom c r_addr
                        (take c_off buf @ take wbytes tmp @ drop (c_off + wbytes) buf);
                     if ret \<noteq> ESP_OK then Some (ret, c')
                     else write_chunks rom c' (dest_addr + wbytes) (drop wbytes tmp)
                   }
               else write_chunks rom c dest_addr tmp)
            else spi_flash_program rom c dest_addr tmp)"

section \<open>What a NOR chip promises\<close>

text \<open>\<open>and_write m a bs\<close> programs \<open>bs\<close> at \<open>a\<close>: bits are only cleared.  \<open>programmed\<close> relates the
  memory before and after a programming command that may have stopped half way: every bit has its
  old or its new value.\<close>

definition and_write :: "memory \<Rightarrow> nat \<Rightarrow> u8 list \<Rightarrow> memory" where
  "and_write m a bs = (\<lambda>b. if a \<le> b \<and> b < a + length bs then m b AND bs ! (b - a) else m b)"

definition byte_between :: "u8 \<Rightarrow> u8 \<Rightarrow> u8 \<Rightarrow> bool" where
  "byte_between old v new \<longleftrightarrow> new OR old = old \<and> new AND (old AND v) = old AND v"

definition programmed :: "memory \<Rightarrow> nat \<Rightarrow> u8 list \<Rightarrow> memory \<Rightarrow> bool" where
  "programmed m a bs m' \<longleftrightarrow>
     (\<forall>b. if a \<le> b \<and> b < a + length bs then byte_between (m b) (bs ! (b - a)) (m' b) else m' b = m b)"

definition erased :: "memory \<Rightarrow> nat \<Rightarrow> nat \<Rightarrow> memory" where
  "erased m a n = (\<lambda>b. if a \<le> b \<and> b < a + n then 0xFF else m b)"

lemma byte_between_refl [simp]: "byte_between old v old"
  by (simp add: byte_between_def bit_eq_iff bit_simps)

lemma byte_between_and [simp]: "byte_between old v (old AND v)"
  by (simp add: byte_between_def bit_eq_iff bit_simps)

lemma byte_between_same [simp]: "byte_between old old new \<longleftrightarrow> new = old"
  by (auto simp: byte_between_def bit_eq_iff bit_simps)

lemma programmed_refl [simp]: "programmed m a bs m"
  by (simp add: programmed_def)

lemma programmed_and_write [simp]: "programmed m a bs (and_write m a bs)"
  by (simp add: programmed_def and_write_def)

lemma programmed_Nil [simp]: "programmed m a [] m' \<longleftrightarrow> m' = m"
  by (auto simp: programmed_def)

lemma and_write_Nil [simp]: "and_write m a [] = m"
  by (rule ext) (auto simp: and_write_def)

lemma programmed_out: "programmed m a bs m' \<Longrightarrow> b < a \<or> a + length bs \<le> b \<Longrightarrow> m' b = m b"
  by (auto simp: programmed_def dest: spec [where x = b])

lemma programmed_in:
  "programmed m a bs m' \<Longrightarrow> i < length bs \<Longrightarrow> byte_between (m (a + i)) (bs ! i) (m' (a + i))"
  by (auto simp: programmed_def dest: spec [where x = "a + i"])

lemma programmedI:
  assumes "\<And>b. b < a \<or> a + length bs \<le> b \<Longrightarrow> m' b = m b"
    and "\<And>i. i < length bs \<Longrightarrow> byte_between (m (a + i)) (bs ! i) (m' (a + i))"
  shows "programmed m a bs m'"
  unfolding programmed_def
proof (intro allI)
  fix b
  show "if a \<le> b \<and> b < a + length bs then byte_between (m b) (bs ! (b - a)) (m' b) else m' b = m b"
    using assms(1) [of b] assms(2) [of "b - a"] by auto
qed

lemma and_write_append: "and_write (and_write m a bs) (a + length bs) cs = and_write m a (bs @ cs)"
  by (auto simp: and_write_def fun_eq_iff nth_append)

lemma programmed_append:
  assumes 1: "programmed m a bs m1" and 2: "programmed m1 (a + length bs) cs m2"
  shows "programmed m a (bs @ cs) m2"
proof (rule programmedI)
  fix b assume "b < a \<or> a + length (bs @ cs) \<le> b"
  then show "m2 b = m b" using programmed_out [OF 1, of b] programmed_out [OF 2, of b] by auto
next
  fix i assume i: "i < length (bs @ cs)"
  show "byte_between (m (a + i)) ((bs @ cs) ! i) (m2 (a + i))"
  proof (cases "i < length bs")
    case True
    then show ?thesis
      using programmed_in [OF 1 True] programmed_out [OF 2, of "a + i"] by (simp add: nth_append)
  next
    case False
    then show ?thesis
      using programmed_in [OF 2, of "i - length bs"] programmed_out [OF 1, of "a + i"] i
      by (simp add: nth_append)
  qed
qed

lemma programmed_prefix: "programmed m a bs m1 \<Longrightarrow> programmed m a (bs @ cs) m1"
  by (rule programmed_append [where ?m1.0 = m1]) auto

text \<open>Programming a block whose ends are the bytes already there programs the middle only.\<close>

lemma programmed_middle:
  assumes p: "programmed m a (mget m a k @ bs @ mget m (a + k + length bs) j) m'"
  shows "programmed m (a + k) bs m'"
proof (rule programmedI)
  let ?xs = "mget m a k @ bs @ mget m (a + k + length bs) j"
  fix b assume out: "b < a + k \<or> a + k + length bs \<le> b"
  show "m' b = m b"
  proof (cases "a \<le> b \<and> b < a + length ?xs")
    case True
    then have "?xs ! (b - a) = m b" using out by (auto simp: nth_append)
    moreover have "b - a < length ?xs" using True by auto
    ultimately show ?thesis using programmed_in [OF p, of "b - a"] True by simp
  qed (use programmed_out [OF p] in auto)
next
  fix i assume "i < length bs"
  then show "byte_between (m (a + k + i)) (bs ! i) (m' (a + k + i))"
    using programmed_in [OF p, of "k + i"] by (simp add: nth_append add.assoc)
qed

lemma and_write_middle:
  "and_write m a (mget m a k @ bs @ mget m (a + k + length bs) j) = and_write m (a + k) bs"
  by (rule ext) (auto simp: and_write_def nth_append)

lemma and_write_erased:
  assumes "\<forall>i<length bs. m (a + i) = 0xFF"
  shows "and_write m a bs = mcpy m a bs"
proof (rule ext)
  fix b
  have ff: "(0xFF :: u8) = mask 8" by (simp add: mask_eq_exp_minus_1)
  have "(0xFF :: u8) AND x = x" for x
    unfolding ff by (rule bit_word_eqI) (simp add: bit_simps)
  then show "and_write m a bs b = mcpy m a bs b"
    using assms [rule_format, of "b - a"] by (auto simp: and_write_def mcpy_def)
qed

text \<open>What a write of \<open>bs\<close> at \<open>a\<close> that returned \<open>rc\<close> has done to the chip.\<close>

definition write_outcome :: "('c \<Rightarrow> memory) \<Rightarrow> 'c \<Rightarrow> nat \<Rightarrow> u8 list \<Rightarrow> esp_err \<times> 'c \<Rightarrow> bool" where
  "write_outcome view c a bs rc \<longleftrightarrow>
     programmed (view c) a bs (view (snd rc)) \<and>
     (fst rc = ESP_OK \<longrightarrow> view (snd rc) = and_write (view c) a bs)"

definition erase_outcome :: "('c \<Rightarrow> memory) \<Rightarrow> 'c \<Rightarrow> nat \<Rightarrow> nat \<Rightarrow> esp_err \<times> 'c \<Rightarrow> bool" where
  "erase_outcome view c a n rc \<longleftrightarrow>
     (\<forall>b. b < a \<or> a + n \<le> b \<longrightarrow> view (snd rc) b = view c b) \<and>
     (fst rc = ESP_OK \<longrightarrow> view (snd rc) = erased (view c) a n)"

lemma write_outcome_seq:
  assumes "write_outcome view c a bs (ESP_OK, c1)" and "write_outcome view c1 (a + length bs) cs (r, c2)"
  shows "write_outcome view c a (bs @ cs) (r, c2)"
  using assms and_write_append [of "view c" a bs cs]
    programmed_append [of "view c" a bs "view c1" cs "view c2"]
  by (auto simp: write_outcome_def)

lemma write_outcome_fail:
  "\<lbrakk>write_outcome view c a bs (r, c1); r' \<noteq> ESP_OK\<rbrakk> \<Longrightarrow> write_outcome view c a (bs @ cs) (r', c1)"
  by (simp add: write_outcome_def programmed_prefix)

lemma write_outcome_none: "r \<noteq> ESP_OK \<Longrightarrow> view c' = view c \<Longrightarrow> write_outcome view c a bs (r, c')"
  by (simp add: write_outcome_def)

lemma write_outcome_Nil: "view c' = view c \<Longrightarrow> write_outcome view c a [] (r, c')"
  by (simp add: write_outcome_def)

lemma write_outcome_view: "view c1 = view c \<Longrightarrow> write_outcome view c1 a bs rc = write_outcome view c a bs rc"
  by (simp add: write_outcome_def)

lemma write_outcome_middle:
  "write_outcome view c a (mget (view c) a k @ bs @ mget (view c) (a + k + length bs) j) rc
   \<Longrightarrow> write_outcome view c (a + k) bs rc"
  by (auto simp: write_outcome_def and_write_middle dest: programmed_middle)

lemma erase_outcome_seq:
  assumes "erase_outcome view c a m (ESP_OK, c1)" and "erase_outcome view c1 (a + m) n rc"
  shows "erase_outcome view c a (m + n) rc"
  using assms by (auto simp: erase_outcome_def erased_def fun_eq_iff)

lemma FLASH_ALIGN_dvd [simp]: "4 dvd FLASH_ALIGN n"
  by (simp add: FLASH_ALIGN_def)

lemma FLASH_ALIGN_bounds: "n < 2 ^ 32 - 4 \<Longrightarrow> n \<le> FLASH_ALIGN n \<and> FLASH_ALIGN n < n + 4"
  using align_up_ge [of 4 n] align_up_less [of 4 n] by (simp add: FLASH_ALIGN_def)

lemma FLASH_ALIGN_le: "\<lbrakk>4 dvd a; a + n \<le> s; 4 dvd s; s < 2 ^ 32 - 4\<rbrakk> \<Longrightarrow> a + FLASH_ALIGN n \<le> s"
proof -
  assume "4 dvd a" "a + n \<le> s" "4 dvd s" "s < 2 ^ 32 - 4"
  then obtain i j where ij: "a = 4 * i" "s = 4 * j" by (blast elim: dvdE)
  obtain q where q: "FLASH_ALIGN n = 4 * q" using FLASH_ALIGN_dvd [of n] by (blast elim: dvdE)
  have "n < 2 ^ 32 - 4" using \<open>a + n \<le> s\<close> \<open>s < 2 ^ 32 - 4\<close> by linarith
  then have "4 * q < n + 4" using FLASH_ALIGN_bounds [of n] q by simp
  moreover have "4 * i + n \<le> 4 * j" using ij \<open>a + n \<le> s\<close> by simp
  ultimately have "i + q \<le> j" by presburger
  then show ?thesis using ij q by simp
qed

lemma dvd_room: "\<lbrakk>4 dvd a; 4 dvd s; a < s\<rbrakk> \<Longrightarrow> a + 4 \<le> (s :: nat)"
  by (elim dvdE) simp

lemma FLASH_ALIGN_BEFORE_eq:
  assumes "NOT_ALIGN a" and "a < 2 ^ 32 - 4"
  shows "FLASH_ALIGN_BEFORE a = a div 4 * 4"
proof -
  obtain q where q: "FLASH_ALIGN a = 4 * q" using FLASH_ALIGN_dvd [of a] by (blast elim: dvdE)
  have "a div 4 * 4 + a mod 4 = a" "a mod 4 < 4" "a mod 4 \<noteq> 0"
    using assms(1) by (simp_all add: NOT_ALIGN_def)
  then have "q = a div 4 + 1" using FLASH_ALIGN_bounds [OF assms(2)] q by linarith
  then show ?thesis using q by (simp add: FLASH_ALIGN_BEFORE_def)
qed

locale nor_chip =
  fixes rom :: "'c flash_rom" and view :: "'c \<Rightarrow> memory"
  assumes chip_size_bound: "chip_size rom \<le> 2 ^ 31"
    and chip_size_sectors: "SPI_FLASH_SEC_SIZE dvd chip_size rom"
    and SPI_read_data: "\<lbrakk>4 dvd a; 4 dvd n; a + n \<le> chip_size rom; SPI_read_data rom c a n = Some bs\<rbrakk>
      \<Longrightarrow> bs = mget (view c) a n"
    and SPI_page_program: "\<lbrakk>4 dvd a; 4 dvd length bs; a + length bs \<le> chip_size rom;
        a mod SPI_FLASH_PAGE_SIZE + length bs \<le> SPI_FLASH_PAGE_SIZE\<rbrakk>
      \<Longrightarrow> write_outcome view c a bs (SPI_page_program rom c a bs)"
    and SPI_sector_erase: "\<lbrakk>SPI_FLASH_SEC_SIZE dvd a; a < chip_size rom\<rbrakk>
      \<Longrightarrow> erase_outcome view c a SPI_FLASH_SEC_SIZE (SPI_sector_erase rom c a)"
    and SPI_write_enable: "view (snd (SPI_write_enable rom c)) = view c"
    and SPI_write_status: "view (snd (SPI_write_status rom c st)) = view c"
    and user_tx: "view (user_tx rom c cmd st len en) = view c"

text \<open>The contract of the driver for the layers above.\<close>

locale flash_dev =
  fixes rom :: "'c flash_rom" and view :: "'c \<Rightarrow> memory"
  assumes read_ok: "\<lbrakk>a + n \<le> chip_size rom; spi_flash_read rom c na a n = Inr bs\<rbrakk>
      \<Longrightarrow> bs = mget (view c) a n"
    and read_fail: "spi_flash_read rom c na a n = Inl e \<Longrightarrow> e \<noteq> ESP_OK"
    and write_ok: "\<lbrakk>length bs \<le> 65536; a + length bs < 2 ^ 32\<rbrakk>
      \<Longrightarrow> \<exists>rc. spi_flash_write rom c na a (Some bs) (length bs) = Some rc \<and> write_outcome view c a bs rc"
    and erase_ok: "0 < n \<Longrightarrow> erase_outcome view c a n (spi_flash_erase_range rom c a n)"

context nor_chip
begin

lemma chip_dvd: "4 dvd chip_size rom"
  using chip_size_sectors by (auto simp: flash_consts elim: dvd_trans [rotated])

lemma view_status_writes [simp]:
  "view (snd (spi_flash_write_status rom c st)) = view c"
  "view (snd (special_flash_write_status rom c cmd st len en)) = view c"
  "view (clear_status_mask rom c bits) = view c"
  using SPI_write_enable [of c] SPI_write_status
  by (auto simp: spi_flash_write_status_def spi_flash_write_status_raw_def user_tx
      special_flash_write_status_def clear_status_mask_def split: prod.splits)
     (metis snd_conv)+

lemma check_wr_protect:
  "\<exists>c'. spi_flash_check_wr_protect rom c = (True, c') \<and> view c' = view c"
  by (auto simp: spi_flash_check_wr_protect_def Let_def split: prod.splits)

lemma erase_sector:
  "erase_outcome view c (sec * SPI_FLASH_SEC_SIZE) SPI_FLASH_SEC_SIZE (spi_flash_erase_sector rom c sec)"
proof (cases "chip_size rom div SPI_FLASH_SEC_SIZE \<le> sec")
  case True
  then show ?thesis by (simp add: spi_flash_erase_sector_def erase_outcome_def)
next
  case False
  obtain c1 where c1: "spi_flash_check_wr_protect rom c = (True, c1)" "view c1 = view c"
    using check_wr_protect by blast
  obtain r2 c2 where c2: "SPI_write_enable rom c1 = (r2, c2)" by fastforce
  then have v2: "view c2 = view c" using SPI_write_enable [of c1] c1 by simp
  obtain r3 c3 where c3: "SPI_sector_erase rom c2 (sec * SPI_FLASH_SEC_SIZE) = (r3, c3)" by fastforce
  have "sec < chip_size rom div SPI_FLASH_SEC_SIZE" using False by simp
  then have "sec * SPI_FLASH_SEC_SIZE < chip_size rom div SPI_FLASH_SEC_SIZE * SPI_FLASH_SEC_SIZE"
    by (simp add: flash_consts)
  also have "\<dots> \<le> chip_size rom" by simp
  finally have "erase_outcome view c2 (sec * SPI_FLASH_SEC_SIZE) SPI_FLASH_SEC_SIZE (r3, c3)"
    using SPI_sector_erase [of "sec * SPI_FLASH_SEC_SIZE" c2] c3 by simp
  then show ?thesis using False c1 c2 c3 v2
    by (auto simp: spi_flash_erase_sector_def spi_flash_erase_sector_raw_def erase_outcome_def)
qed

lemma erase_loop:
  "0 < num \<Longrightarrow> erase_outcome view c (sec * SPI_FLASH_SEC_SIZE) (num * SPI_FLASH_SEC_SIZE)
     (erase_loop rom c sec num)"
proof (induction num arbitrary: c sec)
  case (Suc num)
  obtain r c1 where c1: "spi_flash_erase_sector rom c sec = (r, c1)" by fastforce
  have e: "erase_outcome view c (sec * SPI_FLASH_SEC_SIZE) SPI_FLASH_SEC_SIZE (r, c1)"
    using erase_sector [of c sec] c1 by simp
  show ?case
  proof (cases "r = ESP_OK \<and> num \<noteq> 0")
    case True
    then have "erase_outcome view c1 (Suc sec * SPI_FLASH_SEC_SIZE) (num * SPI_FLASH_SEC_SIZE)
      (erase_loop rom c1 (Suc sec) num)" using Suc.IH [of c1 "Suc sec"] by blast
    with erase_outcome_seq [of view c "sec * SPI_FLASH_SEC_SIZE" SPI_FLASH_SEC_SIZE c1
        "num * SPI_FLASH_SEC_SIZE"] e True
    have "erase_outcome view c (sec * SPI_FLASH_SEC_SIZE) (Suc num * SPI_FLASH_SEC_SIZE)
      (erase_loop rom c1 (Suc sec) num)" by (simp add: add.commute [of "sec * SPI_FLASH_SEC_SIZE"])
    then show ?thesis using True c1 by (simp add: erase_loop.simps [of rom c sec])
  next
    case False
    then show ?thesis using e c1
      by (cases "num = 0") (auto simp: erase_loop.simps [of rom c sec] erase_outcome_def)
  qed
qed simp

lemma erase_range:
  assumes "0 < n"
  shows "erase_outcome view c a n (spi_flash_erase_range rom c a n)"
proof (cases "a mod SPI_FLASH_SEC_SIZE \<noteq> 0 \<or> n mod SPI_FLASH_SEC_SIZE \<noteq> 0")
  case True
  then show ?thesis by (simp add: spi_flash_erase_range_def erase_outcome_def)
next
  case False
  obtain c1 where c1: "spi_flash_check_wr_protect rom c = (True, c1)" "view c1 = view c"
    using check_wr_protect by blast
  have "0 < n div SPI_FLASH_SEC_SIZE" using assms False
    by (metis div_mult_mod_eq gr0I mult_0 add.right_neutral less_irrefl)
  then have "erase_outcome view c1 a n (erase_loop rom c1 (a div SPI_FLASH_SEC_SIZE) (n div SPI_FLASH_SEC_SIZE))"
    using erase_loop [of "n div SPI_FLASH_SEC_SIZE" c1 "a div SPI_FLASH_SEC_SIZE"] False by auto
  then show ?thesis using False c1 by (simp add: spi_flash_erase_range_def erase_outcome_def)
qed

lemma size_bounds: "a \<le> chip_size rom \<Longrightarrow> a < 2 ^ 32 - 4"
  using chip_size_bound by simp

lemma raw_read:
  "\<lbrakk>4 dvd a; 4 dvd n; a + n \<le> chip_size rom; flash_read_raw rom c a n = Inr bs\<rbrakk>
   \<Longrightarrow> bs = mget (view c) a n"
  using SPI_read_data [of a n c]
  by (auto simp: flash_read_raw_def spi_flash_read_raw_def split: option.splits)

lemma read_chunks_err: "read_chunks rom c a n = Inl e \<Longrightarrow> e = ESP_ERR_FLASH_OP_FAIL"
proof (induction rom c a n rule: read_chunks.induct)
  case (1 rom c a n)
  then show ?case
    by (auto simp: read_chunks.simps [of rom c a n] flash_read_raw_def Let_def
        split: if_splits sum.splits option.splits)
qed

lemma read_err: "spi_flash_read rom c na a n = Inl e \<Longrightarrow> e = ESP_ERR_FLASH_OP_FAIL"
  using read_chunks_err
  by (auto simp: spi_flash_read_def flash_read_raw_def Let_def split: if_splits sum.splits option.splits)

lemma read_fail: "spi_flash_read rom c na a n = Inl e \<Longrightarrow> e \<noteq> ESP_OK"
  by (auto dest: read_err)

lemma read_chunks_ok:
  "\<lbrakk>4 dvd a; a + n \<le> chip_size rom; read_chunks rom c a n = Inr bs\<rbrakk> \<Longrightarrow> bs = mget (view c) a n"
proof (induction n arbitrary: a bs rule: less_induct)
  case (less n)
  show ?case
  proof (cases "n = 0")
    case True
    then show ?thesis using less.prems by (simp add: read_chunks.simps [of rom c a])
  next
    case False
    define len where "len = (if SPI_READ_BUF_MAX \<le> n then SPI_READ_BUF_MAX else n)"
    have len: "0 < len" "len \<le> n" "4 dvd len \<or> len = n"
      using False by (auto simp: len_def flash_consts)
    obtain buf rest where r: "flash_read_raw rom c a (FLASH_ALIGN len) = Inr buf"
      "read_chunks rom c (a + len) (n - len) = Inr rest" "bs = take len buf @ rest"
      using less.prems(3) False
      by (auto simp: read_chunks.simps [of rom c a n] len_def [symmetric] Let_def split: sum.splits)
    have "buf = mget (view c) a (FLASH_ALIGN len)"
      using raw_read [of a "FLASH_ALIGN len" c] r(1) less.prems(1,2) len chip_dvd
        FLASH_ALIGN_le [of a len "chip_size rom"] size_bounds [of "chip_size rom"] by simp
    moreover have "len \<le> FLASH_ALIGN len"
      using FLASH_ALIGN_bounds [of len] size_bounds [of len] len less.prems(2) by simp
    ultimately have "take len buf = mget (view c) a len"
      by (auto intro!: nth_equalityI)
    moreover have "rest = mget (view c) (a + len) (n - len)"
    proof (cases "len = n")
      case True
      then show ?thesis using r(2) by (simp add: read_chunks.simps [of rom c _ 0])
    next
      case False
      then show ?thesis using less.IH [of "n - len" "a + len" rest] less.prems(1,2) len r(2) by auto
    qed
    ultimately show ?thesis using r(3) len mget_add [of "view c" a len "n - len"] by simp
  qed
qed

lemma read_ok:
  assumes "a + n \<le> chip_size rom" and "spi_flash_read rom c na a n = Inr bs"
  shows "bs = mget (view c) a n"
proof (cases "n = 0 \<or> \<not> NOT_ALIGN a")
  case True
  then show ?thesis using assms raw_read [of a n c bs] read_chunks_ok [of a n c bs]
    by (auto simp: spi_flash_read_def NOT_ALIGN_def mod_eq_0_iff_dvd split: if_splits)
next
  case False
  define r where "r = a div 4 * 4"
  define k where "k = a - r"
  define w where "w = (if n < 4 - (a - r) then n else 4 - (a - r))"
  have a: "a < 2 ^ 32 - 4" using assms(1) size_bounds [of a] by simp
  have k: "0 < k" "k < 4" "a = r + k" "4 dvd r"
  proof -
    have "r + a mod 4 = a" by (simp add: r_def)
    moreover have "0 < a mod 4" "a mod 4 < 4" using False by (auto simp: NOT_ALIGN_def)
    ultimately show "0 < k" "k < 4" "a = r + k" "4 dvd r" unfolding k_def by (linarith | simp add: r_def)+
  qed
  have w: "w \<le> n" "w \<le> 4 - k" "0 < w" using False k(1,2) by (auto simp: w_def k_def)
  have fab: "FLASH_ALIGN_BEFORE a = r" using FLASH_ALIGN_BEFORE_eq [OF _ a] False by (simp add: r_def)
  obtain buf rest where rd: "flash_read_raw rom c r 4 = Inr buf"
    "read_chunks rom c (a + w) (n - w) = Inr rest" "bs = take w (drop k buf) @ rest"
    using assms(2) False
    by (auto simp: spi_flash_read_def Let_def fab k_def w_def [symmetric] split: sum.splits)
  have "buf = mget (view c) r 4"
  proof (rule raw_read [OF _ _ _ rd(1)])
    show "r + 4 \<le> chip_size rom"
      using dvd_room [OF k(4) chip_dvd] assms(1) False k by simp
  qed (use k in auto)
  then have "take w (drop k buf) = mget (view c) a w"
    using w k by (intro nth_equalityI) (auto simp: add.assoc)
  moreover have "rest = mget (view c) (a + w) (n - w)"
  proof (cases "w = n")
    case True
    then show ?thesis using rd(2) by (simp add: read_chunks.simps [of rom c _ 0])
  next
    case False
    have "w = (if n < 4 - k then n else 4 - k)" by (simp add: w_def k_def)
    then have "a + w = r + 4" using False k by (simp split: if_splits)
    then have "4 dvd a + w" using k(4) by simp
    then show ?thesis using read_chunks_ok [OF _ _ rd(2)] assms(1) w by simp
  qed
  ultimately show ?thesis using rd(3) w mget_add [of "view c" a w "n - w"] by simp
qed

lemma raw_write:
  "\<lbrakk>4 dvd a; 4 dvd length bs; a + length bs \<le> chip_size rom;
    a mod SPI_FLASH_PAGE_SIZE + length bs \<le> SPI_FLASH_PAGE_SIZE\<rbrakk>
   \<Longrightarrow> write_outcome view c a bs (spi_flash_write_raw rom c a bs)"
  using SPI_page_program by (simp add: spi_flash_write_raw_def)

text \<open>The page loop, for at most 255 pages, programs \<open>n - i\<close> pages from \<open>pgm_len\<close> on.\<close>

lemma program_pages_ok:
  assumes "n \<le> 255" "unat i \<le> n" "4 dvd target" "4 dvd pgm_len" "4 dvd length src"
    and "SPI_FLASH_PAGE_SIZE dvd target + pgm_len" "target + length src \<le> chip_size rom"
    and "pgm_len + (n - unat i) * SPI_FLASH_PAGE_SIZE \<le> length src"
  shows "\<exists>r pl c'. program_pages rom c i n target src pgm_len = Some (r, pl, c') \<and>
     (if r = ESP_OK
      then pl = pgm_len + (n - unat i) * SPI_FLASH_PAGE_SIZE \<and>
        write_outcome view c (target + pgm_len)
          (take ((n - unat i) * SPI_FLASH_PAGE_SIZE) (drop pgm_len src)) (r, c')
      else write_outcome view c (target + pgm_len) (drop pgm_len src) (r, c'))"
  using assms
proof (induction "n - unat i" arbitrary: i c pgm_len)
  case 0
  then show ?case
    by (simp add: program_pages.simps [of rom c i] write_outcome_Nil)
next
  case (Suc d)
  have lt: "unat i < n" using Suc.hyps(2) by simp
  have pl4: "4 * (pgm_len div 4) = pgm_len" using Suc.prems by simp
  let ?pg = "take SPI_FLASH_PAGE_SIZE (drop pgm_len src)"
  have room: "pgm_len + Suc d * SPI_FLASH_PAGE_SIZE \<le> length src" using Suc by simp
  then have len: "length ?pg = SPI_FLASH_PAGE_SIZE" by (simp add: flash_consts)
  obtain r c1 where w: "spi_flash_write_raw rom c (target + pgm_len) ?pg = (r, c1)" by fastforce
  have o: "write_outcome view c (target + pgm_len) ?pg (r, c1)"
    unfolding w [symmetric]
  proof (rule raw_write)
    show "target + pgm_len + length ?pg \<le> chip_size rom" using len room Suc.prems by simp
    show "(target + pgm_len) mod SPI_FLASH_PAGE_SIZE + length ?pg \<le> SPI_FLASH_PAGE_SIZE"
      using len Suc.prems by simp
    show "4 dvd length ?pg" unfolding len by (simp add: flash_consts)
  qed (use Suc.prems in auto)
  have split_src: "drop pgm_len src = ?pg @ drop (pgm_len + SPI_FLASH_PAGE_SIZE) src"
    by (metis append_take_drop_id drop_drop add.commute)
  show ?case
  proof (cases "r = ESP_OK")
    case False
    then have "program_pages rom c i n target src pgm_len = Some (ESP_ERR_FLASH_OP_FAIL, pgm_len, c1)"
      using lt w pl4 by (simp add: program_pages.simps [of rom c i])
    moreover have "write_outcome view c (target + pgm_len) (drop pgm_len src) (ESP_ERR_FLASH_OP_FAIL, c1)"
      by (subst split_src) (rule write_outcome_fail [OF o], simp)
    ultimately show ?thesis by simp
  next
    case True
    have i1: "unat (i + 1) = unat i + 1"
      using lt Suc.prems(1) by (intro unat_add_lem [THEN iffD1, THEN trans]) auto
    have step: "program_pages rom c i n target src pgm_len
        = program_pages rom c1 (i + 1) n target src (pgm_len + SPI_FLASH_PAGE_SIZE)"
      using lt w pl4 True by (simp add: program_pages.simps [of rom c i])
    have "\<exists>r pl c'. program_pages rom c1 (i + 1) n target src (pgm_len + SPI_FLASH_PAGE_SIZE) = Some (r, pl, c') \<and>
     (if r = ESP_OK
      then pl = pgm_len + SPI_FLASH_PAGE_SIZE + (n - unat (i + 1)) * SPI_FLASH_PAGE_SIZE \<and>
        write_outcome view c1 (target + (pgm_len + SPI_FLASH_PAGE_SIZE))
          (take ((n - unat (i + 1)) * SPI_FLASH_PAGE_SIZE) (drop (pgm_len + SPI_FLASH_PAGE_SIZE) src)) (r, c')
      else write_outcome view c1 (target + (pgm_len + SPI_FLASH_PAGE_SIZE))
          (drop (pgm_len + SPI_FLASH_PAGE_SIZE) src) (r, c'))"
    proof (rule Suc.hyps(1))
      show "SPI_FLASH_PAGE_SIZE dvd target + (pgm_len + SPI_FLASH_PAGE_SIZE)"
        using Suc.prems(6) by (simp add: add.assoc [symmetric])
    qed (use Suc.prems Suc.hyps(2) i1 room lt in \<open>auto simp: flash_consts\<close>)
    then obtain r' pl c' where pp:
      "program_pages rom c1 (i + 1) n target src (pgm_len + SPI_FLASH_PAGE_SIZE) = Some (r', pl, c')"
      and oc: "if r' = ESP_OK
      then pl = pgm_len + SPI_FLASH_PAGE_SIZE + (n - unat (i + 1)) * SPI_FLASH_PAGE_SIZE \<and>
        write_outcome view c1 (target + (pgm_len + SPI_FLASH_PAGE_SIZE))
          (take ((n - unat (i + 1)) * SPI_FLASH_PAGE_SIZE) (drop (pgm_len + SPI_FLASH_PAGE_SIZE) src)) (r', c')
      else write_outcome view c1 (target + (pgm_len + SPI_FLASH_PAGE_SIZE))
          (drop (pgm_len + SPI_FLASH_PAGE_SIZE) src) (r', c')" by blast
    have d: "n - unat i = Suc (n - unat (i + 1))" using i1 lt by simp
    have "take ((n - unat i) * SPI_FLASH_PAGE_SIZE) (drop pgm_len src)
        = ?pg @ take ((n - unat (i + 1)) * SPI_FLASH_PAGE_SIZE) (drop (pgm_len + SPI_FLASH_PAGE_SIZE) src)"
      unfolding d by (simp add: take_add add.commute)
    moreover have seq: "write_outcome view c1 (target + (pgm_len + SPI_FLASH_PAGE_SIZE)) cs (r', c')
        \<Longrightarrow> write_outcome view c (target + pgm_len) (?pg @ cs) (r', c')" for cs
      using write_outcome_seq [of view c "target + pgm_len" ?pg c1 cs r' c'] o True len
      by (simp add: add.assoc)
    moreover have "r' \<noteq> ESP_OK \<Longrightarrow> write_outcome view c (target + pgm_len) (drop pgm_len src) (r', c')"
      by (subst split_src) (use seq oc in simp)
    ultimately show ?thesis using pp oc step d by auto
  qed
qed

lemma page_room:
  "4 dvd target \<Longrightarrow> 4 dvd SPI_FLASH_PAGE_SIZE - target mod SPI_FLASH_PAGE_SIZE
     \<and> 0 < SPI_FLASH_PAGE_SIZE - target mod SPI_FLASH_PAGE_SIZE
     \<and> SPI_FLASH_PAGE_SIZE dvd target + (SPI_FLASH_PAGE_SIZE - target mod SPI_FLASH_PAGE_SIZE)"
proof (intro conjI)
  assume t: "4 dvd target"
  then have "4 dvd target mod SPI_FLASH_PAGE_SIZE" by (simp add: flash_consts dvd_mod)
  then show "4 dvd SPI_FLASH_PAGE_SIZE - target mod SPI_FLASH_PAGE_SIZE"
    by (intro dvd_diff_nat) (simp add: flash_consts)
  have lt: "target mod SPI_FLASH_PAGE_SIZE < SPI_FLASH_PAGE_SIZE" by (simp add: flash_consts)
  then show "0 < SPI_FLASH_PAGE_SIZE - target mod SPI_FLASH_PAGE_SIZE" by simp
  have "target + (SPI_FLASH_PAGE_SIZE - target mod SPI_FLASH_PAGE_SIZE)
      = (target div SPI_FLASH_PAGE_SIZE + 1) * SPI_FLASH_PAGE_SIZE"
    unfolding distrib_right using lt div_mult_mod_eq [of target SPI_FLASH_PAGE_SIZE] by linarith
  then show "SPI_FLASH_PAGE_SIZE dvd target + (SPI_FLASH_PAGE_SIZE - target mod SPI_FLASH_PAGE_SIZE)"
    by (metis dvd_triv_right)
qed

lemma program_ok:
  assumes al: "4 dvd target" "4 dvd length src" and room: "target + length src \<le> chip_size rom"
    and "length src \<le> 65536"
  shows "\<exists>rc. spi_flash_program rom c target src = Some rc \<and> write_outcome view c target src rc"
proof -
  define pgm_len where "pgm_len = SPI_FLASH_PAGE_SIZE - target mod SPI_FLASH_PAGE_SIZE"
  have pl: "4 dvd pgm_len" "0 < pgm_len" "SPI_FLASH_PAGE_SIZE dvd target + pgm_len"
    using page_room [OF al(1)] by (auto simp: pgm_len_def)
  have in_page: "target mod SPI_FLASH_PAGE_SIZE + pgm_len = SPI_FLASH_PAGE_SIZE"
    by (simp add: pgm_len_def flash_consts)
  show ?thesis
  proof (cases "length src < pgm_len")
    case True
    obtain r c1 where w: "spi_flash_write_raw rom c target src = (r, c1)" by fastforce
    then have o: "write_outcome view c target src (r, c1)"
      using raw_write [of target src c] al room True in_page by simp
    then show ?thesis using w True write_outcome_fail [OF o, of ESP_ERR_FLASH_OP_FAIL "[]"]
      by (auto simp: spi_flash_program_def Let_def pgm_len_def)
  next
    case False
    define n where "n = (length src - pgm_len) div SPI_FLASH_PAGE_SIZE"
    define pl2 where "pl2 = pgm_len + n * SPI_FLASH_PAGE_SIZE"
    let ?head = "take pgm_len src" and ?tail = "take (length src - pl2) (drop pl2 src)"
    have n255: "n \<le> 255" using assms(4) pl(2) by (simp add: n_def flash_consts)
    have nlen: "n * SPI_FLASH_PAGE_SIZE \<le> length src - pgm_len" by (simp add: n_def)
    then have pl2: "pl2 \<le> length src" using False by (simp add: pl2_def)
    have pl2_4: "4 dvd pl2" "4 * (pl2 div 4) = pl2" using pl(1) by (simp_all add: pl2_def flash_consts)
    have short: "length src - pl2 < SPI_FLASH_PAGE_SIZE"
      using False mod_less_divisor [of SPI_FLASH_PAGE_SIZE "length src - pgm_len"]
        div_mult_mod_eq [of "length src - pgm_len" SPI_FLASH_PAGE_SIZE]
      by (simp add: pl2_def n_def flash_consts)
    obtain r1 c1 where w1: "spi_flash_write_raw rom c target ?head = (r1, c1)" by fastforce
    have o1: "write_outcome view c target ?head (r1, c1)"
      unfolding w1 [symmetric] by (rule raw_write) (use al room False in_page pl in auto)
    have src1: "src = ?head @ drop pgm_len src" by simp
    have src2: "drop pgm_len src = take (n * SPI_FLASH_PAGE_SIZE) (drop pgm_len src) @ ?tail"
    proof -
      have "?tail = drop (n * SPI_FLASH_PAGE_SIZE) (drop pgm_len src)" by (simp add: pl2_def add.commute)
      then show ?thesis by (simp only: append_take_drop_id)
    qed
    have fail1: "r \<noteq> ESP_OK \<Longrightarrow> write_outcome view c target src (r, c1)" for r
      by (subst src1) (rule write_outcome_fail [OF o1])
    have room2: "pgm_len + (n - unat (0 :: u8)) * SPI_FLASH_PAGE_SIZE \<le> length src"
      using pl2 by (simp add: pl2_def)
    obtain r2 pl' c2 where w2: "program_pages rom c1 0 n target src pgm_len = Some (r2, pl', c2)"
      and o2: "if r2 = ESP_OK
        then pl' = pl2 \<and>
          write_outcome view c1 (target + pgm_len) (take (n * SPI_FLASH_PAGE_SIZE) (drop pgm_len src)) (r2, c2)
        else write_outcome view c1 (target + pgm_len) (drop pgm_len src) (r2, c2)"
      using program_pages_ok [OF n255 _ al(1) pl(1) al(2) pl(3) room room2, of c1]
      unfolding pl2_def by (simp only: unat_0 diff_zero) (metis le0)
    have seq1: "r1 = ESP_OK \<Longrightarrow> write_outcome view c1 (target + pgm_len) (drop pgm_len src) (r, c')
        \<Longrightarrow> write_outcome view c target src (r, c')" for r c'
      using write_outcome_seq [of view c target ?head c1 "drop pgm_len src" r c'] o1 False by simp
    obtain r3 c3 where w3: "spi_flash_write_raw rom c2 (target + pl2) ?tail = (r3, c3)" by fastforce
    have "SPI_FLASH_PAGE_SIZE dvd target + pl2"
      using pl(3) by (simp add: pl2_def add.assoc [symmetric])
    then have o3: "write_outcome view c2 (target + pl2) ?tail (r3, c3)"
      unfolding w3 [symmetric] by (intro raw_write) (use al room pl2 pl2_4 short in auto)
    have len2: "length (take (n * SPI_FLASH_PAGE_SIZE) (drop pgm_len src)) = n * SPI_FLASH_PAGE_SIZE"
      using nlen by simp
    have seq2: "r2 = ESP_OK \<Longrightarrow> write_outcome view c2 (target + pl2) ?tail (r, c')
        \<Longrightarrow> write_outcome view c1 (target + pgm_len) (drop pgm_len src) (r, c')" for r c'
      apply (subst src2)
      apply (rule write_outcome_seq [where ?c1.0 = c2])
      using o2 len2 by (auto simp: pl2_def add.assoc)
    have fail3: "write_outcome view c2 (target + pl2) ?tail (ESP_ERR_FLASH_OP_FAIL, c3)"
      using write_outcome_fail [OF o3, of ESP_ERR_FLASH_OP_FAIL "[]"] by simp
    have run: "spi_flash_program rom c target src =
      (if r1 \<noteq> ESP_OK then Some (ESP_ERR_FLASH_OP_FAIL, c1)
       else if r2 \<noteq> ESP_OK then Some (ESP_ERR_FLASH_OP_FAIL, c2)
       else if r3 \<noteq> ESP_OK then Some (ESP_ERR_FLASH_OP_FAIL, c3) else Some (ESP_OK, c3))"
      using False w1 w2 w3 o2 pl2_4
      by (cases "r1 = ESP_OK"; cases "r2 = ESP_OK"; cases "r3 = ESP_OK")
         (simp_all add: spi_flash_program_def Let_def pgm_len_def [symmetric] n_def [symmetric])
    have fail2: "write_outcome view c1 (target + pgm_len) (drop pgm_len src) (ESP_ERR_FLASH_OP_FAIL, c2)"
      if "r2 \<noteq> ESP_OK"
      using that o2 write_outcome_fail [of view c1 _ _ r2 c2 ESP_ERR_FLASH_OP_FAIL "[]"] by simp
    consider "r1 \<noteq> ESP_OK" | "r1 = ESP_OK" "r2 \<noteq> ESP_OK" | "r1 = ESP_OK" "r2 = ESP_OK" by blast
    then show ?thesis
    proof cases
      case 1
      then show ?thesis using run fail1 [of ESP_ERR_FLASH_OP_FAIL] by simp
    next
      case 2
      then show ?thesis using run seq1 [OF _ fail2] by simp
    next
      case 3
      then show ?thesis using run seq1 [OF _ seq2 [OF _ fail3]] seq1 [OF _ seq2 [OF _ o3]]
        by (cases "r3 = ESP_OK") simp_all
    qed
  qed
qed

lemma read_word: "\<lbrakk>4 dvd a; a < chip_size rom; spi_flash_read rom c na a 4 = Inr w\<rbrakk> \<Longrightarrow> w = mget (view c) a 4"
  using read_ok [of a 4 c na w] dvd_room [OF _ chip_dvd] by simp

text \<open>One chunk: the data padded to whole words with the bytes already on the chip.\<close>

lemma chunk_ok:
  assumes "4 dvd a" "src \<noteq> []" "length src \<le> SPI_READ_BUF_MAX" "a + length src \<le> chip_size rom"
    and rest: "rest = (if FLASH_ALIGN (length src) = length src then []
      else mget (view c) (a + length src) (FLASH_ALIGN (length src) - length src))"
  shows "\<exists>rc. spi_flash_program rom c a (src @ rest) = Some rc \<and> write_outcome view c a src rc"
proof -
  have b: "length src \<le> FLASH_ALIGN (length src)"
    using FLASH_ALIGN_bounds [of "length src"] assms(3) by (simp add: flash_consts)
  have "length (src @ rest) = FLASH_ALIGN (length src)" using b rest by simp
  moreover have "a + FLASH_ALIGN (length src) \<le> chip_size rom"
    using FLASH_ALIGN_le [OF assms(1,4) chip_dvd] size_bounds by simp
  moreover have "FLASH_ALIGN (length src) \<le> 65536"
    using FLASH_ALIGN_bounds [of "length src"] assms(3) by (simp add: flash_consts)
  ultimately obtain rc where rc: "spi_flash_program rom c a (src @ rest) = Some rc"
    "write_outcome view c a (src @ rest) rc"
    using program_ok [of a "src @ rest" c] assms(1) by auto
  have "src @ rest = mget (view c) a 0 @ src @ mget (view c) (a + 0 + length src) (length rest)"
    using rest by simp
  with rc(2) have "write_outcome view c (a + 0) src rc"
    by (metis write_outcome_middle)
  then show ?thesis using rc(1) by simp
qed

lemma write_chunks_ok:
  "\<lbrakk>4 dvd a; a + length src \<le> chip_size rom\<rbrakk>
   \<Longrightarrow> \<exists>rc. write_chunks rom c a src = Some rc \<and> write_outcome view c a src rc"
proof (induction "length src" arbitrary: a c src rule: less_induct)
  case less
  show ?case
  proof (cases "src = []")
    case True
    then show ?thesis by (simp add: write_chunks.simps [of rom c a] write_outcome_Nil)
  next
    case False
    define len where "len = (if SPI_READ_BUF_MAX \<le> length src then SPI_READ_BUF_MAX else length src)"
    define wlen where "wlen = FLASH_ALIGN len"
    have len: "0 < len" "len \<le> length src" "len \<le> SPI_READ_BUF_MAX" "4 dvd len \<or> len = length src"
      using False by (auto simp: len_def flash_consts)
    have wl: "len \<le> wlen" "wlen < len + 4" "4 dvd wlen"
      using FLASH_ALIGN_bounds [of len] len by (auto simp: wlen_def flash_consts)
    let ?head = "take len src"
    have hl: "length ?head = len" using len by simp
    have src: "src = ?head @ drop len src" by simp
    show ?thesis
    proof (cases "chunk_tail rom c a len")
      case (Inl e)
      then have run: "write_chunks rom c a src = Some (e, c)"
        using False by (simp add: write_chunks.simps [of rom c a] len_def [symmetric] Let_def)
      have "e \<noteq> ESP_OK"
        using Inl by (auto simp: chunk_tail_def Let_def dest: read_err split: if_splits sum.splits)
      then show ?thesis using run by (simp add: write_outcome_none)
    next
      case (Inr rest)
      have "rest = (if FLASH_ALIGN (length ?head) = length ?head then []
          else mget (view c) (a + length ?head) (FLASH_ALIGN (length ?head) - length ?head))"
      proof (cases "wlen = len")
        case True
        then show ?thesis using Inr hl by (simp add: chunk_tail_def wlen_def)
      next
        case False
        then have "4 \<le> wlen" "wlen - 4 < len" using wl dvd_imp_le [of 4 wlen] len by auto
        obtain w where w: "spi_flash_read rom c False (a + (wlen - 4)) 4 = Inr w"
          "rest = drop (len - (wlen - 4)) w"
          using False Inr
          by (auto simp: chunk_tail_def Let_def wlen_def [symmetric] split: sum.splits)
        have "w = mget (view c) (a + (wlen - 4)) 4"
          by (rule read_word [OF _ _ w(1)])
             (use less.prems wl \<open>wlen - 4 < len\<close> len \<open>4 \<le> wlen\<close> in auto)
        then show ?thesis using w(2) hl False wl \<open>4 \<le> wlen\<close>
          by (intro nth_equalityI) (auto simp: wlen_def [symmetric] add.assoc)
      qed
      then obtain r c1 where w: "spi_flash_program rom c a (?head @ rest) = Some (r, c1)"
        and o: "write_outcome view c a ?head (r, c1)"
        using chunk_ok [of a ?head rest c] less.prems len False by fastforce
      have run: "write_chunks rom c a src =
          (if r \<noteq> ESP_OK then Some (r, c1) else write_chunks rom c1 (a + len) (drop len src))"
        using False w Inr by (simp add: write_chunks.simps [of rom c a] len_def [symmetric] Let_def)
      show ?thesis
      proof (cases "r = ESP_OK")
        case r: False
        have "write_outcome view c a src (r, c1)"
          by (subst src) (rule write_outcome_fail [OF o r])
        then show ?thesis using run r by simp
      next
        case r: True
        have "\<exists>rc. write_chunks rom c1 (a + len) (drop len src) = Some rc \<and>
          write_outcome view c1 (a + len) (drop len src) rc"
        proof (cases "drop len src = []")
          case True
          then show ?thesis by (simp add: write_chunks.simps [of rom c1 _ "[]"] write_outcome_Nil)
        next
          case False
          then show ?thesis using less.hyps [of "drop len src" "a + len" c1] less.prems len by auto
        qed
        then obtain r2 c2 where "write_chunks rom c1 (a + len) (drop len src) = Some (r2, c2)"
          "write_outcome view c1 (a + len) (drop len src) (r2, c2)" by fastforce
        then show ?thesis using run r o hl src
            write_outcome_seq [of view c a ?head c1 "drop len src" r2 c2] by simp
      qed
    qed
  qed
qed

lemma write_ok:
  assumes short: "length bs \<le> 65536" and wrap: "a + length bs < 2 ^ 32"
  shows "\<exists>rc. spi_flash_write rom c na a (Some bs) (length bs) = Some rc \<and> write_outcome view c a bs rc"
proof (cases "bs = [] \<or> chip_size rom < a + length bs")
  case True
  then show ?thesis using wrap
    by (auto simp: spi_flash_write_def write_outcome_Nil write_outcome_none)
next
  case False
  then have room: "a + length bs \<le> chip_size rom" "bs \<noteq> []" by auto
  obtain c0 where c0: "spi_flash_check_wr_protect rom c = (True, c0)" "view c0 = view c"
    using check_wr_protect by blast
  have pre: "spi_flash_write rom c na a (Some bs) (length bs) =
    (if NOT_ALIGN a \<or> na \<or> NOT_ALIGN (length bs) then
       (if NOT_ALIGN a then
          let r_addr = FLASH_ALIGN_BEFORE a; c_off = a - r_addr; wbytes = 4 - c_off;
              wbytes = (if length bs < wbytes then length bs else wbytes) in
          case spi_flash_read rom c0 False r_addr 4 of
            Inl e \<Rightarrow> Some (e, c0)
          | Inr buf \<Rightarrow> do {
              (ret, c') \<leftarrow> spi_flash_program rom c0 r_addr
                 (take c_off buf @ take wbytes bs @ drop (c_off + wbytes) buf);
              if ret \<noteq> ESP_OK then Some (ret, c')
              else write_chunks rom c' (a + wbytes) (drop wbytes bs)
            }
        else write_chunks rom c0 a bs)
     else spi_flash_program rom c0 a bs)"
    using c0 room wrap by (simp add: spi_flash_write_def)
  show ?thesis
  proof (cases "NOT_ALIGN a")
    case False
    then have al: "4 dvd a" by (auto simp: NOT_ALIGN_def)
    show ?thesis
    proof (cases "na \<or> NOT_ALIGN (length bs)")
      case True
      then show ?thesis using pre False write_chunks_ok [OF al room(1), of c0] write_outcome_view [OF c0(2)]
        by auto
    next
      case na: False
      then have "4 dvd length bs" by (auto simp: NOT_ALIGN_def)
      then show ?thesis using pre False na program_ok [OF al _ room(1) short, of c0] write_outcome_view [OF c0(2)]
        by auto
    qed
  next
    case True
    define r where "r = a div 4 * 4"
    define k where "k = a - r"
    define w where "w = (if length bs < 4 - (a - r) then length bs else 4 - (a - r))"
    have a32: "a < 2 ^ 32 - 4" using room size_bounds [of a] by simp
    have k: "0 < k" "k < 4" "a = r + k" "4 dvd r"
    proof -
      have "r + a mod 4 = a" by (simp add: r_def)
      moreover have "0 < a mod 4" "a mod 4 < 4" using True by (auto simp: NOT_ALIGN_def)
      ultimately show "0 < k" "k < 4" "a = r + k" "4 dvd r" unfolding k_def by (linarith | simp add: r_def)+
    qed
    have w: "w \<le> length bs" "w \<le> 4 - k" "0 < w" using room k(1,2) by (auto simp: w_def k_def)
    have fab: "FLASH_ALIGN_BEFORE a = r" using FLASH_ALIGN_BEFORE_eq [OF True a32] by (simp add: r_def)
    have r4: "r + 4 \<le> chip_size rom"
      using dvd_room [OF k(4) chip_dvd] room k by simp
    have run: "spi_flash_write rom c na a (Some bs) (length bs) =
      (case spi_flash_read rom c0 False r 4 of
         Inl e \<Rightarrow> Some (e, c0)
       | Inr buf \<Rightarrow> do {
           (ret, c') \<leftarrow> spi_flash_program rom c0 r (take k buf @ take w bs @ drop (k + w) buf);
           if ret \<noteq> ESP_OK then Some (ret, c')
           else write_chunks rom c' (a + w) (drop w bs)
         })"
      using True by (simp only: pre Let_def fab k_def w_def if_True simp_thms)
    show ?thesis
    proof (cases "spi_flash_read rom c0 False r 4")
      case (Inl e)
      then show ?thesis using run read_err [OF Inl] c0(2) by (simp add: write_outcome_none)
    next
      case (Inr buf)
      have buf: "buf = mget (view c0) r 4" by (rule read_ok [OF r4 Inr])
      let ?blk = "take k buf @ take w bs @ drop (k + w) buf"
      have blk: "?blk = mget (view c0) r k @ take w bs @ mget (view c0) (r + k + length (take w bs)) (4 - k - w)"
        using w k by (auto simp: buf add.assoc intro!: nth_equalityI)
      have lb: "length ?blk = 4" using w k by (simp add: buf)
      obtain r1 c1 where p1: "spi_flash_program rom c0 r ?blk = Some (r1, c1)"
        and "write_outcome view c0 r ?blk (r1, c1)"
        using program_ok [OF k(4) _ _ _, of ?blk c0] r4 lb by fastforce
      then have o1: "write_outcome view c0 a (take w bs) (r1, c1)"
        unfolding blk k(3) by (rule_tac write_outcome_middle)
      have bs: "bs = take w bs @ drop w bs" by simp
      show ?thesis
      proof (cases "r1 = ESP_OK")
        case False
        have "write_outcome view c0 a bs (r1, c1)"
          by (subst bs) (rule write_outcome_fail [OF o1 False])
        then show ?thesis using run Inr p1 False write_outcome_view [OF c0(2)] by simp
      next
        case ok: True
        have "\<exists>rc. write_chunks rom c1 (a + w) (drop w bs) = Some rc
          \<and> write_outcome view c1 (a + w) (drop w bs) rc"
        proof (cases "w = length bs")
          case True
          then show ?thesis by (simp add: write_chunks.simps [of rom c1 _ "[]"] write_outcome_Nil)
        next
          case False
          have "w = (if length bs < 4 - k then length bs else 4 - k)" by (simp add: w_def k_def)
          then have "a + w = r + 4" using False k by (simp split: if_splits)
          then have "4 dvd a + w" using k(4) by simp
          then show ?thesis using write_chunks_ok [of "a + w" "drop w bs" c1] room w by simp
        qed
        then obtain r2 c2 where "write_chunks rom c1 (a + w) (drop w bs) = Some (r2, c2)"
          "write_outcome view c1 (a + w) (drop w bs) (r2, c2)" by fastforce
        then show ?thesis using run Inr p1 ok o1 w bs write_outcome_view [OF c0(2)]
            write_outcome_seq [of view c0 a "take w bs" c1 "drop w bs" r2 c2] by simp
      qed
    qed
  qed
qed

end

sublocale nor_chip \<subseteq> drv: flash_dev rom view
  by unfold_locales (rule read_ok read_fail write_ok erase_range; assumption)+

section \<open>A chip with scripted faults\<close>

text \<open>A 1 MByte chip whose programming and erase commands succeed or stop half way as a script says;
  every command takes the next entry, and an exhausted script means success.  A command that stops has
  worked on the first bytes of its range only, which is also what a power cut leaves.\<close>

datatype fault = Works | Stops nat

record sim_flash =
  cells :: memory
  script :: "fault list"

definition next_fault :: "sim_flash \<Rightarrow> fault \<times> sim_flash" where
  "next_fault c = (case script c of [] \<Rightarrow> (Works, c) | f # fs \<Rightarrow> (f, c\<lparr>script := fs\<rparr>))"

definition sim_program :: "sim_flash \<Rightarrow> nat \<Rightarrow> u8 list \<Rightarrow> esp_err \<times> sim_flash" where
  "sim_program c a bs =
     (case next_fault c of
        (Works, c) \<Rightarrow> (ESP_OK, c\<lparr>cells := and_write (cells c) a bs\<rparr>)
      | (Stops k, c) \<Rightarrow> (ESP_FAIL, c\<lparr>cells := and_write (cells c) a (take k bs)\<rparr>))"

definition sim_erase :: "sim_flash \<Rightarrow> nat \<Rightarrow> esp_err \<times> sim_flash" where
  "sim_erase c a =
     (case next_fault c of
        (Works, c) \<Rightarrow> (ESP_OK, c\<lparr>cells := erased (cells c) a SPI_FLASH_SEC_SIZE\<rparr>)
      | (Stops k, c) \<Rightarrow> (ESP_FAIL, c\<lparr>cells := erased (cells c) a (min k SPI_FLASH_SEC_SIZE)\<rparr>))"

definition sim_rom :: "sim_flash flash_rom" where
  "sim_rom = \<lparr>
     chip_size = 0x100000,
     SPI_read_data = (\<lambda>c a n. Some (mget (cells c) a n)),
     SPI_page_program = sim_program,
     SPI_write_enable = (\<lambda>c. (ESP_OK, c)),
     SPI_sector_erase = sim_erase,
     SPI_read_status = (\<lambda>c. (ESP_OK, 0)),
     SPI_write_status = (\<lambda>c st. (ESP_OK, c)),
     read_id = (\<lambda>c. 0x1640ef),
     user_rx = (\<lambda>c cmd a dummy len. 0),
     user_tx = (\<lambda>c cmd st len en. c)\<rparr>"

lemma cells_next_fault: "next_fault c = (f, c') \<Longrightarrow> cells c' = cells c"
  by (auto simp: next_fault_def split: list.splits)

lemma programmed_take: "programmed m a bs (and_write m a (take k bs))"
  by (metis append_take_drop_id programmed_and_write programmed_prefix)

interpretation sim: nor_chip sim_rom cells
proof
  fix c :: sim_flash and a :: nat and bs :: "u8 list"
  show "write_outcome cells c a bs (SPI_page_program sim_rom c a bs)"
    by (auto simp: sim_rom_def sim_program_def write_outcome_def programmed_take
        split: prod.split fault.split dest: cells_next_fault)
  show "erase_outcome cells c a SPI_FLASH_SEC_SIZE (SPI_sector_erase sim_rom c a)"
    by (auto simp: sim_rom_def sim_erase_def erase_outcome_def erased_def fun_eq_iff
        split: prod.split fault.split dest: cells_next_fault)
qed (auto simp: sim_rom_def flash_consts)

text \<open>The same chip with program and erase commands that never fail.\<close>

definition sure_rom :: "sim_flash flash_rom" where
  "sure_rom = sim_rom\<lparr>
     SPI_sector_erase := (\<lambda>c a. (ESP_OK, c\<lparr>cells := erased (cells c) a SPI_FLASH_SEC_SIZE\<rparr>)),
     SPI_page_program := (\<lambda>c a bs. (ESP_OK, c\<lparr>cells := and_write (cells c) a bs\<rparr>))\<rparr>"

interpretation sure: nor_chip sure_rom cells
  by unfold_locales
    (auto simp: sure_rom_def sim_rom_def flash_consts erase_outcome_def write_outcome_def erased_def)

definition blank_flash :: sim_flash where
  "blank_flash = \<lparr>cells = (\<lambda>_. 0xFF), script = []\<rparr>"

definition zero_flash :: sim_flash where
  "zero_flash = \<lparr>cells = (\<lambda>_. 0), script = []\<rparr>"

section \<open>Properties of the driver\<close>

lemma erase_loop_to_end:
  assumes chip: "nor_chip rom view"
    and ok: "\<And>c. fst (SPI_write_enable rom c) = ESP_OK" "\<And>c a. fst (SPI_sector_erase rom c a) = ESP_OK"
    and num: "num = 0 \<or> chip_size rom div SPI_FLASH_SEC_SIZE < sec + num"
    and sec: "sec \<le> chip_size rom div SPI_FLASH_SEC_SIZE"
  shows "\<exists>c'. erase_loop rom c sec num = (ESP_ERR_FLASH_OP_FAIL, c') \<and>
    (\<forall>b. view c' b = (if sec * SPI_FLASH_SEC_SIZE \<le> b \<and> b < chip_size rom then 0xFF else view c b))"
  using num sec
proof (induction "chip_size rom div SPI_FLASH_SEC_SIZE - sec" arbitrary: sec num c)
  case 0
  have "chip_size rom = chip_size rom div SPI_FLASH_SEC_SIZE * SPI_FLASH_SEC_SIZE"
    using nor_chip.chip_size_sectors [OF chip] by simp
  moreover have "sec = chip_size rom div SPI_FLASH_SEC_SIZE" using 0 by simp
  ultimately show ?case
    by (auto simp: erase_loop.simps [of rom c] spi_flash_erase_sector_def)
next
  case (Suc d)
  let ?num' = "if num = 0 then 2 ^ 32 - 1 else num - 1"
  have lt: "sec < chip_size rom div SPI_FLASH_SEC_SIZE" using Suc.hyps(2) by simp
  then have sz: "Suc sec * SPI_FLASH_SEC_SIZE \<le> chip_size rom"
    using div_times_less_eq_dividend [of "chip_size rom" SPI_FLASH_SEC_SIZE]
      mult_le_mono1 [of "Suc sec" "chip_size rom div SPI_FLASH_SEC_SIZE" SPI_FLASH_SEC_SIZE] by linarith
  obtain r c1 where c1: "spi_flash_erase_sector rom c sec = (r, c1)" by fastforce
  have "r = ESP_OK" using c1 lt ok
    by (auto simp: spi_flash_erase_sector_def spi_flash_erase_sector_raw_def spi_flash_check_wr_protect_def
        Let_def split: prod.splits if_splits) (metis fst_conv)+
  moreover have "erase_outcome view c (sec * SPI_FLASH_SEC_SIZE) SPI_FLASH_SEC_SIZE (r, c1)"
    using nor_chip.erase_sector [OF chip, of c sec] c1 by simp
  ultimately have v1: "view c1 = erased (view c) (sec * SPI_FLASH_SEC_SIZE) SPI_FLASH_SEC_SIZE"
    and r: "r = ESP_OK" by (auto simp: erase_outcome_def)
  have n': "?num' \<noteq> 0" using lt Suc.prems by auto
  have "d = chip_size rom div SPI_FLASH_SEC_SIZE - Suc sec" using Suc.hyps(2) by simp
  moreover have "?num' = 0 \<or> chip_size rom div SPI_FLASH_SEC_SIZE < Suc sec + ?num'"
  proof (cases "num = 0")
    case True
    have "chip_size rom div SPI_FLASH_SEC_SIZE \<le> chip_size rom" by simp
    then have "chip_size rom div SPI_FLASH_SEC_SIZE \<le> 2 ^ 31"
      using nor_chip.chip_size_bound [OF chip] by linarith
    then show ?thesis using True by simp
  qed (use Suc.prems in auto)
  ultimately obtain c' where c': "erase_loop rom c1 (Suc sec) ?num' = (ESP_ERR_FLASH_OP_FAIL, c')"
    "\<forall>b. view c' b = (if Suc sec * SPI_FLASH_SEC_SIZE \<le> b \<and> b < chip_size rom then 0xFF else view c1 b)"
    using Suc.hyps(1) [of "Suc sec" ?num' c1] lt by auto
  have "erase_loop rom c sec num = (ESP_ERR_FLASH_OP_FAIL, c')"
    using c1 c'(1) r n' by (simp add: erase_loop.simps [of rom c sec] Let_def)
  then show ?case using c'(2) sz by (auto simp: v1 erased_def)
qed

text \<open>C37: A read that reports success returns exactly the bytes of the chip, whatever the alignment of
  the address, the size or the caller's buffer.\<close>

theorem spi_flash_read_correct:
  assumes "nor_chip rom view" and "a + n \<le> chip_size rom" and "spi_flash_read rom c na a n = Inr bs"
  shows "bs = mget (view c) a n"
  using nor_chip.read_ok [OF assms] .

lemma spi_flash_read_correct_witness:
  "[0xFF, 0xFF, 0xFF] = mget (cells blank_flash) 5 3"
proof (rule spi_flash_read_correct [OF sim.nor_chip_axioms])
  show "spi_flash_read sim_rom blank_flash False 5 3 = Inr [0xFF, 0xFF, 0xFF]"
    by (simp add: spi_flash_read_def NOT_ALIGN_def FLASH_ALIGN_BEFORE_def FLASH_ALIGN_def align_up_def
        flash_read_raw_def spi_flash_read_raw_def sim_rom_def blank_flash_def read_chunks.simps
        mget_def upt_rec)
qed (simp add: sim_rom_def)

text \<open>C36: A write of at most 64 KByte always returns.  Whatever it returns, no byte outside the target
  range changes and inside it every bit has its old or its programmed value; when it reports success
  the range holds exactly the old bytes with the written bits cleared.\<close>

theorem spi_flash_write_correct:
  assumes "nor_chip rom view" and "length bs \<le> 65536" and "a + length bs < 2 ^ 32"
  shows "\<exists>r c'. spi_flash_write rom c na a (Some bs) (length bs) = Some (r, c') \<and>
    (\<forall>b. b < a \<or> a + length bs \<le> b \<longrightarrow> view c' b = view c b) \<and>
    (\<forall>i<length bs. byte_between (view c (a + i)) (bs ! i) (view c' (a + i))) \<and>
    (r = ESP_OK \<longrightarrow> view c' = and_write (view c) a bs)"
proof -
  obtain r c' where "spi_flash_write rom c na a (Some bs) (length bs) = Some (r, c')"
    and o: "write_outcome view c a bs (r, c')"
    using nor_chip.write_ok [OF assms, of c na] by auto
  then show ?thesis
    using programmed_out [of "view c" a bs "view c'"] programmed_in [of "view c" a bs "view c'"]
    by (auto simp: write_outcome_def)
qed

lemma spi_flash_write_correct_witness:
  "\<exists>r c'. spi_flash_write sim_rom blank_flash False 5 (Some [1, 2, 3]) 3 = Some (r, c') \<and>
    cells c' 4 = 0xFF \<and> cells c' 8 = 0xFF \<and> byte_between 0xFF 2 (cells c' 6)"
proof -
  have len: "length [1, 2, 3 :: u8] = 3" by simp
  from spi_flash_write_correct [OF sim.nor_chip_axioms, of "[1, 2, 3]" 5 blank_flash False, unfolded len]
  obtain r c' where "spi_flash_write sim_rom blank_flash False 5 (Some [1, 2, 3]) 3 = Some (r, c')"
    and "\<forall>b. b < 5 \<or> 8 \<le> b \<longrightarrow> cells c' b = cells blank_flash b"
    and "\<forall>i<3. byte_between (cells blank_flash (5 + i)) ([1, 2, 3 :: u8] ! i) (cells c' (5 + i))"
    by auto
  then show ?thesis by (auto simp: blank_flash_def dest: spec [of _ 1])
qed

text \<open>Erasing a non-empty range never touches a byte outside it, and when it reports success every
  byte of the range is 0xFF.\<close>

theorem spi_flash_erase_range_correct:
  assumes "nor_chip rom view" and "0 < n" and "spi_flash_erase_range rom c a n = (r, c')"
  shows "(\<forall>b. b < a \<or> a + n \<le> b \<longrightarrow> view c' b = view c b) \<and>
    (r = ESP_OK \<longrightarrow> view c' = erased (view c) a n)"
  using nor_chip.erase_range [OF assms(1,2), of c a] assms(3) by (simp add: erase_outcome_def)

lemma spi_flash_erase_range_correct_witness:
  "\<exists>c'. spi_flash_erase_range sure_rom zero_flash 0x1000 0x1000 = (ESP_OK, c') \<and>
    cells c' 0xFFF = 0 \<and> cells c' 0x1000 = 0xFF \<and> cells c' 0x1FFF = 0xFF \<and> cells c' 0x2000 = 0"
proof -
  obtain c' where c': "spi_flash_erase_range sure_rom zero_flash 0x1000 0x1000 = (ESP_OK, c')"
    by (simp add: spi_flash_erase_range_def flash_consts spi_flash_check_wr_protect_def erase_loop.simps
        spi_flash_erase_sector_def spi_flash_erase_sector_raw_def sure_rom_def sim_rom_def
        spi_flash_read_status_def special_flash_read_status_def Let_def)
  then have "\<forall>b. b < 0x1000 \<or> 0x2000 \<le> b \<longrightarrow> cells c' b = cells zero_flash b"
    and "cells c' = erased (cells zero_flash) 0x1000 0x1000"
    using spi_flash_erase_range_correct [OF sure.nor_chip_axioms _ c'] by auto
  then show ?thesis using c' by (simp add: zero_flash_def erased_def)
qed

text \<open>On a chip whose erase commands all succeed, erasing an empty range at a sector boundary
  erases everything from there to the end of the chip, and then reports failure: \<open>--num\<close> wraps.\<close>

theorem spi_flash_erase_range_empty:
  assumes "nor_chip rom view"
    and "\<And>c. fst (SPI_write_enable rom c) = ESP_OK" and "\<And>c s. fst (SPI_sector_erase rom c s) = ESP_OK"
    and "SPI_FLASH_SEC_SIZE dvd a" and "a \<le> chip_size rom"
  shows "\<exists>c'. spi_flash_erase_range rom c a 0 = (ESP_ERR_FLASH_OP_FAIL, c') \<and>
    (\<forall>b. view c' b = (if a \<le> b \<and> b < chip_size rom then 0xFF else view c b))"
proof -
  obtain c1 where c1: "spi_flash_check_wr_protect rom c = (True, c1)" "view c1 = view c"
    using nor_chip.check_wr_protect [OF assms(1)] by blast
  have "a div SPI_FLASH_SEC_SIZE \<le> chip_size rom div SPI_FLASH_SEC_SIZE"
    using assms(5) by (rule div_le_mono)
  from erase_loop_to_end [OF assms(1-3) _ this, of 0 c1] show ?thesis
    using assms(4) c1 by (auto simp: spi_flash_erase_range_def)
qed

lemma spi_flash_erase_range_empty_witness:
  "\<exists>c'. spi_flash_erase_range sure_rom zero_flash 0x1000 0 = (ESP_ERR_FLASH_OP_FAIL, c') \<and>
    cells c' 0xFFF = 0 \<and> cells c' 0x1000 = 0xFF \<and> cells c' 0xFFFFF = 0xFF"
proof -
  have "\<exists>c'. spi_flash_erase_range sure_rom zero_flash 0x1000 0 = (ESP_ERR_FLASH_OP_FAIL, c') \<and>
      (\<forall>b. cells c' b = (if 0x1000 \<le> b \<and> b < chip_size sure_rom then 0xFF else cells zero_flash b))"
    by (rule spi_flash_erase_range_empty [OF sure.nor_chip_axioms])
       (simp_all add: sure_rom_def sim_rom_def flash_consts)
  then show ?thesis by (auto simp: zero_flash_def sure_rom_def sim_rom_def)
qed

lemma program_pages_stuck:
  assumes "program_pages rom c i n target src pgm_len = Some res"
  shows "(\<forall>ch a bs. fst (SPI_page_program rom ch a bs) = ESP_OK) \<longrightarrow> n < 256"
  apply (rule program_pages.raw_induct [where P =
    "\<lambda>rom c i n target src pgm_len res. (\<forall>ch a bs. fst (SPI_page_program rom ch a bs) = ESP_OK) \<longrightarrow> n < 256",
    OF _ assms])
   apply (intro impI)
  subgoal for pp rom c i n target src pgm_len res
    apply (cases "unat i < n")
     apply (simp add: spi_flash_write_raw_def split: prod.splits)
     apply (metis fst_conv)
    using unsigned_less [of i, where 'a = nat] by simp
  done

text \<open>On a chip whose program commands all succeed, a call of \<open>spi_flash_program\<close> for 64 KByte and
  a page never returns: the \<open>uint8_t\<close> page counter never reaches 256.\<close>

theorem spi_flash_program_stuck:
  assumes "\<And>c a bs. fst (SPI_page_program rom c a bs) = ESP_OK" and "65536 + 256 \<le> length src"
  shows "spi_flash_program rom c target src = None"
proof -
  let ?pl = "SPI_FLASH_PAGE_SIZE - target mod SPI_FLASH_PAGE_SIZE"
  have pl: "?pl \<le> 256" by (simp add: flash_consts)
  then have "65536 \<le> length src - ?pl" using assms(2) by linarith
  then have "65536 div SPI_FLASH_PAGE_SIZE \<le> (length src - ?pl) div SPI_FLASH_PAGE_SIZE"
    by (rule div_le_mono)
  then have "256 \<le> (length src - ?pl) div SPI_FLASH_PAGE_SIZE" by (simp add: flash_consts)
  then have "program_pages rom c' 0 ((length src - ?pl) div SPI_FLASH_PAGE_SIZE) target src ?pl = None" for c'
    using program_pages_stuck [of rom c' 0 _ target src ?pl] assms(1) by (metis not_less option.exhaust)
  moreover obtain c1 where "spi_flash_write_raw rom c target (take ?pl src) = (ESP_OK, c1)"
    using assms(1) by (metis prod.collapse spi_flash_write_raw_def)
  ultimately show ?thesis using pl assms(2)
    by (simp add: spi_flash_program_def Let_def)
qed

lemma spi_flash_program_stuck_witness:
  "spi_flash_program sure_rom blank_flash 0 (replicate 65792 0) = None"
  by (rule spi_flash_program_stuck) (simp_all add: sure_rom_def)

end
