(* ===== verification/Partition.thy ===== *)
theory Partition
  imports SpiFlash
begin

text \<open>
  The partition table: its format (\<open>esp_flash_data_types.h\<close>), the check the bootloader makes of it
  (\<open>components/bootloader_support/src/flash_partitions.c\<close>) and the application's view of it
  (\<open>components/spi_flash/src/partition.c\<close>): the list loaded from flash, the iterators over it, and
  read, write and erase relative to a partition.

  A table entry is 32 bytes of flash; \<open>parse_info\<close> reads them as \<open>esp_partition_info_t\<close>.  The list
  \<open>s_partition_list\<close> never changes after it is loaded, so an iterator's \<open>next_item\<close> is the remaining
  list.  A label is the bytes before the terminating zero.  Locks are left out, allocations succeed,
  and flash encryption is off, as it is on this chip.
\<close>

section \<open>Table entries\<close>

definition ESP_PARTITION_TABLE_ADDR :: nat where "ESP_PARTITION_TABLE_ADDR = 0x8000"
definition ESP_PARTITION_MAGIC :: nat where "ESP_PARTITION_MAGIC = 0x50AA"
definition ESP_PARTITION_MAGIC_MD5 :: nat where "ESP_PARTITION_MAGIC_MD5 = 0xEBEB"
definition ESP_PARTITION_TABLE_MAX_ENTRIES :: nat where "ESP_PARTITION_TABLE_MAX_ENTRIES = 96"
definition INFO_SIZE :: nat where "INFO_SIZE = 32"

definition PART_TYPE_APP :: nat where "PART_TYPE_APP = 0x00"
definition PART_SUBTYPE_FACTORY :: nat where "PART_SUBTYPE_FACTORY = 0x00"
definition PART_SUBTYPE_OTA_FLAG :: nat where "PART_SUBTYPE_OTA_FLAG = 0x10"
definition PART_SUBTYPE_OTA_MASK :: nat where "PART_SUBTYPE_OTA_MASK = 0x0f"
definition PART_SUBTYPE_TEST :: nat where "PART_SUBTYPE_TEST = 0x20"
definition PART_TYPE_DATA :: nat where "PART_TYPE_DATA = 0x01"
definition PART_SUBTYPE_DATA_OTA :: nat where "PART_SUBTYPE_DATA_OTA = 0x00"
definition PART_SUBTYPE_ANY :: nat where "PART_SUBTYPE_ANY = 0xff"

lemmas part_consts = ESP_PARTITION_TABLE_ADDR_def ESP_PARTITION_MAGIC_def ESP_PARTITION_MAGIC_MD5_def
  ESP_PARTITION_TABLE_MAX_ENTRIES_def INFO_SIZE_def PART_TYPE_APP_def PART_SUBTYPE_FACTORY_def
  PART_SUBTYPE_OTA_FLAG_def PART_SUBTYPE_OTA_MASK_def PART_SUBTYPE_TEST_def PART_TYPE_DATA_def
  PART_SUBTYPE_DATA_OTA_def PART_SUBTYPE_ANY_def

record part_info =
  pi_magic :: nat
  pi_type :: nat
  pi_subtype :: nat
  pi_offset :: nat
  pi_size :: nat
  pi_label :: "u8 list"

definition nat_le32 :: "u8 list \<Rightarrow> nat" where
  "nat_le32 bs = unat (of_le32 bs)"

definition parse_info :: "u8 list \<Rightarrow> part_info" where
  "parse_info bs = \<lparr>
     pi_magic = unat (bs ! 0) + 256 * unat (bs ! 1),
     pi_type = unat (bs ! 2),
     pi_subtype = unat (bs ! 3),
     pi_offset = nat_le32 (take 4 (drop 4 bs)),
     pi_size = nat_le32 (take 4 (drop 8 bs)),
     pi_label = take 16 (drop 12 bs)\<rparr>"

definition table_entry :: "u8 list \<Rightarrow> nat \<Rightarrow> part_info" where
  "table_entry table i = parse_info (take INFO_SIZE (drop (i * INFO_SIZE) table))"

section \<open>The bootloader's check of the table\<close>

text \<open>The \<open>for\<close> loop from entry \<open>i\<close> on, \<open>n\<close> entries left.  The code that would count the MD5 entry is
  compiled out, so \<open>md5_found\<close> stays 0.\<close>

fun basic_verify_loop :: "nat \<Rightarrow> u8 list \<Rightarrow> nat \<Rightarrow> nat \<Rightarrow> esp_err \<times> nat" where
  "basic_verify_loop chip table i 0 = (ESP_ERR_INVALID_STATE, 0)"
| "basic_verify_loop chip table i (Suc n) =
     (let part = table_entry table i in
      if pi_magic part = ESP_PARTITION_MAGIC then
        (if chip < pi_offset part \<or> chip < (pi_offset part + pi_size part) mod 2 ^ 32
         then (ESP_ERR_INVALID_SIZE, 0)
         else basic_verify_loop chip table (Suc i) n)
      else if pi_magic part = ESP_PARTITION_MAGIC_MD5 then basic_verify_loop chip table (Suc i) n
      else if pi_magic part = 0xFFFF \<and> pi_type part = 0xff \<and> pi_subtype part = 0xff
      then (ESP_OK, i)
      else (ESP_ERR_INVALID_STATE, 0))"

definition esp_partition_table_basic_verify :: "nat \<Rightarrow> u8 list \<Rightarrow> esp_err \<times> nat" where
  "esp_partition_table_basic_verify chip table =
     basic_verify_loop chip table 0 ESP_PARTITION_TABLE_MAX_ENTRIES"

section \<open>The application's partition list\<close>

record partition =
  p_type :: nat
  p_subtype :: nat
  p_address :: nat
  p_size :: nat
  p_label :: "u8 list"

definition c_string :: "u8 list \<Rightarrow> u8 list" where
  "c_string bs = takeWhile (\<lambda>b. b \<noteq> 0) bs"

definition partition_of :: "part_info \<Rightarrow> partition" where
  "partition_of it = \<lparr>p_type = pi_type it, p_subtype = pi_subtype it, p_address = pi_offset it,
     p_size = pi_size it, p_label = c_string (pi_label it)\<rparr>"

fun load_loop :: "u8 list \<Rightarrow> nat \<Rightarrow> nat \<Rightarrow> partition list" where
  "load_loop buf i 0 = []"
| "load_loop buf i (Suc n) =
     (let it = table_entry buf i in
      if pi_magic it \<noteq> ESP_PARTITION_MAGIC then []
      else partition_of it # load_loop buf (Suc i) n)"

definition load_partitions :: "'c flash_rom \<Rightarrow> 'c \<Rightarrow> esp_err + partition list" where
  "load_partitions rom c =
     (case spi_flash_read rom c False ESP_PARTITION_TABLE_ADDR SPI_FLASH_SEC_SIZE of
        Inl e \<Rightarrow> Inl e
      | Inr buf \<Rightarrow> Inr (load_loop buf 0 (SPI_FLASH_SEC_SIZE div INFO_SIZE)))"

record iterator =
  it_type :: nat
  it_subtype :: nat
  it_label :: "u8 list option"
  next_item :: "partition list"
  it_info :: "partition option"

definition it_matches :: "iterator \<Rightarrow> partition \<Rightarrow> bool" where
  "it_matches it p \<longleftrightarrow> \<not> it_type it \<noteq> p_type p
     \<and> \<not> (it_subtype it \<noteq> 0xff \<and> it_subtype it \<noteq> p_subtype p)
     \<and> \<not> (it_label it \<noteq> None \<and> it_label it \<noteq> Some (p_label p))"

definition iterator_create :: "partition list \<Rightarrow> nat \<Rightarrow> nat \<Rightarrow> u8 list option \<Rightarrow> iterator" where
  "iterator_create plist type subtype label =
     \<lparr>it_type = type, it_subtype = subtype, it_label = label, next_item = plist, it_info = None\<rparr>"

definition esp_partition_next :: "iterator \<Rightarrow> iterator option" where
  "esp_partition_next it =
     (if next_item it = [] then None
      else case dropWhile (\<lambda>p. \<not> it_matches it p) (next_item it) of
        [] \<Rightarrow> None
      | p # rest \<Rightarrow> Some (it\<lparr>it_info := Some p, next_item := rest\<rparr>))"

definition esp_partition_get :: "iterator \<Rightarrow> partition option" where
  "esp_partition_get it = it_info it"

text \<open>\<open>plist\<close> is \<open>s_partition_list\<close>: the operations return it as it is afterwards.\<close>

definition esp_partition_find ::
  "'c flash_rom \<Rightarrow> 'c \<Rightarrow> partition list \<Rightarrow> nat \<Rightarrow> nat \<Rightarrow> u8 list option
   \<Rightarrow> iterator option \<times> partition list" where
  "esp_partition_find rom c plist type subtype label =
     (if plist = [] then
        (case load_partitions rom c of
           Inl e \<Rightarrow> (None, plist)
         | Inr ps \<Rightarrow> (esp_partition_next (iterator_create ps type subtype label), ps))
      else (esp_partition_next (iterator_create plist type subtype label), plist))"

definition esp_partition_find_first ::
  "'c flash_rom \<Rightarrow> 'c \<Rightarrow> partition list \<Rightarrow> nat \<Rightarrow> nat \<Rightarrow> u8 list option
   \<Rightarrow> partition option \<times> partition list" where
  "esp_partition_find_first rom c plist type subtype label =
     (case esp_partition_find rom c plist type subtype label of
        (None, ps) \<Rightarrow> (None, ps)
      | (Some it, ps) \<Rightarrow> (esp_partition_get it, ps))"

lemma next_shorter: "esp_partition_next it = Some it' \<Longrightarrow> length (next_item it') < length (next_item it)"
proof -
  assume "esp_partition_next it = Some it'"
  then obtain p rest where d: "dropWhile (\<lambda>p. \<not> it_matches it p) (next_item it) = p # rest"
    and "next_item it' = rest"
    by (auto simp: esp_partition_next_def split: if_splits list.splits)
  then show ?thesis
    using length_dropWhile_le [of "\<lambda>p. \<not> it_matches it p" "next_item it"] by simp
qed

function verify_loop :: "iterator option \<Rightarrow> partition \<Rightarrow> partition option" where
  "verify_loop None part = None"
| "verify_loop (Some it) part =
     (case esp_partition_get it of
        None \<Rightarrow> None
      | Some p \<Rightarrow>
          if p_address p = p_address part \<and> p_size part = p_size p then Some p
          else verify_loop (esp_partition_next it) part)"
  by pat_completeness auto
termination
  by (relation "measure (\<lambda>(it, part). case it of None \<Rightarrow> 0 | Some i \<Rightarrow> Suc (length (next_item i)))")
    (auto split: option.split dest: next_shorter)

definition esp_partition_verify ::
  "'c flash_rom \<Rightarrow> 'c \<Rightarrow> partition list \<Rightarrow> partition \<Rightarrow> partition option \<times> partition list" where
  "esp_partition_verify rom c plist part =
     (let label = (if p_label part \<noteq> [] then Some (p_label part) else None) in
      case esp_partition_find rom c plist (p_type part) (p_subtype part) label of
        (it, ps) \<Rightarrow> (verify_loop it part, ps))"

section \<open>Access relative to a partition\<close>

text \<open>The range check that the three operations share: \<open>size_t\<close> addition wraps.\<close>

definition part_range_err :: "partition \<Rightarrow> nat \<Rightarrow> nat \<Rightarrow> esp_err option" where
  "part_range_err part off sz =
     (if p_size part < off then Some ESP_ERR_INVALID_ARG
      else if p_size part < (off + sz) mod 2 ^ 32 then Some ESP_ERR_INVALID_SIZE
      else None)"

definition esp_partition_read ::
  "'c flash_rom \<Rightarrow> 'c \<Rightarrow> partition \<Rightarrow> bool \<Rightarrow> nat \<Rightarrow> nat \<Rightarrow> esp_err + u8 list" where
  "esp_partition_read rom c part na src_offset sz =
     (case part_range_err part src_offset sz of
        Some e \<Rightarrow> Inl e
      | None \<Rightarrow> spi_flash_read rom c na ((p_address part + src_offset) mod 2 ^ 32) sz)"

definition esp_partition_write ::
  "'c flash_rom \<Rightarrow> 'c \<Rightarrow> partition \<Rightarrow> bool \<Rightarrow> nat \<Rightarrow> u8 list option \<Rightarrow> nat \<Rightarrow> (esp_err \<times> 'c) option" where
  "esp_partition_write rom c part na dst_offset src sz =
     (case part_range_err part dst_offset sz of
        Some e \<Rightarrow> Some (e, c)
      | None \<Rightarrow> spi_flash_write rom c na ((p_address part + dst_offset) mod 2 ^ 32) src sz)"

definition esp_partition_erase_range ::
  "'c flash_rom \<Rightarrow> 'c \<Rightarrow> partition \<Rightarrow> nat \<Rightarrow> nat \<Rightarrow> esp_err \<times> 'c" where
  "esp_partition_erase_range rom c part start_addr sz =
     (case part_range_err part start_addr sz of
        Some e \<Rightarrow> (e, c)
      | None \<Rightarrow>
          if sz mod SPI_FLASH_SEC_SIZE \<noteq> 0 then (ESP_ERR_INVALID_SIZE, c)
          else if start_addr mod SPI_FLASH_SEC_SIZE \<noteq> 0 then (ESP_ERR_INVALID_ARG, c)
          else spi_flash_erase_range rom c ((p_address part + start_addr) mod 2 ^ 32) sz)"

section \<open>Lemmas: table scans\<close>

lemma basic_verify_loop_ok:
  "basic_verify_loop chip table i n = (ESP_OK, k) \<Longrightarrow>
   i \<le> k \<and> k < i + n \<and> pi_magic (table_entry table k) = 0xFFFF \<and>
   (\<forall>j. i \<le> j \<and> j < k \<longrightarrow>
      pi_magic (table_entry table j) = ESP_PARTITION_MAGIC \<and> pi_offset (table_entry table j) \<le> chip \<and>
      (pi_offset (table_entry table j) + pi_size (table_entry table j)) mod 2 ^ 32 \<le> chip
      \<or> pi_magic (table_entry table j) = ESP_PARTITION_MAGIC_MD5)"
proof (induction chip table i n rule: basic_verify_loop.induct)
  case (2 chip table i n)
  have tail: "i \<le> k \<and> k < i + Suc n \<and> pi_magic (table_entry table k) = 0xFFFF \<and>
     (\<forall>j. i \<le> j \<and> j < k \<longrightarrow> P j)"
    if "Suc i \<le> k \<and> k < Suc i + n \<and> pi_magic (table_entry table k) = 0xFFFF \<and>
     (\<forall>j. Suc i \<le> j \<and> j < k \<longrightarrow> P j)" and "P i" for P
    using that by (auto simp: Suc_le_eq) (metis le_neq_implies_less)
  show ?case
  proof (cases "basic_verify_loop chip table (Suc i) n = (ESP_OK, k)")
    case True
    show ?thesis
    proof (cases "pi_magic (table_entry table i) = ESP_PARTITION_MAGIC
        \<or> pi_magic (table_entry table i) = ESP_PARTITION_MAGIC_MD5")
      case True': True
      then show ?thesis using "2.prems" "2.IH" True
        by (intro tail) (auto simp: Let_def not_less part_consts split: if_splits)
    next
      case False
      then show ?thesis using "2.prems" by (auto simp: Let_def split: if_splits)
    qed
  next
    case False
    then show ?thesis using "2.prems" by (auto simp: Let_def split: if_splits)
  qed
qed simp

lemma load_loop_takeWhile:
  "load_loop buf i n = map partition_of (takeWhile (\<lambda>e. pi_magic e = ESP_PARTITION_MAGIC)
     (map (table_entry buf) [i..<i + n]))"
  by (induction buf i n rule: load_loop.induct) (auto simp: Let_def upt_conv_Cons simp del: upt_Suc)

lemma takeWhile_stop: "\<not> P x \<Longrightarrow> takeWhile P (xs @ x # ys) = takeWhile P xs"
  by (induction xs) auto

lemma load_loop_prefix:
  assumes "k < n" and "pi_magic (table_entry buf k) = 0xFFFF"
    and "\<forall>j<k. pi_magic (table_entry buf j) = ESP_PARTITION_MAGIC
      \<or> pi_magic (table_entry buf j) = ESP_PARTITION_MAGIC_MD5"
  shows "load_loop buf 0 n
    = map partition_of (takeWhile (\<lambda>e. pi_magic e \<noteq> ESP_PARTITION_MAGIC_MD5) (map (table_entry buf) [0..<k]))"
proof -
  let ?M = "\<lambda>e. pi_magic e = ESP_PARTITION_MAGIC" and ?es = "map (table_entry buf) [0..<k]"
  have "[0..<n] = [0..<k] @ k # [Suc k..<n]"
    using assms(1) by (metis less_imp_le_nat upt_add_eq_append upt_conv_Cons le0 le_add_diff_inverse)
  then have all: "map (table_entry buf) [0..<n] = ?es @ table_entry buf k # map (table_entry buf) [Suc k..<n]"
    by simp
  have "takeWhile ?M (map (table_entry buf) [0..<n]) = takeWhile ?M ?es"
    unfolding all by (rule takeWhile_stop) (simp add: assms(2) part_consts)
  also have "\<dots> = takeWhile (\<lambda>e. pi_magic e \<noteq> ESP_PARTITION_MAGIC_MD5) ?es"
    by (rule takeWhile_cong) (use assms(3) in \<open>auto simp: part_consts\<close>)
  finally show ?thesis by (simp add: load_loop_takeWhile)
qed

section \<open>Lemmas: iterators\<close>

text \<open>The partitions an iterator visits, from the one it points to on.\<close>

function visited :: "iterator option \<Rightarrow> partition list" where
  "visited None = []"
| "visited (Some it) =
     (case it_info it of None \<Rightarrow> [] | Some p \<Rightarrow> p # visited (esp_partition_next it))"
  by pat_completeness auto
termination
  by (relation "measure (\<lambda>it. case it of None \<Rightarrow> 0 | Some i \<Rightarrow> Suc (length (next_item i)))")
    (auto split: option.split dest: next_shorter)

lemma it_matches_update [simp]:
  "it_matches (it\<lparr>it_info := x, next_item := y\<rparr>) = it_matches it"
  by (rule ext) (simp add: it_matches_def)

lemma esp_partition_next_simps:
  "esp_partition_next it =
     (case dropWhile (\<lambda>p. \<not> it_matches it p) (next_item it) of
        [] \<Rightarrow> None | p # rest \<Rightarrow> Some (it\<lparr>it_info := Some p, next_item := rest\<rparr>))"
  by (simp add: esp_partition_next_def)

lemma filter_dropWhile_not: "filter P (dropWhile (\<lambda>x. \<not> P x) xs) = filter P xs"
  by (induction xs) auto

lemma visited_next: "visited (esp_partition_next it) = filter (it_matches it) (next_item it)"
proof (induction "length (next_item it)" arbitrary: it rule: less_induct)
  case less
  let ?d = "dropWhile (\<lambda>p. \<not> it_matches it p) (next_item it)"
  have f: "filter (it_matches it) ?d = filter (it_matches it) (next_item it)"
    by (rule filter_dropWhile_not)
  show ?case
  proof (cases ?d)
    case Nil
    have "esp_partition_next it = None" by (simp only: esp_partition_next_simps Nil list.case)
    moreover have "filter (it_matches it) (next_item it) = []" using f unfolding Nil by simp
    ultimately show ?thesis by simp
  next
    case (Cons p rest)
    let ?it = "it\<lparr>it_info := Some p, next_item := rest\<rparr>"
    have nx: "esp_partition_next it = Some ?it" by (simp only: esp_partition_next_simps Cons list.case)
    have "it_matches it p" using Cons by (metis dropWhile_eq_Cons_conv)
    moreover have "length (next_item ?it) < length (next_item it)" using next_shorter [OF nx] .
    then have "visited (esp_partition_next ?it) = filter (it_matches it) rest"
      using less.hyps [of ?it] by simp
    moreover have "filter (it_matches it) ?d = filter (it_matches it) (p # rest)" using Cons by simp
    ultimately show ?thesis using nx f by simp
  qed
qed

lemma verify_loop_find:
  "verify_loop it part = find (\<lambda>p. p_address p = p_address part \<and> p_size part = p_size p) (visited it)"
  by (induction it part rule: verify_loop.induct)
     (auto simp: esp_partition_get_def split: option.split)

definition wanted :: "nat \<Rightarrow> nat \<Rightarrow> u8 list option \<Rightarrow> partition \<Rightarrow> bool" where
  "wanted type subtype label p \<longleftrightarrow> p_type p = type \<and> (subtype = PART_SUBTYPE_ANY \<or> p_subtype p = subtype)
     \<and> (label = None \<or> label = Some (p_label p))"

lemma it_matches_create: "it_matches (iterator_create ps type subtype label) = wanted type subtype label"
  by (rule ext) (auto simp: it_matches_def iterator_create_def wanted_def part_consts)

text \<open>The list the operations work on: loaded when it is still empty.\<close>

definition loaded :: "'c flash_rom \<Rightarrow> 'c \<Rightarrow> partition list \<Rightarrow> partition list" where
  "loaded rom c plist =
     (if plist = [] then (case load_partitions rom c of Inl e \<Rightarrow> plist | Inr ps \<Rightarrow> ps) else plist)"

lemma loaded_idem [simp]: "plist \<noteq> [] \<Longrightarrow> loaded rom c plist = plist"
  by (simp add: loaded_def)

lemma find_loaded:
  "esp_partition_find rom c plist type subtype label =
     (if plist = [] \<and> (\<exists>e. load_partitions rom c = Inl e) then (None, plist)
      else (esp_partition_next (iterator_create (loaded rom c plist) type subtype label), loaded rom c plist))"
  by (auto simp: esp_partition_find_def loaded_def split: sum.split)

lemma visited_find:
  "visited (fst (esp_partition_find rom c plist type subtype label))
     = filter (wanted type subtype label) (loaded rom c plist)"
  "snd (esp_partition_find rom c plist type subtype label) = loaded rom c plist"
  by (auto simp: find_loaded visited_next it_matches_create loaded_def)
     (simp_all add: iterator_create_def)

lemma find_info: "fst (esp_partition_find rom c plist type subtype label) = Some it \<Longrightarrow> it_info it \<noteq> None"
  by (auto simp: find_loaded esp_partition_next_def split: if_splits list.splits)

lemma find_first_loaded:
  "esp_partition_find_first rom c plist type subtype label =
     (find (wanted type subtype label) (loaded rom c plist), loaded rom c plist)"
proof -
  obtain it ps where f: "esp_partition_find rom c plist type subtype label = (it, ps)" by fastforce
  have v: "visited it = filter (wanted type subtype label) (loaded rom c plist)" "ps = loaded rom c plist"
    using visited_find [of rom c plist type subtype label] f by auto
  have hd: "find P xs = (case filter P xs of [] \<Rightarrow> None | x # _ \<Rightarrow> Some x)" for P and xs :: "partition list"
    by (induction xs) auto
  show ?thesis
  proof (cases it)
    case None
    then show ?thesis using f v by (simp add: esp_partition_find_first_def hd)
  next
    case (Some i)
    then obtain p where "it_info i = Some p" using find_info [of rom c plist type subtype label] f by auto
    then show ?thesis using f v Some
      by (simp add: esp_partition_find_first_def esp_partition_get_def hd flip: v(1))
  qed
qed

lemma verify_loaded:
  "esp_partition_verify rom c plist part
     = (find (\<lambda>p. p_address p = p_address part \<and> p_size part = p_size p)
          (filter (wanted (p_type part) (p_subtype part) (if p_label part = [] then None else Some (p_label part)))
             (loaded rom c plist)),
        loaded rom c plist)"
  using visited_find [of rom c plist "p_type part" "p_subtype part"
      "if p_label part = [] then None else Some (p_label part)"]
  by (auto simp: esp_partition_verify_def verify_loop_find split: prod.split)

section \<open>Lemmas: access relative to a partition\<close>

definition part_on_chip :: "'c flash_rom \<Rightarrow> partition \<Rightarrow> bool" where
  "part_on_chip rom p \<longleftrightarrow> p_address p + p_size p \<le> chip_size rom"

context flash_dev
begin

lemma part_read_ok:
  assumes "part_on_chip rom p" and "chip_size rom \<le> 2 ^ 31" and "off + n < 2 ^ 32"
    and "esp_partition_read rom c p na off n = Inr bs"
  shows "off + n \<le> p_size p \<and> bs = mget (view c) (p_address p + off) n"
  using assms read_ok [of "p_address p + off" n c na bs]
  by (auto simp: esp_partition_read_def part_range_err_def part_on_chip_def split: if_splits)

lemma part_write_ok:
  assumes "part_on_chip rom p" and "chip_size rom \<le> 2 ^ 31" and "length bs \<le> 65536" "off < 2 ^ 32"
  shows "\<exists>r c'. esp_partition_write rom c p na off (Some bs) (length bs) = Some (r, c') \<and>
     (if off + length bs \<le> p_size p then write_outcome view c (p_address p + off) bs (r, c')
      else r \<noteq> ESP_OK \<and> c' = c)"
proof (cases "off + length bs \<le> p_size p")
  case True
  then have "p_address p + off + length bs < 2 ^ 32" using assms by (simp add: part_on_chip_def)
  then show ?thesis
    using assms True write_ok [of bs "p_address p + off" c na]
    by (auto simp: esp_partition_write_def part_range_err_def part_on_chip_def)
next
  case False
  have "off \<le> p_size p \<Longrightarrow> p_size p < (off + length bs) mod 2 ^ 32"
    using False assms by (simp add: part_on_chip_def)
  then show ?thesis using False
    by (auto simp: esp_partition_write_def part_range_err_def)
qed

lemma part_erase_ok:
  assumes "part_on_chip rom p" and "chip_size rom \<le> 2 ^ 31" and "0 < n" "off + n < 2 ^ 32"
    and e: "esp_partition_erase_range rom c p off n = (r, c')"
  shows "if off + n \<le> p_size p then erase_outcome view c (p_address p + off) n (r, c')
     else r \<noteq> ESP_OK \<and> c' = c"
proof (cases "off + n \<le> p_size p")
  case True
  then have "p_address p + off < 2 ^ 32" using assms by (simp add: part_on_chip_def)
  then show ?thesis
    using e True assms erase_ok [of n c "p_address p + off"]
    by (auto simp: esp_partition_erase_range_def part_range_err_def erase_outcome_def split: if_splits)
next
  case False
  then have "off \<le> p_size p \<Longrightarrow> p_size p < (off + n) mod 2 ^ 32" using assms by simp
  then show ?thesis using e False
    by (auto simp: esp_partition_erase_range_def part_range_err_def split: if_splits)
qed

end

section \<open>Properties\<close>

lemma nor_flash_dev: "nor_chip rom view \<Longrightarrow> flash_dev rom view"
  by (unfold_locales; rule nor_chip.read_ok nor_chip.read_fail nor_chip.write_ok nor_chip.erase_range)

definition demo_part :: partition where
  "demo_part = \<lparr>p_type = 1, p_subtype = 2, p_address = 0x9000, p_size = 0x4000, p_label = [0x6e, 0x76, 0x73]\<rparr>"

text \<open>C34: A write of at most 64 KiB relative to a partition that lies on the chip always returns, never changes
  a byte outside the partition, refuses every such range that leaves the partition without touching the chip,
  and on success has programmed the bytes at the partition's address plus the offset.  (A larger write hangs in
  the page counter of the ROM's program routine, and a size near 2^32 wraps in the range check.)\<close>

theorem esp_partition_write_confined:
  assumes "nor_chip rom view" and "part_on_chip rom p" and "length bs \<le> 65536" and "off < 2 ^ 32"
  shows "\<exists>r c'. esp_partition_write rom c p na off (Some bs) (length bs) = Some (r, c') \<and>
    (\<forall>b. b < p_address p \<or> p_address p + p_size p \<le> b \<longrightarrow> view c' b = view c b) \<and>
    (p_size p < off + length bs \<longrightarrow> r \<noteq> ESP_OK \<and> c' = c) \<and>
    (r = ESP_OK \<longrightarrow> view c' = and_write (view c) (p_address p + off) bs)"
proof -
  obtain r c' where w: "esp_partition_write rom c p na off (Some bs) (length bs) = Some (r, c')"
    and o: "if off + length bs \<le> p_size p then write_outcome view c (p_address p + off) bs (r, c')
      else r \<noteq> ESP_OK \<and> c' = c"
    using flash_dev.part_write_ok [OF nor_flash_dev [OF assms(1)] assms(2)
        nor_chip.chip_size_bound [OF assms(1)] assms(3,4), of c na] by blast
  show ?thesis
  proof (cases "off + length bs \<le> p_size p")
    case True
    then show ?thesis using w o programmed_out [of "view c" "p_address p + off" bs "view c'"]
      by (auto simp: write_outcome_def)
  next
    case False
    then show ?thesis using w o by auto
  qed
qed

lemma esp_partition_write_confined_witness:
  "\<exists>r c'. esp_partition_write sim_rom blank_flash demo_part False 0x10 (Some [1, 2, 3]) 3 = Some (r, c') \<and>
    cells c' 0x8FFF = 0xFF \<and> cells c' 0xD000 = 0xFF"
proof -
  have len: "length [1, 2, 3 :: u8] = 3" by simp
  have "part_on_chip sim_rom demo_part" by (simp add: part_on_chip_def demo_part_def sim_rom_def)
  from esp_partition_write_confined [OF sim.nor_chip_axioms this, where bs = "[1, 2, 3]"
      and off = "0x10" and c = blank_flash and na = False, unfolded len]
  show ?thesis by (auto simp: blank_flash_def demo_part_def)
qed

text \<open>Erasing a non-empty range whose end does not wrap never changes a byte outside the
  partition, refuses ranges that leave it without touching the chip, and on success leaves the range
  at 0xFF.\<close>

theorem esp_partition_erase_confined:
  assumes "nor_chip rom view" and "part_on_chip rom p" and "0 < n" and "off + n < 2 ^ 32"
    and "esp_partition_erase_range rom c p off n = (r, c')"
  shows "(\<forall>b. b < p_address p \<or> p_address p + p_size p \<le> b \<longrightarrow> view c' b = view c b) \<and>
    (p_size p < off + n \<longrightarrow> r \<noteq> ESP_OK \<and> c' = c) \<and>
    (r = ESP_OK \<longrightarrow> view c' = erased (view c) (p_address p + off) n)"
  using flash_dev.part_erase_ok [OF nor_flash_dev [OF assms(1)] assms(2)
      nor_chip.chip_size_bound [OF assms(1)] assms(3-5)]
  by (auto simp: erase_outcome_def split: if_splits)

lemma esp_partition_erase_confined_witness:
  "cells (snd (esp_partition_erase_range sim_rom zero_flash demo_part 0x1000 0x1000)) 0x8FFF = 0 \<and>
   snd (esp_partition_erase_range sim_rom zero_flash demo_part 0x1000 0x4000) = zero_flash"
proof -
  have on: "part_on_chip sim_rom demo_part" by (simp add: part_on_chip_def demo_part_def sim_rom_def)
  have "cells (snd (esp_partition_erase_range sim_rom zero_flash demo_part 0x1000 0x1000)) 0x8FFF = cells zero_flash 0x8FFF"
    using esp_partition_erase_confined [OF sim.nor_chip_axioms on _ _ prod.collapse [symmetric],
      of "0x1000" "0x1000" zero_flash]
    by (simp add: demo_part_def)
  moreover have "snd (esp_partition_erase_range sim_rom zero_flash demo_part 0x1000 0x4000) = zero_flash"
    using esp_partition_erase_confined [OF sim.nor_chip_axioms on _ _ prod.collapse [symmetric],
      of "0x4000" "0x1000" zero_flash]
    by (simp add: demo_part_def)
  ultimately show ?thesis by (simp add: zero_flash_def)
qed

text \<open>The range check of \<open>esp_partition_erase_range\<close> can be passed by a size that wraps: at a
  non-zero sector offset, the size \<open>2^32 - off\<close> is accepted and, on a chip whose erase commands all
  succeed, everything from there to the end of the chip is erased, across all later partitions.\<close>

theorem esp_partition_erase_wraps:
  assumes "nor_chip rom view" and "part_on_chip rom p"
    and "\<And>c. fst (SPI_write_enable rom c) = ESP_OK" and "\<And>c s. fst (SPI_sector_erase rom c s) = ESP_OK"
    and "SPI_FLASH_SEC_SIZE dvd p_address p" and "SPI_FLASH_SEC_SIZE dvd off" and "0 < off" and "off \<le> p_size p"
  shows "\<exists>c'. esp_partition_erase_range rom c p off (2 ^ 32 - off) = (ESP_ERR_FLASH_OP_FAIL, c') \<and>
    (\<forall>b. view c' b = (if p_address p + off \<le> b \<and> b < chip_size rom then 0xFF else view c b))"
proof -
  let ?a = "p_address p + off"
  obtain c1 where c1: "spi_flash_check_wr_protect rom c = (True, c1)" "view c1 = view c"
    using nor_chip.check_wr_protect [OF assms(1)] by blast
  have chip: "chip_size rom \<le> 2 ^ 31" using nor_chip.chip_size_bound [OF assms(1)] .
  have a: "?a \<le> chip_size rom" "off < 2 ^ 32" "?a < 2 ^ 32"
    using assms(2,8) chip by (auto simp: part_on_chip_def)
  have dv: "SPI_FLASH_SEC_SIZE dvd 2 ^ 32 - off" "SPI_FLASH_SEC_SIZE dvd ?a"
    using assms(5,6) by (auto simp: flash_consts intro!: dvd_diff_nat)
  have "chip_size rom div SPI_FLASH_SEC_SIZE < ?a div SPI_FLASH_SEC_SIZE + (2 ^ 32 - off) div SPI_FLASH_SEC_SIZE"
  proof -
    have "?a div SPI_FLASH_SEC_SIZE + (2 ^ 32 - off) div SPI_FLASH_SEC_SIZE
        = (?a + (2 ^ 32 - off)) div SPI_FLASH_SEC_SIZE"
      using dv by (simp only: div_plus_div_distrib_dvd_left)
    also have "\<dots> = (p_address p + 2 ^ 32) div SPI_FLASH_SEC_SIZE" using a by simp
    also have "(p_address p + 2 ^ 32) div SPI_FLASH_SEC_SIZE \<ge> 2 ^ 32 div SPI_FLASH_SEC_SIZE"
      by (rule div_le_mono) simp
    finally have "2 ^ 20 \<le> ?a div SPI_FLASH_SEC_SIZE + (2 ^ 32 - off) div SPI_FLASH_SEC_SIZE"
      by (simp add: flash_consts)
    moreover have "chip_size rom div SPI_FLASH_SEC_SIZE \<le> 2 ^ 31 div SPI_FLASH_SEC_SIZE"
      using chip by (rule div_le_mono)
    ultimately show ?thesis by (simp add: flash_consts)
  qed
  moreover have "?a div SPI_FLASH_SEC_SIZE \<le> chip_size rom div SPI_FLASH_SEC_SIZE"
    using a by (intro div_le_mono)
  ultimately obtain c' where c':
    "erase_loop rom c1 (?a div SPI_FLASH_SEC_SIZE) ((2 ^ 32 - off) div SPI_FLASH_SEC_SIZE) = (ESP_ERR_FLASH_OP_FAIL, c')"
    "\<forall>b. view c' b = (if ?a div SPI_FLASH_SEC_SIZE * SPI_FLASH_SEC_SIZE \<le> b \<and> b < chip_size rom then 0xFF else view c1 b)"
    using erase_loop_to_end [OF assms(1,3,4)] by blast
  have "esp_partition_erase_range rom c p off (2 ^ 32 - off) = spi_flash_erase_range rom c ?a (2 ^ 32 - off)"
    using assms(6-8) a dv by (simp add: esp_partition_erase_range_def part_range_err_def)
  also have "\<dots> = (ESP_ERR_FLASH_OP_FAIL, c')"
    using dv c1 c' by (simp add: spi_flash_erase_range_def)
  finally show ?thesis using c' c1 dv by simp
qed

lemma esp_partition_erase_wraps_witness:
  "\<exists>c'. esp_partition_erase_range sure_rom zero_flash demo_part 0x1000 (2 ^ 32 - 0x1000)
      = (ESP_ERR_FLASH_OP_FAIL, c') \<and> cells c' 0x9FFF = 0 \<and> cells c' 0xFFFFF = 0xFF"
proof -
  have "\<exists>c'. esp_partition_erase_range sure_rom zero_flash demo_part 0x1000 (2 ^ 32 - 0x1000)
      = (ESP_ERR_FLASH_OP_FAIL, c') \<and>
    (\<forall>b. cells c' b = (if p_address demo_part + 0x1000 \<le> b \<and> b < chip_size sure_rom then 0xFF else cells zero_flash b))"
    by (rule esp_partition_erase_wraps [OF sure.nor_chip_axioms])
       (simp_all add: part_on_chip_def demo_part_def sure_rom_def sim_rom_def flash_consts)
  then show ?thesis by (auto simp: zero_flash_def demo_part_def sure_rom_def sim_rom_def)
qed

text \<open>Iterating with \<open>esp_partition_find\<close> and \<open>esp_partition_next\<close> visits exactly the matching
  partitions of the (possibly just loaded) list, in table order; \<open>esp_partition_find_first\<close> returns
  the first of them, and \<open>esp_partition_verify\<close> the first with the same address and size.\<close>

theorem partition_search_exact:
  "visited (fst (esp_partition_find rom c plist type subtype label))
     = filter (wanted type subtype label) (loaded rom c plist) \<and>
   esp_partition_find_first rom c plist type subtype label
     = (find (wanted type subtype label) (loaded rom c plist), loaded rom c plist) \<and>
   esp_partition_verify rom c plist part
     = (find (\<lambda>p. p_address p = p_address part \<and> p_size part = p_size p)
          (filter (wanted (p_type part) (p_subtype part) (if p_label part = [] then None else Some (p_label part)))
             (loaded rom c plist)),
        loaded rom c plist)"
  by (intro conjI visited_find find_first_loaded verify_loaded)

text \<open>C35: When the bootloader's check accepts a table of \<open>n\<close> entries, each of them is an MD5 record or a
  partition that starts on the chip and ends there too unless its end wraps at 2^32, and the list that the
  application loads from the table is these entries up to the first MD5 record, in order: all \<open>n\<close> when there is
  no such record.\<close>

theorem partition_table_agreement:
  assumes "esp_partition_table_basic_verify chip table = (ESP_OK, n)"
  defines "es \<equiv> map (table_entry table) [0..<n]"
  shows "n < ESP_PARTITION_TABLE_MAX_ENTRIES \<and>
    (\<forall>e \<in> set es. pi_magic e = ESP_PARTITION_MAGIC_MD5 \<or> pi_magic e = ESP_PARTITION_MAGIC \<and> pi_offset e \<le> chip
       \<and> (pi_offset e + pi_size e < 2 ^ 32 \<longrightarrow> pi_offset e + pi_size e \<le> chip)) \<and>
    load_loop table 0 (SPI_FLASH_SEC_SIZE div INFO_SIZE)
      = map partition_of (takeWhile (\<lambda>e. pi_magic e \<noteq> ESP_PARTITION_MAGIC_MD5) es) \<and>
    ((\<forall>e \<in> set es. pi_magic e \<noteq> ESP_PARTITION_MAGIC_MD5) \<longrightarrow>
       load_loop table 0 (SPI_FLASH_SEC_SIZE div INFO_SIZE) = map partition_of es)"
proof -
  have v: "n < ESP_PARTITION_TABLE_MAX_ENTRIES" "pi_magic (table_entry table n) = 0xFFFF"
    "\<forall>j<n. pi_magic (table_entry table j) = ESP_PARTITION_MAGIC \<and> pi_offset (table_entry table j) \<le> chip \<and>
      (pi_offset (table_entry table j) + pi_size (table_entry table j)) mod 2 ^ 32 \<le> chip
      \<or> pi_magic (table_entry table j) = ESP_PARTITION_MAGIC_MD5"
    using basic_verify_loop_ok [of chip table 0 ESP_PARTITION_TABLE_MAX_ENTRIES n] assms(1)
    by (auto simp: esp_partition_table_basic_verify_def)
  have list: "load_loop table 0 (SPI_FLASH_SEC_SIZE div INFO_SIZE)
      = map partition_of (takeWhile (\<lambda>e. pi_magic e \<noteq> ESP_PARTITION_MAGIC_MD5) es)"
    using v unfolding es_def by (intro load_loop_prefix) (auto simp: flash_consts part_consts)
  have "pi_magic e = ESP_PARTITION_MAGIC_MD5 \<or> pi_magic e = ESP_PARTITION_MAGIC \<and> pi_offset e \<le> chip
      \<and> (pi_offset e + pi_size e < 2 ^ 32 \<longrightarrow> pi_offset e + pi_size e \<le> chip)" if e: "e \<in> set es" for e
  proof -
    obtain j where "j < n" "e = table_entry table j" using e unfolding es_def by auto
    then have "pi_magic e = ESP_PARTITION_MAGIC \<and> pi_offset e \<le> chip \<and> (pi_offset e + pi_size e) mod 2 ^ 32 \<le> chip
        \<or> pi_magic e = ESP_PARTITION_MAGIC_MD5" using v(3) by blast
    then show ?thesis by auto
  qed
  moreover have "takeWhile (\<lambda>e. pi_magic e \<noteq> ESP_PARTITION_MAGIC_MD5) es = es"
    if "\<forall>e \<in> set es. pi_magic e \<noteq> ESP_PARTITION_MAGIC_MD5" using that by (simp add: takeWhile_eq_all_conv)
  ultimately show ?thesis using v(1) list by (intro conjI ballI impI) (blast | simp only:)+
qed

definition demo_entry :: "u8 list" where
  "demo_entry = [0xAA, 0x50, 1, 2, 0, 0x90, 0, 0, 0, 0x40, 0, 0, 0x6e, 0x76, 0x73, 0, 0, 0, 0, 0, 0, 0, 0, 0,
     0, 0, 0, 0, 0, 0, 0, 0]"

definition demo_table :: "u8 list" where
  "demo_table = demo_entry @ replicate 32 0xFF"

lemma demo_table_entries:
  "table_entry demo_table 0 = \<lparr>pi_magic = 0x50AA, pi_type = 1, pi_subtype = 2, pi_offset = 0x9000,
     pi_size = 0x4000, pi_label = [0x6e, 0x76, 0x73, 0, 0, 0, 0, 0, 0, 0, 0, 0, 0, 0, 0, 0]\<rparr>"
  "pi_magic (table_entry demo_table 1) = 0xFFFF" "pi_type (table_entry demo_table 1) = 0xff"
  "pi_subtype (table_entry demo_table 1) = 0xff"
proof -
  have len: "length demo_entry = 32" by (simp add: demo_entry_def)
  then have "table_entry demo_table 0 = parse_info demo_entry"
    "table_entry demo_table 1 = parse_info (replicate 32 0xFF)"
    by (simp_all add: table_entry_def demo_table_def INFO_SIZE_def)
  then show "table_entry demo_table 0 = \<lparr>pi_magic = 0x50AA, pi_type = 1, pi_subtype = 2, pi_offset = 0x9000,
     pi_size = 0x4000, pi_label = [0x6e, 0x76, 0x73, 0, 0, 0, 0, 0, 0, 0, 0, 0, 0, 0, 0, 0]\<rparr>"
    "pi_magic (table_entry demo_table 1) = 0xFFFF" "pi_type (table_entry demo_table 1) = 0xff"
    "pi_subtype (table_entry demo_table 1) = 0xff"
    by (simp_all add: parse_info_def demo_entry_def nat_le32_def of_le32_def)
qed

lemma partition_table_agreement_witness:
  "load_loop demo_table 0 (SPI_FLASH_SEC_SIZE div INFO_SIZE) = [demo_part]"
proof -
  have "esp_partition_table_basic_verify 0x100000 demo_table = (ESP_OK, 1)"
  proof -
    have "basic_verify_loop 0x100000 demo_table 0 (Suc (Suc n)) = (ESP_OK, 1)" for n
      using demo_table_entries by (simp add: ESP_PARTITION_MAGIC_def ESP_PARTITION_MAGIC_MD5_def)
    moreover have "ESP_PARTITION_TABLE_MAX_ENTRIES = Suc (Suc 94)" by (simp add: part_consts)
    ultimately show ?thesis by (metis esp_partition_table_basic_verify_def)
  qed
  from partition_table_agreement [OF this] show ?thesis
    by (simp add: demo_part_def demo_table_entries partition_of_def c_string_def part_consts)
qed

end
