(* ===== verification/OtaOps.thy ===== *)
theory OtaOps
  imports Partition Crc
begin

text \<open>
  Over-the-air update, application side: \<open>components/app_update/esp_ota_ops.c\<close> with the options of the
  ESP8266 target.  The state \<open>ota_state\<close> holds the flash chip, the partition list, the open update
  handles (\<open>s_ota_ops_entries_head\<close>), the last handle given out and the two selection records
  (\<open>s_ota_select\<close>).  What the module calls outside itself is \<open>ota_env\<close>: the ROM, the outcome of
  \<open>esp_image_load\<close> in verify mode for a position on the chip (\<open>None\<close> when it does not return, \<open>Some None\<close>
  for an error, otherwise the image's entry address), and the flash address of the running code (\<open>spi_flash_cache2phys\<close>).

  An outcome \<open>None\<close> means that the routine does not return: a failed assertion, \<open>abort\<close>, a division
  by zero or an endless loop.  Two partitions are the same when all their fields are; \<open>calloc\<close>
  succeeds.
\<close>

section \<open>State\<close>

record 'c ota_env =
  chip_rom :: "'c flash_rom"
  image_load :: "'c \<Rightarrow> nat \<Rightarrow> nat \<Rightarrow> u32 option option"
  running_offs :: nat

record ota_entry =
  e_handle :: nat
  e_part :: partition
  e_erased :: nat
  e_wrote :: nat
  e_partial :: nat
  e_partial_data :: "u8 list"

record ota_select =
  ota_seq :: u32
  seq_label :: "u8 list"
  sel_crc :: u32

record 'c ota_state =
  flash :: 'c
  plist :: "partition list"
  entries :: "ota_entry list"
  last_handle :: nat
  select0 :: ota_select
  select1 :: ota_select

definition OTA_SIZE_UNKNOWN :: nat where "OTA_SIZE_UNKNOWN = 0xffffffff"
definition APP_OTA_MIN :: nat where "APP_OTA_MIN = 0x10"
definition APP_OTA_MAX :: nat where "APP_OTA_MAX = 0x20"
definition UINT32_MAX :: u32 where "UINT32_MAX = 0xffffffff"
definition SELECT_SIZE :: nat where "SELECT_SIZE = 32"

lemmas ota_consts = OTA_SIZE_UNKNOWN_def APP_OTA_MIN_def APP_OTA_MAX_def SELECT_SIZE_def

definition SUB_TYPE_ID :: "nat \<Rightarrow> nat" where
  "SUB_TYPE_ID i = i mod 16"

definition select_bytes :: "ota_select \<Rightarrow> u8 list" where
  "select_bytes s = le32 (ota_seq s) @ seq_label s @ le32 (sel_crc s)"

definition parse_select :: "u8 list \<Rightarrow> ota_select" where
  "parse_select bs = \<lparr>ota_seq = of_le32 (take 4 bs), seq_label = take 24 (drop 4 bs),
     sel_crc = of_le32 (take 4 (drop 28 bs))\<rparr>"

text \<open>\<open>esp_partition_find_first\<close> on the state, which keeps the list that it may load.\<close>

definition find_first ::
  "'c ota_env \<Rightarrow> 'c ota_state \<Rightarrow> nat \<Rightarrow> nat \<Rightarrow> partition option \<times> 'c ota_state" where
  "find_first env st type subtype =
     (case esp_partition_find_first (chip_rom env) (flash st) (plist st) type subtype None of
        (p, ps) \<Rightarrow> (p, st\<lparr>plist := ps\<rparr>))"

section \<open>Running and default partitions\<close>

definition is_ota_partition :: "partition \<Rightarrow> bool" where
  "is_ota_partition p \<longleftrightarrow> p_type p = PART_TYPE_APP \<and> APP_OTA_MIN \<le> p_subtype p \<and> p_subtype p < APP_OTA_MAX"

function running_loop :: "iterator option \<Rightarrow> nat \<Rightarrow> partition option" where
  "running_loop None phys_offs = None"
| "running_loop (Some it) phys_offs =
     (case esp_partition_get it of
        None \<Rightarrow> None
      | Some p \<Rightarrow>
          if p_address p \<le> phys_offs \<and> phys_offs < (p_address p + p_size p) mod 2 ^ 32 then Some p
          else running_loop (esp_partition_next it) phys_offs)"
  by pat_completeness auto
termination
  by (relation "measure (\<lambda>(it, offs). case it of None \<Rightarrow> 0 | Some i \<Rightarrow> Suc (length (next_item i)))")
    (auto split: option.split dest: next_shorter)

definition esp_ota_get_running_partition ::
  "'c ota_env \<Rightarrow> 'c ota_state \<Rightarrow> (partition \<times> 'c ota_state) option" where
  "esp_ota_get_running_partition env st =
     (case esp_partition_find (chip_rom env) (flash st) (plist st) PART_TYPE_APP PART_SUBTYPE_ANY None of
        (it, ps) \<Rightarrow> (case running_loop it (running_offs env) of
           None \<Rightarrow> None | Some p \<Rightarrow> Some (p, st\<lparr>plist := ps\<rparr>)))"

text \<open>The loop over the OTA subtypes \<open>s, \<dots>, APP_OTA_MAX - 1\<close>.\<close>

fun first_ota_loop :: "'c ota_env \<Rightarrow> 'c ota_state \<Rightarrow> nat list \<Rightarrow> partition option \<times> 'c ota_state" where
  "first_ota_loop env st [] = (None, st)"
| "first_ota_loop env st (s # ss) =
     (case find_first env st PART_TYPE_APP s of
        (Some p, st) \<Rightarrow> (Some p, st)
      | (None, st) \<Rightarrow> first_ota_loop env st ss)"

definition find_default_boot_partition ::
  "'c ota_env \<Rightarrow> 'c ota_state \<Rightarrow> partition option \<times> 'c ota_state" where
  "find_default_boot_partition env st =
     (case find_first env st PART_TYPE_APP PART_SUBTYPE_FACTORY of
        (Some p, st) \<Rightarrow> (Some p, st)
      | (None, st) \<Rightarrow> (case first_ota_loop env st [APP_OTA_MIN..<APP_OTA_MAX] of
           (Some p, st) \<Rightarrow> (Some p, st)
         | (None, st) \<Rightarrow> find_first env st PART_TYPE_APP PART_SUBTYPE_TEST))"

section \<open>An update session\<close>

definition esp_ota_begin ::
  "'c ota_env \<Rightarrow> 'c ota_state \<Rightarrow> partition option \<Rightarrow> nat \<Rightarrow> ((esp_err + nat) \<times> 'c ota_state) option" where
  "esp_ota_begin env st popt image_size =
     (case popt of
        None \<Rightarrow> Some (Inl ESP_ERR_INVALID_ARG, st)
      | Some part \<Rightarrow>
        (case esp_partition_verify (chip_rom env) (flash st) (plist st) part of
           (None, ps) \<Rightarrow> Some (Inl ESP_ERR_NOT_FOUND, st\<lparr>plist := ps\<rparr>)
         | (Some p, ps) \<Rightarrow>
           (let st = st\<lparr>plist := ps\<rparr> in
            if \<not> is_ota_partition p then Some (Inl ESP_ERR_INVALID_ARG, st)
            else case esp_ota_get_running_partition env st of
              None \<Rightarrow> None
            | Some (run, st) \<Rightarrow>
              if p = run then Some (Inl ESP_ERR_OTA_PARTITION_CONFLICT, st)
              else
                let whole = (image_size = 0 \<or> image_size = OTA_SIZE_UNKNOWN);
                    len = (if whole then p_size p
                           else (image_size div SPI_FLASH_SEC_SIZE + 1) * SPI_FLASH_SEC_SIZE mod 2 ^ 32) in
                case esp_partition_erase_range (chip_rom env) (flash st) p 0 len of
                  (ret, c) \<Rightarrow>
                    let st = st\<lparr>flash := c\<rparr> in
                    if ret \<noteq> ESP_OK then Some (Inl ret, st)
                    else
                      let h = (last_handle st + 1) mod 2 ^ 32;
                          e = \<lparr>e_handle = h, e_part = p, e_erased = (if whole then p_size p else image_size),
                               e_wrote = 0, e_partial = 0, e_partial_data = replicate 16 0\<rparr> in
                      Some (Inr h, st\<lparr>entries := e # entries st, last_handle := h\<rparr>))))"

fun upd_entry :: "nat \<Rightarrow> (ota_entry \<Rightarrow> ota_entry) \<Rightarrow> ota_entry list \<Rightarrow> ota_entry list" where
  "upd_entry h f [] = []"
| "upd_entry h f (e # es) = (if e_handle e = h then f e # es else e # upd_entry h f es)"

fun remove_entry :: "nat \<Rightarrow> ota_entry list \<Rightarrow> ota_entry list" where
  "remove_entry h [] = []"
| "remove_entry h (e # es) = (if e_handle e = h then es else e # remove_entry h es)"

definition find_entry :: "nat \<Rightarrow> ota_entry list \<Rightarrow> ota_entry option" where
  "find_entry h es = find (\<lambda>e. e_handle e = h) es"

text \<open>\<open>na\<close> is the alignment outcome for the caller's buffer, \<open>data = None\<close> the null pointer.\<close>

definition esp_ota_write ::
  "'c ota_env \<Rightarrow> 'c ota_state \<Rightarrow> nat \<Rightarrow> bool \<Rightarrow> u8 list option \<Rightarrow> nat \<Rightarrow> (esp_err \<times> 'c ota_state) option" where
  "esp_ota_write env st handle na data sz =
     (case data of
        None \<Rightarrow> Some (ESP_ERR_INVALID_ARG, st)
      | Some bytes \<Rightarrow>
        (case find_entry handle (entries st) of
           None \<Rightarrow> Some (ESP_ERR_INVALID_ARG, st)
         | Some it \<Rightarrow>
           if \<not> 0 < e_erased it then None
           else if e_wrote it = 0 \<and> 0 < sz \<and> bytes ! 0 \<noteq> 0xE9 then Some (ESP_ERR_OTA_VALIDATE_FAILED, st)
           else
             (case esp_partition_write (chip_rom env) (flash st) (e_part it) na (e_wrote it) (Some bytes) sz of
                None \<Rightarrow> None
              | Some (ret, c) \<Rightarrow>
                let st = st\<lparr>flash := c\<rparr> in
                if ret = ESP_OK then
                  Some (ret, st\<lparr>entries :=
                    upd_entry handle (\<lambda>e. e\<lparr>e_wrote := (e_wrote e + sz) mod 2 ^ 32\<rparr>) (entries st)\<rparr>)
                else Some (ret, st))))"

definition esp_ota_verify_binary :: "nat \<Rightarrow> nat \<Rightarrow> u32 \<Rightarrow> esp_err" where
  "esp_ota_verify_binary offset sz entry_addr =
     (let entry = entry_addr - 0x40200010; top = (offset + sz) mod 2 ^ 32 in
      if top \<le> 0x100000 \<and> (sint entry \<le> 0 \<or> unat entry \<le> offset \<or> top \<le> unat entry)
      then ESP_ERR_INVALID_ARG else ESP_OK)"

definition esp_ota_end ::
  "'c ota_env \<Rightarrow> 'c ota_state \<Rightarrow> nat \<Rightarrow> (esp_err \<times> 'c ota_state) option" where
  "esp_ota_end env st handle =
     (case find_entry handle (entries st) of
        None \<Rightarrow> Some (ESP_ERR_NOT_FOUND, st)
      | Some it \<Rightarrow>
        let cleanup = (\<lambda>ret st. Some (ret, st\<lparr>entries := remove_entry handle (entries st)\<rparr>));
            p = e_part it;
            verify = (\<lambda>st.
              case image_load env (flash st) (p_address p) (p_size p) of
                None \<Rightarrow> None
              | Some None \<Rightarrow> cleanup ESP_ERR_OTA_VALIDATE_FAILED st
              | Some (Some entry_addr) \<Rightarrow>
                  if esp_ota_verify_binary (p_address p) (p_size p) entry_addr \<noteq> ESP_OK
                  then cleanup ESP_ERR_OTA_VALIDATE_FAILED st else cleanup ESP_OK st) in
        if e_erased it = 0 \<or> e_wrote it = 0 then cleanup ESP_ERR_INVALID_ARG st
        else if 0 < e_partial it then
          (case esp_partition_write (chip_rom env) (flash st) p True (e_wrote it) (Some (e_partial_data it)) 16 of
             None \<Rightarrow> None
           | Some (ret, c) \<Rightarrow>
               let st = st\<lparr>flash := c\<rparr> in
               if ret \<noteq> ESP_OK then cleanup ESP_ERR_INVALID_STATE st else verify st)
        else verify st)"

section \<open>The selection records\<close>

definition ota_select_crc :: "ota_select \<Rightarrow> u32" where
  "ota_select_crc s = crc32_le UINT32_MAX (le32 (ota_seq s))"

definition ota_select_valid :: "ota_select \<Rightarrow> bool" where
  "ota_select_valid s \<longleftrightarrow> ota_seq s \<noteq> UINT32_MAX \<and> sel_crc s = ota_select_crc s"

definition set_select :: "nat \<Rightarrow> ota_select \<Rightarrow> 'c ota_state \<Rightarrow> 'c ota_state" where
  "set_select i s st = (if i = 0 then st\<lparr>select0 := s\<rparr> else st\<lparr>select1 := s\<rparr>)"

definition get_select :: "nat \<Rightarrow> 'c ota_state \<Rightarrow> ota_select" where
  "get_select i st = (if i = 0 then select0 st else select1 st)"

definition rewrite_ota_seq ::
  "'c ota_env \<Rightarrow> 'c ota_state \<Rightarrow> u32 \<Rightarrow> nat \<Rightarrow> partition \<Rightarrow> (esp_err \<times> 'c ota_state) option" where
  "rewrite_ota_seq env st seq sec_id part =
     (if sec_id = 0 \<or> sec_id = 1 then
        let s = (get_select sec_id st)\<lparr>ota_seq := seq\<rparr>;
            s = s\<lparr>sel_crc := ota_select_crc s\<rparr>;
            st = set_select sec_id s st in
        (case esp_partition_erase_range (chip_rom env) (flash st) part (sec_id * SPI_FLASH_SEC_SIZE) SPI_FLASH_SEC_SIZE of
           (ret, c) \<Rightarrow>
             let st = st\<lparr>flash := c\<rparr> in
             if ret \<noteq> ESP_OK then Some (ret, st)
             else
               (case esp_partition_write (chip_rom env) (flash st) part False (SPI_FLASH_SEC_SIZE * sec_id)
                       (Some (select_bytes s)) SELECT_SIZE of
                  None \<Rightarrow> None
                | Some (ret, c) \<Rightarrow> Some (ret, st\<lparr>flash := c\<rparr>)))
      else Some (ESP_ERR_INVALID_ARG, st))"

text \<open>\<open>get_ota_partition_count\<close>: the assertion fails when a partition is found for subtype 0x20.\<close>

function count_loop :: "'c ota_env \<Rightarrow> 'c ota_state \<Rightarrow> nat \<Rightarrow> (nat \<times> 'c ota_state) option" where
  "count_loop env st n =
     (case find_first env st PART_TYPE_APP (APP_OTA_MIN + n) of
        (None, st') \<Rightarrow> Some (n, st')
      | (Some p, st') \<Rightarrow> if n < 16 then count_loop env st' (n + 1) else None)"
  by pat_completeness auto
termination by (relation "measure (\<lambda>(env, st, n). 16 - n)") auto

declare count_loop.simps [simp del]

definition get_ota_partition_count :: "'c ota_env \<Rightarrow> 'c ota_state \<Rightarrow> (nat \<times> 'c ota_state) option" where
  "get_ota_partition_count env st = count_loop env st 0"

text \<open>The loop \<open>while (seq > r + i * n) i++\<close> on \<open>uint32_t\<close>; its result is the first sequence number
  \<open>r + i * n\<close> that is not below \<open>seq\<close>.\<close>

partial_function (option) seq_loop :: "nat \<Rightarrow> nat \<Rightarrow> nat \<Rightarrow> nat \<Rightarrow> nat option" where
  "seq_loop seq r n i =
     (let v = (r + i * n) mod 2 ^ 32 in
      if v < seq then seq_loop seq r n ((i + 1) mod 2 ^ 32) else Some v)"

text \<open>The two records as \<open>esp_rewrite_ota_data\<close> and \<open>esp_ota_get_boot_partition\<close> read them.\<close>

definition read_selects ::
  "'c ota_env \<Rightarrow> 'c ota_state \<Rightarrow> partition \<Rightarrow> esp_err option \<times> 'c ota_state" where
  "read_selects env st d =
     (case spi_flash_read (chip_rom env) (flash st) False (p_address d) SELECT_SIZE of
        Inl e \<Rightarrow> (Some e, st)
      | Inr bs0 \<Rightarrow>
        let st = st\<lparr>select0 := parse_select bs0\<rparr> in
        (case spi_flash_read (chip_rom env) (flash st) False ((p_address d + 0x1000) mod 2 ^ 32) SELECT_SIZE of
           Inl e \<Rightarrow> (Some e, st)
         | Inr bs1 \<Rightarrow> (None, st\<lparr>select1 := parse_select bs1\<rparr>)))"

definition esp_rewrite_ota_data ::
  "'c ota_env \<Rightarrow> 'c ota_state \<Rightarrow> nat \<Rightarrow> (esp_err \<times> 'c ota_state) option" where
  "esp_rewrite_ota_data env st subtype =
     (case find_first env st PART_TYPE_DATA PART_SUBTYPE_DATA_OTA of
        (None, st) \<Rightarrow> Some (ESP_ERR_NOT_FOUND, st)
      | (Some d, st) \<Rightarrow>
        (case get_ota_partition_count env st of
           None \<Rightarrow> None
         | Some (n, st) \<Rightarrow>
           if n \<le> SUB_TYPE_ID subtype then Some (ESP_ERR_INVALID_ARG, st)
           else
             (case read_selects env st d of
                (Some e, st) \<Rightarrow> Some (e, st)
              | (None, st) \<Rightarrow>
                let s0 = select0 st; s1 = select1 st; r = (SUB_TYPE_ID subtype + 1) mod n;
                    rewrite = (\<lambda>seq sec. case seq_loop seq r n 0 of
                       None \<Rightarrow> None | Some v \<Rightarrow> rewrite_ota_seq env st (word_of_nat v) sec d) in
                if ota_select_valid s0 \<and> ota_select_valid s1 then
                  rewrite (max (unat (ota_seq s0)) (unat (ota_seq s1)))
                    (if ota_seq s1 \<le> ota_seq s0 then 1 else 0)
                else if ota_select_valid s0 then rewrite (unat (ota_seq s0)) 1
                else if ota_select_valid s1 then rewrite (unat (ota_seq s1)) 0
                else rewrite_ota_seq env st (word_of_nat (SUB_TYPE_ID subtype + 1)) 0 d)))"

section \<open>Boot selection\<close>

definition esp_ota_set_boot_partition ::
  "'c ota_env \<Rightarrow> 'c ota_state \<Rightarrow> partition option \<Rightarrow> (esp_err \<times> 'c ota_state) option" where
  "esp_ota_set_boot_partition env st popt =
     (case popt of
        None \<Rightarrow> Some (ESP_ERR_INVALID_ARG, st)
      | Some p \<Rightarrow>
        (case image_load env (flash st) (p_address p) (p_size p) of
           None \<Rightarrow> None
         | Some None \<Rightarrow> Some (ESP_ERR_OTA_VALIDATE_FAILED, st)
         | Some (Some entry_addr) \<Rightarrow>
             if p_type p = PART_TYPE_APP then
               (case find_first env st PART_TYPE_DATA PART_SUBTYPE_DATA_OTA of
                  (None, st) \<Rightarrow> Some (ESP_ERR_NOT_FOUND, st)
                | (Some d, st) \<Rightarrow>
                  if p_subtype p = PART_SUBTYPE_FACTORY then
                    (case esp_partition_erase_range (chip_rom env) (flash st) d 0 (p_size d) of
                       (ret, c) \<Rightarrow> Some (ret, st\<lparr>flash := c\<rparr>))
                  else esp_rewrite_ota_data env st (p_subtype p))
             else Some (ESP_ERR_INVALID_ARG, st)))"

text \<open>Slot of a sequence number: \<open>(seq - 1) % n\<close> on \<open>uint32_t\<close>, a division by zero when there is no
  OTA partition.\<close>

definition ota_slot :: "u32 \<Rightarrow> nat \<Rightarrow> nat option" where
  "ota_slot seq n = (if n = 0 then None else Some (unat (seq - 1) mod n))"

definition esp_ota_get_boot_partition ::
  "'c ota_env \<Rightarrow> 'c ota_state \<Rightarrow> (partition option \<times> 'c ota_state) option" where
  "esp_ota_get_boot_partition env st =
     (case find_first env st PART_TYPE_DATA PART_SUBTYPE_DATA_OTA of
        (None, st) \<Rightarrow> Some (None, st)
      | (Some d, st) \<Rightarrow>
        (case read_selects env st d of
           (Some e, st) \<Rightarrow> Some (None, st)
         | (None, st) \<Rightarrow>
           (case get_ota_partition_count env st of
              None \<Rightarrow> None
            | Some (n, st) \<Rightarrow>
              let s0 = select0 st; s1 = select1 st;
                  slot = (\<lambda>seq. case ota_slot seq n of
                     None \<Rightarrow> None | Some k \<Rightarrow> Some (find_first env st PART_TYPE_APP (APP_OTA_MIN + k))) in
              if ota_seq s0 = UINT32_MAX \<and> ota_seq s1 = UINT32_MAX then
                Some (find_default_boot_partition env st)
              else if ota_select_valid s0 \<and> ota_select_valid s1 then slot (max (ota_seq s0) (ota_seq s1))
              else if ota_select_valid s0 then slot (ota_seq s0)
              else if ota_select_valid s1 then slot (ota_seq s1)
              else Some (find_default_boot_partition env st))))"

fun next_update_loop ::
  "'c ota_env \<Rightarrow> 'c ota_state \<Rightarrow> partition \<Rightarrow> nat list \<Rightarrow> partition option \<Rightarrow> bool
   \<Rightarrow> partition option \<times> 'c ota_state" where
  "next_update_loop env st start [] dflt next = (dflt, st)"
| "next_update_loop env st start (t # ts) dflt next =
     (case find_first env st PART_TYPE_APP t of
        (None, st) \<Rightarrow> next_update_loop env st start ts dflt next
      | (Some p, st) \<Rightarrow>
        let dflt = (if dflt = None then Some p else dflt) in
        if p = start then next_update_loop env st start ts dflt True
        else if next then (Some p, st)
        else next_update_loop env st start ts dflt next)"

definition esp_ota_get_next_update_partition ::
  "'c ota_env \<Rightarrow> 'c ota_state \<Rightarrow> partition option \<Rightarrow> (partition option \<times> 'c ota_state) option" where
  "esp_ota_get_next_update_partition env st start_from =
     (case (case start_from of
              None \<Rightarrow> esp_ota_get_running_partition env st
            | Some p \<Rightarrow> (case esp_partition_verify (chip_rom env) (flash st) (plist st) p of
                (None, ps) \<Rightarrow> None | (Some q, ps) \<Rightarrow> Some (q, st\<lparr>plist := ps\<rparr>))) of
        None \<Rightarrow> None
      | Some (start, st) \<Rightarrow>
          Some (next_update_loop env st start [APP_OTA_MIN..<APP_OTA_MAX] None False))"

definition esp_ota_get_partition_description ::
  "'c ota_env \<Rightarrow> 'c \<Rightarrow> bool \<Rightarrow> partition option \<Rightarrow> esp_err + u8 list" where
  "esp_ota_get_partition_description env c na popt =
     (case popt of
        None \<Rightarrow> Inl ESP_ERR_INVALID_ARG
      | Some p \<Rightarrow>
        if p_type p \<noteq> PART_TYPE_APP then Inl ESP_ERR_NOT_SUPPORTED
        else case esp_partition_read (chip_rom env) c p na 16 256 of
          Inl e \<Rightarrow> Inl e
        | Inr desc \<Rightarrow> if of_le32 (take 4 desc) \<noteq> 0xABCD5432 then Inl ESP_ERR_NOT_FOUND else Inr desc)"

section \<open>Lemmas: the partition list in the state\<close>

definition parts :: "'c ota_env \<Rightarrow> 'c ota_state \<Rightarrow> partition list" where
  "parts env st = loaded (chip_rom env) (flash st) (plist st)"

lemma loaded_loaded [simp]: "loaded rom c (loaded rom c ps) = loaded rom c ps"
  by (auto simp: loaded_def split: sum.splits)

lemma find_first_parts:
  "find_first env st type subtype =
     (find (wanted type subtype None) (parts env st), st\<lparr>plist := parts env st\<rparr>)"
  by (simp add: find_first_def find_first_loaded parts_def)

lemma parts_update [simp]: "parts env (st\<lparr>plist := parts env st\<rparr>) = parts env st"
  by (simp add: parts_def)

lemma parts_nonempty: "plist st \<noteq> [] \<Longrightarrow> parts env st = plist st"
  by (simp add: parts_def)

lemma plist_parts [simp]: "plist st \<noteq> [] \<Longrightarrow> st\<lparr>plist := parts env st\<rparr> = st"
  by (simp add: parts_nonempty)

definition has_app :: "partition list \<Rightarrow> nat \<Rightarrow> bool" where
  "has_app ps subtype \<longleftrightarrow> find (wanted PART_TYPE_APP subtype None) ps \<noteq> None"

text \<open>The number of OTA partitions with consecutive subtypes from \<open>n\<close> on.\<close>

lemma count_loop_eq:
  assumes "plist st \<noteq> []" and "k \<le> 16" and "\<not> has_app (plist st) (APP_OTA_MIN + k)"
  shows "\<lbrakk>n \<le> k; \<forall>j. n \<le> j \<and> j < k \<longrightarrow> has_app (plist st) (APP_OTA_MIN + j)\<rbrakk>
    \<Longrightarrow> count_loop env st n = Some (k, st)"
proof (induction "k - n" arbitrary: n)
  case 0
  then show ?case using assms
    by (auto simp: count_loop.simps [of env st n] find_first_parts parts_nonempty has_app_def)
next
  case (Suc i)
  then have "n < k" "i = k - (n + 1)" by auto
  then have "count_loop env st (n + 1) = Some (k, st)" using Suc by auto
  moreover have "has_app (plist st) (APP_OTA_MIN + n)" using Suc.prems \<open>n < k\<close> by blast
  ultimately show ?case using assms \<open>n < k\<close>
    by (auto simp: count_loop.simps [of env st n] find_first_parts parts_nonempty has_app_def)
qed

lemma running_loop_find:
  "running_loop it offs = find (\<lambda>p. p_address p \<le> offs \<and> offs < (p_address p + p_size p) mod 2 ^ 32) (visited it)"
  by (induction it offs rule: running_loop.induct)
     (auto simp: esp_partition_get_def split: option.split)

lemma running_parts:
  "esp_ota_get_running_partition env st =
     map_option (\<lambda>p. (p, st\<lparr>plist := parts env st\<rparr>))
       (find (\<lambda>p. p_address p \<le> running_offs env \<and> running_offs env < (p_address p + p_size p) mod 2 ^ 32)
          (filter (wanted PART_TYPE_APP PART_SUBTYPE_ANY None) (parts env st)))"
  using visited_find [of "chip_rom env" "flash st" "plist st" PART_TYPE_APP PART_SUBTYPE_ANY None]
  by (auto simp: esp_ota_get_running_partition_def running_loop_find parts_def split: prod.split option.split)

section \<open>Lemmas: selection records\<close>

lemma parse_select_bytes [simp]: "length (seq_label s) = 24 \<Longrightarrow> parse_select (select_bytes s) = s"
  by (simp add: parse_select_def select_bytes_def)

lemma length_select_bytes [simp]: "length (seq_label s) = 24 \<Longrightarrow> length (select_bytes s) = SELECT_SIZE"
  by (simp add: select_bytes_def SELECT_SIZE_def)

lemma parse_select_label [simp]: "length bs = SELECT_SIZE \<Longrightarrow> length (seq_label (parse_select bs)) = 24"
  by (simp add: parse_select_def SELECT_SIZE_def)

lemma seq_loop_mod:
  assumes "0 < n" "r < n" "seq + n \<le> 2 ^ 32" "r + i * n < seq + n"
  shows "\<exists>v. seq_loop seq r n i = Some v \<and> seq \<le> v \<and> v < seq + n \<and> v mod n = r"
  using assms(4)
proof (induction "seq - (r + i * n)" arbitrary: i rule: less_induct)
  case less
  have v: "(r + i * n) mod 2 ^ 32 = r + i * n" using less.prems assms(3) by simp
  show ?case
  proof (cases "r + i * n < seq")
    case False
    then show ?thesis using less.prems v assms(2)
      by (simp add: seq_loop.simps [of seq r n i])
  next
    case True
    have "i \<le> i * n" using assms(1) by simp
    then have "i + 1 < 2 ^ 32" using True assms(1,3) by linarith
    then have i: "(i + 1) mod 2 ^ 32 = i + 1" by (rule mod_less)
    have "seq - (r + (i + 1) * n) < seq - (r + i * n)" using True assms(1) by (simp add: algebra_simps)
    moreover have "r + (i + 1) * n < seq + n" using True by (simp add: algebra_simps)
    ultimately have "\<exists>v. seq_loop seq r n (i + 1) = Some v \<and> seq \<le> v \<and> v < seq + n \<and> v mod n = r"
      using less.hyps by blast
    then show ?thesis using True v i by (simp add: seq_loop.simps [of seq r n i])
  qed
qed

lemma slot_of_residue:
  fixes v :: nat
  assumes "1 \<le> v" "v mod n = (x + 1) mod n" "x < n"
  shows "(v - 1) mod n = x"
proof -
  obtain w where w: "v = Suc w" using assms(1) by (cases v) auto
  show ?thesis using assms(2,3) unfolding w by (auto simp: mod_Suc split: if_splits)
qed

definition record_at :: "memory \<Rightarrow> partition \<Rightarrow> nat \<Rightarrow> ota_select" where
  "record_at m d i = parse_select (mget m (p_address d + i * SPI_FLASH_SEC_SIZE) SELECT_SIZE)"

lemma record_label [simp]: "length (seq_label (record_at m d i)) = 24"
  by (simp add: record_at_def)

lemma record_at_cong:
  "(\<And>b. p_address d + i * SPI_FLASH_SEC_SIZE \<le> b \<Longrightarrow> b < p_address d + (i + 1) * SPI_FLASH_SEC_SIZE \<Longrightarrow> m b = m' b)
   \<Longrightarrow> record_at m d i = record_at m' d i"
  unfolding record_at_def by (intro arg_cong [where f = parse_select] mget_cong) (simp add: flash_consts ota_consts)

definition sealed :: "u32 \<Rightarrow> ota_select \<Rightarrow> ota_select" where
  "sealed seq s = s\<lparr>ota_seq := seq, sel_crc := crc32_le UINT32_MAX (le32 seq)\<rparr>"

lemma sealed_valid [simp]: "ota_select_valid (sealed seq s) \<longleftrightarrow> seq \<noteq> UINT32_MAX"
  by (simp add: sealed_def ota_select_valid_def ota_select_crc_def)

lemma sealed_seq [simp]: "ota_seq (sealed seq s) = seq"
  by (simp add: sealed_def)

lemma sealed_label [simp]: "seq_label (sealed seq s) = seq_label s"
  by (simp add: sealed_def)

text \<open>The sequence number that decides, and the record that is rewritten next.\<close>

definition boot_seq :: "ota_select \<Rightarrow> ota_select \<Rightarrow> u32 option" where
  "boot_seq a b =
     (if ota_select_valid a \<and> ota_select_valid b then Some (max (ota_seq a) (ota_seq b))
      else if ota_select_valid a then Some (ota_seq a)
      else if ota_select_valid b then Some (ota_seq b) else None)"

definition target_sec :: "ota_select \<Rightarrow> ota_select \<Rightarrow> nat" where
  "target_sec a b =
     (if ota_select_valid a \<and> ota_select_valid b then (if ota_seq b \<le> ota_seq a then 1 else 0)
      else if ota_select_valid a then 1 else 0)"

text \<open>A record with a sequence number not below the deciding one, written over the record that is
  rewritten next, becomes the deciding one.\<close>

lemma boot_seq_after:
  assumes "v \<noteq> UINT32_MAX" and "case boot_seq a b of None \<Rightarrow> True | Some s \<Rightarrow> s \<le> v"
    and "ota_select_valid w" and "ota_seq w = v"
  shows "(if target_sec a b = 0 then boot_seq w b else boot_seq a w) = Some v"
  using assms by (auto simp: boot_seq_def target_sec_def max_def split: if_splits)

section \<open>Lemmas: reading and rewriting the records\<close>

definition ota_data_ok :: "'c ota_env \<Rightarrow> partition \<Rightarrow> bool" where
  "ota_data_ok env d \<longleftrightarrow> part_on_chip (chip_rom env) d \<and> chip_size (chip_rom env) \<le> 2 ^ 31
     \<and> 2 * SPI_FLASH_SEC_SIZE \<le> p_size d"

lemma read_selects_ok:
  assumes dev: "flash_dev (chip_rom env) view" and d: "ota_data_ok env d"
    and r: "read_selects env st d = (e, st')"
  shows "flash st' = flash st \<and> plist st' = plist st \<and> e \<noteq> Some ESP_OK \<and>
    (e = None \<longrightarrow> st' = st\<lparr>select0 := record_at (view (flash st)) d 0,
                          select1 := record_at (view (flash st)) d 1\<rparr>)"
proof -
  have a: "p_address d + SELECT_SIZE \<le> chip_size (chip_rom env)"
    "p_address d + 0x1000 + SELECT_SIZE \<le> chip_size (chip_rom env)"
    "(p_address d + 0x1000) mod 2 ^ 32 = p_address d + 0x1000"
    using d by (auto simp: ota_data_ok_def part_on_chip_def flash_consts ota_consts)
  show ?thesis using r flash_dev.read_ok [OF dev a(1), of "flash st" False]
      flash_dev.read_ok [OF dev a(2), of "flash st" False]
    unfolding read_selects_def a(3)
    by (auto simp: record_at_def flash_consts Let_def dest: flash_dev.read_fail [OF dev] split: sum.splits)
qed

lemma rewrite_ota_seq_ok:
  assumes dev: "flash_dev (chip_rom env) view" and d: "ota_data_ok env d"
    and sec: "sec = 0 \<or> sec = 1" and label: "length (seq_label (get_select sec st)) = 24"
  shows "\<exists>r st'. rewrite_ota_seq env st v sec d = Some (r, st') \<and> plist st' = plist st \<and>
    (\<forall>b. b < p_address d + sec * SPI_FLASH_SEC_SIZE \<or> p_address d + (sec + 1) * SPI_FLASH_SEC_SIZE \<le> b
       \<longrightarrow> view (flash st') b = view (flash st) b) \<and>
    (r = ESP_OK \<longrightarrow> record_at (view (flash st')) d sec = sealed v (get_select sec st))"
proof -
  let ?a = "p_address d + sec * SPI_FLASH_SEC_SIZE"
  let ?s = "sealed v (get_select sec st)"
  let ?st = "set_select sec ?s st"
  have s_eq: "(get_select sec st)\<lparr>ota_seq := v, sel_crc := ota_select_crc ((get_select sec st)\<lparr>ota_seq := v\<rparr>)\<rparr> = ?s"
    by (simp add: sealed_def ota_select_crc_def)
  have dd: "part_on_chip (chip_rom env) d" "chip_size (chip_rom env) \<le> 2 ^ 31"
    and room: "sec * SPI_FLASH_SEC_SIZE + SPI_FLASH_SEC_SIZE \<le> p_size d"
    using d sec by (auto simp: ota_data_ok_def)
  have fl: "flash ?st = flash st" "plist ?st = plist st" by (simp_all add: set_select_def)
  obtain r1 c1 where e1: "esp_partition_erase_range (chip_rom env) (flash st) d
      (sec * SPI_FLASH_SEC_SIZE) SPI_FLASH_SEC_SIZE = (r1, c1)" by fastforce
  have "erase_outcome view (flash st) ?a SPI_FLASH_SEC_SIZE (r1, c1)"
    using flash_dev.part_erase_ok [OF dev dd _ _ e1] room sec by (auto simp: flash_consts)
  then have o1: "\<forall>b. b < ?a \<or> ?a + SPI_FLASH_SEC_SIZE \<le> b \<longrightarrow> view c1 b = view (flash st) b"
    "r1 = ESP_OK \<Longrightarrow> view c1 = erased (view (flash st)) ?a SPI_FLASH_SEC_SIZE"
    by (auto simp: erase_outcome_def)
  have ls: "length (select_bytes ?s) = SELECT_SIZE" using label by simp
  have "sec * SPI_FLASH_SEC_SIZE < 2 ^ 32" "length (select_bytes ?s) \<le> 65536"
    "sec * SPI_FLASH_SEC_SIZE + length (select_bytes ?s) \<le> p_size d"
    using sec ls room by (auto simp: flash_consts ota_consts)
  then obtain r2 c2 where w: "esp_partition_write (chip_rom env) c1 d False (sec * SPI_FLASH_SEC_SIZE)
      (Some (select_bytes ?s)) SELECT_SIZE = Some (r2, c2)" "write_outcome view c1 ?a (select_bytes ?s) (r2, c2)"
    using flash_dev.part_write_ok [OF dev dd, of "select_bytes ?s" "sec * SPI_FLASH_SEC_SIZE" c1 False] ls
    by auto
  have out2: "view c2 b = view c1 b" if "b < ?a \<or> ?a + SPI_FLASH_SEC_SIZE \<le> b" for b
    using w(2) programmed_out [of "view c1" ?a "select_bytes ?s" "view c2" b] that ls
    by (auto simp: write_outcome_def flash_consts ota_consts)
  have run: "rewrite_ota_seq env st v sec d =
    (if r1 \<noteq> ESP_OK then Some (r1, ?st\<lparr>flash := c1\<rparr>) else Some (r2, ?st\<lparr>flash := c2\<rparr>))"
    using sec e1 w(1) fl by (simp add: rewrite_ota_seq_def Let_def s_eq mult.commute)
  have "record_at (view c2) d sec = ?s" if "r1 = ESP_OK" "r2 = ESP_OK"
  proof -
    have "view c2 = and_write (view c1) ?a (select_bytes ?s)"
      using w(2) that by (simp add: write_outcome_def)
    also have "\<dots> = mcpy (view c1) ?a (select_bytes ?s)"
      using o1(2) [OF that(1)] ls by (intro and_write_erased) (simp add: erased_def flash_consts ota_consts)
    finally show ?thesis using ls label by (simp add: record_at_def mem_simps)
  qed
  then show ?thesis using run fl o1(1) out2 by (auto simp: algebra_simps)
qed

definition ota_count :: "partition list \<Rightarrow> nat \<Rightarrow> bool" where
  "ota_count ps n \<longleftrightarrow> n \<le> 16 \<and> (\<forall>j<n. has_app ps (APP_OTA_MIN + j)) \<and> \<not> has_app ps (APP_OTA_MIN + n)"

lemma count_eq:
  assumes "plist st \<noteq> []" and "ota_count (plist st) n"
  shows "get_ota_partition_count env st = Some (n, st)"
  using count_loop_eq [OF assms(1), of n 0 env] assms(2)
  by (simp add: get_ota_partition_count_def ota_count_def)

lemma boot_seq_wf: "boot_seq a b = Some s \<Longrightarrow> s \<noteq> UINT32_MAX"
  by (auto simp: boot_seq_def ota_select_valid_def max_def split: if_splits)

lemma unat_max_word: "unat (max a b) = max (unat a) (unat (b :: u32))"
  by (simp add: max_def word_le_nat_alt)

text \<open>The number written over the older record.\<close>

lemma new_seq:
  fixes s :: u32
  assumes "x < n" "1 \<le> unat s" "unat s + n < 2 ^ 32"
  shows "\<exists>v. seq_loop (unat s) ((x + 1) mod n) n 0 = Some v \<and>
    (word_of_nat v :: u32) \<noteq> UINT32_MAX \<and> s \<le> word_of_nat v \<and>
    unat ((word_of_nat v :: u32) - 1) mod n = x"
proof -
  have n: "0 < n" using assms(1) by simp
  obtain v where v: "seq_loop (unat s) ((x + 1) mod n) n 0 = Some v" "unat s \<le> v" "v < unat s + n"
    "v mod n = (x + 1) mod n"
  proof -
    have lt: "(x + 1) mod n < n" using n by simp
    then have "(x + 1) mod n + 0 * n < unat s + n" by linarith
    from seq_loop_mod [OF n lt _ this] show ?thesis using assms(3) that by auto
  qed
  have small: "unat (word_of_nat v :: u32) = v" using v(3) assms(3) by (simp add: unsigned_of_nat take_bit_nat_eq_self)
  have "(word_of_nat v :: u32) \<noteq> UINT32_MAX"
  proof
    assume "(word_of_nat v :: u32) = UINT32_MAX"
    then have "v = 2 ^ 32 - 1" using small by (simp add: UINT32_MAX_def)
    then show False using v(3) assms(3) by simp
  qed
  moreover have "s \<le> word_of_nat v" using v(2) small by (simp add: word_le_nat_alt)
  moreover have "unat ((word_of_nat v :: u32) - 1) = v - 1"
    using small v(2) assms(2) by (subst unat_sub) (simp_all add: word_le_nat_alt)
  moreover have "(v - 1) mod n = x" using slot_of_residue [of v n x] v(2,4) assms by simp
  ultimately show ?thesis using v(1) by auto
qed

text \<open>\<open>esp_rewrite_ota_data\<close> in full: it returns, it changes nothing outside the sector of the
  record that does not decide the boot, and on success the new deciding number maps to the slot asked
  for.\<close>

lemma rewrite_data:
  fixes st :: "'c ota_state"
  assumes dev: "flash_dev (chip_rom env) view" and d: "ota_data_ok env d"
    and ps: "plist st \<noteq> []" "find (wanted PART_TYPE_DATA PART_SUBTYPE_DATA_OTA None) (plist st) = Some d"
    and n: "ota_count (plist st) n"
  defines "m \<equiv> view (flash st)"
  defines "a \<equiv> record_at m d 0" and "b \<equiv> record_at m d 1"
  assumes seq: "\<And>s. boot_seq a b = Some s \<Longrightarrow> 1 \<le> unat s \<and> unat s + n < 2 ^ 32"
  shows "\<exists>r st'. esp_rewrite_ota_data env st sub = Some (r, st') \<and> plist st' = plist st \<and>
    (\<forall>x. x < p_address d + target_sec a b * SPI_FLASH_SEC_SIZE
       \<or> p_address d + (target_sec a b + 1) * SPI_FLASH_SEC_SIZE \<le> x \<longrightarrow> view (flash st') x = m x) \<and>
    (r = ESP_OK \<longrightarrow> SUB_TYPE_ID sub < n \<and>
       (\<exists>v. boot_seq (record_at (view (flash st')) d 0) (record_at (view (flash st')) d 1) = Some v \<and>
            unat (v - 1) mod n = SUB_TYPE_ID sub))"
proof (cases "n \<le> SUB_TYPE_ID sub")
  case True
  then show ?thesis
    using ps count_eq [OF ps(1) n, of env]
    by (auto simp: esp_rewrite_ota_data_def find_first_parts parts_nonempty m_def)
next
  case False
  let ?x = "SUB_TYPE_ID sub"
  obtain e st1 where rd: "read_selects env st d = (e, st1)" by fastforce
  note rs = read_selects_ok [OF dev d rd]
  show ?thesis
  proof (cases e)
    case (Some e')
    then show ?thesis
      using ps False count_eq [OF ps(1) n, of env] rd rs
      by (auto simp: esp_rewrite_ota_data_def find_first_parts parts_nonempty m_def)
  next
    case None
    then have st1: "st1 = st\<lparr>select0 := a, select1 := b\<rparr>" using rs by (simp add: a_def b_def m_def)
    then have sel: "select0 st1 = a" "select1 st1 = b" by simp_all
    define v where "v = (case boot_seq a b of None \<Rightarrow> (word_of_nat (?x + 1) :: u32)
      | Some s \<Rightarrow> word_of_nat (the (seq_loop (unat s) ((?x + 1) mod n) n 0)))"
    have run: "esp_rewrite_ota_data env st sub = rewrite_ota_seq env st1 v (target_sec a b) d"
    proof -
      have pre: "esp_rewrite_ota_data env st sub =
        (let r = (?x + 1) mod n;
             rewrite = (\<lambda>seq sec. case seq_loop seq r n 0 of
                None \<Rightarrow> None | Some v \<Rightarrow> rewrite_ota_seq env st1 (word_of_nat v) sec d) in
         if ota_select_valid a \<and> ota_select_valid b then
           rewrite (max (unat (ota_seq a)) (unat (ota_seq b))) (if ota_seq b \<le> ota_seq a then 1 else 0)
         else if ota_select_valid a then rewrite (unat (ota_seq a)) 1
         else if ota_select_valid b then rewrite (unat (ota_seq b)) 0
         else rewrite_ota_seq env st1 (word_of_nat (?x + 1)) 0 d)"
        using ps False count_eq [OF ps(1) n, of env] rd None sel
        by (simp add: esp_rewrite_ota_data_def find_first_parts parts_nonempty Let_def)
      show ?thesis
      proof (cases "boot_seq a b")
        case None
        then have "\<not> ota_select_valid a" "\<not> ota_select_valid b"
          by (auto simp: boot_seq_def split: if_splits)
        then show ?thesis using None by (simp add: pre v_def target_sec_def)
      next
        case (Some s)
        obtain w where w: "seq_loop (unat s) ((?x + 1) mod n) n 0 = Some w"
          using new_seq [of ?x n s] seq [OF Some] False by auto
        consider "ota_select_valid a" "ota_select_valid b" "s = max (ota_seq a) (ota_seq b)"
          | "ota_select_valid a" "\<not> ota_select_valid b" "s = ota_seq a"
          | "\<not> ota_select_valid a" "ota_select_valid b" "s = ota_seq b"
          using Some by (auto simp: boot_seq_def split: if_splits)
        then show ?thesis using w Some
          by cases (simp_all add: pre v_def target_sec_def unat_max_word)
      qed
    qed
    have sec: "target_sec a b = 0 \<or> target_sec a b = 1" by (simp add: target_sec_def)
    have lab: "length (seq_label (get_select (target_sec a b) st1)) = 24"
      by (simp add: get_select_def st1 a_def b_def)
    obtain r st' where w: "rewrite_ota_seq env st1 v (target_sec a b) d = Some (r, st')" "plist st' = plist st1"
      "\<forall>x. x < p_address d + target_sec a b * SPI_FLASH_SEC_SIZE
         \<or> p_address d + (target_sec a b + 1) * SPI_FLASH_SEC_SIZE \<le> x \<longrightarrow> view (flash st') x = view (flash st1) x"
      "r = ESP_OK \<longrightarrow> record_at (view (flash st')) d (target_sec a b) = sealed v (get_select (target_sec a b) st1)"
      using rewrite_ota_seq_ok [OF dev d sec lab] by blast
    have v: "v \<noteq> UINT32_MAX" "case boot_seq a b of None \<Rightarrow> True | Some s \<Rightarrow> s \<le> v" "unat (v - 1) mod n = ?x"
    proof -
      have "v \<noteq> UINT32_MAX \<and> (case boot_seq a b of None \<Rightarrow> True | Some s \<Rightarrow> s \<le> v) \<and> unat (v - 1) mod n = ?x"
      proof (cases "boot_seq a b")
        case None
        have "?x < 16" by (simp add: SUB_TYPE_ID_def)
        then have "unat (word_of_nat ?x :: u32) = ?x" by (simp add: unsigned_of_nat take_bit_nat_eq_self)
        moreover have "(word_of_nat (?x + 1) :: u32) \<noteq> UINT32_MAX"
        proof
          assume "(word_of_nat (?x + 1) :: u32) = UINT32_MAX"
          then have "unat (word_of_nat (?x + 1) :: u32) = unat UINT32_MAX" by simp
          then show False using \<open>?x < 16\<close>
            by (simp add: UINT32_MAX_def unsigned_of_nat take_bit_nat_eq_self del: of_nat_Suc of_nat_add)
        qed
        ultimately show ?thesis using None False by (simp add: v_def)
      next
        case (Some s)
        then show ?thesis using new_seq [of ?x n s] seq [OF Some] False by (auto simp: v_def)
      qed
      then show "v \<noteq> UINT32_MAX" "case boot_seq a b of None \<Rightarrow> True | Some s \<Rightarrow> s \<le> v" "unat (v - 1) mod n = ?x"
        by auto
    qed
    have "boot_seq (record_at (view (flash st')) d 0) (record_at (view (flash st')) d 1) = Some v" if "r = ESP_OK"
    proof -
      let ?w = "sealed v (get_select (target_sec a b) st1)"
      have boot_seq_after_goal: "(if target_sec a b = 0 then boot_seq ?w b else boot_seq a ?w) = Some v"
        by (rule boot_seq_after) (use v in auto)
      have fl: "view (flash st1) = m" by (simp add: st1 m_def)
      have "record_at (view (flash st')) d 1 = b" if "target_sec a b = 0"
        unfolding b_def using w(3) that fl by (intro record_at_cong) auto
      moreover have "record_at (view (flash st')) d 0 = a" if "target_sec a b = 1"
        unfolding a_def using w(3) that fl by (intro record_at_cong) auto
      ultimately show ?thesis using boot_seq_after_goal w(4) that sec by (auto split: if_splits)
    qed
    then show ?thesis using run w v(3) False by (auto simp: st1 m_def)
  qed
qed

lemma boot_seq_kept:
  "boot_seq a b = Some s \<Longrightarrow>
   (let keep = (if target_sec a b = 0 then b else a) in ota_select_valid keep \<and> ota_seq keep = s)"
  by (auto simp: boot_seq_def target_sec_def max_def split: if_splits)

text \<open>Reading the selection back.\<close>

lemma get_boot_ok:
  assumes dev: "flash_dev (chip_rom env) view" and d: "ota_data_ok env d"
    and ps: "plist st \<noteq> []" "find (wanted PART_TYPE_DATA PART_SUBTYPE_DATA_OTA None) (plist st) = Some d"
    and n: "ota_count (plist st) n" "0 < n"
    and v: "boot_seq (record_at (view (flash st)) d 0) (record_at (view (flash st)) d 1) = Some v"
    and rd: "read_selects env st d = (None, st1)"
  shows "esp_ota_get_boot_partition env st
    = Some (find (wanted PART_TYPE_APP (APP_OTA_MIN + unat (v - 1) mod n) None) (plist st), st1)"
proof -
  let ?a = "record_at (view (flash st)) d 0" and ?b = "record_at (view (flash st)) d 1"
  have st1: "st1 = st\<lparr>select0 := ?a, select1 := ?b\<rparr>" using read_selects_ok [OF dev d rd] by simp
  have pl: "plist st1 = plist st" "select0 st1 = ?a" "select1 st1 = ?b" by (simp_all add: st1)
  have cnt: "get_ota_partition_count env st1 = Some (n, st1)"
    by (rule count_eq) (use pl ps n in auto)
  have nm: "ota_seq ?a \<noteq> UINT32_MAX \<or> ota_seq ?b \<noteq> UINT32_MAX"
    using v by (auto simp: boot_seq_def ota_select_valid_def split: if_splits)
  have ff: "find_first env st1 PART_TYPE_APP t = (find (wanted PART_TYPE_APP t None) (plist st), st1)" for t
    using ps pl by (simp add: find_first_parts parts_nonempty)
  consider "ota_select_valid ?a" "ota_select_valid ?b" "v = max (ota_seq ?a) (ota_seq ?b)"
    | "ota_select_valid ?a" "\<not> ota_select_valid ?b" "v = ota_seq ?a"
    | "\<not> ota_select_valid ?a" "ota_select_valid ?b" "v = ota_seq ?b"
    using v by (auto simp: boot_seq_def split: if_splits)
  then show ?thesis
    using ps rd cnt pl n(2) nm ff
    by cases (auto simp: esp_ota_get_boot_partition_def find_first_parts [of env st] parts_nonempty
        Let_def ota_slot_def)
qed

section \<open>Lemmas: an update session\<close>

text \<open>A client's calls of \<open>esp_ota_write\<close>, one per chunk, up to the first that fails.\<close>

fun write_all ::
  "'c ota_env \<Rightarrow> 'c ota_state \<Rightarrow> nat \<Rightarrow> bool \<Rightarrow> u8 list list \<Rightarrow> (esp_err \<times> 'c ota_state) option" where
  "write_all env st h na [] = Some (ESP_OK, st)"
| "write_all env st h na (bs # rest) =
     (case esp_ota_write env st h na (Some bs) (length bs) of
        None \<Rightarrow> None
      | Some (r, st') \<Rightarrow> if r = ESP_OK then write_all env st' h na rest else Some (r, st'))"

lemma ota_write_ok:
  assumes dev: "flash_dev (chip_rom env) view" and chip: "chip_size (chip_rom env) \<le> 2 ^ 31"
    and e: "entries st = e # es" "e_handle e = h" "part_on_chip (chip_rom env) (e_part e)"
    and len: "length bs \<le> 65536" and w32: "e_wrote e \<le> p_size (e_part e)"
    and run: "esp_ota_write env st h na (Some bs) (length bs) = Some (ESP_OK, st')"
  shows "e_wrote e + length bs \<le> p_size (e_part e) \<and>
    view (flash st') = and_write (view (flash st)) (p_address (e_part e) + e_wrote e) bs \<and>
    entries st' = e\<lparr>e_wrote := e_wrote e + length bs\<rparr> # es \<and> plist st' = plist st"
proof -
  have size: "p_size (e_part e) \<le> 2 ^ 31" using e(3) chip by (simp add: part_on_chip_def)
  have f: "find_entry h (entries st) = Some e" using e by (simp add: find_entry_def)
  obtain r c' where w: "esp_partition_write (chip_rom env) (flash st) (e_part e) na (e_wrote e) (Some bs) (length bs)
      = Some (r, c')" "if e_wrote e + length bs \<le> p_size (e_part e)
      then write_outcome view (flash st) (p_address (e_part e) + e_wrote e) bs (r, c') else r \<noteq> ESP_OK \<and> c' = flash st"
    using flash_dev.part_write_ok [OF dev e(3) chip len, of "e_wrote e" "flash st" na] w32 size by auto
  have r: "r = ESP_OK" and st': "st' = st\<lparr>flash := c',
      entries := upd_entry h (\<lambda>e. e\<lparr>e_wrote := (e_wrote e + length bs) mod 2 ^ 32\<rparr>) (entries st)\<rparr>"
    using run f w(1) by (auto simp: esp_ota_write_def Let_def split: if_splits)
  then have "e_wrote e + length bs \<le> p_size (e_part e)" using w(2) by (auto split: if_splits)
  moreover from this have "(e_wrote e + length bs) mod 2 ^ 32 = e_wrote e + length bs" using size by simp
  ultimately show ?thesis using w(2) r st' e by (simp add: write_outcome_def)
qed

lemma write_all_ok:
  assumes dev: "flash_dev (chip_rom env) view" and chip: "chip_size (chip_rom env) \<le> 2 ^ 31"
  shows "\<lbrakk>entries st = e # es; e_handle e = h; part_on_chip (chip_rom env) (e_part e);
      e_wrote e \<le> p_size (e_part e); e_wrote e + length (concat chunks) \<le> E;
      \<forall>i. e_wrote e \<le> i \<and> i < E \<longrightarrow> view (flash st) (p_address (e_part e) + i) = 0xFF;
      \<forall>bs \<in> set chunks. length bs \<le> 65536;
      write_all env st h na chunks = Some (ESP_OK, st')\<rbrakk>
    \<Longrightarrow> view (flash st') = mcpy (view (flash st)) (p_address (e_part e) + e_wrote e) (concat chunks) \<and>
      e_wrote e + length (concat chunks) \<le> p_size (e_part e) \<and> plist st' = plist st"
proof (induction chunks arbitrary: st e)
  case (Cons bs rest)
  obtain r st1 where w: "esp_ota_write env st h na (Some bs) (length bs) = Some (r, st1)"
    using Cons.prems(8) by (auto split: option.splits)
  have r: "r = ESP_OK" and rest: "write_all env st1 h na rest = Some (ESP_OK, st')"
    using Cons.prems(8) w by (auto split: if_splits)
  let ?e = "e\<lparr>e_wrote := e_wrote e + length bs\<rparr>"
  have "length bs \<le> 65536" using Cons.prems(7) by simp
  note o = ota_write_ok [OF dev chip Cons.prems(1-3) this Cons.prems(4) w [unfolded r]]
  have "view (flash st) (p_address (e_part e) + e_wrote e + i) = 0xFF" if "i < length bs" for i
    using Cons.prems(5) spec [OF Cons.prems(6), of "e_wrote e + i"] that by (simp add: add.assoc)
  then have "view (flash st1) = mcpy (view (flash st)) (p_address (e_part e) + e_wrote e) bs"
    using o by (simp add: and_write_erased)
  moreover from this have "\<forall>i. e_wrote ?e \<le> i \<and> i < E \<longrightarrow> view (flash st1) (p_address (e_part ?e) + i) = 0xFF"
    using Cons.prems(6) by (simp add: mem_simps)
  then have "view (flash st') = mcpy (view (flash st1)) (p_address (e_part ?e) + e_wrote ?e) (concat rest) \<and>
      e_wrote ?e + length (concat rest) \<le> p_size (e_part ?e) \<and> plist st' = plist st1"
    using o rest Cons.prems by (intro Cons.IH [of st1 ?e]) auto
  ultimately show ?case using o by (simp add: mcpy_append add.assoc)
qed auto

lemma begin_ok:
  assumes dev: "flash_dev (chip_rom env) view"
    and run: "esp_ota_begin env st (Some p) sz = Some (Inr h, st1)"
  defines "len \<equiv> \<lambda>q. if sz = 0 \<or> sz = OTA_SIZE_UNKNOWN then p_size q
    else (sz div SPI_FLASH_SEC_SIZE + 1) * SPI_FLASH_SEC_SIZE mod 2 ^ 32"
  shows "\<exists>q e run_part ps st2. fst (esp_partition_verify (chip_rom env) (flash st) (plist st) p) = Some q \<and>
    is_ota_partition q \<and> esp_ota_get_running_partition env (st\<lparr>plist := ps\<rparr>) = Some (run_part, st2) \<and>
    q \<noteq> run_part \<and>
    entries st1 = e # entries st \<and> e_handle e = h \<and> e_part e = q \<and> e_wrote e = 0 \<and>
    esp_partition_erase_range (chip_rom env) (flash st) q 0 (len q) = (ESP_OK, flash st1)"
proof -
  obtain q ps where v: "esp_partition_verify (chip_rom env) (flash st) (plist st) p = (Some q, ps)"
    using run by (auto simp: esp_ota_begin_def split: option.splits prod.splits)
  let ?st0 = "st\<lparr>plist := ps\<rparr>"
  obtain rp st2 where g: "esp_ota_get_running_partition env ?st0 = Some (rp, st2)"
    using run v by (auto simp: esp_ota_begin_def Let_def split: option.splits if_splits)
  have st2: "st2 = ?st0\<lparr>plist := plist st2\<rparr>"
    using g by (auto simp: esp_ota_get_running_partition_def split: prod.splits option.splits)
  obtain r c1 where er: "esp_partition_erase_range (chip_rom env) (flash st) q 0 (len q) = (r, c1)" by fastforce
  have fl: "flash st2 = flash st" "entries st2 = entries st" by (subst st2, simp)+
  show ?thesis
    using run v g er fl st2
    by (auto simp: esp_ota_begin_def Let_def len_def split: if_splits) blast+
qed

section \<open>Properties\<close>

definition sectors_erased :: "nat \<Rightarrow> partition \<Rightarrow> nat" where
  "sectors_erased sz q = (if sz = 0 \<or> sz = OTA_SIZE_UNKNOWN then p_size q
     else (sz div SPI_FLASH_SEC_SIZE + 1) * SPI_FLASH_SEC_SIZE mod 2 ^ 32)"

text \<open>The situation of the selection properties: the list is loaded, it has the OTA data partition
  \<open>d\<close>, large enough and on the chip, and \<open>n\<close> OTA partitions with consecutive subtypes; a deciding
  sequence number is not 0 and not about to overflow.\<close>

definition ota_ready :: "'c ota_env \<Rightarrow> ('c \<Rightarrow> memory) \<Rightarrow> 'c ota_state \<Rightarrow> partition \<Rightarrow> nat \<Rightarrow> bool" where
  "ota_ready env view st d n \<longleftrightarrow>
     plist st \<noteq> [] \<and> find (wanted PART_TYPE_DATA PART_SUBTYPE_DATA_OTA None) (plist st) = Some d \<and>
     ota_data_ok env d \<and> ota_count (plist st) n \<and>
     (case boot_seq (record_at (view (flash st)) d 0) (record_at (view (flash st)) d 1) of
        None \<Rightarrow> True | Some s \<Rightarrow> 1 \<le> unat s \<and> unat s + n < 2 ^ 32)"

lemma set_boot_run:
  fixes st :: "'c ota_state"
  assumes chip: "nor_chip (chip_rom env) view" and rdy: "ota_ready env view st d n"
    and p: "p_type p = PART_TYPE_APP" "p_subtype p \<noteq> PART_SUBTYPE_FACTORY"
    and img: "image_load env (flash st) (p_address p) (p_size p) \<noteq> None"
  defines "a \<equiv> record_at (view (flash st)) d 0" and "b \<equiv> record_at (view (flash st)) d 1"
  shows "\<exists>r st'. esp_ota_set_boot_partition env st (Some p) = Some (r, st') \<and> plist st' = plist st \<and>
    (\<forall>x. x < p_address d + target_sec a b * SPI_FLASH_SEC_SIZE
       \<or> p_address d + (target_sec a b + 1) * SPI_FLASH_SEC_SIZE \<le> x
       \<longrightarrow> view (flash st') x = view (flash st) x) \<and>
    (r = ESP_OK \<longrightarrow> SUB_TYPE_ID (p_subtype p) < n \<and>
       (\<exists>v. boot_seq (record_at (view (flash st')) d 0) (record_at (view (flash st')) d 1) = Some v \<and>
            unat (v - 1) mod n = SUB_TYPE_ID (p_subtype p)))"
proof (cases "image_load env (flash st) (p_address p) (p_size p) = Some None")
  case True
  then show ?thesis by (simp add: esp_ota_set_boot_partition_def)
next
  case False
  then obtain entry where Some: "image_load env (flash st) (p_address p) (p_size p) = Some (Some entry)" using img by auto
  have ps: "plist st \<noteq> []" "find (wanted PART_TYPE_DATA PART_SUBTYPE_DATA_OTA None) (plist st) = Some d"
    and d: "ota_data_ok env d" and n: "ota_count (plist st) n" using rdy by (simp_all add: ota_ready_def)
  have seq: "1 \<le> unat s \<and> unat s + n < 2 ^ 32"
    if "boot_seq (record_at (view (flash st)) d 0) (record_at (view (flash st)) d 1) = Some s" for s
    using rdy that by (simp add: ota_ready_def)
  have "esp_ota_set_boot_partition env st (Some p) = esp_rewrite_ota_data env st (p_subtype p)"
    using ps p Some by (simp add: esp_ota_set_boot_partition_def find_first_parts parts_nonempty)
  then show ?thesis
    using rewrite_data [OF nor_flash_dev [OF chip] d ps n seq, of "p_subtype p"]
    unfolding a_def b_def by simp
qed

text \<open>A device for the witnesses: OTA data and two OTA partitions, the first of them running.\<close>

definition demo_ota_data :: partition where
  "demo_ota_data = \<lparr>p_type = 1, p_subtype = 0, p_address = 0xD000, p_size = 0x2000, p_label = [0x6f]\<rparr>"

definition demo_ota0 :: partition where
  "demo_ota0 = \<lparr>p_type = 0, p_subtype = 0x10, p_address = 0x10000, p_size = 0x1000, p_label = [0x61]\<rparr>"

definition demo_ota1 :: partition where
  "demo_ota1 = \<lparr>p_type = 0, p_subtype = 0x11, p_address = 0x11000, p_size = 0x1000, p_label = [0x62]\<rparr>"

definition demo_select :: ota_select where
  "demo_select = sealed 1 \<lparr>ota_seq = 0, seq_label = replicate 24 0xFF, sel_crc = 0\<rparr>"

definition demo_env :: "sim_flash ota_env" where
  "demo_env = \<lparr>chip_rom = sure_rom, image_load = (\<lambda>c a n. Some (Some 0x40211010)), running_offs = 0x10010\<rparr>"

text \<open>An image of 32 bytes, one segment of four bytes, in the second slot.\<close>

definition tiny_image :: "u8 list" where
  "tiny_image = [0xE9, 1, 0, 0, 0x10, 0x10, 0x21, 0x40] @ [0, 0, 0x21, 0x40, 4, 0, 0, 0] @ [0xAA, 0xBB, 0xCC, 0xDD]
     @ replicate 11 0 @ [0xEF]"

lemma length_tiny_image [simp]: "length tiny_image = 32"
  by (simp add: tiny_image_def)

text \<open>A table entry as the partition tool writes it.\<close>

definition entry_bytes :: "partition \<Rightarrow> u8 list" where
  "entry_bytes p = [0xAA, 0x50, word_of_nat (p_type p), word_of_nat (p_subtype p)]
     @ le32 (word_of_nat (p_address p)) @ le32 (word_of_nat (p_size p))
     @ take 16 (p_label p @ replicate 16 0) @ [0, 0, 0, 0]"

definition demo_table_bytes :: "u8 list" where
  "demo_table_bytes = entry_bytes demo_ota_data @ entry_bytes demo_ota0 @ entry_bytes demo_ota1 @ replicate 32 0xFF"

lemma length_entry_bytes [simp]: "length (entry_bytes p) = 32"
  by (simp add: entry_bytes_def)

lemma length_demo_table [simp]: "length demo_table_bytes = 128"
  by (simp add: demo_table_bytes_def)

definition demo_ota_state :: "sim_flash ota_state" where
  "demo_ota_state = \<lparr>flash = \<lparr>cells = mcpy (mcpy (mcpy (\<lambda>_. 0xFF) 0x11000 tiny_image) 0x8000 demo_table_bytes) 0xD000
         (select_bytes demo_select), script = []\<rparr>,
     plist = [demo_ota_data, demo_ota0, demo_ota1], entries = [], last_handle = 0,
     select0 = demo_select, select1 = demo_select\<rparr>"

lemmas demo_parts = demo_ota_data_def demo_ota0_def demo_ota1_def

lemma demo_records:
  "record_at (cells (flash demo_ota_state)) demo_ota_data 0 = demo_select"
  "ota_seq (record_at (cells (flash demo_ota_state)) demo_ota_data 1) = UINT32_MAX"
proof -
  have l: "length (seq_label demo_select) = 24" by (simp add: demo_select_def)
  then have ls: "length (select_bytes demo_select) = SELECT_SIZE" by simp
  then show "record_at (cells (flash demo_ota_state)) demo_ota_data 0 = demo_select"
    using l by (simp add: record_at_def demo_ota_state_def demo_ota_data_def mem_simps)
  have "mget (cells (flash demo_ota_state)) 0xE000 SELECT_SIZE = mget (\<lambda>_. 0xFF) 0xE000 SELECT_SIZE"
    unfolding demo_ota_state_def using ls by (simp add: mem_simps ota_consts)
  also have "\<dots> = replicate 32 0xFF" by (simp add: mget_eq_iff ota_consts)
  finally show "ota_seq (record_at (cells (flash demo_ota_state)) demo_ota_data 1) = UINT32_MAX"
    by (simp add: record_at_def demo_ota_data_def flash_consts parse_select_def of_le32_def UINT32_MAX_def)
qed

lemma demo_boot_seq:
  "boot_seq (record_at (cells (flash demo_ota_state)) demo_ota_data 0)
     (record_at (cells (flash demo_ota_state)) demo_ota_data 1) = Some 1"
proof -
  have "ota_select_valid demo_select" "ota_seq demo_select = 1"
    by (simp_all add: demo_select_def UINT32_MAX_def)
  moreover have "\<not> ota_select_valid (record_at (cells (flash demo_ota_state)) demo_ota_data 1)"
    by (simp add: ota_select_valid_def demo_records [unfolded One_nat_def])
  ultimately show ?thesis by (simp add: boot_seq_def demo_records(1))
qed

lemma demo_ready_any:
  assumes "chip_rom env = sure_rom"
  shows "ota_ready env cells demo_ota_state demo_ota_data 2"
proof -
  have "ota_count (plist demo_ota_state) 2"
    by (auto simp: ota_count_def demo_ota_state_def has_app_def wanted_def demo_parts part_consts ota_consts
        less_2_cases_iff)
  then show ?thesis unfolding ota_ready_def demo_boot_seq
    by (simp add: demo_ota_state_def wanted_def demo_parts part_consts ota_data_ok_def part_on_chip_def
        assms sure_rom_def sim_rom_def flash_consts)
qed

lemma demo_ready: "ota_ready demo_env cells demo_ota_state demo_ota_data 2"
  by (rule demo_ready_any) (simp add: demo_env_def)

lemma demo_nor: "nor_chip (chip_rom demo_env) cells"
  by (simp add: demo_env_def sure.nor_chip_axioms)

lemma demo_types: "p_type demo_ota1 = PART_TYPE_APP" "p_subtype demo_ota1 \<noteq> PART_SUBTYPE_FACTORY"
  by (simp_all add: demo_parts part_consts)

lemma set_boot_returns:
  "esp_ota_set_boot_partition env st (Some p) \<noteq> None \<Longrightarrow> image_load env (flash st) (p_address p) (p_size p) \<noteq> None"
  by (cases "image_load env (flash st) (p_address p) (p_size p)") (simp_all add: esp_ota_set_boot_partition_def)

text \<open>C7: With the partition list loaded and its OTA data partition in order (\<open>ota_ready\<close>), choosing an OTA
  partition returns exactly when the check of its image returns; the loop over the sequence numbers always
  ends.  An image that fails the check changes nothing.  After success the selection records on the chip name
  the slot of the partition, and \<open>esp_ota_get_boot_partition\<close> returns the first partition of that slot
  whenever the records can be read.\<close>

theorem ota_set_boot_effect:
  assumes "nor_chip (chip_rom env) view" and "ota_ready env view st d n"
    and "p_type p = PART_TYPE_APP" and "p_subtype p \<noteq> PART_SUBTYPE_FACTORY"
  shows "(esp_ota_set_boot_partition env st (Some p) = None \<longleftrightarrow>
      image_load env (flash st) (p_address p) (p_size p) = None) \<and>
    (image_load env (flash st) (p_address p) (p_size p) = Some None \<longrightarrow>
      esp_ota_set_boot_partition env st (Some p) = Some (ESP_ERR_OTA_VALIDATE_FAILED, st)) \<and>
    (\<forall>st' st2. esp_ota_set_boot_partition env st (Some p) = Some (ESP_OK, st') \<and> read_selects env st' d = (None, st2) \<longrightarrow>
       esp_ota_get_boot_partition env st' =
         Some (find (wanted PART_TYPE_APP (APP_OTA_MIN + SUB_TYPE_ID (p_subtype p)) None) (plist st), st2))"
proof (intro conjI allI impI)
  show "esp_ota_set_boot_partition env st (Some p) = None \<longleftrightarrow> image_load env (flash st) (p_address p) (p_size p) = None"
  proof (cases "image_load env (flash st) (p_address p) (p_size p) = None")
    case False
    obtain r st' where "esp_ota_set_boot_partition env st (Some p) = Some (r, st')" using set_boot_run [OF assms False] by blast
    then show ?thesis using False by simp
  qed (use set_boot_returns [of env st p] in blast)
  show "esp_ota_set_boot_partition env st (Some p) = Some (ESP_ERR_OTA_VALIDATE_FAILED, st)"
    if "image_load env (flash st) (p_address p) (p_size p) = Some None"
    using that by (simp add: esp_ota_set_boot_partition_def)
next
  fix st' st2
  assume run: "esp_ota_set_boot_partition env st (Some p) = Some (ESP_OK, st') \<and> read_selects env st' d = (None, st2)"
  then have "image_load env (flash st) (p_address p) (p_size p) \<noteq> None" using set_boot_returns [of env st p] by simp
  from set_boot_run [OF assms this] run obtain v where
    v: "boot_seq (record_at (view (flash st')) d 0) (record_at (view (flash st')) d 1) = Some v"
      "unat (v - 1) mod n = SUB_TYPE_ID (p_subtype p)" "SUB_TYPE_ID (p_subtype p) < n" and pl: "plist st' = plist st" by auto
  have rdy: "plist st \<noteq> []" "find (wanted PART_TYPE_DATA PART_SUBTYPE_DATA_OTA None) (plist st) = Some d"
    "ota_data_ok env d" "ota_count (plist st) n" using assms(2) by (simp_all add: ota_ready_def)
  have rd: "read_selects env st' d = (None, st2)" and n: "0 < n" using run v(3) by auto
  show "esp_ota_get_boot_partition env st' =
      Some (find (wanted PART_TYPE_APP (APP_OTA_MIN + SUB_TYPE_ID (p_subtype p)) None) (plist st), st2)"
    using get_boot_ok [OF nor_flash_dev [OF assms(1)] rdy(3) _ _ _ n v(1) rd] rdy(1,2,4) unfolding pl v(2) by blast
qed

lemma ota_set_boot_effect_witness:
  "esp_ota_set_boot_partition demo_env demo_ota_state (Some demo_ota1) \<noteq> None"
  using ota_set_boot_effect [OF demo_nor demo_ready demo_types] by (simp add: demo_env_def)

text \<open>C6: Whatever happens while a new OTA slot is chosen, success, an error half way through the erase
  or the write, or a refused request: no byte outside the sector of the other record changes, and the
  record that decided the boot before is still there, valid and with its number.\<close>

theorem ota_set_boot_keeps_old:
  assumes "nor_chip (chip_rom env) view" and "ota_ready env view st d n"
    and "p_type p = PART_TYPE_APP" and "p_subtype p \<noteq> PART_SUBTYPE_FACTORY"
    and "esp_ota_set_boot_partition env st (Some p) = Some (r, st')"
    and "boot_seq (record_at (view (flash st)) d 0) (record_at (view (flash st)) d 1) = Some s"
  shows "\<exists>keep. (keep = 0 \<or> keep = 1) \<and>
    ota_select_valid (record_at (view (flash st')) d keep) \<and> ota_seq (record_at (view (flash st')) d keep) = s \<and>
    (\<forall>x. x < p_address d + (1 - keep) * SPI_FLASH_SEC_SIZE \<or> p_address d + (2 - keep) * SPI_FLASH_SEC_SIZE \<le> x
       \<longrightarrow> view (flash st') x = view (flash st) x)"
proof -
  let ?a = "record_at (view (flash st)) d 0" and ?b = "record_at (view (flash st)) d 1"
  have fr: "\<forall>x. x < p_address d + target_sec ?a ?b * SPI_FLASH_SEC_SIZE
       \<or> p_address d + (target_sec ?a ?b + 1) * SPI_FLASH_SEC_SIZE \<le> x
       \<longrightarrow> view (flash st') x = view (flash st) x"
    using set_boot_run [OF assms(1-4) set_boot_returns [of env st p]] assms(5) by auto
  note kept = boot_seq_kept [OF assms(6)]
  show ?thesis
  proof (cases "target_sec ?a ?b = 0")
    case True
    have "record_at (view (flash st')) d 1 = ?b" using fr True by (intro record_at_cong) auto
    then show ?thesis using kept fr True by (intro exI [of _ 1]) (auto simp: Let_def)
  next
    case False
    then have t: "target_sec ?a ?b = 1" by (auto simp: target_sec_def split: if_splits)
    have "record_at (view (flash st')) d 0 = ?a" using fr t by (intro record_at_cong) auto
    then show ?thesis using kept fr t by (intro exI [of _ 0]) (auto simp: Let_def)
  qed
qed

lemma ota_set_boot_keeps_old_witness:
  "\<exists>r st' keep. esp_ota_set_boot_partition demo_env demo_ota_state (Some demo_ota1) = Some (r, st') \<and>
    ota_select_valid (record_at (cells (flash st')) demo_ota_data keep) \<and>
    ota_seq (record_at (cells (flash st')) demo_ota_data keep) = 1"
proof -
  obtain r st' where "esp_ota_set_boot_partition demo_env demo_ota_state (Some demo_ota1) = Some (r, st')"
    using set_boot_run [OF demo_nor demo_ready demo_types] by (auto simp: demo_env_def)
  with ota_set_boot_keeps_old [OF demo_nor demo_ready demo_types this demo_boot_seq] show ?thesis by blast
qed

text \<open>C9: An update session stores exactly the image: after a successful \<open>esp_ota_begin\<close> and writes
  that all succeed, the flash is the flash before, with the erased part of the partition at 0xFF and
  the concatenated chunks written at its start; the partition is an OTA partition and not the running
  one.\<close>

theorem ota_session_image:
  assumes "nor_chip (chip_rom env) view"
    and "esp_ota_begin env st (Some p) sz = Some (Inr h, st1)"
    and "fst (esp_partition_verify (chip_rom env) (flash st) (plist st) p) = Some q"
    and "part_on_chip (chip_rom env) q" and "0 < p_size q"
    and "sz < 2 ^ 32 - SPI_FLASH_SEC_SIZE \<or> sz = OTA_SIZE_UNKNOWN"
    and "\<forall>bs \<in> set chunks. length bs \<le> 65536" and "length (concat chunks) \<le> sectors_erased sz q"
    and "write_all env st1 h na chunks = Some (ESP_OK, st2)"
  shows "is_ota_partition q \<and> length (concat chunks) \<le> p_size q \<and>
    view (flash st2) = mcpy (erased (view (flash st)) (p_address q) (sectors_erased sz q)) (p_address q) (concat chunks)"
proof -
  note dev = nor_flash_dev [OF assms(1)] and chip = nor_chip.chip_size_bound [OF assms(1)]
  obtain e where b: "is_ota_partition q" "entries st1 = e # entries st" "e_handle e = h" "e_part e = q" "e_wrote e = 0"
    "esp_partition_erase_range (chip_rom env) (flash st) q 0 (sectors_erased sz q) = (ESP_OK, flash st1)"
    using begin_ok [OF dev assms(2)] assms(3) unfolding sectors_erased_def by auto
  have n: "0 < sectors_erased sz q" "sectors_erased sz q < 2 ^ 32"
  proof -
    have "p_size q < 2 ^ 32" using assms(4) chip by (simp add: part_on_chip_def)
    moreover have "(sz div SPI_FLASH_SEC_SIZE + 1) * SPI_FLASH_SEC_SIZE < 2 ^ 32" if "sz < 2 ^ 32 - SPI_FLASH_SEC_SIZE"
      using that div_times_less_eq_dividend [of sz SPI_FLASH_SEC_SIZE] by (simp add: flash_consts)
    ultimately show "0 < sectors_erased sz q" "sectors_erased sz q < 2 ^ 32"
      using assms(5,6) by (auto simp: sectors_erased_def flash_consts)
  qed
  then have er: "view (flash st1) = erased (view (flash st)) (p_address q) (sectors_erased sz q)"
    using flash_dev.part_erase_ok [OF dev assms(4) chip n(1) _ b(6)] by (simp add: erase_outcome_def split: if_splits)
  have "view (flash st2) = mcpy (view (flash st1)) (p_address (e_part e) + e_wrote e) (concat chunks) \<and>
      e_wrote e + length (concat chunks) \<le> p_size (e_part e) \<and> plist st2 = plist st1"
    using b assms(4,7,8,9)
    by (intro write_all_ok [OF dev chip, where E = "sectors_erased sz q" and es = "entries st" and h = h and na = na])
       (auto simp: er erased_def)
  then show ?thesis using b er by simp
qed

lemma demo_erase:
  "spi_flash_erase_range sure_rom c 0x11000 0x1000
     = (ESP_OK, c\<lparr>cells := erased (cells c) 0x11000 0x1000\<rparr>)"
  by (simp add: spi_flash_erase_range_def flash_consts spi_flash_check_wr_protect_def erase_loop.simps
      spi_flash_erase_sector_def spi_flash_erase_sector_raw_def sure_rom_def sim_rom_def
      spi_flash_read_status_def special_flash_read_status_def Let_def)

lemma demo_write:
  "spi_flash_write sure_rom c False 0x11000 (Some [0xE9, 1, 2, 3]) 4
     = Some (ESP_OK, c\<lparr>cells := and_write (cells c) 0x11000 [0xE9, 1, 2, 3]\<rparr>)"
  by (simp add: spi_flash_write_def spi_flash_check_wr_protect_def spi_flash_program_def NOT_ALIGN_def
      spi_flash_write_raw_def sure_rom_def sim_rom_def flash_consts spi_flash_read_status_def
      special_flash_read_status_def Let_def)

lemma demo_plist: "plist demo_ota_state = [demo_ota_data, demo_ota0, demo_ota1]" "plist demo_ota_state \<noteq> []"
  by (simp_all add: demo_ota_state_def)

lemma demo_verify:
  "esp_partition_verify (chip_rom demo_env) (flash demo_ota_state) (plist demo_ota_state) demo_ota1
     = (Some demo_ota1, plist demo_ota_state)"
  unfolding verify_loaded loaded_idem [OF demo_plist(2)]
  by (simp add: demo_plist(1) wanted_def demo_parts part_consts)

lemma demo_running: "esp_ota_get_running_partition demo_env demo_ota_state = Some (demo_ota0, demo_ota_state)"
  unfolding running_parts plist_parts [OF demo_plist(2)] parts_nonempty [OF demo_plist(2)]
  by (simp add: demo_plist(1) wanted_def demo_parts part_consts demo_env_def)

lemma demo_session:
  "\<exists>st1 st2. esp_ota_begin demo_env demo_ota_state (Some demo_ota1) 0 = Some (Inr 1, st1) \<and>
     write_all demo_env st1 1 False [[0xE9, 1, 2, 3]] = Some (ESP_OK, st2)"
proof -
  let ?c = "(flash demo_ota_state)\<lparr>cells := erased (cells (flash demo_ota_state)) 0x11000 0x1000\<rparr>"
  let ?e = "\<lparr>e_handle = 1, e_part = demo_ota1, e_erased = 0x1000, e_wrote = 0, e_partial = 0,
    e_partial_data = replicate 16 0\<rparr>"
  let ?st = "demo_ota_state\<lparr>flash := ?c, entries := [?e], last_handle := 1\<rparr>"
  have "st\<lparr>plist := plist st\<rparr> = st" for st :: "sim_flash ota_state" by simp
  moreover have "is_ota_partition demo_ota1" "demo_ota1 \<noteq> demo_ota0"
    by (simp_all add: is_ota_partition_def demo_parts part_consts ota_consts)
  moreover have "esp_partition_erase_range (chip_rom demo_env) (flash demo_ota_state) demo_ota1 0 0x1000 = (ESP_OK, ?c)"
    by (simp add: esp_partition_erase_range_def part_range_err_def demo_parts demo_env_def flash_consts
        demo_erase [simplified])
  ultimately have 1: "esp_ota_begin demo_env demo_ota_state (Some demo_ota1) 0 = Some (Inr 1, ?st)"
    by (simp add: esp_ota_begin_def demo_verify demo_running)
       (simp add: demo_ota_state_def demo_ota1_def)
  have "esp_partition_write (chip_rom demo_env) ?c demo_ota1 False 0 (Some [0xE9, 1, 2, 3]) 4
      = Some (ESP_OK, ?c\<lparr>cells := and_write (cells ?c) 0x11000 [0xE9, 1, 2, 3]\<rparr>)"
    by (simp add: esp_partition_write_def part_range_err_def demo_parts demo_env_def demo_write [simplified])
  moreover have four: "Suc (Suc (Suc (Suc 0))) = 4" by simp
  ultimately have "\<exists>st2. write_all demo_env ?st 1 False [[0xE9, 1, 2, 3]] = Some (ESP_OK, st2)"
    by (simp add: esp_ota_write_def find_entry_def four)
  with 1 show ?thesis by blast
qed

lemma ota_session_image_witness:
  "\<exists>st1 st2. esp_ota_begin demo_env demo_ota_state (Some demo_ota1) 0 = Some (Inr 1, st1) \<and>
     write_all demo_env st1 1 False [[0xE9, 1, 2, 3]] = Some (ESP_OK, st2) \<and>
     cells (flash st2) 0x11000 = 0xE9 \<and> cells (flash st2) 0x11004 = 0xFF"
proof -
  obtain st1 st2 where s: "esp_ota_begin demo_env demo_ota_state (Some demo_ota1) 0 = Some (Inr 1, st1)"
    "write_all demo_env st1 1 False [[0xE9, 1, 2, 3]] = Some (ESP_OK, st2)" using demo_session by blast
  have "cells (flash st2) = mcpy (erased (cells (flash demo_ota_state)) (p_address demo_ota1) (sectors_erased 0 demo_ota1))
      (p_address demo_ota1) (concat [[0xE9, 1, 2, 3]])"
    using ota_session_image [OF demo_nor s(1) _ _ _ _ _ _ s(2), of demo_ota1]
    by (simp add: demo_verify)
       (simp add: part_on_chip_def demo_parts demo_env_def sure_rom_def sim_rom_def sectors_erased_def flash_consts)
  then show ?thesis using s by (auto simp: mem_simps demo_parts sectors_erased_def erased_def)
qed

text \<open>An image of exactly the partition's size can never be begun when that size is a multiple of
  the sector size: one sector too many is erased, and the request is refused.\<close>

theorem ota_begin_full_size:
  assumes "nor_chip (chip_rom env) view"
    and "fst (esp_partition_verify (chip_rom env) (flash st) (plist st) p) = Some q"
    and "part_on_chip (chip_rom env) q" and "0 < p_size q" and "SPI_FLASH_SEC_SIZE dvd p_size q"
  shows "esp_ota_begin env st (Some p) (p_size q) \<noteq> Some (Inr h, st1)"
proof
  assume run: "esp_ota_begin env st (Some p) (p_size q) = Some (Inr h, st1)"
  have size: "p_size q \<le> 2 ^ 31"
    using assms(3) nor_chip.chip_size_bound [OF assms(1)] by (simp add: part_on_chip_def)
  then have "(p_size q div SPI_FLASH_SEC_SIZE + 1) * SPI_FLASH_SEC_SIZE mod 2 ^ 32 = p_size q + SPI_FLASH_SEC_SIZE"
    using assms(5) by (simp add: flash_consts)
  moreover have "p_size q \<noteq> OTA_SIZE_UNKNOWN" using size by (auto simp: ota_consts)
  ultimately have "esp_partition_erase_range (chip_rom env) (flash st) q 0 (p_size q + SPI_FLASH_SEC_SIZE)
      = (ESP_OK, flash st1)"
    using begin_ok [OF nor_flash_dev [OF assms(1)] run] assms(2,4) by auto
  then show False using size
    by (simp add: esp_partition_erase_range_def part_range_err_def flash_consts)
qed

lemma ota_begin_full_size_witness:
  "esp_ota_begin demo_env demo_ota_state (Some demo_ota1) 0x1000 \<noteq> Some (Inr 1, demo_ota_state)"
  using ota_begin_full_size [OF demo_nor, of demo_ota_state demo_ota1 demo_ota1 1 demo_ota_state, unfolded demo_verify]
  by (simp add: part_on_chip_def demo_parts demo_env_def sure_rom_def sim_rom_def flash_consts)

end
