(* ===== verification/BootUtility.thy ===== *)
theory BootUtility
  imports OtaOps
begin

text \<open>
  The second-stage bootloader's choice of the application: the ESP8266 parts of
  \<open>components/bootloader_support/src/bootloader_utility.c\<close>, \<open>bootloader_common.c\<close> and the cache
  window of \<open>bootloader_flash.c\<close>, with \<open>select_image\<close> of
  \<open>components/bootloader/subproject/main/bootloader_start.c\<close>.

  The bootloader reads flash through the 1 MByte cache window at 0x40200000.  What the window shows is
  the parameter \<open>cache\<close>, a function of the sub-region, the region and the CPU address; the hypothesis
  \<open>cache_maps\<close> is the mapping that the comment in \<open>bootloader_mmap\<close> documents.  \<open>mapped\<close> is the static
  flag of that file.  Whether \<open>esp_image_load\<close> can load a position is the parameter
  \<open>loads\<close>, \<open>None\<close> when it does not return.
  \<open>None\<close> is an endless loop or a division by zero.
\<close>

section \<open>The cache window\<close>

definition CACHE_BASE :: nat where "CACHE_BASE = 0x40200000"

type_synonym cache = "nat \<Rightarrow> nat \<Rightarrow> nat \<Rightarrow> u8"

definition cache_maps :: "cache \<Rightarrow> memory \<Rightarrow> bool" where
  "cache_maps cache m \<longleftrightarrow>
     (\<forall>sub<2. \<forall>region<4. \<forall>off<0x100000.
        cache sub region (CACHE_BASE + off) = m (region * 0x200000 + sub * 0x100000 + off))"

text \<open>\<open>bootloader_mmap\<close> returns the null pointer when something is mapped already; otherwise the pointer
  is the function that reads through it.\<close>

definition bootloader_mmap :: "cache \<Rightarrow> bool \<Rightarrow> nat \<Rightarrow> ((nat \<Rightarrow> u8) option \<times> bool) option" where
  "bootloader_mmap cache mapped src_addr =
     (if mapped then Some (None, mapped)
      else if 0x800000 \<le> src_addr then None
      else
        let region = (if src_addr < 0x200000 then 0 else if src_addr < 0x400000 then 1
                      else if src_addr < 0x600000 then 2 else 3);
            mapped_src = src_addr mod 0x200000;
            sub_region = (if mapped_src < 0x100000 then 0 else 1);
            mapped_src = (if mapped_src < 0x100000 then mapped_src else mapped_src - 0x100000) in
        Some (Some (\<lambda>i. cache sub_region region (CACHE_BASE + mapped_src + i)), True))"

definition bootloader_munmap :: "bool \<Rightarrow> bool" where
  "bootloader_munmap mapped = False"

section \<open>Loading the partition table\<close>

record pos =
  pos_offset :: nat
  pos_size :: nat

record boot_state =
  ota_info :: pos
  factory :: pos
  test_app :: pos
  ota :: "pos list"
  app_count :: nat

definition no_pos :: pos where
  "no_pos = \<lparr>pos_offset = 0, pos_size = 0\<rparr>"

definition MAX_OTA_SLOTS :: nat where "MAX_OTA_SLOTS = 16"
definition FACTORY_INDEX :: int where "FACTORY_INDEX = -1"
definition TEST_APP_INDEX :: int where "TEST_APP_INDEX = -2"
definition INVALID_INDEX :: int where "INVALID_INDEX = -99"

lemmas boot_consts = MAX_OTA_SLOTS_def FACTORY_INDEX_def TEST_APP_INDEX_def INVALID_INDEX_def

definition initial_state :: boot_state where
  "initial_state = \<lparr>ota_info = no_pos, factory = no_pos, test_app = no_pos,
     ota = replicate MAX_OTA_SLOTS no_pos, app_count = 0\<rparr>"

definition pi_pos :: "part_info \<Rightarrow> pos" where
  "pi_pos p = \<lparr>pos_offset = pi_offset p, pos_size = pi_size p\<rparr>"

definition note_partition :: "part_info \<Rightarrow> boot_state \<Rightarrow> boot_state" where
  "note_partition p bs =
     (if pi_type p = PART_TYPE_APP then
        (if pi_subtype p = PART_SUBTYPE_FACTORY then bs\<lparr>factory := pi_pos p\<rparr>
         else if pi_subtype p = PART_SUBTYPE_TEST then bs\<lparr>test_app := pi_pos p\<rparr>
         else if pi_subtype p div 16 * 16 = PART_SUBTYPE_OTA_FLAG then
           bs\<lparr>ota := (ota bs)[pi_subtype p mod 16 := pi_pos p], app_count := (app_count bs + 1) mod 2 ^ 32\<rparr>
         else bs)
      else if pi_type p = PART_TYPE_DATA then
        (if pi_subtype p = PART_SUBTYPE_DATA_OTA then bs\<lparr>ota_info := pi_pos p\<rparr> else bs)
      else bs)"

definition load_partition_table ::
  "cache \<Rightarrow> nat \<Rightarrow> bool \<Rightarrow> boot_state \<Rightarrow> (bool \<times> boot_state \<times> bool) option" where
  "load_partition_table cache chip mapped bs =
     (case bootloader_mmap cache mapped ESP_PARTITION_TABLE_ADDR of
        None \<Rightarrow> None
      | Some (None, mapped) \<Rightarrow> Some (False, bs, mapped)
      | Some (Some ptr, mapped) \<Rightarrow>
        (let table = map ptr [0..<0xC00] in
         case esp_partition_table_basic_verify chip table of (err, n) \<Rightarrow>
           if err \<noteq> ESP_OK then Some (False, bs, mapped)
           else Some (True, fold (\<lambda>i. note_partition (table_entry table i)) [0..<n] bs,
                      bootloader_munmap mapped)))"

section \<open>Choosing and loading\<close>

definition bootloader_ota_select_valid :: "ota_select \<Rightarrow> bool" where
  "bootloader_ota_select_valid s \<longleftrightarrow>
     ota_seq s \<noteq> UINT32_MAX \<and> sel_crc s = crc32_le UINT32_MAX (le32 (ota_seq s))"

definition get_selected_boot_partition ::
  "cache \<Rightarrow> bool \<Rightarrow> boot_state \<Rightarrow> (int \<times> bool) option" where
  "get_selected_boot_partition cache mapped bs =
     (if pos_offset (ota_info bs) \<noteq> 0 then
        (if pos_size (ota_info bs) < 2 * SPI_FLASH_SEC_SIZE then Some (INVALID_INDEX, mapped)
         else case bootloader_mmap cache mapped (pos_offset (ota_info bs)) of
           None \<Rightarrow> None
         | Some (None, mapped) \<Rightarrow> Some (INVALID_INDEX, mapped)
         | Some (Some ptr, mapped) \<Rightarrow>
           (let sa = parse_select (map ptr [0..<SELECT_SIZE]);
                sb = parse_select (map (\<lambda>i. ptr (SPI_FLASH_SEC_SIZE + i)) [0..<SELECT_SIZE]);
                mapped = bootloader_munmap mapped;
                slot = (\<lambda>seq. case ota_slot seq (app_count bs) of
                   None \<Rightarrow> None | Some k \<Rightarrow> Some (int k, mapped)) in
            if ota_seq sa = UINT32_MAX \<and> ota_seq sb = UINT32_MAX then
              (if pos_offset (factory bs) \<noteq> 0 then Some (FACTORY_INDEX, mapped) else Some (0, mapped))
            else if bootloader_ota_select_valid sa \<and> bootloader_ota_select_valid sb then
              slot (max (ota_seq sa) (ota_seq sb))
            else if bootloader_ota_select_valid sa then slot (ota_seq sa)
            else if bootloader_ota_select_valid sb then slot (ota_seq sb)
            else Some (FACTORY_INDEX, mapped)))
      else Some (FACTORY_INDEX, mapped))"

definition index_to_partition :: "boot_state \<Rightarrow> int \<Rightarrow> pos" where
  "index_to_partition bs index =
     (if index = FACTORY_INDEX then factory bs
      else if index = TEST_APP_INDEX then test_app bs
      else if 0 \<le> index \<and> index < int MAX_OTA_SLOTS \<and> index < int (app_count bs) then ota bs ! nat index
      else no_pos)"

definition try_load_partition :: "(pos \<Rightarrow> bool option) \<Rightarrow> pos \<Rightarrow> bool option" where
  "try_load_partition loads part = (if pos_size part = 0 then Some False else loads part)"

fun try_indices :: "(pos \<Rightarrow> bool option) \<Rightarrow> boot_state \<Rightarrow> int list \<Rightarrow> pos option option" where
  "try_indices loads bs [] = Some None"
| "try_indices loads bs (i # is) =
     (let part = index_to_partition bs i in
      if pos_size part = 0 then try_indices loads bs is
      else case try_load_partition loads part of
          None \<Rightarrow> None
        | Some True \<Rightarrow> Some (Some part)
        | Some False \<Rightarrow> try_indices loads bs is)"

definition load_test_app :: "(pos \<Rightarrow> bool option) \<Rightarrow> boot_state \<Rightarrow> pos option option" where
  "load_test_app loads bs = map_option (\<lambda>ok. if ok then Some (test_app bs) else None) (try_load_partition loads (test_app bs))"

definition load_boot_image :: "(pos \<Rightarrow> bool option) \<Rightarrow> boot_state \<Rightarrow> int \<Rightarrow> pos option option" where
  "load_boot_image loads bs start_index =
     (if start_index = TEST_APP_INDEX then load_test_app loads bs
      else case try_indices loads bs (rev [FACTORY_INDEX..start_index]) of
        None \<Rightarrow> None
      | Some (Some p) \<Rightarrow> Some (Some p)
      | Some None \<Rightarrow> (case try_indices loads bs [start_index + 1..int (app_count bs) - 1] of
          None \<Rightarrow> None
        | Some (Some p) \<Rightarrow> Some (Some p)
        | Some None \<Rightarrow> load_test_app loads bs))"

text \<open>\<open>select_image\<close>: the position the bootloader boots, or no image.\<close>

definition select_image :: "cache \<Rightarrow> nat \<Rightarrow> (pos \<Rightarrow> bool option) \<Rightarrow> pos option option" where
  "select_image cache chip loads =
     (case load_partition_table cache chip False initial_state of
        None \<Rightarrow> None
      | Some (False, bs, mapped) \<Rightarrow> Some None
      | Some (True, bs, mapped) \<Rightarrow>
        (case get_selected_boot_partition cache mapped bs of
           None \<Rightarrow> None
         | Some (index, mapped) \<Rightarrow>
             if index = INVALID_INDEX then Some None else load_boot_image loads bs index))"

section \<open>Lemmas: reading through the window\<close>

lemma mmap_ok:
  assumes "cache_maps cache m" and "a < 0x800000"
  shows "\<exists>ptr. bootloader_mmap cache False a = Some (Some ptr, True) \<and>
    (\<forall>i. a mod 0x100000 + i < 0x100000 \<longrightarrow> ptr i = m (a + i))"
proof -
  define region where "region = a div 0x200000"
  define sub where "sub = a mod 0x200000 div 0x100000"
  define off where "off = a mod 0x100000"
  have "a mod 0x200000 mod 0x100000 = off"
    unfolding off_def by (rule mod_mod_cancel) simp
  then have off: "a mod 0x200000 = sub * 0x100000 + off"
    unfolding sub_def by (metis div_mult_mod_eq)
  have a: "a = region * 0x200000 + (sub * 0x100000 + off)"
    unfolding region_def off [symmetric] by (rule div_mult_mod_eq [symmetric])
  have "region * 0x200000 < 0x800000" using assms(2) a by linarith
  then have r4: "region < 4" by simp
  have "sub * 0x100000 < 0x200000" using off mod_less_divisor [of "0x200000" a] by linarith
  then have s2: "sub < 2" by simp
  have o: "off < 0x100000" by (simp add: off_def)
  note rng = r4 s2 o
  have reg: "region = (if a < 0x200000 then 0 else if a < 0x400000 then 1 else if a < 0x600000 then 2 else 3)"
  proof -
    have "region = 0 \<or> region = 1 \<or> region = 2 \<or> region = 3" using r4 by linarith
    moreover have "region * 0x200000 \<le> a" "a < region * 0x200000 + 0x200000" using a s2 o by linarith+
    ultimately show ?thesis by (elim disjE) simp_all
  qed
  have sb: "sub = (if a mod 0x200000 < 0x100000 then 0 else 1)"
    "off = (if a mod 0x200000 < 0x100000 then a mod 0x200000 else a mod 0x200000 - 0x100000)"
    using off o s2 by (cases "sub = 0"; simp)+
  have "bootloader_mmap cache False a = Some (Some (\<lambda>i. cache sub region (CACHE_BASE + off + i)), True)"
    using assms(2) by (simp add: bootloader_mmap_def Let_def reg [symmetric] sb [symmetric] del: One_nat_def)
  moreover have "cache sub region (CACHE_BASE + off + i) = m (a + i)" if "off + i < 0x100000" for i
    using assms(1) rng that a by (simp add: cache_maps_def add.assoc)
  ultimately show ?thesis unfolding off_def by blast
qed

section \<open>Lemmas: what the table scan records\<close>

definition pi_is :: "nat \<Rightarrow> nat \<Rightarrow> part_info \<Rightarrow> bool" where
  "pi_is type subtype e \<longleftrightarrow> pi_type e = type \<and> pi_subtype e = subtype"

definition pi_is_ota :: "part_info \<Rightarrow> bool" where
  "pi_is_ota e \<longleftrightarrow> pi_type e = PART_TYPE_APP \<and> APP_OTA_MIN \<le> pi_subtype e \<and> pi_subtype e < APP_OTA_MAX"

definition last_pos :: "(part_info \<Rightarrow> bool) \<Rightarrow> part_info list \<Rightarrow> pos \<Rightarrow> pos" where
  "last_pos P es dflt = (case find P (rev es) of None \<Rightarrow> dflt | Some e \<Rightarrow> pi_pos e)"

lemma last_pos_snoc: "last_pos P (es @ [e]) dflt = (if P e then pi_pos e else last_pos P es dflt)"
  by (simp add: last_pos_def)

lemma ota_subtype_iff: "s div 16 * 16 = PART_SUBTYPE_OTA_FLAG \<longleftrightarrow> APP_OTA_MIN \<le> s \<and> s < APP_OTA_MAX"
proof -
  have "s div 16 * 16 \<le> s" "s < s div 16 * 16 + 16" by simp_all
  then show ?thesis by (auto simp: part_consts ota_consts)
qed

text \<open>Every field of the bootloader's state after the scan: the last entry of each kind counts.\<close>

lemma fold_note:
  "let bs = fold note_partition es initial_state in
     ota_info bs = last_pos (pi_is PART_TYPE_DATA PART_SUBTYPE_DATA_OTA) es no_pos \<and>
     factory bs = last_pos (pi_is PART_TYPE_APP PART_SUBTYPE_FACTORY) es no_pos \<and>
     test_app bs = last_pos (pi_is PART_TYPE_APP PART_SUBTYPE_TEST) es no_pos \<and>
     length (ota bs) = MAX_OTA_SLOTS \<and>
     (\<forall>k<MAX_OTA_SLOTS. ota bs ! k = last_pos (pi_is PART_TYPE_APP (APP_OTA_MIN + k)) es no_pos) \<and>
     app_count bs = length (filter pi_is_ota es) mod 2 ^ 32"
proof (induction es rule: rev_induct)
  case Nil
  then show ?case by (simp add: Let_def initial_state_def last_pos_def)
next
  case (snoc e es)
  let ?bs = "fold note_partition es initial_state"
  have cnt: "(n mod 2 ^ 32 + 1) mod 2 ^ 32 = (n + 1) mod (2 :: nat) ^ 32" for n by presburger
  have slot: "APP_OTA_MIN + k = pi_subtype e \<longleftrightarrow> k = pi_subtype e mod 16"
    if "k < MAX_OTA_SLOTS" "APP_OTA_MIN \<le> pi_subtype e" "pi_subtype e < APP_OTA_MAX" for k
  proof -
    have "pi_subtype e mod 16 = pi_subtype e - 16" using that by (simp add: le_mod_geq ota_consts)
    then show ?thesis using that by (auto simp: ota_consts)
  qed
  have m16: "pi_subtype e mod 16 < MAX_OTA_SLOTS" by (simp add: boot_consts)
  have len: "length (ota ?bs) = MAX_OTA_SLOTS" using snoc by (simp add: Let_def)
  note flags = pi_is_def pi_is_ota_def part_consts ota_consts
  show ?case
  proof (cases "pi_is_ota e")
    case True
    then have np: "note_partition e ?bs = ?bs\<lparr>ota := (ota ?bs)[pi_subtype e mod 16 := pi_pos e],
        app_count := (app_count ?bs + 1) mod 2 ^ 32\<rparr>"
      by (auto simp: note_partition_def ota_subtype_iff pi_is_ota_def part_consts ota_consts)
    have f: "\<not> pi_is PART_TYPE_APP PART_SUBTYPE_FACTORY e" "\<not> pi_is PART_TYPE_APP PART_SUBTYPE_TEST e"
      "\<not> pi_is PART_TYPE_DATA PART_SUBTYPE_DATA_OTA e"
      using True by (simp_all add: flags)
    have k: "pi_is PART_TYPE_APP (APP_OTA_MIN + k) e \<longleftrightarrow> k = pi_subtype e mod 16" if "k < MAX_OTA_SLOTS" for k
      using True slot [OF that] by (auto simp: pi_is_def pi_is_ota_def)
    show ?thesis using snoc True cnt len m16
      by (simp add: Let_def last_pos_snoc np f k nth_list_update)
  next
    case False
    then have k: "\<not> pi_is PART_TYPE_APP (APP_OTA_MIN + k) e" if "k < MAX_OTA_SLOTS" for k
      using that by (auto simp: flags boot_consts)
    have np: "note_partition e ?bs =
      (if pi_is PART_TYPE_APP PART_SUBTYPE_FACTORY e then ?bs\<lparr>factory := pi_pos e\<rparr>
       else if pi_is PART_TYPE_APP PART_SUBTYPE_TEST e then ?bs\<lparr>test_app := pi_pos e\<rparr>
       else if pi_is PART_TYPE_DATA PART_SUBTYPE_DATA_OTA e then ?bs\<lparr>ota_info := pi_pos e\<rparr> else ?bs)"
      using False unfolding note_partition_def [of e] ota_subtype_iff by (auto simp: flags)
    have excl: "pi_is PART_TYPE_APP PART_SUBTYPE_FACTORY e \<Longrightarrow> \<not> pi_is PART_TYPE_APP PART_SUBTYPE_TEST e"
      "pi_is PART_TYPE_DATA PART_SUBTYPE_DATA_OTA e \<Longrightarrow>
        \<not> pi_is PART_TYPE_APP PART_SUBTYPE_TEST e \<and> \<not> pi_is PART_TYPE_APP PART_SUBTYPE_FACTORY e"
      by (simp_all add: flags)
    show ?thesis using snoc False k excl
      by (auto simp: Let_def last_pos_snoc np)
  qed
qed

lemma find_unique_rev:
  assumes "length (filter P xs) \<le> 1"
  shows "find P (rev xs) = find P xs"
proof -
  have fl: "find P ys = (case filter P ys of [] \<Rightarrow> None | y # _ \<Rightarrow> Some y)" for ys
    by (induction ys) auto
  have "rev (filter P xs) = filter P xs"
    using assms by (cases "filter P xs") auto
  then show ?thesis unfolding fl by (simp flip: rev_filter)
qed

lemma find_map_partition:
  "find (wanted type subtype None) (map partition_of es) = map_option partition_of
     (find (\<lambda>e. wanted type subtype None (partition_of e)) es)"
  by (induction es) auto

lemma wanted_partition_of:
  "subtype \<noteq> PART_SUBTYPE_ANY \<Longrightarrow> wanted type subtype None (partition_of e) \<longleftrightarrow> pi_is type subtype e"
  by (auto simp: wanted_def partition_of_def pi_is_def)

section \<open>Lemmas: the bootloader's choice\<close>

lemma ptr_mget: "(\<And>i. i < n \<Longrightarrow> ptr (k + i) = m (a + k + i)) \<Longrightarrow> map (\<lambda>i. ptr (k + i)) [0..<n] = mget m (a + k) n"
  by (rule nth_equalityI) auto

lemma get_selected_ok:
  assumes cache: "cache_maps cache m"
    and info: "ota_info bs = \<lparr>pos_offset = p_address d, pos_size = p_size d\<rparr>"
    and d: "0 < p_address d" "p_address d < 0x800000" "p_address d mod 0x100000 + 0x2000 \<le> 0x100000"
      "2 * SPI_FLASH_SEC_SIZE \<le> p_size d"
    and v: "boot_seq (record_at m d 0) (record_at m d 1) = Some v" and n: "app_count bs = n" "0 < n"
  shows "get_selected_boot_partition cache False bs = Some (int (unat (v - 1) mod n), False)"
proof -
  obtain ptr where ptr: "bootloader_mmap cache False (p_address d) = Some (Some ptr, True)"
    "\<And>i. p_address d mod 0x100000 + i < 0x100000 \<Longrightarrow> ptr i = m (p_address d + i)"
    using mmap_ok [OF cache d(2)] by blast
  let ?a = "record_at m d 0" and ?b = "record_at m d 1"
  have "map ptr [0..<SELECT_SIZE] = mget m (p_address d) SELECT_SIZE"
    using ptr_mget [of SELECT_SIZE ptr 0 m "p_address d"] ptr(2) d(3) by (simp add: ota_consts)
  then have ra: "parse_select (map ptr [0..<SELECT_SIZE]) = ?a" by (simp add: record_at_def)
  have "map (\<lambda>i. ptr (SPI_FLASH_SEC_SIZE + i)) [0..<SELECT_SIZE] = mget m (p_address d + SPI_FLASH_SEC_SIZE) SELECT_SIZE"
    using ptr_mget [of SELECT_SIZE ptr SPI_FLASH_SEC_SIZE m "p_address d"] ptr(2) d(3)
    by (simp add: ota_consts flash_consts add.assoc)
  then have rb: "parse_select (map (\<lambda>i. ptr (SPI_FLASH_SEC_SIZE + i)) [0..<SELECT_SIZE]) = ?b"
    by (simp add: record_at_def)
  have val: "bootloader_ota_select_valid = ota_select_valid"
    by (rule ext) (simp add: bootloader_ota_select_valid_def ota_select_valid_def ota_select_crc_def)
  have nm: "\<not> (ota_seq ?a = UINT32_MAX \<and> ota_seq ?b = UINT32_MAX)"
    using v by (auto simp: boot_seq_def ota_select_valid_def split: if_splits)
  have pre: "get_selected_boot_partition cache False bs =
    (if ota_select_valid ?a \<and> ota_select_valid ?b then Some (int (unat (max (ota_seq ?a) (ota_seq ?b) - 1) mod n), False)
     else if ota_select_valid ?a then Some (int (unat (ota_seq ?a - 1) mod n), False)
     else if ota_select_valid ?b then Some (int (unat (ota_seq ?b - 1) mod n), False)
     else Some (FACTORY_INDEX, False))"
    using d info ptr(1) n nm
    by (auto simp: get_selected_boot_partition_def Let_def ra rb val ota_slot_def bootloader_munmap_def)
  then show ?thesis using v by (auto simp: boot_seq_def split: if_splits)
qed

section \<open>Lemmas: the table on both sides\<close>

lemma table_entry_mget:
  assumes "i * INFO_SIZE + INFO_SIZE \<le> n"
  shows "table_entry (mget m a n) i = parse_info (mget m (a + i * INFO_SIZE) INFO_SIZE)"
proof -
  have "take INFO_SIZE (drop (i * INFO_SIZE) (mget m a n)) = mget m (a + i * INFO_SIZE) INFO_SIZE"
    using assms by (intro nth_equalityI) (auto simp: add.assoc)
  then show ?thesis by (simp add: table_entry_def)
qed

text \<open>The flash holds a table that the bootloader's check accepts and that the application has
  loaded; after an MD5 record there is no application or data entry.\<close>

definition boot_table :: "memory \<Rightarrow> nat \<Rightarrow> partition list \<Rightarrow> bool" where
  "boot_table m chip ps \<longleftrightarrow>
     ps = load_loop (mget m ESP_PARTITION_TABLE_ADDR SPI_FLASH_SEC_SIZE) 0 (SPI_FLASH_SEC_SIZE div INFO_SIZE) \<and>
     (let T = mget m ESP_PARTITION_TABLE_ADDR 0xC00 in
      \<exists>k. esp_partition_table_basic_verify chip T = (ESP_OK, k) \<and>
        (\<forall>i<k. pi_magic (table_entry T i) = ESP_PARTITION_MAGIC_MD5 \<longrightarrow>
           (\<forall>j<k. i \<le> j \<longrightarrow> pi_type (table_entry T j) \<noteq> PART_TYPE_APP \<and> pi_type (table_entry T j) \<noteq> PART_TYPE_DATA)))"

lemma boot_table_split:
  assumes "boot_table m chip ps"
  shows "\<exists>k es es'. esp_partition_table_basic_verify chip (mget m ESP_PARTITION_TABLE_ADDR 0xC00) = (ESP_OK, k) \<and>
    map (table_entry (mget m ESP_PARTITION_TABLE_ADDR 0xC00)) [0..<k] = es @ es' \<and>
    ps = map partition_of es \<and> length es \<le> 96 \<and>
    (\<forall>e \<in> set es'. pi_type e \<noteq> PART_TYPE_APP \<and> pi_type e \<noteq> PART_TYPE_DATA)"
proof -
  let ?T = "mget m ESP_PARTITION_TABLE_ADDR 0xC00" and ?L = "mget m ESP_PARTITION_TABLE_ADDR SPI_FLASH_SEC_SIZE"
  obtain k where k: "esp_partition_table_basic_verify chip ?T = (ESP_OK, k)"
    and md5: "\<forall>i<k. pi_magic (table_entry ?T i) = ESP_PARTITION_MAGIC_MD5 \<longrightarrow>
       (\<forall>j<k. i \<le> j \<longrightarrow> pi_type (table_entry ?T j) \<noteq> PART_TYPE_APP \<and> pi_type (table_entry ?T j) \<noteq> PART_TYPE_DATA)"
    and ps: "ps = load_loop ?L 0 (SPI_FLASH_SEC_SIZE div INFO_SIZE)"
    using assms by (auto simp: boot_table_def Let_def)
  have v: "k < 96" "pi_magic (table_entry ?T k) = 0xFFFF"
    "\<forall>j<k. pi_magic (table_entry ?T j) = ESP_PARTITION_MAGIC \<or> pi_magic (table_entry ?T j) = ESP_PARTITION_MAGIC_MD5"
    using basic_verify_loop_ok [of chip ?T 0 ESP_PARTITION_TABLE_MAX_ENTRIES k] k
    by (auto simp: esp_partition_table_basic_verify_def part_consts)
  have eq: "table_entry ?L i = table_entry ?T i" if "i < 96" for i
  proof -
    have "i * 32 + 32 \<le> 0xC00" using that by simp
    then show ?thesis by (subst (1 2) table_entry_mget) (simp_all add: part_consts flash_consts)
  qed
  let ?es = "map (table_entry ?T) [0..<k]" and ?P = "\<lambda>e. pi_magic e \<noteq> ESP_PARTITION_MAGIC_MD5"
  have "ps = map partition_of (takeWhile ?P (map (table_entry ?L) [0..<k]))"
    unfolding ps using v eq by (intro load_loop_prefix) (auto simp: flash_consts part_consts)
  also have "map (table_entry ?L) [0..<k] = ?es" using eq v(1) by auto
  finally have ps': "ps = map partition_of (takeWhile ?P ?es)" .
  have rest: "\<forall>e \<in> set (dropWhile ?P ?es). pi_type e \<noteq> PART_TYPE_APP \<and> pi_type e \<noteq> PART_TYPE_DATA"
  proof
    fix x assume x: "x \<in> set (dropWhile ?P ?es)"
    define i where "i = length (takeWhile ?P ?es)"
    have dw: "dropWhile ?P ?es = drop i ?es" unfolding i_def by (rule dropWhile_eq_drop)
    have "drop i ?es \<noteq> []" using x unfolding dw by auto
    then have i: "i < k" by simp
    then have "\<not> ?P (?es ! i)" using nth_length_takeWhile [of ?P ?es] by (simp add: i_def)
    then have "pi_magic (table_entry ?T i) = ESP_PARTITION_MAGIC_MD5" using i by simp
    then have late: "\<forall>j<k. i \<le> j \<longrightarrow> pi_type (table_entry ?T j) \<noteq> PART_TYPE_APP \<and> pi_type (table_entry ?T j) \<noteq> PART_TYPE_DATA"
      using md5 i by blast
    obtain q where "q < k - i" "x = drop i ?es ! q" using x unfolding dw by (auto simp: in_set_conv_nth)
    then have "i + q < k" "x = table_entry ?T (i + q)" by auto
    then show "pi_type x \<noteq> PART_TYPE_APP \<and> pi_type x \<noteq> PART_TYPE_DATA" using late by simp
  qed
  have "length (takeWhile ?P ?es) \<le> 96"
    using length_takeWhile_le [of ?P ?es] v(1) by simp
  moreover have "?es = takeWhile ?P ?es @ dropWhile ?P ?es" by (rule takeWhile_dropWhile_id [symmetric])
  ultimately show ?thesis using k ps' rest by blast
qed

text \<open>Each OTA slot and the OTA data partition occur once, and the OTA subtypes have no gap.\<close>

definition unique_parts :: "partition list \<Rightarrow> nat \<Rightarrow> bool" where
  "unique_parts ps n \<longleftrightarrow>
     (\<forall>k<16. length (filter (wanted PART_TYPE_APP (APP_OTA_MIN + k) None) ps) \<le> 1) \<and>
     length (filter (wanted PART_TYPE_DATA PART_SUBTYPE_DATA_OTA None) ps) \<le> 1 \<and>
     (\<forall>p \<in> set ps. is_ota_partition p \<longrightarrow> p_subtype p < APP_OTA_MIN + n)"

lemma count_filter:
  assumes "ota_count ps n" and "\<forall>k<16. length (filter (wanted PART_TYPE_APP (APP_OTA_MIN + k) None) ps) \<le> 1"
  shows "k \<le> n \<Longrightarrow> length (filter (\<lambda>p. p_type p = PART_TYPE_APP \<and> APP_OTA_MIN \<le> p_subtype p
    \<and> p_subtype p < APP_OTA_MIN + k) ps) = k"
proof (induction k)
  case (Suc k)
  have n: "n \<le> 16" using assms(1) by (simp add: ota_count_def)
  have split: "length (filter (\<lambda>p. p_type p = PART_TYPE_APP \<and> APP_OTA_MIN \<le> p_subtype p
      \<and> p_subtype p < APP_OTA_MIN + Suc k) qs)
    = length (filter (\<lambda>p. p_type p = PART_TYPE_APP \<and> APP_OTA_MIN \<le> p_subtype p
      \<and> p_subtype p < APP_OTA_MIN + k) qs)
      + length (filter (wanted PART_TYPE_APP (APP_OTA_MIN + k) None) qs)" for qs
    using Suc.prems n by (induction qs) (auto simp: wanted_def part_consts ota_consts)
  have "find (wanted PART_TYPE_APP (APP_OTA_MIN + k) None) ps \<noteq> None"
    using assms(1) Suc.prems by (simp add: ota_count_def has_app_def)
  then have "filter (wanted PART_TYPE_APP (APP_OTA_MIN + k) None) ps \<noteq> []"
    by (metis find_None_iff filter_empty_conv)
  moreover have "length (filter (wanted PART_TYPE_APP (APP_OTA_MIN + k) None) ps) \<le> 1"
    using assms(2) Suc.prems n by simp
  ultimately have "length (filter (wanted PART_TYPE_APP (APP_OTA_MIN + k) None) ps) = 1"
    by (cases "filter (wanted PART_TYPE_APP (APP_OTA_MIN + k) None) ps") auto
  then show ?case unfolding split using Suc by simp
qed simp

lemma last_pos_append_none: "\<forall>e \<in> set es'. \<not> P e \<Longrightarrow> last_pos P (es @ es') dflt = last_pos P es dflt"
  by (induction es' rule: rev_induct) (simp_all add: last_pos_snoc flip: append_assoc)

lemma last_pos_unique:
  assumes "length (filter (wanted type subtype None) (map partition_of es)) \<le> 1" "subtype \<noteq> PART_SUBTYPE_ANY"
    and "find (wanted type subtype None) (map partition_of es) = Some p"
  shows "last_pos (pi_is type subtype) es dflt = \<lparr>pos_offset = p_address p, pos_size = p_size p\<rparr>"
proof -
  have w: "(\<lambda>e. wanted type subtype None (partition_of e)) = pi_is type subtype"
    using wanted_partition_of [OF assms(2)] by blast
  have "length (filter (pi_is type subtype) es) \<le> 1"
    using assms(1) by (simp add: filter_map comp_def w)
  then have "find (pi_is type subtype) (rev es) = find (pi_is type subtype) es" by (rule find_unique_rev)
  moreover obtain e where "find (pi_is type subtype) es = Some e" "p = partition_of e"
    using assms(3) by (auto simp: find_map_partition w)
  ultimately show ?thesis by (simp add: last_pos_def pi_pos_def partition_of_def)
qed

text \<open>The bootloader's state after loading such a table.\<close>

lemma load_table_ok:
  assumes cache: "cache_maps cache m" and tbl: "boot_table m chip ps"
    and uniq: "unique_parts ps n" and cnt: "ota_count ps n"
    and d: "find (wanted PART_TYPE_DATA PART_SUBTYPE_DATA_OTA None) ps = Some d"
  shows "\<exists>bs. load_partition_table cache chip False initial_state = Some (True, bs, False) \<and>
    ota_info bs = \<lparr>pos_offset = p_address d, pos_size = p_size d\<rparr> \<and> app_count bs = n \<and>
    (\<forall>k<16. \<forall>p. find (wanted PART_TYPE_APP (APP_OTA_MIN + k) None) ps = Some p \<longrightarrow>
       ota bs ! k = \<lparr>pos_offset = p_address p, pos_size = p_size p\<rparr>)"
proof -
  let ?T = "mget m ESP_PARTITION_TABLE_ADDR 0xC00"
  obtain k es es' where k: "esp_partition_table_basic_verify chip ?T = (ESP_OK, k)"
    and es: "map (table_entry ?T) [0..<k] = es @ es'" and ps: "ps = map partition_of es" "length es \<le> 96"
    and none: "\<forall>e \<in> set es'. pi_type e \<noteq> PART_TYPE_APP \<and> pi_type e \<noteq> PART_TYPE_DATA"
    using boot_table_split [OF tbl] by blast
  obtain ptr where ptr: "bootloader_mmap cache False ESP_PARTITION_TABLE_ADDR = Some (Some ptr, True)"
    "\<And>i. ESP_PARTITION_TABLE_ADDR mod 0x100000 + i < 0x100000 \<Longrightarrow> ptr i = m (ESP_PARTITION_TABLE_ADDR + i)"
    using mmap_ok [OF cache, of ESP_PARTITION_TABLE_ADDR] by (auto simp: part_consts)
  have T: "map ptr [0..<0xC00] = ?T"
    using ptr_mget [of "0xC00" ptr 0 m ESP_PARTITION_TABLE_ADDR] ptr(2) by (simp add: part_consts)
  let ?bs = "fold note_partition (es @ es') initial_state"
  have "fold (\<lambda>i. note_partition (table_entry ?T i)) [0..<k] initial_state = ?bs"
    unfolding es [symmetric] fold_map comp_def ..
  then have run: "load_partition_table cache chip False initial_state = Some (True, ?bs, False)"
    using ptr(1) k by (simp add: load_partition_table_def T Let_def bootloader_munmap_def)
  note F = fold_note [of "es @ es'", unfolded Let_def]
  have no: "\<forall>e \<in> set es'. \<not> pi_is PART_TYPE_APP s e \<and> \<not> pi_is PART_TYPE_DATA s e" for s
    using none by (auto simp: pi_is_def)
  have any: "PART_SUBTYPE_DATA_OTA \<noteq> PART_SUBTYPE_ANY" by (simp add: part_consts)
  have "ota_info ?bs = \<lparr>pos_offset = p_address d, pos_size = p_size d\<rparr>"
    using F last_pos_unique [OF _ any, of PART_TYPE_DATA es d no_pos] uniq d ps(1) no
    by (simp add: last_pos_append_none unique_parts_def)
  moreover have "app_count ?bs = n"
  proof -
    have "filter pi_is_ota es' = []" using none by (auto simp: pi_is_ota_def filter_empty_conv)
    then have "length (filter pi_is_ota (es @ es')) = length (filter pi_is_ota es)" by simp
    also have "\<dots> = length (filter is_ota_partition ps)"
      by (simp add: ps filter_map comp_def is_ota_partition_def partition_of_def pi_is_ota_def [abs_def])
    also have "filter is_ota_partition ps = filter (\<lambda>p. p_type p = PART_TYPE_APP \<and> APP_OTA_MIN \<le> p_subtype p
        \<and> p_subtype p < APP_OTA_MIN + n) ps"
      using uniq cnt by (intro filter_cong) (auto simp: is_ota_partition_def unique_parts_def ota_count_def ota_consts)
    also have "length \<dots> = n" using count_filter [OF cnt, of n] uniq by (simp add: unique_parts_def)
    finally show ?thesis using F cnt by (simp add: ota_count_def)
  qed
  moreover have "ota ?bs ! j = \<lparr>pos_offset = p_address p, pos_size = p_size p\<rparr>"
    if "j < 16" "find (wanted PART_TYPE_APP (APP_OTA_MIN + j) None) ps = Some p" for j p
  proof -
    have "APP_OTA_MIN + j \<noteq> PART_SUBTYPE_ANY" using that by (simp add: part_consts ota_consts)
    then show ?thesis
      using F last_pos_unique [of PART_TYPE_APP "APP_OTA_MIN + j" es p no_pos] uniq that ps(1) no
      by (simp add: last_pos_append_none unique_parts_def boot_consts)
  qed
  ultimately show ?thesis using run by blast
qed

section \<open>The demonstration device\<close>

definition demo_cache :: "memory \<Rightarrow> cache" where
  "demo_cache m = (\<lambda>sub region a. m (region * 0x200000 + sub * 0x100000 + (a - CACHE_BASE)))"

lemma demo_cache_maps: "cache_maps (demo_cache m) m"
  by (simp add: cache_maps_def demo_cache_def)

lemma sure_erase:
  "\<lbrakk>SPI_FLASH_SEC_SIZE dvd a; a < 0x100000\<rbrakk> \<Longrightarrow> spi_flash_erase_range sure_rom c a SPI_FLASH_SEC_SIZE
     = (ESP_OK, c\<lparr>cells := erased (cells c) a SPI_FLASH_SEC_SIZE\<rparr>)"
  by (auto simp: spi_flash_erase_range_def flash_consts spi_flash_check_wr_protect_def erase_loop.simps
      spi_flash_erase_sector_def spi_flash_erase_sector_raw_def sure_rom_def sim_rom_def
      spi_flash_read_status_def special_flash_read_status_def Let_def elim!: dvdE)

lemma sure_read: "\<lbrakk>a mod 4 = 0; n mod 4 = 0; 0 < n\<rbrakk> \<Longrightarrow> spi_flash_read sure_rom c False a n = Inr (mget (cells c) a n)"
  by (simp add: spi_flash_read_def NOT_ALIGN_def flash_read_raw_def spi_flash_read_raw_def sure_rom_def sim_rom_def)

lemma sure_write:
  "\<lbrakk>a mod 256 = 0; length bs = 32; a + 32 \<le> 0x100000\<rbrakk> \<Longrightarrow> spi_flash_write sure_rom c False a (Some bs) 32
     = Some (ESP_OK, c\<lparr>cells := and_write (cells c) a bs\<rparr>)"
proof -
  assume a: "a mod 256 = 0" "length bs = 32" "a + 32 \<le> 0x100000"
  have "a mod 256 mod 4 = a mod 4" by (rule mod_mod_cancel) simp
  then have "a mod 4 = 0" using a(1) by simp
  then show ?thesis using a
    by (simp add: spi_flash_write_def spi_flash_check_wr_protect_def spi_flash_program_def NOT_ALIGN_def
        spi_flash_write_raw_def sure_rom_def sim_rom_def flash_consts spi_flash_read_status_def
        special_flash_read_status_def Let_def)
qed

lemma demo_set_boot_any:
  fixes env :: "sim_flash ota_env"
  assumes rom: "chip_rom env = sure_rom" and img: "image_load env (flash demo_ota_state) 0x11000 0x1000 = Some (Some entry)"
  shows "\<exists>st'. esp_ota_set_boot_partition env demo_ota_state (Some demo_ota1) = Some (ESP_OK, st')"
proof -
  let ?a = "record_at (cells (flash demo_ota_state)) demo_ota_data 0"
  let ?b = "record_at (cells (flash demo_ota_state)) demo_ota_data 1"
  have d: "p_address demo_ota_data = 0xD000" "p_size demo_ota_data = 0x2000" by (simp_all add: demo_parts)
  have "ota_count (plist demo_ota_state) 2" using demo_ready_any [OF rom] by (simp add: ota_ready_def)
  then have cnt: "get_ota_partition_count env demo_ota_state = Some (2, demo_ota_state)"
    by (rule count_eq [OF demo_plist(2)])
  have fd: "find (wanted PART_TYPE_DATA PART_SUBTYPE_DATA_OTA None) (plist demo_ota_state) = Some demo_ota_data"
    using demo_ready_any [OF rom] by (simp add: ota_ready_def)
  let ?st = "demo_ota_state\<lparr>select0 := ?a, select1 := ?b\<rparr>"
  have rd: "read_selects env demo_ota_state demo_ota_data = (None, ?st)"
    unfolding read_selects_def rom d record_at_def by (simp add: sure_read SELECT_SIZE_def flash_consts)
  have va: "ota_select_valid ?a" "ota_seq ?a = 1" "\<not> ota_select_valid ?b"
  proof -
    show "ota_select_valid ?a" "ota_seq ?a = 1"
      unfolding demo_records(1) by (simp_all add: demo_select_def UINT32_MAX_def)
    show "\<not> ota_select_valid ?b" using demo_records(2) by (simp add: ota_select_valid_def del: One_nat_def)
  qed
  have lp: "seq_loop 1 0 2 0 = Some 2" by (simp add: seq_loop.simps)
  have lb: "length (seq_label ?b) = 24" by simp
  let ?s = "sealed 2 ?b"
  have "esp_rewrite_ota_data env demo_ota_state 0x11 = rewrite_ota_seq env ?st 2 1 demo_ota_data"
    using va lp by (simp add: esp_rewrite_ota_data_def find_first_parts parts_nonempty [OF demo_plist(2)] fd cnt rd
        SUB_TYPE_ID_def Let_def del: One_nat_def)
  also have "\<exists>st'. rewrite_ota_seq env ?st 2 1 demo_ota_data = Some (ESP_OK, st')"
  proof -
    have len: "length (select_bytes ?s) = 32" using lb by (simp add: SELECT_SIZE_def)
    have er: "esp_partition_erase_range sure_rom c demo_ota_data 0x1000 0x1000
        = (ESP_OK, c\<lparr>cells := erased (cells c) 0xE000 0x1000\<rparr>)" for c
      using sure_erase [of "0xE000" c]
      by (simp add: esp_partition_erase_range_def part_range_err_def d flash_consts)
    have wr: "esp_partition_write sure_rom c demo_ota_data False 0x1000 (Some (select_bytes ?s)) 32
        = Some (ESP_OK, c\<lparr>cells := and_write (cells c) 0xE000 (select_bytes ?s)\<rparr>)" for c
      using sure_write [of "0xE000", OF _ len, of c]
      by (simp add: esp_partition_write_def part_range_err_def d)
    have "?b\<lparr>ota_seq := 2, sel_crc := ota_select_crc (?b\<lparr>ota_seq := 2\<rparr>)\<rparr> = ?s"
      by (simp add: sealed_def ota_select_crc_def)
    then show ?thesis
      using er wr by (simp add: rewrite_ota_seq_def get_select_def set_select_def rom flash_consts SELECT_SIZE_def Let_def)
  qed
  finally have "\<exists>st'. esp_rewrite_ota_data env demo_ota_state 0x11 = Some (ESP_OK, st')" .
  moreover have "esp_ota_set_boot_partition env demo_ota_state (Some demo_ota1) = esp_rewrite_ota_data env demo_ota_state 0x11"
  proof -
    have "image_load env (flash demo_ota_state) (p_address demo_ota1) (p_size demo_ota1) = Some (Some entry)"
      using img by (simp add: demo_ota1_def)
    then have "esp_ota_set_boot_partition env demo_ota_state (Some demo_ota1)
        = esp_rewrite_ota_data env demo_ota_state (p_subtype demo_ota1)"
      using demo_types fd by (simp add: esp_ota_set_boot_partition_def find_first_parts parts_nonempty [OF demo_plist(2)])
    then show ?thesis by (simp add: demo_ota1_def)
  qed
  ultimately show ?thesis by simp
qed

lemma demo_set_boot:
  "\<exists>st'. esp_ota_set_boot_partition demo_env demo_ota_state (Some demo_ota1) = Some (ESP_OK, st')"
  by (rule demo_set_boot_any) (simp_all add: demo_env_def)

lemma mget_mcpy_sub: "i + n \<le> length bs \<Longrightarrow> mget (mcpy m a bs) (a + i) n = take n (drop i bs)"
  by (rule nth_equalityI) (auto simp: mcpy_def)

definition entry_info :: "partition \<Rightarrow> part_info" where
  "entry_info p = \<lparr>pi_magic = ESP_PARTITION_MAGIC, pi_type = p_type p, pi_subtype = p_subtype p,
     pi_offset = p_address p, pi_size = p_size p, pi_label = take 16 (p_label p @ replicate 16 0)\<rparr>"

lemma parse_entry:
  assumes "p_type p < 256" "p_subtype p < 256" "p_address p < 2 ^ 32" "p_size p < 2 ^ 32"
  shows "parse_info (entry_bytes p) = entry_info p"
proof -
  have "unat (word_of_nat n :: u8) = n" if "n < 256" for n
    using that by (simp add: unsigned_of_nat take_bit_nat_eq_self)
  moreover have "unat (word_of_nat n :: u32) = n" if "n < 2 ^ 32" for n
    using that by (simp add: unsigned_of_nat take_bit_nat_eq_self)
  ultimately show ?thesis using assms
    by (simp add: parse_info_def entry_bytes_def entry_info_def nat_le32_def part_consts)
qed

lemma demo_table_parts:
  "table_entry (mget (cells (flash demo_ota_state)) 0x8000 n) 0 = entry_info demo_ota_data"
  "table_entry (mget (cells (flash demo_ota_state)) 0x8000 n) 1 = entry_info demo_ota0"
  "table_entry (mget (cells (flash demo_ota_state)) 0x8000 n) 2 = entry_info demo_ota1"
  "table_entry (mget (cells (flash demo_ota_state)) 0x8000 n) 3 = parse_info (replicate 32 0xFF)"
  if "128 \<le> n" for n
proof -
  have l: "length (select_bytes demo_select) = 32" by (simp add: demo_select_def SELECT_SIZE_def)
  have m: "mget (cells (flash demo_ota_state)) (0x8000 + i) 32 = take 32 (drop i demo_table_bytes)" if "i + 32 \<le> 128" for i
  proof -
    have "mget (cells (flash demo_ota_state)) (0x8000 + i) 32
        = mget (mcpy (mcpy (\<lambda>_. 0xFF) 0x11000 tiny_image) 0x8000 demo_table_bytes) (0x8000 + i) 32"
      unfolding demo_ota_state_def using that l by (simp add: mem_simps)
    then show ?thesis using that by (simp add: mget_mcpy_sub)
  qed
  have e: "table_entry (mget (cells (flash demo_ota_state)) 0x8000 n) i = parse_info (take 32 (drop (i * 32) demo_table_bytes))"
    if "i < 4" for i
    using that \<open>128 \<le> n\<close> m [of "i * 32"] by (subst table_entry_mget) (simp_all add: INFO_SIZE_def)
  have p: "parse_info (entry_bytes demo_ota_data) = entry_info demo_ota_data"
    "parse_info (entry_bytes demo_ota0) = entry_info demo_ota0"
    "parse_info (entry_bytes demo_ota1) = entry_info demo_ota1"
    by (rule parse_entry; simp add: demo_parts)+
  show "table_entry (mget (cells (flash demo_ota_state)) 0x8000 n) 0 = entry_info demo_ota_data"
    using e [of 0] p by (simp add: demo_table_bytes_def)
  show "table_entry (mget (cells (flash demo_ota_state)) 0x8000 n) 1 = entry_info demo_ota0"
    using e [of 1] p by (simp add: demo_table_bytes_def)
  show "table_entry (mget (cells (flash demo_ota_state)) 0x8000 n) 2 = entry_info demo_ota1"
    using e [of 2] p by (simp add: demo_table_bytes_def)
  show "table_entry (mget (cells (flash demo_ota_state)) 0x8000 n) 3 = parse_info (replicate 32 0xFF)"
    using e [of 3] by (simp add: demo_table_bytes_def)
qed

lemma ff_entry: "pi_magic (parse_info (replicate 32 0xFF)) = 0xFFFF" "pi_type (parse_info (replicate 32 0xFF)) = 0xff"
  "pi_subtype (parse_info (replicate 32 0xFF)) = 0xff"
  by (simp_all add: parse_info_def)

lemma demo_boot_table: "boot_table (cells (flash demo_ota_state)) 0x100000 (plist demo_ota_state)"
proof -
  let ?M = "\<lambda>n. mget (cells (flash demo_ota_state)) 0x8000 n"
  note E = demo_table_parts [unfolded One_nat_def numeral_2_eq_2 numeral_3_eq_3]
  have lp: "load_loop (?M 0x1000) 0 (Suc (Suc (Suc (Suc k)))) = plist demo_ota_state" for k
    using E [of "0x1000"] ff_entry(1)
    by (simp add: Let_def demo_plist(1) entry_info_def partition_of_def c_string_def ESP_PARTITION_MAGIC_def demo_parts)
  have vf: "basic_verify_loop 0x100000 (?M 0xC00) 0 (Suc (Suc (Suc (Suc k)))) = (ESP_OK, 3)" for k
    using E [of "0xC00"] ff_entry
    by (simp add: Let_def entry_info_def ESP_PARTITION_MAGIC_def ESP_PARTITION_MAGIC_MD5_def demo_parts)
  have n: "SPI_FLASH_SEC_SIZE div INFO_SIZE = Suc (Suc (Suc (Suc 124)))"
    "ESP_PARTITION_TABLE_MAX_ENTRIES = Suc (Suc (Suc (Suc 92)))"
    by (simp_all add: flash_consts part_consts)
  have "pi_magic (table_entry (?M 0xC00) i) \<noteq> ESP_PARTITION_MAGIC_MD5" if "i < 3" for i
  proof -
    have "i = 0 \<or> i = 1 \<or> i = 2" using that by auto
    then show ?thesis using demo_table_parts [of "0xC00"]
      by (elim disjE) (simp_all add: entry_info_def part_consts)
  qed
  then show ?thesis using lp [of 124] vf [of 92] n
    unfolding boot_table_def Let_def esp_partition_table_basic_verify_def n
    by (simp add: ESP_PARTITION_TABLE_ADDR_def SPI_FLASH_SEC_SIZE_def)
qed

section \<open>Properties\<close>

lemma find_only: "\<lbrakk>length (filter P xs) \<le> 1; x \<in> set xs; P x\<rbrakk> \<Longrightarrow> find P xs = Some x"
proof (induction xs)
  case (Cons y ys)
  show ?case
  proof (cases "P y")
    case True
    then have "filter P ys = []" using Cons.prems(1) by simp
    then show ?thesis using True Cons.prems(2,3) by (auto simp: filter_empty_conv)
  next
    case False
    then show ?thesis using Cons by auto
  qed
qed simp

definition in_window :: "partition \<Rightarrow> bool" where
  "in_window d \<longleftrightarrow> 0x9000 \<le> p_address d \<and> p_address d < 0x800000 \<and> p_address d mod 0x100000 + 0x2000 \<le> 0x100000"

lemma selected_slot:
  assumes cache: "cache_maps cache m" and tbl: "boot_table m chip ps" and uniq: "unique_parts ps n"
    and cnt: "ota_count ps n" "0 < n"
    and d: "find (wanted PART_TYPE_DATA PART_SUBTYPE_DATA_OTA None) ps = Some d" "in_window d"
      "2 * SPI_FLASH_SEC_SIZE \<le> p_size d"
    and v: "boot_seq (record_at m d 0) (record_at m d 1) = Some v"
  shows "\<exists>bs q. load_partition_table cache chip False initial_state = Some (True, bs, False) \<and>
    get_selected_boot_partition cache False bs = Some (int (unat (v - 1) mod n), False) \<and>
    find (wanted PART_TYPE_APP (APP_OTA_MIN + unat (v - 1) mod n) None) ps = Some q \<and>
    index_to_partition bs (int (unat (v - 1) mod n)) = \<lparr>pos_offset = p_address q, pos_size = p_size q\<rparr>"
proof -
  let ?x = "unat (v - 1) mod n"
  obtain bs where bs: "load_partition_table cache chip False initial_state = Some (True, bs, False)"
    "ota_info bs = \<lparr>pos_offset = p_address d, pos_size = p_size d\<rparr>" "app_count bs = n"
    "\<forall>k<16. \<forall>p. find (wanted PART_TYPE_APP (APP_OTA_MIN + k) None) ps = Some p \<longrightarrow>
       ota bs ! k = \<lparr>pos_offset = p_address p, pos_size = p_size p\<rparr>"
    using load_table_ok [OF cache tbl uniq cnt(1) d(1)] by blast
  have x: "?x < n" "n \<le> 16" using cnt by (simp_all add: ota_count_def)
  then obtain q where q: "find (wanted PART_TYPE_APP (APP_OTA_MIN + ?x) None) ps = Some q"
    using cnt(1) by (auto simp: ota_count_def has_app_def)
  have "get_selected_boot_partition cache False bs = Some (int ?x, False)"
    using get_selected_ok [OF cache bs(2) _ _ _ d(3) v bs(3) cnt(2)] d(2) by (simp add: in_window_def)
  moreover have "index_to_partition bs (int ?x) = \<lparr>pos_offset = p_address q, pos_size = p_size q\<rparr>"
    using bs(3,4) x q by (simp add: index_to_partition_def boot_consts)
  ultimately show ?thesis using bs(1) q by blast
qed

text \<open>C8: The application and the bootloader agree: whenever a selection record is valid, the OTA
  index the bootloader computes from the flash names the position of the very partition that
  \<open>esp_ota_get_boot_partition\<close> returns.\<close>

theorem boot_selection_agrees:
  assumes "nor_chip (chip_rom env) view" and "ota_ready env view st d n" and "0 < n"
    and "boot_seq (record_at (view (flash st)) d 0) (record_at (view (flash st)) d 1) = Some v"
    and "read_selects env st d = (None, st1)"
    and "boot_table (view (flash st)) (chip_size (chip_rom env)) (plist st)" and "unique_parts (plist st) n"
    and "in_window d" and "cache_maps cache (view (flash st))"
  shows "\<exists>bs index q. load_partition_table cache (chip_size (chip_rom env)) False initial_state = Some (True, bs, False) \<and>
    get_selected_boot_partition cache False bs = Some (index, False) \<and>
    esp_ota_get_boot_partition env st = Some (Some q, st1) \<and>
    index_to_partition bs index = \<lparr>pos_offset = p_address q, pos_size = p_size q\<rparr>"
proof -
  have r: "plist st \<noteq> []" "find (wanted PART_TYPE_DATA PART_SUBTYPE_DATA_OTA None) (plist st) = Some d"
    "ota_data_ok env d" "ota_count (plist st) n" using assms(2) by (auto simp: ota_ready_def)
  then have sz: "2 * SPI_FLASH_SEC_SIZE \<le> p_size d" by (simp add: ota_data_ok_def)
  show ?thesis
    using selected_slot [OF assms(9,6,7) r(4) assms(3) r(2) assms(8) sz assms(4)]
      get_boot_ok [OF nor_flash_dev [OF assms(1)] r(3,1,2,4) assms(3,4,5)] by fastforce
qed

lemma demo_unique: "unique_parts (plist demo_ota_state) 2" "in_window demo_ota_data"
  by (auto simp: unique_parts_def demo_plist(1) wanted_def demo_parts part_consts ota_consts is_ota_partition_def
      in_window_def)

lemma demo_chip: "chip_size (chip_rom demo_env) = 0x100000"
  by (simp add: demo_env_def sure_rom_def sim_rom_def)

lemma boot_selection_agrees_witness:
  "\<exists>bs index q st1. load_partition_table (demo_cache (cells (flash demo_ota_state))) 0x100000 False initial_state
      = Some (True, bs, False) \<and>
    get_selected_boot_partition (demo_cache (cells (flash demo_ota_state))) False bs = Some (index, False) \<and>
    esp_ota_get_boot_partition demo_env demo_ota_state = Some (Some q, st1) \<and>
    index_to_partition bs index = \<lparr>pos_offset = p_address q, pos_size = p_size q\<rparr>"
proof -
  obtain st1 where rd: "read_selects demo_env demo_ota_state demo_ota_data = (None, st1)"
    by (simp add: read_selects_def demo_env_def demo_ota_data_def sure_read SELECT_SIZE_def)
  have "boot_table (cells (flash demo_ota_state)) (chip_size (chip_rom demo_env)) (plist demo_ota_state)"
    unfolding demo_chip by (rule demo_boot_table)
  from boot_selection_agrees [OF demo_nor demo_ready _ demo_boot_seq rd this demo_unique demo_cache_maps]
  show ?thesis unfolding demo_chip by simp blast
qed

text \<open>After a successful \<open>esp_ota_set_boot_partition\<close> of an OTA partition of the table, the bootloader,
  which reads the same flash through its cache window, selects the position of exactly this partition,
  provided its image loads.\<close>

lemma ota_boot_end_to_end:
  assumes "nor_chip (chip_rom env) view" and "ota_ready env view st d n"
    and "boot_table (view (flash st)) (chip_size (chip_rom env)) (plist st)" and "unique_parts (plist st) n"
    and "in_window d" and "p \<in> set (plist st)" and "is_ota_partition p"
    and "esp_ota_set_boot_partition env st (Some p) = Some (ESP_OK, st')"
    and "cache_maps cache (view (flash st'))"
    and "p_size p \<noteq> 0" and "loads \<lparr>pos_offset = p_address p, pos_size = p_size p\<rparr> = Some True"
  shows "select_image cache (chip_size (chip_rom env)) loads
    = Some (Some \<lparr>pos_offset = p_address p, pos_size = p_size p\<rparr>)"
proof -
  have r: "plist st \<noteq> []" "find (wanted PART_TYPE_DATA PART_SUBTYPE_DATA_OTA None) (plist st) = Some d"
    "ota_data_ok env d" "ota_count (plist st) n" using assms(2) by (auto simp: ota_ready_def)
  then have sz: "2 * SPI_FLASH_SEC_SIZE \<le> p_size d" by (simp add: ota_data_ok_def)
  let ?m = "view (flash st)" and ?m' = "view (flash st')" and ?x = "SUB_TYPE_ID (p_subtype p)"
  have p: "p_type p = PART_TYPE_APP" "p_subtype p \<noteq> PART_SUBTYPE_FACTORY"
    using assms(7) by (auto simp: is_ota_partition_def part_consts ota_consts)
  have sub: "p_subtype p = APP_OTA_MIN + ?x" "?x < 16"
  proof -
    have rng: "16 \<le> p_subtype p" "p_subtype p - 16 < 16"
      using assms(7) by (auto simp: is_ota_partition_def ota_consts)
    then show "p_subtype p = APP_OTA_MIN + ?x" by (simp add: SUB_TYPE_ID_def ota_consts le_mod_geq)
  qed (simp add: SUB_TYPE_ID_def)
  obtain v where fr: "\<forall>y. y < p_address d \<longrightarrow> ?m' y = ?m y" and xn: "?x < n"
    and v: "boot_seq (record_at ?m' d 0) (record_at ?m' d 1) = Some v" "unat (v - 1) mod n = ?x"
    using set_boot_run [OF assms(1,2) p set_boot_returns [of env st p]] assms(8) by auto
  have low: "mget ?m' ESP_PARTITION_TABLE_ADDR k = mget ?m ESP_PARTITION_TABLE_ADDR k" if "k \<le> 0x1000" for k
    using fr assms(5) that by (intro mget_cong) (simp add: in_window_def part_consts)
  have tbl: "boot_table ?m' (chip_size (chip_rom env)) (plist st)"
    using assms(3) low by (simp add: boot_table_def flash_consts)
  have q: "find (wanted PART_TYPE_APP (APP_OTA_MIN + ?x) None) (plist st) = Some p"
    using assms(4,6) sub p(1) by (intro find_only) (auto simp: unique_parts_def wanted_def)
  have "0 < n" using xn by simp
  from selected_slot [OF assms(9) tbl assms(4) r(4) this r(2) assms(5) sz v(1), unfolded v(2) q]
  obtain bs where bs: "load_partition_table cache (chip_size (chip_rom env)) False initial_state = Some (True, bs, False)"
    "get_selected_boot_partition cache False bs = Some (int ?x, False)"
    "index_to_partition bs (int ?x) = \<lparr>pos_offset = p_address p, pos_size = p_size p\<rparr>" by auto
  have "rev [FACTORY_INDEX..int ?x] = int ?x # rev [FACTORY_INDEX..int ?x - 1]"
    by (subst upto_rec2) (simp_all add: boot_consts)
  then have "load_boot_image loads bs (int ?x) = Some (Some \<lparr>pos_offset = p_address p, pos_size = p_size p\<rparr>)"
    using bs(3) assms(10,11)
    by (simp add: load_boot_image_def try_load_partition_def TEST_APP_INDEX_def)
  then show ?thesis using bs(1,2) by (simp add: select_image_def INVALID_INDEX_def)
qed

lemma ota_boot_end_to_end_witness:
  "\<exists>st'. esp_ota_set_boot_partition demo_env demo_ota_state (Some demo_ota1) = Some (ESP_OK, st') \<and>
    select_image (demo_cache (cells (flash st'))) 0x100000 (\<lambda>_. Some True)
      = Some (Some \<lparr>pos_offset = 0x11000, pos_size = 0x1000\<rparr>)"
proof -
  obtain st' where run: "esp_ota_set_boot_partition demo_env demo_ota_state (Some demo_ota1) = Some (ESP_OK, st')"
    using demo_set_boot by blast
  have "boot_table (cells (flash demo_ota_state)) (chip_size (chip_rom demo_env)) (plist demo_ota_state)"
    unfolding demo_chip by (rule demo_boot_table)
  moreover have "demo_ota1 \<in> set (plist demo_ota_state)" by (simp add: demo_plist(1))
  moreover have "is_ota_partition demo_ota1"
    by (simp add: is_ota_partition_def demo_parts part_consts ota_consts)
  ultimately have "select_image (demo_cache (cells (flash st'))) (chip_size (chip_rom demo_env)) (\<lambda>_. Some True)
      = Some (Some \<lparr>pos_offset = p_address demo_ota1, pos_size = p_size demo_ota1\<rparr>)"
    using ota_boot_end_to_end [OF demo_nor demo_ready _ demo_unique _ _ run demo_cache_maps, of "\<lambda>_. Some True"]
    by (simp add: demo_ota1_def)
  then show ?thesis using run by (simp add: demo_chip demo_ota1_def)
qed

end
