(* ===== verification/Hash.thy ===== *)
theory Hash
  imports Prelude
begin

text \<open>
  What the four digests of \<open>components/util/src\<close> (\<open>sha1.c\<close>, \<open>sha256.c\<close>, \<open>sha512.c\<close>, \<open>md5.c\<close>) have in
  common.  Each keeps a chaining state, a buffer of one block and a count of the bytes seen; \<open>_update\<close>
  completes the buffered block, compresses whole blocks straight from the input and buffers the rest;
  \<open>_finish\<close> appends 0x80, zeros and the length.  The locale \<open>digest\<close> states that contract over an
  abstract context and proves once that a digest computed piecewise is the digest of the concatenation;
  every digest of the library is an interpretation of it.
\<close>

section \<open>Blocks\<close>

definition blocks :: "nat \<Rightarrow> 'a list \<Rightarrow> 'a list list" where
  "blocks B xs = map (\<lambda>i. take B (drop (i * B) xs)) [0..<length xs div B]"

lemma blocks_short [simp]: "length xs < B \<Longrightarrow> blocks B xs = []"
  by (simp add: blocks_def)

lemma blocks_append:
  assumes "length xs = B * n" "0 < B"
  shows "blocks B (xs @ ys) = blocks B xs @ blocks B ys"
proof (rule nth_equalityI)
  show "length (blocks B (xs @ ys)) = length (blocks B xs @ blocks B ys)"
    using assms by (simp add: blocks_def)
next
  fix i assume i: "i < length (blocks B (xs @ ys))"
  have len: "length (blocks B xs) = n" "length (blocks B ys) = length ys div B"
    using assms by (simp_all add: blocks_def)
  have i': "i < n + length ys div B" using i assms by (simp add: blocks_def)
  show "blocks B (xs @ ys) ! i = (blocks B xs @ blocks B ys) ! i"
  proof (cases "i < n")
    case True
    then have "(i + 1) * B \<le> n * B" by (intro mult_le_mono1) simp
    then have "i * B + B \<le> length xs" using assms by (simp add: algebra_simps)
    then show ?thesis using True len i i' assms by (simp add: blocks_def nth_append)
  next
    case False
    then obtain k where k: "i = n + k" by (metis le_Suc_ex not_less)
    then have "i * B = length xs + k * B" using assms by (simp add: algebra_simps)
    then show ?thesis using False k len i i' assms by (simp add: blocks_def nth_append)
  qed
qed

lemma blocks_single: "length xs = B \<Longrightarrow> 0 < B \<Longrightarrow> blocks B xs = [xs]"
  by (simp add: blocks_def)

lemma blocks_step: "0 < B \<Longrightarrow> B \<le> length xs \<Longrightarrow> blocks B xs = take B xs # blocks B (drop B xs)"
  using blocks_append [of "take B xs" B 1 "drop B xs"] by (simp add: blocks_single)

lemma blocks_length:
  assumes "b \<in> set (blocks B xs)"
  shows "length b = B"
proof -
  obtain i where i: "i < length xs div B" "b = take B (drop (i * B) xs)"
    using assms by (auto simp: blocks_def)
  have "(i + 1) * B \<le> length xs div B * B" using i(1) by (intro mult_le_mono1) simp
  also have "\<dots> \<le> length xs" by simp
  finally show ?thesis using i(2) by simp
qed

section \<open>Absorbing\<close>

text \<open>The specification of one update: \<open>p\<close> are the bytes waiting for their block.\<close>

definition absorb :: "nat \<Rightarrow> ('s \<Rightarrow> 'a list \<Rightarrow> 's) \<Rightarrow> 's \<times> 'a list \<Rightarrow> 'a list \<Rightarrow> 's \<times> 'a list" where
  "absorb B tf sp xs =
     (let ys = snd sp @ xs; k = length ys div B * B in
      (foldl tf (fst sp) (blocks B (take k ys)), drop k ys))"

lemma absorb_append:
  assumes "0 < B"
  shows "absorb B tf sp (xs @ ys) = absorb B tf (absorb B tf sp xs) ys"
proof -
  obtain s p where sp: "sp = (s, p)" by (cases sp)
  let ?a = "p @ xs" and ?k = "length (p @ xs) div B * B"
  let ?d = "drop ?k ?a @ ys"
  define l where "l = length ?d div B * B"
  have le: "?k \<le> length ?a" by (rule div_times_less_eq_dividend)
  have tot: "length (?a @ ys) div B * B = ?k + l"
  proof -
    have "length (?a @ ys) = length ?d + ?k" using le by (simp only: length_append length_drop)
    then have "length (?a @ ys) div B = length ?d div B + length ?a div B"
      using assms by (metis div_mult_self1 add.commute not_less_zero)
    then show ?thesis by (simp only: l_def add_mult_distrib)
  qed
  have d: "drop ?k (?a @ ys) = ?d" and t: "take ?k (?a @ ys) = take ?k ?a"
    using le by (simp_all only: drop_append take_append diff_is_0_eq' drop_0 take_0 append_Nil2)
  have tk: "take (?k + l) (?a @ ys) = take ?k ?a @ take l ?d" by (simp only: take_add d t)
  have dr: "drop (?k + l) (?a @ ys) = drop l ?d" by (simp only: d [symmetric] drop_drop add.commute)
  have "length (take ?k ?a) = B * (length ?a div B)"
    using le by (simp only: length_take min.absorb2 mult.commute)
  then have "blocks B (take (?k + l) (?a @ ys)) = blocks B (take ?k ?a) @ blocks B (take l ?d)"
    unfolding tk using assms by (rule blocks_append)
  then show ?thesis
    unfolding sp absorb_def Let_def fst_conv snd_conv append_assoc [symmetric] tot dr l_def [symmetric]
    by simp
qed

lemma absorb_Nil: "length p < B \<Longrightarrow> absorb B tf (s, p) [] = (s, p)"
  by (simp add: absorb_def)

lemma absorb_whole:
  assumes "length (snd sp @ xs) = B * n" "0 < B"
  shows "absorb B tf sp xs = (foldl tf (fst sp) (blocks B (snd sp @ xs)), [])"
proof -
  have k: "length (snd sp @ xs) div B * B = length (snd sp @ xs)" unfolding assms(1) using assms(2) by simp
  show ?thesis unfolding absorb_def Let_def k by simp
qed

lemma length_absorb: "0 < B \<Longrightarrow> length (snd (absorb B tf sp xs)) = (length (snd sp) + length xs) mod B"
  by (simp add: absorb_def Let_def minus_div_mult_eq_mod del: drop_append)

section \<open>The buffering code\<close>

text \<open>\<open>memcpy\<close> of \<open>xs\<close> into a buffer at an offset.\<close>

definition overwrite :: "'a list \<Rightarrow> nat \<Rightarrow> 'a list \<Rightarrow> 'a list" where
  "overwrite buf at xs = take at buf @ xs @ drop (at + length xs) buf"

lemma length_overwrite [simp]: "at + length xs \<le> length buf \<Longrightarrow> length (overwrite buf at xs) = length buf"
  by (simp add: overwrite_def)

lemma take_overwrite: "at \<le> length buf \<Longrightarrow> take (at + length xs) (overwrite buf at xs) = take at buf @ xs"
  by (simp add: overwrite_def)

text \<open>The loop \<open>while (size >= B) { transform(ctx, input); input += B; size -= B; }\<close>.\<close>

function whole_blocks :: "nat \<Rightarrow> ('s \<Rightarrow> 'a list \<Rightarrow> 's) \<Rightarrow> 's \<Rightarrow> 'a list \<Rightarrow> 's \<times> 'a list" where
  "whole_blocks B tf s input =
     (if B \<le> length input \<and> 0 < B then whole_blocks B tf (tf s (take B input)) (drop B input) else (s, input))"
  by auto
termination by (relation "measure (\<lambda>(B, tf, s, input). length input)") auto

declare whole_blocks.simps [simp del]

lemma whole_blocks_absorb: "0 < B \<Longrightarrow> whole_blocks B tf s xs = absorb B tf (s, []) xs"
proof (induction B tf s xs rule: whole_blocks.induct)
  case (1 B tf s input)
  show ?case
  proof (cases "B \<le> length input")
    case True
    have "absorb B tf (s, []) (take B input @ drop B input) = absorb B tf (tf s (take B input), []) (drop B input)"
      using True 1 by (subst absorb_append, simp, subst absorb_whole [where n = 1]) (simp_all add: blocks_single)
    then show ?thesis using True 1 by (subst whole_blocks.simps) simp
  next
    case False
    then show ?thesis by (subst whole_blocks.simps) (simp add: absorb_Nil absorb_def)
  qed
qed

text \<open>The statements of \<open>esp_sha256_update\<close>, \<open>esp_sha512_update\<close> and \<open>esp_md5_update\<close> after the count:
  the result is the chaining state and the buffer.\<close>

definition feed :: "nat \<Rightarrow> ('s \<Rightarrow> 'a list \<Rightarrow> 's) \<Rightarrow> 's \<Rightarrow> 'a list \<Rightarrow> nat \<Rightarrow> 'a list \<Rightarrow> 's \<times> 'a list" where
  "feed B tf s buf left input =
     (let fill = B - left;
          full = (left \<noteq> 0 \<and> fill \<le> length input);
          buf1 = (if full then overwrite buf left (take fill input) else buf);
          s1 = (if full then tf s buf1 else s);
          input1 = (if full then drop fill input else input);
          left1 = (if full then 0 else left);
          (s2, input2) = whole_blocks B tf s1 input1 in
      (s2, if length input2 > 0 then overwrite buf1 left1 input2 else buf1))"

lemma feed_absorb:
  assumes "left < B" "length buf = B"
  shows "feed B tf s buf left xs = (fst (absorb B tf (s, take left buf) xs), snd (feed B tf s buf left xs)) \<and>
    take ((left + length xs) mod B) (snd (feed B tf s buf left xs)) = snd (absorb B tf (s, take left buf) xs) \<and>
    length (snd (feed B tf s buf left xs)) = B"
proof -
  have B: "0 < B" using assms(1) by simp
  show ?thesis
  proof (cases "left \<noteq> 0 \<and> B - left \<le> length xs")
    case True
    define ov where "ov = overwrite buf left (take (B - left) xs)"
    have ov: "ov = take left buf @ take (B - left) xs" "length ov = B"
      using assms True by (simp_all add: ov_def overwrite_def)
    have one: "absorb B tf (s, take left buf) xs = absorb B tf (tf s ov, []) (drop (B - left) xs)"
    proof -
      have "absorb B tf (s, take left buf) (take (B - left) xs @ drop (B - left) xs)
          = absorb B tf (tf s ov, []) (drop (B - left) xs)"
        using True ov B by (subst absorb_append, simp, subst absorb_whole [where n = 1]) (simp_all add: blocks_single)
      then show ?thesis by simp
    qed
    define r where "r = absorb B tf (tf s ov, []) (drop (B - left) xs)"
    have lr: "length (snd r) = (left + length xs) mod B"
      using one length_absorb [OF B, of tf "(s, take left buf)" xs] assms by (simp add: r_def)
    have f: "feed B tf s buf left xs = (fst r, if length (snd r) > 0 then overwrite ov 0 (snd r) else ov)"
      using True B by (simp add: feed_def Let_def ov_def [symmetric] whole_blocks_absorb r_def case_prod_beta)
    have lt: "length (snd r) < B" using lr B by simp
    show ?thesis unfolding f one r_def [symmetric] lr [symmetric]
      using ov(2) lt by (auto simp: overwrite_def)
  next
    case False
    show ?thesis
    proof (cases "left = 0")
      case True
      define r where "r = absorb B tf (s, []) xs"
      have lr: "length (snd r) = (left + length xs) mod B"
        using length_absorb [OF B, of tf "(s, [])" xs] True by (simp add: r_def)
      have f: "feed B tf s buf left xs = (fst r, if length (snd r) > 0 then overwrite buf 0 (snd r) else buf)"
        using True B by (simp add: feed_def Let_def whole_blocks_absorb r_def case_prod_beta)
      have lt: "length (snd r) < B" using lr B by simp
      have r': "absorb B tf (s, take left buf) xs = r" using True by (simp add: r_def)
      show ?thesis unfolding f r' lr [symmetric] using assms(2) lt by (auto simp: overwrite_def)
    next
      case l: False
      then have lx: "left + length xs < B" using False assms(1) by linarith
      have wb: "whole_blocks B tf s xs = (s, xs)" using lx by (subst whole_blocks.simps) simp
      have f: "feed B tf s buf left xs = (s, if length xs > 0 then overwrite buf left xs else buf)"
        using False l wb assms(1) by (simp add: feed_def Let_def)
      have a: "absorb B tf (s, take left buf) xs = (s, take left buf @ xs)"
        using lx assms by (simp add: absorb_def)
      show ?thesis unfolding f a using assms lx by (cases "xs = []") (auto simp: take_overwrite)
    qed
  qed
qed

section \<open>Rotating roles\<close>

text \<open>An unrolled round renames its variables instead of moving them: in call \<open>n\<close> variable \<open>k\<close> is stored
  at position \<open>k - n\<close> modulo the number \<open>m\<close> of variables; \<open>m * c\<close> is the number of calls.\<close>

lemma role_index:
  assumes "n \<le> m * c" "k < m"
  shows "(n + (k + m * c - n) mod m) mod m = (k :: nat)"
proof -
  have "(n + (k + m * c - n) mod m) mod m = (n + (k + m * c - n)) mod m" by (rule mod_add_right_eq)
  also have "n + (k + m * c - n) = k + m * c" using assms by simp
  finally show ?thesis using assms(2) by simp
qed

lemma role_nth:
  assumes "n \<le> m * c" "k < m" "length xs = m"
  shows "rotate n xs ! ((k + m * c - n) mod m) = xs ! k"
  using role_index [OF assms(1,2)] assms by (simp add: nth_rotate)

lemma role_update:
  assumes "n \<le> m * c" "k < m" "length xs = m"
  shows "(rotate n xs)[(k + m * c - n) mod m := x] = rotate n (xs[k := x])"
proof (rule nth_equalityI)
  fix j assume "j < length ((rotate n xs)[(k + m * c - n) mod m := x])"
  then have j: "j < m" using assms by simp
  let ?p = "(k + m * c - n) mod m"
  have p: "?p < m" using assms(2) by simp
  have iff: "?p = j \<longleftrightarrow> k = (n + j) mod m"
  proof
    assume "?p = j"
    then show "k = (n + j) mod m" using role_index [OF assms(1,2)] by simp
  next
    assume "k = (n + j) mod m"
    then have "(n + ?p) mod m = (n + j) mod m" using role_index [OF assms(1,2)] by simp
    then have "?p mod m = j mod m" by (simp only: nat_mod_eq_iff) (metis add_left_cancel group_cancel.add1 add.assoc)
    then show "?p = j" using p j by simp
  qed
  show "(rotate n xs)[?p := x] ! j = rotate n (xs[k := x]) ! j"
    using j p assms by (simp add: nth_rotate nth_list_update iff)
qed (use assms in simp)

section \<open>Big-endian words\<close>

definition be32 :: "u32 \<Rightarrow> u8 list" where
  "be32 w = [ucast (drop_bit 24 w), ucast (drop_bit 16 w), ucast (drop_bit 8 w), ucast w]"

definition of_be32 :: "u8 list \<Rightarrow> u32" where
  "of_be32 bs = push_bit 24 (ucast (bs ! 0)) OR push_bit 16 (ucast (bs ! 1))
     OR push_bit 8 (ucast (bs ! 2)) OR ucast (bs ! 3)"

lemma length_be32 [simp]: "length (be32 w) = 4"
  by (simp add: be32_def)

text \<open>A rotation written with shifts.\<close>

lemma shifts_rotr:
  assumes "0 < y" "y < LENGTH('a::len)"
  shows "drop_bit y x OR push_bit (LENGTH('a) - y) x = word_rotr y (x :: 'a word)"
proof (rule bit_word_eqI)
  fix n assume n: "n < LENGTH('a)"
  show "bit (drop_bit y x OR push_bit (LENGTH('a) - y) x) n \<longleftrightarrow> bit (word_rotr y x) n"
  proof (cases "n + y < LENGTH('a)")
    case True
    then show ?thesis using n assms by (auto simp: bit_simps bit_word_rotr_iff add.commute)
  next
    case False
    then have "(n + y) mod LENGTH('a) = n + y - LENGTH('a)" using n assms by (simp add: le_mod_geq)
    moreover have "n - (LENGTH('a) - y) = n + y - LENGTH('a)" using False assms by linarith
    moreover have "\<not> bit x (y + n)" using False bit_imp_le_length [of x "y + n"] by linarith
    ultimately show ?thesis using n assms False by (auto simp: bit_simps bit_word_rotr_iff)
  qed
qed

section \<open>Padding\<close>

text \<open>The length in bits as \<open>k\<close> bytes, most significant first.\<close>

definition be_length :: "nat \<Rightarrow> nat \<Rightarrow> u8 list" where
  "be_length k n = map (\<lambda>i. of_nat (8 * n div 256 ^ i)) (rev [0..<k])"

lemma length_be_length [simp]: "length (be_length k n) = k"
  by (simp add: be_length_def)

lemma of_nat_div_mod:
  assumes "2 ^ LENGTH('a::len) dvd M"
  shows "of_nat (n mod M) = (of_nat n :: 'a word)"
  using assms by (simp add: word_of_nat_eq_iff take_bit_eq_mod mod_mod_cancel)

lemma be_length_mod:
  assumes "8 * w = 256 ^ k" shows "be_length k (n mod w) = be_length k n"
proof -
  have "of_nat (8 * (n mod w) div 256 ^ i) = (of_nat (8 * n div 256 ^ i) :: u8)" if "i < k" for i
  proof -
    have k: "(256 :: nat) ^ k = 256 ^ i * 256 ^ (k - i)" using that by (simp flip: power_add)
    have "8 * (n mod w) = 8 * n mod 256 ^ k" unfolding assms [symmetric] by (rule mult_mod_right)
    also have "\<dots> div 256 ^ i = 8 * n div 256 ^ i mod 256 ^ (k - i)" unfolding k by (simp add: mod_mult2_eq)
    finally have e: "8 * (n mod w) div 256 ^ i = 8 * n div 256 ^ i mod 256 ^ (k - i)" .
    have "(256 :: nat) dvd 256 ^ (k - i)" using that by (intro dvd_power) auto
    then show ?thesis unfolding e by (intro of_nat_div_mod) simp
  qed
  then show ?thesis by (auto simp: be_length_def)
qed

lemma ucast_drop_of_nat:
  "k \<le> 24 \<Longrightarrow> ucast (drop_bit k (of_nat m :: u32)) = (of_nat (m div 2 ^ k) :: u8)"
  unfolding drop_bit_eq_div [symmetric]
  by (rule bit_word_eqI) (auto simp: bit_simps)

lemma be_length_8: "be_length 8 n = be32 (of_nat (8 * n div 2 ^ 32)) @ be32 (of_nat (8 * n))"
proof -
  let ?m = "8 * n"
  have d: "?m div 2 ^ 32 div 2 ^ k = ?m div 2 ^ (32 + k)" for k
    by (simp only: power_add div_mult2_eq)
  have u0: "ucast (of_nat m :: u32) = (of_nat m :: u8)" for m
    using ucast_drop_of_nat [of 0 m] by simp
  have r: "rev [0..<8] = [7, 6, 5, 4, 3, 2, 1, 0 :: nat]" by (simp add: upt_rec)
  have p: "(256 :: nat) ^ i = 2 ^ (8 * i)" for i by (simp add: power_mult)
  have b: "be_length 8 n = map (\<lambda>i. of_nat (?m div 2 ^ (8 * i))) [7, 6, 5, 4, 3, 2, 1, 0]"
    unfolding be_length_def r p by (rule refl)
  have "map (\<lambda>i. of_nat (?m div 2 ^ (8 * i)) :: u8) [7, 6, 5, 4, 3, 2, 1, 0] =
    [of_nat (?m div 2 ^ (32 + 24)), of_nat (?m div 2 ^ (32 + 16)), of_nat (?m div 2 ^ (32 + 8)),
     of_nat (?m div 2 ^ (32 + 0)), of_nat (?m div 2 ^ 24), of_nat (?m div 2 ^ 16), of_nat (?m div 2 ^ 8),
     of_nat ?m]" by simp
  also have "\<dots> = be32 (of_nat (?m div 2 ^ 32)) @ be32 (of_nat ?m)"
    unfolding be32_def d [symmetric] by (simp only: ucast_drop_of_nat u0) simp
  finally show ?thesis unfolding b .
qed

text \<open>The padded message of FIPS 180-4 and RFC 1321: a one bit, zeros up to the length field, the
  length.\<close>

definition md_pad :: "nat \<Rightarrow> (nat \<Rightarrow> u8 list) \<Rightarrow> nat \<Rightarrow> u8 list" where
  "md_pad B lenf n =
     [0x80] @ replicate (nat ((int (B - length (lenf n)) - 1 - int n) mod int B)) 0 @ lenf n"

lemma md_pad_length:
  assumes "length (lenf n) < B"
  shows "B dvd n + length (md_pad B lenf n)"
proof -
  let ?z = "(int (B - length (lenf n)) - 1 - int n) mod int B"
  have z: "0 \<le> ?z" using assms by simp
  have "int (n + length (md_pad B lenf n)) = int n + 1 + ?z + int (length (lenf n))"
    using z by (simp add: md_pad_def)
  also have "\<dots> mod int B = (int n + 1 + (int (B - length (lenf n)) - 1 - int n) + int (length (lenf n))) mod int B"
    by (metis mod_add_left_eq mod_add_right_eq)
  also have "\<dots> = 0" using assms by (simp add: of_nat_diff)
  finally have "int (n + length (md_pad B lenf n)) mod int B = 0" .
  then show ?thesis by (metis mod_0_imp_dvd of_nat_dvd_iff)
qed

text \<open>The statements of \<open>esp_sha224_finish\<close> and \<open>esp_sha384_finish\<close> up to the last compression;
  \<open>L\<close> is the number of bytes of the length field.\<close>

definition pad_finish :: "nat \<Rightarrow> nat \<Rightarrow> ('s \<Rightarrow> u8 list \<Rightarrow> 's) \<Rightarrow> 's \<Rightarrow> u8 list \<Rightarrow> nat \<Rightarrow> u8 list \<Rightarrow> 's" where
  "pad_finish B L tf s buf used lenbytes =
     (let buf = overwrite buf used [0x80];
          used = used + 1;
          (s, buf) =
            (if used \<le> B - L then (s, overwrite buf used (replicate (B - L - used) 0))
             else (let buf = overwrite buf used (replicate (B - used) 0) in
               (tf s buf, overwrite buf 0 (replicate (B - L) 0))));
          buf = overwrite buf (B - L) lenbytes in
      tf s buf)"

lemma zeros_mod:
  assumes "L < B" "used = n mod B"
  shows "nat ((int (B - L) - 1 - int n) mod int B) =
    (if used + 1 \<le> B - L then B - L - (used + 1) else B - (used + 1) + (B - L))"
proof -
  have u: "used < B" using assms by simp
  have "(int (B - L) - 1 - int n) mod int B = (int (B - L) - 1 - int used) mod int B"
    unfolding assms(2) of_nat_mod by (rule mod_diff_right_eq [symmetric])
  moreover have "(int (B - L) - 1 - int used) mod int B = int (B - L) - 1 - int used" if "used + 1 \<le> B - L"
    using that by (intro mod_pos_pos_trivial) auto
  moreover have "(int (B - L) - 1 - int used) mod int B = int (B - L) - 1 - int used + int B" if "\<not> used + 1 \<le> B - L"
  proof -
    have "(int (B - L) - 1 - int used + int B) mod int B = int (B - L) - 1 - int used + int B"
      using that u assms(1) by (intro mod_pos_pos_trivial) auto
    then show ?thesis by simp
  qed
  ultimately show ?thesis using u assms(1) by (auto simp: of_nat_diff)
qed

lemma pad_finish_blocks:
  assumes "L < B" "length buf = B" "length (lenf n) = L" "used = n mod B"
  shows "pad_finish B L tf s buf used (lenf n) = foldl tf s (blocks B (take used buf @ md_pad B lenf n))"
proof -
  have u: "used < B" and B: "0 < B" using assms by simp_all
  define p where "p = take used buf @ [0x80]"
  have lp: "length p = used + 1" using u assms(2) by (simp add: p_def)
  have tp: "take (used + 1) (overwrite buf used [0x80]) = p" "length (overwrite buf used [0x80]) = B"
    using u assms(2) by (simp_all add: p_def overwrite_def)
  have ov: "overwrite (overwrite buf used [0x80]) (used + 1) z = p @ z @ drop (used + 1 + length z) (overwrite buf used [0x80])"
    for z unfolding overwrite_def [of "overwrite buf used [0x80]"] tp(1) by simp
  show ?thesis
  proof (cases "used + 1 \<le> B - L")
    case True
    let ?z = "replicate (B - L - (used + 1)) (0 :: u8)"
    let ?b = "overwrite (overwrite buf used [0x80]) (used + 1) ?z"
    have tb: "take (B - L) ?b = p @ ?z" "length ?b = B"
      unfolding ov using True lp tp(2) by simp_all
    have l: "overwrite ?b (B - L) (lenf n) = p @ ?z @ lenf n"
      unfolding overwrite_def [of ?b] tb(1) using tb(2) assms(1,3) by simp
    have m: "take used buf @ md_pad B lenf n = p @ ?z @ lenf n"
      unfolding md_pad_def assms(3) zeros_mod [OF assms(1,4)] using True by (simp add: p_def)
    have len: "length (p @ ?z @ lenf n) = B" using True lp assms(1,3) by simp
    show ?thesis unfolding pad_finish_def Let_def m blocks_single [OF len B] if_P [OF True] prod.case l by simp
  next
    case False
    let ?y = "replicate (B - (used + 1)) (0 :: u8)" and ?z = "replicate (B - L) (0 :: u8)"
    let ?b = "overwrite (overwrite buf used [0x80]) (used + 1) ?y"
    have b: "?b = p @ ?y" "length ?b = B" unfolding ov using u tp(2) lp by simp_all
    let ?c = "overwrite ?b 0 ?z"
    have tc: "take (B - L) ?c = ?z" "length ?c = B" 
      unfolding overwrite_def [of ?b] using b(2) assms(1) by simp_all
    have l: "overwrite ?c (B - L) (lenf n) = ?z @ lenf n"
      unfolding overwrite_def [of ?c] tc(1) using tc(2) assms(1,3) by simp
    have m: "take used buf @ md_pad B lenf n = (p @ ?y) @ (?z @ lenf n)"
      unfolding md_pad_def assms(3) zeros_mod [OF assms(1,4)] using False by (simp add: p_def replicate_add)
    have len: "length (p @ ?y) = B" "length (?z @ lenf n) = B" using u lp assms(1,3) by simp_all
    have bl: "blocks B ((p @ ?y) @ (?z @ lenf n)) = [p @ ?y, ?z @ lenf n]"
      using blocks_append [of "p @ ?y" B 1] len B by (simp add: blocks_single)
    show ?thesis unfolding pad_finish_def Let_def m bl if_not_P [OF False] prod.case l unfolding b(1) by simp
  qed
qed

text \<open>The digest of a whole message, from the compression function.\<close>

definition md_digest :: "nat \<Rightarrow> ('s \<Rightarrow> u8 list \<Rightarrow> 's) \<Rightarrow> 's \<Rightarrow> (nat \<Rightarrow> u8 list) \<Rightarrow> u8 list \<Rightarrow> 's" where
  "md_digest B tf iv lenf msg = foldl tf iv (blocks B (msg @ md_pad B lenf (length msg)))"

section \<open>Counts of two words\<close>

definition count64 :: "u32 \<Rightarrow> u32 \<Rightarrow> nat" where
  "count64 t1 t0 = unat t1 * 2 ^ 32 + unat t0"

lemma u32_less: "unat (w :: u32) < 2 ^ 32"
proof -
  have "unat w < 2 ^ LENGTH(32)" by (rule unsigned_less)
  then show ?thesis by simp
qed

lemma count64_bound: "count64 t1 t0 < 2 ^ 64"
  using u32_less [of t1] u32_less [of t0] by (simp add: count64_def)

lemma count64_words: "of_nat (count64 t1 t0) = t0" "of_nat (count64 t1 t0 div 2 ^ 32) = t1"
proof -
  have "of_nat (count64 t1 t0) = (of_nat (unat t1) * 2 ^ 32 + of_nat (unat t0) :: u32)"
    by (simp only: count64_def of_nat_mult of_nat_add of_nat_power of_nat_numeral)
  also have "(2 :: u32) ^ 32 = 0" by simp
  finally show "of_nat (count64 t1 t0) = t0" by simp
  have "count64 t1 t0 div 2 ^ 32 = unat t1" using u32_less [of t0] by (simp add: count64_def)
  then show "of_nat (count64 t1 t0 div 2 ^ 32) = t1" by simp
qed

lemma count64_add:
  assumes "n < 2 ^ 32"
  shows "count64 (if t0 + of_nat n < of_nat n then t1 + 1 else t1) (t0 + of_nat n) mod 2 ^ 64
     = (count64 t1 t0 + n) mod 2 ^ 64"
proof -
  have n: "unat (of_nat n :: u32) = n" using assms by (simp add: unat_of_nat take_bit_eq_mod)
  have b: "unat t0 < 2 ^ 32" by (rule u32_less)
  have s: "unat (t0 + of_nat n) = (unat t0 + n) mod 2 ^ 32"
    by (simp add: unat_word_ariths n)
  show ?thesis
  proof (cases "unat t0 + n < 2 ^ 32")
    case True
    then show ?thesis using s n by (simp add: word_less_nat_alt count64_def add.assoc)
  next
    case False
    then have s': "unat (t0 + of_nat n) = unat t0 + n - 2 ^ 32"
      using s b assms by (simp add: le_mod_geq)
    then have lt: "t0 + of_nat n < of_nat n" using n b False by (simp add: word_less_nat_alt)
    have "unat (t1 + 1) = (unat t1 + 1) mod 2 ^ 32" by (simp add: unat_word_ariths)
    then have e: "unat (t1 + 1) * 2 ^ 32 = (unat t1 + 1) * 2 ^ 32 mod (2 ^ 32 * 2 ^ 32)"
      by (simp only: mult_mod_left)
    have p: "(2 :: nat) ^ 32 * 2 ^ 32 = 2 ^ 64" by simp
    have "unat (t1 + 1) * 2 ^ 32 mod 2 ^ 64 = (unat t1 + 1) * 2 ^ 32 mod 2 ^ 64"
      unfolding e p by (rule mod_mod_trivial)
    then have "count64 (t1 + 1) (t0 + of_nat n) mod 2 ^ 64 = ((unat t1 + 1) * 2 ^ 32 + (unat t0 + n - 2 ^ 32)) mod 2 ^ 64"
      unfolding count64_def s' by (rule mod_add_cong) (rule refl)
    moreover have "(unat t1 + 1) * 2 ^ 32 + (unat t0 + n - 2 ^ 32) = count64 t1 t0 + n"
      using False by (simp add: count64_def)
    ultimately show ?thesis using lt by simp
  qed
qed

lemma count64_high: "count64 (t1 + of_nat k) t0 mod 2 ^ 64 = (count64 t1 t0 + k * 2 ^ 32) mod 2 ^ 64"
proof -
  have "unat (t1 + of_nat k) = (unat t1 + k) mod 2 ^ 32"
    by (simp add: unat_word_ariths unat_of_nat mod_simps)
  then have e: "unat (t1 + of_nat k) * 2 ^ 32 = (unat t1 + k) * 2 ^ 32 mod (2 ^ 32 * 2 ^ 32)"
    by (simp only: mult_mod_left)
  have p: "(2 :: nat) ^ 32 * 2 ^ 32 = 2 ^ 64" by simp
  have "unat (t1 + of_nat k) * 2 ^ 32 mod 2 ^ 64 = (unat t1 + k) * 2 ^ 32 mod 2 ^ 64"
    unfolding e p by (rule mod_mod_trivial)
  then have "count64 (t1 + of_nat k) t0 mod 2 ^ 64 = ((unat t1 + k) * 2 ^ 32 + unat t0) mod 2 ^ 64"
    unfolding count64_def by (rule mod_add_cong) (rule refl)
  also have "(unat t1 + k) * 2 ^ 32 + unat t0 = count64 t1 t0 + k * 2 ^ 32"
    by (simp add: count64_def add_mult_distrib)
  finally show ?thesis .
qed

text \<open>A count kept in bits: adding \<open>size\<close> bytes as \<open>sha1.c\<close> does.\<close>

lemma count64_add_bits:
  "count64 ((if t0 + of_nat (n * 8) < of_nat (n * 8) then t1 + 1 else t1) + of_nat (n div 2 ^ 29)) (t0 + of_nat (n * 8))
     mod 2 ^ 64 = (count64 t1 t0 + n * 8) mod 2 ^ 64"
proof -
  let ?m = "n * 8 mod 2 ^ 32"
  have o: "(of_nat (n * 8) :: u32) = of_nat ?m" by (rule of_nat_div_mod [symmetric]) simp
  have k: "n div 2 ^ 29 = n * 8 div 2 ^ 32"
  proof -
    have "n * 8 div 2 ^ 32 = n * 8 div 8 div 2 ^ 29" by (simp only: div_mult2_eq [symmetric]) simp
    then show ?thesis by simp
  qed
  have "(count64 (if t0 + of_nat ?m < of_nat ?m then t1 + 1 else t1) (t0 + of_nat ?m) + (n div 2 ^ 29) * 2 ^ 32) mod 2 ^ 64
     = ((count64 t1 t0 + ?m) + (n div 2 ^ 29) * 2 ^ 32) mod 2 ^ 64"
    by (rule mod_add_cong [OF count64_add refl]) simp
  also have "(count64 t1 t0 + ?m) + (n div 2 ^ 29) * 2 ^ 32 = count64 t1 t0 + n * 8"
    unfolding k using mod_div_mult_eq [of "n * 8" "2 ^ 32"] by (simp only: add.assoc)
  finally show ?thesis unfolding count64_high o .
qed

lemma mod_cancel_nat: "a mod M = b mod M \<Longrightarrow> (k :: nat) dvd M \<Longrightarrow> a mod k = b mod k"
  by (metis mod_mod_cancel)

lemma count64_low6: "unat (t0 AND 0x3F) = count64 t1 t0 mod 64"
proof -
  have "t0 AND 0x3F = take_bit 6 t0" using take_bit_eq_mask [of 6 t0] by (simp add: mask_eq_exp_minus_1)
  then have "unat (t0 AND 0x3F) = unat t0 mod 64" 
    by (simp only: unsigned_take_bit_eq) (simp add: take_bit_eq_mod)
  moreover have "count64 t1 t0 mod 64 = (unat t0 + 64 * (unat t1 * 2 ^ 26)) mod 64"
    by (simp add: count64_def ac_simps)
  ultimately show ?thesis by (simp only: mod_mult_self2)
qed

lemma count64_bits:
  "be32 (drop_bit 29 t0 OR push_bit 3 t1) @ be32 (push_bit 3 t0) = be_length 8 (count64 t1 t0)"
proof -
  have "of_nat (8 * count64 t1 t0) = push_bit 3 t0"
  proof -
    have "of_nat (8 * count64 t1 t0) = (8 * (of_nat (unat t1) * 2 ^ 32 + of_nat (unat t0)) :: u32)"
      by (simp only: count64_def of_nat_mult of_nat_add of_nat_power of_nat_numeral)
    also have "(2 :: u32) ^ 32 = 0" by simp
    finally show ?thesis by (simp add: push_bit_eq_mult)
  qed
  moreover have "of_nat (8 * count64 t1 t0 div 2 ^ 32) = drop_bit 29 t0 OR push_bit 3 t1"
  proof -
    have d: "8 * count64 t1 t0 div 2 ^ 32 = 8 * unat t1 + unat t0 div 2 ^ 29"
      by (simp add: count64_def)
    have un: "unat (drop_bit 29 t0) = unat t0 div 2 ^ 29"
      by (simp only: unsigned_drop_bit_eq len_num1 len_bit0 len_num0)
        (simp add: drop_bit_eq_div take_bit_nat_eq_self [OF u32_less, simplified])
    have "of_nat (8 * unat t1 + unat t0 div 2 ^ 29) = push_bit 3 t1 + drop_bit 29 t0"
      by (simp only: un [symmetric] of_nat_add of_nat_mult) (simp add: push_bit_eq_mult)
    also have "\<dots> = push_bit 3 t1 OR drop_bit 29 t0"
    proof (rule disjunctive_add)
      show "\<not> bit (push_bit 3 t1) i \<or> \<not> bit (drop_bit 29 t0) i" for i
        using bit_imp_le_length [of t0 "29 + i"] by (auto simp: bit_simps)
    qed
    finally show ?thesis unfolding d by (simp add: or.commute)
  qed
  ultimately show ?thesis by (simp add: be_length_8)
qed

section \<open>The contract of a digest\<close>

locale absorber =
  fixes B :: nat
    and tf :: "'s \<Rightarrow> u8 list \<Rightarrow> 's"
    and ok :: "'c \<Rightarrow> bool"
    and chain :: "'c \<Rightarrow> 's"
    and pending :: "'c \<Rightarrow> u8 list"
    and seen :: "'c \<Rightarrow> nat"
    and wrap :: nat
    and limit :: nat
    and update :: "'c \<Rightarrow> u8 list \<Rightarrow> 'c"
  assumes B: "0 < B"
    and wrap: "B dvd wrap"
    and update: "ok c \<Longrightarrow> length xs < limit \<Longrightarrow>
      ok (update c xs) \<and> (chain (update c xs), pending (update c xs)) = absorb B tf (chain c, pending c) xs \<and>
      seen (update c xs) mod wrap = (seen c + length xs) mod wrap"
    and pending: "ok c \<Longrightarrow> length (pending c) = seen c mod B"
begin

lemma updates:
  assumes "ok c" "\<forall>xs \<in> set xss. length xs < limit"
  shows "ok (foldl update c xss) \<and>
    (chain (foldl update c xss), pending (foldl update c xss)) = absorb B tf (chain c, pending c) (concat xss) \<and>
    seen (foldl update c xss) mod wrap = (seen c + length (concat xss)) mod wrap"
  using assms
proof (induction xss arbitrary: c)
  case Nil
  then show ?case using pending [of c] B by (simp add: absorb_Nil)
next
  case (Cons xs xss)
  have u: "ok (update c xs)" "(chain (update c xs), pending (update c xs)) = absorb B tf (chain c, pending c) xs"
    "seen (update c xs) mod wrap = (seen c + length xs) mod wrap"
    using update [of c xs] Cons.prems by auto
  have ih: "ok (foldl update (update c xs) xss) \<and>
    (chain (foldl update (update c xs) xss), pending (foldl update (update c xs) xss))
      = absorb B tf (chain (update c xs), pending (update c xs)) (concat xss) \<and>
    seen (foldl update (update c xs) xss) mod wrap = (seen (update c xs) + length (concat xss)) mod wrap"
    using Cons.IH [OF u(1)] Cons.prems(2) by simp
  have m: "(seen (update c xs) + length (concat xss)) mod wrap = (seen c + length xs + length (concat xss)) mod wrap"
    using u(3) by (metis mod_add_left_eq)
  show ?case using ih m B by (simp add: u(2) absorb_append add.assoc)
qed

text \<open>Padding by further updates compresses the padded message.\<close>

lemma padded:
  assumes ok: "ok c" "\<forall>xs \<in> set xss. length xs < limit"
    and pad: "concat xss = md_pad B lenf (seen c)" "\<And>n. length (lenf n) < B"
  shows "chain (foldl update c xss) = foldl tf (chain c) (blocks B (pending c @ md_pad B lenf (seen c)))"
proof -
  have "B dvd seen c + length (md_pad B lenf (seen c))" by (rule md_pad_length [OF pad(2)])
  then have "B dvd length (pending c) + length (md_pad B lenf (seen c))"
    using pending [OF ok(1)] by (simp add: dvd_eq_mod_eq_0 mod_add_left_eq)
  then obtain n where "length (pending c) + length (md_pad B lenf (seen c)) = B * n" by (auto elim: dvdE)
  then have "absorb B tf (chain c, pending c) (md_pad B lenf (seen c))
      = (foldl tf (chain c) (blocks B (pending c @ md_pad B lenf (seen c))), [])"
    using absorb_whole [of "(chain c, pending c)" "md_pad B lenf (seen c)" B n] B by simp
  then show ?thesis using updates [OF ok] pad(1) by (metis fst_conv)
qed

end

locale digest = absorber B tf ok chain pending seen wrap limit update
  for B and tf :: "'s \<Rightarrow> u8 list \<Rightarrow> 's" and ok :: "'c \<Rightarrow> bool" and chain pending seen wrap limit update +
  fixes lenf :: "nat \<Rightarrow> u8 list"
    and out :: "'s \<Rightarrow> u8 list"
    and finish :: "'c \<Rightarrow> u8 list"
  assumes lenf: "length (lenf n) < B" "lenf (n mod wrap) = lenf n"
    and finish: "ok c \<Longrightarrow>
      finish c = out (foldl tf (chain c) (blocks B (pending c @ md_pad B lenf (seen c))))"
begin

text \<open>Piecewise or at once: the digest is that of the concatenation.\<close>

lemma streaming:
  assumes start: "ok c" "pending c = []" "seen c = 0" and lim: "\<forall>xs \<in> set xss. length xs < limit"
  shows "finish (foldl update c xss) = out (md_digest B tf (chain c) lenf (concat xss))"
proof -
  let ?c = "foldl update c xss" and ?m = "concat xss"
  note u = updates [OF start(1) lim, unfolded start(2,3) add_0]
  let ?k = "length ?m div B * B"
  have cp: "chain ?c = foldl tf (chain c) (blocks B (take ?k ?m))" "pending ?c = drop ?k ?m"
    using u by (simp_all add: absorb_def Let_def)
  have pad: "md_pad B lenf (seen ?c) = md_pad B lenf (length ?m)"
  proof -
    have w: "seen ?c mod wrap = length ?m mod wrap" using u by simp
    then have l: "lenf (seen ?c) = lenf (length ?m)" by (metis lenf(2))
    have "seen ?c mod B = length ?m mod B" using w wrap by (metis mod_mod_cancel)
    then have "int (seen ?c) mod int B = int (length ?m) mod int B"
      by (metis of_nat_mod)
    then have "(int (B - length (lenf (length ?m))) - 1 - int (seen ?c)) mod int B
       = (int (B - length (lenf (length ?m))) - 1 - int (length ?m)) mod int B"
      by (metis mod_diff_right_eq)
    then show ?thesis using l unfolding md_pad_def by simp
  qed
  have "blocks B (?m @ md_pad B lenf (length ?m))
      = blocks B (take ?k ?m @ (drop ?k ?m @ md_pad B lenf (length ?m)))"
    by (metis append_assoc append_take_drop_id)
  also have "\<dots> = blocks B (take ?k ?m) @ blocks B (drop ?k ?m @ md_pad B lenf (length ?m))"
  proof (rule blocks_append)
    show "length (take ?k ?m) = B * (length ?m div B)" by (simp add: mult.commute)
  qed (rule B)
  finally show ?thesis using finish [of ?c] u cp pad by (simp add: md_digest_def)
qed

lemma chunking_irrelevant:
  assumes "ok c" "pending c = []" "seen c = 0" "\<forall>xs \<in> set xss. length xs < limit"
    and "\<forall>ys \<in> set yss. length ys < limit" "concat xss = concat yss"
  shows "finish (foldl update c xss) = finish (foldl update c yss)"
  using streaming [OF assms(1-4)] streaming [OF assms(1-3,5)] assms(6) by simp

end

end
