(* ===== verification/Sha256.thy ===== *)
theory Sha256
  imports Hash
begin

text \<open>
  The SHA-256 and SHA-224 digests of \<open>components/util/src/sha256.c\<close>, which the bootloader's hash check
  of an image uses (\<open>bootloader_sha.c\<close>).  A \<open>uint32_t\<close> is a \<open>32 word\<close>; the two words \<open>total[2]\<close> count
  bytes.  \<open>fips_sha256\<close> is the digest as FIPS 180-4 defines it: the message schedule \<open>sha_w\<close>, the round on
  eight working variables with rotations of words, and the padded message cut into blocks.
\<close>

section \<open>The code\<close>

record sha256_ctx =
  total0 :: u32
  total1 :: u32
  sha_state :: "u32 list"
  sha_buffer :: "u8 list"
  is224 :: bool

text \<open>The table \<open>K\<close>, row by row.\<close>

definition sha256_K :: "u32 list" where
  "sha256_K = concat
    [[0x428a2f98, 0x71374491, 0xb5c0fbcf, 0xe9b5dba5, 0x3956c25b],
     [0x59f111f1, 0x923f82a4, 0xab1c5ed5, 0xd807aa98, 0x12835b01],
     [0x243185be, 0x550c7dc3, 0x72be5d74, 0x80deb1fe, 0x9bdc06a7],
     [0xc19bf174, 0xe49b69c1, 0xefbe4786, 0x0fc19dc6, 0x240ca1cc],
     [0x2de92c6f, 0x4a7484aa, 0x5cb0a9dc, 0x76f988da, 0x983e5152],
     [0xa831c66d, 0xb00327c8, 0xbf597fc7, 0xc6e00bf3, 0xd5a79147],
     [0x06ca6351, 0x14292967, 0x27b70a85, 0x2e1b2138, 0x4d2c6dfc],
     [0x53380d13, 0x650a7354, 0x766a0abb, 0x81c2c92e, 0x92722c85],
     [0xa2bfe8a1, 0xa81a664b, 0xc24b8b70, 0xc76c51a3, 0xd192e819],
     [0xd6990624, 0xf40e3585, 0x106aa070, 0x19a4c116, 0x1e376c08],
     [0x2748774c, 0x34b0bcb5, 0x391c0cb3, 0x4ed8aa4a, 0x5b9cca4f],
     [0x682e6ff3, 0x748f82ee, 0x78a5636f, 0x84c87814, 0x8cc70208],
     [0x90befffa, 0xa4506ceb, 0xbef9a3f7, 0xc67178f2]]"

definition RORc :: "u32 \<Rightarrow> nat \<Rightarrow> u32" where
  "RORc x y = drop_bit (y mod 32) x OR push_bit (32 - y mod 32) x"

definition Ch :: "u32 \<Rightarrow> u32 \<Rightarrow> u32 \<Rightarrow> u32" where "Ch x y z = z XOR (x AND (y XOR z))"
definition Maj :: "u32 \<Rightarrow> u32 \<Rightarrow> u32 \<Rightarrow> u32" where "Maj x y z = ((x OR y) AND z) OR (x AND y)"
definition Sigma0 :: "u32 \<Rightarrow> u32" where "Sigma0 x = RORc x 2 XOR RORc x 13 XOR RORc x 22"
definition Sigma1 :: "u32 \<Rightarrow> u32" where "Sigma1 x = RORc x 6 XOR RORc x 11 XOR RORc x 25"
definition Gamma0 :: "u32 \<Rightarrow> u32" where "Gamma0 x = RORc x 7 XOR RORc x 18 XOR drop_bit 3 x"
definition Gamma1 :: "u32 \<Rightarrow> u32" where "Gamma1 x = RORc x 17 XOR RORc x 19 XOR drop_bit 10 x"

text \<open>The macro \<open>RND\<close> on the array \<open>S\<close>, and the shift of the array after it.\<close>

definition RND :: "u32 list \<Rightarrow> nat \<Rightarrow> u32 list \<Rightarrow> u32 list" where
  "RND W i S =
     (let t0 = S ! 7 + Sigma1 (S ! 4) + Ch (S ! 4) (S ! 5) (S ! 6) + sha256_K ! i + W ! i;
          t1 = Sigma0 (S ! 0) + Maj (S ! 0) (S ! 1) (S ! 2);
          S = S[3 := S ! 3 + t0];
          S = S[7 := t0 + t1] in
      [S ! 7, S ! 0, S ! 1, S ! 2, S ! 3, S ! 4, S ! 5, S ! 6])"

definition extend_W :: "nat \<Rightarrow> u32 list \<Rightarrow> u32 list" where
  "extend_W i W = W @ [Gamma1 (W ! (i - 2)) + W ! (i - 7) + Gamma0 (W ! (i - 15)) + W ! (i - 16)]"

definition esp_sha256_transform :: "u32 list \<Rightarrow> u8 list \<Rightarrow> u32 list" where
  "esp_sha256_transform state buf =
     (let W = map (\<lambda>i. of_be32 (drop (4 * i) buf)) [0..<16];
          W = fold extend_W [16..<64] W;
          S = fold (RND W) [0..<64] state in
      map (\<lambda>i. state ! i + S ! i) [0..<8])"

definition sha256_iv :: "u32 list" where
  "sha256_iv = [0x6A09E667, 0xBB67AE85, 0x3C6EF372, 0xA54FF53A, 0x510E527F, 0x9B05688C, 0x1F83D9AB, 0x5BE0CD19]"

definition sha224_iv :: "u32 list" where
  "sha224_iv = [0xC1059ED8, 0x367CD507, 0x3070DD17, 0xF70E5939, 0xFFC00B31, 0x68581511, 0x64F98FA7, 0xBEFA4FA4]"

text \<open>The contents of the context's buffer before the first use do not matter: \<open>buf\<close> is any block.\<close>

definition esp_sha256_init :: "u8 list \<Rightarrow> sha256_ctx" where
  "esp_sha256_init buf = \<lparr>total0 = 0, total1 = 0, sha_state = sha256_iv, sha_buffer = buf, is224 = False\<rparr>"

definition esp_sha224_init :: "u8 list \<Rightarrow> sha256_ctx" where
  "esp_sha224_init buf = \<lparr>total0 = 0, total1 = 0, sha_state = sha224_iv, sha_buffer = buf, is224 = True\<rparr>"

definition esp_sha256_update :: "sha256_ctx \<Rightarrow> u8 list \<Rightarrow> sha256_ctx" where
  "esp_sha256_update ctx input =
     (let left = unat (total0 ctx AND 0x3F);
          t0 = total0 ctx + of_nat (length input);
          t1 = (if t0 < of_nat (length input) then total1 ctx + 1 else total1 ctx);
          (state, buf) = feed 64 esp_sha256_transform (sha_state ctx) (sha_buffer ctx) left input in
      ctx\<lparr>total0 := t0, total1 := t1, sha_state := state, sha_buffer := buf\<rparr>)"

definition esp_sha224_finish :: "sha256_ctx \<Rightarrow> u8 list" where
  "esp_sha224_finish ctx =
     (let used = unat (total0 ctx AND 0x3F);
          high = drop_bit 29 (total0 ctx) OR push_bit 3 (total1 ctx);
          low = push_bit 3 (total0 ctx);
          state = pad_finish 64 8 esp_sha256_transform (sha_state ctx) (sha_buffer ctx) used (be32 high @ be32 low) in
      concat (map be32 (take (if is224 ctx then 7 else 8) state)))"

definition esp_sha256_finish :: "sha256_ctx \<Rightarrow> u8 list" where
  "esp_sha256_finish ctx = esp_sha224_finish ctx"

section \<open>The specification\<close>

definition sigma :: "nat \<Rightarrow> nat \<Rightarrow> u32 \<Rightarrow> u32 \<Rightarrow> u32" where
  "sigma i j y x = word_rotr i x XOR word_rotr j x XOR y"

fun sha_w :: "u32 list \<Rightarrow> nat \<Rightarrow> u32" where
  "sha_w M t =
     (if t < 16 then M ! t
      else sigma 17 19 (drop_bit 10 (sha_w M (t - 2))) (sha_w M (t - 2)) + sha_w M (t - 7)
        + sigma 7 18 (drop_bit 3 (sha_w M (t - 15))) (sha_w M (t - 15)) + sha_w M (t - 16))"

declare sha_w.simps [simp del]

type_synonym vars8 = "u32 \<times> u32 \<times> u32 \<times> u32 \<times> u32 \<times> u32 \<times> u32 \<times> u32"

definition fips_round :: "u32 list \<Rightarrow> nat \<Rightarrow> vars8 \<Rightarrow> vars8" where
  "fips_round M t = (\<lambda>(a, b, c, d, e, f, g, h).
     let t1 = h + sigma 6 11 (word_rotr 25 e) e + ((e AND f) XOR (NOT e AND g)) + sha256_K ! t + sha_w M t;
         t2 = sigma 2 13 (word_rotr 22 a) a + ((a AND b) XOR (a AND c) XOR (b AND c)) in
     (t1 + t2, a, b, c, d + t1, e, f, g))"

definition vars :: "vars8 \<Rightarrow> u32 list" where
  "vars = (\<lambda>(a, b, c, d, e, f, g, h). [a, b, c, d, e, f, g, h])"

definition fips_compress :: "vars8 \<Rightarrow> u8 list \<Rightarrow> vars8" where
  "fips_compress H block =
     (case (H, fold (fips_round (map of_be32 (blocks 4 block))) [0..<64] H) of
        ((a, b, c, d, e, f, g, h), (a', b', c', d', e', f', g', h')) \<Rightarrow>
          (a + a', b + b', c + c', d + d', e + e', f + f', g + g', h + h'))"

definition fips_digest :: "vars8 \<Rightarrow> u8 list \<Rightarrow> vars8" where
  "fips_digest H = md_digest 64 fips_compress H (be_length 8)"

definition fips_sha256 :: "u8 list \<Rightarrow> u8 list" where
  "fips_sha256 msg = concat (map be32 (vars (fips_digest
     (0x6A09E667, 0xBB67AE85, 0x3C6EF372, 0xA54FF53A, 0x510E527F, 0x9B05688C, 0x1F83D9AB, 0x5BE0CD19) msg)))"

definition fips_sha224 :: "u8 list \<Rightarrow> u8 list" where
  "fips_sha224 msg = concat (map be32 (take 7 (vars (fips_digest
     (0xC1059ED8, 0x367CD507, 0x3070DD17, 0xF70E5939, 0xFFC00B31, 0x68581511, 0x64F98FA7, 0xBEFA4FA4) msg))))"

text \<open>FIPS 180-4 gives the constants as the first 32 bits of the fractional parts of the cube roots of
  the first 64 primes.\<close>

definition primes64 :: "nat list" where
  "primes64 = [2, 3, 5, 7, 11, 13, 17, 19, 23, 29, 31, 37, 41, 43, 47, 53, 59, 61, 67, 71, 73, 79, 83, 89,
     97, 101, 103, 107, 109, 113, 127, 131, 137, 139, 149, 151, 157, 163, 167, 173, 179, 181, 191, 193,
     197, 199, 211, 223, 227, 229, 233, 239, 241, 251, 257, 263, 269, 271, 277, 281, 283, 293, 307, 311]"

definition cube_root_bits :: "nat \<Rightarrow> nat \<Rightarrow> nat \<Rightarrow> bool" where
  "cube_root_bits w p k \<longleftrightarrow>
     (let i = (if p < 8 then 1 else if p < 27 then 2 else if p < 64 then 3 else if p < 125 then 4
               else if p < 216 then 5 else 6);
          r = i * 2 ^ w + k in
      r * r * r \<le> p * 2 ^ (3 * w) \<and> p * 2 ^ (3 * w) < (r + 1) * (r + 1) * (r + 1))"

section \<open>Lemmas: the compression\<close>

lemma sha256_K_cube_roots: "list_all2 (cube_root_bits 32) primes64 (map unat sha256_K)"
  unfolding primes64_def sha256_K_def by (simp add: cube_root_bits_def Let_def)

lemma RORc_rotr: "0 < y \<Longrightarrow> y < 32 \<Longrightarrow> RORc x y = word_rotr y x"
  using shifts_rotr [of y x] by (simp add: RORc_def)

lemma Ch_fips: "Ch x y z = (x AND y) XOR (NOT x AND z)"
  by (rule bit_word_eqI) (auto simp: Ch_def bit_simps)

lemma Maj_fips: "Maj x y z = (x AND y) XOR (x AND z) XOR (y AND z)"
  by (rule bit_word_eqI) (auto simp: Maj_def bit_simps)

lemma Sigma_fips:
  "Sigma0 x = sigma 2 13 (word_rotr 22 x) x" "Sigma1 x = sigma 6 11 (word_rotr 25 x) x"
  "Gamma0 x = sigma 7 18 (drop_bit 3 x) x" "Gamma1 x = sigma 17 19 (drop_bit 10 x) x"
  by (simp_all add: Sigma0_def Sigma1_def Gamma0_def Gamma1_def sigma_def RORc_rotr)

lemma extend_W_fips:
  assumes "length M = 16" "n \<le> 48"
  shows "fold extend_W [16..<16 + n] M = map (sha_w M) [0..<16 + n]"
  using assms(2)
proof (induction n)
  case 0
  have "map (sha_w M) [0..<16] = M"
    using assms(1) by (intro nth_equalityI) (simp_all add: sha_w.simps)
  then show ?case by simp
next
  case (Suc n)
  then have ih: "fold extend_W [16..<16 + n] M = map (sha_w M) [0..<16 + n]" by simp
  have s: "sha_w M (16 + n) = Gamma1 (sha_w M (n + 14)) + sha_w M (n + 9) + Gamma0 (sha_w M (n + 1)) + sha_w M n"
    by (subst sha_w.simps) (simp add: Sigma_fips add.commute)
  have u: "[16..<16 + Suc n] = [16..<16 + n] @ [16 + n]" "[0..<16 + Suc n] = [0..<16 + n] @ [16 + n]"
    by (simp_all only: add_Suc_right upt_Suc) simp_all
  have "extend_W (16 + n) (map (sha_w M) [0..<16 + n]) = map (sha_w M) [0..<16 + n] @ [sha_w M (16 + n)]"
    using s by (simp add: extend_W_def nth_append ac_simps del: upt_Suc)
  then show ?case unfolding u fold_append comp_apply ih by simp
qed

lemma vars8_cases:
  obtains a b c d e f g h where "v = (a, b, c, d, e, f, g, h :: 'a)"
  by (metis surj_pair)

lemma RND_fips:
  assumes "W ! t = sha_w M t"
  shows "RND W t (vars v) = vars (fips_round M t v)"
proof -
  obtain a b c d e f g h where v: "v = (a, b, c, d, e, f, g, h)" by (rule vars8_cases)
  show ?thesis unfolding v
    by (simp add: RND_def fips_round_def vars_def Let_def assms Sigma_fips Ch_fips Maj_fips algebra_simps)
qed

lemma fold_RND_fips:
  "n \<le> length W \<Longrightarrow> \<forall>t<length W. W ! t = sha_w M t \<Longrightarrow>
    fold (RND W) [0..<n] (vars v) = vars (fold (fips_round M) [0..<n] v)"
  by (induction n) (simp_all add: RND_fips)

lemma transform_fips:
  assumes "length block = 64"
  shows "esp_sha256_transform (vars H) block = vars (fips_compress H block)"
proof -
  let ?M = "map of_be32 (blocks 4 block)"
  have M: "map (\<lambda>i. of_be32 (drop (4 * i) block)) [0..<16] = ?M"
    using assms by (intro nth_equalityI) (auto simp: blocks_def of_be32_def mult.commute)
  have lM: "length ?M = 16" using assms by (simp add: blocks_def)
  have W: "fold extend_W [16..<64] ?M = map (sha_w ?M) [0..<64]"
    using extend_W_fips [OF lM, of 48] by simp
  have S: "fold (RND (map (sha_w ?M) [0..<64])) [0..<64] (vars H) = vars (fold (fips_round ?M) [0..<64] H)"
    by (rule fold_RND_fips) simp_all
  obtain a b c d e f g h where H: "H = (a, b, c, d, e, f, g, h)" by (rule vars8_cases)
  obtain a' b' c' d' e' f' g' h' where R: "fold (fips_round ?M) [0..<64] H = (a', b', c', d', e', f', g', h')"
    by (rule vars8_cases)
  show ?thesis
    unfolding esp_sha256_transform_def Let_def M W S fips_compress_def R prod.case unfolding H
    by (simp add: vars_def upt_rec)
qed

lemma foldl_transform_fips:
  assumes "\<forall>b \<in> set bs. length b = 64"
  shows "foldl esp_sha256_transform (vars H) bs = vars (foldl fips_compress H bs)"
  using assms by (induction bs arbitrary: H) (simp_all add: transform_fips)

section \<open>The digest contract\<close>

definition sha_pending :: "sha256_ctx \<Rightarrow> u8 list" where
  "sha_pending c = take (unat (total0 c AND 0x3F)) (sha_buffer c)"

definition sha_seen :: "sha256_ctx \<Rightarrow> nat" where
  "sha_seen c = count64 (total1 c) (total0 c)"

definition sha_ok :: "bool \<Rightarrow> sha256_ctx \<Rightarrow> bool" where
  "sha_ok b c \<longleftrightarrow> length (sha_buffer c) = 64 \<and> is224 c = b"

lemma sha_update_law:
  assumes "sha_ok b c" "length xs < 2 ^ 32"
  shows "sha_ok b (esp_sha256_update c xs) \<and>
    (sha_state (esp_sha256_update c xs), sha_pending (esp_sha256_update c xs))
       = absorb 64 esp_sha256_transform (sha_state c, sha_pending c) xs \<and>
    sha_seen (esp_sha256_update c xs) mod 2 ^ 61 = (sha_seen c + length xs) mod 2 ^ 61"
proof -
  let ?left = "unat (total0 c AND 0x3F)" and ?c = "esp_sha256_update c xs"
  let ?f = "feed 64 esp_sha256_transform (sha_state c) (sha_buffer c) ?left xs"
  have buf: "length (sha_buffer c) = 64" using assms(1) by (simp add: sha_ok_def)
  have left: "?left = sha_seen c mod 64" unfolding sha_seen_def by (rule count64_low6)
  then have "?left < 64" by simp
  note f = feed_absorb [OF this buf, of esp_sha256_transform "sha_state c" xs]
  have upd: "sha_state ?c = fst ?f" "sha_buffer ?c = snd ?f" "is224 ?c = is224 c"
    "total0 ?c = total0 c + of_nat (length xs)"
    "total1 ?c = (if total0 c + of_nat (length xs) < of_nat (length xs) then total1 c + 1 else total1 c)"
    by (simp_all add: esp_sha256_update_def Let_def case_prod_beta)
  have seen: "sha_seen ?c mod 2 ^ 64 = (sha_seen c + length xs) mod 2 ^ 64"
    unfolding sha_seen_def upd by (rule count64_add [OF assms(2)])
  have "unat (total0 ?c AND 0x3F) = (sha_seen c + length xs) mod 64"
    unfolding count64_low6 [of "total0 ?c" "total1 ?c"] sha_seen_def [symmetric]
    by (rule mod_cancel_nat [OF seen]) simp
  also have "\<dots> = (?left + length xs) mod 64" unfolding left by (simp add: mod_add_left_eq)
  finally have "sha_pending ?c = snd (absorb 64 esp_sha256_transform (sha_state c, sha_pending c) xs)"
    using f unfolding sha_pending_def upd(2) by simp
  moreover have "sha_state ?c = fst (absorb 64 esp_sha256_transform (sha_state c, sha_pending c) xs)"
    using f unfolding sha_pending_def upd(1) by (metis fst_conv)
  moreover have "sha_seen ?c mod 2 ^ 61 = (sha_seen c + length xs) mod 2 ^ 61"
    by (rule mod_cancel_nat [OF seen]) simp
  moreover have "sha_ok b ?c" using f assms(1) by (simp add: sha_ok_def upd)
  ultimately show ?thesis by (simp add: prod_eq_iff)
qed

lemma sha_pending_length: "sha_ok b c \<Longrightarrow> length (sha_pending c) = sha_seen c mod 64"
  using count64_low6 [of "total0 c" "total1 c"] by (simp add: sha_ok_def sha_pending_def sha_seen_def)

lemma sha_finish_law:
  assumes "sha_ok b c"
  shows "esp_sha224_finish c = concat (map be32 (take (if b then 7 else 8)
    (foldl esp_sha256_transform (sha_state c) (blocks 64 (sha_pending c @ md_pad 64 (be_length 8) (sha_seen c))))))"
  unfolding esp_sha224_finish_def Let_def count64_bits sha_seen_def [symmetric] sha_pending_def
  using assms count64_low6 [of "total0 c" "total1 c", folded sha_seen_def]
  by (subst pad_finish_blocks) (simp_all add: sha_ok_def)

interpretation sha256: digest 64 esp_sha256_transform "sha_ok False" sha_state sha_pending sha_seen "2 ^ 61" "2 ^ 32"
  esp_sha256_update "be_length 8" "\<lambda>s. concat (map be32 (take 8 s))" esp_sha256_finish
proof
  show "be_length 8 (n mod 2 ^ 61) = be_length 8 n" for n by (rule be_length_mod) simp
  show "esp_sha256_finish c = concat (map be32 (take 8 (foldl esp_sha256_transform (sha_state c)
    (blocks 64 (sha_pending c @ md_pad 64 (be_length 8) (sha_seen c))))))" if "sha_ok False c" for c
    using sha_finish_law [OF that] by (simp add: esp_sha256_finish_def)
qed (simp_all only: sha_update_law sha_pending_length, simp_all)

interpretation sha224: digest 64 esp_sha256_transform "sha_ok True" sha_state sha_pending sha_seen "2 ^ 61" "2 ^ 32"
  esp_sha256_update "be_length 8" "\<lambda>s. concat (map be32 (take 7 s))" esp_sha224_finish
proof
  show "be_length 8 (n mod 2 ^ 61) = be_length 8 n" for n by (rule be_length_mod) simp
  show "esp_sha224_finish c = concat (map be32 (take 7 (foldl esp_sha256_transform (sha_state c)
    (blocks 64 (sha_pending c @ md_pad 64 (be_length 8) (sha_seen c))))))" if "sha_ok True c" for c
    using sha_finish_law [OF that] by simp
qed (simp_all only: sha_update_law sha_pending_length, simp_all)

section \<open>The digest of the library is the digest of the standard\<close>

lemma md_digest_fips:
  "md_digest 64 esp_sha256_transform (vars H) (be_length 8) msg = vars (fips_digest H msg)"
  unfolding md_digest_def fips_digest_def by (rule foldl_transform_fips) (auto dest: blocks_length)

lemma sha_digests:
  assumes "length buf = 64" and "\<forall>xs \<in> set xss. length xs < 2 ^ 32"
  shows "esp_sha256_finish (foldl esp_sha256_update (esp_sha256_init buf) xss) = fips_sha256 (concat xss) \<and>
    esp_sha224_finish (foldl esp_sha256_update (esp_sha224_init buf) xss) = fips_sha224 (concat xss)"
proof -
  have c: "sha_ok False (esp_sha256_init buf)" "sha_pending (esp_sha256_init buf) = []"
    "sha_seen (esp_sha256_init buf) = 0" "sha_state (esp_sha256_init buf) = vars
      (0x6A09E667, 0xBB67AE85, 0x3C6EF372, 0xA54FF53A, 0x510E527F, 0x9B05688C, 0x1F83D9AB, 0x5BE0CD19)"
    and d: "sha_ok True (esp_sha224_init buf)" "sha_pending (esp_sha224_init buf) = []"
    "sha_seen (esp_sha224_init buf) = 0" "sha_state (esp_sha224_init buf) = vars
      (0xC1059ED8, 0x367CD507, 0x3070DD17, 0xF70E5939, 0xFFC00B31, 0x68581511, 0x64F98FA7, 0xBEFA4FA4)"
    using assms(1) by (simp_all add: sha_ok_def sha_pending_def sha_seen_def count64_def esp_sha256_init_def
        esp_sha224_init_def sha256_iv_def sha224_iv_def vars_def)
  have len: "take 8 (vars v) = vars v" for v by (simp add: vars_def case_prod_beta)
  have "esp_sha256_finish (foldl esp_sha256_update (esp_sha256_init buf) xss) = fips_sha256 (concat xss)"
    unfolding sha256.streaming [OF c(1-3) assms(2)] c(4) md_digest_fips len by (simp add: fips_sha256_def)
  moreover have "esp_sha224_finish (foldl esp_sha256_update (esp_sha224_init buf) xss) = fips_sha224 (concat xss)"
    unfolding sha224.streaming [OF d(1-3) assms(2)] d(4) md_digest_fips by (simp add: fips_sha224_def)
  ultimately show ?thesis ..
qed

text \<open>C5: However the data is split among the calls of \<open>esp_sha256_update\<close>, and whatever the context's
  buffer held before, \<open>esp_sha256_finish\<close> returns the SHA-256 digest of FIPS 180-4 of the whole message,
  and the \<open>esp_sha224\<close> functions its SHA-224 digest.\<close>

theorem sha256_is_fips:
  assumes "length buf = 64" and "\<forall>xs \<in> set xss. length xs < 2 ^ 32"
  shows "esp_sha256_finish (foldl esp_sha256_update (esp_sha256_init buf) xss) = fips_sha256 (concat xss) \<and>
    esp_sha224_finish (foldl esp_sha256_update (esp_sha224_init buf) xss) = fips_sha224 (concat xss)"
  using assms by (rule sha_digests)

lemma sha256_is_fips_witness:
  "esp_sha256_finish (foldl esp_sha256_update (esp_sha256_init (replicate 64 0)) [[0x61], [0x62, 0x63]])
     = fips_sha256 [0x61, 0x62, 0x63] \<and>
   esp_sha224_finish (foldl esp_sha256_update (esp_sha224_init (replicate 64 0)) [[0x61], [0x62, 0x63]])
     = fips_sha224 [0x61, 0x62, 0x63]"
  using sha256_is_fips [of "replicate 64 0" "[[0x61], [0x62, 0x63]]"] by simp

end
