(* ===== verification/ImageFormat.thy ===== *)
theory ImageFormat
  imports BootUtility Sha256
begin

text \<open>
  Application images: the ESP8266 part of \<open>components/bootloader_support/src/esp_image_format.c\<close>, with
  \<open>bootloader_flash_read\<close> of \<open>bootloader_flash.c\<close>.  The model follows the default configuration: the sum of
  the image is checked (\<open>CONFIG_APP_UPDATE_CHECK_APP_SUM\<close>), there is no secure boot, and the bootloader does
  not unpack the image into memory.  Whether the SHA-256 digest is checked too
  (\<open>CONFIG_APP_UPDATE_CHECK_APP_HASH\<close>) and whether the code runs in the bootloader are fields of
  \<open>image_build\<close>.

  Flash is read through a \<open>reader\<close>, which maps an address, a size and the destination's bytes to the bytes
  the destination holds afterwards: \<open>bootloader_flash_read\<close> drops the result of \<open>SPIRead\<close> and of
  \<open>spi_flash_read\<close>, so a failed read is not seen.  The metadata's arrays are lists with the entries filled
  so far.  \<open>None\<close> means that the routine does not return.
\<close>

section \<open>Data\<close>

type_synonym reader = "nat \<Rightarrow> nat \<Rightarrow> u8 list \<Rightarrow> u8 list"

record image_header =
  magic :: u8
  segment_count :: nat
  spi_mode :: u8
  spi_speed_size :: u8
  entry_addr :: u32

record seg_header =
  seg_load_addr :: u32
  seg_data_len :: nat

record image_meta =
  start_addr :: nat
  image_hdr :: image_header
  segments :: "seg_header list"
  segment_data :: "nat list"
  image_len :: nat

record image_build =
  in_bootloader :: bool
  malloc_pbuf :: "u8 list option"
  check_hash :: bool
  sha_start :: "sha256_ctx option"

record load_state =
  pbuf :: "u8 list"
  checksum :: u32
  sha :: "sha256_ctx option"

definition HASH_LEN :: nat where "HASH_LEN = 32"
definition SHA_CHUNK :: nat where "SHA_CHUNK = 1024"
definition SIXTEEN_MB :: nat where "SIXTEEN_MB = 0x1000000"
definition ESP_ROM_CHECKSUM_INITIAL :: u32 where "ESP_ROM_CHECKSUM_INITIAL = 0xEF"
definition ESP_IMAGE_HEADER_MAGIC :: u8 where "ESP_IMAGE_HEADER_MAGIC = 0xE9"
definition ESP_IMAGE_MAX_SEGMENTS :: nat where "ESP_IMAGE_MAX_SEGMENTS = 16"
definition ESP_BOOTLOADER_OFFSET :: nat where "ESP_BOOTLOADER_OFFSET = 0"

lemmas image_consts = HASH_LEN_def SHA_CHUNK_def SIXTEEN_MB_def ESP_ROM_CHECKSUM_INITIAL_def
  ESP_IMAGE_MAX_SEGMENTS_def ESP_BOOTLOADER_OFFSET_def

definition parse_image_header :: "u8 list \<Rightarrow> image_header" where
  "parse_image_header bs = \<lparr>magic = bs ! 0, segment_count = unat (bs ! 1), spi_mode = bs ! 2,
     spi_speed_size = bs ! 3, entry_addr = of_le32 (drop 4 bs)\<rparr>"

definition parse_seg_header :: "u8 list \<Rightarrow> seg_header" where
  "parse_seg_header bs = \<lparr>seg_load_addr = of_le32 bs, seg_data_len = unat (of_le32 (drop 4 bs))\<rparr>"

section \<open>Reading flash\<close>

definition bootloader_flash_read :: "reader \<Rightarrow> nat \<Rightarrow> u8 list \<Rightarrow> nat \<Rightarrow> esp_err \<times> u8 list" where
  "bootloader_flash_read rd src_addr dest sz =
     (if src_addr mod 4 \<noteq> 0 then (ESP_FAIL, dest)
      else if sz mod 4 \<noteq> 0 then (ESP_FAIL, dest)
      else (ESP_OK, rd src_addr sz dest))"

definition sha_data :: "u8 list \<Rightarrow> load_state \<Rightarrow> load_state" where
  "sha_data bs st = st\<lparr>sha := map_option (\<lambda>c. esp_sha256_update c bs) (sha st)\<rparr>"

section \<open>Segments\<close>

text \<open>The loop of \<open>process_segment_data\<close>: \<open>data_chunk\<close> is its body, the variable \<open>i\<close> is compared as an
  unsigned number and wraps.\<close>

definition data_chunk :: "reader \<Rightarrow> nat \<Rightarrow> nat \<Rightarrow> nat \<Rightarrow> load_state \<Rightarrow> esp_err \<times> load_state" where
  "data_chunk rd data_addr data_len i st =
     (let bytes = min SHA_CHUNK (data_len - i);
          (err, bs) = bootloader_flash_read rd ((data_addr + i) mod 2 ^ 32) (take bytes (pbuf st)) bytes;
          st = st\<lparr>pbuf := overwrite (pbuf st) 0 bs\<rparr> in
      if err \<noteq> ESP_OK then (err, st)
      else (ESP_OK, sha_data bs (st\<lparr>checksum :=
        fold (\<lambda>k s. s XOR of_le32 (drop (4 * k) bs)) [0..<bytes div 4] (checksum st)\<rparr>)))"

partial_function (option) data_loop ::
  "reader \<Rightarrow> nat \<Rightarrow> nat \<Rightarrow> nat \<Rightarrow> load_state \<Rightarrow> (esp_err \<times> load_state) option" where
  "data_loop rd data_addr data_len i st =
     (if i < data_len then
        (let r = data_chunk rd data_addr data_len i st in
         if fst r \<noteq> ESP_OK then Some r
         else data_loop rd data_addr data_len ((i + SHA_CHUNK) mod 2 ^ 32) (snd r))
      else Some (ESP_OK, st))"

definition process_segment_data ::
  "reader \<Rightarrow> image_build \<Rightarrow> nat \<Rightarrow> nat \<Rightarrow> load_state \<Rightarrow> (esp_err \<times> load_state) option" where
  "process_segment_data rd bld data_addr data_len st =
     (if in_bootloader bld then data_loop rd data_addr data_len 0 st
      else case malloc_pbuf bld of
        None \<Rightarrow> Some (ESP_FAIL, st)
      | Some buf \<Rightarrow> data_loop rd data_addr data_len 0 (st\<lparr>pbuf := buf\<rparr>))"

text \<open>The checks of \<open>verify_segment_header\<close> are commented out in the source.\<close>

definition verify_segment_header :: "seg_header \<Rightarrow> esp_err" where
  "verify_segment_header segment = ESP_OK"

definition process_segment ::
  "reader \<Rightarrow> image_build \<Rightarrow> nat \<Rightarrow> load_state \<Rightarrow> (esp_err \<times> seg_header \<times> load_state) option" where
  "process_segment rd bld flash_addr st =
     (let (err, bs) = bootloader_flash_read rd flash_addr (replicate 8 0) 8;
          header = parse_seg_header bs in
      if err \<noteq> ESP_OK then Some (err, header, st)
      else
        let st = sha_data bs st;
            data_addr = (flash_addr + 8) mod 2 ^ 32;
            err = verify_segment_header header in
        if err \<noteq> ESP_OK then Some (err, header, st)
        else if seg_data_len header mod 4 \<noteq> 0 then Some (ESP_ERR_IMAGE_INVALID, header, st)
        else map_option (\<lambda>(err, st). (err, header, st))
          (process_segment_data rd bld data_addr (seg_data_len header) st))"

text \<open>The loop of \<open>esp_image_load\<close> over the \<open>n\<close> remaining segments; the result holds the address after the
  last segment, the segment headers and the addresses of their data.\<close>

primrec segments_loop ::
  "reader \<Rightarrow> image_build \<Rightarrow> nat \<Rightarrow> nat \<Rightarrow> seg_header list \<Rightarrow> nat list \<Rightarrow> load_state \<Rightarrow>
    (esp_err \<times> nat \<times> seg_header list \<times> nat list \<times> load_state) option" where
  "segments_loop rd bld 0 next_addr hs ds st = Some (ESP_OK, next_addr, hs, ds, st)"
| "segments_loop rd bld (Suc n) next_addr hs ds st =
     (case process_segment rd bld next_addr st of
        None \<Rightarrow> None
      | Some (err, header, st) \<Rightarrow>
          if err \<noteq> ESP_OK then Some (err, next_addr, hs @ [header], ds, st)
          else
            let data_addr = (next_addr + 8) mod 2 ^ 32 in
            segments_loop rd bld n ((data_addr + seg_data_len header) mod 2 ^ 32) (hs @ [header]) (ds @ [data_addr]) st)"

section \<open>The checks\<close>

definition verify_image_header :: "image_header \<Rightarrow> esp_err" where
  "verify_image_header img = (if magic img \<noteq> ESP_IMAGE_HEADER_MAGIC then ESP_ERR_IMAGE_INVALID else ESP_OK)"

definition xor_bytes :: "u32 \<Rightarrow> u8" where
  "xor_bytes w = ucast (drop_bit 24 w) XOR ucast (drop_bit 16 w) XOR ucast (drop_bit 8 w) XOR ucast w"

definition verify_checksum ::
  "reader \<Rightarrow> image_build \<Rightarrow> image_meta \<Rightarrow> load_state \<Rightarrow> esp_err \<times> image_meta \<times> load_state" where
  "verify_checksum rd bld meta st =
     (let unpadded_length = image_len meta;
          len = (unpadded_length + 1) mod 2 ^ 32;
          len = (len + 15) mod 2 ^ 32 div 16 * 16;
          n = (len + 2 ^ 32 - unpadded_length) mod 2 ^ 32;
          (err, buf) = bootloader_flash_read rd ((start_addr meta + unpadded_length) mod 2 ^ 32) (replicate n 0) n in
      if err \<noteq> ESP_OK then (ESP_ERR_IMAGE_INVALID, meta, st)
      else if xor_bytes (checksum st) \<noteq> buf ! (n - 1) then (ESP_ERR_IMAGE_INVALID, meta, st)
      else
        (ESP_OK, meta\<lparr>image_len := (if check_hash bld then (len + HASH_LEN) mod 2 ^ 32 else len)\<rparr>,
         if check_hash bld then sha_data buf st else st))"

definition verify_simple_hash :: "reader \<Rightarrow> sha256_ctx \<Rightarrow> image_meta \<Rightarrow> esp_err" where
  "verify_simple_hash rd ctx meta =
     (let (err, image_hash_flash) = bootloader_flash_read rd
            ((start_addr meta + image_len meta + 2 ^ 32 - HASH_LEN) mod 2 ^ 32) (replicate HASH_LEN 0) HASH_LEN in
      if err \<noteq> ESP_OK then ESP_ERR_IMAGE_INVALID
      else if image_hash_flash \<noteq> esp_sha256_finish ctx then ESP_ERR_IMAGE_INVALID
      else ESP_OK)"

text \<open>\<open>part = None\<close> is the null pointer; \<open>st\<close> holds the static buffer of the bootloader.\<close>

definition esp_image_load ::
  "reader \<Rightarrow> image_build \<Rightarrow> u8 list \<Rightarrow> pos option \<Rightarrow> (esp_err + image_meta) option" where
  "esp_image_load rd bld buf part =
     (case part of
        None \<Rightarrow> Some (Inl ESP_ERR_INVALID_ARG)
      | Some part \<Rightarrow>
        if SIXTEEN_MB < pos_size part then Some (Inl ESP_ERR_INVALID_ARG)
        else
          let start = pos_offset part;
              (err, bs) = bootloader_flash_read rd start (replicate 8 0) 8;
              img = parse_image_header bs in
          if err \<noteq> ESP_OK then Some (Inl err)
          else if check_hash bld \<and> sha_start bld = None then Some (Inl ESP_ERR_NO_MEM)
          else
            let st = sha_data bs \<lparr>pbuf = buf, checksum = ESP_ROM_CHECKSUM_INITIAL,
                       sha = (if check_hash bld then sha_start bld else None)\<rparr>;
                err = verify_image_header img in
            if err \<noteq> ESP_OK then Some (Inl err)
            else if ESP_IMAGE_MAX_SEGMENTS < segment_count img then Some (Inl ESP_ERR_IMAGE_INVALID)
            else case segments_loop rd bld (segment_count img) ((start + 8) mod 2 ^ 32) [] [] st of
              None \<Rightarrow> None
            | Some (err, end_addr, hs, ds, st) \<Rightarrow>
                if err \<noteq> ESP_OK then Some (Inl err)
                else if end_addr < start then Some (Inl ESP_ERR_IMAGE_INVALID)
                else case verify_checksum rd bld \<lparr>start_addr = start, image_hdr = img, segments = hs,
                       segment_data = ds, image_len = end_addr - start\<rparr> st of
                  (err, meta, st) \<Rightarrow>
                    if err \<noteq> ESP_OK then Some (Inl err)
                    else if pos_size part < image_len meta then Some (Inl ESP_ERR_IMAGE_INVALID)
                    else
                      let err = (if start \<noteq> ESP_BOOTLOADER_OFFSET then
                                   (case sha st of None \<Rightarrow> ESP_OK | Some ctx \<Rightarrow> verify_simple_hash rd ctx meta)
                                 else ESP_OK) in
                      if err \<noteq> ESP_OK then Some (Inl err) else Some (Inr meta))"

text \<open>\<open>esp_image_verify_bootloader\<close>: the result and the length it stores.\<close>

definition ESP_PARTITION_TABLE_OFFSET :: nat where "ESP_PARTITION_TABLE_OFFSET = ESP_PARTITION_TABLE_ADDR"

definition esp_image_verify_bootloader :: "reader \<Rightarrow> image_build \<Rightarrow> u8 list \<Rightarrow> (esp_err \<times> nat) option" where
  "esp_image_verify_bootloader rd bld buf =
     map_option (\<lambda>r. case r of Inl e \<Rightarrow> (e, 0) | Inr meta \<Rightarrow> (ESP_OK, image_len meta))
       (esp_image_load rd bld buf (Some \<lparr>pos_offset = ESP_BOOTLOADER_OFFSET,
          pos_size = ESP_PARTITION_TABLE_OFFSET - ESP_BOOTLOADER_OFFSET\<rparr>))"

end
