(* ===== verification/ImageProps.thy ===== *)
theory ImageProps
  imports ImageFormat
begin

text \<open>
  What \<open>esp_image_load\<close> accepts.  The specification reads the image in a memory: \<open>img_segs\<close> are the
  addresses and headers of the segments, \<open>image_valid\<close> is the check of magic byte, alignment, checksum and
  digest, \<open>image_fits\<close> says that the header names at most 16 segments and that the padded image ends inside
  its partition.  Then the code returns and decides \<open>image_valid\<close> exactly.  Without \<open>image_fits\<close> it may
  never return.
\<close>

section \<open>Specification\<close>

primrec image_segs :: "memory \<Rightarrow> nat \<Rightarrow> nat \<Rightarrow> (nat \<times> seg_header) list" where
  "image_segs m a 0 = []"
| "image_segs m a (Suc n) =
     (a + 8, parse_seg_header (mget m a 8)) #
       image_segs m (a + 8 + seg_data_len (parse_seg_header (mget m a 8))) n"

definition img_segs :: "memory \<Rightarrow> nat \<Rightarrow> (nat \<times> seg_header) list" where
  "img_segs m start = image_segs m (start + 8) (unat (m (start + 1)))"

definition seg_bytes :: "(nat \<times> seg_header) list \<Rightarrow> nat" where
  "seg_bytes xs = sum_list (map (\<lambda>(d, h). 8 + seg_data_len h) xs)"

definition seg_payload :: "memory \<Rightarrow> (nat \<times> seg_header) list \<Rightarrow> u8 list" where
  "seg_payload m xs = concat (map (\<lambda>(d, h). mget m d (seg_data_len h)) xs)"

definition xor_all :: "u8 \<Rightarrow> u8 list \<Rightarrow> u8" where
  "xor_all = foldl (\<lambda>x b. x XOR b)"

text \<open>The image up to and including its checksum byte fills whole blocks of 16 bytes.\<close>

definition sum_len :: "memory \<Rightarrow> nat \<Rightarrow> nat" where
  "sum_len m start = ((8 + seg_bytes (img_segs m start)) div 16 + 1) * 16"

definition full_len :: "bool \<Rightarrow> memory \<Rightarrow> nat \<Rightarrow> nat" where
  "full_len hash m start = sum_len m start + (if hash then HASH_LEN else 0)"

definition image_fits :: "bool \<Rightarrow> memory \<Rightarrow> pos \<Rightarrow> bool" where
  "image_fits hash m p \<longleftrightarrow>
     unat (m (pos_offset p + 1)) \<le> ESP_IMAGE_MAX_SEGMENTS \<and> full_len hash m (pos_offset p) \<le> pos_size p"

definition image_valid :: "bool \<Rightarrow> memory \<Rightarrow> nat \<Rightarrow> bool" where
  "image_valid hash m start \<longleftrightarrow>
     m start = 0xE9 \<and>
     (\<forall>x \<in> set (img_segs m start). 4 dvd seg_data_len (snd x)) \<and>
     m (start + sum_len m start - 1) = xor_all 0xEF (seg_payload m (img_segs m start)) \<and>
     (hash \<and> start \<noteq> ESP_BOOTLOADER_OFFSET \<longrightarrow>
        mget m (start + sum_len m start) HASH_LEN = fips_sha256 (mget m start (sum_len m start)))"

definition image_meta_of :: "bool \<Rightarrow> memory \<Rightarrow> nat \<Rightarrow> image_meta" where
  "image_meta_of hash m start = \<lparr>start_addr = start, image_hdr = parse_image_header (mget m start 8),
     segments = map snd (img_segs m start), segment_data = map fst (img_segs m start),
     image_len = full_len hash m start\<rparr>"

text \<open>Documented behaviour of the flash reads: a read that stays below \<open>lim\<close> fills the destination.\<close>

definition reads :: "reader \<Rightarrow> memory \<Rightarrow> nat \<Rightarrow> bool" where
  "reads rd m lim \<longleftrightarrow>
     (\<forall>a n old. 4 dvd a \<and> 4 dvd n \<and> a + n \<le> lim \<and> length old = n \<longrightarrow> rd a n old = mget m a n)"

definition build_ok :: "image_build \<Rightarrow> u8 list \<Rightarrow> bool" where
  "build_ok bld buf \<longleftrightarrow>
     length buf = SHA_CHUNK \<and>
     (\<not> in_bootloader bld \<longrightarrow> (\<exists>b. malloc_pbuf bld = Some b \<and> length b = SHA_CHUNK)) \<and>
     (check_hash bld \<longrightarrow> (\<exists>b. sha_start bld = Some (esp_sha256_init b) \<and> length b = 64))"

section \<open>Lemmas: the sum by words is the sum by bytes\<close>

lemma xor_bytes_xor: "xor_bytes (a XOR b) = xor_bytes a XOR xor_bytes b"
  by (rule bit_word_eqI) (auto simp: xor_bytes_def bit_simps)

lemma u8_high: "8 \<le> n \<Longrightarrow> \<not> bit (b :: u8) n"
  using bit_imp_le_length [of b n] by auto

lemma xor_bytes_le32: "xor_bytes (of_le32 bs) = bs ! 3 XOR bs ! 2 XOR bs ! 1 XOR bs ! 0"
proof (rule bit_word_eqI)
  fix n assume "n < LENGTH(8)"
  then show "bit (xor_bytes (of_le32 bs)) n = bit (bs ! 3 XOR bs ! 2 XOR bs ! 1 XOR bs ! 0) n"
    by (simp add: xor_bytes_def of_le32_def bit_simps u8_high)
qed

definition sum_words :: "u8 list \<Rightarrow> u32 \<Rightarrow> u32" where
  "sum_words bs = fold (\<lambda>k s. s XOR of_le32 (drop (4 * k) bs)) [0..<length bs div 4]"

lemma sum_words_step:
  assumes "4 \<le> length bs"
  shows "sum_words bs s = sum_words (drop 4 bs) (s XOR of_le32 bs)"
proof -
  have n: "length bs div 4 = Suc (length (drop 4 bs) div 4)" using assms by (simp add: div_if)
  have f: "fold (\<lambda>k s. s XOR of_le32 (drop (4 * k) bs)) (map Suc [0..<k]) t
      = fold (\<lambda>k s. s XOR of_le32 (drop (4 * k) (drop 4 bs))) [0..<k] t" for k t
    by (induction k) (simp_all add: add.commute)
  show ?thesis unfolding sum_words_def n upt_conv_Cons [OF zero_less_Suc] map_Suc_upt [symmetric]
    by (simp only: fold.simps comp_apply f) simp
qed

lemma xor_bytes_sum_words: "4 dvd length bs \<Longrightarrow> xor_bytes (sum_words bs s) = xor_all (xor_bytes s) bs"
proof (induction "length bs" arbitrary: bs s rule: less_induct)
  case less
  show ?case
  proof (cases "bs = []")
    case True
    then show ?thesis by (simp add: sum_words_def xor_all_def)
  next
    case False
    then have l4: "4 \<le> length bs" using less.prems by (auto dest: dvd_imp_le)
    then obtain a b c d r where bs: "bs = a # b # c # d # r"
      by (auto simp: Suc_le_length_iff numeral_eq_Suc)
    have len: "length bs = length r + 4" by (simp add: bs)
    have r: "4 dvd length r" using less.prems unfolding len by simp
    have x: "xor_bytes (of_le32 bs) = d XOR c XOR b XOR a" by (simp add: xor_bytes_le32 bs)
    have "xor_bytes (sum_words bs s) = xor_bytes (sum_words r (s XOR of_le32 bs))"
      using sum_words_step [OF l4, of s] bs by simp
    also have "\<dots> = xor_all (xor_bytes (s XOR of_le32 bs)) r"
      using len r by (intro less.hyps) simp_all
    also have "xor_bytes (s XOR of_le32 bs) = (((xor_bytes s XOR a) XOR b) XOR c) XOR d"
      unfolding xor_bytes_xor x by (simp only: ac_simps)
    finally show ?thesis by (simp add: xor_all_def bs)
  qed
qed

section \<open>Lemmas: what the loops feed to the sum and to the digest\<close>

definition sha_fed :: "u8 list \<Rightarrow> sha256_ctx option \<Rightarrow> sha256_ctx option \<Rightarrow> bool" where
  "sha_fed bs s s' \<longleftrightarrow> (\<exists>xss. concat xss = bs \<and> (\<forall>xs \<in> set xss. length xs < 2 ^ 32) \<and>
     s' = map_option (\<lambda>c. foldl esp_sha256_update c xss) s)"

lemma sha_fed_refl: "sha_fed [] s s"
  unfolding sha_fed_def by (rule exI [of _ "[]"]) (simp add: option.map_ident)

lemma sha_fed_trans: "sha_fed a s s' \<Longrightarrow> sha_fed b s' s'' \<Longrightarrow> sha_fed (a @ b) s s''"
proof -
  assume "sha_fed a s s'" "sha_fed b s' s''"
  then obtain x y where "concat x = a" "\<forall>xs \<in> set x. length xs < 2 ^ 32" "s' = map_option (\<lambda>c. foldl esp_sha256_update c x) s"
    "concat y = b" "\<forall>xs \<in> set y. length xs < 2 ^ 32" "s'' = map_option (\<lambda>c. foldl esp_sha256_update c y) s'"
    unfolding sha_fed_def by blast
  then show ?thesis unfolding sha_fed_def
    by (intro exI [of _ "x @ y"]) (auto simp: option.map_comp comp_def)
qed

lemma sha_fed_one: "length bs < 2 ^ 32 \<Longrightarrow> sha_fed bs s (map_option (\<lambda>c. esp_sha256_update c bs) s)"
  unfolding sha_fed_def by (rule exI [of _ "[bs]"]) simp

text \<open>From \<open>st\<close> to \<open>st'\<close> the bytes \<open>h\<close> went to the digest and the bytes \<open>d\<close> into the sum.\<close>

definition fed :: "u8 list \<Rightarrow> u8 list \<Rightarrow> load_state \<Rightarrow> load_state \<Rightarrow> bool" where
  "fed h d st st' \<longleftrightarrow> length (pbuf st') = SHA_CHUNK \<and>
     xor_bytes (checksum st') = xor_all (xor_bytes (checksum st)) d \<and> sha_fed h (sha st) (sha st')"

lemma fed_refl: "length (pbuf st) = SHA_CHUNK \<Longrightarrow> fed [] [] st st"
  by (simp add: fed_def sha_fed_refl xor_all_def)

lemma fed_trans: "fed h d st st' \<Longrightarrow> fed h' d' st' st'' \<Longrightarrow> fed (h @ h') (d @ d') st st''"
  unfolding fed_def xor_all_def by (auto intro: sha_fed_trans)

lemma fed_pbuf: "fed h d st st' \<Longrightarrow> length (pbuf st') = SHA_CHUNK"
  by (simp add: fed_def)

lemma fed_sha_data: "length (pbuf st) = SHA_CHUNK \<Longrightarrow> length bs < 2 ^ 32 \<Longrightarrow> fed bs [] st (sha_data bs st)"
  by (simp add: fed_def sha_data_def sha_fed_one xor_all_def)

lemma readsD:
  assumes "reads rd m lim" "4 dvd a" "4 dvd n" "a + n \<le> lim" "lim \<le> 2 ^ 31" "length old = n"
  shows "bootloader_flash_read rd a old n = (ESP_OK, mget m a n)"
    "bootloader_flash_read rd (a mod 2 ^ 32) old n = (ESP_OK, mget m a n)"
  using assms by (auto simp: reads_def bootloader_flash_read_def dvd_eq_mod_eq_0)

section \<open>Lemmas: the segments\<close>

lemma data_chunk_ok:
  assumes rd: "reads rd m lim" "lim \<le> 2 ^ 31" and al: "4 dvd addr" "4 dvd len" "4 dvd i"
    and fit: "addr + len \<le> lim" "i < len" and buf: "length (pbuf st) = SHA_CHUNK"
  shows "\<exists>st'. data_chunk rd addr len i st = (ESP_OK, st') \<and>
    fed (mget m (addr + i) (min SHA_CHUNK (len - i))) (mget m (addr + i) (min SHA_CHUNK (len - i))) st st'"
proof -
  let ?n = "min SHA_CHUNK (len - i)" and ?b = "mget m (addr + i) (min SHA_CHUNK (len - i))"
  have n4: "4 dvd ?n" using al by (simp add: min_def SHA_CHUNK_def dvd_diff_nat)
  have "bootloader_flash_read rd ((addr + i) mod 2 ^ 32) (take ?n (pbuf st)) ?n = (ESP_OK, ?b)"
    using fit al n4 buf by (intro readsD(2) [OF rd(1) _ _ _ rd(2)]) auto
  then have "data_chunk rd addr len i st = (ESP_OK, sha_data ?b (st\<lparr>pbuf := overwrite (pbuf st) 0 ?b,
      checksum := sum_words ?b (checksum st)\<rparr>))"
    by (simp add: data_chunk_def Let_def sum_words_def)
  moreover have "fed ?b ?b st (sha_data ?b (st\<lparr>pbuf := overwrite (pbuf st) 0 ?b, checksum := sum_words ?b (checksum st)\<rparr>))"
    using buf n4 by (simp add: fed_def sha_data_def sha_fed_one xor_bytes_sum_words SHA_CHUNK_def)
  ultimately show ?thesis by blast
qed

lemma data_loop_ok:
  assumes rd: "reads rd m lim" "lim \<le> 2 ^ 31" and al: "4 dvd addr" "4 dvd len" "4 dvd i"
    and fit: "addr + len \<le> lim" and buf: "length (pbuf st) = SHA_CHUNK"
  shows "\<exists>st'. data_loop rd addr len i st = Some (ESP_OK, st') \<and>
    fed (mget m (addr + i) (len - i)) (mget m (addr + i) (len - i)) st st'"
  using al(3) buf
proof (induction "len - i" arbitrary: i st rule: less_induct)
  case less
  show ?case
  proof (cases "i < len")
    case True
    let ?n = "min SHA_CHUNK (len - i)"
    obtain st1 where c: "data_chunk rd addr len i st = (ESP_OK, st1)" "fed (mget m (addr + i) ?n) (mget m (addr + i) ?n) st st1"
      using data_chunk_ok [OF rd al(1,2) less.prems(1) fit True less.prems(2)] by blast
    have w: "(i + SHA_CHUNK) mod 2 ^ 32 = i + SHA_CHUNK"
      using True fit rd(2) by (simp add: SHA_CHUNK_def)
    have d: "4 dvd i + SHA_CHUNK" using less.prems(1) by (simp add: SHA_CHUNK_def)
    have lt: "len - (i + SHA_CHUNK) < len - i" using True by (simp add: SHA_CHUNK_def)
    obtain st' where r: "data_loop rd addr len (i + SHA_CHUNK) st1 = Some (ESP_OK, st')"
      "fed (mget m (addr + (i + SHA_CHUNK)) (len - (i + SHA_CHUNK))) (mget m (addr + (i + SHA_CHUNK)) (len - (i + SHA_CHUNK))) st1 st'"
      using less.hyps [OF lt d fed_pbuf [OF c(2)]] by blast
    have "mget m (addr + i) (len - i) = mget m (addr + i) ?n @ mget m (addr + (i + SHA_CHUNK)) (len - (i + SHA_CHUNK))"
    proof (cases "SHA_CHUNK \<le> len - i")
      case True
      then have "len - i = SHA_CHUNK + (len - (i + SHA_CHUNK))" by simp
      then have "mget m (addr + i) (len - i) = mget m (addr + i) SHA_CHUNK @ mget m (addr + i + SHA_CHUNK) (len - (i + SHA_CHUNK))"
        by (metis mget_add)
      then show ?thesis using True by (simp add: add.assoc)
    next
      case False
      then show ?thesis by simp
    qed
    moreover have "data_loop rd addr len i st = Some (ESP_OK, st')"
      using True r(1) w [simplified] by (subst data_loop.simps) (simp add: c(1) Let_def)
    ultimately show ?thesis using fed_trans [OF c(2) r(2)] by auto
  next
    case False
    then show ?thesis using fed_refl [OF less.prems(2)] by (subst data_loop.simps) simp
  qed
qed

lemma process_segment_data_ok:
  assumes "reads rd m lim" "lim \<le> 2 ^ 31" "4 dvd addr" "4 dvd len" "addr + len \<le> lim"
    and "length (pbuf st) = SHA_CHUNK" and "build_ok bld buf"
  shows "\<exists>st'. process_segment_data rd bld addr len st = Some (ESP_OK, st') \<and>
    fed (mget m addr len) (mget m addr len) st st'"
proof -
  obtain b where b: "process_segment_data rd bld addr len st = data_loop rd addr len 0 (st\<lparr>pbuf := b\<rparr>)" "length b = SHA_CHUNK"
    using assms(6,7) by (cases "in_bootloader bld")
      (auto simp: process_segment_data_def build_ok_def intro: that [of "pbuf st"])
  have "\<exists>st'. data_loop rd addr len 0 (st\<lparr>pbuf := b\<rparr>) = Some (ESP_OK, st') \<and>
    fed (mget m addr len) (mget m addr len) (st\<lparr>pbuf := b\<rparr>) st'"
    using data_loop_ok [OF assms(1-4) dvd_0_right assms(5), of "st\<lparr>pbuf := b\<rparr>"] b(2) by simp
  then show ?thesis using b(1) by (auto simp: fed_def)
qed

lemma process_segment_ok:
  assumes "reads rd m lim" "lim \<le> 2 ^ 31" "4 dvd a" "length (pbuf st) = SHA_CHUNK" "build_ok bld buf"
    and h: "h = parse_seg_header (mget m a 8)" and fit: "a + 8 + seg_data_len h \<le> lim"
  shows "if 4 dvd seg_data_len h then
      \<exists>st'. process_segment rd bld a st = Some (ESP_OK, h, st') \<and>
        fed (mget m a (8 + seg_data_len h)) (mget m (a + 8) (seg_data_len h)) st st'
    else \<exists>st'. process_segment rd bld a st = Some (ESP_ERR_IMAGE_INVALID, h, st')"
proof -
  have r: "bootloader_flash_read rd a (replicate 8 0) 8 = (ESP_OK, mget m a 8)"
    using fit by (intro readsD(1) [OF assms(1,3) _ _ assms(2)]) simp_all
  have w: "(a + 8) mod 2 ^ 32 = a + 8" using fit assms(2) by simp
  let ?st = "sha_data (mget m a 8) st"
  have f: "fed (mget m a 8) [] st ?st" using fed_sha_data [OF assms(4)] by simp
  show ?thesis
  proof (cases "4 dvd seg_data_len h")
    case True
    then obtain st' where d: "process_segment_data rd bld (a + 8) (seg_data_len h) ?st = Some (ESP_OK, st')"
      "fed (mget m (a + 8) (seg_data_len h)) (mget m (a + 8) (seg_data_len h)) ?st st'"
      using process_segment_data_ok [OF assms(1,2) _ True fit fed_pbuf [OF f] assms(5)] assms(3) by auto
    have "process_segment rd bld a st = Some (ESP_OK, h, st')"
      using True d(1) unfolding process_segment_def Let_def r w by (simp add: h verify_segment_header_def dvd_eq_mod_eq_0)
    moreover have "fed (mget m a (8 + seg_data_len h)) (mget m (a + 8) (seg_data_len h)) st st'"
      using fed_trans [OF f d(2)] by (simp add: mget_add)
    ultimately show ?thesis using True by simp
  next
    case False
    then have "process_segment rd bld a st = Some (ESP_ERR_IMAGE_INVALID, h, ?st)"
      unfolding process_segment_def Let_def r w by (simp add: h verify_segment_header_def dvd_eq_mod_eq_0)
    then show ?thesis using False by simp
  qed
qed

lemma seg_bytes_Cons: "seg_bytes ((d, h) # xs) = 8 + seg_data_len h + seg_bytes xs"
  by (simp add: seg_bytes_def)

lemma segments_loop_ok:
  assumes "reads rd m lim" "lim \<le> 2 ^ 31" "4 dvd a" "length (pbuf st) = SHA_CHUNK" "build_ok bld buf"
    and "a + seg_bytes (image_segs m a n) \<le> lim"
  shows "if \<forall>x \<in> set (image_segs m a n). 4 dvd seg_data_len (snd x) then
      \<exists>st'. segments_loop rd bld n a hs ds st = Some (ESP_OK, a + seg_bytes (image_segs m a n),
          hs @ map snd (image_segs m a n), ds @ map fst (image_segs m a n), st') \<and>
        fed (mget m a (seg_bytes (image_segs m a n))) (seg_payload m (image_segs m a n)) st st'
    else \<exists>r. segments_loop rd bld n a hs ds st = Some (ESP_ERR_IMAGE_INVALID, r)"
  using assms(3,4,6)
proof (induction n arbitrary: a hs ds st)
  case 0
  then show ?case using fed_refl by (simp add: seg_bytes_def seg_payload_def)
next
  case (Suc n)
  define h where "h = parse_seg_header (mget m a 8)"
  let ?a = "a + 8 + seg_data_len h"
  have segs: "image_segs m a (Suc n) = (a + 8, h) # image_segs m ?a n" by (simp add: h_def)
  have tot: "?a + seg_bytes (image_segs m ?a n) \<le> lim"
    using Suc.prems(3) unfolding segs seg_bytes_Cons by simp
  then have fit: "?a \<le> lim" by simp
  have w: "(a + 8) mod 2 ^ 32 = a + 8" "?a mod 2 ^ 32 = ?a" using fit assms(2) by simp_all
  note ps = process_segment_ok [OF assms(1,2) Suc.prems(1,2) assms(5) h_def fit]
  show ?case
  proof (cases "4 dvd seg_data_len h")
    case False
    then obtain st' where "process_segment rd bld a st = Some (ESP_ERR_IMAGE_INVALID, h, st')" using ps by auto
    then show ?thesis using False by (simp add: segs del: image_segs.simps)
  next
    case True
    then obtain st1 where p: "process_segment rd bld a st = Some (ESP_OK, h, st1)"
      "fed (mget m a (8 + seg_data_len h)) (mget m (a + 8) (seg_data_len h)) st st1" using ps by auto
    have step: "segments_loop rd bld (Suc n) a hs ds st = segments_loop rd bld n ?a (hs @ [h]) (ds @ [a + 8]) st1"
      by (simp add: p(1) Let_def w [simplified])
    have a4: "4 dvd ?a" using Suc.prems(1) True by simp
    note ih = Suc.IH [OF a4 fed_pbuf [OF p(2)] tot, of "hs @ [h]" "ds @ [a + 8]"]
    show ?thesis
    proof (cases "\<forall>x \<in> set (image_segs m ?a n). 4 dvd seg_data_len (snd x)")
      case ok: True
      then obtain st' where r: "segments_loop rd bld n ?a (hs @ [h]) (ds @ [a + 8]) st1 = Some (ESP_OK,
          ?a + seg_bytes (image_segs m ?a n), (hs @ [h]) @ map snd (image_segs m ?a n),
          (ds @ [a + 8]) @ map fst (image_segs m ?a n), st')"
        "fed (mget m ?a (seg_bytes (image_segs m ?a n))) (seg_payload m (image_segs m ?a n)) st1 st'"
        using ih by auto
      have "fed (mget m a (8 + seg_data_len h) @ mget m ?a (seg_bytes (image_segs m ?a n)))
          (mget m (a + 8) (seg_data_len h) @ seg_payload m (image_segs m ?a n)) st st'"
        by (rule fed_trans [OF p(2) r(2)])
      moreover have "mget m a (8 + seg_data_len h) @ mget m ?a (seg_bytes (image_segs m ?a n))
          = mget m a (seg_bytes (image_segs m a (Suc n)))"
        unfolding segs seg_bytes_Cons by (simp add: mget_add add.assoc)
      moreover have "mget m (a + 8) (seg_data_len h) @ seg_payload m (image_segs m ?a n)
          = seg_payload m (image_segs m a (Suc n))" unfolding segs by (simp add: seg_payload_def)
      ultimately show ?thesis using True ok unfolding step r(1)
        by (simp add: segs seg_bytes_Cons add.assoc del: image_segs.simps)
    next
      case bad: False
      then obtain r where r: "segments_loop rd bld n ?a (hs @ [h]) (ds @ [a + 8]) st1 = Some (ESP_ERR_IMAGE_INVALID, r)"
        using ih by (simp only: if_False) blast
      have ne: "\<not> (\<forall>x \<in> set (image_segs m a (Suc n)). 4 dvd seg_data_len (snd x))"
        using bad unfolding segs by simp
      show ?thesis unfolding if_not_P [OF ne] step by (rule exI) (rule r)
    qed
  qed
qed

section \<open>Lemmas: the checks\<close>

lemma sum_len_bounds: "raw \<le> (raw div 16 + 1) * 16" "(raw div 16 + 1) * 16 \<le> raw + (16 :: nat)" "raw < (raw div 16 + 1) * 16"
proof -
  have "raw div 16 * 16 + raw mod 16 = raw" "raw mod 16 < 16" "(raw div 16 + 1) * 16 = raw div 16 * 16 + 16" by simp_all
  then show "raw \<le> (raw div 16 + 1) * 16" "(raw div 16 + 1) * 16 \<le> raw + 16" "raw < (raw div 16 + 1) * 16"
    by simp_all
qed

lemma verify_checksum_ok:
  assumes rd: "reads rd m lim" "lim \<le> 2 ^ 31" and al: "4 dvd start_addr meta" "4 dvd image_len meta"
    and len: "len = (image_len meta div 16 + 1) * 16" and fit: "start_addr meta + len \<le> lim"
  shows "verify_checksum rd bld meta st =
    (if m (start_addr meta + len - 1) = xor_bytes (checksum st) then
       (ESP_OK, meta\<lparr>image_len := (if check_hash bld then len + HASH_LEN else len)\<rparr>,
        if check_hash bld then sha_data (mget m (start_addr meta + image_len meta) (len - image_len meta)) st else st)
     else (ESP_ERR_IMAGE_INVALID, meta, st))"
proof -
  let ?L = "image_len meta" and ?n = "len - image_len meta"
  have b: "?L < len" "len \<le> ?L + 16" unfolding len using sum_len_bounds [of ?L] by simp_all
  have e1: "((?L + 1) mod 2 ^ 32 + 15) mod 2 ^ 32 div 16 * 16 = len"
    using b fit rd(2) by (simp add: len div_add_self1)
  have e2: "(len + 2 ^ 32 - ?L) mod 2 ^ 32 = ?n"
  proof -
    have "len + 2 ^ 32 - ?L = ?n + 2 ^ 32" using b by simp
    then show ?thesis using b fit rd(2) by (simp only: mod_add_self2) simp
  qed
  have n4: "4 dvd ?n" using al(2) by (simp add: len dvd_diff_nat)
  have r: "bootloader_flash_read rd ((start_addr meta + ?L) mod 2 ^ 32) (replicate ?n 0) ?n
      = (ESP_OK, mget m (start_addr meta + ?L) ?n)"
    using al n4 b fit by (intro readsD(2) [OF rd(1) _ _ _ rd(2)]) auto
  have last: "mget m (start_addr meta + ?L) ?n ! (?n - 1) = m (start_addr meta + len - 1)"
    using b by simp
  have h: "(len + HASH_LEN) mod 2 ^ 32 = len + HASH_LEN" using fit rd(2) by (simp add: HASH_LEN_def)
  show ?thesis unfolding verify_checksum_def Let_def e1 e2 r prod.case last h by auto
qed

lemma verify_simple_hash_ok:
  assumes "reads rd m lim" "lim \<le> 2 ^ 31" "4 dvd start_addr meta" "4 dvd len" "image_len meta = len + HASH_LEN"
    and "start_addr meta + image_len meta \<le> lim"
  shows "verify_simple_hash rd ctx meta =
    (if mget m (start_addr meta + len) HASH_LEN = esp_sha256_finish ctx then ESP_OK else ESP_ERR_IMAGE_INVALID)"
proof -
  have a: "(start_addr meta + image_len meta + 2 ^ 32 - HASH_LEN) mod 2 ^ 32 = start_addr meta + len"
  proof -
    have "start_addr meta + image_len meta + 2 ^ 32 - HASH_LEN = start_addr meta + len + 2 ^ 32"
      using assms(5) by simp
    then show ?thesis using assms(2,5,6) by (simp only: mod_add_self2) simp
  qed
  have "bootloader_flash_read rd (start_addr meta + len) (replicate HASH_LEN 0) HASH_LEN
      = (ESP_OK, mget m (start_addr meta + len) HASH_LEN)"
    using assms by (intro readsD(1) [OF assms(1) _ _ _ assms(2)]) (simp_all add: HASH_LEN_def)
  then show ?thesis by (simp add: verify_simple_hash_def Let_def a [simplified])
qed

lemma sha_fed_digest:
  assumes "sha_fed bs (Some (esp_sha256_init b)) s" "length b = 64"
  shows "\<exists>c. s = Some c \<and> esp_sha256_finish c = fips_sha256 bs"
  using assms sha_digests [OF assms(2)] by (auto simp: sha_fed_def)

section \<open>The decision\<close>

lemma image_load_decides:
  assumes rd: "reads rd m lim" "lim \<le> 2 ^ 31" and bld: "build_ok bld buf"
    and p: "4 dvd pos_offset p" "pos_size p \<le> SIXTEEN_MB" "pos_offset p + pos_size p \<le> lim"
    and fits: "image_fits (check_hash bld) m p"
  shows "esp_image_load rd bld buf (Some p) =
    Some (if image_valid (check_hash bld) m (pos_offset p) then Inr (image_meta_of (check_hash bld) m (pos_offset p))
          else Inl ESP_ERR_IMAGE_INVALID)"
proof -
  let ?s = "pos_offset p" and ?h = "check_hash bld"
  let ?xs = "img_segs m ?s" and ?S = "sum_len m ?s"
  define L where "L = 8 + seg_bytes ?xs"
  have S: "?S = (L div 16 + 1) * 16" by (simp add: sum_len_def L_def)
  have LS: "L < ?S" "4 dvd ?S" unfolding S using sum_len_bounds(3) [of L] by simp_all
  have room: "?s + full_len ?h m ?s \<le> lim" "full_len ?h m ?s \<le> pos_size p" "?S \<le> full_len ?h m ?s"
    using fits p(3) by (simp_all add: image_fits_def full_len_def)
  have r: "bootloader_flash_read rd ?s (replicate 8 0) 8 = (ESP_OK, mget m ?s 8)"
    using room LS by (intro readsD(1) [OF rd(1) p(1) _ _ rd(2)]) (simp_all add: L_def)
  define img where "img = parse_image_header (mget m ?s 8)"
  have img: "segment_count img = unat (m (?s + 1))" "magic img = m ?s"
    by (simp_all add: img_def parse_image_header_def)
  have cnt: "\<not> ESP_IMAGE_MAX_SEGMENTS < segment_count img" using fits by (simp add: image_fits_def img)
  obtain sb where sb: "?h \<longrightarrow> sha_start bld = Some (esp_sha256_init sb) \<and> length sb = 64"
    using bld by (auto simp: build_ok_def)
  let ?init = "\<lparr>pbuf = buf, checksum = ESP_ROM_CHECKSUM_INITIAL, sha = (if ?h then sha_start bld else None)\<rparr>"
  let ?st = "sha_data (mget m ?s 8) ?init"
  have f0: "fed (mget m ?s 8) [] ?init ?st" using bld by (intro fed_sha_data) (simp_all add: build_ok_def)
  have end_le: "?s + 8 + seg_bytes ?xs \<le> lim" using room LS by (simp add: L_def)
  have w8: "(?s + 8) mod 2 ^ 32 = ?s + 8" using end_le rd(2) by simp
  have a4: "4 dvd ?s + 8" using p(1) by simp
  note loop = segments_loop_ok [OF rd a4 fed_pbuf [OF f0] bld end_le [unfolded img_segs_def], folded img_segs_def img(1), of "[]" "[]"]
  have start: "esp_image_load rd bld buf (Some p) =
    (if magic img \<noteq> ESP_IMAGE_HEADER_MAGIC then Some (Inl ESP_ERR_IMAGE_INVALID)
     else case segments_loop rd bld (segment_count img) (?s + 8) [] [] ?st of
              None \<Rightarrow> None
            | Some (err, end_addr, hs, ds, st) \<Rightarrow>
                if err \<noteq> ESP_OK then Some (Inl err)
                else if end_addr < ?s then Some (Inl ESP_ERR_IMAGE_INVALID)
                else case verify_checksum rd bld \<lparr>start_addr = ?s, image_hdr = img, segments = hs,
                       segment_data = ds, image_len = end_addr - ?s\<rparr> st of
                  (err, meta, st) \<Rightarrow>
                    if err \<noteq> ESP_OK then Some (Inl err)
                    else if pos_size p < image_len meta then Some (Inl ESP_ERR_IMAGE_INVALID)
                    else
                      let err = (if ?s \<noteq> ESP_BOOTLOADER_OFFSET then
                                   (case sha st of None \<Rightarrow> ESP_OK | Some ctx \<Rightarrow> verify_simple_hash rd ctx meta)
                                 else ESP_OK) in
                      if err \<noteq> ESP_OK then Some (Inl err) else Some (Inr meta))"
    using p(2) sb cnt unfolding esp_image_load_def option.case Let_def r prod.case img_def [symmetric] w8
    by (auto simp: verify_image_header_def)
  show ?thesis
  proof (cases "magic img = ESP_IMAGE_HEADER_MAGIC \<and> (\<forall>x \<in> set ?xs. 4 dvd seg_data_len (snd x))")
    case False
    then have "\<not> image_valid ?h m ?s" using img by (auto simp: image_valid_def ESP_IMAGE_HEADER_MAGIC_def)
    moreover have "esp_image_load rd bld buf (Some p) = Some (Inl ESP_ERR_IMAGE_INVALID)"
    proof (cases "magic img = ESP_IMAGE_HEADER_MAGIC")
      case True
      then have ne: "\<not> (\<forall>x \<in> set ?xs. 4 dvd seg_data_len (snd x))" using False by simp
      obtain q where "segments_loop rd bld (segment_count img) (?s + 8) [] [] ?st = Some (ESP_ERR_IMAGE_INVALID, q)"
        using loop unfolding if_not_P [OF ne] by blast
      then show ?thesis unfolding start using True by (simp add: case_prod_beta)
    qed (simp add: start)
    ultimately show ?thesis by simp
  next
    case True
    then obtain st1 where l: "segments_loop rd bld (segment_count img) (?s + 8) [] [] ?st =
        Some (ESP_OK, ?s + L, map snd ?xs, map fst ?xs, st1)"
      "fed (mget m (?s + 8) (seg_bytes ?xs)) (seg_payload m ?xs) ?st st1"
      using loop by (auto simp: L_def add.assoc)
    have f1: "fed (mget m ?s L) (seg_payload m ?xs) ?init st1"
      using fed_trans [OF f0 l(2)] unfolding L_def mget_add by simp
    then have sum: "xor_bytes (checksum st1) = xor_all 0xEF (seg_payload m ?xs)"
      by (simp add: fed_def ESP_ROM_CHECKSUM_INITIAL_def xor_bytes_def)
    have L4: "4 dvd L"
    proof -
      have "4 dvd seg_bytes ys" if "\<forall>x \<in> set ys. 4 dvd seg_data_len (snd x)" for ys :: "(nat \<times> seg_header) list"
        using that by (induction ys) (auto simp: seg_bytes_def)
      then show ?thesis using True by (simp add: L_def)
    qed
    let ?mi = "\<lparr>start_addr = ?s, image_hdr = img, segments = map snd ?xs, segment_data = map fst ?xs, image_len = L\<rparr>"
    let ?mf = "image_meta_of ?h m ?s"
    define st2 where "st2 = (if ?h then sha_data (mget m (?s + L) (?S - L)) st1 else st1)"
    have vc: "verify_checksum rd bld ?mi st1 =
      (if m (?s + ?S - 1) = xor_all 0xEF (seg_payload m ?xs) then (ESP_OK, ?mf, st2) else (ESP_ERR_IMAGE_INVALID, ?mi, st1))"
      using verify_checksum_ok [OF rd, of ?mi ?S bld st1] p(1) L4 S room
      by (simp add: sum image_meta_of_def full_len_def img_def st2_def)
    have sha: "case sha st2 of None \<Rightarrow> \<not> ?h | Some c \<Rightarrow> ?h \<and> esp_sha256_finish c = fips_sha256 (mget m ?s ?S)"
    proof (cases ?h)
      case h: True
      have "fed (mget m ?s L @ mget m (?s + L) (?S - L)) (seg_payload m ?xs) ?init st2"
        using fed_trans [OF f1 fed_sha_data [OF fed_pbuf [OF f1], of "mget m (?s + L) (?S - L)"]] h room rd(2)
        by (simp add: st2_def)
      then have "sha_fed (mget m ?s ?S) (sha ?init) (sha st2)"
        using LS(1) by (simp add: fed_def mget_add [symmetric])
      then have "\<exists>c. sha st2 = Some c \<and> esp_sha256_finish c = fips_sha256 (mget m ?s ?S)"
        using sha_fed_digest [of "mget m ?s ?S" sb "sha st2"] sb h by simp
      then show ?thesis using h by auto
    next
      case h: False
      then have "sha st2 = None" using f1 by (auto simp: st2_def fed_def sha_fed_def)
      then show ?thesis using h by simp
    qed
    have hash: "(if ?s \<noteq> ESP_BOOTLOADER_OFFSET then
          (case sha st2 of None \<Rightarrow> ESP_OK | Some ctx \<Rightarrow> verify_simple_hash rd ctx ?mf) else ESP_OK) =
        (if ?h \<and> ?s \<noteq> ESP_BOOTLOADER_OFFSET \<longrightarrow> mget m (?s + ?S) HASH_LEN = fips_sha256 (mget m ?s ?S)
         then ESP_OK else ESP_ERR_IMAGE_INVALID)"
    proof (cases "sha st2")
      case None
      then show ?thesis using sha by simp
    next
      case (Some c)
      then have "verify_simple_hash rd c ?mf =
        (if mget m (?s + ?S) HASH_LEN = esp_sha256_finish c then ESP_OK else ESP_ERR_IMAGE_INVALID)"
        using sha verify_simple_hash_ok [OF rd, of ?mf ?S c] p(1) LS(2) room
        by (simp add: image_meta_of_def full_len_def)
      then show ?thesis using Some sha by simp
    qed
    let ?C = "m (?s + ?S - 1) = xor_all 0xEF (seg_payload m ?xs)"
    let ?D = "?h \<and> ?s \<noteq> ESP_BOOTLOADER_OFFSET \<longrightarrow> mget m (?s + ?S) HASH_LEN = fips_sha256 (mget m ?s ?S)"
    have valid: "image_valid ?h m ?s \<longleftrightarrow> ?C \<and> ?D"
      using True img by (auto simp: image_valid_def ESP_IMAGE_HEADER_MAGIC_def)
    have after: "esp_image_load rd bld buf (Some p) =
      (case (if ?C then (ESP_OK, ?mf, st2) else (ESP_ERR_IMAGE_INVALID, ?mi, st1)) of
         (err, meta, st) \<Rightarrow>
           if err \<noteq> ESP_OK then Some (Inl err)
           else if pos_size p < image_len meta then Some (Inl ESP_ERR_IMAGE_INVALID)
           else
             let err = (if ?s \<noteq> ESP_BOOTLOADER_OFFSET then
                          (case sha st of None \<Rightarrow> ESP_OK | Some ctx \<Rightarrow> verify_simple_hash rd ctx meta)
                        else ESP_OK) in
             if err \<noteq> ESP_OK then Some (Inl err) else Some (Inr meta))"
      using True unfolding start l(1) option.case prod.case vc [symmetric] by simp
    have size_ok: "\<not> pos_size p < image_len ?mf" using room(2) by (simp add: image_meta_of_def)
    show ?thesis
    proof (cases ?C)
      case C: True
      note run = after [unfolded if_P [OF C] prod.case Let_def hash if_not_P [OF size_ok]]
      show ?thesis
      proof (cases ?D)
        case D: True
        show ?thesis unfolding run valid if_P [OF D] if_P [OF conjI [OF C D]] by simp
      next
        case D: False
        then have n: "\<not> (?C \<and> ?D)" by blast
        show ?thesis unfolding run valid if_not_P [OF D] if_not_P [OF n] by simp
      qed
    next
      case C: False
      then show ?thesis unfolding after valid if_not_P [OF C] prod.case by simp
    qed
  qed
qed

section \<open>Lemmas: what the decision depends on\<close>

lemma image_segs_cong:
  assumes "\<forall>x. a \<le> x \<and> x < a + seg_bytes (image_segs m a n) \<longrightarrow> m' x = m x"
  shows "image_segs m' a n = image_segs m a n"
  using assms
proof (induction n arbitrary: a)
  case (Suc n)
  define h where "h = parse_seg_header (mget m a 8)"
  let ?a = "a + 8 + seg_data_len h"
  have segs: "image_segs m a (Suc n) = (a + 8, h) # image_segs m ?a n" by (simp add: h_def)
  have agree: "\<forall>x. a \<le> x \<and> x < ?a + seg_bytes (image_segs m ?a n) \<longrightarrow> m' x = m x"
    using Suc.prems unfolding segs seg_bytes_Cons by (simp add: add.assoc)
  then have "mget m' a 8 = mget m a 8" by (intro mget_cong) simp
  then have "image_segs m' a (Suc n) = (a + 8, h) # image_segs m' ?a n" by (simp add: h_def)
  also have "image_segs m' ?a n = image_segs m ?a n" by (rule Suc.IH) (use agree in simp)
  finally show ?case unfolding segs .
qed simp

lemma image_segs_inside:
  "x \<in> set (image_segs m a n) \<Longrightarrow> a + 8 \<le> fst x \<and> fst x + seg_data_len (snd x) \<le> a + seg_bytes (image_segs m a n)"
proof (induction n arbitrary: a)
  case (Suc n)
  show ?case
  proof (cases "x \<in> set (image_segs m (a + 8 + seg_data_len (parse_seg_header (mget m a 8))) n)")
    case True
    from Suc.IH [OF this] show ?thesis by (simp add: seg_bytes_Cons)
  qed (use Suc.prems in \<open>simp add: seg_bytes_Cons\<close>)
qed simp

lemma image_same:
  assumes agree: "\<forall>x. pos_offset p \<le> x \<and> x < pos_offset p + pos_size p \<longrightarrow> m' x = m x"
    and fits: "image_fits h m p"
  shows "image_fits h m' p" "image_valid h m' (pos_offset p) = image_valid h m (pos_offset p)"
proof -
  let ?s = "pos_offset p"
  have S: "8 + seg_bytes (img_segs m ?s) < sum_len m ?s" unfolding sum_len_def by (rule sum_len_bounds(3))
  have room: "sum_len m ?s + (if h then HASH_LEN else 0) \<le> pos_size p"
    using fits by (simp add: image_fits_def full_len_def)
  have at: "m' (?s + i) = m (?s + i)" if "i < pos_size p" for i using agree that by simp
  have cnt: "m' (?s + 1) = m (?s + 1)" "m' ?s = m ?s" using at [of 1] at [of 0] S room by simp_all
  have segs: "img_segs m' ?s = img_segs m ?s"
    unfolding img_segs_def cnt(1)
    by (rule image_segs_cong) (use agree S room in \<open>simp add: img_segs_def\<close>)
  have sl: "sum_len m' ?s = sum_len m ?s" by (simp add: sum_len_def segs)
  have pay: "seg_payload m' (img_segs m ?s) = seg_payload m (img_segs m ?s)"
  proof -
    have "mget m' (fst x) (seg_data_len (snd x)) = mget m (fst x) (seg_data_len (snd x))" if "x \<in> set (img_segs m ?s)" for x
    proof -
      have "?s + 8 + 8 \<le> fst x" "fst x + seg_data_len (snd x) \<le> ?s + 8 + seg_bytes (img_segs m ?s)"
        using image_segs_inside [OF that [unfolded img_segs_def]] by (simp_all add: img_segs_def)
      then show ?thesis using agree S room by (intro mget_cong) auto
    qed
    then show ?thesis unfolding seg_payload_def by (intro arg_cong [where f = concat] map_cong) auto
  qed
  show "image_fits h m' p" using fits cnt(1) by (simp add: image_fits_def full_len_def sl)
  have sum: "m' (?s + sum_len m ?s - 1) = m (?s + sum_len m ?s - 1)"
    using at [of "sum_len m ?s - 1"] S room by simp
  have dig: "mget m' ?s (sum_len m ?s) = mget m ?s (sum_len m ?s)"
    using agree room by (intro mget_cong) auto
  have tail: "mget m' (?s + sum_len m ?s) HASH_LEN = mget m (?s + sum_len m ?s) HASH_LEN" if h
    using agree room that by (intro mget_cong) auto
  show "image_valid h m' ?s = image_valid h m ?s"
    unfolding image_valid_def segs sl pay cnt(2) sum dig using tail by auto
qed

text \<open>Changing one byte of a segment's data.\<close>

lemma xor_all_update:
  "i < length xs \<Longrightarrow> xor_all v (xs[i := b]) = xor_all v xs XOR xs ! i XOR b"
proof (induction xs arbitrary: i v)
  case (Cons x xs)
  have lin: "xor_all (v XOR c) ys = xor_all v ys XOR c" for v c ys
  proof (induction ys arbitrary: v)
    case (Cons a ys)
    have "xor_all (v XOR c) (a # ys) = xor_all ((v XOR a) XOR c) ys"
      by (simp add: xor_all_def ac_simps)
    then show ?case unfolding Cons.IH by (simp add: xor_all_def)
  qed (simp add: xor_all_def)
  show ?case
  proof (cases i)
    case 0
    have "xor_all v (b # xs) = xor_all v xs XOR b" "xor_all v (x # xs) = xor_all v xs XOR x"
      using lin by (simp_all add: xor_all_def)
    then show ?thesis using 0 by (simp add: ac_simps)
  next
    case (Suc j)
    then show ?thesis using Cons.IH [of j "v XOR x"] Cons.prems by (simp add: xor_all_def)
  qed
qed simp

lemma seg_payload_update:
  assumes x: "x \<in> set (image_segs m a n)" "fst x \<le> y" "y < fst x + seg_data_len (snd x)"
  shows "image_segs (m(y := b)) a n = image_segs m a n \<and>
    (\<exists>i < length (seg_payload m (image_segs m a n)). seg_payload m (image_segs m a n) ! i = m y \<and>
       seg_payload (m(y := b)) (image_segs m a n) = (seg_payload m (image_segs m a n))[i := b])"
  using assms
proof (induction n arbitrary: a)
  case (Suc n)
  define h where "h = parse_seg_header (mget m a 8)"
  let ?a = "a + 8 + seg_data_len h" and ?m = "m(y := b)"
  let ?xs = "image_segs m ?a n"
  have segs: "image_segs m a (Suc n) = (a + 8, h) # ?xs" by (simp add: h_def)
  have y8: "a + 8 \<le> y" using image_segs_inside [OF Suc.prems(1)] Suc.prems(2) by simp
  then have "mget ?m a 8 = mget m a 8" by (intro mget_cong) simp
  then have segs': "image_segs ?m a (Suc n) = (a + 8, h) # image_segs ?m ?a n" by (simp add: h_def)
  have pay: "seg_payload m' ((a + 8, h) # ys) = mget m' (a + 8) (seg_data_len h) @ seg_payload m' ys" for m' ys
    by (simp add: seg_payload_def)
  show ?case
  proof (cases "x \<in> set ?xs")
    case True
    have later: "?a \<le> y" using image_segs_inside [OF True] Suc.prems(2) by simp
    obtain i where i: "i < length (seg_payload m ?xs)" "seg_payload m ?xs ! i = m y"
      "seg_payload ?m ?xs = (seg_payload m ?xs)[i := b]" and e: "image_segs ?m ?a n = ?xs"
      using Suc.IH [OF True Suc.prems(2,3)] by blast
    have first: "mget ?m (a + 8) (seg_data_len h) = mget m (a + 8) (seg_data_len h)"
      using later by (intro mget_cong) simp
    show ?thesis unfolding segs segs' e pay first i(3) using i
      by (auto intro!: exI [of _ "seg_data_len h + i"] simp: nth_append list_update_append)
  next
    case False
    then have "x = (a + 8, h)" using Suc.prems(1) segs by simp
    then have y: "a + 8 \<le> y" "y < ?a" using Suc.prems(2,3) by simp_all
    have e: "image_segs ?m ?a n = ?xs" by (rule image_segs_cong) (use y in simp)
    have "mget ?m (fst z) (seg_data_len (snd z)) = mget m (fst z) (seg_data_len (snd z))" if "z \<in> set ?xs" for z
      using image_segs_inside [OF that] y by (intro mget_cong) simp
    then have rest: "seg_payload ?m ?xs = seg_payload m ?xs"
      unfolding seg_payload_def by (intro arg_cong [where f = concat] map_cong) auto
    have first: "mget ?m (a + 8) (seg_data_len h) = (mget m (a + 8) (seg_data_len h))[y - (a + 8) := b]"
      using y by (intro nth_equalityI) (auto simp: nth_list_update)
    show ?thesis unfolding segs segs' e pay first rest using y
      by (intro conjI refl exI [of _ "y - (a + 8)"]) (auto simp: nth_append list_update_append)
  qed
qed simp

section \<open>Lemmas: a segment length that is never reached\<close>

definition stuck_at :: "nat \<Rightarrow> nat \<Rightarrow> nat \<Rightarrow> bool" where
  "stuck_at addr len i \<longleftrightarrow> 4 dvd addr \<and> 4 dvd len \<and> 0xFFFFFC00 < len \<and> len < 2 ^ 32 \<and> SHA_CHUNK dvd i \<and> i < 2 ^ 32"

lemma stuck_step:
  assumes "stuck_at addr len i"
  shows "i < len" "fst (data_chunk rd addr len i st) = ESP_OK" "stuck_at addr len ((i + SHA_CHUNK) mod 2 ^ 32)"
proof -
  have st: "4 dvd addr" "4 dvd len" "0xFFFFFC00 < len" "SHA_CHUNK dvd i" "i < 2 ^ 32" "len < 2 ^ 32"
    using assms by (simp_all add: stuck_at_def)
  then obtain q where q: "i = 1024 * q" by (auto simp: SHA_CHUNK_def elim: dvdE)
  then have "1024 * q < 1024 * 4194304" using st(5) by simp
  then have "q \<le> 4194303" by simp
  then have "i \<le> 1024 * 4194303" unfolding q by (rule mult_le_mono2)
  then show lt: "i < len" using st(3) by simp
  have i4: "4 dvd i" unfolding q by (rule dvd_mult2) simp
  have "4 dvd min SHA_CHUNK (len - i)" using st(2) i4 by (simp add: min_def SHA_CHUNK_def dvd_diff_nat)
  moreover have "4 dvd (addr + i) mod 2 ^ 32" by (rule dvd_mod) (use st(1) i4 in simp_all)
  ultimately have a: "min SHA_CHUNK (len - i) mod 4 = 0" "(addr + i) mod 2 ^ 32 mod 4 = 0"
    by (simp_all only: dvd_eq_mod_eq_0)
  show "fst (data_chunk rd addr len i st) = ESP_OK"
    unfolding data_chunk_def bootloader_flash_read_def Let_def a by simp
  have "SHA_CHUNK dvd (2 :: nat) ^ 32" unfolding SHA_CHUNK_def by (rule dvdI [of _ _ "2 ^ 22"]) simp
  then have "SHA_CHUNK dvd (i + SHA_CHUNK) mod 2 ^ 32" using st(4) by (intro dvd_mod) simp_all
  then show "stuck_at addr len ((i + SHA_CHUNK) mod 2 ^ 32)" using st by (simp add: stuck_at_def)
qed

lemma data_loop_stuck:
  assumes "stuck_at addr len i"
  shows "data_loop rd addr len i st = None"
proof (rule ccontr)
  assume "data_loop rd addr len i st \<noteq> None"
  then obtain r where r: "data_loop rd addr len i st = Some r" by auto
  have "\<not> stuck_at addr len i"
    apply (rule data_loop.raw_induct [where P = "\<lambda>rd addr len i st r. \<not> stuck_at addr len i", OF _ r])
    subgoal for rec rd addr len i st r
      using stuck_step(1,3) [of addr len i] stuck_step(2) [of addr len i rd st]
      by (cases r) (auto simp: Let_def)
    done
  then show False using assms by simp
qed

text \<open>The witnesses use the image \<open>tiny_image\<close>.\<close>

definition tiny_memory :: memory where
  "tiny_memory = mcpy (\<lambda>_. 0xFF) 0x10000 tiny_image"

definition tiny_pos :: pos where
  "tiny_pos = \<lparr>pos_offset = 0x10000, pos_size = 0x1000\<rparr>"

definition boot_build :: image_build where
  "boot_build = \<lparr>in_bootloader = True, malloc_pbuf = None, check_hash = False, sha_start = None\<rparr>"

lemma tiny_bytes: "mget tiny_memory 0x10000 32 = tiny_image"
  by (simp add: tiny_memory_def mem_simps tiny_image_def)

lemma mget_sub: "mget m a n = bs \<Longrightarrow> k + i \<le> n \<Longrightarrow> mget m (a + k) i = take i (drop k bs)"
  by (rule nth_equalityI) (auto simp: add.assoc)

lemma tiny_segs:
  assumes t: "mget m a 32 = tiny_image"
  shows "img_segs m a = [(a + 16, \<lparr>seg_load_addr = 0x40210000, seg_data_len = 4\<rparr>)]" "sum_len m a = 32"
    "image_valid False m a" "m (a + 1) = 1" "m a = 0xE9"
proof -
  have at: "m (a + i) = tiny_image ! i" if "i < 32" for i using that t by (metis nth_mget)
  have "mget m (a + 8) 8 = [0, 0, 0x21, 0x40, 4, 0, 0, 0]"
    using mget_sub [OF t, of 8 8] by (simp add: tiny_image_def)
  then have h: "parse_seg_header (mget m (a + 8) 8) = \<lparr>seg_load_addr = 0x40210000, seg_data_len = 4\<rparr>"
    by (simp add: parse_seg_header_def of_le32_def)
  show c: "m (a + 1) = 1" using at [of 1] by (simp add: tiny_image_def)
  have "unat (m (a + 1)) = Suc 0" unfolding c by simp
  then show s: "img_segs m a = [(a + 16, \<lparr>seg_load_addr = 0x40210000, seg_data_len = 4\<rparr>)]"
    by (simp add: img_segs_def h)
  show l: "sum_len m a = 32" by (simp add: sum_len_def s seg_bytes_def)
  have "mget m (a + 16) 4 = [0xAA, 0xBB, 0xCC, 0xDD]"
    using mget_sub [OF t, of 16 4] by (simp add: tiny_image_def)
  moreover have "m (a + 31) = 0xEF" using at [of 31] by (simp add: tiny_image_def nth_append)
  moreover show "m a = 0xE9" using at [of 0] by (simp add: tiny_image_def)
  ultimately show "image_valid False m a"
    by (simp add: image_valid_def s l seg_payload_def xor_all_def add.commute)
qed

lemma tiny_fits: "image_fits False tiny_memory tiny_pos"
  using tiny_segs [OF tiny_bytes] by (simp add: image_fits_def full_len_def tiny_pos_def image_consts)

lemma reads_mget: "reads (\<lambda>a n old. mget m a n) m lim"
  by (simp add: reads_def)

lemma boot_build_ok: "build_ok boot_build (replicate 1024 0)"
  by (simp add: build_ok_def boot_build_def SHA_CHUNK_def)

section \<open>Properties\<close>

text \<open>C2: When the header of an image names at most 16 segments and the padded image ends inside its
  partition, \<open>esp_image_load\<close> returns, and it accepts exactly the valid images: the magic byte, segment
  lengths that are multiples of four, the checksum byte equal to the exclusive or of 0xEF and all segment
  data, and, where the digest is checked and the image is not the bootloader, the SHA-256 of FIPS 180-4
  of everything before it.  The metadata names the segments where they are.\<close>

theorem image_load_exact:
  assumes "reads rd m lim" and "lim \<le> 2 ^ 31" and "build_ok bld buf" and "4 dvd pos_offset p"
    and "pos_size p \<le> SIXTEEN_MB" and "pos_offset p + pos_size p \<le> lim" and "image_fits (check_hash bld) m p"
  shows "esp_image_load rd bld buf (Some p) =
    Some (if image_valid (check_hash bld) m (pos_offset p) then Inr (image_meta_of (check_hash bld) m (pos_offset p))
          else Inl ESP_ERR_IMAGE_INVALID)"
  using assms by (rule image_load_decides)

lemma image_load_exact_witness:
  "esp_image_load (\<lambda>a n old. mget tiny_memory a n) boot_build (replicate 1024 0) (Some tiny_pos)
     = Some (Inr (image_meta_of False tiny_memory 0x10000))"
proof -
  have "esp_image_load (\<lambda>a n old. mget tiny_memory a n) boot_build (replicate 1024 0) (Some tiny_pos) =
    Some (if image_valid (check_hash boot_build) tiny_memory (pos_offset tiny_pos)
          then Inr (image_meta_of (check_hash boot_build) tiny_memory (pos_offset tiny_pos))
          else Inl ESP_ERR_IMAGE_INVALID)"
    by (rule image_load_exact [OF reads_mget _ boot_build_ok, where lim = "2 ^ 31"])
       (simp_all add: tiny_pos_def SIXTEEN_MB_def tiny_fits [unfolded tiny_pos_def] boot_build_def)
  moreover have "image_valid False tiny_memory 0x10000" by (rule tiny_segs(3) [OF tiny_bytes])
  ultimately show ?thesis by (simp add: boot_build_def tiny_pos_def)
qed

text \<open>C3: A change of any single byte of the segment data of a valid image is noticed.\<close>

theorem image_corruption_detected:
  assumes "reads rd (m(y := b)) lim" and "lim \<le> 2 ^ 31" and "build_ok bld buf" and "4 dvd pos_offset p"
    and "pos_size p \<le> SIXTEEN_MB" and "pos_offset p + pos_size p \<le> lim" and "image_fits (check_hash bld) m p"
    and "image_valid (check_hash bld) m (pos_offset p)"
    and "x \<in> set (img_segs m (pos_offset p))" and "fst x \<le> y" and "y < fst x + seg_data_len (snd x)" and "b \<noteq> m y"
  shows "esp_image_load rd bld buf (Some p) = Some (Inl ESP_ERR_IMAGE_INVALID)"
proof -
  let ?s = "pos_offset p" and ?m = "m(y := b)"
  have rng: "?s + 8 + 8 \<le> fst x" "fst x + seg_data_len (snd x) \<le> ?s + 8 + seg_bytes (img_segs m ?s)"
    using image_segs_inside [OF assms(9) [unfolded img_segs_def]] by (simp_all add: img_segs_def)
  then have cnt: "?m (?s + 1) = m (?s + 1)" using assms(10) by simp
  obtain i where segs: "img_segs ?m ?s = img_segs m ?s"
    and i: "i < length (seg_payload m (img_segs m ?s))" "seg_payload m (img_segs m ?s) ! i = m y"
      "seg_payload ?m (img_segs m ?s) = (seg_payload m (img_segs m ?s))[i := b]"
    using seg_payload_update [OF assms(9) [unfolded img_segs_def] assms(10,11), of b] unfolding img_segs_def cnt by auto
  have sl: "sum_len ?m ?s = sum_len m ?s" by (simp add: sum_len_def segs)
  have "8 + seg_bytes (img_segs m ?s) < sum_len m ?s" unfolding sum_len_def by (rule sum_len_bounds(3))
  then have "y < ?s + sum_len m ?s - 1" using rng assms(11) by linarith
  then have "?m (?s + sum_len m ?s - 1) = m (?s + sum_len m ?s - 1)" by simp
  moreover have "m (?s + sum_len m ?s - 1) = xor_all 0xEF (seg_payload m (img_segs m ?s))"
    using assms(8) by (simp add: image_valid_def)
  moreover have "xor_all 0xEF (seg_payload ?m (img_segs m ?s)) \<noteq> xor_all 0xEF (seg_payload m (img_segs m ?s))"
  proof -
    have "v XOR c XOR b \<noteq> v" if "b \<noteq> c" for v c :: u8
      using that by (metis xor.assoc xor.commute xor.left_neutral xor_self_eq)
    then show ?thesis unfolding i(3) xor_all_update [OF i(1)] i(2) using assms(12) by blast
  qed
  ultimately have "\<not> image_valid (check_hash bld) ?m ?s"
    by (auto simp: image_valid_def segs sl)
  moreover have "image_fits (check_hash bld) ?m p"
    using assms(7) cnt by (simp add: image_fits_def full_len_def sl)
  ultimately show ?thesis using image_load_decides [OF assms(1-6)] by simp
qed

lemma image_corruption_detected_witness:
  "esp_image_load (\<lambda>a n old. mget (tiny_memory(0x10011 := 0xBA)) a n) boot_build (replicate 1024 0) (Some tiny_pos)
     = Some (Inl ESP_ERR_IMAGE_INVALID)"
  by (rule image_corruption_detected [OF reads_mget _ boot_build_ok, where lim = "2 ^ 31" and
        x = "(0x10000 + 16, \<lparr>seg_load_addr = 0x40210000, seg_data_len = 4\<rparr>)"])
    (use tiny_fits tiny_segs [OF tiny_bytes] mget_sub [OF tiny_bytes, of 17 1] in
      \<open>simp_all add: tiny_pos_def SIXTEEN_MB_def boot_build_def tiny_image_def mget_def\<close>)

text \<open>C4: The checks of \<open>verify_segment_header\<close> are commented out in the ESP8266 code, so nothing bounds a
  segment's length: an image whose first segment claims more than 0xFFFFFC00 bytes keeps
  \<open>esp_image_load\<close>, in the application and in the bootloader, in its loop for ever.\<close>

theorem image_load_hangs:
  assumes "reads rd m lim" and "lim \<le> 2 ^ 31" and "build_ok bld buf" and "4 dvd pos_offset p"
    and "pos_size p \<le> SIXTEEN_MB" and "pos_offset p + 16 \<le> lim"
    and "m (pos_offset p) = 0xE9" and "0 < unat (m (pos_offset p + 1))" and "unat (m (pos_offset p + 1)) \<le> 16"
    and "0xFFFFFC00 < seg_data_len (parse_seg_header (mget m (pos_offset p + 8) 8))"
    and "4 dvd seg_data_len (parse_seg_header (mget m (pos_offset p + 8) 8))"
  shows "esp_image_load rd bld buf (Some p) = None"
proof -
  let ?s = "pos_offset p" and ?h = "parse_seg_header (mget m (pos_offset p + 8) 8)"
  have r: "bootloader_flash_read rd ?s (replicate 8 0) 8 = (ESP_OK, mget m ?s 8)"
    "bootloader_flash_read rd (?s + 8) (replicate 8 0) 8 = (ESP_OK, mget m (?s + 8) 8)"
    using assms(4,6) by (simp_all add: readsD(1) [OF assms(1) _ _ _ assms(2)])
  have w: "(?s + 8) mod 2 ^ 32 = ?s + 8" "(?s + 8 + 8) mod 2 ^ 32 = ?s + 16" using assms(2,6) by simp_all
  have "seg_data_len ?h < 2 ^ 32" using u32_less by (simp add: parse_seg_header_def)
  then have stuck: "stuck_at (?s + 16) (seg_data_len ?h) 0" using assms(4,10,11) by (simp add: stuck_at_def)
  have "process_segment_data rd bld (?s + 16) (seg_data_len ?h) st = None" for st
    using assms(3) data_loop_stuck [OF stuck] by (auto simp: process_segment_data_def build_ok_def)
  then have seg: "process_segment rd bld (?s + 8) st = None" for st
    unfolding process_segment_def Let_def r(2) w(2) using assms(11)
    by (simp add: verify_segment_header_def dvd_eq_mod_eq_0)
  obtain n where n: "unat (m (?s + 1)) = Suc n" using assms(8) by (metis gr0_conv_Suc)
  have hdr: "segment_count (parse_image_header (mget m ?s 8)) = Suc n" "magic (parse_image_header (mget m ?s 8)) = 0xE9"
    using n assms(7) by (simp_all add: parse_image_header_def)
  obtain sb where "check_hash bld \<longrightarrow> sha_start bld = Some sb" using assms(3) by (auto simp: build_ok_def)
  then show ?thesis using assms(5,9) n unfolding esp_image_load_def option.case Let_def r(1) prod.case w(1)
    by (simp add: hdr seg verify_image_header_def image_consts ESP_IMAGE_HEADER_MAGIC_def)
qed

lemma image_load_hangs_witness:
  "esp_image_load (\<lambda>a n old. mget (mcpy tiny_memory 0x1000C [0xFC, 0xFF, 0xFF, 0xFF]) a n) boot_build
     (replicate 1024 0) (Some tiny_pos) = None"
proof -
  let ?m = "mcpy tiny_memory 0x1000C [0xFC, 0xFF, 0xFF, 0xFF]"
  have "mget ?m (0x10008 + 4) 4 = [0xFC, 0xFF, 0xFF, 0xFF]" by (simp add: mem_simps)
  then have "drop 4 (mget ?m 0x10008 8) = [0xFC, 0xFF, 0xFF, 0xFF]"
    using mget_add [of ?m "0x10008" 4 4] by simp
  then have h: "seg_data_len (parse_seg_header (mget ?m 0x10008 8)) = 0xFFFFFFFC"
    by (simp add: parse_seg_header_def of_le32_def)
  have "?m 0x10000 = 0xE9" "?m 0x10001 = 1"
    using tiny_segs(4,5) [OF tiny_bytes] by (simp_all add: mem_simps)
  then show ?thesis
    by (intro image_load_hangs [OF reads_mget _ boot_build_ok, where lim = "2 ^ 31"])
       (simp_all add: tiny_pos_def SIXTEEN_MB_def h)
qed

end
