(* ===== verification/BootImage.thy ===== *)
theory BootImage
  imports ImageProps
begin

text \<open>
  The update and the boot with the image check between them.  \<open>app_image_load\<close> is \<open>esp_image_load\<close> as the
  application runs it, reading through its flash driver (\<open>SpiFlash\<close>), and \<open>bootloader_loads\<close> as the bootloader
  runs it before it boots a position.  The theorem follows one image from \<open>esp_ota_set_boot_partition\<close> to
  \<open>select_image\<close>: what the application verified is what the bootloader verifies again and boots.
\<close>

section \<open>The two callers of the image check\<close>

text \<open>\<open>bootloader_flash_read_no_decrypt\<close> in the application: the result of \<open>spi_flash_read\<close> is dropped.\<close>

definition app_reader :: "'c flash_rom \<Rightarrow> 'c \<Rightarrow> reader" where
  "app_reader rom c a n old =
     (case spi_flash_read rom c False a n of Inl e \<Rightarrow> old | Inr bs \<Rightarrow> bs)"

definition app_image_load :: "'c flash_rom \<Rightarrow> image_build \<Rightarrow> u8 list \<Rightarrow> 'c \<Rightarrow> nat \<Rightarrow> nat \<Rightarrow> u32 option option" where
  "app_image_load rom bld buf c offset sz =
     (case esp_image_load (app_reader rom c) bld buf (Some \<lparr>pos_offset = offset, pos_size = sz\<rparr>) of
        None \<Rightarrow> None
      | Some (Inl err) \<Rightarrow> Some None
      | Some (Inr meta) \<Rightarrow> Some (Some (entry_addr (image_hdr meta))))"

definition bootloader_loads :: "reader \<Rightarrow> image_build \<Rightarrow> u8 list \<Rightarrow> pos \<Rightarrow> bool option" where
  "bootloader_loads rd bld buf p =
     (case esp_image_load rd bld buf (Some p) of
        None \<Rightarrow> None
      | Some (Inl err) \<Rightarrow> Some False
      | Some (Inr meta) \<Rightarrow> Some True)"

lemma app_reader_reads:
  assumes "nor_chip rom view" and "\<forall>a n. 4 dvd a \<and> 4 dvd n \<and> a + n \<le> chip_size rom \<longrightarrow>
    (\<exists>bs. spi_flash_read rom c False a n = Inr bs)"
  shows "reads (app_reader rom c) (view c) (chip_size rom)"
  unfolding reads_def
proof (intro allI impI)
  fix a n and old :: "u8 list"
  assume a: "4 dvd a \<and> 4 dvd n \<and> a + n \<le> chip_size rom \<and> length old = n"
  then obtain bs where bs: "spi_flash_read rom c False a n = Inr bs" using assms(2) by blast
  then have "bs = mget (view c) a n" using a by (intro nor_chip.read_ok [OF assms(1)]) simp_all
  then show "app_reader rom c a n old = mget (view c) a n" using bs by (simp add: app_reader_def)
qed

section \<open>From the update to the boot\<close>

text \<open>C1: From the update to the boot: the application and the bootloader run the same image check over the
  same flash, so when \<open>esp_ota_set_boot_partition\<close> has accepted the image of an OTA partition, the
  bootloader selects exactly this partition, verifies its image successfully and boots it.\<close>

theorem ota_update_boots:
  assumes "nor_chip (chip_rom env) view" and "ota_ready env view st d n"
    and "boot_table (view (flash st)) (chip_size (chip_rom env)) (plist st)" and "unique_parts (plist st) n"
    and "in_window d" and "p \<in> set (plist st)" and "is_ota_partition p"
    and "image_load env = app_image_load (chip_rom env) bld buf" and "build_ok bld buf"
    and "\<forall>a k. 4 dvd a \<and> 4 dvd k \<and> a + k \<le> chip_size (chip_rom env) \<longrightarrow>
      (\<exists>bs. spi_flash_read (chip_rom env) (flash st) False a k = Inr bs)"
    and "4 dvd p_address p" and "p_size p \<le> SIXTEEN_MB" and "p_address p + p_size p \<le> chip_size (chip_rom env)"
    and "p_address d + 2 * SPI_FLASH_SEC_SIZE \<le> p_address p \<or> p_address p + p_size p \<le> p_address d"
    and "image_fits (check_hash bld) (view (flash st)) \<lparr>pos_offset = p_address p, pos_size = p_size p\<rparr>"
    and "esp_ota_set_boot_partition env st (Some p) = Some (ESP_OK, st')"
    and "cache_maps cache (view (flash st'))"
    and "reads rd (view (flash st')) (chip_size (chip_rom env))"
    and "build_ok bld' buf'" and "check_hash bld' = check_hash bld"
  shows "select_image cache (chip_size (chip_rom env)) (bootloader_loads rd bld' buf')
    = Some (Some \<lparr>pos_offset = p_address p, pos_size = p_size p\<rparr>)"
proof -
  let ?p = "\<lparr>pos_offset = p_address p, pos_size = p_size p\<rparr>"
  let ?m = "view (flash st)" and ?m' = "view (flash st')" and ?h = "check_hash bld"
  have lim: "chip_size (chip_rom env) \<le> 2 ^ 31" by (rule nor_chip.chip_size_bound [OF assms(1)])
  have p: "p_type p = PART_TYPE_APP" "p_subtype p \<noteq> PART_SUBTYPE_FACTORY"
    using assms(7) by (auto simp: is_ota_partition_def part_consts ota_consts)
  have "\<exists>e. app_image_load (chip_rom env) bld buf (flash st) (p_address p) (p_size p) = Some (Some e)"
    using assms(8,16) by (auto simp: esp_ota_set_boot_partition_def split: option.splits)
  then have valid: "image_valid ?h ?m (p_address p)"
    using image_load_decides [OF app_reader_reads [OF assms(1,10)] lim assms(9), of ?p] assms(11-13,15)
    by (auto simp: app_image_load_def split: if_splits sum.splits)
  obtain s where s: "s \<in> {0, 1 :: nat}" "\<forall>x. x < p_address d + s * SPI_FLASH_SEC_SIZE
       \<or> p_address d + (s + 1) * SPI_FLASH_SEC_SIZE \<le> x \<longrightarrow> ?m' x = ?m x"
  proof -
    let ?t = "target_sec (record_at ?m d 0) (record_at ?m d 1)"
    have "?t \<in> {0, 1}" by (simp add: target_sec_def)
    then show thesis using set_boot_run [OF assms(1,2) p set_boot_returns [of env st p]] assms(16) by (intro that [of ?t]) auto
  qed
  have same: "\<forall>x. pos_offset ?p \<le> x \<and> x < pos_offset ?p + pos_size ?p \<longrightarrow> ?m' x = ?m x"
    using s assms(14) by (auto simp: flash_consts)
  note m' = image_same [OF same assms(15)]
  have "bootloader_loads rd bld' buf' ?p = Some True"
    using image_load_decides [OF assms(18) lim assms(19), of ?p] m' valid assms(11-13,20)
    by (simp add: bootloader_loads_def)
  moreover have "p_size p \<noteq> 0" using assms(15) by (auto simp: image_fits_def full_len_def sum_len_def)
  ultimately show ?thesis by (intro ota_boot_end_to_end [OF assms(1-7,16,17)])
qed

definition app_build :: image_build where
  "app_build = \<lparr>in_bootloader = False, malloc_pbuf = Some (replicate 1024 0), check_hash = False, sha_start = None\<rparr>"

definition boot_demo_env :: "sim_flash ota_env" where
  "boot_demo_env = demo_env\<lparr>image_load := app_image_load sure_rom app_build (replicate 1024 0)\<rparr>"

lemma app_build_ok: "build_ok app_build (replicate 1024 0)"
  by (simp add: build_ok_def app_build_def SHA_CHUNK_def)

lemma sure_reads: "4 dvd a \<Longrightarrow> 4 dvd n \<Longrightarrow> \<exists>bs. spi_flash_read sure_rom c False a n = Inr bs"
proof (cases "n = 0")
  case False
  assume "4 dvd a" "4 dvd n"
  then show ?thesis using False sure_read [of a n c] by auto
qed (simp add: spi_flash_read_def)

lemma demo_slot_bytes: "mget (cells (flash demo_ota_state)) 0x11000 32 = tiny_image"
proof -
  have "length (select_bytes demo_select) = 32" by (simp add: demo_select_def SELECT_SIZE_def)
  then show ?thesis by (simp add: demo_ota_state_def mem_simps)
qed

lemma demo_slot_fits: "image_fits False (cells (flash demo_ota_state)) \<lparr>pos_offset = 0x11000, pos_size = 0x1000\<rparr>"
  using tiny_segs(2,4) [OF demo_slot_bytes] by (simp add: image_fits_def full_len_def image_consts)

lemma demo_app_image: "\<exists>e. image_load boot_demo_env (flash demo_ota_state) 0x11000 0x1000 = Some (Some e)"
proof -
  have "reads (app_reader sure_rom (flash demo_ota_state)) (cells (flash demo_ota_state)) (chip_size sure_rom)"
    using sure_reads by (intro app_reader_reads sure.nor_chip_axioms) blast
  moreover have "chip_size sure_rom = 0x100000" by (simp add: sure_rom_def sim_rom_def)
  ultimately have "esp_image_load (app_reader sure_rom (flash demo_ota_state)) app_build (replicate 1024 0)
      (Some \<lparr>pos_offset = 0x11000, pos_size = 0x1000\<rparr>)
    = Some (Inr (image_meta_of False (cells (flash demo_ota_state)) 0x11000))"
    using image_load_decides [of "app_reader sure_rom (flash demo_ota_state)" "cells (flash demo_ota_state)" "0x100000"
        app_build "replicate 1024 0" "\<lparr>pos_offset = 0x11000, pos_size = 0x1000\<rparr>"]
      app_build_ok demo_slot_fits tiny_segs(3) [OF demo_slot_bytes]
    by (simp add: app_build_def SIXTEEN_MB_def)
  then show ?thesis by (simp add: boot_demo_env_def app_image_load_def)
qed

lemma ota_update_boots_witness:
  "\<exists>st'. esp_ota_set_boot_partition boot_demo_env demo_ota_state (Some demo_ota1) = Some (ESP_OK, st') \<and>
    select_image (demo_cache (cells (flash st'))) 0x100000
        (bootloader_loads (\<lambda>a n old. mget (cells (flash st')) a n) boot_build (replicate 1024 0))
      = Some (Some \<lparr>pos_offset = 0x11000, pos_size = 0x1000\<rparr>)"
proof -
  have rom: "chip_rom boot_demo_env = sure_rom" by (simp add: boot_demo_env_def demo_env_def)
  obtain e where "image_load boot_demo_env (flash demo_ota_state) 0x11000 0x1000 = Some (Some e)" using demo_app_image by blast
  then obtain st' where run: "esp_ota_set_boot_partition boot_demo_env demo_ota_state (Some demo_ota1) = Some (ESP_OK, st')"
    using demo_set_boot_any [OF rom] by blast
  have chip: "chip_size (chip_rom boot_demo_env) = 0x100000" by (simp add: rom sure_rom_def sim_rom_def)
  have tbl: "boot_table (cells (flash demo_ota_state)) (chip_size (chip_rom boot_demo_env)) (plist demo_ota_state)"
    unfolding chip by (rule demo_boot_table)
  have "select_image (demo_cache (cells (flash st'))) (chip_size (chip_rom boot_demo_env))
        (bootloader_loads (\<lambda>a n old. mget (cells (flash st')) a n) boot_build (replicate 1024 0))
      = Some (Some \<lparr>pos_offset = p_address demo_ota1, pos_size = p_size demo_ota1\<rparr>)"
  proof (rule ota_update_boots [OF _ demo_ready_any [OF rom] tbl demo_unique _ _ _ app_build_ok _ _ _ _ _ _ run
        demo_cache_maps reads_mget boot_build_ok])
    show "nor_chip (chip_rom boot_demo_env) cells" unfolding rom by (rule sure.nor_chip_axioms)
    show "demo_ota1 \<in> set (plist demo_ota_state)" by (simp add: demo_plist(1))
    show "image_load boot_demo_env = app_image_load (chip_rom boot_demo_env) app_build (replicate 1024 0)"
      unfolding rom by (simp add: boot_demo_env_def)
    show "\<forall>a k. 4 dvd a \<and> 4 dvd k \<and> a + k \<le> chip_size (chip_rom boot_demo_env) \<longrightarrow>
      (\<exists>bs. spi_flash_read (chip_rom boot_demo_env) (flash demo_ota_state) False a k = Inr bs)"
      unfolding rom using sure_reads by blast
    show "image_fits (check_hash app_build) (cells (flash demo_ota_state))
      \<lparr>pos_offset = p_address demo_ota1, pos_size = p_size demo_ota1\<rparr>"
      using demo_slot_fits by (simp add: app_build_def demo_ota1_def)
  qed (simp_all add: demo_parts is_ota_partition_def part_consts ota_consts chip SIXTEEN_MB_def flash_consts
      app_build_def boot_build_def)
  then show ?thesis using run by (simp add: chip demo_ota1_def)
qed

end
