(* ===== verification/Sha1.thy ===== *)
theory Sha1
  imports Hash
begin

text \<open>
  The SHA-1 digest of \<open>components/util/src/sha1.c\<close>.  The 80 unrolled macro calls of
  \<open>esp_sha1_transform\<close> rename the five variables at every call; here the variables are the list \<open>V\<close> and
  call \<open>i\<close> uses them from position \<open>-i\<close> on.  The schedule lives in the 16 words of \<open>block->l\<close>, which the
  macros \<open>blk0\<close> and \<open>blk\<close> update in place.  The two words \<open>total[2]\<close> count bits.  \<open>fips_sha1\<close> is the digest
  as FIPS 180-4 defines it.
\<close>

section \<open>The code\<close>

record sha1_ctx =
  s1_state :: "u32 list"
  s1_total0 :: u32
  s1_total1 :: u32
  s1_buffer :: "u8 list"

definition rol :: "u32 \<Rightarrow> nat \<Rightarrow> u32" where
  "rol v bits = push_bit bits v OR drop_bit (32 - bits) v"

definition blk0 :: "u32 list \<Rightarrow> nat \<Rightarrow> u32 list" where
  "blk0 l i = l[i := (rol (l ! i) 24 AND 0xFF00FF00) OR (rol (l ! i) 8 AND 0x00FF00FF)]"

definition blk :: "u32 list \<Rightarrow> nat \<Rightarrow> u32 list" where
  "blk l i = l[i mod 16 := rol (l ! ((i + 13) mod 16) XOR l ! ((i + 8) mod 16) XOR l ! ((i + 2) mod 16)
     XOR l ! (i mod 16)) 1]"

text \<open>The macros \<open>R0\<close> to \<open>R4\<close>: the mixing of \<open>w\<close>, \<open>x\<close>, \<open>y\<close> and the constant of call \<open>i\<close>.\<close>

definition R_mix :: "nat \<Rightarrow> u32 \<Rightarrow> u32 \<Rightarrow> u32 \<Rightarrow> u32" where
  "R_mix i w x y =
     (if i < 20 then (w AND (x XOR y)) XOR y
      else if i < 40 then w XOR x XOR y
      else if i < 60 then ((w OR x) AND y) OR (w AND x)
      else w XOR x XOR y)"

definition R_const :: "nat \<Rightarrow> u32" where
  "R_const i =
     (if i < 20 then 0x5A827999 else if i < 40 then 0x6ED9EBA1 else if i < 60 then 0x8F1BBCDC else 0xCA62C1D6)"

definition R_call :: "nat \<Rightarrow> u32 list \<times> u32 list \<Rightarrow> u32 list \<times> u32 list" where
  "R_call i = (\<lambda>(V, l).
     let p = (\<lambda>k. (k + 80 - i) mod 5);
         v = V ! p 0; w = V ! p 1; x = V ! p 2; y = V ! p 3; z = V ! p 4;
         l = (if i < 16 then blk0 l i else blk l i);
         V = V[p 4 := z + (R_mix i w x y + l ! (i mod 16) + R_const i + rol v 5)];
         V = V[p 1 := rol w 30] in
     (V, l))"

definition esp_sha1_transform :: "u32 list \<Rightarrow> u8 list \<Rightarrow> u32 list" where
  "esp_sha1_transform state buffer =
     (let l = map (\<lambda>i. of_le32 (drop (4 * i) buffer)) [0..<16];
          (V, l) = fold R_call [0..<80] (state, l) in
      map (\<lambda>i. state ! i + V ! i) [0..<5])"

definition sha1_iv :: "u32 list" where
  "sha1_iv = [0x67452301, 0xEFCDAB89, 0x98BADCFE, 0x10325476, 0xC3D2E1F0]"

definition esp_sha1_init :: "u8 list \<Rightarrow> sha1_ctx" where
  "esp_sha1_init buf = \<lparr>s1_state = sha1_iv, s1_total0 = 0, s1_total1 = 0, s1_buffer = buf\<rparr>"

definition esp_sha1_update :: "sha1_ctx \<Rightarrow> u8 list \<Rightarrow> sha1_ctx" where
  "esp_sha1_update ctx data =
     (let size = length data;
          j = unat (drop_bit 3 (s1_total0 ctx) AND 63);
          add = of_nat (size * 8);
          t0 = s1_total0 ctx + add;
          t1 = (if t0 < add then s1_total1 ctx + 1 else s1_total1 ctx);
          t1 = t1 + of_nat (size div 2 ^ 29);
          ctx = ctx\<lparr>s1_total0 := t0, s1_total1 := t1\<rparr> in
      if 63 < (j + size) mod 2 ^ 32 then
        let buf = overwrite (s1_buffer ctx) j (take (64 - j) data);
            (state, rest) = whole_blocks 64 esp_sha1_transform (esp_sha1_transform (s1_state ctx) buf) (drop (64 - j) data) in
        ctx\<lparr>s1_state := state, s1_buffer := overwrite buf 0 rest\<rparr>
      else ctx\<lparr>s1_buffer := overwrite (s1_buffer ctx) j data\<rparr>)"

text \<open>The loop \<open>while ((ctx->total[0] & 504) != 448)\<close> of \<open>esp_sha1_finish\<close>.\<close>

definition s1_bytes :: "sha1_ctx \<Rightarrow> nat" where
  "s1_bytes ctx = unat (s1_total0 ctx AND 504) div 8"

lemma and_504: "t AND 504 = (push_bit 3 (take_bit 6 (drop_bit 3 t)) :: u32)"
proof (rule bit_word_eqI)
  fix n assume "n < LENGTH(32)"
  have m: "(504 :: u32) = push_bit 3 (mask 6)" by (simp add: mask_eq_exp_minus_1)
  show "bit (t AND 504) n \<longleftrightarrow> bit (push_bit 3 (take_bit 6 (drop_bit 3 t))) n"
    unfolding m by (auto simp: bit_simps)
qed

lemma s1_bytes_eq: "s1_bytes ctx = unat (s1_total0 ctx) div 8 mod 64"
  "unat (s1_total0 ctx AND 504) = 8 * s1_bytes ctx"
proof -
  have "unat (take_bit 6 (drop_bit 3 (s1_total0 ctx))) = unat (s1_total0 ctx) div 8 mod 64"
    by (simp only: unsigned_take_bit_eq unsigned_drop_bit_eq len_num1 len_bit0 len_num0)
       (simp add: take_bit_eq_mod drop_bit_eq_div u32_less [simplified])
  moreover have "unat (push_bit 3 (take_bit 6 x)) = 8 * unat (take_bit 6 x)" for x :: u32
  proof -
    have "unat (take_bit 6 x) < 2 ^ 6" by (simp only: unsigned_take_bit_eq) (rule take_bit_nat_less_exp)
    then show ?thesis by (simp add: push_bit_eq_mult unat_word_ariths)
  qed
  ultimately have "unat (s1_total0 ctx AND 504) = 8 * (unat (s1_total0 ctx) div 8 mod 64)"
    by (simp only: and_504)
  then show "s1_bytes ctx = unat (s1_total0 ctx) div 8 mod 64"
    "unat (s1_total0 ctx AND 504) = 8 * s1_bytes ctx"
    by (simp_all add: s1_bytes_def)
qed

lemma s1_bytes_step: "s1_bytes (esp_sha1_update ctx [b]) = (s1_bytes ctx + 1) mod 64"
proof -
  have "s1_total0 (esp_sha1_update ctx [b]) = s1_total0 ctx + 8"
    by (simp add: esp_sha1_update_def Let_def case_prod_beta)
  then have "unat (s1_total0 (esp_sha1_update ctx [b])) = (unat (s1_total0 ctx) + 8) mod 2 ^ 32"
    by (simp add: unat_word_ariths)
  also have "\<dots> div 8 mod 64 = (unat (s1_total0 ctx) + 8) div 8 mod 64"
    using mod_mult2_eq [of "unat (s1_total0 ctx) + 8" 8 "2 ^ 29"] by (simp add: mod_mod_cancel)
  also have "(unat (s1_total0 ctx) + 8) div 8 = unat (s1_total0 ctx) div 8 + 1"
    by (simp add: div_add_self2)
  finally show ?thesis unfolding s1_bytes_eq by (simp only: mod_add_left_eq)
qed

function sha1_pad :: "sha1_ctx \<Rightarrow> sha1_ctx" where
  "sha1_pad ctx = (if s1_total0 ctx AND 504 \<noteq> 448 then sha1_pad (esp_sha1_update ctx [0]) else ctx)"
  by auto
termination
proof (relation "measure (\<lambda>c. (120 - s1_bytes c) mod 64)")
  fix ctx :: sha1_ctx assume "s1_total0 ctx AND 504 \<noteq> 448"
  then have "unat (s1_total0 ctx AND 504) \<noteq> unat (448 :: u32)" by (metis unsigned_word_eqI)
  then have n: "s1_bytes ctx \<noteq> 56" by (simp add: s1_bytes_eq(2))
  have b: "s1_bytes ctx < 64" by (simp add: s1_bytes_eq(1))
  have "list_all (\<lambda>b. b = 56 \<or> (120 - (b + 1) mod 64) mod 64 < (120 - b) mod 64) [0..<(64 :: nat)]"
    by code_simp
  then have "(120 - (s1_bytes ctx + 1) mod 64) mod 64 < (120 - s1_bytes ctx) mod 64"
    using n b by (auto simp: list_all_iff)
  then show "(esp_sha1_update ctx [0], ctx) \<in> measure (\<lambda>c. (120 - s1_bytes c) mod 64)"
    by (simp add: s1_bytes_step)
qed simp

declare sha1_pad.simps [simp del]

definition esp_sha1_finish :: "sha1_ctx \<Rightarrow> u8 list" where
  "esp_sha1_finish ctx =
     (let finalcount = be32 (s1_total1 ctx) @ be32 (s1_total0 ctx);
          ctx = esp_sha1_update ctx [0x80];
          ctx = sha1_pad ctx;
          ctx = esp_sha1_update ctx finalcount in
      concat (map be32 (take 5 (s1_state ctx))))"

section \<open>The specification\<close>

fun sha1_w :: "u32 list \<Rightarrow> nat \<Rightarrow> u32" where
  "sha1_w M t =
     (if t < 16 then M ! t
      else word_rotl 1 (sha1_w M (t - 3) XOR sha1_w M (t - 8) XOR sha1_w M (t - 14) XOR sha1_w M (t - 16)))"

declare sha1_w.simps [simp del]

definition sha1_f :: "nat \<Rightarrow> u32 \<Rightarrow> u32 \<Rightarrow> u32 \<Rightarrow> u32" where
  "sha1_f t x y z =
     (if t < 20 then (x AND y) XOR (NOT x AND z)
      else if 40 \<le> t \<and> t < 60 then (x AND y) XOR (x AND z) XOR (y AND z)
      else x XOR y XOR z)"

type_synonym vars5 = "u32 \<times> u32 \<times> u32 \<times> u32 \<times> u32"

definition fips_sha1_round :: "u32 list \<Rightarrow> nat \<Rightarrow> vars5 \<Rightarrow> vars5" where
  "fips_sha1_round M t = (\<lambda>(a, b, c, d, e).
     (word_rotl 5 a + sha1_f t b c d + e + R_const t + sha1_w M t, a, word_rotl 30 b, c, d))"

definition list5 :: "vars5 \<Rightarrow> u32 list" where
  "list5 = (\<lambda>(a, b, c, d, e). [a, b, c, d, e])"

definition fips_sha1_compress :: "vars5 \<Rightarrow> u8 list \<Rightarrow> vars5" where
  "fips_sha1_compress H block =
     (case (H, fold (fips_sha1_round (map of_be32 (blocks 4 block))) [0..<80] H) of
        ((a, b, c, d, e), (a', b', c', d', e')) \<Rightarrow> (a + a', b + b', c + c', d + d', e + e'))"

definition fips_sha1 :: "u8 list \<Rightarrow> u8 list" where
  "fips_sha1 msg = concat (map be32 (list5 (md_digest 64 fips_sha1_compress
     (0x67452301, 0xEFCDAB89, 0x98BADCFE, 0x10325476, 0xC3D2E1F0) (be_length 8) msg)))"

section \<open>Lemmas: the compression\<close>

lemma rol_rotl: "0 < b \<Longrightarrow> b < 32 \<Longrightarrow> rol v b = word_rotl b v"
proof -
  assume b: "0 < b" "b < 32"
  then have "rol v b = word_rotr (32 - b) v"
    using shifts_rotr [of "32 - b" v] by (simp add: rol_def or.commute)
  also have "\<dots> = word_rotl b v"
    using b by (intro bit_word_eqI) (simp add: bit_word_rotr_iff bit_word_rotl_iff)
  finally show ?thesis .
qed

lemma byte_swap:
  assumes "length bs = 4" "x = of_le32 bs"
  shows "(rol x 24 AND 0xFF00FF00) OR (rol x 8 AND 0x00FF00FF) = of_be32 bs"
proof -
  have m: "(0xFF00FF00 :: u32) = push_bit 24 (mask 8) OR push_bit 8 (mask 8)"
    "(0x00FF00FF :: u32) = push_bit 16 (mask 8) OR mask 8"
    by (simp_all add: mask_eq_exp_minus_1)
  show ?thesis
  proof (rule bit_word_eqI)
    fix n assume "n < LENGTH(32)"
    then have "n < 8 \<or> 8 \<le> n \<and> n < 16 \<or> 16 \<le> n \<and> n < 24 \<or> 24 \<le> n \<and> n < 32" by auto
    then show "bit ((rol x 24 AND 0xFF00FF00) OR (rol x 8 AND 0x00FF00FF)) n = bit (of_be32 bs) n"
      unfolding m assms(2) rol_def of_le32_def of_be32_def
      by (elim disjE) (auto simp: bit_simps dest: bit_imp_le_length)
  qed
qed

lemma R_mix_fips: "R_mix t x y z = sha1_f t x y z"
  unfolding R_mix_def sha1_f_def by (auto intro!: bit_word_eqI simp: bit_simps)

text \<open>After \<open>n\<close> calls the list \<open>l\<close> holds the last sixteen words of the schedule.\<close>

definition sched :: "u32 list \<Rightarrow> u8 list \<Rightarrow> nat \<Rightarrow> u32 list \<Rightarrow> bool" where
  "sched M buffer n l \<longleftrightarrow> length l = 16 \<and>
     (\<forall>t. n \<le> t \<and> t < 16 \<longrightarrow> l ! t = of_le32 (drop (4 * t) buffer)) \<and>
     (\<forall>t. n \<le> t + 16 \<and> t < n \<longrightarrow> l ! (t mod 16) = sha1_w M t)"

lemma sched_step:
  assumes "sched M buffer n l" "length buffer = 64" "M = map of_be32 (blocks 4 buffer)"
    and l': "l' = (if n < 16 then blk0 l n else blk l n)"
  shows "sched M buffer (Suc n) l' \<and> l' ! (n mod 16) = sha1_w M n"
proof -
  have len: "length l = 16" using assms(1) by (simp add: sched_def)
  define x where "x = sha1_w M n"
  have eq: "l' = l[n mod 16 := x]"
  proof (cases "n < 16")
    case True
    have o: "of_le32 (drop (4 * n) buffer) = of_le32 (take 4 (drop (4 * n) buffer))" by (simp add: of_le32_def)
    have "M ! n = of_be32 (take 4 (drop (4 * n) buffer))"
      using True assms(2,3) by (simp add: blocks_def mult.commute)
    moreover have "length (take 4 (drop (4 * n) buffer)) = 4" using True assms(2) by simp
    moreover have "l ! n = of_le32 (take 4 (drop (4 * n) buffer))"
      using True assms(1) o by (simp add: sched_def)
    ultimately have "(rol (l ! n) 24 AND 0xFF00FF00) OR (rol (l ! n) 8 AND 0x00FF00FF) = M ! n"
      by (simp only: byte_swap)
    then show ?thesis using True by (simp only: l' blk0_def x_def sha1_w.simps [of M n]) simp
  next
    case False
    have w: "l ! ((n - k) mod 16) = sha1_w M (n - k)" if "0 < k" "k \<le> 16" for k
      using assms(1) that False by (auto simp: sched_def)
    have i: "(n + 13) mod 16 = (n - 3) mod 16" "(n + 8) mod 16 = (n - 8) mod 16"
      "(n + 2) mod 16 = (n - 14) mod 16" "n mod 16 = (n - 16) mod 16"
      using False mod_add_self2 [of "n - 3" 16] mod_add_self2 [of "n - 8" 16]
        mod_add_self2 [of "n - 14" 16] mod_add_self2 [of "n - 16" 16] by (simp_all add: add.commute)
    have "x = word_rotl 1 (l ! ((n + 13) mod 16) XOR l ! ((n + 8) mod 16) XOR l ! ((n + 2) mod 16) XOR l ! (n mod 16))"
      unfolding i x_def using False w [of 3] w [of 8] w [of 14] w [of 16] by (subst sha1_w.simps) simp
    then show ?thesis using False by (simp add: l' blk_def rol_rotl)
  qed
  have "l' ! (t mod 16) = sha1_w M t" if t: "Suc n \<le> t + 16" "t < Suc n" for t
  proof (cases "t = n")
    case True
    then show ?thesis using len by (simp add: eq x_def)
  next
    case False
    then have "t < n" "n < t + 16" using t by simp_all
    then have "t mod 16 \<noteq> n mod 16"
      by (metis add_diff_cancel_left' dvd_imp_le mod_eq_dvd_iff_nat less_imp_add_positive less_imp_le_nat nat_add_left_cancel_less not_less)
    then show ?thesis using assms(1) t \<open>t < n\<close> len by (simp add: eq sched_def)
  qed
  moreover have "l' ! t = of_le32 (drop (4 * t) buffer)" if "Suc n \<le> t" "t < 16" for t
    using that assms(1) len by (simp add: eq sched_def)
  ultimately show ?thesis using len by (simp add: sched_def eq x_def)
qed

lemma R_call_fips:
  assumes "n < 80" "sched M buffer n l" "length buffer = 64" "M = map of_be32 (blocks 4 buffer)"
  shows "\<exists>l'. R_call n (rotate n (list5 v), l) = (rotate (Suc n) (list5 (fips_sha1_round M n v)), l') \<and>
    sched M buffer (Suc n) l'"
proof -
  obtain a b c d e where v: "v = (a, b, c, d, e)" by (metis surj_pair)
  let ?xs = "[a, b, c, d, e]" and ?l = "if n < 16 then blk0 l n else blk l n"
  have s: "sched M buffer (Suc n) ?l" "?l ! (n mod 16) = sha1_w M n"
    using sched_step [OF assms(2-4) refl] by auto
  have n: "n \<le> 5 * 16" using assms(1) by simp
  have nth: "rotate n ?xs ! ((k + 80 - n) mod 5) = ?xs ! k" if "k < 5" for k
    using role_nth [OF n that, of ?xs] by simp
  have nths: "rotate n ?xs ! ((0 + 80 - n) mod 5) = a" "rotate n ?xs ! ((1 + 80 - n) mod 5) = b"
    "rotate n ?xs ! ((2 + 80 - n) mod 5) = c" "rotate n ?xs ! ((3 + 80 - n) mod 5) = d"
    "rotate n ?xs ! ((4 + 80 - n) mod 5) = e"
    by (subst nth; simp)+
  have upd: "(rotate n xs)[(k + 80 - n) mod 5 := y] = rotate n (xs[k := y])" if "k < 5" "length xs = 5" for k y and xs :: "u32 list"
    using role_update [OF n that] by simp
  have u4: "(rotate n ?xs)[(4 + 80 - n) mod 5 := y] = rotate n [a, b, c, d, y]" for y
    by (subst upd; simp)
  have u1: "(rotate n [a, b, c, d, z])[(1 + 80 - n) mod 5 := y] = rotate n [a, y, c, d, z]" for y z
    by (subst upd; simp)
  have r: "rotate n [a, w, c, d, z] = rotate (Suc n) [z, a, w, c, d]" for w z
    by (simp add: rotate1_rotate_swap)
  have "R_call n (rotate n ?xs, l) = (rotate n [a, rol b 30, c, d,
      e + (R_mix n b c d + sha1_w M n + R_const n + rol a 5)], ?l)"
    unfolding R_call_def prod.case Let_def nths s(2) u4 u1 by (rule refl)
  also have "e + (R_mix n b c d + sha1_w M n + R_const n + rol a 5)
      = word_rotl 5 a + sha1_f n b c d + e + R_const n + sha1_w M n"
    by (simp add: R_mix_fips rol_rotl)
  also have "rol b 30 = word_rotl 30 b" by (simp add: rol_rotl)
  also note r
  finally show ?thesis using s(1) unfolding v list5_def fips_sha1_round_def prod.case by blast
qed

lemma fold_R_call_fips:
  assumes "n \<le> 80" "length buffer = 64" "M = map of_be32 (blocks 4 buffer)"
  shows "\<exists>l'. fold R_call [0..<n] (list5 v, map (\<lambda>i. of_le32 (drop (4 * i) buffer)) [0..<16])
      = (rotate n (list5 (fold (fips_sha1_round M) [0..<n] v)), l') \<and> sched M buffer n l'"
  using assms(1)
proof (induction n)
  case 0
  then show ?case by (simp add: sched_def)
next
  case (Suc n)
  then obtain l where l: "fold R_call [0..<n] (list5 v, map (\<lambda>i. of_le32 (drop (4 * i) buffer)) [0..<16])
      = (rotate n (list5 (fold (fips_sha1_round M) [0..<n] v)), l)" "sched M buffer n l" by auto
  have "n < 80" using Suc.prems by simp
  from R_call_fips [OF this l(2) assms(2,3)] show ?case
    by (simp only: upt_Suc_append le0 fold_append comp_apply l(1)) simp
qed

lemma sha1_transform_fips:
  assumes "length buffer = 64"
  shows "esp_sha1_transform (list5 H) buffer = list5 (fips_sha1_compress H buffer)"
proof -
  let ?M = "map of_be32 (blocks 4 buffer)"
  obtain l where l: "fold R_call [0..<80] (list5 H, map (\<lambda>i. of_le32 (drop (4 * i) buffer)) [0..<16])
      = (rotate 80 (list5 (fold (fips_sha1_round ?M) [0..<80] H)), l)"
    using fold_R_call_fips [OF _ assms refl, of 80 H] by auto
  obtain a b c d e where H: "H = (a, b, c, d, e)" by (metis surj_pair)
  obtain a' b' c' d' e' where R: "fold (fips_sha1_round ?M) [0..<80] H = (a', b', c', d', e')" by (metis surj_pair)
  have r: "rotate 80 (list5 x) = list5 x" for x
    by (subst rotate_conv_mod) (simp add: list5_def case_prod_beta)
  show ?thesis
    unfolding esp_sha1_transform_def Let_def l r fips_sha1_compress_def R prod.case unfolding H
    by (simp add: list5_def upt_rec)
qed

lemma foldl_sha1_fips:
  "\<forall>b \<in> set bs. length b = 64 \<Longrightarrow>
    foldl esp_sha1_transform (list5 H) bs = list5 (foldl fips_sha1_compress H bs)"
  by (induction bs arbitrary: H) (simp_all add: sha1_transform_fips)

section \<open>The digest contract\<close>

definition s1_count :: "sha1_ctx \<Rightarrow> nat" where
  "s1_count c = count64 (s1_total1 c) (s1_total0 c)"

definition s1_ok :: "sha1_ctx \<Rightarrow> bool" where
  "s1_ok c \<longleftrightarrow> length (s1_buffer c) = 64 \<and> 8 dvd s1_count c"

definition s1_seen :: "sha1_ctx \<Rightarrow> nat" where
  "s1_seen c = s1_count c div 8"

definition s1_pending :: "sha1_ctx \<Rightarrow> u8 list" where
  "s1_pending c = take (s1_bytes c) (s1_buffer c)"

lemma s1_bytes_seen: "s1_bytes c = s1_seen c mod 64"
proof -
  have "count64 (s1_total1 c) (s1_total0 c) div 8 = unat (s1_total0 c) div 8 + unat (s1_total1 c) * 2 ^ 23 * 64"
    by (simp add: count64_def)
  then show ?thesis unfolding s1_seen_def s1_count_def s1_bytes_eq(1) by (simp only: mod_mult_self1)
qed

lemma s1_index: "unat (drop_bit 3 (s1_total0 c) AND 63) = s1_bytes c"
proof -
  have "drop_bit 3 (s1_total0 c) AND 63 = take_bit 6 (drop_bit 3 (s1_total0 c))"
    by (simp add: take_bit_eq_mask mask_eq_exp_minus_1)
  moreover have "unat (take_bit 6 (drop_bit 3 (s1_total0 c))) = unat (s1_total0 c) div 8 mod 64"
    by (simp only: unsigned_take_bit_eq unsigned_drop_bit_eq len_num1 len_bit0 len_num0)
       (simp add: take_bit_eq_mod drop_bit_eq_div u32_less [simplified])
  ultimately show ?thesis by (simp only: s1_bytes_eq(1))
qed

lemma sha1_update_law:
  assumes "s1_ok c" "length xs < 2 ^ 32 - 64"
  shows "s1_ok (esp_sha1_update c xs) \<and>
    (s1_state (esp_sha1_update c xs), s1_pending (esp_sha1_update c xs))
       = absorb 64 esp_sha1_transform (s1_state c, s1_pending c) xs \<and>
    s1_seen (esp_sha1_update c xs) mod 2 ^ 61 = (s1_seen c + length xs) mod 2 ^ 61"
proof -
  let ?c = "esp_sha1_update c xs" and ?j = "s1_bytes c"
  have buf: "length (s1_buffer c) = 64" and d: "8 dvd s1_count c" using assms(1) by (simp_all add: s1_ok_def)
  have j: "?j < 64" by (simp add: s1_bytes_eq(1))
  have tot: "s1_total0 ?c = s1_total0 c + of_nat (length xs * 8)"
    "s1_total1 ?c = (if s1_total0 c + of_nat (length xs * 8) < of_nat (length xs * 8) then s1_total1 c + 1 else s1_total1 c)
       + of_nat (length xs div 2 ^ 29)"
    unfolding esp_sha1_update_def Let_def by (simp_all add: case_prod_beta)
  have cnt: "s1_count ?c mod 2 ^ 64 = (s1_count c + length xs * 8) mod 2 ^ 64"
    unfolding s1_count_def tot by (rule count64_add_bits)
  have d': "8 dvd s1_count ?c"
  proof -
    have "s1_count ?c mod 8 = (s1_count c + length xs * 8) mod 8" by (rule mod_cancel_nat [OF cnt]) simp
    then show ?thesis using d by (simp add: dvd_eq_mod_eq_0)
  qed
  have seen: "s1_seen ?c mod 2 ^ 61 = (s1_seen c + length xs) mod 2 ^ 61"
  proof -
    have q: "m div 8 mod 2 ^ 61 = m mod 2 ^ 64 div 8" for m :: nat
      using mod_mult2_eq [of m 8 "2 ^ 61"] by simp
    have "s1_seen c + length xs = (s1_count c + length xs * 8) div 8" using d by (simp add: s1_seen_def)
    then have "(s1_seen c + length xs) mod 2 ^ 61 = (s1_count c + length xs * 8) mod 2 ^ 64 div 8" by (simp only: q)
    then show ?thesis unfolding s1_seen_def [of ?c] q cnt by (rule sym)
  qed
  have pb: "s1_bytes ?c = (?j + length xs) mod 64"
    using mod_cancel_nat [OF seen, of 64] by (simp add: s1_bytes_seen mod_simps)
  let ?a = "absorb 64 esp_sha1_transform (s1_state c, s1_pending c) xs"
  have la: "length (snd ?a) = (?j + length xs) mod 64"
    using length_absorb [of 64 esp_sha1_transform "(s1_state c, s1_pending c)" xs] buf j by (simp add: s1_pending_def)
  have wrap: "(?j + length xs) mod 2 ^ 32 = ?j + length xs" using j assms(2) by simp
  have main: "s1_state ?c = fst ?a \<and> take ((?j + length xs) mod 64) (s1_buffer ?c) = snd ?a \<and> length (s1_buffer ?c) = 64"
  proof (cases "63 < ?j + length xs")
    case True
    define ov where "ov = overwrite (s1_buffer c) ?j (take (64 - ?j) xs)"
    let ?rest = "drop (64 - ?j) xs"
    have ov: "ov = s1_pending c @ take (64 - ?j) xs" "length ov = 64"
      using True buf j by (simp_all add: ov_def overwrite_def s1_pending_def)
    have "absorb 64 esp_sha1_transform (s1_state c, s1_pending c) (take (64 - ?j) xs @ ?rest)
        = absorb 64 esp_sha1_transform (esp_sha1_transform (s1_state c) ov, []) ?rest"
      using ov by (subst absorb_append, simp, subst absorb_whole [where n = 1]) (simp_all add: blocks_single)
    then have a: "absorb 64 esp_sha1_transform (esp_sha1_transform (s1_state c) ov, []) ?rest = ?a" by simp
    have "s1_state ?c = fst ?a" "s1_buffer ?c = overwrite ov 0 (snd ?a)"
      unfolding esp_sha1_update_def Let_def s1_index wrap using True
      by (simp_all add: whole_blocks_absorb a [unfolded ov_def] ov_def case_prod_beta)
    moreover have "length (snd ?a) \<le> 64" unfolding la by simp
    ultimately show ?thesis unfolding la [symmetric] using ov(2) by (auto simp: overwrite_def)
  next
    case False
    then have lt: "?j + length xs < 64" by simp
    have "?a = (s1_state c, s1_pending c @ xs)" using lt buf by (simp add: absorb_def s1_pending_def)
    moreover have "s1_state ?c = s1_state c" "s1_buffer ?c = overwrite (s1_buffer c) ?j xs"
      unfolding esp_sha1_update_def Let_def s1_index wrap using False by simp_all
    ultimately show ?thesis using lt buf by (simp add: take_overwrite s1_pending_def)
  qed
  then show ?thesis using d' seen by (simp add: s1_ok_def s1_pending_def pb prod_eq_iff)
qed

interpretation sha1_updates: absorber 64 esp_sha1_transform s1_ok s1_state s1_pending s1_seen "2 ^ 61"
  "2 ^ 32 - 64" esp_sha1_update
proof
  show "length (s1_pending c) = s1_seen c mod 64" if "s1_ok c" for c
    using that by (simp add: s1_ok_def s1_pending_def s1_bytes_seen)
qed (simp_all only: sha1_update_law, simp_all)

lemma sha1_pad_zeros:
  assumes "s1_ok c"
  shows "sha1_pad c = foldl esp_sha1_update c (replicate ((120 - s1_bytes c) mod 64) [0])"
  using assms
proof (induction c rule: sha1_pad.induct)
  case (1 c)
  have b: "s1_bytes c < 64" by (simp add: s1_bytes_eq(1))
  have iff: "s1_total0 c AND 504 = 448 \<longleftrightarrow> s1_bytes c = 56"
    using s1_bytes_eq(2) [of c] unsigned_word_eqI [of "s1_total0 c AND 504" 448] by auto
  show ?case
  proof (cases "s1_bytes c = 56")
    case True
    then show ?thesis using iff by (subst sha1_pad.simps) simp
  next
    case False
    have ok: "s1_ok (esp_sha1_update c [0])" using sha1_update_law [OF 1(2), of "[0]"] by simp
    have "list_all (\<lambda>b. b = 56 \<or> (120 - b) mod 64 = Suc ((120 - (b + 1) mod 64) mod 64)) [0..<(64 :: nat)]"
      by code_simp
    then have n: "(120 - s1_bytes c) mod 64 = Suc ((120 - s1_bytes (esp_sha1_update c [0])) mod 64)"
      using b False by (auto simp: list_all_iff s1_bytes_step)
    have "sha1_pad c = sha1_pad (esp_sha1_update c [0])"
      using False iff by (subst sha1_pad.simps) simp
    also have "\<dots> = foldl esp_sha1_update (esp_sha1_update c [0])
        (replicate ((120 - s1_bytes (esp_sha1_update c [0])) mod 64) [0])"
      by (rule 1(1)) (use False iff ok in simp_all)
    finally show ?thesis unfolding n by simp
  qed
qed

lemma concat_replicate_single: "concat (replicate n [x]) = replicate n x"
  by (induction n) simp_all

lemma sha1_finish_law:
  assumes ok: "s1_ok c"
  shows "esp_sha1_finish c = concat (map be32 (take 5
    (foldl esp_sha1_transform (s1_state c) (blocks 64 (s1_pending c @ md_pad 64 (be_length 8) (s1_seen c))))))"
proof -
  have len: "be32 (s1_total1 c) @ be32 (s1_total0 c) = be_length 8 (s1_seen c)"
  proof -
    have "8 * s1_seen c = s1_count c" using ok by (simp add: s1_ok_def s1_seen_def)
    moreover have "of_nat (s1_count c) = s1_total0 c" "of_nat (s1_count c div 2 ^ 32) = s1_total1 c"
      unfolding s1_count_def by (rule count64_words)+
    ultimately show ?thesis by (simp add: be_length_8)
  qed
  let ?c1 = "esp_sha1_update c [0x80]"
  have ok1: "s1_ok ?c1" using sha1_update_law [OF ok, of "[0x80]"] by simp
  let ?z = "(120 - s1_bytes ?c1) mod 64"
  have fin: "s1_state (esp_sha1_update (sha1_pad ?c1) (be_length 8 (s1_seen c)))
      = s1_state (foldl esp_sha1_update c ([0x80] # replicate ?z [0] @ [be_length 8 (s1_seen c)]))"
    by (simp add: sha1_pad_zeros [OF ok1])
  have z: "nat ((int (64 - 8) - 1 - int (s1_seen c)) mod int 64) = ?z"
  proof -
    have "\<forall>b \<in> set [0..<64]. (if b + 1 \<le> 64 - 8 then 64 - 8 - (b + 1) else 64 - (b + 1) + (64 - 8))
        = (120 - (b + 1) mod 64) mod (64 :: nat)" by code_simp
    moreover have "s1_bytes c \<in> set [0..<64]" by (simp add: s1_bytes_eq(1))
    ultimately have "(if s1_bytes c + 1 \<le> 64 - 8 then 64 - 8 - (s1_bytes c + 1) else 64 - (s1_bytes c + 1) + (64 - 8))
        = ?z" unfolding s1_bytes_step by (rule bspec)
    then show ?thesis by (subst zeros_mod [OF _ s1_bytes_seen]) simp_all
  qed
  have "concat ([0x80] # replicate ?z [0] @ [be_length 8 (s1_seen c)]) = md_pad 64 (be_length 8) (s1_seen c)"
    unfolding md_pad_def length_be_length z by (simp add: concat_replicate_single)
  then have "s1_state (foldl esp_sha1_update c ([0x80] # replicate ?z [0] @ [be_length 8 (s1_seen c)]))
      = foldl esp_sha1_transform (s1_state c) (blocks 64 (s1_pending c @ md_pad 64 (be_length 8) (s1_seen c)))"
    by (intro sha1_updates.padded [OF ok]) (auto simp: in_set_replicate)
  then show ?thesis unfolding esp_sha1_finish_def Let_def len fin by simp
qed

interpretation sha1: digest 64 esp_sha1_transform s1_ok s1_state s1_pending s1_seen "2 ^ 61" "2 ^ 32 - 64"
  esp_sha1_update "be_length 8" "\<lambda>s. concat (map be32 (take 5 s))" esp_sha1_finish
proof
  show "be_length 8 (n mod 2 ^ 61) = be_length 8 n" for n by (rule be_length_mod) simp
  show "esp_sha1_finish c = concat (map be32 (take 5 (foldl esp_sha1_transform (s1_state c)
    (blocks 64 (s1_pending c @ md_pad 64 (be_length 8) (s1_seen c))))))" if "s1_ok c" for c
    using that by (rule sha1_finish_law)
qed simp

text \<open>C39: However the data is split among the calls of \<open>esp_sha1_update\<close>, \<open>esp_sha1_finish\<close>
  returns the SHA-1 digest of FIPS 180-4 of the whole message, and its padding loop ends.\<close>

theorem sha1_is_fips:
  assumes "length buf = 64" and "\<forall>xs \<in> set xss. length xs < 2 ^ 32 - 64"
  shows "esp_sha1_finish (foldl esp_sha1_update (esp_sha1_init buf) xss) = fips_sha1 (concat xss)"
proof -
  have c: "s1_ok (esp_sha1_init buf)" "s1_pending (esp_sha1_init buf) = []" "s1_seen (esp_sha1_init buf) = 0"
    "s1_state (esp_sha1_init buf) = list5 (0x67452301, 0xEFCDAB89, 0x98BADCFE, 0x10325476, 0xC3D2E1F0)"
    using assms(1) by (simp_all add: s1_ok_def s1_pending_def s1_seen_def s1_count_def count64_def s1_bytes_def
        esp_sha1_init_def sha1_iv_def list5_def)
  have m: "md_digest 64 esp_sha1_transform (list5 H) (be_length 8) msg = list5 (md_digest 64 fips_sha1_compress H (be_length 8) msg)"
    for H msg unfolding md_digest_def by (rule foldl_sha1_fips) (auto dest: blocks_length)
  have len: "take 5 (list5 v) = list5 v" for v by (simp add: list5_def case_prod_beta)
  show ?thesis unfolding sha1.streaming [OF c(1-3) assms(2)] c(4) m len by (simp add: fips_sha1_def)
qed

lemma sha1_is_fips_witness:
  "esp_sha1_finish (foldl esp_sha1_update (esp_sha1_init (replicate 64 0)) [[0x61], [0x62, 0x63]])
     = fips_sha1 [0x61, 0x62, 0x63]"
  using sha1_is_fips [of "replicate 64 0" "[[0x61], [0x62, 0x63]]"] by simp

end
