(* ===== verification/RingBuf.thy ===== *)
theory RingBuf
  imports Prelude
begin

text \<open>
  The ring buffer of \<open>components/esp_ringbuf/ringbuf.c\<close>.  Pointers into the storage area are offsets
  from \<open>pucHead\<close> (so \<open>pucHead\<close> is \<open>0\<close> and \<open>pucTail\<close> is \<open>xSize\<close>), the storage is a byte memory that also
  holds the item headers, and the five function pointers of \<open>Ringbuffer_t\<close> are the dispatch functions
  \<open>xCheckItemFits\<close>, \<open>vCopyItem\<close>, \<open>pvGetItem\<close>, \<open>vReturnItem\<close> and \<open>xGetCurMaxSize\<close> on the type of the
  buffer.  \<open>None\<close> is a violated \<open>configASSERT\<close> (or a free loop that does not end).  The last sections
  state the two contracts of a ring buffer as locales, a byte stream and a queue of items, prove the
  client facts inside them and interpret them for the three buffer types.
\<close>

section \<open>Data\<close>

datatype ringbuf_type = RINGBUF_TYPE_NOSPLIT | RINGBUF_TYPE_ALLOWSPLIT | RINGBUF_TYPE_BYTEBUF

record ringbuf =
  xSize :: nat
  uxRingbufferFlags :: u32
  xMaxItemSize :: nat
  xOps :: ringbuf_type
  pucWrite :: nat
  pucRead :: nat
  pucFree :: nat
  xItemsWaiting :: int
  xFreeSpaceSemaphore :: bool
  xItemsBufferedSemaphore :: bool
  rb_mem :: memory

definition rbALLOW_SPLIT_FLAG :: u32 where "rbALLOW_SPLIT_FLAG = 1"
definition rbBYTE_BUFFER_FLAG :: u32 where "rbBYTE_BUFFER_FLAG = 2"
definition rbBUFFER_FULL_FLAG :: u32 where "rbBUFFER_FULL_FLAG = 4"
definition rbITEM_FREE_FLAG :: u32 where "rbITEM_FREE_FLAG = 1"
definition rbITEM_DUMMY_DATA_FLAG :: u32 where "rbITEM_DUMMY_DATA_FLAG = 2"
definition rbITEM_SPLIT_FLAG :: u32 where "rbITEM_SPLIT_FLAG = 4"

lemmas rb_flag_defs =
  rbALLOW_SPLIT_FLAG_def rbBYTE_BUFFER_FLAG_def rbBUFFER_FULL_FLAG_def
  rbITEM_FREE_FLAG_def rbITEM_DUMMY_DATA_FLAG_def rbITEM_SPLIT_FLAG_def

definition rbALIGN_SIZE :: "nat \<Rightarrow> nat" where
  "rbALIGN_SIZE n = align_up 4 n"

definition rbCHECK_ALIGNED :: "nat \<Rightarrow> bool" where
  "rbCHECK_ALIGNED p \<longleftrightarrow> p mod 4 = 0"

definition rbHEADER_SIZE :: nat where "rbHEADER_SIZE = 8"

definition has_flag :: "u32 \<Rightarrow> u32 \<Rightarrow> bool" where
  "has_flag x f \<longleftrightarrow> x AND f \<noteq> 0"

text \<open>\<open>pdiff a b\<close> is the pointer difference \<open>a - b\<close> once it meets a \<open>size_t\<close>.\<close>

definition pdiff :: "nat \<Rightarrow> nat \<Rightarrow> nat" where
  "pdiff a b = u32_of_int (int a - int b)"

definition item_len :: "memory \<Rightarrow> nat \<Rightarrow> nat" where
  "item_len m p = unat (of_le32 (mget m p 4))"

definition item_flags :: "memory \<Rightarrow> nat \<Rightarrow> u32" where
  "item_flags m p = of_le32 (mget m (p + 4) 4)"

definition set_item_len :: "nat \<Rightarrow> nat \<Rightarrow> memory \<Rightarrow> memory" where
  "set_item_len p n m = mcpy m p (le32 (of_nat n))"

definition set_item_flags :: "nat \<Rightarrow> u32 \<Rightarrow> memory \<Rightarrow> memory" where
  "set_item_flags p f m = mcpy m (p + 4) (le32 f)"

abbreviation rb_full :: "ringbuf \<Rightarrow> bool" where
  "rb_full s \<equiv> has_flag (uxRingbufferFlags s) rbBUFFER_FULL_FLAG"

definition set_full :: "ringbuf \<Rightarrow> ringbuf" where
  "set_full s = s\<lparr>uxRingbufferFlags := uxRingbufferFlags s OR rbBUFFER_FULL_FLAG\<rparr>"

definition clear_full :: "ringbuf \<Rightarrow> ringbuf" where
  "clear_full s = s\<lparr>uxRingbufferFlags := uxRingbufferFlags s AND NOT rbBUFFER_FULL_FLAG\<rparr>"

section \<open>Free space and the fit checks\<close>

definition prvGetFreeSize :: "ringbuf \<Rightarrow> nat option" where
  "prvGetFreeSize s =
    (let r = (if rb_full s then 0
              else let x = s32_of_int (int (pucFree s) - int (pucWrite s))
                   in u32_of_int (if x \<le> 0 then s32_of_int (x + int (xSize s)) else x))
     in if r \<le> xSize s then Some r else None)"

definition write_ok :: "ringbuf \<Rightarrow> bool" where
  "write_ok s \<longleftrightarrow> 0 \<le> pucWrite s \<and> pucWrite s < xSize s"

definition prvCheckItemFitsDefault :: "ringbuf \<Rightarrow> nat \<Rightarrow> bool option" where
  "prvCheckItemFitsDefault s n =
    (if \<not> (rbCHECK_ALIGNED (pucWrite s) \<and> write_ok s) then None
     else let total = (rbALIGN_SIZE n + rbHEADER_SIZE) mod 2 ^ 32 in
       if pucWrite s = pucFree s then Some (\<not> rb_full s)
       else if pucFree s > pucWrite s then Some (total \<le> pdiff (pucFree s) (pucWrite s))
       else if total \<le> pdiff (xSize s) (pucWrite s) then Some True
       else if has_flag (uxRingbufferFlags s) rbALLOW_SPLIT_FLAG
       then Some ((total + rbHEADER_SIZE) mod 2 ^ 32
                    \<le> pdiff (xSize s) (pdiff (pucWrite s) (pucFree s)))
       else Some (total \<le> pdiff (pucFree s) 0))"

definition prvCheckItemFitsByteBuffer :: "ringbuf \<Rightarrow> nat \<Rightarrow> bool option" where
  "prvCheckItemFitsByteBuffer s n =
    (if \<not> write_ok s then None
     else if pucWrite s = pucFree s then Some (\<not> rb_full s)
     else if pucFree s > pucWrite s then Some (n \<le> pdiff (pucFree s) (pucWrite s))
     else Some (n \<le> pdiff (xSize s) (pdiff (pucWrite s) (pucFree s))))"

section \<open>Copying an item in\<close>

definition wrap_write :: "ringbuf \<Rightarrow> ringbuf" where
  "wrap_write s = (if pdiff (xSize s) (pucWrite s) < rbHEADER_SIZE then s\<lparr>pucWrite := 0\<rparr> else s)"

definition mark_if_full :: "ringbuf \<Rightarrow> ringbuf" where
  "mark_if_full s = (if pucWrite s = pucFree s then set_full s else s)"

text \<open>The header and the data of an item at the write pointer, which moves past both.\<close>

definition put_item :: "ringbuf \<Rightarrow> u8 list \<Rightarrow> nat \<Rightarrow> ringbuf" where
  "put_item s item aligned =
    (let w = pucWrite s;
         m = set_item_flags w 0 (set_item_len w (length item) (rb_mem s));
         m = mcpy m (w + rbHEADER_SIZE) item
     in s\<lparr>rb_mem := m, xItemsWaiting := s32_of_int (xItemsWaiting s + 1),
          pucWrite := w + rbHEADER_SIZE + aligned\<rparr>)"

definition prvCopyItemNoSplit :: "ringbuf \<Rightarrow> u8 list \<Rightarrow> ringbuf option" where
  "prvCopyItemNoSplit s item =
    (let aligned = rbALIGN_SIZE (length item); rem = pdiff (xSize s) (pucWrite s) in
     if \<not> (rbCHECK_ALIGNED (pucWrite s) \<and> write_ok s \<and> rbHEADER_SIZE \<le> rem) then None
     else
       let s1 = (if rem < (aligned + rbHEADER_SIZE) mod 2 ^ 32
                 then s\<lparr>rb_mem := set_item_len (pucWrite s) 0
                          (set_item_flags (pucWrite s) rbITEM_DUMMY_DATA_FLAG (rb_mem s)),
                        pucWrite := 0\<rparr>
                 else s)
       in Some (mark_if_full (wrap_write (put_item s1 item aligned))))"

definition prvCopyItemAllowSplit :: "ringbuf \<Rightarrow> u8 list \<Rightarrow> ringbuf option" where
  "prvCopyItemAllowSplit s item =
    (let aligned = rbALIGN_SIZE (length item); rem = pdiff (xSize s) (pucWrite s) in
     if \<not> (rbCHECK_ALIGNED (pucWrite s) \<and> write_ok s \<and> rbHEADER_SIZE \<le> rem) then None
     else if rem < (aligned + rbHEADER_SIZE) mod 2 ^ 32 then
       (let w = pucWrite s; r = rem - rbHEADER_SIZE;
            m = set_item_len w r (set_item_flags w 0 (rb_mem s)) in
        if 0 < r then
          (let m = set_item_flags w (item_flags m w OR rbITEM_SPLIT_FLAG)
                     (mcpy m (w + rbHEADER_SIZE) (take r item));
               s1 = s\<lparr>rb_mem := m, xItemsWaiting := s32_of_int (xItemsWaiting s + 1),
                      pucWrite := 0\<rparr>
           in Some (mark_if_full (wrap_write (put_item s1 (drop r item) (aligned - r)))))
        else
          (let m = set_item_flags w (item_flags m w OR rbITEM_DUMMY_DATA_FLAG) m;
               s1 = s\<lparr>rb_mem := m, pucWrite := 0\<rparr>
           in Some (mark_if_full (wrap_write (put_item s1 item aligned)))))
     else Some (mark_if_full (wrap_write (put_item s item aligned))))"

definition prvCopyItemByteBuf :: "ringbuf \<Rightarrow> u8 list \<Rightarrow> ringbuf option" where
  "prvCopyItemByteBuf s item =
    (if \<not> write_ok s then None
     else
       let rem = pdiff (xSize s) (pucWrite s);
           (s1, rest) =
             (if rem < length item
              then (s\<lparr>rb_mem := mcpy (rb_mem s) (pucWrite s) (take rem item),
                      xItemsWaiting := s32_of_int (xItemsWaiting s + int rem),
                      pucWrite := 0\<rparr>, drop rem item)
              else (s, item));
           s2 = s1\<lparr>rb_mem := mcpy (rb_mem s1) (pucWrite s1) rest,
                   xItemsWaiting := s32_of_int (xItemsWaiting s1 + int (length rest)),
                   pucWrite := pucWrite s1 + length rest\<rparr>;
           s3 = (if pucWrite s2 = xSize s2 then s2\<lparr>pucWrite := 0\<rparr> else s2)
       in Some (mark_if_full s3))"

section \<open>Taking an item out\<close>

definition items_to_read :: "ringbuf \<Rightarrow> bool" where
  "items_to_read s \<longleftrightarrow> xItemsWaiting s > 0 \<and> (pucRead s \<noteq> pucWrite s \<or> rb_full s)"

definition prvCheckItemAvail :: "ringbuf \<Rightarrow> bool" where
  "prvCheckItemAvail s \<longleftrightarrow>
    (if has_flag (uxRingbufferFlags s) rbBYTE_BUFFER_FLAG \<and> pucRead s \<noteq> pucFree s then False
     else items_to_read s)"

text \<open>The result of a retrieval: the address of the data, its size, the split flag and the state.\<close>

type_synonym got = "nat \<times> nat \<times> bool \<times> ringbuf"

definition prvGetItemDefault :: "ringbuf \<Rightarrow> got option" where
  "prvGetItemDefault s =
    (let m = rb_mem s; r = pucRead s in
     if \<not> (items_to_read s \<and> rbCHECK_ALIGNED r \<and> r < xSize s
           \<and> (item_len m r \<le> xMaxItemSize s \<or> has_flag (item_flags m r) rbITEM_DUMMY_DATA_FLAG))
     then None
     else
       let dummy = has_flag (item_flags m r) rbITEM_DUMMY_DATA_FLAG;
           q = (if dummy then 0 else r)
       in if dummy \<and> \<not> item_len m q \<le> xMaxItemSize s then None
       else
         let ret = q + rbHEADER_SIZE; n = item_len m q in
         if \<not> (if n = 0 then ret \<le> xSize s else ret < xSize s) then None
         else
           let s1 = s\<lparr>xItemsWaiting := s32_of_int (xItemsWaiting s - 1),
                      pucRead := q + (rbHEADER_SIZE + rbALIGN_SIZE n)\<rparr>;
               s2 = (if pdiff (xSize s1) (pucRead s1) < rbHEADER_SIZE then s1\<lparr>pucRead := 0\<rparr> else s1)
           in Some (ret, n, has_flag (item_flags m q) rbITEM_SPLIT_FLAG, s2))"

definition prvGetItemByteBuf :: "ringbuf \<Rightarrow> nat \<Rightarrow> got option" where
  "prvGetItemByteBuf s xMaxSize =
    (if \<not> (items_to_read s \<and> pucRead s < xSize s \<and> pucRead s = pucFree s) then None
     else
       let r = pucRead s in
       if r > pucWrite s \<or> rb_full s then
         (if xMaxSize = 0 \<or> pdiff (xSize s) r \<le> xMaxSize
          then Some (r, pdiff (xSize s) r, False,
                 s\<lparr>xItemsWaiting := s32_of_int (xItemsWaiting s - int (pdiff (xSize s) r)), pucRead := 0\<rparr>)
          else Some (r, xMaxSize, False,
                 s\<lparr>xItemsWaiting := s32_of_int (xItemsWaiting s - int xMaxSize), pucRead := r + xMaxSize\<rparr>))
       else
         (if xMaxSize = 0 \<or> pdiff (pucWrite s) r \<le> xMaxSize
          then Some (r, pdiff (pucWrite s) r, False,
                 s\<lparr>xItemsWaiting := s32_of_int (xItemsWaiting s - int (pdiff (pucWrite s) r)),
                   pucRead := pucWrite s\<rparr>)
          else Some (r, xMaxSize, False,
                 s\<lparr>xItemsWaiting := s32_of_int (xItemsWaiting s - int xMaxSize), pucRead := r + xMaxSize\<rparr>)))"

section \<open>Giving an item back\<close>

partial_function (option) free_loop :: "ringbuf \<Rightarrow> ringbuf option" where
  "free_loop s =
    (let fl = item_flags (rb_mem s) (pucFree s) in
     if (has_flag fl rbITEM_FREE_FLAG \<or> has_flag fl rbITEM_DUMMY_DATA_FLAG) \<and> pucFree s \<noteq> pucRead s
     then
       (let s1 = (if has_flag fl rbITEM_DUMMY_DATA_FLAG
                  then s\<lparr>rb_mem := set_item_flags (pucFree s) (fl OR rbITEM_FREE_FLAG) (rb_mem s),
                         pucFree := 0\<rparr>
                  else s\<lparr>pucFree := pucFree s
                           + (rbALIGN_SIZE (item_len (rb_mem s) (pucFree s)) + rbHEADER_SIZE)\<rparr>)
        in if \<not> has_flag fl rbITEM_DUMMY_DATA_FLAG \<and> \<not> pucFree s1 \<le> xSize s1 then None
        else free_loop (if pdiff (xSize s1) (pucFree s1) < rbHEADER_SIZE then s1\<lparr>pucFree := 0\<rparr> else s1))
     else Some s)"

definition reset_full :: "ringbuf \<Rightarrow> ringbuf" where
  "reset_full s =
    (if rb_full s then
       (if pucFree s \<noteq> pucWrite s then clear_full s
        else if pucFree s = pucWrite s \<and> pucFree s = pucRead s then clear_full s
        else s)
     else s)"

text \<open>An address below \<open>pucHead + 8\<close> has its header in front of the storage, which the model does not
  hold: the result is \<open>None\<close> there.\<close>

definition prvReturnItemDefault :: "ringbuf \<Rightarrow> nat \<Rightarrow> ringbuf option" where
  "prvReturnItemDefault s p =
    (if \<not> (rbCHECK_ALIGNED p \<and> 0 \<le> p \<and> p \<le> xSize s) \<or> p < rbHEADER_SIZE then None
     else
       let h = p - rbHEADER_SIZE; fl = item_flags (rb_mem s) h in
       if \<not> (item_len (rb_mem s) h \<le> xMaxItemSize s
             \<and> \<not> has_flag fl rbITEM_DUMMY_DATA_FLAG \<and> \<not> has_flag fl rbITEM_FREE_FLAG) then None
       else
         let s1 = s\<lparr>rb_mem := set_item_flags h ((fl AND NOT rbITEM_SPLIT_FLAG) OR rbITEM_FREE_FLAG)
                                (rb_mem s)\<rparr>
         in case free_loop s1 of None \<Rightarrow> None | Some s2 \<Rightarrow> Some (reset_full s2))"

definition prvReturnItemByteBuf :: "ringbuf \<Rightarrow> nat \<Rightarrow> ringbuf option" where
  "prvReturnItemByteBuf s p =
    (if \<not> p < xSize s then None
     else let s1 = s\<lparr>pucFree := pucRead s\<rparr> in Some (if rb_full s1 then clear_full s1 else s1))"

section \<open>The largest item that can be sent now\<close>

text \<open>\<open>xFreeSize\<close> is a signed \<open>BaseType_t\<close>, \<open>xMaxItemSize\<close> a \<open>size_t\<close>: the comparison of the two
  is made on unsigned values.\<close>

definition limit_free_size :: "ringbuf \<Rightarrow> int \<Rightarrow> nat" where
  "limit_free_size s x =
    (if u32_of_int x > xMaxItemSize s then xMaxItemSize s else if x < 0 then 0 else nat x)"

definition prvGetCurMaxSizeNoSplit :: "ringbuf \<Rightarrow> nat" where
  "prvGetCurMaxSizeNoSplit s =
    (if rb_full s then 0
     else
       let free = (if pucWrite s < pucFree s then int (pucFree s) - int (pucWrite s)
                   else let s1 = pdiff (xSize s) (pucWrite s); s2 = pdiff (pucFree s) 0
                        in s32_of_int (int (if s1 > s2 then s1 else s2)))
       in limit_free_size s (s32_of_int (free - int rbHEADER_SIZE)))"

definition prvGetCurMaxSizeAllowSplit :: "ringbuf \<Rightarrow> nat" where
  "prvGetCurMaxSizeAllowSplit s =
    (if rb_full s then 0
     else
       let free = (if pucWrite s = 0 \<and> pucFree s = 0 then int (xSize s) - int rbHEADER_SIZE
                   else if pucWrite s < pucFree s
                   then int (pucFree s) - int (pucWrite s) - int rbHEADER_SIZE
                   else int (pucFree s) + (int (xSize s) - int (pucWrite s)) - int (rbHEADER_SIZE * 2))
       in limit_free_size s (s32_of_int free))"

definition prvGetCurMaxSizeByteBuf :: "ringbuf \<Rightarrow> nat" where
  "prvGetCurMaxSizeByteBuf s =
    (if rb_full s then 0
     else let x = s32_of_int (int (pucFree s) - int (pucWrite s))
          in u32_of_int (if x \<le> 0 then s32_of_int (x + int (xSize s)) else x))"

section \<open>The function pointers\<close>

definition xCheckItemFits :: "ringbuf \<Rightarrow> nat \<Rightarrow> bool option" where
  "xCheckItemFits s n = (case xOps s of
      RINGBUF_TYPE_NOSPLIT \<Rightarrow> prvCheckItemFitsDefault s n
    | RINGBUF_TYPE_ALLOWSPLIT \<Rightarrow> prvCheckItemFitsDefault s n
    | RINGBUF_TYPE_BYTEBUF \<Rightarrow> prvCheckItemFitsByteBuffer s n)"

definition vCopyItem :: "ringbuf \<Rightarrow> u8 list \<Rightarrow> ringbuf option" where
  "vCopyItem s item = (case xOps s of
      RINGBUF_TYPE_NOSPLIT \<Rightarrow> prvCopyItemNoSplit s item
    | RINGBUF_TYPE_ALLOWSPLIT \<Rightarrow> prvCopyItemAllowSplit s item
    | RINGBUF_TYPE_BYTEBUF \<Rightarrow> prvCopyItemByteBuf s item)"

definition pvGetItem :: "ringbuf \<Rightarrow> nat \<Rightarrow> got option" where
  "pvGetItem s xMaxSize = (case xOps s of
      RINGBUF_TYPE_NOSPLIT \<Rightarrow> prvGetItemDefault s
    | RINGBUF_TYPE_ALLOWSPLIT \<Rightarrow> prvGetItemDefault s
    | RINGBUF_TYPE_BYTEBUF \<Rightarrow> prvGetItemByteBuf s xMaxSize)"

definition vReturnItem :: "ringbuf \<Rightarrow> nat \<Rightarrow> ringbuf option" where
  "vReturnItem s p = (case xOps s of
      RINGBUF_TYPE_NOSPLIT \<Rightarrow> prvReturnItemDefault s p
    | RINGBUF_TYPE_ALLOWSPLIT \<Rightarrow> prvReturnItemDefault s p
    | RINGBUF_TYPE_BYTEBUF \<Rightarrow> prvReturnItemByteBuf s p)"

definition xGetCurMaxSize :: "ringbuf \<Rightarrow> nat" where
  "xGetCurMaxSize s = (case xOps s of
      RINGBUF_TYPE_NOSPLIT \<Rightarrow> prvGetCurMaxSizeNoSplit s
    | RINGBUF_TYPE_ALLOWSPLIT \<Rightarrow> prvGetCurMaxSizeAllowSplit s
    | RINGBUF_TYPE_BYTEBUF \<Rightarrow> prvGetCurMaxSizeByteBuf s)"

section \<open>Retrieving: one item, or the two halves of a split item\<close>

type_synonym piece = "nat \<times> nat"

definition retrieve :: "ringbuf \<Rightarrow> bool \<Rightarrow> nat \<Rightarrow> (piece \<times> piece option \<times> ringbuf) option" where
  "retrieve s two xMaxSize =
    (case pvGetItem s (if has_flag (uxRingbufferFlags s) rbBYTE_BUFFER_FLAG then xMaxSize else 0) of
       None \<Rightarrow> None
     | Some (p, n, split, s1) \<Rightarrow>
         if has_flag (uxRingbufferFlags s1) rbALLOW_SPLIT_FLAG \<and> two \<and> split then
           (case pvGetItem s1 0 of
              None \<Rightarrow> None
            | Some (p2, n2, split2, s2) \<Rightarrow>
                if \<not> p2 < p \<or> split2 then None else Some ((p, n), Some (p2, n2), s2))
         else Some ((p, n), None, s1))"

definition give_items :: "ringbuf \<Rightarrow> ringbuf" where
  "give_items s = s\<lparr>xItemsBufferedSemaphore := True\<rparr>"

definition give_space :: "ringbuf \<Rightarrow> ringbuf" where
  "give_space s = s\<lparr>xFreeSpaceSemaphore := True\<rparr>"

definition give_if_waiting :: "ringbuf \<Rightarrow> ringbuf" where
  "give_if_waiting s = (if xItemsWaiting s > 0 then give_items s else s)"

definition prvReceiveGenericFromISR ::
    "ringbuf \<Rightarrow> bool \<Rightarrow> nat \<Rightarrow> ((piece \<times> piece option) option \<times> ringbuf) option" where
  "prvReceiveGenericFromISR s two xMaxSize =
    (if prvCheckItemAvail s
     then (case retrieve s two xMaxSize of
             None \<Rightarrow> None
           | Some (a, b, s1) \<Rightarrow> Some (Some (a, b), give_if_waiting s1))
     else Some (None, s))"

section \<open>Blocking calls\<close>

text \<open>
  A blocking call meets the other tasks of the program at its \<open>xSemaphoreTake\<close>: a turn
  \<open>(others, now)\<close> is what they did to the buffer until the call returned, and the tick count the
  task reads next.  The semaphore is taken if they left it given, otherwise the call has timed out.
  When the list of turns ends the task is still blocked.
\<close>

type_synonym turn = "(ringbuf \<Rightarrow> ringbuf) \<times> u32"

datatype 'a outcome = Asserted | Blocked ringbuf | Returned 'a ringbuf

definition portMAX_DELAY :: u32 where "portMAX_DELAY = 0xffffffff"

fun receive_loop ::
    "turn list \<Rightarrow> u32 \<Rightarrow> u32 \<Rightarrow> u32 \<Rightarrow> bool \<Rightarrow> nat \<Rightarrow> ringbuf \<Rightarrow> (piece \<times> piece option) option outcome"
where
  "receive_loop [] xTicksToWait xTicksEnd xTicksRemaining two xMaxSize s =
     (if xTicksRemaining \<le> xTicksToWait then Blocked s else Returned None s)"
| "receive_loop ((others, now) # ts) xTicksToWait xTicksEnd xTicksRemaining two xMaxSize s =
     (if \<not> xTicksRemaining \<le> xTicksToWait then Returned None s
      else
        let s1 = others s in
        if \<not> xItemsBufferedSemaphore s1 then Returned None s1
        else
          let s2 = s1\<lparr>xItemsBufferedSemaphore := False\<rparr> in
          if prvCheckItemAvail s2
          then (case retrieve s2 two xMaxSize of
                  None \<Rightarrow> Asserted
                | Some (a, b, s3) \<Rightarrow> Returned (Some (a, b)) (give_if_waiting s3))
          else receive_loop ts xTicksToWait xTicksEnd
                 (if xTicksToWait \<noteq> portMAX_DELAY then xTicksEnd - now else xTicksRemaining)
                 two xMaxSize s2)"

definition prvReceiveGeneric ::
    "turn list \<Rightarrow> u32 \<Rightarrow> u32 \<Rightarrow> bool \<Rightarrow> nat \<Rightarrow> ringbuf \<Rightarrow> (piece \<times> piece option) option outcome" where
  "prvReceiveGeneric ts now xTicksToWait two xMaxSize s =
     receive_loop ts xTicksToWait (now + xTicksToWait) xTicksToWait two xMaxSize s"

definition give_if_free :: "ringbuf \<Rightarrow> ringbuf option" where
  "give_if_free s = (case prvGetFreeSize s of
      None \<Rightarrow> None
    | Some n \<Rightarrow> Some (if n > 0 then give_space s else s))"

definition copy_and_give :: "ringbuf \<Rightarrow> u8 list \<Rightarrow> ringbuf option" where
  "copy_and_give s item = (case vCopyItem s item of
      None \<Rightarrow> None
    | Some s1 \<Rightarrow> give_if_free (give_items s1))"

fun send_loop :: "turn list \<Rightarrow> u32 \<Rightarrow> u32 \<Rightarrow> u32 \<Rightarrow> u8 list \<Rightarrow> ringbuf \<Rightarrow> bool outcome" where
  "send_loop [] xTicksToWait xTicksEnd xTicksRemaining item s =
     (if xTicksRemaining \<le> xTicksToWait then Blocked s else Returned False s)"
| "send_loop ((others, now) # ts) xTicksToWait xTicksEnd xTicksRemaining item s =
     (if \<not> xTicksRemaining \<le> xTicksToWait then Returned False s
      else
        let s1 = others s in
        if \<not> xFreeSpaceSemaphore s1 then Returned False s1
        else
          let s2 = s1\<lparr>xFreeSpaceSemaphore := False\<rparr> in
          (case xCheckItemFits s2 (length item) of
             None \<Rightarrow> Asserted
           | Some True \<Rightarrow>
               (case copy_and_give s2 item of None \<Rightarrow> Asserted | Some s3 \<Rightarrow> Returned True s3)
           | Some False \<Rightarrow>
               send_loop ts xTicksToWait xTicksEnd
                 (if xTicksToWait \<noteq> portMAX_DELAY then xTicksEnd - now else xTicksRemaining)
                 item s2))"

section \<open>The public interface\<close>

text \<open>The allocations are parameters: whether \<open>calloc\<close> and the two semaphores are available, and the
  contents of the storage that \<open>malloc\<close> returns.\<close>

definition xRingbufferCreate ::
    "bool \<Rightarrow> memory option \<Rightarrow> bool \<times> bool \<Rightarrow> nat \<Rightarrow> ringbuf_type \<Rightarrow> ringbuf option" where
  "xRingbufferCreate calloc_ok storage sems xBufferSize xBufferType =
    (if \<not> calloc_ok then None
     else
       let size = (if xBufferType \<noteq> RINGBUF_TYPE_BYTEBUF then rbALIGN_SIZE xBufferSize else xBufferSize)
       in case storage of
         None \<Rightarrow> None
       | Some m \<Rightarrow>
           let s = \<lparr>xSize = size, uxRingbufferFlags = 0, xMaxItemSize = 0, xOps = xBufferType,
                    pucWrite = 0, pucRead = 0, pucFree = 0, xItemsWaiting = 0,
                    xFreeSpaceSemaphore = False, xItemsBufferedSemaphore = False, rb_mem = m\<rparr>;
               s1 = (case xBufferType of
                   RINGBUF_TYPE_NOSPLIT \<Rightarrow>
                     s\<lparr>xMaxItemSize := pdiff (rbALIGN_SIZE (size div 2)) rbHEADER_SIZE\<rparr>
                 | RINGBUF_TYPE_ALLOWSPLIT \<Rightarrow>
                     s\<lparr>uxRingbufferFlags := uxRingbufferFlags s OR rbALLOW_SPLIT_FLAG,
                       xMaxItemSize := pdiff size (rbHEADER_SIZE * 2)\<rparr>
                 | RINGBUF_TYPE_BYTEBUF \<Rightarrow>
                     s\<lparr>uxRingbufferFlags := uxRingbufferFlags s OR rbBYTE_BUFFER_FLAG,
                       xMaxItemSize := size\<rparr>)
           in if \<not> fst sems \<or> \<not> snd sems then None else Some (give_space s1))"

definition xRingbufferCreateNoSplit ::
    "bool \<Rightarrow> memory option \<Rightarrow> bool \<times> bool \<Rightarrow> nat \<Rightarrow> nat \<Rightarrow> ringbuf option" where
  "xRingbufferCreateNoSplit calloc_ok storage sems xItemSize xItemNum =
     xRingbufferCreate calloc_ok storage sems
       ((rbALIGN_SIZE xItemSize + rbHEADER_SIZE) * xItemNum mod 2 ^ 32) RINGBUF_TYPE_NOSPLIT"

definition xRingbufferSend ::
    "turn list \<Rightarrow> u32 \<Rightarrow> ringbuf \<Rightarrow> u8 list \<Rightarrow> u32 \<Rightarrow> bool outcome" where
  "xRingbufferSend ts now s item xTicksToWait =
    (if length item > xMaxItemSize s then Returned False s
     else if has_flag (uxRingbufferFlags s) rbBYTE_BUFFER_FLAG \<and> item = [] then Returned True s
     else send_loop ts xTicksToWait (now + xTicksToWait) xTicksToWait item s)"

definition xRingbufferSendFromISR :: "ringbuf \<Rightarrow> u8 list \<Rightarrow> (bool \<times> ringbuf) option" where
  "xRingbufferSendFromISR s item =
    (if length item > xMaxItemSize s then Some (False, s)
     else if has_flag (uxRingbufferFlags s) rbBYTE_BUFFER_FLAG \<and> item = [] then Some (True, s)
     else case xCheckItemFits s (length item) of
       None \<Rightarrow> None
     | Some True \<Rightarrow> (case copy_and_give s item of None \<Rightarrow> None | Some s1 \<Rightarrow> Some (True, s1))
     | Some False \<Rightarrow> Some (False, s))"

definition first_piece :: "(piece \<times> piece option) option \<Rightarrow> piece option" where
  "first_piece r = (case r of None \<Rightarrow> None | Some (a, b) \<Rightarrow> Some a)"

fun map_outcome :: "('a \<Rightarrow> 'b) \<Rightarrow> 'a outcome \<Rightarrow> 'b outcome" where
  "map_outcome f Asserted = Asserted"
| "map_outcome f (Blocked s) = Blocked s"
| "map_outcome f (Returned r s) = Returned (f r) s"

definition xRingbufferReceive :: "turn list \<Rightarrow> u32 \<Rightarrow> ringbuf \<Rightarrow> u32 \<Rightarrow> piece option outcome" where
  "xRingbufferReceive ts now s xTicksToWait =
     map_outcome first_piece (prvReceiveGeneric ts now xTicksToWait False 0 s)"

definition xRingbufferReceiveFromISR :: "ringbuf \<Rightarrow> (piece option \<times> ringbuf) option" where
  "xRingbufferReceiveFromISR s = (case prvReceiveGenericFromISR s False 0 of
      None \<Rightarrow> None
    | Some (r, s1) \<Rightarrow> Some (first_piece r, s1))"

definition xRingbufferReceiveSplit ::
    "turn list \<Rightarrow> u32 \<Rightarrow> ringbuf \<Rightarrow> u32 \<Rightarrow> (piece \<times> piece option) option outcome" where
  "xRingbufferReceiveSplit ts now s xTicksToWait =
    (if \<not> has_flag (uxRingbufferFlags s) rbALLOW_SPLIT_FLAG then Asserted
     else prvReceiveGeneric ts now xTicksToWait True 0 s)"

definition xRingbufferReceiveSplitFromISR ::
    "ringbuf \<Rightarrow> ((piece \<times> piece option) option \<times> ringbuf) option" where
  "xRingbufferReceiveSplitFromISR s =
    (if \<not> has_flag (uxRingbufferFlags s) rbALLOW_SPLIT_FLAG then None
     else prvReceiveGenericFromISR s True 0)"

definition xRingbufferReceiveUpTo ::
    "turn list \<Rightarrow> u32 \<Rightarrow> ringbuf \<Rightarrow> u32 \<Rightarrow> nat \<Rightarrow> piece option outcome" where
  "xRingbufferReceiveUpTo ts now s xTicksToWait xMaxSize =
    (if \<not> has_flag (uxRingbufferFlags s) rbBYTE_BUFFER_FLAG then Asserted
     else if xMaxSize = 0 then Returned None s
     else map_outcome first_piece (prvReceiveGeneric ts now xTicksToWait False xMaxSize s))"

definition xRingbufferReceiveUpToFromISR :: "ringbuf \<Rightarrow> nat \<Rightarrow> (piece option \<times> ringbuf) option" where
  "xRingbufferReceiveUpToFromISR s xMaxSize =
    (if \<not> has_flag (uxRingbufferFlags s) rbBYTE_BUFFER_FLAG then None
     else if xMaxSize = 0 then Some (None, s)
     else case prvReceiveGenericFromISR s False xMaxSize of
         None \<Rightarrow> None
       | Some (r, s1) \<Rightarrow> Some (first_piece r, s1))"

definition vRingbufferReturnItem :: "ringbuf \<Rightarrow> nat \<Rightarrow> ringbuf option" where
  "vRingbufferReturnItem s p = (case vReturnItem s p of
      None \<Rightarrow> None
    | Some s1 \<Rightarrow> Some (give_space s1))"

definition vRingbufferReturnItemFromISR :: "ringbuf \<Rightarrow> nat \<Rightarrow> ringbuf option" where
  "vRingbufferReturnItemFromISR s p = (case vReturnItem s p of
      None \<Rightarrow> None
    | Some s1 \<Rightarrow> Some (give_space s1))"

definition xRingbufferGetMaxItemSize :: "ringbuf \<Rightarrow> nat" where
  "xRingbufferGetMaxItemSize s = xMaxItemSize s"

definition xRingbufferGetCurFreeSize :: "ringbuf \<Rightarrow> nat" where
  "xRingbufferGetCurFreeSize s = xGetCurMaxSize s"

text \<open>\<open>xQueueAddToSet\<close> and \<open>xQueueRemoveFromSet\<close> are a parameter, applied to whether the semaphore is
  given.  \<open>configASSERT\<close> is empty in this build (\<open>FreeRTOS.h\<close> line 234), so the \<open>xSemaphoreGive\<close> that the
  source writes inside it is not executed.\<close>

definition queue_set_read :: "(bool \<Rightarrow> bool) \<Rightarrow> ringbuf \<Rightarrow> bool \<times> ringbuf" where
  "queue_set_read queue_op s =
     (let s1 = s\<lparr>xItemsBufferedSemaphore := False\<rparr>
      in (queue_op (xItemsBufferedSemaphore s1), s1))"

definition xRingbufferAddToQueueSetRead :: "(bool \<Rightarrow> bool) \<Rightarrow> ringbuf \<Rightarrow> bool \<times> ringbuf" where
  "xRingbufferAddToQueueSetRead add s = queue_set_read add s"

definition xRingbufferRemoveFromQueueSetRead :: "(bool \<Rightarrow> bool) \<Rightarrow> ringbuf \<Rightarrow> bool \<times> ringbuf" where
  "xRingbufferRemoveFromQueueSetRead remove s = queue_set_read remove s"

definition queue_set_write :: "(bool \<Rightarrow> bool) \<Rightarrow> ringbuf \<Rightarrow> bool \<times> ringbuf" where
  "queue_set_write queue_op s =
     (let s1 = s\<lparr>xFreeSpaceSemaphore := False\<rparr>
      in (queue_op (xFreeSpaceSemaphore s1), s1))"

definition xRingbufferAddToQueueSetWrite :: "(bool \<Rightarrow> bool) \<Rightarrow> ringbuf \<Rightarrow> bool \<times> ringbuf" where
  "xRingbufferAddToQueueSetWrite add s = queue_set_write add s"

definition xRingbufferRemoveFromQueueSetWrite :: "(bool \<Rightarrow> bool) \<Rightarrow> ringbuf \<Rightarrow> bool \<times> ringbuf" where
  "xRingbufferRemoveFromQueueSetWrite remove s = queue_set_write remove s"

definition vRingbufferGetInfo :: "ringbuf \<Rightarrow> nat \<times> nat \<times> nat \<times> nat" where
  "vRingbufferGetInfo s = (pdiff (pucFree s) 0, pdiff (pucRead s) 0, pdiff (pucWrite s) 0,
                           u32_of_int (xItemsWaiting s))"

definition xRingbufferIsNextItemWrapped :: "ringbuf \<Rightarrow> bool" where
  "xRingbufferIsNextItemWrapped s = has_flag (item_flags (rb_mem s) (pucRead s)) rbITEM_SPLIT_FLAG"

end
