(* ===== verification/RingLayout.thy ===== *)
theory RingLayout
  imports RingBuf
begin

text \<open>
  How items lie in the storage of a no-split or allow-split ring buffer.  An \<open>entry\<close> is what one header
  describes: an item still to be returned (with its split flag and its bytes), an item already given
  back but not yet reclaimed, or the dummy mark that sends the reader to the start of the buffer.
  \<open>chain N m p es\<close> says that walking the headers from offset \<open>p\<close> in memory \<open>m\<close> meets exactly the
  entries \<open>es\<close>; \<open>used\<close> is the space they take, counting the few bytes before the end that cannot hold
  a header; \<open>endp\<close> is where the walk ends.  Positions advance by \<open>used\<close> modulo the size, which turns
  the non-overlap of regions into arithmetic.
\<close>

section \<open>Flags and pointer differences\<close>

lemma has_flag_simps [simp]:
  "has_flag 0 f = False"
  "has_flag 1 rbITEM_FREE_FLAG" "\<not> has_flag 2 rbITEM_FREE_FLAG" "\<not> has_flag 4 rbITEM_FREE_FLAG"
  "\<not> has_flag 1 rbITEM_DUMMY_DATA_FLAG" "has_flag 2 rbITEM_DUMMY_DATA_FLAG"
  "\<not> has_flag 4 rbITEM_DUMMY_DATA_FLAG"
  "\<not> has_flag 1 rbITEM_SPLIT_FLAG" "\<not> has_flag 2 rbITEM_SPLIT_FLAG" "has_flag 4 rbITEM_SPLIT_FLAG"
  by (simp_all add: has_flag_def rb_flag_defs)

lemma u32_of_int_nat [simp]: "n < 2 ^ 32 \<Longrightarrow> u32_of_int (int n) = n"
  by (simp add: u32_of_int_def)

lemma pdiff_nat: "b \<le> a \<Longrightarrow> a < 2 ^ 32 \<Longrightarrow> pdiff a b = a - b"
proof -
  assume "b \<le> a" "a < 2 ^ 32"
  then have "int a - int b = int (a - b)" "a - b < 2 ^ 32" by auto
  then show ?thesis unfolding pdiff_def by (metis u32_of_int_nat)
qed

lemma pdiff_0 [simp]: "a < 2 ^ 32 \<Longrightarrow> pdiff a 0 = a"
  by (simp add: pdiff_def)

section \<open>Headers in memory\<close>

lemma item_len_set_len [simp]: "n < 2 ^ 32 \<Longrightarrow> item_len (set_item_len p n m) p = n"
  by (simp add: item_len_def set_item_len_def mem_simps unat_of_nat)

lemma item_len_set_flags [simp]: "item_len (set_item_flags p f m) p = item_len m p"
  by (simp add: item_len_def set_item_flags_def mem_simps)

lemma item_flags_set_flags [simp]: "item_flags (set_item_flags p f m) p = f"
  by (simp add: item_flags_def set_item_flags_def mem_simps)

lemma item_flags_set_len [simp]: "item_flags (set_item_len p n m) p = item_flags m p"
  by (simp add: item_flags_def set_item_len_def mem_simps)

lemma item_len_mcpy [simp]: "p + 4 \<le> a \<or> a + length bs \<le> p \<Longrightarrow> item_len (mcpy m a bs) p = item_len m p"
  by (auto simp: item_len_def mem_simps)

lemma item_flags_mcpy [simp]:
  "p + 8 \<le> a \<or> a + length bs \<le> p + 4 \<Longrightarrow> item_flags (mcpy m a bs) p = item_flags m p"
  by (auto simp: item_flags_def mem_simps)

lemma set_len_out [mem_simps]: "b < p \<or> p + 4 \<le> b \<Longrightarrow> set_item_len p n m b = m b"
  by (auto simp: set_item_len_def mem_simps)

lemma set_flags_out [mem_simps]: "b < p + 4 \<or> p + 8 \<le> b \<Longrightarrow> set_item_flags p f m b = m b"
  by (auto simp: set_item_flags_def mem_simps)

lemma item_len_cong: "(\<And>b. p \<le> b \<Longrightarrow> b < p + 4 \<Longrightarrow> m' b = m b) \<Longrightarrow> item_len m' p = item_len m p"
  unfolding item_len_def by (subst mget_cong [where m' = m]) auto

lemma item_flags_cong:
  "(\<And>b. p + 4 \<le> b \<Longrightarrow> b < p + 8 \<Longrightarrow> m' b = m b) \<Longrightarrow> item_flags m' p = item_flags m p"
  unfolding item_flags_def by (subst mget_cong [where m' = m]) auto

section \<open>Entries\<close>

datatype entry = Dummy | Live bool "u8 list" | Freed nat

fun e_len :: "entry \<Rightarrow> nat" where
  "e_len Dummy = 0"
| "e_len (Live b d) = length d"
| "e_len (Freed n) = n"

fun e_flags :: "entry \<Rightarrow> u32" where
  "e_flags Dummy = rbITEM_DUMMY_DATA_FLAG"
| "e_flags (Live b d) = (if b then rbITEM_SPLIT_FLAG else 0)"
| "e_flags (Freed n) = rbITEM_FREE_FLAG"

fun e_data :: "entry \<Rightarrow> u8 list" where
  "e_data (Live b d) = d"
| "e_data _ = []"

definition al4 :: "nat \<Rightarrow> nat" where "al4 n = (n + 3) div 4 * 4"

text \<open>The space an entry takes at offset \<open>p\<close>; a dummy takes the rest of the buffer.\<close>

definition e_size :: "nat \<Rightarrow> nat \<Rightarrow> entry \<Rightarrow> nat" where
  "e_size N p e = (if e = Dummy then N - p else 8 + al4 (e_len e))"

definition e_next :: "nat \<Rightarrow> nat \<Rightarrow> entry \<Rightarrow> nat" where
  "e_next N p e = (if N - (p + e_size N p e) < 8 then 0 else p + e_size N p e)"

definition e_foot :: "nat \<Rightarrow> nat \<Rightarrow> entry \<Rightarrow> nat" where
  "e_foot N p e = (if N - (p + e_size N p e) < 8 then N - p else e_size N p e)"

definition holds :: "memory \<Rightarrow> nat \<Rightarrow> entry \<Rightarrow> bool" where
  "holds m p e \<longleftrightarrow> item_len m p = e_len e \<and> item_flags m p = e_flags e
     \<and> mget m (p + 8) (length (e_data e)) = e_data e"

fun chain :: "nat \<Rightarrow> memory \<Rightarrow> nat \<Rightarrow> entry list \<Rightarrow> bool" where
  "chain N m p [] \<longleftrightarrow> True"
| "chain N m p (e # es) \<longleftrightarrow> p + e_size N p e \<le> N \<and> holds m p e \<and> chain N m (e_next N p e) es"

fun endp :: "nat \<Rightarrow> nat \<Rightarrow> entry list \<Rightarrow> nat" where
  "endp N p [] = p"
| "endp N p (e # es) = endp N (e_next N p e) es"

fun used :: "nat \<Rightarrow> nat \<Rightarrow> entry list \<Rightarrow> nat" where
  "used N p [] = 0"
| "used N p (e # es) = e_foot N p e + used N (e_next N p e) es"

text \<open>A position where a header can stand.\<close>

definition pos_ok :: "nat \<Rightarrow> nat \<Rightarrow> bool" where
  "pos_ok N p \<longleftrightarrow> p + 8 \<le> N \<and> 4 dvd p \<and> 4 dvd N \<and> N < 2 ^ 31"

lemma al4_ge: "n \<le> al4 n"
  by (simp add: al4_def)

lemma al4_dvd [simp]: "4 dvd al4 n"
  by (simp add: al4_def)

lemma al4_less: "al4 n < n + 4"
  by (simp add: al4_def)

lemma al4_id: "4 dvd n \<Longrightarrow> al4 n = n"
  by (auto simp: al4_def elim!: dvdE)

lemma al4_0 [simp]: "al4 0 = 0"
  by (simp add: al4_def)

lemma al4_le: "4 dvd k \<Longrightarrow> n \<le> k \<Longrightarrow> al4 n \<le> k"
  by (auto simp: al4_def elim!: dvdE)

lemma al4_diff: "4 dvd r \<Longrightarrow> r \<le> n \<Longrightarrow> al4 (n - r) = al4 n - r"
proof -
  assume "4 dvd r" "r \<le> n"
  then obtain q where "r = 4 * q" by (auto elim: dvdE)
  then have "n = (n - r) + 4 * q" using \<open>r \<le> n\<close> by simp
  then obtain k where "n = k + 4 * q" "n - r = k" by simp
  moreover have "(k + 4 * q + 3) div 4 = q + (k + 3) div 4"
    using div_mult_self2 [of 4 "k + 3" q] by (simp add: algebra_simps)
  ultimately show ?thesis using \<open>r = 4 * q\<close> by (simp add: al4_def algebra_simps)
qed

lemma rbALIGN_SIZE_al4: "n < 2 ^ 31 \<Longrightarrow> rbALIGN_SIZE n = al4 n"
  by (simp add: rbALIGN_SIZE_def align_up_def al4_def)

lemma e_size_ge8: "pos_ok N p \<Longrightarrow> 8 \<le> e_size N p e"
  by (auto simp: e_size_def pos_ok_def)

lemma e_size_dvd: "pos_ok N p \<Longrightarrow> 4 dvd e_size N p e"
  by (auto simp: e_size_def pos_ok_def)

lemma e_foot_bounds:
  "pos_ok N p \<Longrightarrow> p + e_size N p e \<le> N \<Longrightarrow> e_size N p e \<le> e_foot N p e \<and> p + e_foot N p e \<le> N"
  by (auto simp: e_foot_def pos_ok_def)

lemma e_foot_pos: "pos_ok N p \<Longrightarrow> p + e_size N p e \<le> N \<Longrightarrow> 8 \<le> e_foot N p e"
  using e_size_ge8 [of N p e] e_foot_bounds [of N p e] by linarith

lemma pos_ok_next:
  assumes "pos_ok N p" "p + e_size N p e \<le> N"
  shows "pos_ok N (e_next N p e)"
proof -
  have "4 dvd p + e_size N p e"
    using e_size_dvd [OF assms(1), of e] assms(1) by (simp add: pos_ok_def)
  then show ?thesis using assms by (auto simp: e_next_def pos_ok_def)
qed

lemma e_next_mod:
  "pos_ok N p \<Longrightarrow> p + e_size N p e \<le> N \<Longrightarrow> e_next N p e = (p + e_foot N p e) mod N"
  by (auto simp: e_next_def e_foot_def pos_ok_def)

lemma chain_append:
  "chain N m p (es @ fs) \<longleftrightarrow> chain N m p es \<and> chain N m (endp N p es) fs"
  by (induction es arbitrary: p) auto

lemma endp_append [simp]: "endp N p (es @ fs) = endp N (endp N p es) fs"
  by (induction es arbitrary: p) auto

lemma used_append [simp]: "used N p (es @ fs) = used N p es + used N (endp N p es) fs"
  by (induction es arbitrary: p) auto

lemma pos_ok_endp: "pos_ok N p \<Longrightarrow> chain N m p es \<Longrightarrow> pos_ok N (endp N p es)"
  by (induction es arbitrary: p) (auto simp: pos_ok_next)

lemma endp_mod: "pos_ok N p \<Longrightarrow> chain N m p es \<Longrightarrow> endp N p es = (p + used N p es) mod N"
proof (induction es arbitrary: p)
  case Nil
  then show ?case by (simp add: pos_ok_def)
next
  case (Cons e es)
  then have *: "p + e_size N p e \<le> N" by simp
  have "endp N p (e # es) = (e_next N p e + used N (e_next N p e) es) mod N"
    using Cons.IH [OF pos_ok_next [OF Cons.prems(1) *]] Cons.prems by simp
  also have "\<dots> = (p + used N p (e # es)) mod N"
    by (simp add: e_next_mod [OF Cons.prems(1) *] mod_add_left_eq add.assoc)
  finally show ?case .
qed

lemma used_pos: "pos_ok N p \<Longrightarrow> chain N m p es \<Longrightarrow> es \<noteq> [] \<Longrightarrow> 8 \<le> used N p es"
proof (cases es)
  case (Cons e es')
  assume "pos_ok N p" "chain N m p es"
  then show ?thesis using e_foot_pos [of N p e] Cons by simp
qed simp

section \<open>Regions do not overlap\<close>

lemma mod_inj:
  assumes "(p + a) mod N = (p + b) mod N" "a < N" "b < (N::nat)"
  shows "a = b"
proof -
  have "x = y" if "(p + x) mod N = (p + y) mod N" "y < N" "x \<le> y" for x y
  proof -
    have "N dvd (p + y) - (p + x)"
      using that(3) by (subst mod_eq_dvd_iff_nat [symmetric]) (simp_all only: that(1) add_left_mono)
    then have "N dvd y - x" by simp
    then have "y - x = 0" using that(2) by (meson dvd_imp_le leD le_less_trans diff_le_self neq0_conv)
    then show "x = y" using that(3) by simp
  qed
  then show ?thesis using assms by (metis nat_le_linear)
qed

lemma holds_frame:
  assumes "holds m p e" "pos_ok N p" "p + e_size N p e \<le> N"
    and same: "\<And>b. p \<le> b \<Longrightarrow> b < p + e_size N p e \<Longrightarrow> m' b = m b"
  shows "holds m' p e"
proof -
  have 8: "8 \<le> e_size N p e" using assms(2) by (rule e_size_ge8)
  have "length (e_data e) + 8 \<le> e_size N p e"
    using al4_ge [of "e_len e"] 8 by (cases e) (auto simp: e_size_def)
  then have "mget m' (p + 8) (length (e_data e)) = mget m (p + 8) (length (e_data e))"
    by (intro mget_cong same) auto
  moreover have "item_len m' p = item_len m p" "item_flags m' p = item_flags m p"
    using 8 by (auto intro!: item_len_cong item_flags_cong same)
  ultimately show ?thesis using assms(1) by (simp add: holds_def)
qed

lemma chain_frame:
  assumes "chain N m p es" "pos_ok N p"
    and "\<And>i. i < used N p es \<Longrightarrow> m' ((p + i) mod N) = m ((p + i) mod N)"
  shows "chain N m' p es"
  using assms
proof (induction es arbitrary: p)
  case (Cons e es)
  have sz: "p + e_size N p e \<le> N" and hd: "holds m p e" and tl: "chain N m (e_next N p e) es"
    using Cons.prems(1) by auto
  note foot = e_foot_bounds [OF Cons.prems(2) sz]
  have "holds m' p e"
  proof (rule holds_frame [OF hd Cons.prems(2) sz])
    fix b assume "p \<le> b" "b < p + e_size N p e"
    then have "b - p < used N p (e # es)" "(p + (b - p)) mod N = b" using foot sz by auto
    then show "m' b = m b" using Cons.prems(3) [of "b - p"] by simp
  qed
  moreover have "chain N m' (e_next N p e) es"
  proof (rule Cons.IH [OF tl pos_ok_next [OF Cons.prems(2) sz]])
    fix i assume "i < used N (e_next N p e) es"
    then have "e_foot N p e + i < used N p (e # es)" by simp
    then have "m' ((p + (e_foot N p e + i)) mod N) = m ((p + (e_foot N p e + i)) mod N)"
      by (rule Cons.prems(3))
    then show "m' ((e_next N p e + i) mod N) = m ((e_next N p e + i) mod N)"
      by (simp add: e_next_mod [OF Cons.prems(2) sz] mod_add_left_eq add.assoc)
  qed
  ultimately show ?case using sz by simp
qed simp

text \<open>Writing behind the last entry keeps the chain and appends an entry.\<close>

lemma chain_write_behind:
  assumes c: "chain N m p es" "pos_ok N p" and q: "q = endp N p es"
    and room: "used N p es + k \<le> N" "q + k \<le> N"
    and same: "\<And>b. b < q \<or> q + k \<le> b \<Longrightarrow> m' b = m b"
  shows "chain N m' p es"
proof (rule chain_frame [OF c])
  fix i assume i: "i < used N p es"
  show "m' ((p + i) mod N) = m ((p + i) mod N)"
  proof (rule same, rule ccontr)
    assume a: "\<not> ((p + i) mod N < q \<or> q + k \<le> (p + i) mod N)"
    define j where "j = (p + i) mod N - q"
    have N: "0 < N" using c(2) by (auto simp: pos_ok_def)
    have j: "j < k" "(p + i) mod N = q + j" using a by (auto simp: j_def)
    have "q + j < N" using j room by simp
    then have "(p + i) mod N = (p + (used N p es + j)) mod N"
      using j q endp_mod [OF c(2,1)] by (metis add.assoc mod_add_left_eq mod_less)
    then have "i = used N p es + j"
      by (rule mod_inj) (use i j room in auto)
    then show False using i by simp
  qed
qed

lemma chain_snoc:
  assumes c: "chain N m p es" "pos_ok N p" and q: "q = endp N p es"
    and room: "used N p es + e_foot N q e \<le> N" "q + e_size N q e \<le> N"
    and same: "\<And>b. b < q \<or> q + e_size N q e \<le> b \<Longrightarrow> m' b = m b"
    and h: "holds m' q e"
  shows "chain N m' p (es @ [e])"
proof -
  have "pos_ok N q" using c q pos_ok_endp by simp
  then have "e_size N q e \<le> e_foot N q e" using e_foot_bounds room(2) by blast
  then have "chain N m' p es"
    using room by (intro chain_write_behind [OF c q _ room(2) same]) auto
  then show ?thesis using q h room(2) by (simp add: chain_append)
qed

text \<open>Writing inside the first entry keeps the rest of the chain.\<close>

lemma chain_write_first:
  assumes c: "chain N m q (e # fs)" and qok: "pos_ok N q" and tot: "used N q (e # fs) \<le> N"
    and same: "\<And>b. b < q \<or> q + e_size N q e \<le> b \<Longrightarrow> m' b = m b"
  shows "chain N m' (e_next N q e) fs"
proof -
  have qe: "q + e_size N q e \<le> N" and cfs: "chain N m (e_next N q e) fs"
    using c by auto
  note foot = e_foot_bounds [OF qok qe]
  show ?thesis
  proof (rule chain_frame [OF cfs pos_ok_next [OF qok qe]])
    fix i assume i: "i < used N (e_next N q e) fs"
    have eq: "(e_next N q e + i) mod N = (q + (e_foot N q e + i)) mod N"
      by (simp add: e_next_mod [OF qok qe] mod_add_left_eq add.assoc)
    show "m' ((e_next N q e + i) mod N) = m ((e_next N q e + i) mod N)"
    proof (rule same, rule ccontr)
      assume a: "\<not> ((e_next N q e + i) mod N < q \<or> q + e_size N q e \<le> (e_next N q e + i) mod N)"
      define j where "j = (e_next N q e + i) mod N - q"
      have j: "j < e_size N q e" "(e_next N q e + i) mod N = q + j" using a by (auto simp: j_def)
      then have "(q + (e_foot N q e + i)) mod N = (q + j) mod N" using eq qe by simp
      then have "e_foot N q e + i = j"
        by (rule mod_inj) (use i j tot foot qe in auto)
      then show False using j foot by simp
    qed
  qed
qed

text \<open>Rewriting one entry in place by one of the same size.\<close>

lemma chain_update:
  assumes c: "chain N m p (es @ e # fs)" "pos_ok N p" "used N p (es @ e # fs) \<le> N"
    and q: "q = endp N p es"
    and sz: "e_size N q e' = e_size N q e"
    and same: "\<And>b. b < q \<or> q + e_size N q e \<le> b \<Longrightarrow> m' b = m b"
    and h: "holds m' q e'"
  shows "chain N m' p (es @ e' # fs)"
proof -
  have ces: "chain N m p es" and qe: "q + e_size N q e \<le> N" and cq: "chain N m q (e # fs)"
    using c(1) q by (auto simp: chain_append)
  have qok: "pos_ok N q" using pos_ok_endp [OF c(2) ces] q by simp
  have tot: "used N p es + used N q (e # fs) \<le> N" using c(3) q by simp
  have "chain N m' p es"
    by (rule chain_write_behind [OF ces c(2) q _ qe same])
      (use tot e_foot_bounds [OF qok qe] in auto)
  moreover have "chain N m' (e_next N q e) fs"
    by (rule chain_write_first [OF cq qok _ same]) (use tot in auto)
  moreover have "e_next N q e' = e_next N q e" by (simp add: e_next_def sz)
  ultimately show ?thesis using h sz qe q by (simp add: chain_append)
qed

text \<open>Where the walk ends tells how much is used.\<close>

lemma endp_eq_start:
  assumes "pos_ok N p" "chain N m p es" "used N p es \<le> N" "es \<noteq> []"
  shows "endp N p es = p \<longleftrightarrow> used N p es = N"
proof
  assume "endp N p es = p"
  then have e: "(p + used N p es) mod N = (p + 0) mod N"
    using endp_mod [OF assms(1,2)] assms(1) by (auto simp: pos_ok_def)
  show "used N p es = N"
  proof (rule ccontr)
    assume "used N p es \<noteq> N"
    then have "used N p es = 0" using assms(3) by (intro mod_inj [OF e]) auto
    then show False using used_pos [OF assms(1,2,4)] by simp
  qed
next
  assume "used N p es = N"
  then show "endp N p es = p" using endp_mod [OF assms(1,2)] assms(1) by (auto simp: pos_ok_def)
qed

lemma endp_cases:
  assumes "pos_ok N p" "chain N m p es" "used N p es < N"
  obtains "endp N p es = p + used N p es" "p + used N p es < N"
  | "endp N p es + N = p + used N p es" "endp N p es < p" "N \<le> p + used N p es"
proof (cases "p + used N p es < N")
  case True
  then show ?thesis using that(1) endp_mod [OF assms(1,2)] by simp
next
  case False
  moreover have "p < N" using assms(1) by (auto simp: pos_ok_def)
  ultimately have "(p + used N p es) mod N = p + used N p es - N"
    using assms(3) by (simp add: mod_if)
  then show ?thesis using that(2) endp_mod [OF assms(1,2)] False assms(3) \<open>p < N\<close> by linarith
qed

section \<open>The items and the bytes of a list of entries\<close>

text \<open>\<open>items a es\<close> groups the pieces of split items; \<open>a\<close> is the part of an item read so far.\<close>

fun items :: "u8 list \<Rightarrow> entry list \<Rightarrow> u8 list list" where
  "items a [] = []"
| "items a (Dummy # es) = items a es"
| "items a (Freed n # es) = items a es"
| "items a (Live b d # es) = (if b then items (a @ d) es else (a @ d) # items [] es)"

definition bytes :: "entry list \<Rightarrow> u8 list" where
  "bytes es = concat (map e_data es)"

fun lives :: "nat \<Rightarrow> nat \<Rightarrow> entry list \<Rightarrow> (nat \<times> u8 list) list" where
  "lives N p [] = []"
| "lives N p (Live b d # es) = (p + 8, d) # lives N (e_next N p (Live b d)) es"
| "lives N p (Dummy # es) = lives N (e_next N p Dummy) es"
| "lives N p (Freed n # es) = lives N (e_next N p (Freed n)) es"

definition starts_whole :: "entry list \<Rightarrow> bool" where
  "starts_whole es \<longleftrightarrow> (case es of Live b d # _ \<Rightarrow> \<not> b | _ \<Rightarrow> False)"

text \<open>What is still to be read: no freed entry, an item behind every dummy, and the second half at the
  start of the buffer behind every first half.\<close>

fun pend_ok :: "nat \<Rightarrow> nat \<Rightarrow> entry list \<Rightarrow> bool" where
  "pend_ok N p [] \<longleftrightarrow> True"
| "pend_ok N p (Freed n # es) \<longleftrightarrow> False"
| "pend_ok N p (Dummy # es) \<longleftrightarrow> starts_whole es \<and> pend_ok N (e_next N p Dummy) es"
| "pend_ok N p (Live b d # es) \<longleftrightarrow>
     (b \<longrightarrow> 0 < p \<and> e_next N p (Live b d) = 0 \<and> starts_whole es)
     \<and> pend_ok N (e_next N p (Live b d)) es"

lemma lives_append [simp]: "lives N p (es @ fs) = lives N p es @ lives N (endp N p es) fs"
  by (induction N p es rule: lives.induct) auto

lemma bytes_append [simp]: "bytes (es @ fs) = bytes es @ bytes fs"
  by (simp add: bytes_def)

lemma bytes_Nil [simp]: "bytes [] = []"
  by (simp add: bytes_def)

lemma bytes_Cons [simp]: "bytes (e # es) = e_data e @ bytes es"
  by (simp add: bytes_def)

lemma starts_whole_append: "starts_whole es \<Longrightarrow> starts_whole (es @ fs)"
  by (cases es) (auto simp: starts_whole_def)

lemma starts_whole_iff: "starts_whole es \<longleftrightarrow> (\<exists>d fs. es = Live False d # fs)"
  by (auto simp: starts_whole_def split: list.splits entry.splits)

lemma pend_ok_append:
  "pend_ok N p es \<Longrightarrow> pend_ok N (endp N p es) fs \<Longrightarrow> pend_ok N p (es @ fs)"
  by (induction N p es rule: pend_ok.induct) (auto simp: starts_whole_append)

lemma items_snoc:
  assumes "pend_ok N p es"
  shows "items [] (es @ fs) = items [] es @ items [] fs"
proof -
  have "items a (es @ fs) = items a es @ items [] fs" if "a = [] \<or> starts_whole es" for a
    using assms that
  proof (induction N p es arbitrary: a rule: pend_ok.induct)
    case (4 N p b d es)
    then show ?case by (cases b) (auto simp: starts_whole_def)
  qed (auto simp: starts_whole_def)
  then show ?thesis by simp
qed

lemma items_bytes: "pend_ok N p es \<Longrightarrow> concat (items [] es) = bytes es"
proof -
  assume p: "pend_ok N p es"
  have "concat (items a es) = a @ bytes es" if "a = [] \<or> starts_whole es" for a
    using p that
  proof (induction N p es arbitrary: a rule: pend_ok.induct)
    case (4 N p b d es)
    then show ?case by (cases b) (auto simp: starts_whole_def)
  qed (auto simp: starts_whole_def)
  then show ?thesis by simp
qed

lemma lives_split:
  assumes "lives N p es = h1 @ (q, d) # h2"
  shows "\<exists>es1 b es2. es = es1 @ Live b d # es2 \<and> q = endp N p es1 + 8 \<and> lives N p es1 = h1
     \<and> lives N (e_next N (endp N p es1) (Live b d)) es2 = h2"
  using assms
proof (induction N p es arbitrary: h1 rule: lives.induct)
  case (2 N p b d' es)
  show ?case
  proof (cases h1)
    case Nil
    then show ?thesis using 2 by (intro exI [of _ "[]"]) auto
  next
    case (Cons x h1')
    then obtain es1 b' es2 where "es = es1 @ Live b' d # es2"
      "q = endp N (e_next N p (Live b d')) es1 + 8" "lives N (e_next N p (Live b d')) es1 = h1'"
      "lives N (e_next N (endp N (e_next N p (Live b d')) es1) (Live b' d)) es2 = h2"
      using 2 by auto
    then show ?thesis using Cons 2(2) by (intro exI [of _ "Live b d' # es1"]) auto
  qed
next
  case (3 N p es)
  then obtain es1 b es2 where "es = es1 @ Live b d # es2" "q = endp N (e_next N p Dummy) es1 + 8"
    "lives N (e_next N p Dummy) es1 = h1"
    "lives N (e_next N (endp N (e_next N p Dummy) es1) (Live b d)) es2 = h2" by auto
  then show ?case by (intro exI [of _ "Dummy # es1"]) auto
next
  case (4 N p n es)
  then obtain es1 b es2 where "es = es1 @ Live b d # es2" "q = endp N (e_next N p (Freed n)) es1 + 8"
    "lives N (e_next N p (Freed n)) es1 = h1"
    "lives N (e_next N (endp N (e_next N p (Freed n)) es1) (Live b d)) es2 = h2" by auto
  then show ?case by (intro exI [of _ "Freed n # es1"]) auto
qed simp

lemma lives_mem:
  "chain N m p es \<Longrightarrow> (q, d) \<in> set (lives N p es) \<Longrightarrow> mget m q (length d) = d"
  by (induction N p es rule: lives.induct) (auto simp: holds_def)

end
