(* ===== verification/RingItems.thy ===== *)
theory RingItems
  imports RingLayout
begin

text \<open>
  The no-split and allow-split ring buffers.  \<open>ring_rel t s hs ps\<close> is the invariant of a buffer of
  type \<open>t\<close>: the entries \<open>hs\<close> lie between the free and the read pointer (retrieved, not yet reclaimed),
  the entries \<open>ps\<close> between the read and the write pointer (still to be read), together they fit, and
  the full flag is set exactly when they fill the buffer.  The lemmas show what each routine of the
  function table does to \<open>hs\<close> and \<open>ps\<close>.
\<close>

section \<open>The invariant\<close>

fun base_flags :: "ringbuf_type \<Rightarrow> u32" where
  "base_flags RINGBUF_TYPE_NOSPLIT = 0"
| "base_flags RINGBUF_TYPE_ALLOWSPLIT = rbALLOW_SPLIT_FLAG"
| "base_flags RINGBUF_TYPE_BYTEBUF = rbBYTE_BUFFER_FLAG"

definition rb_flags :: "ringbuf_type \<Rightarrow> bool \<Rightarrow> u32" where
  "rb_flags t full = base_flags t OR (if full then rbBUFFER_FULL_FLAG else 0)"

lemma rb_flags_simps [simp]:
  "has_flag (rb_flags t b) rbBUFFER_FULL_FLAG = b"
  "has_flag (rb_flags t b) rbALLOW_SPLIT_FLAG = (t = RINGBUF_TYPE_ALLOWSPLIT)"
  "has_flag (rb_flags t b) rbBYTE_BUFFER_FLAG = (t = RINGBUF_TYPE_BYTEBUF)"
  "rb_flags t b OR rbBUFFER_FULL_FLAG = rb_flags t True"
  "rb_flags t b AND NOT rbBUFFER_FULL_FLAG = rb_flags t False"
  by (cases t; cases b; simp add: rb_flags_def has_flag_def rb_flag_defs)+

lemma item_flag_tests [simp]:
  "has_flag rbITEM_DUMMY_DATA_FLAG rbITEM_DUMMY_DATA_FLAG"
  "\<not> has_flag rbITEM_DUMMY_DATA_FLAG rbITEM_FREE_FLAG"
  "has_flag rbITEM_FREE_FLAG rbITEM_FREE_FLAG" "\<not> has_flag rbITEM_FREE_FLAG rbITEM_DUMMY_DATA_FLAG"
  "\<not> has_flag rbITEM_SPLIT_FLAG rbITEM_DUMMY_DATA_FLAG" "\<not> has_flag rbITEM_SPLIT_FLAG rbITEM_FREE_FLAG"
  by (simp_all add: has_flag_def rb_flag_defs)

text \<open>The largest item of each type, with the smallest size for which it is not negative.\<close>

fun max_ok :: "ringbuf_type \<Rightarrow> nat \<Rightarrow> nat \<Rightarrow> bool" where
  "max_ok RINGBUF_TYPE_NOSPLIT N k \<longleftrightarrow> 12 \<le> N \<and> k + 8 = al4 (N div 2)"
| "max_ok RINGBUF_TYPE_ALLOWSPLIT N k \<longleftrightarrow> k + 16 = N"
| "max_ok RINGBUF_TYPE_BYTEBUF N k \<longleftrightarrow> k = N"

definition count_live :: "entry list \<Rightarrow> nat" where
  "count_live es = length (filter (\<lambda>e. e \<noteq> Dummy) es)"

definition ring_rel :: "ringbuf_type \<Rightarrow> ringbuf \<Rightarrow> entry list \<Rightarrow> entry list \<Rightarrow> bool" where
  "ring_rel t s hs ps \<longleftrightarrow>
     xOps s = t \<and> t \<noteq> RINGBUF_TYPE_BYTEBUF \<and> pos_ok (xSize s) (pucFree s)
     \<and> max_ok t (xSize s) (xMaxItemSize s)
     \<and> chain (xSize s) (rb_mem s) (pucFree s) (hs @ ps)
     \<and> used (xSize s) (pucFree s) (hs @ ps) \<le> xSize s
     \<and> pucRead s = endp (xSize s) (pucFree s) hs
     \<and> pucWrite s = endp (xSize s) (pucFree s) (hs @ ps)
     \<and> uxRingbufferFlags s = rb_flags t (used (xSize s) (pucFree s) (hs @ ps) = xSize s)
     \<and> xItemsWaiting s = int (count_live ps)
     \<and> pend_ok (xSize s) (pucRead s) ps
     \<and> (\<forall>e\<in>set (hs @ ps). e_len e \<le> xMaxItemSize s)"

lemma count_live_simps [simp]:
  "count_live [] = 0" "count_live (Dummy # es) = count_live es"
  "count_live (Live b d # es) = Suc (count_live es)"
  "count_live (es @ fs) = count_live es + count_live fs"
  by (auto simp: count_live_def)

lemma count_live_used:
  "pos_ok N p \<Longrightarrow> chain N m p es \<Longrightarrow> 8 * count_live es \<le> used N p es"
proof (induction es arbitrary: p)
  case (Cons e es)
  then have *: "p + e_size N p e \<le> N" by simp
  show ?case
    using Cons.IH [OF pos_ok_next [OF Cons.prems(1) *]] Cons.prems e_foot_pos [OF Cons.prems(1) *]
    by (auto simp: count_live_def)
qed simp

lemma pend_live: "pend_ok N p ps \<Longrightarrow> ps \<noteq> [] \<Longrightarrow> 0 < count_live ps"
  by (induction N p ps rule: pend_ok.induct) (auto simp: starts_whole_iff)

section \<open>What can be read\<close>

lemma ring_rel_posD:
  assumes "ring_rel t s hs ps"
  shows "pos_ok (xSize s) (pucFree s)" "pos_ok (xSize s) (pucRead s)" "pos_ok (xSize s) (pucWrite s)"
    "chain (xSize s) (rb_mem s) (pucRead s) ps" "chain (xSize s) (rb_mem s) (pucFree s) hs"
  using assms pos_ok_endp [of "xSize s" "pucFree s" "rb_mem s" hs]
    pos_ok_endp [of "xSize s" "pucFree s" "rb_mem s" "hs @ ps"]
  by (auto simp: ring_rel_def chain_append)

lemma max_ok_less: "max_ok t N k \<Longrightarrow> t \<noteq> RINGBUF_TYPE_BYTEBUF \<Longrightarrow> pos_ok N p \<Longrightarrow> k + 8 \<le> N"
  using al4_less [of "N div 2"] by (cases t) (auto simp: pos_ok_def)

lemma waiting_small: "ring_rel t s hs ps \<Longrightarrow> 8 * xItemsWaiting s \<le> int (xSize s)"
proof -
  assume r: "ring_rel t s hs ps"
  have "8 * count_live ps \<le> used (xSize s) (pucRead s) ps"
    using ring_rel_posD [OF r] by (intro count_live_used)
  then show ?thesis using r by (simp add: ring_rel_def)
qed

lemma read_eq_write:
  assumes "ring_rel t s hs ps" "ps \<noteq> []" "pucRead s = pucWrite s"
  shows "rb_full s \<and> hs = []"
proof -
  note pos = ring_rel_posD [OF assms(1)]
  have u: "used (xSize s) (pucFree s) hs + used (xSize s) (pucRead s) ps \<le> xSize s"
    using assms(1) by (simp add: ring_rel_def)
  have "endp (xSize s) (pucRead s) ps = pucRead s"
    using assms(1,3) by (simp add: ring_rel_def)
  then have full: "used (xSize s) (pucRead s) ps = xSize s"
    using u by (subst (asm) endp_eq_start [OF pos(2,4) _ assms(2)]) auto
  have "hs = []"
  proof (rule ccontr)
    assume "hs \<noteq> []"
    then have "8 \<le> used (xSize s) (pucFree s) hs" using used_pos [OF pos(1,5)] by simp
    then show False using u full by simp
  qed
  then show ?thesis using full assms(1) by (simp add: ring_rel_def)
qed

lemma to_read_iff: "ring_rel t s hs ps \<Longrightarrow> items_to_read s \<longleftrightarrow> ps \<noteq> []"
proof (cases "ps = []")
  case False
  assume r: "ring_rel t s hs ps"
  then have "xItemsWaiting s > 0" using pend_live [OF _ False] by (auto simp: ring_rel_def)
  then show ?thesis using read_eq_write [OF r False] False by (auto simp: items_to_read_def)
qed (simp add: items_to_read_def ring_rel_def)

lemma avail_iff: "ring_rel t s hs ps \<Longrightarrow> prvCheckItemAvail s \<longleftrightarrow> ps \<noteq> []"
proof -
  assume r: "ring_rel t s hs ps"
  then have "\<not> has_flag (uxRingbufferFlags s) rbBYTE_BUFFER_FLAG" by (simp add: ring_rel_def)
  then show ?thesis using to_read_iff [OF r] by (simp add: prvCheckItemAvail_def)
qed

section \<open>Retrieving\<close>

abbreviation read_past :: "ringbuf \<Rightarrow> nat \<Rightarrow> nat \<Rightarrow> ringbuf" where
  "read_past s k q \<equiv> s\<lparr>xItemsWaiting := int k, pucRead := q\<rparr>"

text \<open>One step over an item whose header is at the read pointer or, behind a dummy, at the start.\<close>

lemma item_end:
  assumes "pos_ok N q" "q + e_size N q (Live b d) \<le> N"
  shows "rbALIGN_SIZE (length d) = al4 (length d)"
    and "pdiff N (q + (8 + al4 (length d))) = N - (q + (8 + al4 (length d)))"
    and "q + 8 \<le> N" and "d \<noteq> [] \<Longrightarrow> q + 8 < N"
proof -
  have *: "length d \<le> al4 (length d)" "q + (8 + al4 (length d)) \<le> N" "N < 2 ^ 31"
    using assms al4_ge by (auto simp: e_size_def pos_ok_def)
  then show "rbALIGN_SIZE (length d) = al4 (length d)" by (intro rbALIGN_SIZE_al4) simp
  show "pdiff N (q + (8 + al4 (length d))) = N - (q + (8 + al4 (length d)))"
    using * by (intro pdiff_nat) simp_all
  show "q + 8 \<le> N" "d \<noteq> [] \<Longrightarrow> q + 8 < N" using * by (cases d; simp)+
qed

lemma get_default_live:
  assumes r: "ring_rel t s hs (Live b d # ps)"
  shows "prvGetItemDefault s = Some (pucRead s + 8, length d, b,
      read_past s (count_live ps) (e_next (xSize s) (pucRead s) (Live b d)))" (is ?get)
    and "ring_rel t (read_past s (count_live ps) (e_next (xSize s) (pucRead s) (Live b d)))
      (hs @ [Live b d]) ps" (is ?rel)
proof -
  let ?N = "xSize s" and ?r = "pucRead s"
  note pos = ring_rel_posD [OF r]
  have h: "holds (rb_mem s) ?r (Live b d)" and sz: "?r + e_size ?N ?r (Live b d) \<le> ?N"
    using pos(4) by auto
  have av: "items_to_read s" using to_read_iff [OF r] by simp
  have len: "item_len (rb_mem s) ?r = length d" and fl: "item_flags (rb_mem s) ?r = e_flags (Live b d)"
    using h by (auto simp: holds_def)
  have mx: "length d \<le> xMaxItemSize s" using r by (simp add: ring_rel_def)
  have w: "xItemsWaiting s = int (Suc (count_live ps))" using r by (simp add: ring_rel_def)
  have N: "?N < 2 ^ 31" "4 dvd ?r" "?r < ?N" using pos(2) by (auto simp: pos_ok_def)
  have w1: "s32_of_int (xItemsWaiting s - 1) = int (count_live ps)"
    using waiting_small [OF r] w N by simp
  have nodummy: "\<not> has_flag (item_flags (rb_mem s) ?r) rbITEM_DUMMY_DATA_FLAG"
    and split: "has_flag (item_flags (rb_mem s) ?r) rbITEM_SPLIT_FLAG = b"
    by (simp_all add: fl has_flag_def rb_flag_defs)
  have al: "rbCHECK_ALIGNED ?r" using N by (simp add: rbCHECK_ALIGNED_def dvd_eq_mod_eq_0)
  show ?get
    using av al N(3) mx item_end [OF pos(2) sz]
    by (cases "d = []") (simp_all add: prvGetItemDefault_def Let_def nodummy split len w1
        rbHEADER_SIZE_def e_next_def e_size_def)
  show ?rel
    using r by (auto simp: ring_rel_def)
qed

lemma get_default_dummy:
  assumes r: "ring_rel t s hs (Dummy # Live b d # ps)"
  shows "prvGetItemDefault s = Some (8, length d, b,
      read_past s (count_live ps) (e_next (xSize s) 0 (Live b d)))" (is ?get)
    and "ring_rel t (read_past s (count_live ps) (e_next (xSize s) 0 (Live b d)))
      (hs @ [Dummy, Live b d]) ps" (is ?rel)
proof -
  let ?N = "xSize s" and ?r = "pucRead s"
  note pos = ring_rel_posD [OF r]
  have n0: "e_next ?N ?r Dummy = 0" by (simp add: e_next_def e_size_def)
  have h: "holds (rb_mem s) ?r Dummy" "holds (rb_mem s) 0 (Live b d)"
    and sz: "0 + e_size ?N 0 (Live b d) \<le> ?N"
    using pos(4) n0 by auto
  have av: "items_to_read s" using to_read_iff [OF r] by simp
  have len: "item_len (rb_mem s) 0 = length d" and fl: "item_flags (rb_mem s) 0 = e_flags (Live b d)"
    and fld: "item_flags (rb_mem s) ?r = rbITEM_DUMMY_DATA_FLAG"
    using h by (auto simp: holds_def)
  have mx: "length d \<le> xMaxItemSize s" using r by (simp add: ring_rel_def)
  have w: "xItemsWaiting s = int (Suc (count_live ps))" using r by (simp add: ring_rel_def)
  have N: "?N < 2 ^ 31" "4 dvd ?r" "?r < ?N" "pos_ok ?N 0" using pos(2) by (auto simp: pos_ok_def)
  have w1: "s32_of_int (xItemsWaiting s - 1) = int (count_live ps)"
    using waiting_small [OF r] w N by simp
  have dummy: "has_flag (item_flags (rb_mem s) ?r) rbITEM_DUMMY_DATA_FLAG"
    and split: "has_flag (item_flags (rb_mem s) 0) rbITEM_SPLIT_FLAG = b"
    by (simp_all add: fl fld has_flag_def rb_flag_defs)
  have al: "rbCHECK_ALIGNED ?r" using N by (simp add: rbCHECK_ALIGNED_def dvd_eq_mod_eq_0)
  show ?get
    using av al N(3) mx item_end [OF N(4) sz]
    by (cases "d = []") (simp_all add: prvGetItemDefault_def Let_def dummy split len w1
        rbHEADER_SIZE_def e_next_def e_size_def)
  show ?rel
    using r n0 by (auto simp: ring_rel_def)
qed

text \<open>Both cases at once: the next item, behind a dummy or not, moves to the entries held.\<close>

lemma get_default:
  assumes r: "ring_rel t s hs ps" and ne: "ps \<noteq> []"
  obtains pre b d ps' q s' where
    "ps = pre @ Live b d # ps'" "pre = [] \<or> pre = [Dummy]"
    "prvGetItemDefault s = Some (q + 8, length d, b, s')"
    "q = endp (xSize s) (pucFree s) (hs @ pre)"
    "ring_rel t s' (hs @ pre @ [Live b d]) ps'"
    "rb_mem s' = rb_mem s" "pucFree s' = pucFree s" "xSize s' = xSize s"
    "uxRingbufferFlags s' = uxRingbufferFlags s" "xOps s' = xOps s"
    "b \<longrightarrow> 0 < q \<and> pucRead s' = 0 \<and> starts_whole ps'"
proof -
  have pk: "pend_ok (xSize s) (pucRead s) ps" and rd: "pucRead s = endp (xSize s) (pucFree s) hs"
    using r by (auto simp: ring_rel_def)
  consider (live) b d ps' where "ps = Live b d # ps'"
    | (dummy) b d ps' where "ps = Dummy # Live b d # ps'"
    using pk ne by (cases ps; cases "hd ps") (auto simp: starts_whole_iff)
  then show ?thesis
  proof cases
    case live
    show ?thesis
      using get_default_live [OF r [unfolded live]] live rd pk
      by (intro that [of "[]" b d ps' "pucRead s" "read_past s (count_live ps')
        (e_next (xSize s) (pucRead s) (Live b d))"]) auto
  next
    case dummy
    show ?thesis
      using get_default_dummy [OF r [unfolded dummy]] dummy rd pk
      by (intro that [of "[Dummy]" b d ps' 0 "read_past s (count_live ps')
        (e_next (xSize s) 0 (Live b d))"]) (auto simp: e_next_def e_size_def starts_whole_iff)
  qed
qed

section \<open>Copying in\<close>

lemma put_item_entry:
  assumes c: "chain N (rb_mem s) f es" "pos_ok N f" and q: "pucWrite s = endp N f es" "xSize s = N"
    and room: "used N f es + e_foot N (pucWrite s) (Live False d) \<le> N"
      "pucWrite s + e_size N (pucWrite s) (Live False d) \<le> N"
    and w: "xItemsWaiting s = int k" "k < 2 ^ 30"
  obtains m' where
    "wrap_write (put_item s d (al4 (length d))) =
       s\<lparr>rb_mem := m', xItemsWaiting := int (Suc k), pucWrite := e_next N (pucWrite s) (Live False d)\<rparr>"
    "chain N m' f (es @ [Live False d])"
proof -
  let ?q = "pucWrite s"
  define m' where "m' = mcpy (set_item_flags ?q 0 (set_item_len ?q (length d) (rb_mem s)))
    (?q + 8) d"
  have qok: "pos_ok N ?q" using c q pos_ok_endp by simp
  have N: "N < 2 ^ 31" using qok by (simp add: pos_ok_def)
  have ld: "8 + length d \<le> e_size N ?q (Live False d)" using al4_ge by (simp add: e_size_def)
  then have ld': "length d < 2 ^ 32" using room(2) N by simp
  have h: "holds m' ?q (Live False d)"
    using ld' by (simp add: holds_def m'_def mem_simps)
  have ch: "chain N m' f (es @ [Live False d])"
  proof (rule chain_snoc [OF c q(1) room _ h])
    fix b assume "b < ?q \<or> ?q + e_size N ?q (Live False d) \<le> b"
    then have "b < ?q \<or> ?q + 8 + length d \<le> b" using ld by linarith
    then show "m' b = rb_mem s b" by (auto simp: m'_def mem_simps)
  qed
  have eq: "wrap_write (put_item s d (al4 (length d))) =
       s\<lparr>rb_mem := m', xItemsWaiting := int (Suc k), pucWrite := e_next N ?q (Live False d)\<rparr>"
    using room(2) N w q(2)
    by (simp add: wrap_write_def put_item_def Let_def m'_def [symmetric] e_next_def e_size_def
        rbHEADER_SIZE_def pdiff_nat add.assoc add.commute [of "int k"])
  show ?thesis by (rule that [OF eq ch])
qed

text \<open>The room for the next item, in each of the three ways it is stored.\<close>

datatype placing = Straight | Behind_dummy | Split_at nat

fun placed :: "placing \<Rightarrow> u8 list \<Rightarrow> entry list" where
  "placed Straight d = [Live False d]"
| "placed Behind_dummy d = [Dummy, Live False d]"
| "placed (Split_at r) d = [Live True (take r d), Live False (drop r d)]"

definition fits_as :: "nat \<Rightarrow> nat \<Rightarrow> nat \<Rightarrow> nat \<Rightarrow> placing \<Rightarrow> bool" where
  "fits_as N q u n pl \<longleftrightarrow> (case pl of
      Straight \<Rightarrow> 8 + al4 n \<le> N - q \<and> u + (if N - (q + 8 + al4 n) < 8 then N - q else 8 + al4 n) \<le> N
    | Behind_dummy \<Rightarrow> N - q < 8 + al4 n \<and> u + (N - q) + (8 + al4 n) \<le> N \<and> 8 + al4 n + 8 \<le> N
    | Split_at r \<Rightarrow> N - q < 8 + al4 n \<and> 0 < r \<and> 8 + r = N - q
        \<and> u + (N - q) + (8 + al4 n - r) \<le> N \<and> 8 + al4 n - r + 8 \<le> N)"

text \<open>An item of a no-split buffer that does not fit behind the write pointer of an empty buffer fits
  in front of it: this is why the largest item is half of the buffer.\<close>

lemma half_fits:
  assumes "4 dvd N" "4 dvd q" "q \<le> (N::nat)" "8 + al4 n \<le> al4 (N div 2)" "N - q < 8 + al4 n"
  shows "8 + al4 n \<le> q"
proof -
  obtain k j where k: "N = 4 * k" "q = 4 * j" using assms(1,2) by (auto elim!: dvdE)
  define c where "c = (n + 3) div 4"
  have c: "al4 n = 4 * c" by (simp add: al4_def c_def)
  have "al4 (N div 2) = 4 * ((2 * k + 3) div 4)" by (simp add: al4_def k)
  then have "2 + c \<le> (2 * k + 3) div 4" "k - j < 2 + c" using assms(4,5) k c by auto
  then have "4 * (2 + c) \<le> 4 * ((2 * k + 3) div 4)" "k + 1 \<le> j + (2 + c)" by auto
  moreover have "4 * ((2 * k + 3) div 4) \<le> 2 * k + 3" by simp
  ultimately have "4 * (2 + c) \<le> 2 * k + 3" "k + 1 \<le> j + (2 + c)" by auto
  then have "2 + c \<le> j" by presburger
  then show ?thesis using k c by simp
qed

lemma fits_default_cases:
  assumes r: "ring_rel t s hs ps" and n: "n \<le> xMaxItemSize s"
  shows "prvCheckItemFitsDefault s n \<noteq> None"
    and "prvCheckItemFitsDefault s n = Some True \<Longrightarrow>
      \<exists>pl. fits_as (xSize s) (pucWrite s) (used (xSize s) (pucFree s) (hs @ ps)) n pl
        \<and> used (xSize s) (pucFree s) (hs @ ps) < xSize s
        \<and> (t = RINGBUF_TYPE_NOSPLIT \<longrightarrow> pl = Straight \<or> pl = Behind_dummy)
        \<and> (t = RINGBUF_TYPE_ALLOWSPLIT \<and> xSize s - pucWrite s \<noteq> 8 \<longrightarrow> pl \<noteq> Behind_dummy)"
proof -
  let ?N = "xSize s" and ?q = "pucWrite s" and ?f = "pucFree s"
  define u where "u = used ?N ?f (hs @ ps)"
  define T where "T = 8 + al4 n"
  note pos = ring_rel_posD [OF r]
  have N: "?N < 2 ^ 31" "4 dvd ?N" "4 dvd ?q" "4 dvd ?f" "?q + 8 \<le> ?N" "?f + 8 \<le> ?N"
    using pos by (auto simp: pos_ok_def)
  have c: "chain ?N (rb_mem s) ?f (hs @ ps)" and ub: "u \<le> ?N" and w: "?q = endp ?N ?f (hs @ ps)"
    and fl: "uxRingbufferFlags s = rb_flags t (u = ?N)" and t: "t \<noteq> RINGBUF_TYPE_BYTEBUF"
    and mx: "max_ok t ?N (xMaxItemSize s)"
    using r by (auto simp: ring_rel_def u_def)
  have ok: "write_ok s" "rbCHECK_ALIGNED ?q" using N
    by (auto simp: write_ok_def rbCHECK_ALIGNED_def dvd_eq_mod_eq_0)
  have al: "rbALIGN_SIZE n = al4 n" "T + 8 < 2 ^ 32"
    using n max_ok_less [OF mx t pos(1)] N(1) al4_less [of n]
    by (auto intro!: rbALIGN_SIZE_al4 simp: T_def)
  then have T: "(rbALIGN_SIZE n + rbHEADER_SIZE) mod 4294967296 = T"
    "(T + rbHEADER_SIZE) mod 4294967296 = T + 8"
    by (simp_all add: T_def rbHEADER_SIZE_def)
  show "prvCheckItemFitsDefault s n \<noteq> None"
    using ok by (auto simp: prvCheckItemFitsDefault_def Let_def)
  assume fits: "prvCheckItemFitsDefault s n = Some True"
  have "u \<noteq> ?N"
  proof
    assume "u = ?N"
    then have "?q = ?f" using endp_mod [OF pos(1) c] w N by (simp add: u_def)
    then show False using fits ok fl \<open>u = ?N\<close> by (simp add: prvCheckItemFitsDefault_def Let_def)
  qed
  then have u: "u < ?N" using ub by simp
  have split: "has_flag (uxRingbufferFlags s) rbALLOW_SPLIT_FLAG \<longleftrightarrow> t = RINGBUF_TYPE_ALLOWSPLIT"
    by (simp add: fl)
  have "\<exists>pl. fits_as ?N ?q u n pl
        \<and> (t = RINGBUF_TYPE_NOSPLIT \<longrightarrow> pl = Straight \<or> pl = Behind_dummy)
        \<and> (t = RINGBUF_TYPE_ALLOWSPLIT \<and> ?N - ?q \<noteq> 8 \<longrightarrow> pl \<noteq> Behind_dummy)"
  proof (cases rule: endp_cases [OF pos(1) c u [unfolded u_def]])
    case 2
    then have q: "?q < ?f" "u + ?f = ?N + ?q" using w u_def by auto
    then have "T \<le> ?f - ?q"
      using fits ok N by (simp add: prvCheckItemFitsDefault_def Let_def T pdiff_nat)
    then have "fits_as ?N ?q u n Straight"
      using q N by (auto simp: fits_as_def T_def)
    then show ?thesis by (intro exI [of _ Straight]) simp
  next
    case 1
    then have q: "?f \<le> ?q" "?q = ?f + u" using w u_def by auto
    show ?thesis
    proof (cases "T \<le> ?N - ?q")
      case True
      then have "fits_as ?N ?q u n Straight" using q N by (auto simp: fits_as_def T_def)
      then show ?thesis by (intro exI [of _ Straight]) simp
    next
      case far: False
      show ?thesis
      proof (cases "t = RINGBUF_TYPE_NOSPLIT")
        case True
        have "T \<le> ?f"
        proof (cases "?q = ?f")
          case True
          have "4 dvd xMaxItemSize s"
            using mx \<open>t = _\<close> dvd_add_left_iff [of 4 8 "xMaxItemSize s"] by simp
          then have "al4 n \<le> xMaxItemSize s" using n by (rule al4_le)
          then have "8 + al4 n \<le> al4 (?N div 2)" using mx \<open>t = _\<close> by simp
          then show ?thesis
            using half_fits [of ?N ?q n] N far True by (simp add: T_def)
        next
          case False
          then show ?thesis using fits ok N far q True
            by (simp add: prvCheckItemFitsDefault_def Let_def T pdiff_nat split)
        qed
        then have "fits_as ?N ?q u n Behind_dummy" using q N far by (auto simp: fits_as_def T_def)
        then show ?thesis using True by (intro exI [of _ Behind_dummy]) simp
      next
        case False
        then have t: "t = RINGBUF_TYPE_ALLOWSPLIT" using t by (cases t) auto
        have room: "T + 8 + u \<le> ?N"
        proof (cases "?q = ?f")
          case True
          have mx': "xMaxItemSize s + 16 = ?N" using mx t by simp
          then have "4 dvd xMaxItemSize s" using N(2) dvd_add_left_iff [of 4 16 "xMaxItemSize s"] by simp
          then have "al4 n \<le> xMaxItemSize s" using n by (rule al4_le)
          then show ?thesis using mx' q True by (simp add: T_def)
        next
          case False
          then show ?thesis using fits ok N far q t u
            by (simp add: prvCheckItemFitsDefault_def Let_def T pdiff_nat split)
        qed
        show ?thesis
        proof (cases "?N - ?q = 8")
          case True
          then have "fits_as ?N ?q u n Behind_dummy"
            using q N far room by (auto simp: fits_as_def T_def)
          then show ?thesis using True t by (intro exI [of _ Behind_dummy]) simp
        next
          case False
          then have "fits_as ?N ?q u n (Split_at (?N - ?q - 8))"
            using q N far room by (auto simp: fits_as_def T_def)
          then show ?thesis using t by (intro exI [of _ "Split_at (?N - ?q - 8)"]) simp
        qed
      qed
    qed
  qed
  then show "\<exists>pl. fits_as ?N ?q (used ?N ?f (hs @ ps)) n pl \<and> used ?N ?f (hs @ ps) < ?N
        \<and> (t = RINGBUF_TYPE_NOSPLIT \<longrightarrow> pl = Straight \<or> pl = Behind_dummy)
        \<and> (t = RINGBUF_TYPE_ALLOWSPLIT \<and> ?N - ?q \<noteq> 8 \<longrightarrow> pl \<noteq> Behind_dummy)"
    using u by (auto simp: u_def)
qed

section \<open>Copying keeps the invariant and appends the item\<close>

lemma fits_default_placed:
  "placed pl d \<noteq> []" "bytes (placed pl d) = d" "items [] (placed pl d) = [d]"
  by (cases pl; simp)+

text \<open>The tail that both copy routines share: wrap the write pointer, then set the full flag.\<close>

lemma mark_full_eq:
  assumes "pos_ok N f" "chain N m f es" "used N f es \<le> N" "es \<noteq> []" "w = endp N f es"
    and "uxRingbufferFlags s = rb_flags t False" "pucWrite s = w" "pucFree s = f"
  shows "mark_if_full s = s\<lparr>uxRingbufferFlags := rb_flags t (used N f es = N)\<rparr>"
  using endp_eq_start [OF assms(1-4)] assms(5-)
  by (auto simp: mark_if_full_def set_full_def)

lemma copy_last:
  assumes c: "chain N (rb_mem s) f es" "pos_ok N f"
    and s: "xSize s = N" "pucFree s = f" "pucWrite s = endp N f es"
      "uxRingbufferFlags s = rb_flags t False" "xItemsWaiting s = int k" "k < 2 ^ 30"
    and room: "used N f es + e_foot N (pucWrite s) (Live False d) \<le> N"
      "pucWrite s + e_size N (pucWrite s) (Live False d) \<le> N"
  obtains s' where
    "mark_if_full (wrap_write (put_item s d (al4 (length d)))) = s'"
    "chain N (rb_mem s') f (es @ [Live False d])" "used N f (es @ [Live False d]) \<le> N"
    "pucWrite s' = endp N f (es @ [Live False d])"
    "uxRingbufferFlags s' = rb_flags t (used N f (es @ [Live False d]) = N)"
    "xItemsWaiting s' = int (Suc k)"
    "xSize s' = N" "pucFree s' = f" "pucRead s' = pucRead s" "xOps s' = xOps s"
    "xMaxItemSize s' = xMaxItemSize s"
proof -
  obtain m' where m': "wrap_write (put_item s d (al4 (length d))) =
       s\<lparr>rb_mem := m', xItemsWaiting := int (Suc k), pucWrite := e_next N (pucWrite s) (Live False d)\<rparr>"
    and ch: "chain N m' f (es @ [Live False d])"
    by (rule put_item_entry [OF c s(3,1) room s(5,6)])
  have u: "used N f (es @ [Live False d]) \<le> N" using room s(3) by simp
  let ?s1 = "s\<lparr>rb_mem := m', xItemsWaiting := int (Suc k),
    pucWrite := e_next N (pucWrite s) (Live False d)\<rparr>"
  have "mark_if_full ?s1 = ?s1\<lparr>uxRingbufferFlags := rb_flags t (used N f (es @ [Live False d]) = N)\<rparr>"
    by (rule mark_full_eq [OF c(2) ch u]) (use s in auto)
  then show ?thesis using that [of "mark_if_full ?s1"] m' ch u s by simp
qed

lemma skip_to_start:
  assumes c: "chain N (rb_mem s) f es" "pos_ok N f"
    and q: "xSize s = N" "pucWrite s = q" "q = endp N f es"
    and e: "q + e_size N q e = N" "used N f es + (N - q) \<le> N"
    and m: "\<And>b. b < q \<or> N \<le> b \<Longrightarrow> m' b = rb_mem s b" and h: "holds m' q e"
  shows "chain N m' f (es @ [e])" "endp N f (es @ [e]) = 0"
    "used N f (es @ [e]) = used N f es + (N - q)"
proof -
  have foot: "e_foot N q e = N - q" "e_next N q e = 0"
    using e(1) by (auto simp: e_foot_def e_next_def)
  show "chain N m' f (es @ [e])"
    by (rule chain_snoc [OF c q(3) _ _ _ h]) (use e foot m in auto)
  show "endp N f (es @ [e]) = 0" "used N f (es @ [e]) = used N f es + (N - q)"
    using foot q(3) by auto
qed

text \<open>\<open>ring_rel\<close> from its parts, once a copy has appended entries to what is pending.\<close>

lemma ring_rel_appended:
  assumes r: "ring_rel t s hs ps"
    and s': "xSize s' = xSize s" "pucFree s' = pucFree s" "pucRead s' = pucRead s" "xOps s' = xOps s"
      "xMaxItemSize s' = xMaxItemSize s"
    and ch: "chain (xSize s) (rb_mem s') (pucFree s) ((hs @ ps) @ new)"
      "used (xSize s) (pucFree s) ((hs @ ps) @ new) \<le> xSize s"
      "pucWrite s' = endp (xSize s) (pucFree s) ((hs @ ps) @ new)"
      "uxRingbufferFlags s' = rb_flags t (used (xSize s) (pucFree s) ((hs @ ps) @ new) = xSize s)"
      "xItemsWaiting s' = int (count_live ps + count_live new)"
    and new: "pend_ok (xSize s) (pucWrite s) new" "\<forall>e\<in>set new. e_len e \<le> xMaxItemSize s"
  shows "ring_rel t s' hs (ps @ new)"
proof -
  have "pend_ok (xSize s) (pucRead s) (ps @ new)"
    using r new(1) by (intro pend_ok_append) (auto simp: ring_rel_def)
  then show ?thesis using r s' ch new(2) by (auto simp: ring_rel_def)
qed

lemma count_small: "ring_rel t s hs ps \<Longrightarrow> count_live ps + 1 < 2 ^ 30"
  using waiting_small [of t s hs ps] by (auto simp: ring_rel_def pos_ok_def)

lemma copy_guards:
  assumes r: "ring_rel t s hs ps" and n: "length d \<le> xMaxItemSize s"
  shows "rbCHECK_ALIGNED (pucWrite s)" "write_ok s" "rbALIGN_SIZE (length d) = al4 (length d)"
    "pdiff (xSize s) (pucWrite s) = xSize s - pucWrite s" "8 \<le> xSize s - pucWrite s"
    "(al4 (length d) + rbHEADER_SIZE) mod 4294967296 = 8 + al4 (length d)"
proof -
  note pos = ring_rel_posD [OF r]
  have "max_ok t (xSize s) (xMaxItemSize s)" "t \<noteq> RINGBUF_TYPE_BYTEBUF"
    using r by (auto simp: ring_rel_def)
  then have "length d + 8 \<le> xSize s" using max_ok_less [of t _ _ "pucFree s"] n pos(1) by fastforce
  then show "rbCHECK_ALIGNED (pucWrite s)" "write_ok s" "rbALIGN_SIZE (length d) = al4 (length d)"
    "pdiff (xSize s) (pucWrite s) = xSize s - pucWrite s" "8 \<le> xSize s - pucWrite s"
    "(al4 (length d) + rbHEADER_SIZE) mod 4294967296 = 8 + al4 (length d)"
    using pos(3) al4_less [of "length d"]
    by (auto simp: pos_ok_def rbCHECK_ALIGNED_def write_ok_def dvd_eq_mod_eq_0 rbHEADER_SIZE_def
        intro!: rbALIGN_SIZE_al4 pdiff_nat)
qed

lemma copy_straight:
  assumes r: "ring_rel t s hs ps" and n: "length d \<le> xMaxItemSize s"
    and fit: "fits_as (xSize s) (pucWrite s) u (length d) Straight" "u < xSize s"
    and u: "u = used (xSize s) (pucFree s) (hs @ ps)"
  shows "ring_rel t (mark_if_full (wrap_write (put_item s d (al4 (length d))))) hs
    (ps @ placed Straight d)"
proof -
  let ?N = "xSize s" and ?f = "pucFree s" and ?es = "hs @ ps"
  note pos = ring_rel_posD [OF r]
  have c: "chain ?N (rb_mem s) ?f ?es" "pucWrite s = endp ?N ?f ?es"
    "uxRingbufferFlags s = rb_flags t False" "xItemsWaiting s = int (count_live ps)"
    using r u fit(2) by (auto simp: ring_rel_def)
  have room: "used ?N ?f ?es + e_foot ?N (pucWrite s) (Live False d) \<le> ?N"
    "pucWrite s + e_size ?N (pucWrite s) (Live False d) \<le> ?N"
    using fit pos(3) u by (auto simp: fits_as_def e_foot_def e_size_def pos_ok_def split: if_splits)
  obtain s' where s': "mark_if_full (wrap_write (put_item s d (al4 (length d)))) = s'"
    "chain ?N (rb_mem s') ?f (?es @ [Live False d])" "used ?N ?f (?es @ [Live False d]) \<le> ?N"
    "pucWrite s' = endp ?N ?f (?es @ [Live False d])"
    "uxRingbufferFlags s' = rb_flags t (used ?N ?f (?es @ [Live False d]) = ?N)"
    "xItemsWaiting s' = int (Suc (count_live ps))"
    "xSize s' = ?N" "pucFree s' = ?f" "pucRead s' = pucRead s" "xOps s' = xOps s"
    "xMaxItemSize s' = xMaxItemSize s"
    by (rule copy_last [OF c(1) pos(1) refl refl c(2,3,4) _ room]) (use count_small [OF r] in auto)
  have "ring_rel t s' hs (ps @ [Live False d])"
    by (rule ring_rel_appended [OF r s'(7-11) s'(2-5)]) (use s'(6) n in auto)
  then show ?thesis using s'(1) by simp
qed

text \<open>After the rest of the buffer has been given to an entry \<open>e\<close>, the item (or what is left of it)
  goes to the start.\<close>

lemma copy_around:
  assumes r: "ring_rel t s hs ps" and u: "u = used (xSize s) (pucFree s) (hs @ ps)" "u < xSize s"
    and e: "pucWrite s + e_size (xSize s) (pucWrite s) e = xSize s"
      "u + (xSize s - pucWrite s) + (8 + al4 (length d)) \<le> xSize s" "8 + al4 (length d) + 8 \<le> xSize s"
    and m: "\<And>b. b < pucWrite s \<or> xSize s \<le> b \<Longrightarrow> m' b = rb_mem s b" and h: "holds m' (pucWrite s) e"
    and k: "k = count_live ps + count_live [e]" "k < 2 ^ 30"
    and new: "pend_ok (xSize s) (pucWrite s) [e, Live False d]"
      "\<forall>e\<in>set [e, Live False d]. e_len e \<le> xMaxItemSize s"
    and s1: "s1 = s\<lparr>rb_mem := m', xItemsWaiting := int k, pucWrite := 0\<rparr>"
  shows "ring_rel t (mark_if_full (wrap_write (put_item s1 d (al4 (length d))))) hs
    (ps @ [e, Live False d])"
proof -
  let ?N = "xSize s" and ?f = "pucFree s" and ?es = "hs @ ps"
  note pos = ring_rel_posD [OF r]
  have c: "chain ?N (rb_mem s) ?f ?es" "pucWrite s = endp ?N ?f ?es"
    "uxRingbufferFlags s = rb_flags t False"
    using r u by (auto simp: ring_rel_def)
  have sk: "chain ?N m' ?f (?es @ [e])" "endp ?N ?f (?es @ [e]) = 0"
    "used ?N ?f (?es @ [e]) = u + (?N - pucWrite s)"
    using skip_to_start [OF c(1) pos(1) refl refl c(2) e(1) _ m h] e(2) u by auto
  have room: "used ?N ?f (?es @ [e]) + e_foot ?N (pucWrite s1) (Live False d) \<le> ?N"
    "pucWrite s1 + e_size ?N (pucWrite s1) (Live False d) \<le> ?N"
    using e sk(3) s1 by (auto simp: e_foot_def e_size_def)
  obtain s' where s': "mark_if_full (wrap_write (put_item s1 d (al4 (length d)))) = s'"
    "chain ?N (rb_mem s') ?f ((?es @ [e]) @ [Live False d])"
    "used ?N ?f ((?es @ [e]) @ [Live False d]) \<le> ?N"
    "pucWrite s' = endp ?N ?f ((?es @ [e]) @ [Live False d])"
    "uxRingbufferFlags s' = rb_flags t (used ?N ?f ((?es @ [e]) @ [Live False d]) = ?N)"
    "xItemsWaiting s' = int (Suc k)"
    "xSize s' = ?N" "pucFree s' = ?f" "pucRead s' = pucRead s1" "xOps s' = xOps s1"
    "xMaxItemSize s' = xMaxItemSize s1"
    by (rule copy_last [of ?N s1 ?f "?es @ [e]", OF _ pos(1) _ _ _ _ _ k(2) room])
      (use sk c s1 in auto)
  have eq: "(?es @ [e]) @ [Live False d] = ?es @ [e, Live False d]" by simp
  have "ring_rel t s' hs (ps @ [e, Live False d])"
    by (rule ring_rel_appended [OF r s'(7,8) _ _ _ s'(2-5) [unfolded eq] _ new])
      (use s' s1 k in \<open>auto simp: count_live_def\<close>)
  then show ?thesis using s'(1) by simp
qed

lemma copy_no_split:
  assumes r: "ring_rel RINGBUF_TYPE_NOSPLIT s hs ps" and n: "length d \<le> xMaxItemSize s"
    and fits: "prvCheckItemFitsDefault s (length d) = Some True"
  shows "\<exists>s' pl. prvCopyItemNoSplit s d = Some s' \<and> pl \<in> {Straight, Behind_dummy}
    \<and> ring_rel RINGBUF_TYPE_NOSPLIT s' hs (ps @ placed pl d)"
proof -
  let ?N = "xSize s" and ?q = "pucWrite s"
  define u where "u = used ?N (pucFree s) (hs @ ps)"
  note g = copy_guards [OF r n] and pos = ring_rel_posD [OF r]
  obtain pl where pl: "fits_as ?N ?q u (length d) pl" "u < ?N" "pl = Straight \<or> pl = Behind_dummy"
    using fits_default_cases(2) [OF r n fits] u_def by auto
  show ?thesis
  proof (cases "pl = Straight")
    case True
    then have "\<not> ?N - ?q < 8 + al4 (length d)" using pl(1) by (simp add: fits_as_def)
    then have "prvCopyItemNoSplit s d = Some (mark_if_full (wrap_write (put_item s d (al4 (length d)))))"
      using g by (simp add: prvCopyItemNoSplit_def Let_def rbHEADER_SIZE_def)
    then show ?thesis using copy_straight [OF r n pl(1,2) [unfolded True] u_def] by auto
  next
    case False
    then have f: "fits_as ?N ?q u (length d) Behind_dummy" using pl(1,3) by auto
    define m' where "m' = set_item_len ?q 0 (set_item_flags ?q rbITEM_DUMMY_DATA_FLAG (rb_mem s))"
    have w: "s\<lparr>rb_mem := m', pucWrite := 0\<rparr>
        = s\<lparr>rb_mem := m', xItemsWaiting := int (count_live ps), pucWrite := 0\<rparr>"
      using r by (simp add: ring_rel_def)
    have "?N - ?q < 8 + al4 (length d)" using f by (simp add: fits_as_def)
    then have eq: "prvCopyItemNoSplit s d = Some (mark_if_full (wrap_write
        (put_item (s\<lparr>rb_mem := m', pucWrite := 0\<rparr>) d (al4 (length d)))))"
      using g by (simp add: prvCopyItemNoSplit_def Let_def rbHEADER_SIZE_def m'_def)
    have "ring_rel RINGBUF_TYPE_NOSPLIT
       (mark_if_full (wrap_write (put_item (s\<lparr>rb_mem := m', pucWrite := 0\<rparr>) d (al4 (length d))))) hs
       (ps @ [Dummy, Live False d])"
    proof (rule copy_around [OF r u_def pl(2) _ _ _ _ _ _ _ _ _ w])
      show "holds m' ?q Dummy" by (simp add: holds_def m'_def)
      show "m' b = rb_mem s b" if "b < ?q \<or> ?N \<le> b" for b
      proof -
        have "b < ?q \<or> ?q + 8 \<le> b" using that g(5) by linarith
        then show ?thesis by (auto simp: m'_def mem_simps)
      qed
    qed (use f g(5) count_small [OF r] n in \<open>auto simp: fits_as_def e_size_def starts_whole_def\<close>)
    then show ?thesis using eq by auto
  qed
qed

lemma mget_set_flags [mem_simps]: "p + 8 \<le> a \<Longrightarrow> mget (set_item_flags p f m) a n = mget m a n"
  by (simp add: set_item_flags_def mem_simps)

lemma copy_allow_split:
  assumes r: "ring_rel RINGBUF_TYPE_ALLOWSPLIT s hs ps" and n: "length d \<le> xMaxItemSize s"
    and fits: "prvCheckItemFitsDefault s (length d) = Some True"
  shows "\<exists>s' pl. prvCopyItemAllowSplit s d = Some s'
    \<and> ring_rel RINGBUF_TYPE_ALLOWSPLIT s' hs (ps @ placed pl d)"
proof -
  let ?N = "xSize s" and ?q = "pucWrite s"
  define u where "u = used ?N (pucFree s) (hs @ ps)"
  note g = copy_guards [OF r n] and pos = ring_rel_posD [OF r]
  obtain pl where pl: "fits_as ?N ?q u (length d) pl" "u < ?N"
    "?N - ?q \<noteq> 8 \<longrightarrow> pl \<noteq> Behind_dummy"
    using fits_default_cases(2) [OF r n fits] u_def by auto
  show ?thesis
  proof (cases pl)
    case Straight
    then have "\<not> ?N - ?q < 8 + al4 (length d)" using pl(1) by (simp add: fits_as_def)
    then have "prvCopyItemAllowSplit s d = Some (mark_if_full (wrap_write (put_item s d (al4 (length d)))))"
      using g by (simp add: prvCopyItemAllowSplit_def Let_def rbHEADER_SIZE_def)
    then show ?thesis using copy_straight [OF r n pl(1,2) [unfolded Straight] u_def] by blast
  next
    case Behind_dummy
    then have f: "fits_as ?N ?q u (length d) Behind_dummy" "?N - ?q = 8" using pl by auto
    define m' where "m' = set_item_flags ?q (0 OR rbITEM_DUMMY_DATA_FLAG)
      (set_item_len ?q 0 (set_item_flags ?q 0 (rb_mem s)))"
    have w: "s\<lparr>rb_mem := m', pucWrite := 0\<rparr>
        = s\<lparr>rb_mem := m', xItemsWaiting := int (count_live ps), pucWrite := 0\<rparr>"
      using r by (simp add: ring_rel_def)
    have "?N - ?q < 8 + al4 (length d)" using f by (simp add: fits_as_def)
    then have eq: "prvCopyItemAllowSplit s d = Some (mark_if_full (wrap_write
        (put_item (s\<lparr>rb_mem := m', pucWrite := 0\<rparr>) d (al4 (length d)))))"
      using g f(2) by (simp add: prvCopyItemAllowSplit_def Let_def rbHEADER_SIZE_def m'_def)
    have "ring_rel RINGBUF_TYPE_ALLOWSPLIT
       (mark_if_full (wrap_write (put_item (s\<lparr>rb_mem := m', pucWrite := 0\<rparr>) d (al4 (length d))))) hs
       (ps @ [Dummy, Live False d])"
    proof (rule copy_around [OF r u_def pl(2) _ _ _ _ _ _ _ _ _ w])
      show "holds m' ?q Dummy" by (simp add: holds_def m'_def)
      show "m' b = rb_mem s b" if "b < ?q \<or> ?N \<le> b" for b
      proof -
        have "b < ?q \<or> ?q + 8 \<le> b" using that g(5) by linarith
        then show ?thesis by (auto simp: m'_def mem_simps)
      qed
    qed (use f g(5) count_small [OF r] n in \<open>auto simp: fits_as_def e_size_def starts_whole_def\<close>)
    then show ?thesis using eq by (intro exI [of _ "mark_if_full _"] exI [of _ Behind_dummy] conjI) simp_all
  next
    case (Split_at k)
    then have f: "fits_as ?N ?q u (length d) (Split_at k)" using pl by auto
    then have k: "?N - ?q < 8 + al4 (length d)" "0 < k" "8 + k = ?N - ?q"
      by (auto simp: fits_as_def)
    have d4: "4 dvd k" using k(3) pos(3) dvd_diff_nat [of 4 ?N ?q] dvd_add_right_iff [of 4 8 k]
      by (auto simp: pos_ok_def)
    have kd: "k < length d"
    proof (rule ccontr)
      assume "\<not> k < length d"
      then have "al4 (length d) \<le> k" using d4 by (intro al4_le) auto
      then show False using k by simp
    qed
    have q0: "0 < ?q"
    proof -
      have "xMaxItemSize s + 16 = ?N" "4 dvd ?N" using r pos(3) by (auto simp: ring_rel_def pos_ok_def)
      then have "al4 (length d) + 16 \<le> ?N"
        using n al4_le [of "xMaxItemSize s" "length d"] dvd_add_left_iff [of 4 16 "xMaxItemSize s"]
        by auto
      then show ?thesis using k by (cases "?q = 0") auto
    qed
    define m' where "m' = set_item_flags ?q (0 OR rbITEM_SPLIT_FLAG)
      (mcpy (set_item_len ?q k (set_item_flags ?q 0 (rb_mem s))) (?q + 8) (take k d))"
    have ald: "al4 (length d) - k = al4 (length (drop k d))"
      using al4_diff [OF d4] kd by simp
    have wait: "s32_of_int (xItemsWaiting s + 1) = int (count_live ps + 1)"
      using r count_small [OF r] by (simp add: ring_rel_def)
    have k32: "k < 2 ^ 32" using k(3) pos(3) by (auto simp: pos_ok_def)
    have eq: "prvCopyItemAllowSplit s d = Some (mark_if_full (wrap_write
        (put_item (s\<lparr>rb_mem := m', xItemsWaiting := int (count_live ps + 1), pucWrite := 0\<rparr>)
          (drop k d) (al4 (length (drop k d))))))"
      using g k(1,2) by (simp add: prvCopyItemAllowSplit_def Let_def rbHEADER_SIZE_def m'_def wait
          ald k(3) [symmetric])
    have sz: "e_size ?N ?q (Live True (take k d)) = 8 + k"
      using kd al4_id [OF d4] by (simp add: e_size_def min_def)
    have "ring_rel RINGBUF_TYPE_ALLOWSPLIT
       (mark_if_full (wrap_write
         (put_item (s\<lparr>rb_mem := m', xItemsWaiting := int (count_live ps + 1), pucWrite := 0\<rparr>)
          (drop k d) (al4 (length (drop k d)))))) hs
       (ps @ [Live True (take k d), Live False (drop k d)])"
    proof (rule copy_around [OF r u_def pl(2) _ _ _ _ _ _ _ _ _ refl])
      show "holds m' ?q (Live True (take k d))"
        using k32 kd by (simp add: holds_def m'_def min_def mem_simps)
      show "m' b = rb_mem s b" if "b < ?q \<or> ?N \<le> b" for b
      proof -
        have "b < ?q \<or> ?q + 8 + k \<le> b" using that k(3) by linarith
        then show ?thesis using kd by (auto simp: m'_def mem_simps)
      qed
      show "pend_ok ?N ?q [Live True (take k d), Live False (drop k d)]"
        using q0 sz k(3) by (auto simp: e_next_def starts_whole_def)
    qed (use f g(5) count_small [OF r] n sz k(3) ald in \<open>auto simp: fits_as_def count_live_def\<close>)
    then show ?thesis using eq by (intro exI [of _ "mark_if_full _"] exI [of _ "Split_at k"] conjI) simp_all
  qed
qed

section \<open>Giving items back\<close>

fun reclaimable :: "entry \<Rightarrow> bool" where
  "reclaimable (Live b d) = False"
| "reclaimable _ = True"

lemma e_flags_reclaimable:
  "(has_flag (e_flags e) rbITEM_FREE_FLAG \<or> has_flag (e_flags e) rbITEM_DUMMY_DATA_FLAG)
     = reclaimable e"
  by (cases e) (auto simp: has_flag_def rb_flag_defs)

lemma lives_reclaimed: "lives N (endp N p (takeWhile reclaimable es)) (dropWhile reclaimable es)
    = lives N p es"
  by (induction N p es rule: lives.induct) auto

text \<open>The free loop drops exactly the leading entries that are free or dummies.\<close>

lemma free_loop_drop:
  assumes "pos_ok (xSize s) (pucFree s)" "chain (xSize s) (rb_mem s) (pucFree s) (hs @ ps)"
    and "used (xSize s) (pucFree s) (hs @ ps) \<le> xSize s"
    and "hs \<noteq> [] \<Longrightarrow> used (xSize s) (pucFree s) hs < xSize s"
    and "pucRead s = endp (xSize s) (pucFree s) hs"
  shows "\<exists>m'. free_loop s = Some (s\<lparr>rb_mem := m',
       pucFree := endp (xSize s) (pucFree s) (takeWhile reclaimable hs)\<rparr>)
     \<and> chain (xSize s) m' (endp (xSize s) (pucFree s) (takeWhile reclaimable hs))
         (dropWhile reclaimable hs @ ps)"
  using assms
proof (induction hs arbitrary: s)
  case Nil
  then have "free_loop s = Some s" by (subst free_loop.simps) (simp add: Let_def)
  then show ?case using Nil by (intro exI [of _ "rb_mem s"]) simp
next
  case (Cons e hs)
  let ?N = "xSize s" and ?f = "pucFree s"
  have sz: "?f + e_size ?N ?f e \<le> ?N" and h: "holds (rb_mem s) ?f e"
    and tl: "chain ?N (rb_mem s) (e_next ?N ?f e) (hs @ ps)"
    using Cons.prems(2) by auto
  note ok = pos_ok_next [OF Cons.prems(1) sz]
  have fl: "item_flags (rb_mem s) ?f = e_flags e" "item_len (rb_mem s) ?f = e_len e"
    using h by (auto simp: holds_def)
  have ne: "?f \<noteq> pucRead s"
  proof
    have c: "chain ?N (rb_mem s) ?f (e # hs)" using Cons.prems(2) chain_append [of _ _ _ "e # hs"] by simp
    assume "?f = pucRead s"
    then have "used ?N ?f (e # hs) = ?N"
      using endp_eq_start [OF Cons.prems(1) c] Cons.prems(4,5) by auto
    then show False using Cons.prems(4) by simp
  qed
  show ?case
  proof (cases "reclaimable e")
    case False
    then have "free_loop s = Some s"
      using fl e_flags_reclaimable [of e] by (subst free_loop.simps) (simp add: Let_def)
    then show ?thesis using False Cons.prems(2) by (intro exI [of _ "rb_mem s"]) simp
  next
    case True
    define s1 where "s1 = (if e = Dummy
      then s\<lparr>rb_mem := set_item_flags ?f (e_flags e OR rbITEM_FREE_FLAG) (rb_mem s), pucFree := 0\<rparr>
      else s\<lparr>pucFree := e_next ?N ?f e\<rparr>)"
    have n0: "e = Dummy \<Longrightarrow> e_next ?N ?f e = 0" by (simp add: e_next_def e_size_def)
    have s1: "xSize s1 = ?N" "pucFree s1 = e_next ?N ?f e" "pucRead s1 = pucRead s"
      using n0 by (auto simp: s1_def)
    have "free_loop s = free_loop s1"
    proof (cases e)
      case Dummy
      then show ?thesis using fl ne n0 Cons.prems(1)
        by (subst free_loop.simps) (simp add: Let_def s1_def pos_ok_def rbHEADER_SIZE_def)
    next
      case (Freed n)
      then have b: "?f + (8 + al4 n) \<le> ?N" "?N < 2 ^ 31" using sz Cons.prems(1)
        by (auto simp: e_size_def pos_ok_def)
      then have n: "rbALIGN_SIZE n = al4 n" "pdiff ?N (?f + (8 + al4 n)) = ?N - (?f + (8 + al4 n))"
        using al4_ge [of n] by (auto intro!: rbALIGN_SIZE_al4 pdiff_nat)
      show ?thesis using fl ne n b Freed
        by (subst free_loop.simps)
          (simp add: Let_def s1_def rbHEADER_SIZE_def e_next_def e_size_def add.commute [of _ 8])
    qed (use True in simp)
    moreover have c1: "chain ?N (rb_mem s1) (e_next ?N ?f e) (hs @ ps)"
    proof (cases "e = Dummy")
      case True
      have "8 \<le> e_size ?N ?f e" using Cons.prems(1) by (rule e_size_ge8)
      then have same: "rb_mem s1 b = rb_mem s b" if "b < ?f \<or> ?f + e_size ?N ?f e \<le> b" for b
        using that True by (auto simp: s1_def mem_simps)
      show ?thesis
        using chain_write_first [of ?N "rb_mem s" ?f e "hs @ ps" "rb_mem s1"] Cons.prems(1,2,3) same
        by simp
    next
      case False
      then show ?thesis using tl by (simp add: s1_def)
    qed
    have foot: "8 \<le> e_foot ?N ?f e" using e_foot_pos [OF Cons.prems(1) sz] .
    obtain m' where m': "free_loop s1 = Some (s1\<lparr>rb_mem := m',
        pucFree := endp ?N (e_next ?N ?f e) (takeWhile reclaimable hs)\<rparr>)"
      "chain ?N m' (endp ?N (e_next ?N ?f e) (takeWhile reclaimable hs)) (dropWhile reclaimable hs @ ps)"
      using Cons.IH [of s1] s1 ok c1 Cons.prems(3-5) foot by auto
    have "s1\<lparr>rb_mem := m', pucFree := q\<rparr> = s\<lparr>rb_mem := m', pucFree := q\<rparr>" for q
      by (simp add: s1_def)
    with calculation m' True show ?thesis by (intro exI [of _ m']) simp
  qed
qed

lemma set_dropWhile: "x \<in> set (dropWhile P xs) \<Longrightarrow> x \<in> set xs"
  by (metis UnCI set_append takeWhile_dropWhile_id)

lemma reset_full_eq:
  assumes "uxRingbufferFlags s = rb_flags t True" "pucWrite s = pucFree s \<longleftrightarrow> b"
    and "pucWrite s = pucFree s \<Longrightarrow> pucRead s \<noteq> pucFree s"
  shows "reset_full s = s\<lparr>uxRingbufferFlags := rb_flags t b\<rparr>"
  using assms by (cases "pucWrite s = pucFree s") (auto simp: reset_full_def clear_full_def)

text \<open>Returning a held item first marks its header as free.\<close>

lemma return_marks:
  assumes r: "ring_rel t s hs ps" and h: "lives (xSize s) (pucFree s) hs = h1 @ (p, d) # h2"
  shows "prvReturnItemDefault s p =
    (case free_loop (s\<lparr>rb_mem := set_item_flags (p - 8) rbITEM_FREE_FLAG (rb_mem s)\<rparr>) of
       None \<Rightarrow> None | Some s2 \<Rightarrow> Some (reset_full s2))"
proof -
  let ?N = "xSize s" and ?f = "pucFree s"
  note pos = ring_rel_posD [OF r]
  obtain es1 b es2 where hs: "hs = es1 @ Live b d # es2" and p: "p = endp ?N ?f es1 + 8"
    using lives_split [OF h] by blast
  define q where "q = endp ?N ?f es1"
  have c: "chain ?N (rb_mem s) ?f (es1 @ Live b d # (es2 @ ps))"
    and dm: "length d \<le> xMaxItemSize s"
    using r by (auto simp: ring_rel_def hs)
  have hd: "holds (rb_mem s) q (Live b d)" using c by (auto simp: chain_append q_def)
  have "pos_ok ?N q" using pos_ok_endp [OF pos(1)] c by (auto simp: q_def chain_append)
  then have "4 dvd q + 8" "q + 8 \<le> ?N" by (auto simp: pos_ok_def)
  then show ?thesis using hd dm p
    by (auto simp: prvReturnItemDefault_def Let_def rbCHECK_ALIGNED_def dvd_eq_mod_eq_0 q_def [symmetric]
        rbHEADER_SIZE_def holds_def has_flag_def rb_flag_defs)
qed

text \<open>Returning a held item \<open>(q + 8, d)\<close>.  A full buffer of which everything has been read is the one
  state in which the other held items are not safe: there the item must be the only one held.\<close>

lemma return_default:
  assumes r: "ring_rel t s hs ps" and h: "lives (xSize s) (pucFree s) hs = h1 @ (p, d) # h2"
    and safe: "rb_full s \<and> pucRead s = pucWrite s \<Longrightarrow> h1 = [] \<and> h2 = []"
  shows "\<exists>s' hs'. prvReturnItemDefault s p = Some s' \<and> ring_rel t s' hs' ps
    \<and> lives (xSize s') (pucFree s') hs' = h1 @ h2"
proof -
  let ?N = "xSize s" and ?f = "pucFree s"
  note pos = ring_rel_posD [OF r]
  obtain es1 b es2 where hs: "hs = es1 @ Live b d # es2" and p: "p = endp ?N ?f es1 + 8"
    and l: "lives ?N ?f es1 = h1" "lives ?N (e_next ?N (endp ?N ?f es1) (Live b d)) es2 = h2"
    using lives_split [OF h] by blast
  define q where "q = endp ?N ?f es1"
  define hs1 where "hs1 = es1 @ Freed (length d) # es2"
  have c: "chain ?N (rb_mem s) ?f (es1 @ Live b d # (es2 @ ps))" "used ?N ?f (hs @ ps) \<le> ?N"
    and fl: "uxRingbufferFlags s = rb_flags t (used ?N ?f (hs @ ps) = ?N)"
    and rd: "pucRead s = endp ?N ?f hs" and wr: "pucWrite s = endp ?N ?f (hs @ ps)"
    and mx: "max_ok t ?N (xMaxItemSize s)" "t \<noteq> RINGBUF_TYPE_BYTEBUF"
    and dm: "length d \<le> xMaxItemSize s"
    using r by (auto simp: ring_rel_def hs)
  have hd: "holds (rb_mem s) q (Live b d)" and sz: "q + e_size ?N q (Live b d) \<le> ?N"
    using c(1) by (auto simp: chain_append q_def)
  have qok: "pos_ok ?N q" using pos_ok_endp [OF pos(1)] c(1) by (auto simp: q_def chain_append)
  define m1 where "m1 = set_item_flags q rbITEM_FREE_FLAG (rb_mem s)"
  define s1 where "s1 = s\<lparr>rb_mem := m1\<rparr>"
  have e8: "8 \<le> e_size ?N q (Live b d)" using qok by (rule e_size_ge8)
  have same: "e_size ?N x (Freed (length d)) = e_size ?N x (Live b d)" for x by (simp add: e_size_def)
  have c1: "chain ?N m1 ?f (es1 @ Freed (length d) # (es2 @ ps))"
  proof (rule chain_update [OF c(1) pos(1) _ q_def same])
    show "used ?N ?f (es1 @ Live b d # es2 @ ps) \<le> ?N" using c(2) by (simp add: hs)
    show "m1 x = rb_mem s x" if "x < q \<or> q + e_size ?N q (Live b d) \<le> x" for x
      using that e8 by (auto simp: m1_def mem_simps)
    show "holds m1 q (Freed (length d))" using hd by (simp add: holds_def m1_def)
  qed
  have nx: "e_next ?N x (Freed (length d)) = e_next ?N x (Live b d)"
    "e_foot ?N x (Freed (length d)) = e_foot ?N x (Live b d)" for x
    by (simp_all add: e_next_def e_foot_def same)
  have eq1: "endp ?N ?f (hs1 @ xs) = endp ?N ?f (hs @ xs)" "used ?N ?f (hs1 @ xs) = used ?N ?f (hs @ xs)" for xs
    by (auto simp: hs1_def hs nx)
  have l1: "lives ?N ?f hs1 = h1 @ h2" using l by (simp add: hs1_def nx)
  have ret: "prvReturnItemDefault s p =
      (case free_loop s1 of None \<Rightarrow> None | Some s2 \<Rightarrow> Some (reset_full s2))"
    using return_marks [OF r h] p by (simp add: s1_def m1_def q_def)
  show ?thesis
  proof (cases "used ?N ?f hs = ?N")
    case True
    have "ps = []"
    proof (rule ccontr)
      assume "ps \<noteq> []"
      then show False using used_pos [OF pos(2,4)] c(2) True rd by simp
    qed
    have rf: "pucRead s = ?f" using endp_eq_start [OF pos(1,5)] True rd by (cases "hs = []") (auto simp: hs)
    have full: "rb_full s" "pucRead s = pucWrite s" using fl True \<open>ps = []\<close> rd wr by auto
    then have e: "h1 = []" "h2 = []" using safe \<open>ps = []\<close> by auto
    have "free_loop s1 = Some s1" using rf by (subst free_loop.simps) (simp add: Let_def s1_def)
    moreover have "reset_full s1 = clear_full s1"
      using full rf by (simp add: reset_full_def s1_def)
    ultimately have "prvReturnItemDefault s p = Some (clear_full s1)" using ret by simp
    moreover have "ring_rel t (clear_full s1) [] []"
      using r fl rf full pos(1) \<open>ps = []\<close> True
      by (auto simp: ring_rel_def clear_full_def s1_def pos_ok_def)
    ultimately show ?thesis using e \<open>ps = []\<close> by (intro exI [of _ "clear_full s1"] exI [of _ "[]"]) simp
  next
    case False
    then have part: "used ?N ?f hs < ?N" using c(2) by simp
    let ?f' = "endp ?N ?f (takeWhile reclaimable hs1)" and ?hs' = "dropWhile reclaimable hs1"
    have s1: "xSize s1 = ?N" "pucFree s1 = ?f" "rb_mem s1 = m1" "pucRead s1 = pucRead s"
      by (simp_all add: s1_def)
    have "chain ?N m1 ?f (hs1 @ ps)" "used ?N ?f (hs1 @ ps) \<le> ?N" "used ?N ?f hs1 < ?N"
      "pucRead s = endp ?N ?f hs1"
      using c1 c(2) part rd eq1(2) [of ps] eq1(2) [of "[]"] eq1(1) [of "[]"] by (simp_all add: hs1_def)
    then obtain m' where m': "free_loop s1 = Some (s1\<lparr>rb_mem := m', pucFree := ?f'\<rparr>)"
      "chain ?N m' ?f' (?hs' @ ps)"
      using free_loop_drop [of s1 hs1 ps, unfolded s1, OF pos(1)] by blast
    define s2 where "s2 = s1\<lparr>rb_mem := m', pucFree := ?f'\<rparr>"
    have tk: "chain ?N m1 ?f (takeWhile reclaimable hs1)" "chain ?N m1 ?f hs1"
      using c1 chain_append [of ?N m1 ?f "takeWhile reclaimable hs1" "?hs'"]
        chain_append [of ?N m1 ?f hs1 ps] by (auto simp: hs1_def)
    have f'ok: "pos_ok ?N ?f'" using pos_ok_endp [OF pos(1) tk(1)] .
    have u: "used ?N ?f (takeWhile reclaimable hs1) + used ?N ?f' (?hs' @ ps) = used ?N ?f (hs @ ps)"
      using used_append [of ?N ?f "takeWhile reclaimable hs1" "?hs' @ ps"] eq1(2) [of ps]
      by (metis append.assoc takeWhile_dropWhile_id)
    have rd': "pucRead s = endp ?N ?f' ?hs'" and wr': "pucWrite s = endp ?N ?f' (?hs' @ ps)"
      using rd wr eq1(1) [of "[]"] eq1(1) [of ps] endp_append [of ?N ?f "takeWhile reclaimable hs1"]
      by (metis append.right_neutral takeWhile_dropWhile_id append.assoc)+
    have fl': "reset_full s2 = s2\<lparr>uxRingbufferFlags := rb_flags t (used ?N ?f' (?hs' @ ps) = ?N)\<rparr>"
    proof (cases "used ?N ?f (hs @ ps) = ?N")
      case False
      then show ?thesis using u c(2) fl by (simp add: reset_full_def s2_def s1_def)
    next
      case True
      then have ps: "ps \<noteq> []" using part by auto
      have w: "pucWrite s = ?f' \<longleftrightarrow> used ?N ?f' (?hs' @ ps) = ?N"
        using endp_eq_start [OF f'ok m'(2)] u c(2) ps wr' by auto
      have "pucRead s \<noteq> ?f"
        using endp_eq_start [OF pos(1,5)] part rd by (auto simp: hs)
      then have nr: "pucWrite s = ?f' \<Longrightarrow> pucRead s \<noteq> ?f'"
        using w u True used_pos [OF pos(1) tk(1)] by (cases "takeWhile reclaimable hs1 = []") auto
      have s2: "pucWrite s2 = pucWrite s" "pucFree s2 = ?f'" "pucRead s2 = pucRead s"
        "uxRingbufferFlags s2 = uxRingbufferFlags s"
        by (simp_all add: s2_def s1_def)
      show ?thesis
      proof (rule reset_full_eq)
        show "uxRingbufferFlags s2 = rb_flags t True" using fl True s2 by simp
      qed (unfold s2, rule w, rule nr)
    qed
    have "prvReturnItemDefault s p = Some (reset_full s2)" using ret m'(1) by (simp add: s2_def)
    moreover have "ring_rel t (reset_full s2) ?hs' ps"
    proof -
      have small: "\<forall>e\<in>set (hs1 @ ps). e_len e \<le> xMaxItemSize s"
        using r by (auto simp: ring_rel_def hs1_def hs)
      have small': "\<forall>e\<in>set (?hs' @ ps). e_len e \<le> xMaxItemSize s"
        using small set_dropWhile [of _ reclaimable hs1] by fastforce
      have s3: "xSize (reset_full s2) = ?N" "pucFree (reset_full s2) = ?f'"
        "rb_mem (reset_full s2) = m'" "pucRead (reset_full s2) = pucRead s"
        "pucWrite (reset_full s2) = pucWrite s" "xOps (reset_full s2) = xOps s"
        "xMaxItemSize (reset_full s2) = xMaxItemSize s" "xItemsWaiting (reset_full s2) = xItemsWaiting s"
        "uxRingbufferFlags (reset_full s2) = rb_flags t (used ?N ?f' (?hs' @ ps) = ?N)"
        unfolding fl' by (simp_all add: s2_def s1_def)
      have "used ?N ?f' (?hs' @ ps) \<le> ?N" using u c(2) by simp
      moreover have "xOps s = t" "xItemsWaiting s = int (count_live ps)" "pend_ok ?N (pucRead s) ps"
        using r by (auto simp: ring_rel_def)
      ultimately show ?thesis
        unfolding ring_rel_def s3 using f'ok m'(2) rd' wr' mx small' by blast
    qed
    moreover have "lives (xSize (reset_full s2)) (pucFree (reset_full s2)) ?hs' = h1 @ h2"
      using l1 lives_reclaimed [of ?N ?f hs1] unfolding fl' by (simp add: s2_def s1_def)
    ultimately show ?thesis by blast
  qed
qed

section \<open>A fresh buffer\<close>

lemma prvGetFreeSize_ok:
  "ring_rel t s hs ps \<Longrightarrow> prvGetFreeSize s \<noteq> None"
proof -
  assume r: "ring_rel t s hs ps"
  then have "pucWrite s + 8 \<le> xSize s" "pucFree s + 8 \<le> xSize s" "xSize s < 2 ^ 31"
    using ring_rel_posD [OF r] by (auto simp: pos_ok_def)
  then show ?thesis by (auto simp: prvGetFreeSize_def Let_def)
qed

lemma rbALIGN_SIZE_dvd [simp]: "4 dvd rbALIGN_SIZE n"
  by (simp add: rbALIGN_SIZE_def)

lemma create_items:
  assumes "t \<noteq> RINGBUF_TYPE_BYTEBUF" "16 \<le> n" "n + 4 < 2 ^ 31"
  shows "\<exists>s. xRingbufferCreate True (Some m) (True, True) n t = Some s \<and> ring_rel t s [] []
    \<and> rb_mem s = m"
proof -
  have n: "rbALIGN_SIZE n = al4 n" "16 \<le> al4 n" "al4 n < 2 ^ 31"
    using assms al4_ge [of n] al4_less [of n] by (auto intro!: rbALIGN_SIZE_al4)
  have h: "rbALIGN_SIZE (al4 n div 2) = al4 (al4 n div 2)" "8 \<le> al4 (al4 n div 2)"
    "al4 (al4 n div 2) < 2 ^ 31"
    using n al4_ge [of "al4 n div 2"] al4_less [of "al4 n div 2"] by (auto intro!: rbALIGN_SIZE_al4)
  show ?thesis
  proof (cases t)
    case RINGBUF_TYPE_NOSPLIT
    then show ?thesis using n h
      by (auto simp: xRingbufferCreate_def Let_def give_space_def ring_rel_def pos_ok_def rb_flags_def
          pdiff_nat rbHEADER_SIZE_def)
  next
    case RINGBUF_TYPE_ALLOWSPLIT
    then show ?thesis using n
      by (auto simp: xRingbufferCreate_def Let_def give_space_def ring_rel_def pos_ok_def rb_flags_def
          pdiff_nat rbHEADER_SIZE_def)
  qed (use assms in simp)
qed

end
