(* ===== verification/RingBytes.thy ===== *)
theory RingBytes
  imports RingItems
begin

text \<open>
  The byte ring buffer.  \<open>byte_rel s h xs\<close> is its invariant: the bytes \<open>xs\<close> lie behind the read pointer
  (wrapping at the end of the storage), and \<open>h\<close> is the retrieved piece, at most one, between the free
  and the read pointer.
\<close>

definition byte_rel :: "ringbuf \<Rightarrow> (nat \<times> u8 list) list \<Rightarrow> u8 list \<Rightarrow> bool" where
  "byte_rel s h xs \<longleftrightarrow>
     xOps s = RINGBUF_TYPE_BYTEBUF \<and> 0 < xSize s \<and> xSize s < 2 ^ 31 \<and> xMaxItemSize s = xSize s
     \<and> pucFree s < xSize s
     \<and> (h = [] \<or> (\<exists>d. h = [(pucFree s, d)] \<and> d \<noteq> [] \<and> pucFree s + length d \<le> xSize s))
     \<and> (\<forall>(p, d) \<in> set h. mget (rb_mem s) p (length d) = d)
     \<and> (\<exists>k. k = length (concat (map snd h)) \<and> k + length xs \<le> xSize s
          \<and> pucRead s = (pucFree s + k) mod xSize s
          \<and> pucWrite s = (pucFree s + (k + length xs)) mod xSize s
          \<and> uxRingbufferFlags s = rb_flags RINGBUF_TYPE_BYTEBUF (k + length xs = xSize s)
          \<and> (\<forall>i<length xs. rb_mem s ((pucFree s + (k + i)) mod xSize s) = xs ! i))
     \<and> xItemsWaiting s = int (length xs)"

text \<open>A copy in two parts writes the ring positions from the write pointer on, and only those.\<close>

definition ring_put :: "nat \<Rightarrow> memory \<Rightarrow> nat \<Rightarrow> u8 list \<Rightarrow> memory" where
  "ring_put N m w d = (if N - w < length d
     then mcpy (mcpy m w (take (N - w) d)) 0 (drop (N - w) d) else mcpy m w d)"

lemma ring_put_in:
  assumes "w < N" "length d \<le> N" "j < length d"
  shows "ring_put N m w d ((w + j) mod N) = d ! j"
proof (cases "w + j < N")
  case True
  then show ?thesis using assms by (auto simp: ring_put_def mem_simps)
next
  case False
  then have "(w + j) mod N = w + j - N" using assms by (simp add: mod_if)
  moreover have "N - w < length d" "w + j - N < length d - (N - w)" using False assms by linarith+
  ultimately show ?thesis using False assms by (simp add: ring_put_def mem_simps)
qed

lemma ring_put_out:
  assumes "w < N" "length d \<le> N" "\<And>j. j < length d \<Longrightarrow> b \<noteq> (w + j) mod N"
  shows "ring_put N m w d b = m b"
proof (cases "N - w < length d")
  case True
  have "\<not> (w \<le> b \<and> b < N)"
  proof
    assume b: "w \<le> b \<and> b < N"
    then have "b - w < length d" using True by linarith
    then show False using assms(3) [of "b - w"] b by simp
  qed
  moreover have "\<not> b < length d - (N - w)"
  proof
    assume b: "b < length d - (N - w)"
    then have "b < N" "b + (N - w) < length d" using assms(1,2) True by linarith+
    then show False using assms(3) [of "b + (N - w)"] assms(1) by auto
  qed
  ultimately show ?thesis using True assms(1) by (auto simp: ring_put_def mem_simps mcpy_def)
next
  case False
  have "\<not> (w \<le> b \<and> b < w + length d)"
  proof
    assume b: "w \<le> b \<and> b < w + length d"
    then have "b - w < length d" "b < N" using False assms(1) by linarith+
    then show False using assms(3) [of "b - w"] b by simp
  qed
  then show ?thesis using False by (auto simp: ring_put_def mem_simps)
qed

text \<open>The same, seen from the free pointer: what is stored at an offset below \<open>u\<close> stays.\<close>

lemma ring_put_keeps:
  assumes "f < N" "u + length d \<le> N" "i < u"
  shows "ring_put N m ((f + u) mod N) d ((f + i) mod N) = m ((f + i) mod N)"
proof (rule ring_put_out)
  fix j assume j: "j < length d"
  show "(f + i) mod N \<noteq> ((f + u) mod N + j) mod N"
  proof
    assume "(f + i) mod N = ((f + u) mod N + j) mod N"
    then have "(f + i) mod N = (f + (u + j)) mod N" by (simp add: mod_add_left_eq add.assoc)
    then have "i = u + j" by (rule mod_inj) (use assms j in auto)
    then show False using assms by simp
  qed
qed (use assms in auto)

lemma copy_bytes_eq:
  assumes "write_ok s" "xSize s < 2 ^ 31" "length d \<le> xSize s"
    and "0 \<le> xItemsWaiting s" "xItemsWaiting s + int (length d) < 2 ^ 31"
  shows "prvCopyItemByteBuf s d = Some (mark_if_full (s\<lparr>rb_mem := ring_put (xSize s) (rb_mem s) (pucWrite s) d,
    xItemsWaiting := xItemsWaiting s + int (length d), pucWrite := (pucWrite s + length d) mod xSize s\<rparr>))"
proof -
  have w: "pucWrite s < xSize s" "pdiff (xSize s) (pucWrite s) = xSize s - pucWrite s"
    using assms by (auto simp: write_ok_def intro!: pdiff_nat)
  show ?thesis
  proof (cases "xSize s - pucWrite s < length d")
    case True
    then have "(pucWrite s + length d) mod xSize s = length d - (xSize s - pucWrite s)"
      "length d - (xSize s - pucWrite s) \<noteq> xSize s"
      using w assms(3) by (auto simp: mod_if)
    then show ?thesis using True w assms
      by (simp add: prvCopyItemByteBuf_def Let_def ring_put_def)
  next
    case False
    then have "pucWrite s + length d \<le> xSize s" using w by simp
    then show ?thesis using False w assms
      by (auto simp: prvCopyItemByteBuf_def Let_def ring_put_def mod_if)
  qed
qed

lemma byte_relE:
  assumes "byte_rel s h xs"
  obtains k where "k = length (concat (map snd h))" "k + length xs \<le> xSize s"
    "pucRead s = (pucFree s + k) mod xSize s"
    "pucWrite s = (pucFree s + (k + length xs)) mod xSize s"
    "uxRingbufferFlags s = rb_flags RINGBUF_TYPE_BYTEBUF (k + length xs = xSize s)"
    "\<forall>i<length xs. rb_mem s ((pucFree s + (k + i)) mod xSize s) = xs ! i"
    "0 < xSize s" "xSize s < 2 ^ 31" "pucFree s < xSize s" "xItemsWaiting s = int (length xs)"
    "pucWrite s < xSize s" "pucRead s < xSize s" "xOps s = RINGBUF_TYPE_BYTEBUF"
    "xMaxItemSize s = xSize s"
  using assms by (auto simp: byte_rel_def)

lemma ring_mod_cases:
  assumes "f < N" "u \<le> (N::nat)"
  obtains "u < N" "(f + u) mod N = f + u" "f + u < N"
  | "u < N" "(f + u) mod N + N = f + u" "(f + u) mod N < f"
  | "u = N" "(f + u) mod N = f"
proof (cases "u = N \<or> f + u < N")
  case True
  then show ?thesis using assms that by auto
next
  case False
  then have "(f + u) mod N = f + u - N" "f + u - N < f" using assms by (auto simp: mod_if)
  then show ?thesis using that(2) False assms by simp
qed

lemma mod_full: "f < (N::nat) \<Longrightarrow> u \<le> N \<Longrightarrow> 0 < u \<Longrightarrow> (f + u) mod N = f \<longleftrightarrow> u = N"
  by (rule ring_mod_cases [of f N u]) auto

lemma byte_write_ok: "byte_rel s h xs \<Longrightarrow> write_ok s"
  by (auto simp: byte_rel_def write_ok_def)

lemma byte_fits:
  assumes r: "byte_rel s h xs" and n: "n \<le> xMaxItemSize s"
  shows "prvCheckItemFitsByteBuffer s n \<noteq> None"
    and "prvCheckItemFitsByteBuffer s n = Some True \<Longrightarrow> length (concat (map snd h)) + length xs < xSize s
      \<and> length (concat (map snd h)) + length xs + n \<le> xSize s"
proof -
  obtain k where k: "k = length (concat (map snd h))" "k + length xs \<le> xSize s"
    "pucWrite s = (pucFree s + (k + length xs)) mod xSize s"
    "uxRingbufferFlags s = rb_flags RINGBUF_TYPE_BYTEBUF (k + length xs = xSize s)"
    "xSize s < 2 ^ 31" "pucFree s < xSize s" "pucWrite s < xSize s" "xMaxItemSize s = xSize s"
    using r by (rule byte_relE)
  show "prvCheckItemFitsByteBuffer s n \<noteq> None"
    using byte_write_ok [OF r] by (auto simp: prvCheckItemFitsByteBuffer_def)
  assume "prvCheckItemFitsByteBuffer s n = Some True"
  then have fit: "pucWrite s = pucFree s \<Longrightarrow> \<not> rb_full s"
    "pucWrite s < pucFree s \<Longrightarrow> n \<le> pucFree s - pucWrite s"
    "pucFree s < pucWrite s \<Longrightarrow> n \<le> xSize s - (pucWrite s - pucFree s)"
    using byte_write_ok [OF r] k(5-7)
    by (auto simp: prvCheckItemFitsByteBuffer_def pdiff_nat split: if_splits)
  show "length (concat (map snd h)) + length xs < xSize s
      \<and> length (concat (map snd h)) + length xs + n \<le> xSize s"
    using ring_mod_cases [OF k(6,2)]
  proof cases
    case 1
    then have "pucWrite s = pucFree s + (k + length xs)" using k(3) by simp
    then show ?thesis using 1 fit(3) n k(8) unfolding k(1) [symmetric]
      by (cases "k + length xs = 0") auto
  next
    case 2
    then show ?thesis using fit(2) k by simp
  next
    case 3
    then show ?thesis using fit(1) k by simp
  qed
qed

lemma byte_copy:
  assumes r: "byte_rel s h xs" and n: "d \<noteq> []" "length d \<le> xMaxItemSize s"
    and fits: "prvCheckItemFitsByteBuffer s (length d) = Some True"
  shows "\<exists>s'. prvCopyItemByteBuf s d = Some s' \<and> byte_rel s' h (xs @ d)"
proof -
  obtain k where k: "k = length (concat (map snd h))" "k + length xs \<le> xSize s"
    "pucRead s = (pucFree s + k) mod xSize s"
    "pucWrite s = (pucFree s + (k + length xs)) mod xSize s"
    "uxRingbufferFlags s = rb_flags RINGBUF_TYPE_BYTEBUF (k + length xs = xSize s)"
    "\<forall>i<length xs. rb_mem s ((pucFree s + (k + i)) mod xSize s) = xs ! i"
    "xSize s < 2 ^ 31" "pucFree s < xSize s" "xItemsWaiting s = int (length xs)"
    "xMaxItemSize s = xSize s"
    using r by (rule byte_relE)
  have room: "k + length xs < xSize s" "k + length xs + length d \<le> xSize s"
    using byte_fits(2) [OF r n(2) fits] k(1) by auto
  define m' where "m' = ring_put (xSize s) (rb_mem s) (pucWrite s) d"
  define w' where "w' = (pucFree s + (k + length (xs @ d))) mod xSize s"
  have w': "(pucWrite s + length d) mod xSize s = w'"
    by (simp add: k(4) w'_def mod_add_left_eq add.assoc)
  define s1 where "s1 = s\<lparr>rb_mem := m', xItemsWaiting := int (length (xs @ d)), pucWrite := w'\<rparr>"
  have eq: "prvCopyItemByteBuf s d = Some (mark_if_full s1)"
    using copy_bytes_eq [OF byte_write_ok [OF r] k(7)] n k(7,9,10) room w'
    by (simp add: m'_def s1_def)
  have "w' = pucFree s \<longleftrightarrow> k + length (xs @ d) = xSize s"
    unfolding w'_def using mod_full [OF k(8), of "k + length (xs @ d)"] room n(1) by simp
  then have s1': "mark_if_full s1 = s1\<lparr>uxRingbufferFlags
      := rb_flags RINGBUF_TYPE_BYTEBUF (k + length (xs @ d) = xSize s)\<rparr>"
    using k(5) room(1) by (simp add: mark_if_full_def set_full_def s1_def)
  have keep: "m' ((pucFree s + i) mod xSize s) = rb_mem s ((pucFree s + i) mod xSize s)"
    if "i < k + length xs" for i
    unfolding m'_def k(4) by (rule ring_put_keeps) (use k(8) room that in auto)
  have new: "m' ((pucFree s + (k + i)) mod xSize s) = (xs @ d) ! i" if i: "i < length (xs @ d)" for i
  proof (cases "i < length xs")
    case True
    then show ?thesis using keep [of "k + i"] k(6) by (simp add: nth_append)
  next
    case False
    then have "pucFree s + (k + i) = pucFree s + (k + length xs) + (i - length xs)" by simp
    then have "(pucFree s + (k + i)) mod xSize s = (pucWrite s + (i - length xs)) mod xSize s"
      by (simp only: k(4) mod_add_left_eq)
    moreover have "ring_put (xSize s) (rb_mem s) (pucWrite s) d
        ((pucWrite s + (i - length xs)) mod xSize s) = d ! (i - length xs)"
      using byte_write_ok [OF r] False i room by (intro ring_put_in) (auto simp: write_ok_def)
    ultimately show ?thesis using False by (simp only: m'_def nth_append if_False)
  qed
  have held: "mget m' p (length b) = b" if "(p, b) \<in> set h" for p b
  proof -
    have b: "p = pucFree s" "pucFree s + length b \<le> xSize s" "k = length b"
      "mget (rb_mem s) p (length b) = b" "0 < length b"
      using that r k(1) by (auto simp: byte_rel_def)
    have "mget m' p (length b) = mget (rb_mem s) p (length b)"
    proof (rule mget_cong)
      fix c assume "p \<le> c" "c < p + length b"
      then show "m' c = rb_mem s c" using keep [of "c - p"] b by auto
    qed
    then show ?thesis using b by simp
  qed
  have "byte_rel (mark_if_full s1) h (xs @ d)"
    unfolding byte_rel_def s1' using r k room new held by (auto simp: byte_rel_def s1_def w'_def)
  then show ?thesis using eq by blast
qed

section \<open>Retrieving and giving back\<close>

lemma byte_avail:
  assumes r: "byte_rel s h xs"
  shows "prvCheckItemAvail s \<longleftrightarrow> h = [] \<and> xs \<noteq> []"
proof -
  obtain k where k: "k = length (concat (map snd h))" "k + length xs \<le> xSize s"
    "pucRead s = (pucFree s + k) mod xSize s"
    "pucWrite s = (pucFree s + (k + length xs)) mod xSize s"
    "uxRingbufferFlags s = rb_flags RINGBUF_TYPE_BYTEBUF (k + length xs = xSize s)"
    "pucFree s < xSize s" "xItemsWaiting s = int (length xs)"
    using r by (rule byte_relE)
  show ?thesis
  proof (cases "h = []")
    case True
    then have k0: "k = 0" "pucRead s = pucFree s" using k by auto
    then show ?thesis using True k mod_full [OF k(6), of "length xs"]
      by (cases "xs = []") (auto simp: prvCheckItemAvail_def items_to_read_def)
  next
    case False
    then have "0 < k" using r k(1) by (auto simp: byte_rel_def)
    then have "pucRead s = pucFree s \<longleftrightarrow> k = xSize s"
      using mod_full [OF k(6), of k] k(2,3) by simp
    then show ?thesis using False k(2,5,7)
      by (auto simp: prvCheckItemAvail_def items_to_read_def)
  qed
qed

text \<open>A retrieval hands out a prefix of the stream: what is contiguous, or \<open>xMaxSize\<close> bytes of it.\<close>

lemma byte_get:
  assumes r: "byte_rel s [] xs" and ne: "xs \<noteq> []"
  shows "\<exists>n s'. prvGetItemByteBuf s mx = Some (pucFree s, n, False, s') \<and> 0 < n \<and> n \<le> length xs
    \<and> (0 < mx \<longrightarrow> n \<le> mx) \<and> byte_rel s' [(pucFree s, take n xs)] (drop n xs)
    \<and> uxRingbufferFlags s' = uxRingbufferFlags s"
proof -
  let ?N = "xSize s" and ?f = "pucFree s"
  obtain k where k: "k = length (concat (map snd ([] :: (nat \<times> u8 list) list)))"
    "k + length xs \<le> ?N" "pucRead s = (?f + k) mod ?N" "pucWrite s = (?f + (k + length xs)) mod ?N"
    "uxRingbufferFlags s = rb_flags RINGBUF_TYPE_BYTEBUF (k + length xs = ?N)"
    "\<forall>i<length xs. rb_mem s ((?f + (k + i)) mod ?N) = xs ! i"
    "?f < ?N" "?N < 2 ^ 31" "xItemsWaiting s = int (length xs)"
    using r by (rule byte_relE)
  have rd: "pucRead s = ?f" "k = 0" using k by auto
  define c where "c = (if pucWrite s < ?f \<or> rb_full s then ?N - ?f else pucWrite s - ?f)"
  have c: "0 < c" "c \<le> length xs" "?f + c \<le> ?N"
  proof -
    have l: "0 < length xs" "length xs \<le> ?N" "pucWrite s = (?f + length xs) mod ?N"
      "rb_full s \<longleftrightarrow> length xs = ?N" using ne k(2,4,5) rd(2) by auto
    have "0 < c \<and> c \<le> length xs \<and> ?f + c \<le> ?N"
    proof (cases rule: ring_mod_cases [OF k(7) l(2)])
      case 1
      then show ?thesis using l unfolding c_def by simp
    next
      case 2
      then have "c = ?N - ?f" using l(3) unfolding c_def by simp
      then show ?thesis using 2 k(7) by linarith
    next
      case 3
      then have "c = ?N - ?f" using l unfolding c_def by simp
      then show ?thesis using 3 k(7) by linarith
    qed
    then show "0 < c" "c \<le> length xs" "?f + c \<le> ?N" by auto
  qed
  define n where "n = (if mx = 0 \<or> c \<le> mx then c else mx)"
  have n: "0 < n" "n \<le> length xs" "?f + n \<le> ?N" "0 < mx \<longrightarrow> n \<le> mx" using c by (auto simp: n_def)
  define s' where "s' = s\<lparr>xItemsWaiting := int (length xs - n), pucRead := (?f + n) mod ?N\<rparr>"
  have av: "items_to_read s"
    using byte_avail [OF r] ne by (auto simp: prvCheckItemAvail_def split: if_splits)
  have w: "s32_of_int (int (length xs) - int m) = int (length xs - m)" if "m \<le> length xs" for m
    using that k(2,8) by (simp add: of_nat_diff)
  have pd: "pdiff ?N ?f = ?N - ?f" using k(7,8) by (intro pdiff_nat) auto
  have pw: "pdiff (pucWrite s) ?f = pucWrite s - ?f" if "\<not> pucWrite s < ?f"
    using that k(4,7,8) by (intro pdiff_nat) (auto intro: less_trans [OF mod_less_divisor])
  have cut: "prvGetItemByteBuf s mx = (if mx = 0 \<or> c \<le> mx
      then Some (?f, c, False, s\<lparr>xItemsWaiting := s32_of_int (int (length xs) - int c),
                                 pucRead := (?f + c) mod ?N\<rparr>)
      else Some (?f, mx, False, s\<lparr>xItemsWaiting := s32_of_int (int (length xs) - int mx),
                                  pucRead := ?f + mx\<rparr>))"
  proof (cases "pucWrite s < ?f \<or> rb_full s")
    case True
    then have "c = ?N - ?f" "(?f + c) mod ?N = 0" using k(7) by (simp_all add: c_def)
    then show ?thesis using True av rd(1) k(7,9) pd
      by (simp add: prvGetItemByteBuf_def Let_def)
  next
    case False
    then have cw: "c = pucWrite s - ?f" "pucWrite s = ?f + c" using c by (simp_all add: c_def)
    have "pucWrite s < ?N" using k(4,7) by (metis mod_less_divisor less_nat_zero_code neq0_conv)
    then have "(?f + c) mod ?N = pucWrite s" using cw(2) by simp
    then show ?thesis using False av rd(1) k(7,9) pw cw(1)
      by (simp add: prvGetItemByteBuf_def Let_def)
  qed
  have "s' = s\<lparr>xItemsWaiting := s32_of_int (int (length xs) - int n), pucRead := (?f + n) mod ?N\<rparr>"
    using w [OF n(2)] by (simp add: s'_def)
  moreover have "\<not> (mx = 0 \<or> c \<le> mx) \<Longrightarrow> (?f + mx) mod ?N = ?f + mx" using c(3) by simp
  ultimately have eq: "prvGetItemByteBuf s mx = Some (?f, n, False, s')"
    unfolding cut n_def by (cases "mx = 0 \<or> c \<le> mx") simp_all
  have "mget (rb_mem s) ?f n = take n xs"
  proof (rule nth_equalityI)
    fix i assume "i < length (mget (rb_mem s) ?f n)"
    then have i: "i < n" by simp
    then have b: "i < length xs" "?f + i < ?N" using n(2,3) by linarith+
    then have "rb_mem s ((?f + (k + i)) mod ?N) = xs ! i" using k(6) by blast
    then have "rb_mem s (?f + i) = xs ! i" using b(2) rd(2) by simp
    then show "mget (rb_mem s) ?f n ! i = take n xs ! i" using i by simp
  qed (use n in simp)
  moreover have "rb_mem s ((?f + (n + i)) mod ?N) = drop n xs ! i" if "i < length (drop n xs)" for i
    using that k(6) rd(2) n by simp
  ultimately have "byte_rel s' [(?f, take n xs)] (drop n xs)"
    using r n k(4,5) rd ne by (auto simp: byte_rel_def s'_def min_def)
  then show ?thesis using eq n by (auto simp: s'_def)
qed

lemma byte_return:
  assumes r: "byte_rel s [(p, d)] xs"
  shows "\<exists>s'. prvReturnItemByteBuf s p = Some s' \<and> byte_rel s' [] xs"
proof -
  let ?N = "xSize s" and ?f = "pucFree s"
  have p: "p = ?f" "d \<noteq> []" using r by (auto simp: byte_rel_def)
  obtain k where k: "k = length (concat (map snd [(p, d)]))" "k + length xs \<le> ?N"
    "pucRead s = (?f + k) mod ?N" "pucWrite s = (?f + (k + length xs)) mod ?N"
    "uxRingbufferFlags s = rb_flags RINGBUF_TYPE_BYTEBUF (k + length xs = ?N)"
    "\<forall>i<length xs. rb_mem s ((?f + (k + i)) mod ?N) = xs ! i" "?f < ?N" "pucRead s < ?N"
    using r by (rule byte_relE)
  define s' where "s' = s\<lparr>pucFree := pucRead s, uxRingbufferFlags := rb_flags RINGBUF_TYPE_BYTEBUF False\<rparr>"
  have eq: "prvReturnItemByteBuf s p = Some s'"
    using p k(5,7) by (auto simp: prvReturnItemByteBuf_def Let_def clear_full_def s'_def)
  have "length xs \<noteq> ?N" using k(1,2) p(2) by (cases d) auto
  moreover have "(pucRead s + i) mod ?N = (?f + (k + i)) mod ?N" for i
    by (simp add: k(3) mod_add_left_eq add.assoc)
  ultimately have "byte_rel s' [] xs"
    using r k by (auto simp: byte_rel_def s'_def)
  then show ?thesis using eq by blast
qed

lemma byte_free_size: "byte_rel s h xs \<Longrightarrow> prvGetFreeSize s \<noteq> None"
proof -
  assume "byte_rel s h xs"
  then have "pucWrite s < xSize s" "pucFree s < xSize s" "xSize s < 2 ^ 31"
    by (auto simp: byte_rel_def)
  then show ?thesis by (auto simp: prvGetFreeSize_def Let_def)
qed

lemma create_bytes:
  assumes "0 < n" "n < 2 ^ 31"
  shows "\<exists>s. xRingbufferCreate True (Some m) (True, True) n RINGBUF_TYPE_BYTEBUF = Some s
    \<and> byte_rel s [] [] \<and> rb_mem s = m"
  using assms by (auto simp: xRingbufferCreate_def Let_def give_space_def byte_rel_def rb_flags_def)

end
