(* ===== verification/RingTypes.thy ===== *)
theory RingTypes
  imports RingBytes
begin

text \<open>
  What a client of \<open>ringbuf.c\<close> can rely on.  The locale \<open>byte_stream\<close> is the contract of the function
  table: the routines keep a stream of bytes and leave every held piece alone; the locale
  \<open>item_stream\<close> adds the item boundaries.  A client is a run of the public calls (\<open>ring_step\<close>); the
  facts about runs are proved once in the locales, which are then interpreted for the three types.
\<close>

section \<open>Runs of the public interface\<close>

text \<open>Giving an item back is safe unless the buffer is full and completely read: then it has to be
  the only item held.\<close>

definition safe_return :: "ringbuf \<Rightarrow> (nat \<times> u8 list) list \<Rightarrow> bool" where
  "safe_return s others \<longleftrightarrow> \<not> (rb_full s \<and> pucRead s = pucWrite s) \<or> others = []"

text \<open>A system is the buffer, the pieces its clients hold (address and bytes at retrieval), the items
  sent and the items received so far.  With \<open>whole\<close> set, the clients of an allow-split buffer use only
  the calls that fetch both halves of an item.\<close>

type_synonym ring_sys = "ringbuf \<times> (nat \<times> u8 list) list \<times> u8 list list \<times> u8 list list"

abbreviation got :: "ringbuf \<Rightarrow> piece \<Rightarrow> nat \<times> u8 list" where
  "got s a \<equiv> (fst a, mget (rb_mem s) (fst a) (snd a))"

inductive ring_step :: "bool \<Rightarrow> ring_sys \<Rightarrow> ring_sys \<Rightarrow> bool" for whole :: bool where
  send: "xRingbufferSendFromISR s d = Some (ok, s') \<Longrightarrow>
    ring_step whole (s, h, snt, rcv) (s', h, if ok then snt @ [d] else snt, rcv)"
| receive: "xRingbufferReceiveFromISR s = Some (Some a, s') \<Longrightarrow>
    \<not> whole \<or> xOps s = RINGBUF_TYPE_NOSPLIT \<Longrightarrow>
    ring_step whole (s, h, snt, rcv) (s', h @ [got s' a], snt, rcv @ [snd (got s' a)])"
| receive_none: "xRingbufferReceiveFromISR s = Some (None, s') \<Longrightarrow>
    ring_step whole (s, h, snt, rcv) (s', h, snt, rcv)"
| receive_split: "xRingbufferReceiveSplitFromISR s = Some (Some (a, b), s') \<Longrightarrow>
    ring_step whole (s, h, snt, rcv)
      (s', h @ got s' a # (case b of None \<Rightarrow> [] | Some b \<Rightarrow> [got s' b]), snt,
       rcv @ [snd (got s' a) @ (case b of None \<Rightarrow> [] | Some b \<Rightarrow> snd (got s' b))])"
| receive_upto: "xRingbufferReceiveUpToFromISR s mx = Some (Some a, s') \<Longrightarrow>
    ring_step whole (s, h, snt, rcv) (s', h @ [got s' a], snt, rcv @ [snd (got s' a)])"
| give_back: "vRingbufferReturnItemFromISR s p = Some s' \<Longrightarrow> safe_return s (h1 @ h2) \<Longrightarrow>
    ring_step whole (s, h1 @ (p, d) # h2, snt, rcv) (s', h1 @ h2, snt, rcv)"

inductive ring_reach :: "bool \<Rightarrow> ringbuf \<Rightarrow> ring_sys \<Rightarrow> bool" for whole :: bool and s0 :: ringbuf where
  start: "ring_reach whole s0 (s0, [], [], [])"
| step: "ring_reach whole s0 x \<Longrightarrow> ring_step whole x y \<Longrightarrow> ring_reach whole s0 y"
| take: "ring_reach whole s0 (s, h, snt, rcv) \<Longrightarrow> (a \<longrightarrow> xFreeSpaceSemaphore s) \<Longrightarrow> (b \<longrightarrow> xItemsBufferedSemaphore s) \<Longrightarrow>
    ring_reach whole s0 (s\<lparr>xFreeSpaceSemaphore := a, xItemsBufferedSemaphore := b\<rparr>, h, snt, rcv)"

text \<open>A blocking call is one that takes a semaphore (\<open>take\<close>) and then does in its critical section what the call for
  interrupts does, so that \<open>ring_reach\<close> has all interleavings of both; the calls for queue sets only take a
  semaphore.  The next relation has the calls that run from their start, or from a wake-up, to their end or to their
  next wait without another call in between.\<close>

lemma blocking_receive:
  "xRingbufferReceive [(\<lambda>x. x, tick)] now s w = Returned (Some a) s' \<Longrightarrow> xItemsBufferedSemaphore s
    \<and> xRingbufferReceiveFromISR (s\<lparr>xItemsBufferedSemaphore := False\<rparr>) = Some (Some a, s')"
  by (auto simp: xRingbufferReceive_def prvReceiveGeneric_def Let_def xRingbufferReceiveFromISR_def
      prvReceiveGenericFromISR_def first_piece_def split: if_splits option.splits)

lemma blocking_receive_none:
  "xRingbufferReceive [(\<lambda>x. x, tick)] now s w = Returned None s' \<or> xRingbufferReceive [(\<lambda>x. x, tick)] now s w = Blocked s' \<Longrightarrow>
    s' = s \<or> xItemsBufferedSemaphore s \<and> s' = s\<lparr>xItemsBufferedSemaphore := False\<rparr> \<and> \<not> prvCheckItemAvail s'"
  by (auto simp: xRingbufferReceive_def prvReceiveGeneric_def Let_def first_piece_def split: if_splits option.splits)

lemma blocking_send:
  "xRingbufferSend [(\<lambda>x. x, tick)] now s d w = Returned True s' \<Longrightarrow> \<not> has_flag (uxRingbufferFlags s) rbBYTE_BUFFER_FLAG \<Longrightarrow>
    xFreeSpaceSemaphore s \<and> xRingbufferSendFromISR (s\<lparr>xFreeSpaceSemaphore := False\<rparr>) d = Some (True, s')"
  by (auto simp: xRingbufferSend_def Let_def xRingbufferSendFromISR_def split: if_splits option.splits bool.splits)

lemma blocking_send_none:
  "xRingbufferSend [(\<lambda>x. x, tick)] now s d w = Returned False s' \<or> xRingbufferSend [(\<lambda>x. x, tick)] now s d w = Blocked s' \<Longrightarrow>
    s' = s \<or> xFreeSpaceSemaphore s \<and> s' = s\<lparr>xFreeSpaceSemaphore := False\<rparr>"
  by (auto simp: xRingbufferSend_def Let_def split: if_splits option.splits bool.splits)

lemma step_any: "ring_step True x y \<Longrightarrow> ring_step False x y"
proof (induction rule: ring_step.induct)
  case (send s d ok s' h snt rcv)
  then show ?case by (rule ring_step.send)
next
  case (receive s a s' h snt rcv)
  show ?case by (rule ring_step.receive [OF receive(1)]) simp
qed (rule ring_step.receive_none ring_step.receive_split ring_step.receive_upto ring_step.give_back; assumption)+

lemma reach_any: "ring_reach True s0 x \<Longrightarrow> ring_reach False s0 x"
proof (induction rule: ring_reach.induct)
  case (step x y)
  then show ?case using step_any ring_reach.step by blast
qed (auto intro: ring_reach.intros)

inductive ring_calls :: "ringbuf \<Rightarrow> ring_sys \<Rightarrow> bool" for s0 :: ringbuf where
  start: "ring_calls s0 (s0, [], [], [])"
| from_isr: "ring_calls s0 x \<Longrightarrow> ring_step True x y \<Longrightarrow> ring_calls s0 y"
| sent: "ring_calls s0 (s, h, snt, rcv) \<Longrightarrow> xRingbufferSend [(\<lambda>x. x, tick)] now s d w = Returned True s' \<Longrightarrow>
    ring_calls s0 (s', h, snt @ [d], rcv)"
| send_waits: "ring_calls s0 (s, h, snt, rcv) \<Longrightarrow>
    xRingbufferSend [(\<lambda>x. x, tick)] now s d w = Returned False s' \<or> xRingbufferSend [(\<lambda>x. x, tick)] now s d w = Blocked s' \<Longrightarrow>
    ring_calls s0 (s', h, snt, rcv)"
| received: "ring_calls s0 (s, h, snt, rcv) \<Longrightarrow> xRingbufferReceive [(\<lambda>x. x, tick)] now s w = Returned (Some a) s' \<Longrightarrow>
    ring_calls s0 (s', h @ [got s' a], snt, rcv @ [snd (got s' a)])"
| receive_waits: "ring_calls s0 (s, h, snt, rcv) \<Longrightarrow>
    xRingbufferReceive [(\<lambda>x. x, tick)] now s w = Returned None s' \<or> xRingbufferReceive [(\<lambda>x. x, tick)] now s w = Blocked s' \<Longrightarrow>
    ring_calls s0 (s', h, snt, rcv)"
| returned: "ring_calls s0 (s, h1 @ (p, d) # h2, snt, rcv) \<Longrightarrow> vRingbufferReturnItem s p = Some s' \<Longrightarrow>
    safe_return s (h1 @ h2) \<Longrightarrow> ring_calls s0 (s', h1 @ h2, snt, rcv)"

section \<open>The contracts\<close>

lemma free_loop_keeps_sem:
  "free_loop s = Some s' \<Longrightarrow> xItemsBufferedSemaphore s' = xItemsBufferedSemaphore s"
proof -
  assume a: "free_loop s = Some s'"
  show ?thesis
  proof (rule free_loop.raw_induct [OF _ a,
      where P = "\<lambda>s s'. xItemsBufferedSemaphore s' = xItemsBufferedSemaphore s"], goal_cases)
    case (1 f s r)
    from 1(2) show ?case by (auto simp: Let_def split: if_splits dest!: 1(1))
  qed
qed

lemma return_keeps_sem:
  "vReturnItem s p = Some s' \<Longrightarrow> xItemsBufferedSemaphore s' = xItemsBufferedSemaphore s"
  by (cases "xOps s"; auto simp: vReturnItem_def prvReturnItemDefault_def prvReturnItemByteBuf_def Let_def
      reset_full_def clear_full_def dest!: free_loop_keeps_sem split: if_splits option.splits)

locale byte_stream =
  fixes kind :: ringbuf_type
    and R :: "ringbuf \<Rightarrow> (nat \<times> u8 list) list \<Rightarrow> u8 list \<Rightarrow> bool"
  assumes kind: "R s h xs \<Longrightarrow> xOps s = kind \<and> (\<exists>b. uxRingbufferFlags s = rb_flags kind b)"
    and held: "R s h xs \<Longrightarrow> (p, d) \<in> set h \<Longrightarrow> mget (rb_mem s) p (length d) = d"
    and sems: "R s h xs \<Longrightarrow> R (s\<lparr>xFreeSpaceSemaphore := a, xItemsBufferedSemaphore := b\<rparr>) h xs"
    and fits: "R s h xs \<Longrightarrow> n \<le> xMaxItemSize s \<Longrightarrow> xCheckItemFits s n \<noteq> None"
    and copy: "R s h xs \<Longrightarrow> length d \<le> xMaxItemSize s \<Longrightarrow> kind \<noteq> RINGBUF_TYPE_BYTEBUF \<or> d \<noteq> [] \<Longrightarrow>
      xCheckItemFits s (length d) = Some True \<Longrightarrow> \<exists>s'. vCopyItem s d = Some s' \<and> R s' h (xs @ d)"
    and space: "R s h xs \<Longrightarrow> prvGetFreeSize s \<noteq> None"
    and avail: "R s h xs \<Longrightarrow> xs \<noteq> [] \<Longrightarrow> kind \<noteq> RINGBUF_TYPE_BYTEBUF \<or> h = [] \<Longrightarrow> prvCheckItemAvail s"
    and get: "R s h xs \<Longrightarrow> prvCheckItemAvail s \<Longrightarrow>
      \<exists>p n sp s'. pvGetItem s mx = Some (p, n, sp, s') \<and> n \<le> length xs
        \<and> R s' (h @ [(p, take n xs)]) (drop n xs)
        \<and> (sp \<longrightarrow> (\<exists>p2 n2 s2. pvGetItem s' 0 = Some (p2, n2, False, s2) \<and> p2 < p \<and> n + n2 \<le> length xs
             \<and> R s2 (h @ [(p, take n xs), (p2, take n2 (drop n xs))]) (drop (n + n2) xs)))"
    and ret: "R s (h1 @ (p, d) # h2) xs \<Longrightarrow> safe_return s (h1 @ h2) \<Longrightarrow>
      \<exists>s'. vReturnItem s p = Some s' \<and> R s' (h1 @ h2) xs"
begin

lemma give [simp]: "R s h xs \<Longrightarrow> R (give_items s) h xs" "R s h xs \<Longrightarrow> R (give_space s) h xs"
  "R s h xs \<Longrightarrow> R (give_if_waiting s) h xs"
  using sems [where s = s and h = h and xs = xs and a = "xFreeSpaceSemaphore s" and b = True]
    sems [where s = s and h = h and xs = xs and a = True and b = "xItemsBufferedSemaphore s"]
  by (simp_all add: give_items_def give_space_def give_if_waiting_def)

text \<open>Sending: refused, or accepted with the bytes behind the stream.  (Sending nothing to a byte
  buffer has no effect.)\<close>

lemma send_isr:
  assumes "R s h xs"
  shows "\<exists>ok s'. xRingbufferSendFromISR s d = Some (ok, s') \<and> R s' h (if ok then xs @ d else xs)"
proof -
  have byte: "has_flag (uxRingbufferFlags s) rbBYTE_BUFFER_FLAG \<longleftrightarrow> kind = RINGBUF_TYPE_BYTEBUF"
    using kind [OF assms] by auto
  consider "length d > xMaxItemSize s" | "length d \<le> xMaxItemSize s" "kind = RINGBUF_TYPE_BYTEBUF \<and> d = []"
    | "length d \<le> xMaxItemSize s" "kind \<noteq> RINGBUF_TYPE_BYTEBUF \<or> d \<noteq> []" by linarith
  then show ?thesis
  proof cases
    case 3
    show ?thesis
    proof (cases "xCheckItemFits s (length d) = Some True")
      case True
      obtain s1 where s1: "vCopyItem s d = Some s1" "R s1 h (xs @ d)"
        using copy [OF assms 3 True] by blast
      obtain n where "prvGetFreeSize (give_items s1) = Some n"
        using space [OF give(1) [OF s1(2)]] by blast
      then show ?thesis using s1 3 byte True
        by (auto simp: xRingbufferSendFromISR_def copy_and_give_def give_if_free_def)
    next
      case False
      then have "xCheckItemFits s (length d) = Some False" using fits [OF assms 3(1)] by auto
      then show ?thesis using assms 3 byte by (auto simp: xRingbufferSendFromISR_def)
    qed
  qed (use assms byte in \<open>auto simp: xRingbufferSendFromISR_def\<close>)
qed

lemma got_take: "R s (h @ (p, take n xs) # h') ys \<Longrightarrow> n \<le> length xs \<Longrightarrow> mget (rb_mem s) p n = take n xs"
  using held [of s "h @ (p, take n xs) # h'" ys p "take n xs"] by simp

text \<open>Retrieving one piece.\<close>

lemma retrieve_one:
  assumes "R s h xs" "prvCheckItemAvail s"
  shows "\<exists>a s'. prvReceiveGenericFromISR s False mx = Some (Some (a, None), s')
    \<and> R s' (h @ [got s' a]) (drop (snd a) xs) \<and> snd (got s' a) = take (snd a) xs \<and> snd a \<le> length xs"
proof -
  obtain p n sp s1 where g: "pvGetItem s (if has_flag (uxRingbufferFlags s) rbBYTE_BUFFER_FLAG then mx else 0)
      = Some (p, n, sp, s1)" "n \<le> length xs" "R s1 (h @ [(p, take n xs)]) (drop n xs)"
    using get [OF assms] by blast
  have "retrieve s False mx = Some ((p, n), None, s1)" using g(1) by (simp add: retrieve_def)
  moreover have "mget (rb_mem s1) p n = take n xs" using got_take [OF _ g(2), of s1 h p "[]"] g(3) by simp
  moreover have "rb_mem (give_if_waiting s1) = rb_mem s1"
    by (simp add: give_if_waiting_def give_items_def)
  ultimately show ?thesis using assms(2) g(2) give(3) [OF g(3)]
    by (intro exI [of _ "(p, n)"] exI [of _ "give_if_waiting s1"])
      (simp add: prvReceiveGenericFromISR_def)
qed

text \<open>Retrieving both halves.\<close>

lemma retrieve_two:
  assumes r: "R s h xs" and av: "prvCheckItemAvail s" and k: "kind = RINGBUF_TYPE_ALLOWSPLIT"
  shows "\<exists>a b s' k. prvReceiveGenericFromISR s True 0 = Some (Some (a, b), s')
    \<and> R s' (h @ got s' a # (case b of None \<Rightarrow> [] | Some b \<Rightarrow> [got s' b])) (drop k xs)
    \<and> snd (got s' a) @ (case b of None \<Rightarrow> [] | Some b \<Rightarrow> snd (got s' b)) = take k xs \<and> k \<le> length xs"
proof -
  obtain p n sp s1 where g: "pvGetItem s 0 = Some (p, n, sp, s1)" "n \<le> length xs"
    "R s1 (h @ [(p, take n xs)]) (drop n xs)"
    and two: "sp \<longrightarrow> (\<exists>p2 n2 s2. pvGetItem s1 0 = Some (p2, n2, False, s2) \<and> p2 < p \<and> n + n2 \<le> length xs
             \<and> R s2 (h @ [(p, take n xs), (p2, take n2 (drop n xs))]) (drop (n + n2) xs))"
    using get [OF r av, of 0] by blast
  have mem: "rb_mem (give_if_waiting s') = rb_mem s'" for s'
    by (simp add: give_if_waiting_def give_items_def)
  have split: "has_flag (uxRingbufferFlags s1) rbALLOW_SPLIT_FLAG" using kind [OF g(3)] k by auto
  show ?thesis
  proof (cases sp)
    case False
    then have "retrieve s True 0 = Some ((p, n), None, s1)" using g(1) by (simp add: retrieve_def)
    moreover have "mget (rb_mem s1) p n = take n xs" using got_take [OF _ g(2), of s1 h p "[]"] g(3) by simp
    ultimately show ?thesis using av g(2) give(3) [OF g(3)]
      by (intro exI [of _ "(p, n)"] exI [of _ None] exI [of _ "give_if_waiting s1"] exI [of _ n])
        (simp add: prvReceiveGenericFromISR_def mem)
  next
    case True
    then obtain p2 n2 s2 where g2: "pvGetItem s1 0 = Some (p2, n2, False, s2)" "p2 < p"
      "n + n2 \<le> length xs" "R s2 (h @ [(p, take n xs), (p2, take n2 (drop n xs))]) (drop (n + n2) xs)"
      using two by blast
    have "retrieve s True 0 = Some ((p, n), Some (p2, n2), s2)"
      using g(1) g2 split True by (simp add: retrieve_def)
    moreover have "mget (rb_mem s2) p n = take n xs" "mget (rb_mem s2) p2 n2 = take n2 (drop n xs)"
      using held [OF g2(4), of p "take n xs"] held [OF g2(4), of p2 "take n2 (drop n xs)"] g2(3) by auto
    ultimately show ?thesis using av g2(3) give(3) [OF g2(4)]
      by (intro exI [of _ "(p, n)"] exI [of _ "Some (p2, n2)"] exI [of _ "give_if_waiting s2"]
          exI [of _ "n + n2"]) (simp add: prvReceiveGenericFromISR_def mem take_add)
  qed
qed

lemma return_isr:
  "R s (h1 @ (p, d) # h2) xs \<Longrightarrow> safe_return s (h1 @ h2) \<Longrightarrow>
    \<exists>s'. vRingbufferReturnItemFromISR s p = Some s' \<and> R s' (h1 @ h2) xs"
  using ret [of s h1 p d h2 xs] by (auto simp: vRingbufferReturnItemFromISR_def)

text \<open>Every run keeps the relation: what was sent is what was received and the stream still stored.\<close>

lemma step_stream:
  assumes "ring_step whole (s, h, snt, rcv) (s', h', snt', rcv')" "R s h xs" "concat snt = concat rcv @ xs"
  shows "\<exists>xs'. R s' h' xs' \<and> concat snt' = concat rcv' @ xs'"
  using assms(1)
proof cases
  case (send d ok)
  obtain ok' s1 where "xRingbufferSendFromISR s d = Some (ok', s1)" "R s1 h (if ok' then xs @ d else xs)"
    using send_isr [OF assms(2)] by blast
  then show ?thesis using send assms(3) by (intro exI [of _ "if ok then xs @ d else xs"]) auto
next
  case (receive a)
  then have av: "prvCheckItemAvail s"
    by (auto simp: xRingbufferReceiveFromISR_def prvReceiveGenericFromISR_def first_piece_def
        split: option.splits if_splits)
  show ?thesis using retrieve_one [OF assms(2) av, of 0] receive assms(3)
    by (intro exI [of _ "drop (snd a) xs"])
      (auto simp: xRingbufferReceiveFromISR_def first_piece_def)
next
  case receive_none
  have "\<not> prvCheckItemAvail s"
    using retrieve_one [OF assms(2), of 0] receive_none(4)
    by (auto simp: xRingbufferReceiveFromISR_def first_piece_def)
  then have "s' = s" using receive_none
    by (simp add: xRingbufferReceiveFromISR_def prvReceiveGenericFromISR_def first_piece_def)
  then show ?thesis using assms(2,3) receive_none by auto
next
  case (receive_split a b)
  then have av: "prvCheckItemAvail s" "kind = RINGBUF_TYPE_ALLOWSPLIT"
    using kind [OF assms(2)]
    by (auto simp: xRingbufferReceiveSplitFromISR_def prvReceiveGenericFromISR_def
        split: option.splits if_splits)
  have "prvReceiveGenericFromISR s True 0 = Some (Some (a, b), s')"
    using receive_split by (simp add: xRingbufferReceiveSplitFromISR_def split: if_splits)
  then obtain k where "R s' h' (drop k xs)"
    "snd (got s' a) @ (case b of None \<Rightarrow> [] | Some b \<Rightarrow> snd (got s' b)) = take k xs"
    using retrieve_two [OF assms(2) av] receive_split by auto
  then show ?thesis using assms(3) receive_split by (intro exI [of _ "drop k xs"]) auto
next
  case (receive_upto mx a)
  then have *: "prvReceiveGenericFromISR s False mx \<noteq> None" "prvCheckItemAvail s"
    by (auto simp: xRingbufferReceiveUpToFromISR_def prvReceiveGenericFromISR_def first_piece_def
        split: option.splits if_splits)
  show ?thesis using retrieve_one [OF assms(2) *(2), of mx] receive_upto assms(3)
    by (intro exI [of _ "drop (snd a) xs"])
      (auto simp: xRingbufferReceiveUpToFromISR_def first_piece_def split: if_splits)
next
  case (give_back p h1 h2 d)
  then show ?thesis using return_isr [of s h1 p d h2 xs] assms(2,3) by auto
qed

lemma reach_stream:
  "ring_reach whole s0 x \<Longrightarrow> R s0 [] [] \<Longrightarrow>
    \<exists>xs. R (fst x) (fst (snd x)) xs \<and> concat (fst (snd (snd x))) = concat (snd (snd (snd x))) @ xs"
proof (induction rule: ring_reach.induct)
  case (step x y)
  obtain s h snt rcv s' h' snt' rcv' where xy: "x = (s, h, snt, rcv)" "y = (s', h', snt', rcv')"
    by (metis prod_cases4)
  then obtain xs where "R s h xs" "concat snt = concat rcv @ xs" using step by auto
  then show ?case using step_stream [of whole s h snt rcv s' h' snt' rcv' xs] step(2) xy by auto
next
  case (take s h snt rcv a b)
  then show ?case using sems by auto
qed auto

text \<open>A blocking call trips no assertion, whatever the other tasks do while it waits, as long as they keep a
  property that implies the relation.\<close>

lemma receive_loop_ok:
  assumes P: "\<And>s. P s \<Longrightarrow> \<exists>h xs. R s h xs" "\<And>s. P s \<Longrightarrow> P (s\<lparr>xItemsBufferedSemaphore := False\<rparr>)"
    and "\<forall>t \<in> set ts. \<forall>s. P s \<longrightarrow> P (fst t s)" and "two \<longrightarrow> kind = RINGBUF_TYPE_ALLOWSPLIT \<and> mx = 0"
  shows "P s \<Longrightarrow> receive_loop ts w e r two mx s \<noteq> Asserted"
  using assms(3)
proof (induction ts arbitrary: s r)
  case (Cons turn ts)
  obtain others now where t: "turn = (others, now)" by (cases turn)
  let ?s = "others s\<lparr>xItemsBufferedSemaphore := False\<rparr>"
  have p: "P ?s" using Cons.prems t by (intro P(2)) simp
  then obtain h xs where r2: "R ?s h xs" using P(1) by blast
  have "retrieve ?s two mx \<noteq> None" if "prvCheckItemAvail ?s"
    using retrieve_one [OF r2 that, of mx] retrieve_two [OF r2 that] assms(4) that
    by (cases two) (auto simp: prvReceiveGenericFromISR_def split: option.splits)
  then show ?case using Cons.IH [OF p] Cons.prems(2) t by (auto simp: Let_def split: option.splits)
qed simp

lemma send_loop_ok:
  assumes P: "\<And>s. P s \<Longrightarrow> \<exists>h xs. R s h xs" "\<And>s. P s \<Longrightarrow> P (s\<lparr>xFreeSpaceSemaphore := False\<rparr>)"
    and "\<forall>t \<in> set ts. \<forall>s. P s \<longrightarrow> P (fst t s) \<and> xMaxItemSize (fst t s) = xMaxItemSize s"
    and ne: "kind \<noteq> RINGBUF_TYPE_BYTEBUF \<or> d \<noteq> []"
  shows "P s \<Longrightarrow> length d \<le> xMaxItemSize s \<Longrightarrow> send_loop ts w e r d s \<noteq> Asserted"
  using assms(3)
proof (induction ts arbitrary: s r)
  case (Cons turn ts)
  obtain others now where t: "turn = (others, now)" by (cases turn)
  let ?s = "others s\<lparr>xFreeSpaceSemaphore := False\<rparr>"
  have p: "P ?s" "length d \<le> xMaxItemSize ?s" using Cons.prems t by (auto intro: P(2))
  then obtain h xs where r2: "R ?s h xs" using P(1) by blast
  have "copy_and_give ?s d \<noteq> None" if f: "xCheckItemFits ?s (length d) = Some True"
  proof -
    obtain s1 where "vCopyItem ?s d = Some s1" "R s1 h (xs @ d)" using copy [OF r2 p(2) ne f] by blast
    then show ?thesis using space [OF give(1), of s1 h "xs @ d"] by (auto simp: copy_and_give_def give_if_free_def)
  qed
  then show ?case using Cons.IH [OF p] Cons.prems(3) t fits [OF r2 p(2)]
    by (auto simp: Let_def split: option.splits bool.splits)
qed simp

end

text \<open>The item contract: the stream is cut into the items that were sent.\<close>

locale item_stream = byte_stream +
  fixes I :: "ringbuf \<Rightarrow> (nat \<times> u8 list) list \<Rightarrow> u8 list list \<Rightarrow> bool"
  assumes items_only: "kind \<noteq> RINGBUF_TYPE_BYTEBUF"
    and I_R: "I s h its \<Longrightarrow> R s h (concat its)"
    and I_sems: "I s h its \<Longrightarrow> I (s\<lparr>xFreeSpaceSemaphore := a, xItemsBufferedSemaphore := b\<rparr>) h its"
    and I_copy: "I s h its \<Longrightarrow> length d \<le> xMaxItemSize s \<Longrightarrow> xCheckItemFits s (length d) = Some True \<Longrightarrow>
      \<exists>s'. vCopyItem s d = Some s' \<and> I s' h (its @ [d])"
    and I_avail: "I s h its \<Longrightarrow> prvCheckItemAvail s \<longleftrightarrow> its \<noteq> []"
    and I_get: "I s h (d # its) \<Longrightarrow>
      \<exists>p n sp s'. pvGetItem s 0 = Some (p, n, sp, s')
        \<and> (\<not> sp \<longrightarrow> n = length d \<and> I s' (h @ [(p, d)]) its)
        \<and> (sp \<longrightarrow> kind = RINGBUF_TYPE_ALLOWSPLIT \<and> (\<exists>p2 n2 s2. pvGetItem s' 0 = Some (p2, n2, False, s2)
             \<and> p2 < p \<and> n + n2 = length d \<and> xOps s' = kind \<and> (\<exists>b. uxRingbufferFlags s' = rb_flags kind b)
             \<and> I s2 (h @ [(p, take n d), (p2, drop n d)]) its))"
    and I_ret: "I s (h1 @ (p, d) # h2) its \<Longrightarrow> safe_return s (h1 @ h2) \<Longrightarrow>
      \<exists>s'. vReturnItem s p = Some s' \<and> I s' (h1 @ h2) its"
begin

lemma I_give [simp]: "I s h its \<Longrightarrow> I (give_items s) h its" "I s h its \<Longrightarrow> I (give_space s) h its"
  "I s h its \<Longrightarrow> I (give_if_waiting s) h its"
  using I_sems [where s = s and h = h and its = its and a = "xFreeSpaceSemaphore s" and b = True]
    I_sems [where s = s and h = h and its = its and a = True and b = "xItemsBufferedSemaphore s"]
  by (simp_all add: give_items_def give_space_def give_if_waiting_def)

lemma I_kind: "I s h its \<Longrightarrow> xOps s = kind \<and> (\<exists>b. uxRingbufferFlags s = rb_flags kind b)"
  using kind I_R by blast

lemma I_held: "I s h its \<Longrightarrow> (p, d) \<in> set h \<Longrightarrow> mget (rb_mem s) p (length d) = d"
  using held I_R by blast

lemma send_item:
  assumes "I s h its"
  shows "\<exists>ok s'. xRingbufferSendFromISR s d = Some (ok, s') \<and> I s' h (if ok then its @ [d] else its)"
proof -
  have byte: "\<not> has_flag (uxRingbufferFlags s) rbBYTE_BUFFER_FLAG"
    using I_kind [OF assms] items_only by auto
  show ?thesis
  proof (cases "length d \<le> xMaxItemSize s")
    case l: True
    show ?thesis
    proof (cases "xCheckItemFits s (length d) = Some True")
      case True
      obtain s1 where s1: "vCopyItem s d = Some s1" "I s1 h (its @ [d])"
        using I_copy [OF assms l True] by blast
      obtain n where "prvGetFreeSize (give_items s1) = Some n"
        using space [OF I_R [OF I_give(1) [OF s1(2)]]] by blast
      then show ?thesis using s1 l byte True
        by (auto simp: xRingbufferSendFromISR_def copy_and_give_def give_if_free_def)
    next
      case False
      then have "xCheckItemFits s (length d) = Some False" using fits [OF I_R [OF assms] l] by auto
      then show ?thesis using assms l byte by (auto simp: xRingbufferSendFromISR_def)
    qed
  qed (use assms byte in \<open>auto simp: xRingbufferSendFromISR_def\<close>)
qed

text \<open>Receiving with the call that fits the type yields exactly the oldest item.\<close>

lemma receive_item:
  assumes i: "I s h (d # its)" and k: "kind = RINGBUF_TYPE_NOSPLIT"
  shows "\<exists>p s'. xRingbufferReceiveFromISR s = Some (Some (p, length d), s')
    \<and> I s' (h @ [(p, d)]) its \<and> mget (rb_mem s') p (length d) = d"
proof -
  obtain p s1 where g: "pvGetItem s 0 = Some (p, length d, False, s1)" "I s1 (h @ [(p, d)]) its"
    using I_get [OF i] k by auto
  have byte: "\<not> has_flag (uxRingbufferFlags s) rbBYTE_BUFFER_FLAG"
    using I_kind [OF i] k by auto
  have "prvCheckItemAvail s" using I_avail [OF i] by simp
  moreover have "retrieve s False 0 = Some ((p, length d), None, s1)"
    using g(1) byte by (simp add: retrieve_def)
  ultimately show ?thesis using I_give(3) [OF g(2)] I_held [OF I_give(3) [OF g(2)], of p d]
    by (simp add: xRingbufferReceiveFromISR_def prvReceiveGenericFromISR_def first_piece_def)
qed

lemma receive_split_item:
  assumes i: "I s h (d # its)" and k: "kind = RINGBUF_TYPE_ALLOWSPLIT"
  shows "\<exists>a b s'. xRingbufferReceiveSplitFromISR s = Some (Some (a, b), s')
    \<and> I s' (h @ got s' a # (case b of None \<Rightarrow> [] | Some b \<Rightarrow> [got s' b])) its
    \<and> snd (got s' a) @ (case b of None \<Rightarrow> [] | Some b \<Rightarrow> snd (got s' b)) = d"
proof -
  have av: "prvCheckItemAvail s" using I_avail [OF i] by simp
  have fl: "has_flag (uxRingbufferFlags s) rbALLOW_SPLIT_FLAG"
    "\<not> has_flag (uxRingbufferFlags s) rbBYTE_BUFFER_FLAG"
    using I_kind [OF i] k by auto
  obtain p n sp s1 where g: "pvGetItem s 0 = Some (p, n, sp, s1)"
    and one: "\<not> sp \<longrightarrow> n = length d \<and> I s1 (h @ [(p, d)]) its"
    and two: "sp \<longrightarrow> (\<exists>p2 n2 s2. pvGetItem s1 0 = Some (p2, n2, False, s2) \<and> p2 < p \<and> n + n2 = length d
      \<and> xOps s1 = kind \<and> (\<exists>b. uxRingbufferFlags s1 = rb_flags kind b)
      \<and> I s2 (h @ [(p, take n d), (p2, drop n d)]) its)"
    using I_get [OF i] by blast
  show ?thesis
  proof (cases sp)
    case False
    then have "retrieve s True 0 = Some ((p, n), None, s1)" using g fl by (simp add: retrieve_def)
    then show ?thesis using False one av fl I_give(3) [of s1 "h @ [(p, d)]" its]
        I_held [of "give_if_waiting s1" "h @ [(p, d)]" its p d]
      by (intro exI [of _ "(p, n)"] exI [of _ None] exI [of _ "give_if_waiting s1"])
        (simp add: xRingbufferReceiveSplitFromISR_def prvReceiveGenericFromISR_def)
  next
    case True
    then obtain p2 n2 s2 where g2: "pvGetItem s1 0 = Some (p2, n2, False, s2)" "p2 < p" "n + n2 = length d"
      "\<exists>b. uxRingbufferFlags s1 = rb_flags kind b" "I s2 (h @ [(p, take n d), (p2, drop n d)]) its"
      using two by blast
    then have "has_flag (uxRingbufferFlags s1) rbALLOW_SPLIT_FLAG" using k by auto
    then have ret: "retrieve s True 0 = Some ((p, n), Some (p2, n2), s2)"
      using g g2 True fl by (simp add: retrieve_def)
    have i2: "I (give_if_waiting s2) (h @ [(p, take n d), (p2, drop n d)]) its"
      using g2(5) by simp
    have m: "mget (rb_mem (give_if_waiting s2)) p n = take n d"
      "mget (rb_mem (give_if_waiting s2)) p2 n2 = drop n d"
    proof -
      have n: "length (take n d) = n" "length (drop n d) = n2" using g2(3) by simp_all
      show "mget (rb_mem (give_if_waiting s2)) p n = take n d"
        using I_held [OF i2, of p "take n d"] unfolding n by simp
      show "mget (rb_mem (give_if_waiting s2)) p2 n2 = drop n d"
        using I_held [OF i2, of p2 "drop n d"] unfolding n by simp
    qed
    show ?thesis using ret av fl i2 m
      by (intro exI [of _ "(p, n)"] exI [of _ "Some (p2, n2)"] exI [of _ "give_if_waiting s2"])
        (simp add: xRingbufferReceiveSplitFromISR_def prvReceiveGenericFromISR_def)
  qed
qed

lemma none_left:
  assumes i: "I s h []" and r: "xRingbufferReceiveFromISR s = Some (None, s')"
  shows "s' = s"
  using I_avail [OF i] r
  by (simp add: xRingbufferReceiveFromISR_def prvReceiveGenericFromISR_def first_piece_def)

lemma step_items:
  assumes "ring_step True (s, h, snt, rcv) (s', h', snt', rcv')" "I s h its" "snt = rcv @ its"
  shows "\<exists>its'. I s' h' its' \<and> snt' = rcv' @ its'"
proof -
  have av: "prvCheckItemAvail s \<longleftrightarrow> its \<noteq> []" by (rule I_avail [OF assms(2)])
  note rcv_defs = xRingbufferReceiveFromISR_def xRingbufferReceiveSplitFromISR_def
    prvReceiveGenericFromISR_def first_piece_def
  show ?thesis
    using assms(1)
  proof cases
    case (send d ok)
    then show ?thesis using send_item [OF assms(2), of d] assms(3)
      by (intro exI [of _ "if ok then its @ [d] else its"]) auto
  next
    case (receive a)
    then have k: "kind = RINGBUF_TYPE_NOSPLIT" using I_kind [OF assms(2)] by auto
    have "its \<noteq> []" using receive av by (auto simp: rcv_defs split: option.splits if_splits)
    then obtain d its' where "its = d # its'" by (cases its) auto
    then show ?thesis using receive_item [OF assms(2) [unfolded \<open>its = _\<close>] k] receive assms(3)
      by (intro exI [of _ its']) auto
  next
    case receive_none
    have "its = []"
    proof (rule ccontr)
      assume "its \<noteq> []"
      then have "prvCheckItemAvail s" using av by simp
      then show False using retrieve_one [OF I_R [OF assms(2)], of 0] receive_none(4)
        by (auto simp: xRingbufferReceiveFromISR_def first_piece_def)
    qed
    then show ?thesis using none_left receive_none assms(2,3) by auto
  next
    case (receive_split a b)
    then have k: "kind = RINGBUF_TYPE_ALLOWSPLIT"
      using I_kind [OF assms(2)] by (auto simp: rcv_defs split: if_splits)
    have "its \<noteq> []" using receive_split av by (auto simp: rcv_defs split: option.splits if_splits)
    then obtain d its' where "its = d # its'" by (cases its) auto
    then show ?thesis using receive_split_item [OF assms(2) [unfolded \<open>its = _\<close>] k] receive_split assms(3)
      by (intro exI [of _ its']) auto
  next
    case (receive_upto mx a)
    then show ?thesis using I_kind [OF assms(2)] items_only
      by (auto simp: xRingbufferReceiveUpToFromISR_def)
  next
    case (give_back p h1 h2 d)
    then show ?thesis using I_ret [of s h1 p d h2 its] assms(2,3)
      by (auto simp: vRingbufferReturnItemFromISR_def split: option.splits)
  qed
qed

text \<open>Wake-ups: whenever there is something to read, the semaphore that readers wait for is given.\<close>

definition woken :: "ringbuf \<Rightarrow> bool" where
  "woken s \<longleftrightarrow> prvCheckItemAvail s \<longrightarrow> xItemsBufferedSemaphore s"

lemma step_woken:
  assumes st: "ring_step True (s, h, snt, rcv) (s', h', snt', rcv')" and i: "I s h its"
    and snt: "snt = rcv @ its" and w: "woken s"
  shows "woken s'"
proof -
  obtain its' where i': "I s' h' its'" "snt' = rcv' @ its'" using step_items [OF st i snt] by blast
  have wait: "prvCheckItemAvail x \<Longrightarrow> xItemsWaiting x > 0" for x
    by (auto simp: prvCheckItemAvail_def items_to_read_def split: if_splits)
  show ?thesis
    using st
  proof cases
    case (send d ok)
    then show ?thesis using w
      by (auto simp: woken_def xRingbufferSendFromISR_def copy_and_give_def give_if_free_def
          give_space_def give_items_def split: if_splits option.splits bool.splits)
  next
    case (receive a)
    then show ?thesis using wait [of s']
      by (auto simp: woken_def xRingbufferReceiveFromISR_def prvReceiveGenericFromISR_def
          give_if_waiting_def give_items_def first_piece_def split: if_splits option.splits)
  next
    case receive_none
    then have "\<not> prvCheckItemAvail s"
      using retrieve_one [OF I_R [OF i], of 0] by (auto simp: xRingbufferReceiveFromISR_def first_piece_def)
    then show ?thesis using receive_none w
      by (auto simp: xRingbufferReceiveFromISR_def prvReceiveGenericFromISR_def first_piece_def)
  next
    case (receive_split a b)
    then show ?thesis using wait [of s']
      by (auto simp: woken_def xRingbufferReceiveSplitFromISR_def prvReceiveGenericFromISR_def
          give_if_waiting_def give_items_def split: if_splits option.splits)
  next
    case (receive_upto mx a)
    then show ?thesis using I_kind [OF i] items_only by (auto simp: xRingbufferReceiveUpToFromISR_def)
  next
    case (give_back p h1 h2 d)
    obtain s1 where s1: "vReturnItem s p = Some s1" "s' = give_space s1"
      using give_back by (auto simp: vRingbufferReturnItemFromISR_def split: option.splits)
    have "prvCheckItemAvail s' \<longleftrightarrow> prvCheckItemAvail s"
      using I_avail [OF i] I_avail [OF i'(1)] i'(2) snt give_back by simp
    moreover have "xItemsBufferedSemaphore s1 = xItemsBufferedSemaphore s"
      using return_keeps_sem [OF s1(1)] .
    ultimately show ?thesis using w s1(2) by (simp add: woken_def give_space_def)
  qed
qed

lemma reach_items:
  "ring_reach True s0 x \<Longrightarrow> I s0 [] [] \<Longrightarrow>
    \<exists>its. I (fst x) (fst (snd x)) its \<and> fst (snd (snd x)) = snd (snd (snd x)) @ its"
proof (induction rule: ring_reach.induct)
  case (step x y)
  obtain s h snt rcv s' h' snt' rcv' where xy: "x = (s, h, snt, rcv)" "y = (s', h', snt', rcv')"
    by (metis prod_cases4)
  then obtain its where "I s h its" "snt = rcv @ its" using step by auto
  then show ?case using step_items [of s h snt rcv s' h' snt' rcv' its] step(2) xy by auto
next
  case (take s h snt rcv a b)
  then show ?case using I_sems by auto
qed auto

text \<open>Complete calls are runs of the finer relation, in a no-split buffer.\<close>

lemma calls_reach:
  assumes "I s0 [] []" and k: "kind = RINGBUF_TYPE_NOSPLIT"
  shows "ring_calls s0 x \<Longrightarrow> ring_reach True s0 x"
proof (induction rule: ring_calls.induct)
  case start
  then show ?case by (rule ring_reach.start)
next
  case (from_isr x y)
  then show ?case by (metis ring_reach.step)
next
  case (sent s h snt rcv tick now d w s')
  have "\<not> has_flag (uxRingbufferFlags s) rbBYTE_BUFFER_FLAG"
    using reach_items [OF sent.IH assms(1)] I_kind items_only by fastforce
  note b = blocking_send [OF sent.hyps(2) this]
  have "ring_reach True s0 (s\<lparr>xFreeSpaceSemaphore := False\<rparr>, h, snt, rcv)"
    using ring_reach.take [OF sent.IH, of False "xItemsBufferedSemaphore s"] by simp
  from ring_reach.step [OF this ring_step.send] b show ?case by fastforce
next
  case (send_waits s h snt rcv tick now d w s')
  then show ?case
    using blocking_send_none [OF send_waits.hyps(2)] ring_reach.take [OF send_waits.IH, of False "xItemsBufferedSemaphore s"]
    by auto
next
  case (received s h snt rcv tick now w a s')
  note b = blocking_receive [OF received.hyps(2)]
  have o: "xOps (s\<lparr>xItemsBufferedSemaphore := False\<rparr>) = RINGBUF_TYPE_NOSPLIT"
    using reach_items [OF received.IH assms(1)] I_kind k by fastforce
  have "ring_reach True s0 (s\<lparr>xItemsBufferedSemaphore := False\<rparr>, h, snt, rcv)"
    using ring_reach.take [OF received.IH, of "xFreeSpaceSemaphore s" False] by simp
  from ring_reach.step [OF this ring_step.receive] b o show ?case by blast
next
  case (receive_waits s h snt rcv tick now w s')
  then show ?case
    using blocking_receive_none [OF receive_waits.hyps(2)] ring_reach.take [OF receive_waits.IH, of "xFreeSpaceSemaphore s" False]
    by auto
next
  case (returned s h1 p d h2 snt rcv s')
  have "vRingbufferReturnItemFromISR s p = Some s'"
    using returned.hyps(2) by (simp add: vRingbufferReturnItem_def vRingbufferReturnItemFromISR_def)
  from ring_reach.step [OF returned.IH ring_step.give_back [OF this returned.hyps(3)]] show ?case .
qed

lemma calls_woken:
  assumes i0: "I s0 [] []" and k: "kind = RINGBUF_TYPE_NOSPLIT"
  shows "ring_calls s0 x \<Longrightarrow> woken (fst x)"
proof (induction rule: ring_calls.induct)
  case start
  then show ?case using I_avail [OF i0] by (simp add: woken_def)
next
  case (from_isr x y)
  obtain s h snt rcv s' h' snt' rcv' where xy: "x = (s, h, snt, rcv)" "y = (s', h', snt', rcv')"
    by (metis prod_cases4)
  then obtain its where "I s h its" "snt = rcv @ its"
    using reach_items [OF calls_reach [OF i0 k from_isr.hyps(1)] i0] by auto
  then show ?case using step_woken [of s h snt rcv s' h' snt' rcv' its] from_isr xy by auto
next
  case (sent s h snt rcv tick now d w s')
  have "\<not> has_flag (uxRingbufferFlags s) rbBYTE_BUFFER_FLAG"
    using reach_items [OF calls_reach [OF i0 k sent.hyps(1)] i0] I_kind items_only by fastforce
  then show ?case using blocking_send [OF sent.hyps(2)]
    by (auto simp: woken_def xRingbufferSendFromISR_def copy_and_give_def give_if_free_def
        give_space_def give_items_def split: if_splits option.splits bool.splits)
next
  case (send_waits s h snt rcv tick now d w s')
  then show ?case using blocking_send_none [OF send_waits.hyps(2)]
    by (auto simp: woken_def prvCheckItemAvail_def items_to_read_def split: if_splits)
next
  case (received s h snt rcv tick now w a s')
  then show ?case using blocking_receive [OF received.hyps(2)]
    by (auto simp: woken_def xRingbufferReceiveFromISR_def prvReceiveGenericFromISR_def prvCheckItemAvail_def
        items_to_read_def give_if_waiting_def give_items_def first_piece_def split: if_splits option.splits)
next
  case (receive_waits s h snt rcv tick now w s')
  then show ?case using blocking_receive_none [OF receive_waits.hyps(2)] by (auto simp: woken_def)
next
  case (returned s h1 p d h2 snt rcv s')
  obtain its where i: "I s (h1 @ (p, d) # h2) its"
    using reach_items [OF calls_reach [OF i0 k returned.hyps(1)] i0] by auto
  obtain s1 where s1: "vReturnItem s p = Some s1" "s' = give_space s1"
    using returned by (auto simp: vRingbufferReturnItem_def split: option.splits)
  have "I s1 (h1 @ h2) its" using I_ret [OF i returned.hyps(3)] s1(1) by auto
  then have "prvCheckItemAvail s' \<longleftrightarrow> prvCheckItemAvail s"
    using I_avail [OF i] I_avail [OF I_give(2)] s1(2) by simp
  then show ?case using returned.IH s1 return_keeps_sem [OF s1(1)] by (simp add: woken_def give_space_def)
qed

end

section \<open>The no-split and allow-split buffers keep both contracts\<close>

definition item_rel :: "ringbuf_type \<Rightarrow> ringbuf \<Rightarrow> (nat \<times> u8 list) list \<Rightarrow> entry list \<Rightarrow> bool" where
  "item_rel t s h ps \<longleftrightarrow> (\<exists>hs. ring_rel t s hs ps \<and> lives (xSize s) (pucFree s) hs = h
     \<and> (t = RINGBUF_TYPE_NOSPLIT \<longrightarrow> (\<forall>d. Live True d \<notin> set ps)))"

definition stored_bytes :: "ringbuf_type \<Rightarrow> ringbuf \<Rightarrow> (nat \<times> u8 list) list \<Rightarrow> u8 list \<Rightarrow> bool" where
  "stored_bytes t s h xs \<longleftrightarrow> (\<exists>ps. item_rel t s h ps \<and> xs = bytes ps)"

definition stored_items :: "ringbuf_type \<Rightarrow> ringbuf \<Rightarrow> (nat \<times> u8 list) list \<Rightarrow> u8 list list \<Rightarrow> bool" where
  "stored_items t s h its \<longleftrightarrow> (\<exists>ps. item_rel t s h ps \<and> its = items [] ps)"

lemma item_rel_ops: "item_rel t s h ps \<Longrightarrow> xOps s = t \<and> t \<noteq> RINGBUF_TYPE_BYTEBUF
    \<and> (\<exists>b. uxRingbufferFlags s = rb_flags t b) \<and> pend_ok (xSize s) (pucRead s) ps"
  by (auto simp: item_rel_def ring_rel_def)

lemma item_rel_sems:
  "item_rel t s h ps \<Longrightarrow> item_rel t (s\<lparr>xFreeSpaceSemaphore := a, xItemsBufferedSemaphore := b\<rparr>) h ps"
  by (auto simp: item_rel_def ring_rel_def)

lemma item_rel_held: "item_rel t s h ps \<Longrightarrow> (p, d) \<in> set h \<Longrightarrow> mget (rb_mem s) p (length d) = d"
  using lives_mem [OF ring_rel_posD(5)] by (auto simp: item_rel_def)

lemma item_rel_fits: "item_rel t s h ps \<Longrightarrow> n \<le> xMaxItemSize s \<Longrightarrow> xCheckItemFits s n \<noteq> None"
proof -
  assume i: "item_rel t s h ps" "n \<le> xMaxItemSize s"
  then obtain hs where "ring_rel t s hs ps" by (auto simp: item_rel_def)
  then have "prvCheckItemFitsDefault s n \<noteq> None" by (rule fits_default_cases(1)) (rule i)
  then show ?thesis using item_rel_ops [OF i(1)]
    by (cases t) (auto simp: xCheckItemFits_def)
qed

lemma copy_same [simp]:
  "xSize (mark_if_full s) = xSize s" "pucFree (mark_if_full s) = pucFree s"
  "xSize (wrap_write s) = xSize s" "pucFree (wrap_write s) = pucFree s"
  "xSize (put_item s d n) = xSize s" "pucFree (put_item s d n) = pucFree s"
  by (simp_all add: mark_if_full_def set_full_def wrap_write_def put_item_def Let_def)

lemma vCopyItem_same:
  assumes "vCopyItem s d = Some s'" "xOps s \<noteq> RINGBUF_TYPE_BYTEBUF"
  shows "xSize s' = xSize s" "pucFree s' = pucFree s"
  using assms
  by (cases "xOps s"; auto simp: vCopyItem_def prvCopyItemNoSplit_def prvCopyItemAllowSplit_def Let_def
      split: if_splits)+

lemma item_rel_copy:
  assumes i: "item_rel t s h ps" and d: "length d \<le> xMaxItemSize s" "xCheckItemFits s (length d) = Some True"
  shows "\<exists>s' pl. vCopyItem s d = Some s' \<and> item_rel t s' h (ps @ placed pl d)"
proof -
  obtain hs where r: "ring_rel t s hs ps" and l: "lives (xSize s) (pucFree s) hs = h"
    and ns: "t = RINGBUF_TYPE_NOSPLIT \<longrightarrow> (\<forall>d. Live True d \<notin> set ps)"
    using i by (auto simp: item_rel_def)
  have same: "lives (xSize s') (pucFree s') hs = h" if "ring_rel t s' hs (ps @ new)"
    "vCopyItem s d = Some s'" for s' new
    using vCopyItem_same [OF that(2)] item_rel_ops [OF i] l by simp
  show ?thesis
  proof (cases t)
    case RINGBUF_TYPE_NOSPLIT
    then have f: "prvCheckItemFitsDefault s (length d) = Some True"
      using d item_rel_ops [OF i] by (simp add: xCheckItemFits_def)
    obtain s' pl where c: "prvCopyItemNoSplit s d = Some s'" "pl \<in> {Straight, Behind_dummy}"
      "ring_rel t s' hs (ps @ placed pl d)"
      using copy_no_split [OF r [unfolded RINGBUF_TYPE_NOSPLIT] d(1) f] RINGBUF_TYPE_NOSPLIT by auto
    have v: "vCopyItem s d = Some s'" using c(1) item_rel_ops [OF i] RINGBUF_TYPE_NOSPLIT
      by (simp add: vCopyItem_def)
    have "Live True x \<notin> set (placed pl d)" for x using c(2) by auto
    then have "item_rel t s' h (ps @ placed pl d)"
      using c(3) same [OF c(3) v] ns RINGBUF_TYPE_NOSPLIT by (auto simp: item_rel_def)
    then show ?thesis using v by blast
  next
    case RINGBUF_TYPE_ALLOWSPLIT
    then have f: "prvCheckItemFitsDefault s (length d) = Some True"
      using d item_rel_ops [OF i] by (simp add: xCheckItemFits_def)
    obtain s' pl where c: "prvCopyItemAllowSplit s d = Some s'" "ring_rel t s' hs (ps @ placed pl d)"
      using copy_allow_split [OF r [unfolded RINGBUF_TYPE_ALLOWSPLIT] d(1) f] RINGBUF_TYPE_ALLOWSPLIT
      by auto
    have v: "vCopyItem s d = Some s'" using c(1) item_rel_ops [OF i] RINGBUF_TYPE_ALLOWSPLIT
      by (simp add: vCopyItem_def)
    then have "item_rel t s' h (ps @ placed pl d)"
      using c(2) same [OF c(2) v] RINGBUF_TYPE_ALLOWSPLIT by (auto simp: item_rel_def)
    then show ?thesis using v by blast
  qed (use item_rel_ops [OF i] in simp)
qed

lemma item_rel_avail: "item_rel t s h ps \<Longrightarrow> prvCheckItemAvail s \<longleftrightarrow> ps \<noteq> []"
  using avail_iff by (auto simp: item_rel_def)

lemma item_rel_get:
  assumes i: "item_rel t s h ps" and ne: "ps \<noteq> []"
  obtains p d s' pre b ps' where "ps = pre @ Live b d # ps'" "pre = [] \<or> pre = [Dummy]"
    "pvGetItem s mx = Some (p, length d, b, s')" "item_rel t s' (h @ [(p, d)]) ps'"
    "b \<Longrightarrow> t = RINGBUF_TYPE_ALLOWSPLIT"
    "b \<Longrightarrow> \<exists>p2 d2 s2 ps2. ps' = Live False d2 # ps2 \<and> pvGetItem s' 0 = Some (p2, length d2, False, s2)
       \<and> p2 < p \<and> item_rel t s2 (h @ [(p, d), (p2, d2)]) ps2"
proof -
  obtain hs where r: "ring_rel t s hs ps" and l: "lives (xSize s) (pucFree s) hs = h"
    and ns: "t = RINGBUF_TYPE_NOSPLIT \<longrightarrow> (\<forall>d. Live True d \<notin> set ps)"
    using i by (auto simp: item_rel_def)
  obtain pre b d ps' q s' where g: "ps = pre @ Live b d # ps'" "pre = [] \<or> pre = [Dummy]"
    "prvGetItemDefault s = Some (q + 8, length d, b, s')" "q = endp (xSize s) (pucFree s) (hs @ pre)"
    "ring_rel t s' (hs @ pre @ [Live b d]) ps'" "rb_mem s' = rb_mem s" "pucFree s' = pucFree s"
    "xSize s' = xSize s" "uxRingbufferFlags s' = uxRingbufferFlags s" "xOps s' = xOps s"
    "b \<longrightarrow> 0 < q \<and> pucRead s' = 0 \<and> starts_whole ps'"
    by (rule get_default [OF r ne])
  have ops: "pvGetItem s mx = prvGetItemDefault s" for mx
    using item_rel_ops [OF i] by (cases t) (auto simp: pvGetItem_def)
  have l': "lives (xSize s') (pucFree s') (hs @ pre @ [Live b d]) = h @ [(q + 8, d)]"
    using g(2,4,7,8) l by auto
  have i': "item_rel t s' (h @ [(q + 8, d)]) ps'"
    using g(1,5) l' ns by (auto simp: item_rel_def)
  show ?thesis
  proof (rule that [OF g(1,2) _ i'])
    show "pvGetItem s mx = Some (q + 8, length d, b, s')" using ops g(3) by simp
    show "t = RINGBUF_TYPE_ALLOWSPLIT" if b using that ns g(1) item_rel_ops [OF i] by (cases t) auto
    assume b
    then obtain d2 ps2 where ps': "ps' = Live False d2 # ps2" and rd: "0 < q" "pucRead s' = 0"
      using g(11) by (auto simp: starts_whole_iff)
    note n = get_default_live [OF g(5) [unfolded ps']]
    let ?s2 = "read_past s' (count_live ps2) (e_next (xSize s') (pucRead s') (Live False d2))"
    have "endp (xSize s') (pucFree s') (hs @ pre @ [Live b d]) = pucRead s'"
      using g(5) by (simp add: ring_rel_def)
    then have l2: "lives (xSize ?s2) (pucFree ?s2) ((hs @ pre @ [Live b d]) @ [Live False d2])
        = h @ [(q + 8, d), (8, d2)]"
      using l' rd(2) by (simp del: append_assoc)
    have "item_rel t ?s2 (h @ [(q + 8, d), (8, d2)]) ps2"
      using n(2) l2 ns g(1) ps' unfolding item_rel_def by (intro exI conjI) auto
    moreover have "pvGetItem s' 0 = Some (8, length d2, False, ?s2)"
      using n(1) rd(2) item_rel_ops [OF i'] by (cases t) (auto simp: pvGetItem_def)
    ultimately show "\<exists>p2 d2 s2 ps2. ps' = Live False d2 # ps2
       \<and> pvGetItem s' 0 = Some (p2, length d2, False, s2)
       \<and> p2 < q + 8 \<and> item_rel t s2 (h @ [(q + 8, d), (p2, d2)]) ps2"
      using ps' rd(1) by (intro exI [of _ 8] exI [of _ d2] exI [of _ ?s2] exI [of _ ps2]) simp
  qed
qed

lemma item_rel_ret:
  assumes i: "item_rel t s (h1 @ (p, d) # h2) ps" and safe: "safe_return s (h1 @ h2)"
  shows "\<exists>s'. vReturnItem s p = Some s' \<and> item_rel t s' (h1 @ h2) ps"
proof -
  obtain hs where r: "ring_rel t s hs ps" and l: "lives (xSize s) (pucFree s) hs = h1 @ (p, d) # h2"
    and ns: "t = RINGBUF_TYPE_NOSPLIT \<longrightarrow> (\<forall>d. Live True d \<notin> set ps)"
    using i by (auto simp: item_rel_def)
  obtain s' hs' where "prvReturnItemDefault s p = Some s'" "ring_rel t s' hs' ps"
    "lives (xSize s') (pucFree s') hs' = h1 @ h2"
    using return_default [OF r l] safe by (auto simp: safe_return_def)
  then show ?thesis using ns item_rel_ops [OF i]
    by (cases t) (auto simp: vReturnItem_def item_rel_def)
qed

lemma items_ne: "pend_ok N p ps \<Longrightarrow> ps \<noteq> [] \<Longrightarrow> items a ps \<noteq> []"
  by (induction N p ps arbitrary: a rule: pend_ok.induct) (auto simp: starts_whole_iff)

lemma byte_stream_default:
  assumes t: "t \<noteq> RINGBUF_TYPE_BYTEBUF"
  shows "byte_stream t (stored_bytes t)"
proof (unfold_locales, goal_cases)
  case (1 s h xs)
  then show ?case using item_rel_ops by (auto simp: stored_bytes_def)
next
  case (2 s h xs p d)
  then show ?case using item_rel_held by (auto simp: stored_bytes_def)
next
  case (3 s h xs a b)
  then show ?case using item_rel_sems unfolding stored_bytes_def by blast
next
  case (4 s h xs n)
  then show ?case using item_rel_fits unfolding stored_bytes_def by blast
next
  case (5 s h xs d)
  then obtain ps where "item_rel t s h ps" "xs = bytes ps" by (auto simp: stored_bytes_def)
  then show ?case using item_rel_copy [of t s h ps d] 5 fits_default_placed(2)
    unfolding stored_bytes_def by (metis bytes_append)
next
  case (6 s h xs)
  then show ?case using prvGetFreeSize_ok by (auto simp: stored_bytes_def item_rel_def)
next
  case (7 s h xs)
  then show ?case using item_rel_avail by (auto simp: stored_bytes_def)
next
  case (8 s h xs mx)
  then obtain ps where i: "item_rel t s h ps" and xs: "xs = bytes ps" by (auto simp: stored_bytes_def)
  then have ne: "ps \<noteq> []" using item_rel_avail 8 by auto
  obtain p d s' pre b ps' where g: "ps = pre @ Live b d # ps'" "pre = [] \<or> pre = [Dummy]"
    "pvGetItem s mx = Some (p, length d, b, s')" "item_rel t s' (h @ [(p, d)]) ps'"
    and two: "b \<Longrightarrow> \<exists>p2 d2 s2 ps2. ps' = Live False d2 # ps2 \<and> pvGetItem s' 0 = Some (p2, length d2, False, s2)
       \<and> p2 < p \<and> item_rel t s2 (h @ [(p, d), (p2, d2)]) ps2"
    using item_rel_get [OF i ne, of mx thesis] by blast
  have b: "take (length d) xs = d" "drop (length d) xs = bytes ps'" "length d \<le> length xs"
    using g(1,2) xs by auto
  have "stored_bytes t s' (h @ [(p, take (length d) xs)]) (drop (length d) xs)"
    using g(4) b unfolding stored_bytes_def by auto
  moreover have "b \<longrightarrow> (\<exists>p2 n2 s2. pvGetItem s' 0 = Some (p2, n2, False, s2) \<and> p2 < p
      \<and> length d + n2 \<le> length xs
      \<and> stored_bytes t s2 (h @ [(p, take (length d) xs), (p2, take n2 (drop (length d) xs))])
          (drop (length d + n2) xs))"
  proof
    assume b
    then obtain p2 d2 s2 ps2 where n: "ps' = Live False d2 # ps2"
      "pvGetItem s' 0 = Some (p2, length d2, False, s2)" "p2 < p"
      "item_rel t s2 (h @ [(p, d), (p2, d2)]) ps2" using two by blast
    have xs2: "xs = d @ d2 @ bytes ps2" using g(1,2) n(1) xs by auto
    have "stored_bytes t s2 (h @ [(p, take (length d) xs), (p2, take (length d2) (drop (length d) xs))])
          (drop (length d + length d2) xs)"
      using n(4) unfolding stored_bytes_def xs2 by auto
    then show "\<exists>p2 n2 s2. pvGetItem s' 0 = Some (p2, n2, False, s2) \<and> p2 < p
      \<and> length d + n2 \<le> length xs
      \<and> stored_bytes t s2 (h @ [(p, take (length d) xs), (p2, take n2 (drop (length d) xs))])
          (drop (length d + n2) xs)"
      using n(2,3) xs2 by (intro exI [of _ p2] exI [of _ "length d2"] exI [of _ s2]) simp
  qed
  ultimately show ?case using g(3) b(3) by blast
next
  case (9 s h1 p d h2 xs)
  then show ?case using item_rel_ret unfolding stored_bytes_def by blast
qed

lemma item_stream_default:
  assumes t: "t \<noteq> RINGBUF_TYPE_BYTEBUF"
  shows "item_stream t (stored_bytes t) (stored_items t)"
proof (rule item_stream.intro [OF byte_stream_default [OF t]], unfold_locales, goal_cases)
  case 1
  then show ?case by (rule t)
next
  case (2 s h its)
  then show ?case using item_rel_ops items_bytes unfolding stored_items_def stored_bytes_def by metis
next
  case (3 s h its a b)
  then show ?case using item_rel_sems unfolding stored_items_def by blast
next
  case (4 s h its d)
  then obtain ps where i: "item_rel t s h ps" "its = items [] ps" by (auto simp: stored_items_def)
  then obtain s' pl where "vCopyItem s d = Some s'" "item_rel t s' h (ps @ placed pl d)"
    using item_rel_copy [of t s h ps d] 4 by blast
  moreover have "items [] (ps @ placed pl d) = its @ [d]"
    using items_snoc item_rel_ops [OF i(1)] i(2) fits_default_placed(3) by metis
  ultimately show ?case unfolding stored_items_def by metis
next
  case (5 s h its)
  then obtain ps where i: "item_rel t s h ps" "its = items [] ps" by (auto simp: stored_items_def)
  then show ?case using item_rel_avail [OF i(1)] item_rel_ops [OF i(1)] items_ne [of _ _ ps "[]"] by auto
next
  case (6 s h d its)
  then obtain ps where i: "item_rel t s h ps" "items [] ps = d # its" by (auto simp: stored_items_def)
  then have ne: "ps \<noteq> []" by auto
  obtain p e s' pre b ps' where g: "ps = pre @ Live b e # ps'" "pre = [] \<or> pre = [Dummy]"
    "pvGetItem s 0 = Some (p, length e, b, s')" "item_rel t s' (h @ [(p, e)]) ps'"
    "b \<Longrightarrow> t = RINGBUF_TYPE_ALLOWSPLIT"
    and two: "b \<Longrightarrow> \<exists>p2 d2 s2 ps2. ps' = Live False d2 # ps2 \<and> pvGetItem s' 0 = Some (p2, length d2, False, s2)
       \<and> p2 < p \<and> item_rel t s2 (h @ [(p, e), (p2, d2)]) ps2"
    using item_rel_get [OF i(1) ne, of 0 thesis] by blast
  show ?case
  proof (cases b)
    case False
    then have "d = e" "its = items [] ps'" using i(2) g(1,2) by auto
    then show ?thesis using False g(3,4) unfolding stored_items_def by auto
  next
    case True
    then obtain p2 d2 s2 ps2 where n: "ps' = Live False d2 # ps2"
      "pvGetItem s' 0 = Some (p2, length d2, False, s2)" "p2 < p"
      "item_rel t s2 (h @ [(p, e), (p2, d2)]) ps2" using two by blast
    have d: "d = e @ d2" "its = items [] ps2" using True i(2) g(1,2) n(1) by auto
    have "stored_items t s2 (h @ [(p, take (length e) d), (p2, drop (length e) d)]) its"
      using n(4) d unfolding stored_items_def by auto
    then show ?thesis using True g(3,5) n d(1) item_rel_ops [OF g(4)]
      by (intro exI [of _ p] exI [of _ "length e"] exI [of _ b] exI [of _ s']) auto
  qed
next
  case (7 s h1 p d h2 its)
  then show ?case using item_rel_ret unfolding stored_items_def by blast
qed

interpretation no_split: item_stream RINGBUF_TYPE_NOSPLIT
    "stored_bytes RINGBUF_TYPE_NOSPLIT" "stored_items RINGBUF_TYPE_NOSPLIT"
  by (rule item_stream_default) simp

interpretation allow_split: item_stream RINGBUF_TYPE_ALLOWSPLIT
    "stored_bytes RINGBUF_TYPE_ALLOWSPLIT" "stored_items RINGBUF_TYPE_ALLOWSPLIT"
  by (rule item_stream_default) simp

interpretation byte_buf: byte_stream RINGBUF_TYPE_BYTEBUF byte_rel
proof (unfold_locales, goal_cases)
  case (1 s h xs)
  then show ?case by (rule byte_relE) blast
next
  case (2 s h xs p d)
  then show ?case by (auto simp: byte_rel_def)
next
  case (3 s h xs a b)
  then show ?case by (auto simp: byte_rel_def)
next
  case (4 s h xs n)
  then have "xOps s = RINGBUF_TYPE_BYTEBUF" by (auto simp: byte_rel_def)
  then show ?case using byte_fits(1) [OF 4] by (simp add: xCheckItemFits_def)
next
  case (5 s h xs d)
  then have "xOps s = RINGBUF_TYPE_BYTEBUF" by (auto simp: byte_rel_def)
  then show ?case using byte_copy [of s h xs d] 5 by (auto simp: xCheckItemFits_def vCopyItem_def)
next
  case (6 s h xs)
  then show ?case by (rule byte_free_size)
next
  case (7 s h xs)
  then show ?case using byte_avail by auto
next
  case (8 s h xs mx)
  then have h: "h = []" "xs \<noteq> []" using byte_avail by auto
  have "xOps s = RINGBUF_TYPE_BYTEBUF" using 8 by (auto simp: byte_rel_def)
  then show ?case using byte_get [of s xs mx] 8 h by (fastforce simp: pvGetItem_def)
next
  case (9 s h1 p d h2 xs)
  then obtain d' where "h1 @ (p, d) # h2 = [(pucFree s, d')]" by (auto simp: byte_rel_def)
  then have "h1 = []" "h2 = []" by (auto simp: append_eq_Cons_conv)
  moreover have "xOps s = RINGBUF_TYPE_BYTEBUF" using 9 by (auto simp: byte_rel_def)
  ultimately show ?case using byte_return [of s p d xs] 9 by (auto simp: vReturnItem_def)
qed

section \<open>From a freshly created buffer\<close>

lemma create_stream:
  assumes "xRingbufferCreate True (Some m) (True, True) n t = Some s0" "16 \<le> n" "n + 4 < 2 ^ 31"
  shows "t = RINGBUF_TYPE_BYTEBUF \<and> byte_rel s0 [] [] \<or>
    t \<noteq> RINGBUF_TYPE_BYTEBUF \<and> stored_bytes t s0 [] [] \<and> stored_items t s0 [] []"
proof (cases "t = RINGBUF_TYPE_BYTEBUF")
  case True
  then show ?thesis using create_bytes [of n m] assms by auto
next
  case False
  obtain s where s: "xRingbufferCreate True (Some m) (True, True) n t = Some s" "ring_rel t s [] []"
    using create_items [OF False assms(2,3), of m] by blast
  then have "item_rel t s0 [] []" using assms(1) by (auto simp: item_rel_def)
  then show ?thesis using False unfolding stored_bytes_def stored_items_def
    by (metis bytes_Nil items.simps(1))
qed

text \<open>The stream relation of a type.\<close>

definition stream_rel :: "ringbuf_type \<Rightarrow> ringbuf \<Rightarrow> (nat \<times> u8 list) list \<Rightarrow> u8 list \<Rightarrow> bool" where
  "stream_rel t = (if t = RINGBUF_TYPE_BYTEBUF then byte_rel else stored_bytes t)"

lemma stream_rel_contract: "byte_stream t (stream_rel t)"
  using byte_buf.byte_stream_axioms byte_stream_default by (auto simp: stream_rel_def)

lemma reach_stream_rel:
  assumes "xRingbufferCreate True (Some m) (True, True) n t = Some s0" "16 \<le> n" "n + 4 < 2 ^ 31"
    and "ring_reach whole s0 (s, h, snt, rcv)"
  shows "\<exists>xs. stream_rel t s h xs \<and> concat snt = concat rcv @ xs"
proof -
  have "stream_rel t s0 [] []" using create_stream [OF assms(1-3)] by (auto simp: stream_rel_def)
  then show ?thesis
    using byte_stream.reach_stream [OF stream_rel_contract assms(4), of t] by auto
qed

end
