(* ===== verification/RingProps.thy ===== *)
theory RingProps
  imports RingTypes
begin

text \<open>
  The properties of the ring buffer, with the concrete runs that witness them, and the states in which
  the code does not keep its contract (a full and completely read buffer of which one item is returned, the free size
  of a buffer with less than a header of room, a wake-up lost by a byte buffer, and the semaphore that
  joining a queue set takes and does not give back).
\<close>

section \<open>A no-split buffer with two items\<close>

definition filled :: "u8 \<Rightarrow> u8 list" where "filled b = replicate 16 b"

definition two_mem :: memory where
  "two_mem = (let m0 = (\<lambda>_. 0);
     m1 = mcpy (set_item_flags 0 0 (set_item_len 0 16 m0)) 8 (filled 1)
     in mcpy (set_item_flags 24 0 (set_item_len 24 16 m1)) 32 (filled 2))"

definition one_mem :: memory where
  "one_mem = mcpy (set_item_flags 0 0 (set_item_len 0 16 (\<lambda>_. 0))) 8 (filled 1)"

definition ring48 :: "nat \<Rightarrow> nat \<Rightarrow> int \<Rightarrow> bool \<Rightarrow> bool \<Rightarrow> bool \<Rightarrow> memory \<Rightarrow> ringbuf" where
  "ring48 w r k full sp it m = \<lparr>xSize = 48, uxRingbufferFlags = rb_flags RINGBUF_TYPE_NOSPLIT full,
     xMaxItemSize = 16, xOps = RINGBUF_TYPE_NOSPLIT, pucWrite = w, pucRead = r, pucFree = 0,
     xItemsWaiting = k, xFreeSpaceSemaphore = sp, xItemsBufferedSemaphore = it, rb_mem = m\<rparr>"

lemma length_filled [simp]: "length (filled b) = 16"
  by (simp add: filled_def)

lemma ring48_simps [simp]:
  "xSize (ring48 w r k full sp it m) = 48"
  "uxRingbufferFlags (ring48 w r k full sp it m) = rb_flags RINGBUF_TYPE_NOSPLIT full"
  "xMaxItemSize (ring48 w r k full sp it m) = 16"
  "xOps (ring48 w r k full sp it m) = RINGBUF_TYPE_NOSPLIT"
  "pucWrite (ring48 w r k full sp it m) = w"
  "pucRead (ring48 w r k full sp it m) = r"
  "pucFree (ring48 w r k full sp it m) = 0"
  "xItemsWaiting (ring48 w r k full sp it m) = k"
  "rb_mem (ring48 w r k full sp it m) = m"
  by (simp_all add: ring48_def)

lemma ring48_states:
  "(ring48 w r k full sp it m)\<lparr>rb_mem := m'\<rparr> = ring48 w r k full sp it m'"
  "clear_full (ring48 w r k full sp it m) = ring48 w r k False sp it m"
  "give_space (ring48 w r k full sp it m) = ring48 w r k full True it m"
  by (simp_all add: ring48_def clear_full_def give_space_def)

lemma avail_sem [simp]:
  "prvCheckItemAvail (s\<lparr>xItemsBufferedSemaphore := b\<rparr>) = prvCheckItemAvail s"
  by (simp add: prvCheckItemAvail_def items_to_read_def)

lemmas ring_defs = xRingbufferSendFromISR_def xCheckItemFits_def prvCheckItemFitsDefault_def
  vCopyItem_def prvCopyItemNoSplit_def copy_and_give_def give_if_free_def prvGetFreeSize_def
  xRingbufferReceiveFromISR_def prvReceiveGenericFromISR_def prvCheckItemAvail_def items_to_read_def
  retrieve_def pvGetItem_def prvGetItemDefault_def put_item_def wrap_write_def mark_if_full_def
  set_full_def give_items_def give_space_def give_if_waiting_def first_piece_def write_ok_def
  rbCHECK_ALIGNED_def rbALIGN_SIZE_def align_up_def rbHEADER_SIZE_def pdiff_def u32_of_int_def Let_def

lemma create48:
  "xRingbufferCreate True (Some (\<lambda>_. 0)) (True, True) 48 RINGBUF_TYPE_NOSPLIT
     = Some (ring48 0 0 0 False True False (\<lambda>_. 0))"
  by (simp add: xRingbufferCreate_def ring_defs ring48_def rb_flags_def)

lemma send48_1:
  "xRingbufferSendFromISR (ring48 0 0 0 False True False (\<lambda>_. 0)) (filled 1)
     = Some (True, ring48 24 0 1 False True True one_mem)"
  by (simp add: ring_defs one_mem_def) (simp add: ring48_def)

lemma send48_2:
  "xRingbufferSendFromISR (ring48 24 0 1 False True True one_mem) (filled 2)
     = Some (True, ring48 0 0 2 True True True two_mem)"
  by (simp add: ring_defs one_mem_def two_mem_def) (simp add: ring48_def rb_flags_def)

lemma two_mem_headers [simp]:
  "item_len two_mem 0 = 16" "item_flags two_mem 0 = 0" "item_len two_mem 24 = 16" "item_flags two_mem 24 = 0"
  "mget two_mem 8 16 = filled 1" "mget two_mem 32 16 = filled 2"
  by (simp_all add: two_mem_def Let_def set_item_len_def set_item_flags_def mem_simps)
    (simp_all add: item_len_def item_flags_def mem_simps)

lemma receive48_1:
  "xRingbufferReceiveFromISR (ring48 0 0 2 True True True two_mem)
     = Some (Some (8, 16), ring48 0 24 1 True True True two_mem)"
  by (simp add: ring_defs) (simp add: ring48_def)

lemma receive48_2:
  "xRingbufferReceiveFromISR (ring48 0 24 1 True True True two_mem)
     = Some (Some (32, 16), ring48 0 0 0 True True True two_mem)"
  by (simp add: ring_defs) (simp add: ring48_def)

lemma reach48_1:
  "ring_reach True (ring48 0 0 0 False True False (\<lambda>_. 0))
     (ring48 0 24 1 True True True two_mem, [(8, filled 1)], [filled 1, filled 2], [filled 1])"
proof -
  let ?s0 = "ring48 0 0 0 False True False (\<lambda>_. 0)"
  have "ring_reach True ?s0 (ring48 24 0 1 False True True one_mem, [], [filled 1], [])"
    using ring_reach.step [OF ring_reach.start ring_step.send [OF send48_1]] by simp
  from ring_reach.step [OF this ring_step.send [OF send48_2]]
  have "ring_reach True ?s0 (ring48 0 0 2 True True True two_mem, [], [filled 1, filled 2], [])" by simp
  from ring_reach.step [OF this ring_step.receive [OF receive48_1]] show ?thesis by simp
qed

lemma reach48_2:
  "ring_reach True (ring48 0 0 0 False True False (\<lambda>_. 0))
     (ring48 0 0 0 True True True two_mem, [(8, filled 1), (32, filled 2)], [filled 1, filled 2],
      [filled 1, filled 2])"
  using ring_reach.step [OF reach48_1 ring_step.receive [OF receive48_2]] by simp

text \<open>The same with a blocking send and a blocking receive.\<close>

lemma calls48:
  "ring_calls (ring48 0 0 0 False True False (\<lambda>_. 0))
     (ring48 0 24 1 True True True two_mem, [(8, filled 1)], [filled 1, filled 2], [filled 1])"
proof -
  let ?s0 = "ring48 0 0 0 False True False (\<lambda>_. 0)"
  have "ring_calls ?s0 (ring48 24 0 1 False True True one_mem, [], [filled 1], [])"
    using ring_calls.from_isr [OF ring_calls.start ring_step.send [OF send48_1]] by simp
  from ring_calls.from_isr [OF this ring_step.send [OF send48_2]]
  have two: "ring_calls ?s0 (ring48 0 0 2 True True True two_mem, [], [filled 1, filled 2], [])" by simp
  have "xRingbufferReceive [(\<lambda>x. x, 0)] 0 (ring48 0 0 2 True True True two_mem) 10
      = Returned (Some (8, 16)) (ring48 0 24 1 True True True two_mem)"
    by (simp add: xRingbufferReceive_def prvReceiveGeneric_def ring_defs) (simp add: ring48_def)
  from ring_calls.received [OF two this] show ?thesis by simp
qed

section \<open>The properties\<close>

text \<open>C10: Ring buffers are FIFO byte streams that leave the memory of their clients alone, as long as items are
  given back safely: no item is returned while the buffer is full and completely read and another item is held
  (\<open>safe_return\<close>; there \<open>ring_early_free\<close> applies, and held items can be overwritten).  After any run
  of sends, receives, semaphore takes and such returns on a freshly created buffer of any of the three types, the
  bytes received are a prefix of the bytes accepted; the rest can be received as soon as nothing (for
  a byte buffer: nothing retrieved) is held; and every piece still held by a client has, at its
  address, the bytes it had when it was handed out.\<close>

theorem ring_stream_fifo:
  assumes "xRingbufferCreate True (Some m) (True, True) n t = Some s0" "16 \<le> n" "n + 4 < 2 ^ 31"
    and "ring_reach whole s0 (s, h, snt, rcv)"
  shows "(\<exists>xs. concat snt = concat rcv @ xs
      \<and> (prvCheckItemAvail s \<or> xs = [] \<or> (t = RINGBUF_TYPE_BYTEBUF \<and> h \<noteq> [])))
    \<and> list_all (\<lambda>(p, d). mget (rb_mem s) p (length d) = d) h"
proof -
  obtain xs where xs: "stream_rel t s h xs" "concat snt = concat rcv @ xs"
    using reach_stream_rel [OF assms] by blast
  then show ?thesis
    using byte_stream.avail [OF stream_rel_contract xs(1)] byte_stream.held [OF stream_rel_contract xs(1)]
    unfolding list_all_iff by blast
qed

theorem ring_stream_fifo_witness:
  "(\<exists>xs. concat [filled 1, filled 2] = concat [filled 1] @ xs) \<and> mget two_mem 8 16 = filled 1"
  using ring_stream_fifo [OF create48 _ _ reach48_1] by auto

text \<open>A buffer that a run of calls with safe returns can lead to, and what another task may do to it in a turn.\<close>

definition ring_live :: "ringbuf \<Rightarrow> ringbuf \<Rightarrow> bool" where
  "ring_live s0 s \<longleftrightarrow> (\<exists>h snt rcv. ring_reach False s0 (s, h, snt, rcv))"

definition turn_ok :: "ringbuf \<Rightarrow> turn \<Rightarrow> bool" where
  "turn_ok s0 t \<longleftrightarrow> (\<forall>s. ring_live s0 s \<longrightarrow> ring_live s0 (fst t s) \<and> xMaxItemSize (fst t s) = xMaxItemSize s)"

lemma ring_live_take:
  assumes "ring_live s0 s"
  shows "ring_live s0 (s\<lparr>xItemsBufferedSemaphore := False\<rparr>)" "ring_live s0 (s\<lparr>xFreeSpaceSemaphore := False\<rparr>)"
proof -
  obtain h snt rcv where r: "ring_reach False s0 (s, h, snt, rcv)" using assms by (auto simp: ring_live_def)
  show "ring_live s0 (s\<lparr>xItemsBufferedSemaphore := False\<rparr>)"
    using ring_reach.take [OF r, of "xFreeSpaceSemaphore s" False] by (auto simp: ring_live_def)
  show "ring_live s0 (s\<lparr>xFreeSpaceSemaphore := False\<rparr>)"
    using ring_reach.take [OF r, of False "xItemsBufferedSemaphore s"] by (auto simp: ring_live_def)
qed

text \<open>C12: No call trips an assertion, as long as items are given back safely (\<open>safe_return\<close>).  In every
  state that a run of calls with safe returns can reach, a send of any item, a receive of every kind the type of
  the buffer allows, and the safe return of any held piece finish without violating a \<open>configASSERT\<close> (in
  particular the loop that advances the free pointer ends); and so do the blocking calls, whatever such runs the
  other tasks make while they wait.\<close>

theorem ring_no_assert:
  assumes "xRingbufferCreate True (Some m) (True, True) n t = Some s0" "16 \<le> n" "n + 4 < 2 ^ 31"
    and "ring_reach False s0 (s, h, snt, rcv)" and "list_all (turn_ok s0) ts"
  shows "xRingbufferSendFromISR s item \<noteq> None \<and> xRingbufferReceiveFromISR s \<noteq> None
    \<and> (t = RINGBUF_TYPE_ALLOWSPLIT \<longrightarrow> xRingbufferReceiveSplitFromISR s \<noteq> None)
    \<and> (t = RINGBUF_TYPE_BYTEBUF \<longrightarrow> xRingbufferReceiveUpToFromISR s mx \<noteq> None)
    \<and> (\<forall>h1 p d h2. h = h1 @ (p, d) # h2 \<and> safe_return s (h1 @ h2) \<longrightarrow>
        vRingbufferReturnItem s p \<noteq> None \<and> vRingbufferReturnItemFromISR s p \<noteq> None)
    \<and> xRingbufferSend ts now s item w \<noteq> Asserted \<and> xRingbufferReceive ts now s w \<noteq> Asserted
    \<and> (t = RINGBUF_TYPE_ALLOWSPLIT \<longrightarrow> xRingbufferReceiveSplit ts now s w \<noteq> Asserted)
    \<and> (t = RINGBUF_TYPE_BYTEBUF \<longrightarrow> xRingbufferReceiveUpTo ts now s w mx \<noteq> Asserted)"
proof -
  note c = stream_rel_contract [of t]
  obtain xs where xs: "stream_rel t s h xs" using reach_stream_rel [OF assms(1-4)] by blast
  have fl: "has_flag (uxRingbufferFlags s) rbBYTE_BUFFER_FLAG \<longleftrightarrow> t = RINGBUF_TYPE_BYTEBUF"
    "has_flag (uxRingbufferFlags s) rbALLOW_SPLIT_FLAG \<longleftrightarrow> t = RINGBUF_TYPE_ALLOWSPLIT"
    using byte_stream.kind [OF c xs] by auto
  have gen: "prvReceiveGenericFromISR s False k \<noteq> None" for k
    using byte_stream.retrieve_one [OF c xs, of k]
    by (cases "prvCheckItemAvail s") (auto simp: prvReceiveGenericFromISR_def)
  have gen2: "t = RINGBUF_TYPE_ALLOWSPLIT \<Longrightarrow> prvReceiveGenericFromISR s True 0 \<noteq> None"
    using byte_stream.retrieve_two [OF c xs]
    by (cases "prvCheckItemAvail s") (auto simp: prvReceiveGenericFromISR_def)
  have P: "\<exists>h xs. stream_rel t s h xs" if "ring_live s0 s" for s
    using that reach_stream_rel [OF assms(1-3)] unfolding ring_live_def by blast
  have live: "ring_live s0 s" using assms(4) by (auto simp: ring_live_def)
  have ts: "\<forall>tn \<in> set ts. \<forall>s. ring_live s0 s \<longrightarrow> ring_live s0 (fst tn s)"
    "\<forall>tn \<in> set ts. \<forall>s. ring_live s0 s \<longrightarrow> ring_live s0 (fst tn s) \<and> xMaxItemSize (fst tn s) = xMaxItemSize s"
    using assms(5) by (auto simp: list_all_iff turn_ok_def)
  have rcv: "prvReceiveGeneric ts now w two k s \<noteq> Asserted" if "two \<longrightarrow> t = RINGBUF_TYPE_ALLOWSPLIT \<and> k = 0" for two k
    unfolding prvReceiveGeneric_def
    by (rule byte_stream.receive_loop_ok [OF c, where P = "ring_live s0"])
      (use P ring_live_take(1) ts(1) that live in blast)+
  have map: "map_outcome f x \<noteq> Asserted \<longleftrightarrow> x \<noteq> Asserted" for f x by (cases x) simp_all
  have "xRingbufferSend ts now s item w \<noteq> Asserted"
    using byte_stream.send_loop_ok [OF c P _ ts(2) _ live, of item] ring_live_take(2) fl(1)
    by (auto simp: xRingbufferSend_def)
  moreover have "vRingbufferReturnItem s p \<noteq> None \<and> vRingbufferReturnItemFromISR s p \<noteq> None"
    if "h = h1 @ (p, d) # h2 \<and> safe_return s (h1 @ h2)" for h1 p d h2
    using byte_stream.ret [OF c, of s h1 p d h2 xs] xs that
    by (auto simp: vRingbufferReturnItem_def vRingbufferReturnItemFromISR_def)
  moreover have "xRingbufferSendFromISR s item \<noteq> None" using byte_stream.send_isr [OF c xs, of item] by auto
  moreover have "xRingbufferReceiveFromISR s \<noteq> None"
    using gen [of 0] by (auto simp: xRingbufferReceiveFromISR_def split: option.splits)
  moreover have "t = RINGBUF_TYPE_ALLOWSPLIT \<longrightarrow> xRingbufferReceiveSplitFromISR s \<noteq> None"
    using gen2 fl(2) by (simp add: xRingbufferReceiveSplitFromISR_def)
  moreover have "t = RINGBUF_TYPE_BYTEBUF \<longrightarrow> xRingbufferReceiveUpToFromISR s mx \<noteq> None"
    using gen [of mx] fl(1) by (auto simp: xRingbufferReceiveUpToFromISR_def split: option.splits)
  moreover have "xRingbufferReceive ts now s w \<noteq> Asserted"
    "t = RINGBUF_TYPE_ALLOWSPLIT \<longrightarrow> xRingbufferReceiveSplit ts now s w \<noteq> Asserted"
    "t = RINGBUF_TYPE_BYTEBUF \<longrightarrow> xRingbufferReceiveUpTo ts now s w mx \<noteq> Asserted"
    using rcv fl by (simp_all add: xRingbufferReceive_def xRingbufferReceiveSplit_def xRingbufferReceiveUpTo_def map)
  ultimately show ?thesis by blast
qed

theorem ring_no_assert_witness:
  "vRingbufferReturnItem (ring48 0 24 1 True True True two_mem) 8 \<noteq> None
    \<and> xRingbufferReceive [(\<lambda>x. x, 7)] 0 (ring48 0 24 1 True True True two_mem) 10 \<noteq> Asserted"
proof -
  have safe: "safe_return (ring48 0 24 1 True True True two_mem) []" by (simp add: safe_return_def)
  have reach: "ring_reach False (ring48 0 0 0 False True False (\<lambda>_. 0))
      (ring48 0 24 1 True True True two_mem, [(8, filled 1)], [filled 1, filled 2], [filled 1])"
    using reach_any [OF reach48_1] .
  have "list_all (turn_ok (ring48 0 0 0 False True False (\<lambda>_. 0))) [(\<lambda>x. x, 7)]" by (simp add: turn_ok_def)
  from ring_no_assert [OF create48 _ _ reach this, of "[]" 0 0 10] safe show ?thesis by force
qed

text \<open>C11: No-split and allow-split buffers deliver whole items, as long as items are given back safely
  (\<open>safe_return\<close>: not while the buffer is full and completely read and another item is held).  If the clients of an allow-split buffer
  fetch both halves of an item (\<open>xRingbufferReceiveSplit\<close>), the items received are, in order and
  unchanged, a prefix of the items accepted, and all of them once the buffer has nothing to read.\<close>

theorem ring_items_whole:
  assumes "xRingbufferCreate True (Some m) (True, True) n t = Some s0" "16 \<le> n" "n + 4 < 2 ^ 31"
    and "t \<noteq> RINGBUF_TYPE_BYTEBUF" "ring_reach True s0 (s, h, snt, rcv)"
  shows "\<exists>its. snt = rcv @ its \<and> (prvCheckItemAvail s \<or> its = [])"
proof -
  have i: "stored_items t s0 [] []" using create_stream [OF assms(1-3)] assms(4) by auto
  show ?thesis
  proof (cases t)
    case RINGBUF_TYPE_NOSPLIT
    then show ?thesis
      using no_split.reach_items [OF assms(5)] no_split.I_avail [of s h] i by auto
  next
    case RINGBUF_TYPE_ALLOWSPLIT
    then show ?thesis
      using allow_split.reach_items [OF assms(5)] allow_split.I_avail [of s h] i by auto
  qed (use assms(4) in simp)
qed

theorem ring_items_whole_witness:
  "\<exists>its. [filled 1, filled 2] = [filled 1] @ its"
  using ring_items_whole [OF create48 _ _ _ reach48_1] by auto

section \<open>Where the contract ends\<close>

text \<open>A full buffer that has been read completely forgets the items its clients still hold.  When
  one of several held items is returned in that state, the full flag is cleared although the free
  pointer has not moved: the buffer then accepts an item of any size up to the maximum, and counts all
  of its storage as free, while the other items are still in use.\<close>

theorem ring_early_free:
  assumes "xRingbufferCreate True (Some m) (True, True) n t = Some s0" "16 \<le> n" "n + 4 < 2 ^ 31"
    and "t \<noteq> RINGBUF_TYPE_BYTEBUF" "ring_reach whole s0 (s, h1 @ (p, d) # h2, snt, rcv)"
    and "rb_full s" "pucRead s = pucWrite s"
  shows "\<exists>s'. vRingbufferReturnItemFromISR s p = Some s' \<and> xCheckItemFits s' k = Some True
    \<and> prvGetFreeSize s' = Some (xSize s')"
proof -
  obtain xs where "stream_rel t s (h1 @ (p, d) # h2) xs"
    using reach_stream_rel [OF assms(1-3,5)] by blast
  then obtain hs ps where r: "ring_rel t s hs ps" and l: "lives (xSize s) (pucFree s) hs = h1 @ (p, d) # h2"
    using assms(4) by (auto simp: stream_rel_def stored_bytes_def item_rel_def)
  have "hs \<noteq> []" using l by auto
  then have ps: "ps = []" using read_eq_write [OF r _ assms(7)] by auto
  then have "used (xSize s) (pucFree s) hs = xSize s" using r assms(6) by (simp add: ring_rel_def)
  then have rf: "pucRead s = pucFree s"
    using endp_eq_start [OF ring_rel_posD(1,5) [OF r] _ \<open>hs \<noteq> []\<close>] r by (simp add: ring_rel_def)
  define s1 where "s1 = s\<lparr>rb_mem := set_item_flags (p - 8) rbITEM_FREE_FLAG (rb_mem s)\<rparr>"
  have "free_loop s1 = Some s1" using rf by (subst free_loop.simps) (simp add: Let_def s1_def)
  moreover have "reset_full s1 = clear_full s1"
    using assms(6,7) rf by (simp add: reset_full_def s1_def)
  ultimately have "prvReturnItemDefault s p = Some (clear_full s1)"
    using return_marks [OF r l] by (simp add: s1_def)
  moreover have ops: "xOps s = t" "\<exists>b. uxRingbufferFlags s = rb_flags t b" using r by (auto simp: ring_rel_def)
  ultimately have ret: "vRingbufferReturnItemFromISR s p = Some (give_space (clear_full s1))"
    using assms(4) by (cases t) (auto simp: vRingbufferReturnItemFromISR_def vReturnItem_def)
  have "pucWrite s + 8 \<le> xSize s" "4 dvd pucWrite s" "xSize s < 2 ^ 31"
    using ring_rel_posD(3) [OF r] by (auto simp: pos_ok_def)
  then show ?thesis using ret ops rf assms(4,7)
    by (cases t) (auto simp: xCheckItemFits_def prvCheckItemFitsDefault_def prvGetFreeSize_def Let_def
        give_space_def clear_full_def s1_def rbCHECK_ALIGNED_def write_ok_def)
qed

text \<open>In the run with two items of 16 bytes, both retrieved, returning the second makes room for a third
  item, which replaces the bytes of the first one while it is still held.\<close>

theorem ring_early_free_witness:
  "\<exists>s'. vRingbufferReturnItemFromISR (ring48 0 0 0 True True True two_mem) 32 = Some s'
    \<and> xCheckItemFits s' 16 = Some True \<and> prvGetFreeSize s' = Some (xSize s')"
proof -
  have reach: "ring_reach True (ring48 0 0 0 False True False (\<lambda>_. 0))
     (ring48 0 0 0 True True True two_mem, [(8, filled 1)] @ (32, filled 2) # [], [filled 1, filled 2],
      [filled 1, filled 2])"
    using reach48_2 by simp
  show ?thesis by (rule ring_early_free [OF create48 _ _ _ reach]) simp_all
qed

text \<open>With those states, a third item replaces the bytes of the first one while it is still held.\<close>

lemma ring_overwrites_held:
  "\<exists>s1 s2. vRingbufferReturnItemFromISR (ring48 0 0 0 True True True two_mem) 32 = Some s1
    \<and> xRingbufferSendFromISR s1 (filled 3) = Some (True, s2)
    \<and> mget two_mem 8 16 = filled 1 \<and> mget (rb_mem s2) 8 16 = filled 3"
proof -
  let ?m = "set_item_flags 24 1 two_mem"
  have hdr: "item_flags two_mem 24 = 0" "item_len two_mem 24 = 16" by simp_all
  have "free_loop (ring48 0 0 0 True True True ?m) = Some (ring48 0 0 0 True True True ?m)"
    by (subst free_loop.simps) (simp add: Let_def)
  then have "vRingbufferReturnItemFromISR (ring48 0 0 0 True True True two_mem) 32
      = Some (ring48 0 0 0 False True True ?m)"
    by (simp add: vRingbufferReturnItemFromISR_def vReturnItem_def prvReturnItemDefault_def Let_def
        rbCHECK_ALIGNED_def rbHEADER_SIZE_def reset_full_def ring48_states rbITEM_FREE_FLAG_def)
  moreover have "\<exists>s2. xRingbufferSendFromISR (ring48 0 0 0 False True True ?m) (filled 3) = Some (True, s2)
      \<and> mget (rb_mem s2) 8 16 = filled 3"
    by (simp add: ring_defs mem_simps)
  ultimately show ?thesis by simp
qed

text \<open>C13: No wake-up is lost in a no-split buffer outside queue sets.  After any run of complete calls, blocking
  ones and those for interrupts, with safe returns (\<open>ring_calls\<close>), a blocking receive that finds something to
  read returns the oldest item not yet received at once, whatever the time-out, and afterwards the
  semaphore readers wait for is again given if there is more to read.\<close>

theorem ring_receive_live:
  assumes "xRingbufferCreate True (Some m) (True, True) n RINGBUF_TYPE_NOSPLIT = Some s0"
    and "16 \<le> n" "n + 4 < 2 ^ 31" "ring_calls s0 (s, h, snt, rcv)" "prvCheckItemAvail s"
  shows "\<exists>p d s'. xRingbufferReceive ((\<lambda>x. x, now') # ts) now s xTicksToWait = Returned (Some (p, length d)) s'
    \<and> mget (rb_mem s') p (length d) = d \<and> (\<exists>rest. snt = rcv @ d # rest)
    \<and> (prvCheckItemAvail s' \<longrightarrow> xItemsBufferedSemaphore s')"
proof -
  have i0: "stored_items RINGBUF_TYPE_NOSPLIT s0 [] []" using create_stream [OF assms(1-3)] by auto
  have sem: "xItemsBufferedSemaphore s"
    using no_split.calls_woken [OF i0 refl assms(4)] assms(5) by (simp add: no_split.woken_def)
  obtain its where i: "stored_items RINGBUF_TYPE_NOSPLIT s h its" "snt = rcv @ its"
    using no_split.reach_items [OF no_split.calls_reach [OF i0 refl assms(4)] i0] by auto
  then obtain d rest where its: "its = d # rest" using no_split.I_avail assms(5) by (cases its) auto
  let ?s1 = "s\<lparr>xItemsBufferedSemaphore := False\<rparr>"
  have i1: "stored_items RINGBUF_TYPE_NOSPLIT ?s1 h (d # rest)"
    using no_split.I_sems [where s = s and a = "xFreeSpaceSemaphore s" and b = False] i(1) its by simp
  obtain p s2 where g: "xRingbufferReceiveFromISR ?s1 = Some (Some (p, length d), s2)"
    "mget (rb_mem s2) p (length d) = d"
    using no_split.receive_item [OF i1 refl] by blast
  obtain b s3 where r: "retrieve ?s1 False 0 = Some ((p, length d), b, s3)" "s2 = give_if_waiting s3"
    using g(1) by (auto simp: xRingbufferReceiveFromISR_def prvReceiveGenericFromISR_def first_piece_def
        split: option.splits if_splits)
  have "prvCheckItemAvail s2 \<longrightarrow> xItemsBufferedSemaphore s2"
    unfolding r(2) by (auto simp: give_if_waiting_def give_items_def prvCheckItemAvail_def
        items_to_read_def split: if_splits)
  moreover have "xRingbufferReceive ((\<lambda>x. x, now') # ts) now s xTicksToWait = Returned (Some (p, length d)) s2"
    using r sem assms(5) by (simp add: xRingbufferReceive_def prvReceiveGeneric_def Let_def first_piece_def)
  ultimately show ?thesis using g(2) i(2) its by blast
qed

theorem ring_receive_live_witness:
  "\<exists>p d s'. xRingbufferReceive [(\<lambda>x. x, 0)] 0 (ring48 0 24 1 True True True two_mem) 10
      = Returned (Some (p, length d)) s' \<and> [filled 1, filled 2] = [filled 1] @ d # []"
proof -
  have "prvCheckItemAvail (ring48 0 24 1 True True True two_mem)"
    by (simp add: prvCheckItemAvail_def items_to_read_def)
  from ring_receive_live [OF create48 _ _ calls48 this, of 0 "[]" 0 10] show ?thesis by auto
qed

text \<open>A byte buffer can lose a wake-up.  While a retrieved piece has not been returned, a second
  blocking receive takes the semaphore and times out; returning the piece makes the remaining bytes
  readable again but does not give the semaphore, so that the next blocking receive times out too,
  although there are bytes to read and nobody holds anything.\<close>

theorem byte_lost_wakeup:
  assumes "byte_rel s [(p, d)] xs" "xs \<noteq> []" "xItemsBufferedSemaphore s"
  shows "\<exists>s1 s2. xRingbufferReceive [(\<lambda>x. x, now1), (\<lambda>x. x, now2)] now s wait = Returned None s1
    \<and> vRingbufferReturnItem s1 p = Some s2 \<and> prvCheckItemAvail s2 \<and> \<not> xItemsBufferedSemaphore s2
    \<and> xRingbufferReceive [(\<lambda>x. x, now3)] now' s2 wait' = Returned None s2"
proof -
  let ?s1 = "s\<lparr>xItemsBufferedSemaphore := False\<rparr>"
  have r1: "byte_rel ?s1 [(p, d)] xs" using assms(1) by (auto simp: byte_rel_def)
  have "\<not> prvCheckItemAvail ?s1" using byte_avail [OF r1] by simp
  then have "receive_loop [(\<lambda>x. x, now1), (\<lambda>x. x, now2)] wait e wait False 0 s = Returned None ?s1" for e
    using assms(3) by (simp add: Let_def)
  then have a: "xRingbufferReceive [(\<lambda>x. x, now1), (\<lambda>x. x, now2)] now s wait = Returned None ?s1"
    by (simp add: xRingbufferReceive_def prvReceiveGeneric_def first_piece_def)
  have ops: "xOps s = RINGBUF_TYPE_BYTEBUF" using assms(1) by (auto simp: byte_rel_def)
  obtain s2 where s2: "prvReturnItemByteBuf ?s1 p = Some s2" "byte_rel s2 [] xs"
    using byte_return [OF r1] by blast
  then have ret: "vRingbufferReturnItem ?s1 p = Some (give_space s2)"
    using ops by (simp add: vRingbufferReturnItem_def vReturnItem_def)
  have g: "byte_rel (give_space s2) [] xs" using s2(2) by (auto simp: byte_rel_def give_space_def)
  have sem: "\<not> xItemsBufferedSemaphore (give_space s2)"
    using return_keeps_sem [of ?s1 p s2] s2(1) ops by (simp add: vReturnItem_def give_space_def)
  have "prvCheckItemAvail (give_space s2)" using byte_avail [OF g] assms(2) by simp
  moreover have "xRingbufferReceive [(\<lambda>x. x, now3)] now' (give_space s2) wait' = Returned None (give_space s2)"
    using sem by (simp add: xRingbufferReceive_def prvReceiveGeneric_def first_piece_def Let_def)
  ultimately show ?thesis using a ret sem by blast
qed

definition byte16 :: ringbuf where
  "byte16 = \<lparr>xSize = 16, uxRingbufferFlags = rbBYTE_BUFFER_FLAG, xMaxItemSize = 16,
     xOps = RINGBUF_TYPE_BYTEBUF, pucWrite = 4, pucRead = 0, pucFree = 12, xItemsWaiting = 4,
     xFreeSpaceSemaphore = True, xItemsBufferedSemaphore = True, rb_mem = \<lambda>_. 7\<rparr>"

theorem byte_lost_wakeup_witness:
  "\<exists>s1 s2. xRingbufferReceive [(\<lambda>x. x, 1), (\<lambda>x. x, 2)] 0 byte16 5 = Returned None s1
    \<and> vRingbufferReturnItem s1 12 = Some s2 \<and> prvCheckItemAvail s2"
proof -
  have "byte_rel byte16 [(12, replicate 4 7)] (replicate 4 7)"
    by (simp add: byte_rel_def byte16_def rb_flags_def mget_eq_iff)
  moreover have "replicate 4 (7 :: u8) \<noteq> []" "xItemsBufferedSemaphore byte16" by (simp_all add: byte16_def)
  ultimately show ?thesis using byte_lost_wakeup [of byte16 12 "replicate 4 7" "replicate 4 7" 1 2 0 5]
    by blast
qed

text \<open>Joining a queue set loses the pending wake-up.  \<open>xRingbufferAddToQueueSetRead\<close> takes the
  read semaphore and gives it back inside \<open>configASSERT\<close>, which is empty in this build: afterwards a
  blocking receive times out although an item is available.\<close>

theorem queue_set_drops_wakeup:
  assumes "prvCheckItemAvail s"
  shows "prvCheckItemAvail (snd (xRingbufferAddToQueueSetRead add s))
    \<and> xRingbufferReceive [(\<lambda>x. x, now')] now (snd (xRingbufferAddToQueueSetRead add s)) wait
      = Returned None (snd (xRingbufferAddToQueueSetRead add s))"
proof -
  let ?s1 = "s\<lparr>xItemsBufferedSemaphore := False\<rparr>"
  have "snd (xRingbufferAddToQueueSetRead add s) = ?s1"
    by (simp add: xRingbufferAddToQueueSetRead_def queue_set_read_def Let_def)
  moreover have "prvCheckItemAvail ?s1" using assms by simp
  moreover have "xRingbufferReceive [(\<lambda>x. x, now')] now ?s1 wait = Returned None ?s1"
    by (simp add: xRingbufferReceive_def prvReceiveGeneric_def first_piece_def Let_def)
  ultimately show ?thesis by simp
qed

theorem queue_set_drops_wakeup_witness:
  "prvCheckItemAvail (snd (xRingbufferAddToQueueSetRead (\<lambda>_. True) (ring48 0 0 2 True True True two_mem)))"
proof -
  have "prvCheckItemAvail (ring48 0 0 2 True True True two_mem)"
    by (simp add: prvCheckItemAvail_def items_to_read_def)
  from queue_set_drops_wakeup [OF this] show ?thesis by blast
qed

section \<open>The free size that is reported\<close>

lemma al4_fits: "4 dvd g \<Longrightarrow> 8 \<le> g \<Longrightarrow> 8 + al4 k \<le> g \<longleftrightarrow> k \<le> g - 8"
proof -
  assume "4 dvd g" "8 \<le> g"
  then have "4 dvd g - 8" by simp
  then show ?thesis using al4_le [of "g - 8" k] al4_ge [of k] \<open>8 \<le> g\<close> by linarith
qed

lemma limit_free_size_nat:
  "k < 2 ^ 31 \<Longrightarrow> limit_free_size s (int k) = min k (xMaxItemSize s)"
  by (auto simp: limit_free_size_def)

lemma free_size_byte:
  assumes r: "byte_rel s h xs" and nf: "\<not> rb_full s" and k: "k \<le> xMaxItemSize s"
  shows "prvCheckItemFitsByteBuffer s k = Some (k \<le> prvGetCurMaxSizeByteBuf s)"
proof -
  obtain u where "xSize s < 2 ^ 31" "pucFree s < xSize s" "pucWrite s < xSize s" "xMaxItemSize s = xSize s"
    using r by (rule byte_relE) blast
  then show ?thesis using byte_write_ok [OF r] nf k
    by (auto simp: prvCheckItemFitsByteBuffer_def prvGetCurMaxSizeByteBuf_def Let_def pdiff_nat
        u32_of_int_def)
qed

lemma free_size_no_split:
  assumes r: "ring_rel RINGBUF_TYPE_NOSPLIT s hs ps" and nf: "\<not> rb_full s" and k: "k \<le> xMaxItemSize s"
    and gap: "pucWrite s < pucFree s \<Longrightarrow> 8 \<le> pucFree s - pucWrite s"
  shows "prvCheckItemFitsDefault s k = Some (k \<le> prvGetCurMaxSizeNoSplit s)"
proof -
  let ?N = "xSize s" and ?w = "pucWrite s" and ?f = "pucFree s"
  note pos = ring_rel_posD [OF r]
  have N: "?N < 2 ^ 31" "4 dvd ?N" "4 dvd ?w" "4 dvd ?f" "?w + 8 \<le> ?N" "?f + 8 \<le> ?N"
    using pos by (auto simp: pos_ok_def)
  have mx: "xMaxItemSize s + 8 = al4 (?N div 2)" and ns: "\<not> has_flag (uxRingbufferFlags s) rbALLOW_SPLIT_FLAG"
    using r by (auto simp: ring_rel_def)
  have al: "rbALIGN_SIZE k = al4 k" "(rbALIGN_SIZE k + rbHEADER_SIZE) mod 4294967296 = 8 + al4 k"
    using k mx al4_less [of "?N div 2"] al4_less [of k] N(1)
    by (auto intro!: rbALIGN_SIZE_al4 simp: rbALIGN_SIZE_al4 rbHEADER_SIZE_def)
  have ok: "write_ok s" "rbCHECK_ALIGNED ?w" using N
    by (auto simp: write_ok_def rbCHECK_ALIGNED_def dvd_eq_mod_eq_0)
  define g where "g = (if ?w < ?f then ?f - ?w else max (?N - ?w) ?f)"
  have g: "4 dvd g" "8 \<le> g" "g < 2 ^ 31" using N gap by (auto simp: g_def max_def)
  have cur: "prvGetCurMaxSizeNoSplit s = min (g - 8) (xMaxItemSize s)"
  proof -
    have "(if ?w < ?f then int ?f - int ?w else let s1 = pdiff ?N ?w; s2 = pdiff ?f 0
        in s32_of_int (int (if s1 > s2 then s1 else s2))) = int g"
      using N by (auto simp: g_def Let_def pdiff_nat max_def)
    moreover have "s32_of_int (int g - int rbHEADER_SIZE) = int (g - 8)"
      using g by (simp add: rbHEADER_SIZE_def of_nat_diff)
    ultimately show ?thesis using nf limit_free_size_nat [of "g - 8" s] g(3)
      by (simp add: prvGetCurMaxSizeNoSplit_def Let_def)
  qed
  have "prvCheckItemFitsDefault s k = Some (8 + al4 k \<le> g)"
  proof (cases "?w = ?f")
    case True
    have "4 dvd xMaxItemSize s" using mx dvd_add_left_iff [of 4 8 "xMaxItemSize s"] by simp
    then have "8 + al4 k \<le> al4 (?N div 2)" using mx k al4_le [of "xMaxItemSize s" k] by simp
    then have "8 + al4 k \<le> ?N - ?w \<or> 8 + al4 k \<le> ?w"
      using half_fits [of ?N ?w k] N by linarith
    then have "8 + al4 k \<le> g" using True by (auto simp: g_def)
    then show ?thesis using True ok nf by (simp add: prvCheckItemFitsDefault_def Let_def)
  next
    case False
    then show ?thesis using ok N ns al(2)
      by (auto simp: prvCheckItemFitsDefault_def Let_def g_def pdiff_nat max_def)
  qed
  then show ?thesis using al4_fits [OF g(1,2), of k] k cur by simp
qed

text \<open>The free size a no-split or byte buffer reports is exact: an item within the maximum size fits
  now if and only if it is not larger than \<open>xRingbufferGetCurFreeSize\<close>, provided the buffer is not
  full and, for no-split buffers, the gap in front of the free pointer holds at least a header.\<close>

theorem ring_free_size_exact:
  assumes "xRingbufferCreate True (Some m) (True, True) n t = Some s0" "16 \<le> n" "n + 4 < 2 ^ 31"
    and "ring_reach whole s0 (s, h, snt, rcv)" "t \<noteq> RINGBUF_TYPE_ALLOWSPLIT" "\<not> rb_full s"
    and "t = RINGBUF_TYPE_NOSPLIT \<and> pucWrite s < pucFree s \<Longrightarrow> 8 \<le> pucFree s - pucWrite s"
    and "k \<le> xMaxItemSize s"
  shows "xCheckItemFits s k = Some (k \<le> xRingbufferGetCurFreeSize s)"
proof -
  obtain xs where x: "stream_rel t s h xs" using reach_stream_rel [OF assms(1-4)] by blast
  show ?thesis
  proof (cases t)
    case RINGBUF_TYPE_NOSPLIT
    then obtain hs ps where r: "ring_rel RINGBUF_TYPE_NOSPLIT s hs ps"
      using x by (auto simp: stream_rel_def stored_bytes_def item_rel_def)
    then show ?thesis using free_size_no_split [OF r assms(6,8)] assms(7) RINGBUF_TYPE_NOSPLIT
      by (simp add: xCheckItemFits_def xRingbufferGetCurFreeSize_def xGetCurMaxSize_def ring_rel_def)
  next
    case RINGBUF_TYPE_BYTEBUF
    then have r: "byte_rel s h xs" using x by (simp add: stream_rel_def)
    then show ?thesis using free_size_byte [OF r assms(6,8)]
      by (simp add: xCheckItemFits_def xRingbufferGetCurFreeSize_def xGetCurMaxSize_def byte_rel_def)
  qed (use assms(5) in simp)
qed

theorem ring_free_size_exact_witness:
  "xCheckItemFits (ring48 24 0 1 False True True one_mem) 16
     = Some (16 \<le> xRingbufferGetCurFreeSize (ring48 24 0 1 False True True one_mem))"
proof -
  have reach: "ring_reach True (ring48 0 0 0 False True False (\<lambda>_. 0))
      (ring48 24 0 1 False True True one_mem, [], [filled 1], [])"
    using ring_reach.step [OF ring_reach.start ring_step.send [OF send48_1]] by simp
  show ?thesis by (rule ring_free_size_exact [OF create48 _ _ reach]) simp_all
qed

text \<open>With less room than the headers need, the reported free size is the maximum item size.  The
  signed free size is compared with the unsigned \<open>xMaxItemSize\<close>, so a negative value counts as large:
  an allow-split buffer whose free space wraps and is smaller than two headers reports its maximum
  item size, although every item of more than four bytes is refused.\<close>

theorem ring_free_size_negative:
  assumes "ring_rel RINGBUF_TYPE_ALLOWSPLIT s hs ps" "pucFree s < pucWrite s"
    and "pucFree s + (xSize s - pucWrite s) < 16" "4 < k" "k \<le> xMaxItemSize s"
  shows "xRingbufferGetCurFreeSize s = xMaxItemSize s \<and> xCheckItemFits s k = Some False"
proof -
  let ?N = "xSize s" and ?w = "pucWrite s" and ?f = "pucFree s"
  note r = assms(1) and pos = ring_rel_posD [OF assms(1)]
  have N: "?N < 2 ^ 31" "4 dvd ?N" "4 dvd ?w" "4 dvd ?f" "?w + 8 \<le> ?N" "?f + 8 \<le> ?N"
    using pos by (auto simp: pos_ok_def)
  have c: "chain ?N (rb_mem s) ?f (hs @ ps)" "used ?N ?f (hs @ ps) \<le> ?N" "?w = endp ?N ?f (hs @ ps)"
    and mx: "xMaxItemSize s + 16 = ?N" and ops: "xOps s = RINGBUF_TYPE_ALLOWSPLIT"
    and fl: "uxRingbufferFlags s = rb_flags RINGBUF_TYPE_ALLOWSPLIT (used ?N ?f (hs @ ps) = ?N)"
    using r by (auto simp: ring_rel_def)
  have nf: "\<not> rb_full s"
  proof
    assume "rb_full s"
    then have "used ?N ?f (hs @ ps) = ?N" using fl by simp
    then show False using endp_mod [OF pos(1) c(1)] c(3) assms(2) N by simp
  qed
  have ok: "write_ok s" "rbCHECK_ALIGNED ?w" using N
    by (auto simp: write_ok_def rbCHECK_ALIGNED_def dvd_eq_mod_eq_0)
  have k: "8 \<le> al4 k" using assms(4) by (simp add: al4_def)
  have al: "(rbALIGN_SIZE k + rbHEADER_SIZE) mod 4294967296 = 8 + al4 k"
    "(8 + al4 k + rbHEADER_SIZE) mod 4294967296 = 16 + al4 k"
    using assms(5) mx al4_less [of k] N(1) by (auto simp: rbALIGN_SIZE_al4 rbHEADER_SIZE_def)
  define x where "x = int ?f + (int ?N - int ?w) - int (rbHEADER_SIZE * 2)"
  have x: "- 16 \<le> x" "x < 0" using assms(2,3) N by (auto simp: x_def rbHEADER_SIZE_def)
  then have u: "u32_of_int x = nat (x + 2 ^ 32)"
    unfolding u32_of_int_def
    by (subst mod_add_self2 [symmetric], subst mod_pos_pos_trivial) simp_all
  have "s32_of_int x = x" using x by simp
  moreover have "xMaxItemSize s < u32_of_int x" using u x mx N(1) by simp
  ultimately have "prvGetCurMaxSizeAllowSplit s = xMaxItemSize s"
    using nf assms(2) by (simp add: prvGetCurMaxSizeAllowSplit_def limit_free_size_def Let_def x_def)
  moreover have "prvCheckItemFitsDefault s k = Some False"
    using ok N assms(2,3) al k fl by (auto simp: prvCheckItemFitsDefault_def Let_def pdiff_nat)
  ultimately show ?thesis
    by (simp add: xRingbufferGetCurFreeSize_def xGetCurMaxSize_def xCheckItemFits_def ops)
qed

text \<open>A buffer of 32 bytes with one item of 16 bytes: 16 bytes are reported, 8 are left.\<close>

definition split32 :: ringbuf where
  "split32 = \<lparr>xSize = 32, uxRingbufferFlags = rb_flags RINGBUF_TYPE_ALLOWSPLIT False, xMaxItemSize = 16,
     xOps = RINGBUF_TYPE_ALLOWSPLIT, pucWrite = 24, pucRead = 0, pucFree = 0, xItemsWaiting = 1,
     xFreeSpaceSemaphore = True, xItemsBufferedSemaphore = True, rb_mem = one_mem\<rparr>"

lemma one_mem_headers [simp]:
  "item_len one_mem 0 = 16" "item_flags one_mem 0 = 0" "mget one_mem 8 16 = filled 1"
  by (simp_all add: one_mem_def mem_simps)

theorem ring_free_size_negative_witness:
  "xRingbufferGetCurFreeSize split32 = xMaxItemSize split32 \<and> xCheckItemFits split32 16 = Some False"
proof -
  have "al4 16 = 16" by (simp add: al4_def)
  then have "ring_rel RINGBUF_TYPE_ALLOWSPLIT split32 [] [Live False (filled 1)]"
    by (simp add: ring_rel_def split32_def pos_ok_def e_size_def e_next_def e_foot_def holds_def)
  then show ?thesis
    by (rule ring_free_size_negative) (simp_all add: split32_def)
qed

end
