(* ===== verification/MqttMsg.thy ===== *)
theory MqttMsg
  imports Prelude
begin

text \<open>
  Encoding and decoding of MQTT messages, \<open>components/mqtt/esp-mqtt/lib/mqtt_msg.c\<close>.  The message
  buffer is a byte memory of which the first \<open>buffer_length\<close> bytes belong to the connection; the
  message is an offset and a length in it.  \<open>esp_random\<close> is a list of values still to come; a
  function that needs more of them than the list has is still looping, which is \<open>None\<close>.
\<close>

section \<open>Data\<close>

record mqtt_connection =
  msg_data :: nat
  msg_length :: nat
  cn_buffer :: memory
  cn_buffer_length :: nat

record mqtt_connect_info =
  client_id :: "u8 list option"
  username :: "u8 list option"
  password :: "u8 list option"
  will_topic :: "u8 list option"
  will_message :: "u8 list"
  keepalive :: int
  will_qos :: int
  will_retain :: int
  clean_session :: int

definition MQTT_MAX_FIXED_HEADER_SIZE :: nat where "MQTT_MAX_FIXED_HEADER_SIZE = 3"

definition MQTT_MSG_TYPE_CONNECT :: u8 where "MQTT_MSG_TYPE_CONNECT = 1"
definition MQTT_MSG_TYPE_PUBLISH :: u8 where "MQTT_MSG_TYPE_PUBLISH = 3"
definition MQTT_MSG_TYPE_PUBACK :: u8 where "MQTT_MSG_TYPE_PUBACK = 4"
definition MQTT_MSG_TYPE_PUBREC :: u8 where "MQTT_MSG_TYPE_PUBREC = 5"
definition MQTT_MSG_TYPE_PUBREL :: u8 where "MQTT_MSG_TYPE_PUBREL = 6"
definition MQTT_MSG_TYPE_PUBCOMP :: u8 where "MQTT_MSG_TYPE_PUBCOMP = 7"
definition MQTT_MSG_TYPE_SUBSCRIBE :: u8 where "MQTT_MSG_TYPE_SUBSCRIBE = 8"
definition MQTT_MSG_TYPE_SUBACK :: u8 where "MQTT_MSG_TYPE_SUBACK = 9"
definition MQTT_MSG_TYPE_UNSUBSCRIBE :: u8 where "MQTT_MSG_TYPE_UNSUBSCRIBE = 10"
definition MQTT_MSG_TYPE_UNSUBACK :: u8 where "MQTT_MSG_TYPE_UNSUBACK = 11"
definition MQTT_MSG_TYPE_PINGREQ :: u8 where "MQTT_MSG_TYPE_PINGREQ = 12"
definition MQTT_MSG_TYPE_PINGRESP :: u8 where "MQTT_MSG_TYPE_PINGRESP = 13"
definition MQTT_MSG_TYPE_DISCONNECT :: u8 where "MQTT_MSG_TYPE_DISCONNECT = 14"

lemmas mqtt_types = MQTT_MSG_TYPE_CONNECT_def MQTT_MSG_TYPE_PUBLISH_def MQTT_MSG_TYPE_PUBACK_def
  MQTT_MSG_TYPE_PUBREC_def MQTT_MSG_TYPE_PUBREL_def MQTT_MSG_TYPE_PUBCOMP_def
  MQTT_MSG_TYPE_SUBSCRIBE_def MQTT_MSG_TYPE_SUBACK_def MQTT_MSG_TYPE_UNSUBSCRIBE_def
  MQTT_MSG_TYPE_UNSUBACK_def MQTT_MSG_TYPE_PINGREQ_def MQTT_MSG_TYPE_PINGRESP_def
  MQTT_MSG_TYPE_DISCONNECT_def

section \<open>Building a message\<close>

definition put_byte :: "u8 \<Rightarrow> mqtt_connection \<Rightarrow> mqtt_connection" where
  "put_byte b c = c\<lparr>cn_buffer := mcpy (cn_buffer c) (msg_length c) [b], msg_length := msg_length c + 1\<rparr>"

definition put_bytes :: "u8 list \<Rightarrow> mqtt_connection \<Rightarrow> mqtt_connection" where
  "put_bytes bs c = c\<lparr>cn_buffer := mcpy (cn_buffer c) (msg_length c) bs,
                      msg_length := msg_length c + length bs\<rparr>"

definition append_string :: "u8 list \<Rightarrow> mqtt_connection \<Rightarrow> mqtt_connection option" where
  "append_string str c =
    (if (msg_length c + length str + 2) mod 2 ^ 32 > cn_buffer_length c then None
     else Some (put_bytes str (put_byte (of_nat (length str mod 256))
                 (put_byte (of_nat (length str div 256)) c))))"

fun platform_random_nonzero :: "u32 list \<Rightarrow> (nat \<times> u32 list) option" where
  "platform_random_nonzero [] = None"
| "platform_random_nonzero (r # rs) =
     (if unat r mod 65535 = 0 then platform_random_nonzero rs else Some (unat r mod 65535, rs))"

text \<open>The identifier that was appended, or \<open>0\<close> when there is no room.\<close>

definition append_message_id ::
    "u32 list \<Rightarrow> nat \<Rightarrow> mqtt_connection \<Rightarrow> (nat \<times> u32 list \<times> mqtt_connection) option" where
  "append_message_id rs message_id c =
    (case (if message_id = 0 then platform_random_nonzero rs else Some (message_id, rs)) of
       None \<Rightarrow> None
     | Some (mid, rs') \<Rightarrow>
         if (msg_length c + 2) mod 2 ^ 32 > cn_buffer_length c then Some (0, rs', c)
         else Some (mid, rs', put_byte (of_nat (mid mod 256)) (put_byte (of_nat (mid div 256)) c)))"

definition init_message :: "mqtt_connection \<Rightarrow> mqtt_connection" where
  "init_message c = c\<lparr>msg_length := MQTT_MAX_FIXED_HEADER_SIZE\<rparr>"

definition fail_message :: "mqtt_connection \<Rightarrow> mqtt_connection" where
  "fail_message c = c\<lparr>msg_data := 0, msg_length := 0\<rparr>"

definition fixed_header :: "u8 \<Rightarrow> int \<Rightarrow> int \<Rightarrow> int \<Rightarrow> u8" where
  "fixed_header typ dup qos retain =
     push_bit 4 (typ AND 0x0f) OR push_bit 3 (of_int dup AND 1)
       OR push_bit 1 (of_int qos AND 3) OR (of_int retain AND 1)"

definition fini_message :: "u8 \<Rightarrow> int \<Rightarrow> int \<Rightarrow> int \<Rightarrow> mqtt_connection \<Rightarrow> mqtt_connection" where
  "fini_message typ dup qos retain c =
    (let remaining_length = int (msg_length c) - int MQTT_MAX_FIXED_HEADER_SIZE in
     if remaining_length > 127
     then c\<lparr>cn_buffer := mcpy (cn_buffer c) 0
               [fixed_header typ dup qos retain,
                0x80 OR of_int (remaining_length mod 128),
                of_int (remaining_length div 128)],
            msg_length := nat (remaining_length + 3), msg_data := 0\<rparr>
     else c\<lparr>cn_buffer := mcpy (cn_buffer c) 1
               [fixed_header typ dup qos retain, of_int remaining_length],
            msg_length := nat (remaining_length + 2), msg_data := 1\<rparr>)"

definition mqtt_msg_init :: "memory \<Rightarrow> nat \<Rightarrow> mqtt_connection" where
  "mqtt_msg_init buffer buffer_length =
     \<lparr>msg_data = 0, msg_length = 0, cn_buffer = buffer, cn_buffer_length = buffer_length mod 65536\<rparr>"

text \<open>A string argument that is \<open>NULL\<close> or empty.\<close>

definition no_string :: "u8 list option \<Rightarrow> bool" where
  "no_string s \<longleftrightarrow> s = None \<or> s = Some []"

definition mqtt_msg_publish ::
    "u32 list \<Rightarrow> u8 list option \<Rightarrow> u8 list \<Rightarrow> int \<Rightarrow> int \<Rightarrow> mqtt_connection
       \<Rightarrow> (nat \<times> u32 list \<times> mqtt_connection) option" where
  "mqtt_msg_publish rs topic data qos retain c =
    (let c0 = init_message c in
     if no_string topic then Some (0, rs, fail_message c0)
     else case append_string (the topic) c0 of
       None \<Rightarrow> Some (0, rs, fail_message c0)
     | Some c1 \<Rightarrow>
         (case (if qos > 0 then append_message_id rs 0 c1 else Some (0, rs, c1)) of
            None \<Rightarrow> None
          | Some (mid, rs', c2) \<Rightarrow>
              if qos > 0 \<and> mid = 0 then Some (0, rs', fail_message c2)
              else if (msg_length c2 + length data) mod 2 ^ 32 > cn_buffer_length c2
              then Some (mid, rs', fail_message c2)
              else Some (mid, rs', fini_message MQTT_MSG_TYPE_PUBLISH 0 qos retain (put_bytes data c2))))"

text \<open>The four acknowledgements differ in type and quality of service only.\<close>

definition ack_message ::
    "u8 \<Rightarrow> int \<Rightarrow> u32 list \<Rightarrow> nat \<Rightarrow> mqtt_connection \<Rightarrow> (u32 list \<times> mqtt_connection) option" where
  "ack_message typ qos rs message_id c =
    (case append_message_id rs message_id (init_message c) of
       None \<Rightarrow> None
     | Some (mid, rs', c1) \<Rightarrow>
         if mid = 0 then Some (rs', fail_message c1) else Some (rs', fini_message typ 0 qos 0 c1))"

definition mqtt_msg_puback :: "u32 list \<Rightarrow> nat \<Rightarrow> mqtt_connection \<Rightarrow> (u32 list \<times> mqtt_connection) option" where
  "mqtt_msg_puback = ack_message MQTT_MSG_TYPE_PUBACK 0"

definition mqtt_msg_pubrec :: "u32 list \<Rightarrow> nat \<Rightarrow> mqtt_connection \<Rightarrow> (u32 list \<times> mqtt_connection) option" where
  "mqtt_msg_pubrec = ack_message MQTT_MSG_TYPE_PUBREC 0"

definition mqtt_msg_pubrel :: "u32 list \<Rightarrow> nat \<Rightarrow> mqtt_connection \<Rightarrow> (u32 list \<times> mqtt_connection) option" where
  "mqtt_msg_pubrel = ack_message MQTT_MSG_TYPE_PUBREL 1"

definition mqtt_msg_pubcomp :: "u32 list \<Rightarrow> nat \<Rightarrow> mqtt_connection \<Rightarrow> (u32 list \<times> mqtt_connection) option" where
  "mqtt_msg_pubcomp = ack_message MQTT_MSG_TYPE_PUBCOMP 0"

definition mqtt_msg_subscribe ::
    "u32 list \<Rightarrow> u8 list option \<Rightarrow> int \<Rightarrow> mqtt_connection \<Rightarrow> (nat \<times> u32 list \<times> mqtt_connection) option" where
  "mqtt_msg_subscribe rs topic qos c =
    (let c0 = init_message c in
     if no_string topic then Some (0, rs, fail_message c0)
     else case append_message_id rs 0 c0 of
       None \<Rightarrow> None
     | Some (mid, rs', c1) \<Rightarrow>
         if mid = 0 then Some (0, rs', fail_message c1)
         else (case append_string (the topic) c1 of
             None \<Rightarrow> Some (mid, rs', fail_message c1)
           | Some c2 \<Rightarrow>
               if (msg_length c2 + 1) mod 2 ^ 32 > cn_buffer_length c2 then Some (mid, rs', fail_message c2)
               else Some (mid, rs', fini_message MQTT_MSG_TYPE_SUBSCRIBE 0 1 0 (put_byte (of_int qos) c2))))"

definition mqtt_msg_unsubscribe ::
    "u32 list \<Rightarrow> u8 list option \<Rightarrow> mqtt_connection \<Rightarrow> (nat \<times> u32 list \<times> mqtt_connection) option" where
  "mqtt_msg_unsubscribe rs topic c =
    (let c0 = init_message c in
     if no_string topic then Some (0, rs, fail_message c0)
     else case append_message_id rs 0 c0 of
       None \<Rightarrow> None
     | Some (mid, rs', c1) \<Rightarrow>
         if mid = 0 then Some (0, rs', fail_message c1)
         else (case append_string (the topic) c1 of
             None \<Rightarrow> Some (mid, rs', fail_message c1)
           | Some c2 \<Rightarrow> Some (mid, rs', fini_message MQTT_MSG_TYPE_UNSUBSCRIBE 0 1 0 c2)))"

definition mqtt_msg_pingreq :: "mqtt_connection \<Rightarrow> mqtt_connection" where
  "mqtt_msg_pingreq c = fini_message MQTT_MSG_TYPE_PINGREQ 0 0 0 (init_message c)"

definition mqtt_msg_pingresp :: "mqtt_connection \<Rightarrow> mqtt_connection" where
  "mqtt_msg_pingresp c = fini_message MQTT_MSG_TYPE_PINGRESP 0 0 0 (init_message c)"

definition mqtt_msg_disconnect :: "mqtt_connection \<Rightarrow> mqtt_connection" where
  "mqtt_msg_disconnect c = fini_message MQTT_MSG_TYPE_DISCONNECT 0 0 0 (init_message c)"

section \<open>The CONNECT message\<close>

text \<open>The 10 bytes of the packed \<open>struct mqtt_connect_variable_header\<close>, which start at offset 3: the
  protocol name's length (3, 4), \<open>magic[4]\<close> (5 to 8), \<open>version\<close> (9), \<open>flags\<close> (10) and the keepalive time
  (11, 12).  The size of \<open>magic\<close> depends on \<open>MQTT_PROTOCOL_311\<close>, which \<open>mqtt_config.h\<close> always defines,
  while the values depend on \<open>CONFIG_MQTT_PROTOCOL_311\<close>, the argument \<open>proto311\<close>; without it the
  \<open>memcpy\<close> of six characters runs over \<open>version\<close> and \<open>flags\<close>.\<close>

definition connect_header :: "bool \<Rightarrow> int \<Rightarrow> memory \<Rightarrow> memory" where
  "connect_header proto311 keep m =
    (let m1 = m(3 := 0);
         m2 = (if proto311
               then (mcpy (m1(4 := 4)) 5 [0x4d, 0x51, 0x54, 0x54])(9 := 4)
               else (mcpy (m1(4 := 6)) 5 [0x4d, 0x51, 0x49, 0x73, 0x64, 0x70])(9 := 3))
     in m2(10 := 0, 11 := of_int (keep div 256), 12 := of_int (keep mod 256)))"

definition connect_flag :: "u8 \<Rightarrow> mqtt_connection \<Rightarrow> mqtt_connection" where
  "connect_flag f c = c\<lparr>cn_buffer := (cn_buffer c)(10 := cn_buffer c 10 OR f)\<rparr>"

text \<open>The steps of the encoder: \<open>Inl\<close> is the message already failed, \<open>Inr\<close> the one still being built.\<close>

fun and_then :: "'e + 'a \<Rightarrow> ('a \<Rightarrow> 'e + 'b) \<Rightarrow> 'e + 'b" where
  "and_then (Inl e) f = Inl e"
| "and_then (Inr x) f = f x"

definition connect_string :: "u8 list \<Rightarrow> mqtt_connection \<Rightarrow> mqtt_connection + mqtt_connection" where
  "connect_string str c =
     (case append_string str c of None \<Rightarrow> Inl (fail_message c) | Some c' \<Rightarrow> Inr c')"

definition connect_will :: "mqtt_connect_info \<Rightarrow> mqtt_connection \<Rightarrow> mqtt_connection + mqtt_connection" where
  "connect_will info c =
    (if no_string (will_topic info) then Inr c
     else and_then (connect_string (the (will_topic info)) c) (\<lambda>c1.
          and_then (connect_string (will_message info) c1) (\<lambda>c2.
          let c3 = connect_flag 0x04 c2;
              c4 = (if will_retain info \<noteq> 0 then connect_flag 0x20 c3 else c3)
          in Inr (connect_flag (push_bit 3 (of_int (will_qos info) AND 3)) c4))))"

definition connect_optional ::
    "u8 list option \<Rightarrow> u8 \<Rightarrow> mqtt_connection \<Rightarrow> mqtt_connection + mqtt_connection" where
  "connect_optional str f c =
    (if no_string str then Inr c
     else and_then (connect_string (the str) c) (\<lambda>c1. Inr (connect_flag f c1)))"

definition mqtt_msg_connect :: "bool \<Rightarrow> mqtt_connect_info \<Rightarrow> mqtt_connection \<Rightarrow> mqtt_connection" where
  "mqtt_msg_connect proto311 info c =
    (let c0 = init_message c in
     if (msg_length c0 + 10) mod 2 ^ 32 > cn_buffer_length c0 then fail_message c0
     else let c1 = c0\<lparr>msg_length := msg_length c0 + 10,
                       cn_buffer := connect_header proto311 (keepalive info) (cn_buffer c0)\<rparr>;
              c2 = (if clean_session info \<noteq> 0 then connect_flag 0x02 c1 else c1)
          in case and_then (if no_string (client_id info) then Inl (fail_message c2)
                             else connect_string (the (client_id info)) c2) (\<lambda>c3.
                   and_then (connect_will info c3) (\<lambda>c4.
                   and_then (connect_optional (username info) 0x80 c4) (\<lambda>c5.
                   connect_optional (password info) 0x40 c5))) of
               Inl failed \<Rightarrow> failed
             | Inr c6 \<Rightarrow> fini_message MQTT_MSG_TYPE_CONNECT 0 0 0 c6)"

section \<open>Reading a message\<close>

text \<open>A pointer into a memory, and the bytes of the message of a connection.\<close>

definition ptr :: "memory \<Rightarrow> nat \<Rightarrow> memory" where
  "ptr m a = (\<lambda>i. m (a + i))"

definition msg_ptr :: "mqtt_connection \<Rightarrow> memory" where
  "msg_ptr c = ptr (cn_buffer c) (msg_data c)"

definition mqtt_get_type :: "memory \<Rightarrow> u8" where
  "mqtt_get_type b = drop_bit 4 (b 0 AND 0xf0)"

definition mqtt_get_connect_session_present :: "memory \<Rightarrow> u8" where
  "mqtt_get_connect_session_present b = b 2 AND 0x01"

definition mqtt_get_connect_return_code :: "memory \<Rightarrow> u8" where
  "mqtt_get_connect_return_code b = b 3"

definition mqtt_get_dup :: "memory \<Rightarrow> u8" where
  "mqtt_get_dup b = drop_bit 3 (b 0 AND 0x08)"

definition mqtt_get_qos :: "memory \<Rightarrow> u8" where
  "mqtt_get_qos b = drop_bit 1 (b 0 AND 0x06)"

definition mqtt_get_retain :: "memory \<Rightarrow> u8" where
  "mqtt_get_retain b = b 0 AND 0x01"

text \<open>The loop over the remaining length, from index \<open>i\<close> with the sum \<open>totlen\<close> so far.  The C code
  shifts by \<open>7 * (i - 1)\<close> whatever the number of continuation bytes; a shift of a 32-bit \<open>int\<close> by 32
  or more is undefined, which is \<open>None\<close>.\<close>

function remaining_loop :: "memory \<Rightarrow> nat \<Rightarrow> nat \<Rightarrow> u32 \<Rightarrow> (u32 \<times> nat) option" where
  "remaining_loop b len i totlen =
    (if i < len
     then if 7 * (i - 1) \<ge> 32 then None
          else let t = totlen + push_bit (7 * (i - 1)) (ucast (b i AND 0x7f))
               in if b i AND 0x80 = 0 then Some (t, i + 1) else remaining_loop b len (i + 1) t
     else Some (totlen, i))"
  by pat_completeness auto
termination by (relation "measure (\<lambda>(b, len, i, t). len - i)") auto

declare remaining_loop.simps [simp del]

definition mqtt_get_total_length :: "memory \<Rightarrow> nat \<Rightarrow> u32 option" where
  "mqtt_get_total_length b len =
     map_option (\<lambda>(t, i). t + of_nat i) (remaining_loop b (len mod 65536) 1 0)"

definition be16 :: "memory \<Rightarrow> nat \<Rightarrow> nat" where
  "be16 b i = 256 * unat (b i) + unat (b (i + 1))"

text \<open>The pointer that is returned, as an offset (\<open>None\<close> is \<open>NULL\<close>), and the value left in \<open>*length\<close>.\<close>

definition mqtt_get_publish_topic :: "memory \<Rightarrow> nat \<Rightarrow> (nat option \<times> nat) option" where
  "mqtt_get_publish_topic b len =
    (case remaining_loop b len 1 0 of
       None \<Rightarrow> None
     | Some (t, i) \<Rightarrow>
         if i + 2 \<ge> len then Some (None, len)
         else let topiclen = be16 b i in
              if i + 2 + topiclen > len then Some (None, len) else Some (Some (i + 2), topiclen))"

definition mqtt_get_publish_data :: "memory \<Rightarrow> nat \<Rightarrow> (nat option \<times> nat) option" where
  "mqtt_get_publish_data b blength =
    (case remaining_loop b blength 1 0 of
       None \<Rightarrow> None
     | Some (t, i) \<Rightarrow>
         let totlen = sint (t + of_nat i) in
         if i + 2 \<ge> blength then Some (None, 0)
         else let i1 = i + 2 + be16 b i in
              if i1 \<ge> blength then Some (None, 0)
              else if mqtt_get_qos b > 0 \<and> i1 + 2 \<ge> blength then Some (None, 0)
              else let i2 = (if mqtt_get_qos b > 0 then i1 + 2 else i1) in
                   if totlen < int i2 then Some (None, 0)
                   else if totlen \<le> int blength then Some (Some i2, nat (totlen - int i2))
                   else Some (Some i2, blength - i2))"

function id_loop :: "memory \<Rightarrow> nat \<Rightarrow> nat \<Rightarrow> nat" where
  "id_loop b len i =
    (if i < len then if b i AND 0x80 = 0 then i + 1 else id_loop b len (i + 1) else i)"
  by pat_completeness auto
termination by (relation "measure (\<lambda>(b, len, i). len - i)") auto

declare id_loop.simps [simp del]

definition mqtt_get_id :: "memory \<Rightarrow> nat \<Rightarrow> nat" where
  "mqtt_get_id b len0 =
    (let len = len0 mod 65536; typ = mqtt_get_type b in
     if len < 1 then 0
     else if typ = MQTT_MSG_TYPE_PUBLISH
     then let i = id_loop b len 1 in
          if i + 2 \<ge> len then 0
          else let i1 = i + 2 + be16 b i in
               if i1 \<ge> len then 0
               else if mqtt_get_qos b > 0 then if i1 + 2 \<ge> len then 0 else be16 b i1
               else 0
     else if typ \<in> {MQTT_MSG_TYPE_PUBACK, MQTT_MSG_TYPE_PUBREC, MQTT_MSG_TYPE_PUBREL, MQTT_MSG_TYPE_PUBCOMP,
                    MQTT_MSG_TYPE_SUBACK, MQTT_MSG_TYPE_UNSUBACK, MQTT_MSG_TYPE_SUBSCRIBE}
     then if len \<ge> 4 \<and> b 1 AND 0x80 = 0 then be16 b 2 else 0
     else 0)"

end
