(* ===== verification/MqttCodec.thy ===== *)
theory MqttCodec
  imports MqttMsg
begin

text \<open>
  What the encoder and the parsers of \<open>mqtt_msg.c\<close> promise each other.  \<open>msg_bytes\<close> is the message of
  a connection as a list; \<open>wire\<close> is the reference encoding of a control packet (fixed header,
  remaining length, body), and each encoder is shown to produce it, or the failed message, from the
  equations of \<open>body\<close> over the steps that append.  The parsers are then read off the reference
  encoding.
\<close>

section \<open>The message as a list of bytes\<close>

definition body :: "mqtt_connection \<Rightarrow> u8 list" where
  "body c = mget (cn_buffer c) 3 (msg_length c - 3)"

definition msg_bytes :: "mqtt_connection \<Rightarrow> u8 list" where
  "msg_bytes c = mget (cn_buffer c) (msg_data c) (msg_length c)"

text \<open>The remaining length as the encoder writes it, which for less than 16384 is the variable length
  integer of the MQTT standard.\<close>

definition remaining_bytes :: "nat \<Rightarrow> u8 list" where
  "remaining_bytes n =
     (if n > 127 then [0x80 OR of_nat (n mod 128), of_nat (n div 128)] else [of_nat n])"

definition wire :: "u8 \<Rightarrow> int \<Rightarrow> int \<Rightarrow> u8 list \<Rightarrow> u8 list" where
  "wire typ qos retain bs = fixed_header typ 0 qos retain # remaining_bytes (length bs) @ bs"

definition mstr :: "u8 list \<Rightarrow> u8 list" where
  "mstr s = [of_nat (length s div 256), of_nat (length s mod 256)] @ s"

definition mid_bytes :: "nat \<Rightarrow> u8 list" where
  "mid_bytes i = [of_nat (i div 256), of_nat (i mod 256)]"

lemma put_byte_bytes: "put_byte b = put_bytes [b]"
  by (simp add: fun_eq_iff put_byte_def put_bytes_def)

lemma put_bytes_append: "put_bytes bs (put_bytes as c) = put_bytes (as @ bs) c"
  by (simp add: put_bytes_def mcpy_append add.assoc)

lemma put_bytes_sel [simp]:
  "msg_length (put_bytes bs c) = msg_length c + length bs"
  "cn_buffer_length (put_bytes bs c) = cn_buffer_length c"
  "msg_data (put_bytes bs c) = msg_data c"
  by (simp_all add: put_bytes_def)

lemma init_sel [simp]:
  "msg_length (init_message c) = 3" "cn_buffer_length (init_message c) = cn_buffer_length c"
  "cn_buffer (init_message c) = cn_buffer c" "body (init_message c) = []"
  by (simp_all add: init_message_def MQTT_MAX_FIXED_HEADER_SIZE_def body_def)

lemma fail_sel [simp]:
  "msg_length (fail_message c) = 0" "msg_bytes (fail_message c) = []"
  "cn_buffer (fail_message c) = cn_buffer c" "cn_buffer_length (fail_message c) = cn_buffer_length c"
  by (simp_all add: fail_message_def msg_bytes_def)

lemma mget_prefix: "mget (mcpy m a bs) a (length bs + n) = bs @ mget m (a + length bs) n"
  by (simp only: mget_add) (simp add: mem_simps)

lemma mget_suffix: "a + n = b \<Longrightarrow> mget (mcpy m b bs) a (n + length bs) = mget m a n @ bs"
  by (simp only: mget_add) (simp add: mem_simps)

lemma body_put_bytes [simp]: "3 \<le> msg_length c \<Longrightarrow> body (put_bytes bs c) = body c @ bs"
  using mget_suffix [of 3 "msg_length c - 3" "msg_length c" "cn_buffer c" bs]
  by (simp add: body_def put_bytes_def)

lemma length_body: "length (body c) = msg_length c - 3"
  by (simp add: body_def)

lemma append_string_eq:
  "append_string s c =
    (if (msg_length c + length s + 2) mod 2 ^ 32 > cn_buffer_length c then None
     else Some (put_bytes (mstr s) c))"
  by (simp add: append_string_def put_byte_bytes put_bytes_append mstr_def)

lemma length_mstr [simp]: "length (mstr s) = length s + 2"
  by (simp add: mstr_def)

lemma length_mid_bytes [simp]: "length (mid_bytes i) = 2"
  by (simp add: mid_bytes_def)

lemma append_message_id_eq:
  "append_message_id rs i c =
    (case (if i = 0 then platform_random_nonzero rs else Some (i, rs)) of
       None \<Rightarrow> None
     | Some (mid, rs') \<Rightarrow>
         if (msg_length c + 2) mod 2 ^ 32 > cn_buffer_length c then Some (0, rs', c)
         else Some (mid, rs', put_bytes (mid_bytes mid) c))"
  by (simp add: append_message_id_def put_byte_bytes put_bytes_append mid_bytes_def
      split: option.splits)

lemma fini_bytes:
  assumes "3 \<le> msg_length c"
  shows "msg_bytes (fini_message typ 0 qos retain c) = wire typ qos retain (body c)"
proof -
  obtain n where L: "msg_length c = 3 + n" using assms le_Suc_ex by blast
  then have n: "int (msg_length c) - int MQTT_MAX_FIXED_HEADER_SIZE = int n"
    by (simp add: MQTT_MAX_FIXED_HEADER_SIZE_def)
  have w: "(of_int (int n mod 128) :: u8) = of_nat (n mod 128)"
    "(of_int (int n div 128) :: u8) = of_nat (n div 128)"
    by (metis of_int_of_nat_eq of_nat_mod of_nat_numeral)
      (metis of_int_of_nat_eq of_nat_div of_nat_numeral)
  have s: "nat (int n + 3) = 3 + n" "nat (int n + 2) = 2 + n" by linarith+
  show ?thesis
    using mget_prefix [of "cn_buffer c" 0 "[fixed_header typ 0 qos retain,
        0x80 OR of_nat (n mod 128), of_nat (n div 128)]" n]
      mget_prefix [of "cn_buffer c" 1 "[fixed_header typ 0 qos retain, of_nat n]" n]
    unfolding fini_message_def n Let_def w s
    by (simp add: msg_bytes_def body_def wire_def remaining_bytes_def L numeral_3_eq_3 numeral_2_eq_2)
qed

section \<open>Reading the reference encoding\<close>

lemma mget_split:
  "mget b i (m + n) = as @ bs \<Longrightarrow> length as = m \<Longrightarrow> mget b i m = as \<and> mget b (i + m) n = bs"
  by (simp add: mget_add)

lemma be16_bytes:
  assumes "mget b i 2 = [of_nat (x div 256), of_nat (x mod 256)]" "x < 65536"
  shows "be16 b i = x"
proof -
  have b: "b i = of_nat (x div 256)" "b (Suc i) = of_nat (x mod 256)"
    using assms(1) by (simp_all add: mget_Suc numeral_2_eq_2)
  have "x div 256 < 256" using assms(2) by linarith
  then show ?thesis by (simp add: be16_def b unat_of_nat)
qed

lemma low7:
  assumes "x < 128"
  shows "(of_nat x :: u8) AND 0x80 = 0" "(of_nat x :: u8) AND 0x7f = of_nat x"
    "(0x80 OR of_nat x :: u8) AND 0x80 = 0x80" "(0x80 OR of_nat x :: u8) AND 0x7f = of_nat x"
proof -
  have "list_all (\<lambda>x. (of_nat x :: u8) AND 0x80 = 0 \<and> (of_nat x :: u8) AND 0x7f = of_nat x
      \<and> (0x80 OR of_nat x :: u8) AND 0x80 = 0x80 \<and> (0x80 OR of_nat x :: u8) AND 0x7f = of_nat x)
      [0..<128]" by code_simp
  then show "(of_nat x :: u8) AND 0x80 = 0" "(of_nat x :: u8) AND 0x7f = of_nat x"
    "(0x80 OR of_nat x :: u8) AND 0x80 = 0x80" "(0x80 OR of_nat x :: u8) AND 0x7f = of_nat x"
    using assms by (simp_all add: list_all_iff)
qed

lemma ucast_of_nat8: "x < 256 \<Longrightarrow> (ucast (of_nat x :: u8) :: u32) = of_nat x"
  by (simp add: unsigned_of_nat take_bit_nat_eq_self)

lemma push7_of_nat: "push_bit 7 (of_nat x :: u32) = of_nat (128 * x)"
  by (simp add: push_bit_eq_mult)

text \<open>The remaining length of less than 16384 is read back, and the index is that of the body.\<close>

lemma remaining_loop_ok:
  assumes g: "mget b 1 (length (remaining_bytes r)) = remaining_bytes r"
    and r: "r < 16384" and l: "length (remaining_bytes r) < len"
  shows "remaining_loop b len 1 0 = Some (of_nat r, Suc (length (remaining_bytes r)))"
proof (cases "r > 127")
  case True
  have b: "b (Suc 0) = 0x80 OR of_nat (r mod 128)" "b (Suc (Suc 0)) = of_nat (r div 128)"
    using g True by (simp_all add: remaining_bytes_def mget_Suc)
  have m: "r div 128 < 128" "r mod 128 < 128" using r by (simp_all add: less_mult_imp_div_less)
  then have "(of_nat (r mod 128) + of_nat (128 * (r div 128)) :: u32) = of_nat r"
    by (metis of_nat_add mod_mult_div_eq)
  moreover have "(ucast (of_nat (r mod 128) :: u8) :: u32) = of_nat (r mod 128)"
    "push_bit 7 (ucast (of_nat (r div 128) :: u8) :: u32) = of_nat (128 * (r div 128))"
    using m by (simp_all add: ucast_of_nat8 push7_of_nat)
  ultimately show ?thesis
    using True l m low7 [OF m(1)] low7 [OF m(2)]
    by (simp add: remaining_loop.simps [of b len] b remaining_bytes_def Let_def)
next
  case False
  then have b: "b (Suc 0) = of_nat r" and m: "r < 128"
    using g by (simp_all add: remaining_bytes_def mget_Suc)
  then show ?thesis
    using False l low7 [OF m] ucast_of_nat8 [of r]
    by (simp add: remaining_loop.simps [of b len] remaining_bytes_def Let_def)
qed

lemma id_loop_ok:
  assumes g: "mget b 1 (length (remaining_bytes r)) = remaining_bytes r"
    and r: "r < 16384" and l: "length (remaining_bytes r) < len"
  shows "id_loop b len 1 = Suc (length (remaining_bytes r))"
proof (cases "r > 127")
  case True
  have b: "b (Suc 0) = 0x80 OR of_nat (r mod 128)" "b (Suc (Suc 0)) = of_nat (r div 128)"
    using g True by (simp_all add: remaining_bytes_def mget_Suc)
  have m: "r div 128 < 128" "r mod 128 < 128" using r by (simp_all add: less_mult_imp_div_less)
  then show ?thesis
    using True l low7 [OF m(1)] low7 [OF m(2)]
    by (simp add: id_loop.simps [of b len] b remaining_bytes_def)
next
  case False
  then have b: "b (Suc 0) = of_nat r" and m: "r < 128"
    using g by (simp_all add: remaining_bytes_def mget_Suc)
  then show ?thesis
    using False l low7 [OF m] by (simp add: id_loop.simps [of b len] remaining_bytes_def)
qed

text \<open>A message that starts with the reference encoding of \<open>bs\<close>.\<close>

lemma mget_ptr [simp]: "mget (ptr m a) i n = mget m (a + i) n"
  by (simp add: mget_eq_iff ptr_def add.assoc)

lemma mget_msg_ptr: "mget (msg_ptr c) 0 (msg_length c) = msg_bytes c"
  by (simp add: msg_ptr_def msg_bytes_def)

lemma length_wire: "length (wire typ qos retain bs) = Suc (length (remaining_bytes (length bs)) + length bs)"
  by (simp add: wire_def)

lemma length_remaining: "0 < length (remaining_bytes r)" "length (remaining_bytes r) \<le> 2"
  by (simp_all add: remaining_bytes_def)

lemma wire_parts:
  assumes "mget b 0 n = wire typ qos retain bs"
  shows "b 0 = fixed_header typ 0 qos retain"
    and "mget b 1 (length (remaining_bytes (length bs))) = remaining_bytes (length bs)"
    and "mget b (Suc (length (remaining_bytes (length bs)))) (length bs) = bs"
    and "n = Suc (length (remaining_bytes (length bs))) + length bs"
proof -
  let ?k = "length (remaining_bytes (length bs))"
  have n: "n = Suc (?k + length bs)"
    using arg_cong [OF assms, of length] by (simp add: length_wire)
  then have "mget b 0 (Suc (?k + length bs))
      = fixed_header typ 0 qos retain # remaining_bytes (length bs) @ bs"
    using assms by (simp add: wire_def)
  then have h: "b 0 = fixed_header typ 0 qos retain"
    and t: "mget b 1 (?k + length bs) = remaining_bytes (length bs) @ bs"
    by (simp_all add: mget_Suc)
  show "b 0 = fixed_header typ 0 qos retain" by (rule h)
  show "mget b 1 ?k = remaining_bytes (length bs)" "mget b (Suc ?k) (length bs) = bs"
    using mget_split [OF t refl] by simp_all
  show "n = Suc ?k + length bs" using n by simp
qed

lemma list_all3:
  "list_all (\<lambda>x. list_all (\<lambda>y. list_all (P x y) zs) ys) xs \<Longrightarrow> x \<in> set xs \<Longrightarrow> y \<in> set ys
    \<Longrightarrow> z \<in> set zs \<Longrightarrow> P x y z"
  by (simp add: list_all_iff)

lemma header_fields:
  assumes "b 0 = fixed_header typ 0 qos retain" "typ \<in> set (map of_nat [0..<16])"
    "qos \<in> {0, 1, 2}" "retain \<in> {0, 1}"
  shows "mqtt_get_type b = typ" "mqtt_get_qos b = of_int qos"
    "mqtt_get_retain b = of_int retain" "mqtt_get_dup b = 0"
proof -
  have "list_all (\<lambda>typ. list_all (\<lambda>qos. list_all (\<lambda>retain.
      drop_bit 4 (fixed_header typ 0 qos retain AND 0xf0) = typ
      \<and> drop_bit 1 (fixed_header typ 0 qos retain AND 0x06) = of_int qos
      \<and> fixed_header typ 0 qos retain AND 0x01 = of_int retain
      \<and> drop_bit 3 (fixed_header typ 0 qos retain AND 0x08) = 0)
        [0, 1]) [0, 1, 2]) (map of_nat [0..<16])"
    by code_simp
  note all = list_all3 [OF this assms(2), of qos retain]
  have "qos \<in> set [0, 1, 2]" "retain \<in> set [0, 1]" using assms by simp_all
  from all [OF this] show "mqtt_get_type b = typ" "mqtt_get_qos b = of_int qos"
    "mqtt_get_retain b = of_int retain" "mqtt_get_dup b = 0"
    unfolding mqtt_get_type_def mqtt_get_qos_def mqtt_get_retain_def mqtt_get_dup_def assms(1)
    by blast+
qed

lemma total_length_wire:
  assumes g: "mget b 0 n = wire typ qos retain bs" and r: "length bs < 16384" and n: "n < 65536"
    and bs: "bs \<noteq> []"
  shows "mqtt_get_total_length b n = Some (of_nat n)"
proof -
  note p = wire_parts [OF g]
  have "length (remaining_bytes (length bs)) < n" using p(4) by linarith
  from remaining_loop_ok [OF p(2) r this] show ?thesis
    using n p(4) by (simp add: mqtt_get_total_length_def)
qed

text \<open>A body that starts with a string, \<open>?h\<close> being where the body starts.\<close>

lemma string_wire:
  assumes g: "mget b 0 n = wire typ qos retain (mstr t @ rest)"
    and r: "length (mstr t @ rest) < 16384"
  shows "be16 b (Suc (length (remaining_bytes (length (mstr t @ rest))))) = length t"
    and "mget b (Suc (length (remaining_bytes (length (mstr t @ rest)))) + 2) (length t) = t"
    and "mget b (Suc (length (remaining_bytes (length (mstr t @ rest)))) + 2 + length t) (length rest) = rest"
proof -
  let ?h = "Suc (length (remaining_bytes (length (mstr t @ rest))))"
  have "mget b ?h (2 + (length t + length rest))
      = [of_nat (length t div 256), of_nat (length t mod 256)] @ (t @ rest)"
    using wire_parts(3) [OF g] by (simp add: mstr_def)
  from mget_split [OF this] have h: "mget b ?h 2 = [of_nat (length t div 256), of_nat (length t mod 256)]"
    and tr: "mget b (?h + 2) (length t + length rest) = t @ rest" by auto
  show "be16 b ?h = length t" using be16_bytes [OF h] r by simp
  show "mget b (?h + 2) (length t) = t" "mget b (?h + 2 + length t) (length rest) = rest"
    using mget_split [OF tr refl] by auto
qed

lemma topic_wire:
  assumes g: "mget b 0 n = wire typ qos retain (mstr t @ rest)"
    and r: "length (mstr t @ rest) < 16384" and t: "t \<noteq> []"
  shows "\<exists>p. mqtt_get_publish_topic b n = Some (Some p, length t) \<and> mget b p (length t) = t"
proof -
  let ?h = "Suc (length (remaining_bytes (length (mstr t @ rest))))"
  note p = wire_parts [OF g]
  note st = string_wire [OF g r]
  have l: "length (remaining_bytes (length (mstr t @ rest))) < n" using p(4) by linarith
  note loop = remaining_loop_ok [OF p(2) r l]
  have n: "n = ?h + 2 + length t + length rest" using p(4) by simp
  have "\<not> n \<le> ?h + 2" "\<not> n < ?h + 2 + length t" using n t by auto
  then have "mqtt_get_publish_topic b n = Some (Some (?h + 2), length t)"
    using st(1) unfolding mqtt_get_publish_topic_def loop by (simp add: Let_def)
  then show ?thesis using st(2) by blast
qed

lemma data_wire:
  assumes g: "mget b 0 n = wire typ qos retain (mstr t @ ids @ data)"
    and q: "typ \<in> set (map of_nat [0..<16])" "qos \<in> {0, 1, 2}" "retain \<in> {0, 1}"
    and ids: "ids = (if qos > 0 then mid_bytes mid else [])" "mid < 65536"
    and r: "length (mstr t @ ids @ data) < 16384" and t: "data \<noteq> []"
  shows "\<exists>p. mqtt_get_publish_data b n = Some (Some p, length data) \<and> mget b p (length data) = data"
    and "typ = MQTT_MSG_TYPE_PUBLISH \<Longrightarrow> mqtt_get_id b n = (if qos > 0 then mid else 0)"
proof -
  let ?h = "Suc (length (remaining_bytes (length (mstr t @ ids @ data))))"
  let ?i = "?h + 2 + length t"
  note p = wire_parts [OF g]
  note f = header_fields [of b _ qos retain, OF p(1) q]
  have l: "length (remaining_bytes (length (mstr t @ ids @ data))) < n" using p(4) by linarith
  note loop = remaining_loop_ok [OF p(2) r l]
  have n: "n = ?i + length ids + length data" using p(4) by simp
  have n16: "n < 20000" using n length_remaining(2) [of "length (mstr t @ ids @ data)"] r by simp
  note be = string_wire(1) [OF g r]
  have rest: "mget b ?i (length ids + length data) = ids @ data"
    using string_wire(3) [OF g r] by simp
  have dat: "mget b (?i + length ids) (length data) = data" using mget_split [OF rest refl] by simp
  have qos: "0 < mqtt_get_qos b \<longleftrightarrow> qos > 0" using q(2) f(2) by auto
  have tot: "sint (of_nat (length (mstr t @ ids @ data)) + of_nat ?h :: u32) = int n"
  proof -
    have "(of_nat (length (mstr t @ ids @ data)) + of_nat ?h :: u32) = of_nat n"
      using n by simp
    then show ?thesis using n16 by (simp add: signed_of_nat signed_take_bit_int_eq_self)
  qed
  have len: "length ids = (if qos > 0 then 2 else 0)" using ids by simp
  have c: "\<not> n \<le> ?h + 2" "\<not> n \<le> ?i" "qos > 0 \<Longrightarrow> \<not> n \<le> ?i + 2"
    "\<not> int n < int (?i + length ids)" "nat (int n - int (?i + length ids)) = length data"
    using n t len by auto
  have "mqtt_get_publish_data b n = Some (Some (?i + length ids), length data)"
    using c unfolding mqtt_get_publish_data_def loop option.case prod.case tot Let_def be qos len
    by auto
  then show "\<exists>p. mqtt_get_publish_data b n = Some (Some p, length data) \<and> mget b p (length data) = data"
    using dat by blast
  assume pub: "typ = MQTT_MSG_TYPE_PUBLISH"
  have id: "be16 b ?i = mid" if "qos > 0"
  proof -
    have "mget b ?i 2 = [of_nat (mid div 256), of_nat (mid mod 256)]"
    proof -
      have i: "ids = mid_bytes mid" using that ids by simp
      show ?thesis
        using conjunct1 [OF mget_split [OF rest refl]] unfolding i length_mid_bytes
        by (simp only: mid_bytes_def)
    qed
    then show ?thesis by (rule be16_bytes) (rule ids(2))
  qed
  have n': "n mod 65536 = n" "\<not> n < 1" using n16 n by simp_all
  note iloop = id_loop_ok [OF p(2) r l]
  show "mqtt_get_id b n = (if qos > 0 then mid else 0)"
    using c id pub unfolding mqtt_get_id_def n' Let_def f(1) iloop be qos by auto
qed

text \<open>With nothing behind the topic or the identifier, neither the data nor the identifier is found.\<close>

lemma no_data_wire:
  assumes g: "mget b 0 n = wire MQTT_MSG_TYPE_PUBLISH qos retain (mstr t @ ids)"
    and q: "qos \<in> {0, 1, 2}" "retain \<in> {0, 1}" and ty: "MQTT_MSG_TYPE_PUBLISH \<in> set (map of_nat [0..<16])"
    and ids: "length ids = (if qos > 0 then 2 else 0)" and r: "length (mstr t @ ids) < 16384"
  shows "mqtt_get_publish_data b n = Some (None, 0)" "mqtt_get_id b n = 0"
proof -
  let ?h = "Suc (length (remaining_bytes (length (mstr t @ ids))))"
  note p = wire_parts [OF g]
  note f = header_fields [of b _ qos retain, OF p(1) ty q]
  have l: "length (remaining_bytes (length (mstr t @ ids))) < n" using p(4) by linarith
  have n: "n = ?h + 2 + length t + length ids" using p(4) by simp
  have n': "n mod 65536 = n" "\<not> n < 1" using n length_remaining(2) [of "length (mstr t @ ids)"] r by simp_all
  have qos: "0 < mqtt_get_qos b \<longleftrightarrow> qos > 0" using q(1) f(2) by auto
  have c: "qos > 0 \<Longrightarrow> n \<le> ?h + 2 + length t + 2" "\<not> qos > 0 \<Longrightarrow> n \<le> ?h + 2 + length t" using n ids by simp_all
  show "mqtt_get_publish_data b n = Some (None, 0)"
    using c unfolding mqtt_get_publish_data_def remaining_loop_ok [OF p(2) r l] option.case prod.case Let_def
      string_wire(1) [OF g r] qos by auto
  show "mqtt_get_id b n = 0"
    using c unfolding mqtt_get_id_def n' Let_def f(1) id_loop_ok [OF p(2) r l] string_wire(1) [OF g r] qos by auto
qed

section \<open>The encoders produce the reference encoding\<close>

lemma platform_random_range: "platform_random_nonzero rs = Some (m, rs') \<Longrightarrow> 0 < m \<and> m < 65535"
  by (induction rs) (auto split: if_splits)

definition publish_body :: "u8 list \<Rightarrow> int \<Rightarrow> nat \<Rightarrow> u8 list \<Rightarrow> u8 list" where
  "publish_body t qos mid data = mstr t @ (if qos > 0 then mid_bytes mid else []) @ data"

lemma publish_wire:
  assumes t: "t \<noteq> []" and r: "qos > 0 \<Longrightarrow> platform_random_nonzero rs = Some (mid, rs')"
    and fit: "3 + length (publish_body t qos mid data) \<le> cn_buffer_length c"
    and len: "cn_buffer_length c < 65536"
  shows "\<exists>c'. mqtt_msg_publish rs (Some t) data qos retain c
           = Some (if qos > 0 then mid else 0, if qos > 0 then rs' else rs, c')
         \<and> msg_bytes c' = wire MQTT_MSG_TYPE_PUBLISH qos retain (publish_body t qos mid data)"
proof -
  let ?c1 = "put_bytes (mstr t) (init_message c)"
  let ?c2 = "if qos > 0 then put_bytes (mid_bytes mid) ?c1 else ?c1"
  let ?c3 = "put_bytes data ?c2"
  have l: "length t + length data + (if qos > 0 then 10 else 8) < 65539"
    and le: "3 + (length t + 2) + (if qos > 0 then 2 else 0) + length data \<le> cn_buffer_length c"
    using fit len by (simp_all add: publish_body_def split: if_splits)
  have as: "append_string t (init_message c) = Some ?c1"
    using le l by (simp add: append_string_eq split: if_splits)
  have mid: "qos > 0 \<Longrightarrow> append_message_id rs 0 ?c1 = Some (mid, rs', put_bytes (mid_bytes mid) ?c1)"
    using le l r by (simp add: append_message_id_eq)
  have pos: "qos > 0 \<Longrightarrow> mid \<noteq> 0" using r platform_random_range by fastforce
  have "mqtt_msg_publish rs (Some t) data qos retain c
      = Some (if qos > 0 then mid else 0, if qos > 0 then rs' else rs,
          fini_message MQTT_MSG_TYPE_PUBLISH 0 qos retain ?c3)"
    using t as mid pos le l
    by (cases "qos > 0") (simp_all add: mqtt_msg_publish_def no_string_def Let_def)
  moreover have "body ?c3 = publish_body t qos mid data" by (simp add: publish_body_def)
  moreover have "msg_bytes (fini_message MQTT_MSG_TYPE_PUBLISH 0 qos retain ?c3)
      = wire MQTT_MSG_TYPE_PUBLISH qos retain (body ?c3)"
    by (rule fini_bytes) simp
  ultimately show ?thesis by metis
qed

lemma type_in_range: "MQTT_MSG_TYPE_PUBLISH \<in> set (map of_nat [0..<16])"
  "MQTT_MSG_TYPE_PUBACK \<in> set (map of_nat [0..<16])" "MQTT_MSG_TYPE_PUBREC \<in> set (map of_nat [0..<16])"
  "MQTT_MSG_TYPE_PUBREL \<in> set (map of_nat [0..<16])" "MQTT_MSG_TYPE_PUBCOMP \<in> set (map of_nat [0..<16])"
  by (code_simp, code_simp, code_simp, code_simp, code_simp)

text \<open>C24: A PUBLISH message with a topic that is not empty and a remaining length below 16384, which
  \<open>mqtt_msg_publish\<close> builds in a buffer that has room for it: the parsers read back its type, quality of service, retain flag, total length
  and topic, and, when the payload is not empty, the payload and the message identifier that was drawn.  An
  empty payload is read back as no data, and then the identifier is lost: \<open>mqtt_get_id\<close> gives 0 whatever the
  quality of service.\<close>

theorem mqtt_publish_roundtrip:
  assumes "topic \<noteq> []" and "qos \<in> {0, 1, 2}" and "retain \<in> {0, 1}"
    and "qos > 0 \<Longrightarrow> platform_random_nonzero rs = Some (mid, rs')"
    and "2 + length topic + (if qos > 0 then 2 else 0) + length data < 16384"
    and "3 + (2 + length topic + (if qos > 0 then 2 else 0) + length data) \<le> cn_buffer_length c" and "cn_buffer_length c < 65536"
  shows "\<exists>c' pt. mqtt_msg_publish rs (Some topic) data qos retain c
           = Some (if qos > 0 then mid else 0, if qos > 0 then rs' else rs, c')
         \<and> mqtt_get_type (msg_ptr c') = MQTT_MSG_TYPE_PUBLISH
         \<and> mqtt_get_qos (msg_ptr c') = of_int qos
         \<and> mqtt_get_retain (msg_ptr c') = of_int retain
         \<and> mqtt_get_dup (msg_ptr c') = 0
         \<and> mqtt_get_total_length (msg_ptr c') (msg_length c') = Some (of_nat (msg_length c'))
         \<and> mqtt_get_publish_topic (msg_ptr c') (msg_length c') = Some (Some pt, length topic)
         \<and> mget (msg_ptr c') pt (length topic) = topic
         \<and> (if data = [] then mqtt_get_publish_data (msg_ptr c') (msg_length c') = Some (None, 0)
            else \<exists>pd. mqtt_get_publish_data (msg_ptr c') (msg_length c') = Some (Some pd, length data)
              \<and> mget (msg_ptr c') pd (length data) = data)
         \<and> mqtt_get_id (msg_ptr c') (msg_length c') = (if qos > 0 \<and> data \<noteq> [] then mid else 0)"
proof -
  let ?ids = "if qos > 0 then mid_bytes mid else []"
  have bl: "publish_body topic qos mid data = mstr topic @ ?ids @ data"
    and r: "length (mstr topic @ ?ids @ data) < 16384"
    and fit: "3 + length (publish_body topic qos mid data) \<le> cn_buffer_length c"
    and ne: "mstr topic @ ?ids @ data \<noteq> []"
    using assms(5,6) by (auto simp: publish_body_def mstr_def)
  obtain c' where enc: "mqtt_msg_publish rs (Some topic) data qos retain c
      = Some (if qos > 0 then mid else 0, if qos > 0 then rs' else rs, c')"
    and w: "msg_bytes c' = wire MQTT_MSG_TYPE_PUBLISH qos retain (mstr topic @ ?ids @ data)"
    using publish_wire [OF assms(1,4) fit assms(7)] unfolding bl by blast
  have g: "mget (msg_ptr c') 0 (msg_length c')
      = wire MQTT_MSG_TYPE_PUBLISH qos retain (mstr topic @ ?ids @ data)"
    using w by (simp add: mget_msg_ptr)
  have n: "msg_length c' < 65536"
    using wire_parts(4) [OF g] r length_remaining(2) [of "length (mstr topic @ ?ids @ data)"] by linarith
  define mid' where "mid' = (if qos > 0 then mid else 0)"
  have m16: "mid' < 65536"
    using assms(4) platform_random_range [of rs mid rs'] by (auto simp: mid'_def)
  have ids: "?ids = (if qos > 0 then mid_bytes mid' else [])" by (simp add: mid'_def)
  have il: "length ?ids = (if qos > 0 then 2 else 0)" by simp
  note f = header_fields [of "msg_ptr c'" _ qos retain, OF wire_parts(1) [OF g] type_in_range(1) assms(2,3)]
  note d = data_wire [OF g type_in_range(1) assms(2,3) ids m16 r]
  have e: "mqtt_get_publish_data (msg_ptr c') (msg_length c') = Some (None, 0)"
    "mqtt_get_id (msg_ptr c') (msg_length c') = 0" if "data = []"
    using no_data_wire [OF _ assms(2,3) type_in_range(1) il, of "msg_ptr c'" "msg_length c'" topic] g r that by simp_all
  obtain pt where t: "mqtt_get_publish_topic (msg_ptr c') (msg_length c') = Some (Some pt, length topic)"
    "mget (msg_ptr c') pt (length topic) = topic" using topic_wire [OF g r assms(1)] by blast
  have i: "mqtt_get_id (msg_ptr c') (msg_length c') = (if qos > 0 \<and> data \<noteq> [] then mid else 0)"
    using e(2) d(2) [OF _ refl] by (cases "data = []") (simp_all add: mid'_def)
  show ?thesis
    using enc f total_length_wire [OF g r n ne] t i e(1) d(1) by (intro exI [of _ c'] exI [of _ pt]) simp
qed

theorem mqtt_publish_roundtrip_witness:
  "(\<exists>c' pt pd. mqtt_msg_publish [7] (Some [97]) [104] 1 0 (mqtt_msg_init (\<lambda>_. 0) 32)
           = Some (7, [], c')
         \<and> mqtt_get_type (msg_ptr c') = MQTT_MSG_TYPE_PUBLISH
         \<and> mqtt_get_publish_topic (msg_ptr c') (msg_length c') = Some (Some pt, 1)
         \<and> mget (msg_ptr c') pt 1 = [97]
         \<and> mqtt_get_publish_data (msg_ptr c') (msg_length c') = Some (Some pd, 1)
         \<and> mget (msg_ptr c') pd 1 = [104]
         \<and> mqtt_get_id (msg_ptr c') (msg_length c') = 7)
   \<and> (\<exists>c'. mqtt_msg_publish [7] (Some [97]) [] 1 0 (mqtt_msg_init (\<lambda>_. 0) 32) = Some (7, [], c')
         \<and> mqtt_get_publish_data (msg_ptr c') (msg_length c') = Some (None, 0)
         \<and> mqtt_get_id (msg_ptr c') (msg_length c') = 0)"
  using mqtt_publish_roundtrip [of "[97]" 1 0 "[7]" 7 "[]" "[104]" "mqtt_msg_init (\<lambda>_. 0) 32"]
    mqtt_publish_roundtrip [of "[97]" 1 0 "[7]" 7 "[]" "[]" "mqtt_msg_init (\<lambda>_. 0) 32"]
  by (auto simp: mqtt_msg_init_def)

text \<open>The four acknowledgements.\<close>

lemma ack_wire:
  assumes "0 < mid" "5 \<le> cn_buffer_length c" "cn_buffer_length c < 65536"
  shows "\<exists>c'. ack_message typ qos rs mid c = Some (rs, c')
         \<and> msg_bytes c' = wire typ qos 0 (mid_bytes mid)"
proof -
  let ?c1 = "put_bytes (mid_bytes mid) (init_message c)"
  have "ack_message typ qos rs mid c = Some (rs, fini_message typ 0 qos 0 ?c1)"
    using assms by (simp add: ack_message_def append_message_id_eq)
  moreover have "msg_bytes (fini_message typ 0 qos 0 ?c1) = wire typ qos 0 (body ?c1)"
    by (rule fini_bytes) simp
  moreover have "body ?c1 = mid_bytes mid" by simp
  ultimately show ?thesis by metis
qed

lemma ack_id:
  assumes g: "mget b 0 n = wire typ qos 0 (mid_bytes mid)" and m: "mid < 65536"
    and t: "typ \<in> {MQTT_MSG_TYPE_PUBACK, MQTT_MSG_TYPE_PUBREC, MQTT_MSG_TYPE_PUBREL, MQTT_MSG_TYPE_PUBCOMP}"
    and q: "qos \<in> {0, 1, 2}"
  shows "mqtt_get_type b = typ" "mqtt_get_qos b = of_int qos" "n = 4" "mqtt_get_id b n = mid"
    "mqtt_get_total_length b n = Some 4"
proof -
  note p = wire_parts [OF g]
  have r: "typ \<in> set (map of_nat [0..<16])" using t type_in_range by blast
  note f = header_fields [of b _ qos 0, OF p(1) r q]
  show "mqtt_get_type b = typ" "mqtt_get_qos b = of_int qos" using f by simp_all
  show n: "n = 4" using p(4) by (simp add: remaining_bytes_def)
  have b1: "b (Suc 0) = 2" using p(2) by (simp add: remaining_bytes_def mget_Suc)
  have "mget b 2 2 = [of_nat (mid div 256), of_nat (mid mod 256)]"
    using p(3) by (simp add: remaining_bytes_def mid_bytes_def numeral_2_eq_2)
  from be16_bytes [OF this m] show "mqtt_get_id b n = mid"
    using t f(1) b1 n by (auto simp: mqtt_get_id_def Let_def mqtt_types)
  have "length (mid_bytes mid) < 16384" "n < 65536" "mid_bytes mid \<noteq> []"
    by (simp_all add: n mid_bytes_def)
  then show "mqtt_get_total_length b n = Some 4" using total_length_wire [OF g] n by simp
qed

text \<open>An acknowledgement built for a message identifier carries it: for each of the four, the type,
  the quality of service bits, the length of four bytes and the identifier that the parsers read are
  those it was built with, and no random number is drawn.\<close>

theorem mqtt_ack_roundtrip:
  assumes "0 < mid" and "mid < 65536" and "5 \<le> cn_buffer_length c" and "cn_buffer_length c < 65536"
  shows "list_all (\<lambda>(f, typ, qos). \<exists>c'. f rs mid c = Some (rs, c')
           \<and> mqtt_get_type (msg_ptr c') = typ \<and> mqtt_get_qos (msg_ptr c') = qos
           \<and> msg_length c' = 4 \<and> mqtt_get_id (msg_ptr c') (msg_length c') = mid
           \<and> mqtt_get_total_length (msg_ptr c') (msg_length c') = Some 4)
         [(mqtt_msg_puback, MQTT_MSG_TYPE_PUBACK, 0), (mqtt_msg_pubrec, MQTT_MSG_TYPE_PUBREC, 0),
          (mqtt_msg_pubrel, MQTT_MSG_TYPE_PUBREL, 1), (mqtt_msg_pubcomp, MQTT_MSG_TYPE_PUBCOMP, 0)]"
proof -
  have "\<exists>c'. ack_message ty qo rs mid c = Some (rs, c')
           \<and> mqtt_get_type (msg_ptr c') = ty \<and> mqtt_get_qos (msg_ptr c') = of_int qo
           \<and> msg_length c' = 4 \<and> mqtt_get_id (msg_ptr c') (msg_length c') = mid
           \<and> mqtt_get_total_length (msg_ptr c') (msg_length c') = Some 4"
    if t: "ty \<in> {MQTT_MSG_TYPE_PUBACK, MQTT_MSG_TYPE_PUBREC, MQTT_MSG_TYPE_PUBREL, MQTT_MSG_TYPE_PUBCOMP}"
      and q: "qo \<in> {0, 1, 2}" for ty qo
  proof -
    obtain c' where c: "ack_message ty qo rs mid c = Some (rs, c')"
      and w: "msg_bytes c' = wire ty qo 0 (mid_bytes mid)"
      using ack_wire [OF assms(1,3,4)] by blast
    have "mget (msg_ptr c') 0 (msg_length c') = wire ty qo 0 (mid_bytes mid)"
      using w by (simp add: mget_msg_ptr)
    from ack_id [OF this assms(2) t q] c show ?thesis by blast
  qed
  from this [of MQTT_MSG_TYPE_PUBACK 0] this [of MQTT_MSG_TYPE_PUBREC 0]
    this [of MQTT_MSG_TYPE_PUBREL 1] this [of MQTT_MSG_TYPE_PUBCOMP 0]
  show ?thesis
    by (simp add: mqtt_msg_puback_def mqtt_msg_pubrec_def mqtt_msg_pubrel_def mqtt_msg_pubcomp_def)
qed

theorem mqtt_ack_roundtrip_witness:
  "\<exists>c'. mqtt_msg_pubrel [] 515 (mqtt_msg_init (\<lambda>_. 0) 5) = Some ([], c')
     \<and> mqtt_get_type (msg_ptr c') = MQTT_MSG_TYPE_PUBREL \<and> mqtt_get_qos (msg_ptr c') = 1
     \<and> msg_length c' = 4 \<and> mqtt_get_id (msg_ptr c') (msg_length c') = 515"
  using mqtt_ack_roundtrip [of 515 "mqtt_msg_init (\<lambda>_. 0) 5" "[]"]
  by (auto simp: mqtt_msg_init_def)

text \<open>The remaining length is written in two bytes at most, so a message whose body takes 16384
  bytes or more is not the message of the protocol: the second length byte either has its
  continuation bit set, so that a receiver takes the topic's length for more of it, or has lost its
  high bit, so that the length read is 32768 short.\<close>

theorem mqtt_length_overflow:
  assumes "topic \<noteq> []"
    and "qos > 0 \<Longrightarrow> platform_random_nonzero rs = Some (mid, rs')"
    and "r = length (publish_body topic qos mid data)" and "16384 \<le> r"
    and "3 + r \<le> cn_buffer_length c" and "cn_buffer_length c < 65536"
  shows "\<exists>m rs1 c'. mqtt_msg_publish rs (Some topic) data qos retain c = Some (m, rs1, c')
           \<and> msg_length c' = 3 + r
           \<and> (if r < 32768 \<or> 49152 \<le> r then msg_ptr c' 2 AND 0x80 = 0x80
              else mqtt_get_total_length (msg_ptr c') (msg_length c') = Some (of_nat (3 + r - 32768)))"
proof -
  let ?b = "publish_body topic qos mid data"
  obtain c' where enc: "mqtt_msg_publish rs (Some topic) data qos retain c
      = Some (if qos > 0 then mid else 0, if qos > 0 then rs' else rs, c')"
    and w: "msg_bytes c' = wire MQTT_MSG_TYPE_PUBLISH qos retain ?b"
    using publish_wire [OF assms(1,2), where data = data and c = c] assms(3,5,6) by blast
  have g: "mget (msg_ptr c') 0 (msg_length c') = wire MQTT_MSG_TYPE_PUBLISH qos retain ?b"
    using w by (simp add: mget_msg_ptr)
  note p = wire_parts [OF g]
  have rb: "remaining_bytes (length ?b) = [0x80 OR of_nat (r mod 128), of_nat (r div 128)]"
    using assms(3,4) by (simp add: remaining_bytes_def)
  have n: "msg_length c' = 3 + r" using p(4) assms(3) unfolding rb by simp
  have b: "msg_ptr c' (Suc 0) = 0x80 OR of_nat (r mod 128)" "msg_ptr c' 2 = of_nat (r div 128)"
    using p(2) unfolding rb by (simp_all add: mget_Suc numeral_2_eq_2)
  have lim: "r div 128 < 512" using assms(5,6) by linarith
  have hi: "(of_nat x :: u8) AND 0x80 = 0x80" if x: "128 \<le> x \<and> x < 256 \<or> 384 \<le> x \<and> x < 512" for x
  proof -
    have "x - 128 < 128 \<and> x = 128 + (x - 128) \<or> x - 384 < 128 \<and> x = 384 + (x - 384)"
      using x by linarith
    then obtain y where y: "y < 128" "x = 128 + y \<or> x = 384 + y" by blast
    have e: "(384 :: u8) = 128" by simp
    have "list_all (\<lambda>y. (0x80 + of_nat y :: u8) AND 0x80 = 0x80) [0..<128]" by code_simp
    then show ?thesis using y by (auto simp: list_all_iff e)
  qed
  show ?thesis
  proof (cases "r < 32768 \<or> 49152 \<le> r")
    case True
    then have "128 \<le> r div 128 \<and> r div 128 < 256 \<or> 384 \<le> r div 128 \<and> r div 128 < 512"
      using assms(4) lim by linarith
    then show ?thesis using True enc n hi b(2) by auto
  next
    case False
    let ?q = "r div 128 - 256"
    have q: "?q < 128" "r div 128 = 256 + ?q" using False by linarith+
    have "(of_nat (r div 128) :: u8) = of_nat ?q" by (subst q(2)) simp
    note b' = b(1) b(2) [unfolded this numeral_2_eq_2]
    have m: "r mod 128 < 128" by simp
    have "128 * ?q = r div 128 * 128 - 32768" using q(2) by linarith
    then have s: "r mod 128 + 128 * ?q + 3 = 3 + r - 32768"
      using False mod_mult_div_eq [of r 128] by linarith
    have "remaining_loop (msg_ptr c') (3 + r) 1 0 = Some (of_nat (r mod 128) + of_nat (128 * ?q), 3)"
      using assms(4) low7 [OF m] low7 [OF q(1)] q(1)
      by (simp add: remaining_loop.simps [of _ "3 + r"] b' Let_def ucast_of_nat8 push7_of_nat)
    then have "mqtt_get_total_length (msg_ptr c') (3 + r) = Some (of_nat (r mod 128 + 128 * ?q + 3))"
      using assms(5,6) by (simp add: mqtt_get_total_length_def)
    then show ?thesis using False enc n s by auto
  qed
qed

theorem mqtt_length_overflow_witness:
  "\<exists>c'. mqtt_msg_publish [] (Some [97]) (replicate 40000 0) 0 0 (mqtt_msg_init (\<lambda>_. 0) 60000)
       = Some (0, [], c')
     \<and> msg_length c' = 40006 \<and> mqtt_get_total_length (msg_ptr c') (msg_length c') = Some 7238"
proof -
  have "length (publish_body [97] 0 0 (replicate 40000 0)) = 40003"
    by (simp add: publish_body_def mstr_def)
  moreover have "platform_random_nonzero [] = None" by simp
  ultimately obtain m rs1 c' where c: "mqtt_msg_publish [] (Some [97]) (replicate 40000 0) 0 0
       (mqtt_msg_init (\<lambda>_. 0) 60000) = Some (m, rs1, c')"
    "msg_length c' = 40006" "mqtt_get_total_length (msg_ptr c') (msg_length c') = Some 7238"
    using mqtt_length_overflow [of "[97]" 0 "[]" 0 "[]" 40003 "replicate 40000 0"
        "mqtt_msg_init (\<lambda>_. 0) 60000" 0]
    by (auto simp: mqtt_msg_init_def)
  moreover have "m = 0 \<and> rs1 = []"
    using c(1) by (auto simp: mqtt_msg_publish_def Let_def no_string_def split: option.splits if_splits)
  ultimately show ?thesis by blast
qed

end
