(* ===== verification/MqttConnect.thy ===== *)
theory MqttConnect
  imports MqttCodec
begin

text \<open>
  The CONNECT message and the memory safety of all encoders of \<open>mqtt_msg.c\<close>.  \<open>connect_body\<close> is the
  reference form of what \<open>mqtt_msg_connect\<close> builds in place, updating the flags of the header while
  it appends the strings; \<open>within\<close> is the invariant of a message under construction, from which
  every encoder is shown to write inside its buffer only.
\<close>

section \<open>The CONNECT message in reference form\<close>

definition will_flags :: "mqtt_connect_info \<Rightarrow> u8" where
  "will_flags info =
     (if no_string (will_topic info) then 0
      else 0x04 OR (if will_retain info \<noteq> 0 then 0x20 else 0) OR push_bit 3 (of_int (will_qos info) AND 3))"

definition connect_flags :: "mqtt_connect_info \<Rightarrow> u8" where
  "connect_flags info =
     (if clean_session info \<noteq> 0 then 0x02 else 0) OR will_flags info
       OR (if no_string (username info) then 0 else 0x80)
       OR (if no_string (password info) then 0 else 0x40)"

definition connect_head :: "bool \<Rightarrow> int \<Rightarrow> u8 \<Rightarrow> u8 list" where
  "connect_head proto311 keep f =
     (if proto311 then [0, 4, 0x4d, 0x51, 0x54, 0x54, 4] else [0, 6, 0x4d, 0x51, 0x49, 0x73, 3])
       @ [f, of_int (keep div 256), of_int (keep mod 256)]"

definition opt_str :: "u8 list option \<Rightarrow> u8 list" where
  "opt_str s = (if no_string s then [] else mstr (the s))"

definition connect_body :: "bool \<Rightarrow> mqtt_connect_info \<Rightarrow> u8 list" where
  "connect_body proto311 info =
     connect_head proto311 (keepalive info) (connect_flags info)
       @ mstr (the (client_id info))
       @ (if no_string (will_topic info) then [] else mstr (the (will_topic info)) @ mstr (will_message info))
       @ opt_str (username info) @ opt_str (password info)"

text \<open>A message under construction whose body is the header with the flags \<open>f\<close>, followed by \<open>s\<close>.\<close>

definition building :: "nat \<Rightarrow> bool \<Rightarrow> int \<Rightarrow> u8 \<Rightarrow> u8 list \<Rightarrow> mqtt_connection \<Rightarrow> bool" where
  "building len proto311 keep f s c \<longleftrightarrow>
     cn_buffer_length c = len \<and> msg_length c = 13 + length s
       \<and> body c = connect_head proto311 keep f @ s"

lemma length_connect_head [simp]: "length (connect_head p k f) = 10"
  by (simp add: connect_head_def)

lemma building_put:
  "building len p k f s c \<Longrightarrow> building len p k f (s @ bs) (put_bytes bs c)"
  by (simp add: building_def)

lemma building_flag:
  assumes "building len p k f s c"
  shows "building len p k (f OR g) s (connect_flag g c)"
proof -
  have l: "msg_length c = 13 + length s" and b: "mget (cn_buffer c) 3 (10 + length s) = connect_head p k f @ s"
    using assms by (auto simp: building_def body_def)
  from mget_split [OF b] have h: "mget (cn_buffer c) 3 10 = connect_head p k f"
    and t: "mget (cn_buffer c) 13 (length s) = s" by simp_all
  have "mget ((cn_buffer c)(10 := cn_buffer c 10 OR g)) 3 10 = connect_head p k (f OR g)"
    using h by (simp add: connect_head_def eval_nat_numeral mget_Suc split: if_splits)
  moreover have "mget ((cn_buffer c)(10 := cn_buffer c 10 OR g)) 13 (length s) = s"
    using mget_cong [of 13 "length s" "(cn_buffer c)(10 := cn_buffer c 10 OR g)" "cn_buffer c"] t by simp
  ultimately have "mget ((cn_buffer c)(10 := cn_buffer c 10 OR g)) 3 (10 + length s)
      = connect_head p k (f OR g) @ s"
    by (simp only: mget_add) simp
  then show ?thesis using assms l by (simp add: building_def body_def connect_flag_def)
qed

lemma building_start:
  "cn_buffer_length c = len \<Longrightarrow> building len p (keepalive info) 0 []
     ((init_message c)\<lparr>msg_length := msg_length (init_message c) + 10,
        cn_buffer := connect_header p (keepalive info) (cn_buffer (init_message c))\<rparr>)"
  by (simp add: building_def body_def connect_header_def connect_head_def init_message_def
      MQTT_MAX_FIXED_HEADER_SIZE_def Let_def mget_def upt_rec mcpy_def)

text \<open>The outcome of a step that should leave the flags \<open>f\<close> and the strings \<open>s\<close>: the failed message when
  they do not fit, and otherwise the message with them.\<close>

definition outcome ::
    "nat \<Rightarrow> bool \<Rightarrow> int \<Rightarrow> u8 \<Rightarrow> u8 list \<Rightarrow> mqtt_connection + mqtt_connection \<Rightarrow> bool" where
  "outcome len p k f s r \<longleftrightarrow>
     (if 13 + length s \<le> len then \<exists>c. r = Inr c \<and> building len p k f s c
      else \<exists>c. r = Inl c \<and> msg_length c = 0)"

lemma outcome_and_then:
  assumes "outcome len p k f s r"
    and "\<And>c. building len p k f s c \<Longrightarrow> 13 + length s \<le> len \<Longrightarrow> outcome len p k f' s' (g c)"
    and "length s \<le> length s'"
  shows "outcome len p k f' s' (and_then r g)"
proof (cases "13 + length s \<le> len")
  case True
  then obtain c where "r = Inr c" "building len p k f s c" using assms(1) by (auto simp: outcome_def)
  then show ?thesis using assms(2) True by simp
next
  case False
  then obtain c where "r = Inl c" "msg_length c = 0" using assms(1) by (auto simp: outcome_def)
  moreover have "\<not> 13 + length s' \<le> len" using False assms(3) by linarith
  ultimately show ?thesis by (auto simp: outcome_def)
qed

lemma outcome_Inr: "building len p k f s c \<Longrightarrow> 13 + length s \<le> len \<Longrightarrow> outcome len p k f s (Inr c)"
  by (simp add: outcome_def)

lemma outcome_string:
  assumes "building len p k f s c" "13 + length s \<le> len" "len < 65536" "length str < 1000000"
  shows "outcome len p k f (s @ mstr str) (connect_string str c)"
proof -
  have l: "msg_length c = 13 + length s" "cn_buffer_length c = len"
    using assms(1) by (simp_all add: building_def)
  then show ?thesis
    using assms building_put [OF assms(1), of "mstr str"]
    by (auto simp: outcome_def connect_string_def append_string_eq)
qed

lemma outcome_optional:
  assumes "building len p k f s c" "13 + length s \<le> len" "len < 65536"
    and "str \<noteq> None \<Longrightarrow> length (the str) < 1000000"
  shows "outcome len p k (f OR (if no_string str then 0 else g)) (s @ opt_str str) (connect_optional str g c)"
proof (cases "no_string str")
  case True
  then show ?thesis using assms by (simp add: connect_optional_def opt_str_def outcome_def)
next
  case False
  then have "length (the str) < 1000000" using assms(4) by (auto simp: no_string_def)
  with assms have "outcome len p k f (s @ mstr (the str)) (connect_string (the str) c)"
    by (intro outcome_string) auto
  then show ?thesis using False
    by (simp add: connect_optional_def opt_str_def)
      (erule outcome_and_then, auto intro: outcome_Inr building_flag)
qed

lemma outcome_will:
  assumes "building len p k f s c" "13 + length s \<le> len" "len < 65536"
    and "will_topic info \<noteq> None \<Longrightarrow> length (the (will_topic info)) < 1000000"
    and "length (will_message info) < 1000000"
  shows "outcome len p k (f OR will_flags info)
    (s @ (if no_string (will_topic info) then [] else mstr (the (will_topic info)) @ mstr (will_message info)))
    (connect_will info c)"
proof (cases "no_string (will_topic info)")
  case True
  then show ?thesis using assms by (simp add: connect_will_def will_flags_def outcome_def)
next
  case False
  let ?t = "the (will_topic info)" and ?m = "will_message info"
  have "length ?t < 1000000" using assms(4) False by (auto simp: no_string_def)
  with assms have t: "outcome len p k f (s @ mstr ?t) (connect_string ?t c)"
    by (intro outcome_string) auto
  have m: "outcome len p k f ((s @ mstr ?t) @ mstr ?m) (connect_string ?m c1)"
    if "building len p k f (s @ mstr ?t) c1" "13 + length (s @ mstr ?t) \<le> len" for c1
    using that assms by (intro outcome_string) auto
  define g where "g c2 = connect_flag (push_bit 3 (of_int (will_qos info) AND 3))
      (if will_retain info \<noteq> 0 then connect_flag 0x20 (connect_flag 0x04 c2) else connect_flag 0x04 c2)"
    for c2
  have fl: "building len p k (f OR will_flags info) s' (g c2)" if b: "building len p k f s' c2" for s' c2
  proof -
    have b4: "building len p k (f OR 0x04) s' (connect_flag 0x04 c2)" by (rule building_flag [OF b])
    have "building len p k (f OR 0x04 OR (if will_retain info \<noteq> 0 then 0x20 else 0)) s'
        (if will_retain info \<noteq> 0 then connect_flag 0x20 (connect_flag 0x04 c2) else connect_flag 0x04 c2)"
      using b4 building_flag [OF b4, of "0x20"]
      by (cases "will_retain info = 0") (simp_all add: or.assoc)
    then have "building len p k ((f OR 0x04 OR (if will_retain info \<noteq> 0 then 0x20 else 0))
        OR push_bit 3 (of_int (will_qos info) AND 3)) s' (g c2)"
      unfolding g_def by (rule building_flag)
    then show ?thesis
      by (simp only: will_flags_def if_not_P [OF False] or.assoc)
  qed
  have "outcome len p k (f OR will_flags info) ((s @ mstr ?t) @ mstr ?m)
      (and_then (connect_string ?t c) (\<lambda>c1. and_then (connect_string ?m c1) (\<lambda>c2. Inr (g c2))))"
    by (rule outcome_and_then [OF t], rule outcome_and_then [OF m]) (auto intro: outcome_Inr fl)
  then show ?thesis using False by (simp add: connect_will_def g_def Let_def)
qed

lemma outcome_fini:
  assumes "outcome len p k f s r"
  shows "msg_bytes (case r of Inl failed \<Rightarrow> failed | Inr c \<Rightarrow> fini_message ty 0 0 0 c)
      = (if 13 + length s \<le> len then wire ty 0 0 (connect_head p k f @ s) else [])"
proof (cases "13 + length s \<le> len")
  case True
  then obtain c where c: "r = Inr c" "building len p k f s c" using assms by (auto simp: outcome_def)
  then have "3 \<le> msg_length c" "body c = connect_head p k f @ s" by (simp_all add: building_def)
  then show ?thesis using True c fini_bytes [of c ty 0 0] by simp
next
  case False
  then obtain c where "r = Inl c" "msg_length c = 0" using assms by (auto simp: outcome_def)
  then show ?thesis using False by (simp add: msg_bytes_def)
qed

lemma connect_wire:
  assumes cid: "client_id info = Some cid" "cid \<noteq> []"
    and len: "cn_buffer_length c < 65536"
    and small: "length cid < 1000000"
      "will_topic info \<noteq> None \<Longrightarrow> length (the (will_topic info)) < 1000000"
      "length (will_message info) < 1000000"
      "username info \<noteq> None \<Longrightarrow> length (the (username info)) < 1000000"
      "password info \<noteq> None \<Longrightarrow> length (the (password info)) < 1000000"
  shows "msg_bytes (mqtt_msg_connect p info c)
      = (if 3 + length (connect_body p info) \<le> cn_buffer_length c
         then wire MQTT_MSG_TYPE_CONNECT 0 0 (connect_body p info) else [])"
proof (cases "13 \<le> cn_buffer_length c")
  case False
  then have "mqtt_msg_connect p info c = fail_message (init_message c)"
    by (simp add: mqtt_msg_connect_def Let_def)
  moreover have "\<not> 3 + length (connect_body p info) \<le> cn_buffer_length c"
    using False by (simp add: connect_body_def)
  ultimately show ?thesis by simp
next
  case True
  let ?len = "cn_buffer_length c" and ?k = "keepalive info"
  let ?f1 = "if clean_session info \<noteq> 0 then 0x02 else 0 :: u8"
  let ?s2 = "mstr cid"
  let ?s3 = "?s2 @ (if no_string (will_topic info) then []
      else mstr (the (will_topic info)) @ mstr (will_message info))"
  let ?s4 = "?s3 @ opt_str (username info)"
  let ?s5 = "?s4 @ opt_str (password info)"
  let ?f2 = "?f1 OR will_flags info"
  let ?f3 = "?f2 OR (if no_string (username info) then 0 else 0x80)"
  have fl: "?f3 OR (if no_string (password info) then 0 else 0x40) = connect_flags info"
    by (simp only: connect_flags_def or.assoc)
  define c1 where "c1 = (init_message c)\<lparr>msg_length := msg_length (init_message c) + 10,
      cn_buffer := connect_header p ?k (cn_buffer (init_message c))\<rparr>"
  define c2 where "c2 = (if clean_session info \<noteq> 0 then connect_flag 0x02 c1 else c1)"
  have b1: "building ?len p ?k 0 [] c1" unfolding c1_def by (rule building_start [OF refl])
  have b2: "building ?len p ?k ?f1 [] c2"
    using b1 building_flag [OF b1, of 2] by (simp add: c2_def)
  have o2: "outcome ?len p ?k ?f1 ?s2 (connect_string cid c2)"
    using outcome_string [OF b2 _ len small(1)] True by simp
  have o5: "outcome ?len p ?k (connect_flags info) ?s5
      (and_then (connect_string cid c2) (\<lambda>c3. and_then (connect_will info c3) (\<lambda>c4.
         and_then (connect_optional (username info) 0x80 c4) (\<lambda>c5.
         connect_optional (password info) 0x40 c5))))"
  proof (rule outcome_and_then [OF o2])
    fix c3 assume c3: "building ?len p ?k ?f1 ?s2 c3" "13 + length ?s2 \<le> ?len"
    show "outcome ?len p ?k (connect_flags info) ?s5 (and_then (connect_will info c3) (\<lambda>c4.
         and_then (connect_optional (username info) 0x80 c4) (\<lambda>c5.
         connect_optional (password info) 0x40 c5)))"
    proof (rule outcome_and_then [OF outcome_will [OF c3 len small(2,3)]])
      fix c4 assume c4: "building ?len p ?k ?f2 ?s3 c4" "13 + length ?s3 \<le> ?len"
      show "outcome ?len p ?k (connect_flags info) ?s5
        (and_then (connect_optional (username info) 0x80 c4) (\<lambda>c5.
         connect_optional (password info) 0x40 c5))"
      proof (rule outcome_and_then [OF outcome_optional [OF c4 len small(4), where g = "0x80"]])
        fix c5 assume c5: "building ?len p ?k ?f3 ?s4 c5" "13 + length ?s4 \<le> ?len"
        show "outcome ?len p ?k (connect_flags info) ?s5 (connect_optional (password info) 0x40 c5)"
          unfolding fl [symmetric]
          by (rule outcome_optional [OF c5 len small(5), where g = "0x40"])
      qed simp_all
    qed simp_all
  qed simp_all
  have e: "connect_head p ?k (connect_flags info) @ ?s5 = connect_body p info"
    by (simp add: connect_body_def cid)
  have l: "13 + length ?s5 = 3 + length (connect_body p info)"
    unfolding e [symmetric] by simp
  have "mqtt_msg_connect p info c = (case and_then (connect_string cid c2) (\<lambda>c3.
         and_then (connect_will info c3) (\<lambda>c4.
         and_then (connect_optional (username info) 0x80 c4) (\<lambda>c5.
         connect_optional (password info) 0x40 c5))) of
       Inl failed \<Rightarrow> failed | Inr c6 \<Rightarrow> fini_message MQTT_MSG_TYPE_CONNECT 0 0 0 c6)"
    using True cid len by (simp add: mqtt_msg_connect_def Let_def c1_def c2_def no_string_def)
  then show ?thesis using outcome_fini [OF o5, of MQTT_MSG_TYPE_CONNECT] unfolding e l by simp
qed

definition short_strings :: "mqtt_connect_info \<Rightarrow> bool" where
  "short_strings info \<longleftrightarrow>
     list_all (\<lambda>s. case s of None \<Rightarrow> True | Some x \<Rightarrow> length x < 1000000)
       [client_id info, will_topic info, Some (will_message info), username info, password info]"

lemma short_stringsD:
  assumes "short_strings info"
  shows "client_id info \<noteq> None \<Longrightarrow> length (the (client_id info)) < 1000000"
    "will_topic info \<noteq> None \<Longrightarrow> length (the (will_topic info)) < 1000000"
    "length (will_message info) < 1000000"
    "username info \<noteq> None \<Longrightarrow> length (the (username info)) < 1000000"
    "password info \<noteq> None \<Longrightarrow> length (the (password info)) < 1000000"
  using assms by (auto simp: short_strings_def)

text \<open>C25: CONNECT: the message that \<open>mqtt_msg_connect\<close> builds in place is the reference form, header with
  all flags, client identifier, then will topic and message, user name and password where they are
  given, whenever there is a client identifier and the whole fits; in every other case it is the
  failed message of length 0.\<close>

theorem mqtt_connect_bytes:
  assumes "cn_buffer_length c < 65536"
    and "short_strings info"
  shows "msg_bytes (mqtt_msg_connect proto311 info c)
      = (if \<not> no_string (client_id info)
            \<and> 3 + length (connect_body proto311 info) \<le> cn_buffer_length c
         then wire MQTT_MSG_TYPE_CONNECT 0 0 (connect_body proto311 info) else [])"
proof (cases "no_string (client_id info)")
  case True
  then have "msg_length (mqtt_msg_connect proto311 info c) = 0"
    by (simp add: mqtt_msg_connect_def Let_def)
  then show ?thesis using True by (simp add: msg_bytes_def)
next
  case False
  then obtain cid where "client_id info = Some cid" "cid \<noteq> []" by (auto simp: no_string_def)
  moreover from this have "length cid < 1000000" using short_stringsD(1) [OF assms(2)] by simp
  ultimately show ?thesis
    using connect_wire [OF _ _ assms(1) _ short_stringsD(2-5) [OF assms(2)]] False by simp
qed

text \<open>Built without \<open>CONFIG_MQTT_PROTOCOL_311\<close> the CONNECT message is malformed: the protocol name of
  six characters that it announces is \<open>MQIs\<close>, the version number 3 and the connect flags, because the
  last two characters of \<open>MQIsdp\<close> are overwritten.\<close>

theorem mqtt_connect_31_malformed:
  assumes "client_id info = Some cid" and "cid \<noteq> []" and "cn_buffer_length c < 65536"
    and "short_strings info"
    and "3 + length (connect_body False info) \<le> cn_buffer_length c"
    and "i = 1 + length (remaining_bytes (length (connect_body False info)))"
  shows "be16 (msg_ptr (mqtt_msg_connect False info c)) i = 6
       \<and> mget (msg_ptr (mqtt_msg_connect False info c)) (i + 2) 6
         = [0x4d, 0x51, 0x49, 0x73, 3, connect_flags info]"
proof -
  let ?c = "mqtt_msg_connect False info c"
  have "msg_bytes ?c = wire MQTT_MSG_TYPE_CONNECT 0 0 (connect_body False info)"
    using connect_wire [OF assms(1,2,3) _ short_stringsD(2-5) [OF assms(4)], of False]
      short_stringsD(1) [OF assms(4)] assms(1,5) by simp
  then have "mget (msg_ptr ?c) 0 (msg_length ?c) = wire MQTT_MSG_TYPE_CONNECT 0 0 (connect_body False info)"
    by (simp add: mget_msg_ptr)
  from wire_parts(3) [OF this] have m: "mget (msg_ptr ?c) i (length (connect_body False info))
      = connect_body False info" using assms(6) by simp
  obtain rest where r: "connect_body False info
      = [0, 6] @ ([0x4d, 0x51, 0x49, 0x73, 3, connect_flags info] @ rest)"
    by (simp add: connect_body_def connect_head_def)
  then have l: "length (connect_body False info) = 2 + (6 + length rest)" by simp
  have "mget (msg_ptr ?c) i (2 + (6 + length rest))
      = [0, 6] @ ([0x4d, 0x51, 0x49, 0x73, 3, connect_flags info] @ rest)"
    using m unfolding l unfolding r .
  from mget_split [OF this] have h: "mget (msg_ptr ?c) i 2 = [0, 6]"
    and t: "mget (msg_ptr ?c) (i + 2) (6 + length rest)
      = [0x4d, 0x51, 0x49, 0x73, 3, connect_flags info] @ rest" by simp_all
  from mget_split [OF t] have "mget (msg_ptr ?c) (i + 2) 6 = [0x4d, 0x51, 0x49, 0x73, 3, connect_flags info]"
    by simp
  moreover have "be16 (msg_ptr ?c) i = 6"
    using be16_bytes [of "msg_ptr ?c" i 6] h by simp
  ultimately show ?thesis by simp
qed

definition sample_info :: mqtt_connect_info where
  "sample_info = \<lparr>client_id = Some [97], username = Some [98], password = None, will_topic = None,
     will_message = [], keepalive = 120, will_qos = 0, will_retain = 0, clean_session = 1\<rparr>"

theorem mqtt_connect_bytes_witness:
  "msg_bytes (mqtt_msg_connect True sample_info (mqtt_msg_init (\<lambda>_. 0) 64))
     = [0x10, 16, 0, 4, 0x4d, 0x51, 0x54, 0x54, 4, 0x82, 0, 120, 0, 1, 97, 0, 1, 98]"
  using mqtt_connect_bytes [of "mqtt_msg_init (\<lambda>_. 0) 64" sample_info True]
  by (simp add: mqtt_msg_init_def sample_info_def no_string_def connect_body_def connect_head_def
      short_strings_def connect_flags_def will_flags_def opt_str_def mstr_def wire_def remaining_bytes_def fixed_header_def
      mqtt_types)

theorem mqtt_connect_31_malformed_witness:
  "mget (msg_ptr (mqtt_msg_connect False sample_info (mqtt_msg_init (\<lambda>_. 0) 64))) 4 6
     = [0x4d, 0x51, 0x49, 0x73, 3, 0x82]"
  using mqtt_connect_31_malformed [of sample_info "[97]" "mqtt_msg_init (\<lambda>_. 0) 64" 2]
  by (simp add: mqtt_msg_init_def sample_info_def no_string_def connect_body_def connect_head_def
      short_strings_def connect_flags_def will_flags_def opt_str_def mstr_def remaining_bytes_def)

section \<open>The encoders write inside their buffer\<close>

text \<open>A message under construction, of \<open>k\<close> bytes at least, in the buffer of the connection \<open>c0\<close>; and a
  finished or failed message.\<close>

definition within :: "mqtt_connection \<Rightarrow> nat \<Rightarrow> mqtt_connection \<Rightarrow> bool" where
  "within c0 k c \<longleftrightarrow> cn_buffer_length c = cn_buffer_length c0 \<and> k \<le> msg_length c \<and> 3 \<le> msg_length c
     \<and> msg_length c \<le> cn_buffer_length c0
     \<and> (\<forall>b. cn_buffer_length c0 \<le> b \<longrightarrow> cn_buffer c b = cn_buffer c0 b)"

definition inside_buffer :: "mqtt_connection \<Rightarrow> mqtt_connection \<Rightarrow> bool" where
  "inside_buffer c0 c \<longleftrightarrow> cn_buffer_length c = cn_buffer_length c0
     \<and> msg_data c + msg_length c \<le> cn_buffer_length c0
     \<and> (\<forall>b. cn_buffer_length c0 \<le> b \<longrightarrow> cn_buffer c b = cn_buffer c0 b)"

named_theorems within_intros "steps of an encoder that keep the message within its buffer"

lemma within_init [within_intros]: "3 \<le> cn_buffer_length c \<Longrightarrow> within c 3 (init_message c)"
  by (simp add: within_def)

lemma within_put:
  "within c0 k c \<Longrightarrow> msg_length c + length bs \<le> cn_buffer_length c0 \<Longrightarrow> within c0 k (put_bytes bs c)"
  by (auto simp: within_def put_bytes_def mem_simps)

lemma within_fail [within_intros]: "within c0 k c \<Longrightarrow> inside_buffer c0 (fail_message c)"
  by (simp add: within_def inside_buffer_def fail_message_def)

lemma within_fini [within_intros]: "within c0 k c \<Longrightarrow> inside_buffer c0 (fini_message ty dup qos retain c)"
  by (auto simp: within_def inside_buffer_def fini_message_def MQTT_MAX_FIXED_HEADER_SIZE_def Let_def mem_simps)

lemma within_string [within_intros]:
  "within c0 k c \<Longrightarrow> append_string s c = Some c' \<Longrightarrow> length s < 1000000
    \<Longrightarrow> cn_buffer_length c0 < 65536 \<Longrightarrow> within c0 k c'"
proof -
  assume w: "within c0 k c" "append_string s c = Some c'" "length s < 1000000" "cn_buffer_length c0 < 65536"
  then have "msg_length c + length s + 2 < 4294967296" by (simp add: within_def)
  then have "c' = put_bytes (mstr s) c" "msg_length c + (length s + 2) \<le> cn_buffer_length c0"
    using w by (auto simp: append_string_eq within_def split: if_splits)
  then show ?thesis using within_put [OF w(1), of "mstr s"] by simp
qed

lemma within_id [within_intros]:
  "within c0 k c \<Longrightarrow> append_message_id rs i c = Some (mid, rs', c')
    \<Longrightarrow> cn_buffer_length c0 < 65536 \<Longrightarrow> within c0 k c'"
proof -
  assume w: "within c0 k c" "append_message_id rs i c = Some (mid, rs', c')" "cn_buffer_length c0 < 65536"
  then have "c' = c \<or> c' = put_bytes (mid_bytes mid) c \<and> msg_length c + 2 \<le> cn_buffer_length c0"
    by (auto simp: append_message_id_eq within_def split: if_splits option.splits)
  then show ?thesis using w(1) within_put [OF w(1), of "mid_bytes mid"] by auto
qed

lemma within_flag [within_intros]: "within c0 k c \<Longrightarrow> 13 \<le> k \<Longrightarrow> within c0 k (connect_flag f c)"
  by (auto simp: within_def connect_flag_def)

lemma within_mono: "within c0 k c \<Longrightarrow> j \<le> k \<Longrightarrow> within c0 j c"
  by (simp add: within_def)

text \<open>The result of an encoder that may still wait for a random number.\<close>

definition opt_inside_buffer :: "mqtt_connection \<Rightarrow> (nat \<times> u32 list \<times> mqtt_connection) option \<Rightarrow> bool" where
  "opt_inside_buffer c0 r \<longleftrightarrow> (case r of None \<Rightarrow> True | Some (mid, rs, c) \<Rightarrow> inside_buffer c0 c)"

lemma publish_in_buffer:
  assumes "3 \<le> cn_buffer_length c" "cn_buffer_length c < 65536"
    "topic \<noteq> None \<Longrightarrow> length (the topic) < 1000000" "length data < 1000000"
  shows "opt_inside_buffer c (mqtt_msg_publish rs topic data qos retain c)"
proof (cases "no_string topic")
  case True
  then show ?thesis using within_fail [OF within_init [OF assms(1)]]
    by (simp add: mqtt_msg_publish_def opt_inside_buffer_def Let_def)
next
  case False
  then have t: "length (the topic) < 1000000" using assms(3) by (auto simp: no_string_def)
  note w0 = within_init [OF assms(1)]
  show ?thesis
  proof (cases "append_string (the topic) (init_message c)")
    case None
    then show ?thesis using False within_fail [OF w0]
      by (simp add: mqtt_msg_publish_def opt_inside_buffer_def Let_def)
  next
    case (Some c1)
    have w1: "within c 3 c1" by (rule within_string [OF w0 Some t assms(2)])
    show ?thesis
    proof (cases "if qos > 0 then append_message_id rs 0 c1 else Some (0, rs, c1)")
      case None
      then show ?thesis using False Some by (simp add: mqtt_msg_publish_def opt_inside_buffer_def Let_def)
    next
      case (Some r)
      obtain mid rs' c2 where r: "r = (mid, rs', c2)" by (metis prod_cases3)
      have w2: "within c 3 c2"
        using Some w1 within_id [OF w1 _ assms(2)] unfolding r by (auto split: if_splits)
      have "msg_length c2 + length data < 4294967296" using w2 assms(2,4) by (simp add: within_def)
      then have "cn_buffer_length c2 < (msg_length c2 + length data) mod 4294967296
          \<or> inside_buffer c (fini_message MQTT_MSG_TYPE_PUBLISH 0 qos retain (put_bytes data c2))"
        using w2 within_fini [OF within_put [OF w2, of data]]
        by (cases "msg_length c2 + length data \<le> cn_buffer_length c") (auto simp: within_def)
      then show ?thesis
        using False Some \<open>append_string (the topic) (init_message c) = Some c1\<close> within_fail [OF w2]
        unfolding r by (auto simp: mqtt_msg_publish_def opt_inside_buffer_def Let_def)
    qed
  qed
qed

lemma ack_in_buffer:
  assumes "3 \<le> cn_buffer_length c" "cn_buffer_length c < 65536"
  shows "case ack_message ty qos rs mid c of None \<Rightarrow> True | Some (rs', c') \<Rightarrow> inside_buffer c c'"
proof (cases "append_message_id rs mid (init_message c)")
  case (Some r)
  obtain m rs' c1 where r: "r = (m, rs', c1)" by (metis prod_cases3)
  have "within c 3 c1" by (rule within_id [OF within_init [OF assms(1)] Some [unfolded r] assms(2)])
  then show ?thesis using Some by (simp add: ack_message_def r within_fail within_fini)
qed (simp add: ack_message_def)

lemma subscribe_in_buffer:
  assumes "3 \<le> cn_buffer_length c" "cn_buffer_length c < 65536"
    "topic \<noteq> None \<Longrightarrow> length (the topic) < 1000000"
  shows "opt_inside_buffer c (mqtt_msg_subscribe rs topic qos c)"
    and "opt_inside_buffer c (mqtt_msg_unsubscribe rs topic c)"
proof -
  note w0 = within_init [OF assms(1)]
  have *: "opt_inside_buffer c (mqtt_msg_subscribe rs topic qos c)
      \<and> opt_inside_buffer c (mqtt_msg_unsubscribe rs topic c)"
  proof (cases "no_string topic")
    case True
    then show ?thesis using within_fail [OF w0]
      by (simp add: mqtt_msg_subscribe_def mqtt_msg_unsubscribe_def opt_inside_buffer_def Let_def)
  next
    case False
    then have t: "length (the topic) < 1000000" using assms(3) by (auto simp: no_string_def)
    show ?thesis
    proof (cases "append_message_id rs 0 (init_message c)")
      case None
      then show ?thesis using False
        by (simp add: mqtt_msg_subscribe_def mqtt_msg_unsubscribe_def opt_inside_buffer_def Let_def)
    next
      case (Some r)
      obtain mid rs' c1 where r: "r = (mid, rs', c1)" by (metis prod_cases3)
      have w1: "within c 3 c1" by (rule within_id [OF w0 Some [unfolded r] assms(2)])
      have w2: "within c 3 c2" if "append_string (the topic) c1 = Some c2" for c2
        by (rule within_string [OF w1 that t assms(2)])
      have w3: "inside_buffer c (fini_message MQTT_MSG_TYPE_SUBSCRIBE 0 1 0 (put_byte (of_int qos) c2))"
        if "within c 3 c2" "\<not> cn_buffer_length c2 < Suc (msg_length c2) mod 4294967296" for c2
        using that assms(2) within_fini [OF within_put [OF that(1), of "[of_int qos]"]]
        by (simp add: put_byte_bytes within_def)
      show ?thesis using False Some w1 w2 w3
        by (auto simp: mqtt_msg_subscribe_def mqtt_msg_unsubscribe_def opt_inside_buffer_def Let_def r
            intro: within_fail within_fini split: option.splits)
    qed
  qed
  then show "opt_inside_buffer c (mqtt_msg_subscribe rs topic qos c)"
    "opt_inside_buffer c (mqtt_msg_unsubscribe rs topic c)" by simp_all
qed

text \<open>The steps of CONNECT.\<close>

definition step_within :: "mqtt_connection \<Rightarrow> mqtt_connection + mqtt_connection \<Rightarrow> bool" where
  "step_within c0 r \<longleftrightarrow> (case r of Inl c \<Rightarrow> inside_buffer c0 c | Inr c \<Rightarrow> within c0 13 c)"

lemma step_and_then:
  "step_within c0 r \<Longrightarrow> (\<And>c. within c0 13 c \<Longrightarrow> step_within c0 (g c)) \<Longrightarrow> step_within c0 (and_then r g)"
  by (cases r) (auto simp: step_within_def)

lemma step_string:
  "within c0 13 c \<Longrightarrow> length s < 1000000 \<Longrightarrow> cn_buffer_length c0 < 65536 \<Longrightarrow> step_within c0 (connect_string s c)"
  by (auto simp: connect_string_def step_within_def intro: within_intros split: option.splits)

lemma step_optional:
  assumes "within c0 13 c" "cn_buffer_length c0 < 65536" "str \<noteq> None \<Longrightarrow> length (the str) < 1000000"
  shows "step_within c0 (connect_optional str f c)"
proof (cases "no_string str")
  case False
  then have l: "length (the str) < 1000000" using assms(3) by (auto simp: no_string_def)
  show ?thesis using False
    by (auto simp: connect_optional_def step_within_def [of _ "Inr _"]
        intro!: step_and_then step_string [OF assms(1) l assms(2)] within_flag)
qed (use assms(1) in \<open>simp add: connect_optional_def step_within_def\<close>)

lemma step_will:
  assumes "within c0 13 c" "cn_buffer_length c0 < 65536" "short_strings info"
  shows "step_within c0 (connect_will info c)"
proof (cases "no_string (will_topic info)")
  case False
  then have l: "length (the (will_topic info)) < 1000000"
    using short_stringsD(2) [OF assms(3)] by (auto simp: no_string_def)
  show ?thesis using False
    by (auto simp: connect_will_def Let_def step_within_def [of _ "Inr _"]
        intro!: step_and_then step_string [OF assms(1) l assms(2)]
          step_string [OF _ short_stringsD(3) [OF assms(3)] assms(2)] within_flag)
qed (use assms(1) in \<open>simp add: connect_will_def step_within_def\<close>)

lemma connect_in_buffer:
  assumes "3 \<le> cn_buffer_length c" "cn_buffer_length c < 65536" "short_strings info"
  shows "inside_buffer c (mqtt_msg_connect p info c)"
proof (cases "13 \<le> cn_buffer_length c")
  case False
  then have "mqtt_msg_connect p info c = fail_message (init_message c)"
    by (simp add: mqtt_msg_connect_def Let_def)
  then show ?thesis using within_fail [OF within_init [OF assms(1)]] by simp
next
  case True
  define c1 where "c1 = (init_message c)\<lparr>msg_length := msg_length (init_message c) + 10,
      cn_buffer := connect_header p (keepalive info) (cn_buffer (init_message c))\<rparr>"
  define c2 where "c2 = (if clean_session info \<noteq> 0 then connect_flag 0x02 c1 else c1)"
  have "within c 13 c1"
    using True by (auto simp: c1_def within_def connect_header_def Let_def mcpy_def)
  then have w2: "within c 13 c2" by (auto simp: c2_def intro: within_flag)
  let ?r = "and_then (if no_string (client_id info) then Inl (fail_message c2)
      else connect_string (the (client_id info)) c2) (\<lambda>c3.
         and_then (connect_will info c3) (\<lambda>c4.
         and_then (connect_optional (username info) 0x80 c4) (\<lambda>c5.
         connect_optional (password info) 0x40 c5)))"
  have "step_within c (if no_string (client_id info) then Inl (fail_message c2)
      else connect_string (the (client_id info)) c2)"
  proof (cases "no_string (client_id info)")
    case True
    then show ?thesis using within_fail [OF w2] by (simp add: step_within_def)
  next
    case False
    then have "length (the (client_id info)) < 1000000"
      using short_stringsD(1) [OF assms(3)] by (auto simp: no_string_def)
    then show ?thesis using False step_string [OF w2 _ assms(2)] by simp
  qed
  then have r: "step_within c ?r"
    using short_stringsD(4,5) [OF assms(3)] assms
    by (auto intro!: step_and_then step_will step_optional)
  have "mqtt_msg_connect p info c
      = (case ?r of Inl failed \<Rightarrow> failed | Inr c6 \<Rightarrow> fini_message MQTT_MSG_TYPE_CONNECT 0 0 0 c6)"
    using True assms(2) by (simp add: mqtt_msg_connect_def Let_def c1_def c2_def)
  moreover have "inside_buffer c (case ?r of Inl failed \<Rightarrow> failed
      | Inr c6 \<Rightarrow> fini_message MQTT_MSG_TYPE_CONNECT 0 0 0 c6)"
    using r within_fini by (cases ?r) (auto simp: step_within_def)
  ultimately show ?thesis by simp
qed

text \<open>C26: No encoder writes outside the buffer of its connection, whatever it is asked to encode, and the
  message it leaves, complete or failed, lies in the buffer, provided the buffer has the three bytes
  of the fixed header.\<close>

theorem mqtt_encoders_in_buffer:
  assumes "3 \<le> cn_buffer_length c" and "cn_buffer_length c < 65536"
    and "short_strings info"
    and "topic \<noteq> None \<Longrightarrow> length (the topic) < 1000000" and "length data < 1000000"
  shows "inside_buffer c (mqtt_msg_connect proto311 info c)
    \<and> opt_inside_buffer c (mqtt_msg_publish rs topic data qos retain c)
    \<and> opt_inside_buffer c (mqtt_msg_subscribe rs topic qos c)
    \<and> opt_inside_buffer c (mqtt_msg_unsubscribe rs topic c)
    \<and> list_all (\<lambda>f. case f rs mid c of None \<Rightarrow> True | Some (rs', c') \<Rightarrow> inside_buffer c c')
        [mqtt_msg_puback, mqtt_msg_pubrec, mqtt_msg_pubrel, mqtt_msg_pubcomp]
    \<and> list_all (\<lambda>f. inside_buffer c (f c)) [mqtt_msg_pingreq, mqtt_msg_pingresp, mqtt_msg_disconnect]"
  using connect_in_buffer [OF assms(1-3)] publish_in_buffer [OF assms(1,2,4,5)]
    subscribe_in_buffer [OF assms(1,2,4)] ack_in_buffer [OF assms(1,2)]
    within_fini [OF within_init [OF assms(1)]]
  by (simp add: mqtt_msg_puback_def mqtt_msg_pubrec_def mqtt_msg_pubrel_def mqtt_msg_pubcomp_def
      mqtt_msg_pingreq_def mqtt_msg_pingresp_def mqtt_msg_disconnect_def)

theorem mqtt_encoders_in_buffer_witness:
  "inside_buffer (mqtt_msg_init (\<lambda>_. 0) 16) (mqtt_msg_connect True sample_info (mqtt_msg_init (\<lambda>_. 0) 16))
   \<and> opt_inside_buffer (mqtt_msg_init (\<lambda>_. 0) 16)
       (mqtt_msg_publish [7] (Some [97]) (replicate 20 1) 1 0 (mqtt_msg_init (\<lambda>_. 0) 16))"
  using mqtt_encoders_in_buffer [of "mqtt_msg_init (\<lambda>_. 0) 16" sample_info "Some [97]" "replicate 20 1"]
  by (simp add: mqtt_msg_init_def sample_info_def short_strings_def)

end
