(* ===== verification/MqttOutbox.thy ===== *)
theory MqttOutbox
  imports Prelude "HOL-Library.Sublist"
begin

text \<open>
  The store of unacknowledged messages, \<open>components/mqtt/esp-mqtt/lib/mqtt_outbox.c\<close>: a singly
  linked tail queue of items, modelled as the list of its items in queue order.  The two allocations
  of \<open>outbox_enqueue\<close> are arguments.  \<open>int\<close> arithmetic is two's complement (\<open>s32_of_int\<close>).
\<close>

section \<open>Items and operations\<close>

record outbox_item =
  ob_buffer :: "u8 list"
  ob_len :: int
  ob_msg_id :: int
  ob_msg_type :: int
  ob_tick :: int
  ob_retry_count :: int
  ob_pending :: bool

type_synonym outbox = "outbox_item list"

definition outbox_init :: "bool \<Rightarrow> outbox option" where
  "outbox_init mem_ok = (if mem_ok then Some [] else None)"

definition outbox_enqueue ::
    "bool \<Rightarrow> bool \<Rightarrow> u8 list \<Rightarrow> int \<Rightarrow> int \<Rightarrow> int \<Rightarrow> outbox \<Rightarrow> outbox_item option \<times> outbox" where
  "outbox_enqueue item_ok buffer_ok data msg_id msg_type tick q =
    (if \<not> item_ok \<or> \<not> buffer_ok then (None, q)
     else let item = \<lparr>ob_buffer = data, ob_len = s32_of_int (int (length data)), ob_msg_id = msg_id,
                      ob_msg_type = msg_type, ob_tick = tick, ob_retry_count = 0, ob_pending = False\<rparr>
          in (Some item, q @ [item]))"

primrec outbox_get :: "outbox \<Rightarrow> int \<Rightarrow> outbox_item option" where
  "outbox_get [] msg_id = None"
| "outbox_get (item # q) msg_id = (if ob_msg_id item = msg_id then Some item else outbox_get q msg_id)"

primrec outbox_dequeue :: "outbox \<Rightarrow> outbox_item option" where
  "outbox_dequeue [] = None"
| "outbox_dequeue (item # q) = (if \<not> ob_pending item then Some item else outbox_dequeue q)"

primrec outbox_delete :: "outbox \<Rightarrow> int \<Rightarrow> int \<Rightarrow> esp_err \<times> outbox" where
  "outbox_delete [] msg_id msg_type = (ESP_FAIL, [])"
| "outbox_delete (item # q) msg_id msg_type =
    (if ob_msg_id item = msg_id \<and> ob_msg_type item = msg_type then (ESP_OK, q)
     else case outbox_delete q msg_id msg_type of (r, q') \<Rightarrow> (r, item # q'))"

primrec outbox_delete_msgid :: "outbox \<Rightarrow> int \<Rightarrow> outbox" where
  "outbox_delete_msgid [] msg_id = []"
| "outbox_delete_msgid (item # q) msg_id =
    (if ob_msg_id item = msg_id then outbox_delete_msgid q msg_id
     else item # outbox_delete_msgid q msg_id)"

primrec outbox_set_pending :: "outbox \<Rightarrow> int \<Rightarrow> esp_err \<times> outbox" where
  "outbox_set_pending [] msg_id = (ESP_FAIL, [])"
| "outbox_set_pending (item # q) msg_id =
    (if ob_msg_id item = msg_id then (ESP_OK, item\<lparr>ob_pending := True\<rparr> # q)
     else case outbox_set_pending q msg_id of (r, q') \<Rightarrow> (r, item # q'))"

primrec outbox_delete_msgtype :: "outbox \<Rightarrow> int \<Rightarrow> outbox" where
  "outbox_delete_msgtype [] msg_type = []"
| "outbox_delete_msgtype (item # q) msg_type =
    (if ob_msg_type item = msg_type then outbox_delete_msgtype q msg_type
     else item # outbox_delete_msgtype q msg_type)"

primrec outbox_delete_expired :: "outbox \<Rightarrow> int \<Rightarrow> int \<Rightarrow> outbox" where
  "outbox_delete_expired [] current_tick timeout = []"
| "outbox_delete_expired (item # q) current_tick timeout =
    (if s32_of_int (current_tick - ob_tick item) > timeout then outbox_delete_expired q current_tick timeout
     else item # outbox_delete_expired q current_tick timeout)"

text \<open>The running sum \<open>siz\<close>, from left to right.\<close>

primrec size_loop :: "int \<Rightarrow> outbox \<Rightarrow> int" where
  "size_loop siz [] = siz"
| "size_loop siz (item # q) = size_loop (s32_of_int (siz + ob_len item)) q"

definition outbox_get_size :: "outbox \<Rightarrow> int" where
  "outbox_get_size q = size_loop 0 q"

text \<open>\<open>STAILQ_REMOVE\<close> of the item that \<open>outbox_dequeue\<close> found.\<close>

primrec remove_first :: "outbox \<Rightarrow> outbox" where
  "remove_first [] = []"
| "remove_first (item # q) = (if \<not> ob_pending item then q else item # remove_first q)"

lemma remove_first_shorter: "outbox_dequeue q = Some item \<Longrightarrow> length (remove_first q) < length q"
  by (induction q) (auto split: if_splits)

function outbox_cleanup :: "outbox \<Rightarrow> int \<Rightarrow> esp_err \<times> outbox" where
  "outbox_cleanup q max_size =
    (if outbox_get_size q > max_size
     then case outbox_dequeue q of
            None \<Rightarrow> (ESP_FAIL, q)
          | Some item \<Rightarrow> outbox_cleanup (remove_first q) max_size
     else (ESP_OK, q))"
  by pat_completeness auto
termination by (relation "measure (\<lambda>(q, m). length q)") (auto dest: remove_first_shorter)

declare outbox_cleanup.simps [simp del]

text \<open>What \<open>outbox_destroy\<close> leaves allocated: the items that the clean-up did not remove.\<close>

definition outbox_destroy :: "outbox \<Rightarrow> outbox" where
  "outbox_destroy q = snd (outbox_cleanup q 0)"

section \<open>The operations as list functions\<close>

lemma outbox_get_find: "outbox_get q i = find (\<lambda>it. ob_msg_id it = i) q"
  by (induction q) auto

lemma outbox_dequeue_find: "outbox_dequeue q = find (\<lambda>it. \<not> ob_pending it) q"
  by (induction q) auto

lemma outbox_delete_msgid_filter: "outbox_delete_msgid q i = filter (\<lambda>it. ob_msg_id it \<noteq> i) q"
  by (induction q) auto

lemma outbox_delete_msgtype_filter: "outbox_delete_msgtype q t = filter (\<lambda>it. ob_msg_type it \<noteq> t) q"
  by (induction q) auto

lemma outbox_delete_expired_filter:
  "outbox_delete_expired q now timeout = filter (\<lambda>it. \<not> s32_of_int (now - ob_tick it) > timeout) q"
  by (induction q) auto

text \<open>The matching item that is deleted is the oldest one.\<close>

lemma outbox_delete_eq:
  "outbox_delete q i t =
     (if list_ex (\<lambda>it. ob_msg_id it = i \<and> ob_msg_type it = t) q then ESP_OK else ESP_FAIL,
      takeWhile (\<lambda>it. \<not> (ob_msg_id it = i \<and> ob_msg_type it = t)) q
        @ tl (dropWhile (\<lambda>it. \<not> (ob_msg_id it = i \<and> ob_msg_type it = t)) q))"
  by (induction q) auto

lemma outbox_delete_append:
  "\<not> list_ex (\<lambda>it. ob_msg_id it = i \<and> ob_msg_type it = t) xs \<Longrightarrow>
     outbox_delete (xs @ ys) i t = (case outbox_delete ys i t of (r, q) \<Rightarrow> (r, xs @ q))"
  by (induction xs) (auto split: prod.splits)

text \<open>Sizes add up as long as nothing overflows.\<close>

lemma size_loop_sum:
  assumes "list_all (\<lambda>it. 0 \<le> ob_len it) q" "0 \<le> siz" "siz + (\<Sum>it\<leftarrow>q. ob_len it) < 2 ^ 31"
  shows "size_loop siz q = siz + (\<Sum>it\<leftarrow>q. ob_len it)"
  using assms
proof (induction q arbitrary: siz)
  case (Cons it q)
  have "0 \<le> (\<Sum>it\<leftarrow>q. ob_len it)"
    using Cons.prems(1) by (auto intro!: sum_list_nonneg simp: list_all_iff)
  then have "s32_of_int (siz + ob_len it) = siz + ob_len it"
    using Cons.prems by (intro s32_of_int_small) auto
  then show ?case using Cons.IH [of "siz + ob_len it"] Cons.prems by (simp add: add.assoc)
qed simp

section \<open>Cleaning up\<close>

text \<open>The queue after the messages among the first \<open>k\<close> that are not pending have been dropped.\<close>

definition drop_oldest :: "nat \<Rightarrow> outbox \<Rightarrow> outbox" where
  "drop_oldest k q = filter ob_pending (take k q) @ drop k q"

lemma remove_first_append: "list_all ob_pending ps \<Longrightarrow> remove_first (ps @ q) = ps @ remove_first q"
  by (induction ps) auto

lemma outbox_dequeue_append: "list_all ob_pending ps \<Longrightarrow> outbox_dequeue (ps @ q) = outbox_dequeue q"
  by (induction ps) auto

lemma cleanup_drops:
  assumes "list_all ob_pending ps"
  shows "\<exists>k r. k \<le> length q \<and> outbox_cleanup (ps @ q) m = (r, ps @ drop_oldest k q)
     \<and> (\<forall>j<k. m < outbox_get_size (ps @ drop_oldest j q))
     \<and> (if r = ESP_OK then outbox_get_size (ps @ drop_oldest k q) \<le> m
        else r = ESP_FAIL \<and> list_all ob_pending (drop_oldest k q) \<and> m < outbox_get_size (ps @ drop_oldest k q))"
  using assms
proof (induction q arbitrary: ps)
  case Nil
  then show ?case
    using outbox_dequeue_append [of ps "[]"]
    by (simp add: drop_oldest_def outbox_cleanup.simps [of ps m])
next
  case (Cons a q)
  show ?case
  proof (cases "m < outbox_get_size (ps @ a # q)")
    case False
    then have "outbox_cleanup (ps @ a # q) m = (ESP_OK, ps @ drop_oldest 0 (a # q))"
      by (simp add: outbox_cleanup.simps [of "ps @ a # q"] drop_oldest_def)
    then show ?thesis using False by (auto simp: drop_oldest_def intro!: exI [of _ 0])
  next
    case big: True
    define qs where "qs = (if ob_pending a then ps @ [a] else ps)"
    have d: "ps @ drop_oldest (Suc j) (a # q) = qs @ drop_oldest j q" for j
      by (simp add: qs_def drop_oldest_def)
    have step: "outbox_cleanup (ps @ a # q) m = outbox_cleanup (qs @ q) m"
      using big outbox_dequeue_append [OF Cons.prems, of "a # q"] remove_first_append [OF Cons.prems, of "a # q"]
      by (simp add: outbox_cleanup.simps [of "ps @ a # q"] qs_def)
    have "list_all ob_pending qs" using Cons.prems by (simp add: qs_def)
    from Cons.IH [OF this] obtain k r where k: "k \<le> length q"
      "outbox_cleanup (qs @ q) m = (r, qs @ drop_oldest k q)"
      "\<forall>j<k. m < outbox_get_size (qs @ drop_oldest j q)"
      "if r = ESP_OK then outbox_get_size (qs @ drop_oldest k q) \<le> m
        else r = ESP_FAIL \<and> list_all ob_pending (drop_oldest k q) \<and> m < outbox_get_size (qs @ drop_oldest k q)"
      by blast
    have "m < outbox_get_size (ps @ drop_oldest j (a # q))" if "j < Suc k" for j
    proof (cases j)
      case 0
      then show ?thesis using big by (simp add: drop_oldest_def)
    next
      case (Suc i)
      then show ?thesis using that k(3) d [of i] by simp
    qed
    then have fewer: "\<forall>j<Suc k. m < outbox_get_size (ps @ drop_oldest j (a # q))" by blast
    have pend: "list_all ob_pending (drop_oldest (Suc k) (a # q))" if "list_all ob_pending (drop_oldest k q)"
      using that by (simp add: drop_oldest_def)
    have run: "outbox_cleanup (ps @ a # q) m = (r, ps @ drop_oldest (Suc k) (a # q))"
      unfolding step k(2) d ..
    have fin: "if r = ESP_OK then outbox_get_size (ps @ drop_oldest (Suc k) (a # q)) \<le> m
        else r = ESP_FAIL \<and> list_all ob_pending (drop_oldest (Suc k) (a # q))
             \<and> m < outbox_get_size (ps @ drop_oldest (Suc k) (a # q))"
      using k(4) pend unfolding d by (simp split: if_splits)
    have le: "Suc k \<le> length (a # q)" using k(1) by simp
    show ?thesis
      by (rule exI [of _ "Suc k"], rule exI [of _ r]) (intro conjI le run fewer fin)
  qed
qed

text \<open>Cleaning up the outbox drops the oldest messages that are not pending, in queue order, and no
  more of them than it takes: each queue with fewer of them dropped is still too large.  It keeps
  every pending message and the order of the rest, and either the size is then within the limit or
  only pending messages are left and the call reports failure.\<close>

theorem outbox_cleanup_correct:
  "\<exists>k r. outbox_cleanup q m = (r, drop_oldest k q)
     \<and> k \<le> length q \<and> list_all (\<lambda>j. m < outbox_get_size (drop_oldest j q)) [0..<k]
     \<and> subseq (drop_oldest k q) q \<and> filter ob_pending (drop_oldest k q) = filter ob_pending q
     \<and> (if r = ESP_OK then outbox_get_size (drop_oldest k q) \<le> m
        else r = ESP_FAIL \<and> list_all ob_pending (drop_oldest k q) \<and> m < outbox_get_size (drop_oldest k q))"
proof -
  have "list_all ob_pending []" by simp
  from cleanup_drops [OF this, of q m] obtain k r where k: "k \<le> length q" "outbox_cleanup q m = (r, drop_oldest k q)"
     "\<forall>j<k. m < outbox_get_size (drop_oldest j q)"
     "if r = ESP_OK then outbox_get_size (drop_oldest k q) \<le> m
        else r = ESP_FAIL \<and> list_all ob_pending (drop_oldest k q) \<and> m < outbox_get_size (drop_oldest k q)"
    unfolding append_Nil by blast
  have "subseq (filter ob_pending (take k q) @ drop k q) (take k q @ drop k q)"
    by (rule list_emb_append_mono) simp_all
  then have "subseq (drop_oldest k q) q" by (simp add: drop_oldest_def)
  moreover have "filter ob_pending (drop_oldest k q) = filter ob_pending q"
    using filter_append [of ob_pending "take k q" "drop k q"] by (simp add: drop_oldest_def)
  ultimately show ?thesis using k by (intro exI [of _ k] exI [of _ r]) (auto simp: list_all_iff)
qed

text \<open>A message is expired exactly when it is older than the time-out, although the tick is kept in 32
  bits: on the millisecond counter truncated to \<open>int\<close>, messages queued at the times \<open>ts\<close>, at most
  \<open>2^31 - 1\<close> ms ago, are kept when their age is at most the time-out, and dropped otherwise.\<close>

lemma outbox_expiry_exact:
  assumes "list_all2 (\<lambda>t it. ob_tick it = s32_of_int t \<and> t \<le> now \<and> now - t < 2 ^ 31) ts q"
  shows "outbox_delete_expired q (s32_of_int now) timeout
       = map snd (filter (\<lambda>(t, it). now - t \<le> timeout) (zip ts q))"
  using assms
proof (induction rule: list_all2_induct)
  case (Cons t ts it q)
  have "s32_of_int (s32_of_int now - s32_of_int t) = s32_of_int (now - t)"
    by (simp add: s32_of_int_def mod_simps algebra_simps)
  also have "\<dots> = now - t" using Cons by (intro s32_of_int_small) auto
  finally show ?case using Cons by simp
qed simp

section \<open>What the client relies on\<close>

text \<open>The client never marks a message as pending; for such a store cleaning up always gets below its
  limit.\<close>

locale message_store =
  fixes enqueue :: "bool \<Rightarrow> bool \<Rightarrow> u8 list \<Rightarrow> int \<Rightarrow> int \<Rightarrow> int \<Rightarrow> 'q \<Rightarrow> outbox_item option \<times> 'q"
    and delete :: "'q \<Rightarrow> int \<Rightarrow> int \<Rightarrow> esp_err \<times> 'q"
    and expire :: "'q \<Rightarrow> int \<Rightarrow> int \<Rightarrow> 'q"
    and clean :: "'q \<Rightarrow> int \<Rightarrow> esp_err \<times> 'q"
    and size_of :: "'q \<Rightarrow> int"
    and unmarked :: "'q \<Rightarrow> bool"
  assumes enqueue_unmarked: "unmarked q \<Longrightarrow> unmarked (snd (enqueue a b bs i t k q))"
    and delete_unmarked: "unmarked q \<Longrightarrow> unmarked (snd (delete q i t))"
    and expire_unmarked: "unmarked q \<Longrightarrow> unmarked (expire q now t)"
    and clean_unmarked: "unmarked q \<Longrightarrow> unmarked (snd (clean q m))"
    and clean_limit: "unmarked q \<Longrightarrow> 0 \<le> m \<Longrightarrow> fst (clean q m) = ESP_OK \<and> size_of (snd (clean q m)) \<le> m"
begin

lemma trim_limit:
  "unmarked q \<Longrightarrow> 0 \<le> m \<Longrightarrow> size_of (snd (clean (expire q now t) m)) \<le> m"
  using clean_limit [OF expire_unmarked] by blast

lemma trim_unmarked: "unmarked q \<Longrightarrow> unmarked (snd (clean (expire q now t) m))"
  by (intro clean_unmarked expire_unmarked)

end

definition none_pending :: "outbox \<Rightarrow> bool" where
  "none_pending q = list_all (\<lambda>it. \<not> ob_pending it) q"

lemma none_pending_delete: "none_pending q \<Longrightarrow> none_pending (snd (outbox_delete q i t))"
  by (induction q) (auto simp: none_pending_def split: prod.splits)

lemma none_pending_cleanup:
  assumes "none_pending q"
  shows "none_pending (snd (outbox_cleanup q m))"
    and "0 \<le> m \<Longrightarrow> fst (outbox_cleanup q m) = ESP_OK \<and> outbox_get_size (snd (outbox_cleanup q m)) \<le> m"
proof -
  have "list_all ob_pending []" by simp
  from cleanup_drops [OF this, of q m] obtain k r where c: "outbox_cleanup q m = (r, drop_oldest k q)"
    "if r = ESP_OK then outbox_get_size (drop_oldest k q) \<le> m
        else r = ESP_FAIL \<and> list_all ob_pending (drop_oldest k q) \<and> m < outbox_get_size (drop_oldest k q)"
    unfolding append_Nil by blast
  have "set (drop_oldest k q) \<subseteq> set q"
    by (auto simp: drop_oldest_def dest: in_set_takeD in_set_dropD)
  then have np: "none_pending (drop_oldest k q)"
    using assms by (auto simp: none_pending_def list_all_iff)
  then show "none_pending (snd (outbox_cleanup q m))" using c(1) by simp
  assume m: "0 \<le> m"
  show "fst (outbox_cleanup q m) = ESP_OK \<and> outbox_get_size (snd (outbox_cleanup q m)) \<le> m"
  proof (cases "r = ESP_OK")
    case False
    then have "list_all ob_pending (drop_oldest k q)" "m < outbox_get_size (drop_oldest k q)"
      using c(2) by simp_all
    moreover from this(1) np have "drop_oldest k q = []"
      by (cases "drop_oldest k q") (auto simp: none_pending_def)
    ultimately show ?thesis using m by (simp add: outbox_get_size_def)
  qed (use c in simp)
qed

interpretation ob: message_store outbox_enqueue outbox_delete outbox_delete_expired outbox_cleanup
  outbox_get_size none_pending
proof (unfold_locales, goal_cases)
  case (1 q a b bs i t k)
  then show ?case by (simp add: none_pending_def outbox_enqueue_def Let_def)
next
  case (3 q now t)
  then show ?case by (auto simp: none_pending_def outbox_delete_expired_filter list_all_iff)
qed (simp_all add: none_pending_delete none_pending_cleanup)

end
