(* ===== verification/MqttClient.thy ===== *)
theory MqttClient
  imports MqttConnect MqttOutbox
begin

text \<open>
  The MQTT client, \<open>components/mqtt/esp-mqtt/mqtt_client.c\<close>: connecting, publishing and subscribing,
  receiving, the keepalive timer and the task's state machine.  What is outside, the transport, the
  clock and the heap, is the argument \<open>env\<close>: functions over a state \<open>'n\<close> of the outside world that
  the client record carries along.  \<open>esp_random\<close> is the list \<open>randoms\<close>; a call that needs more of it
  is \<open>None\<close>, as is one that shifts by 32 bits or more.  The user's event handler is taken not to call
  the client: each call of it is an entry of \<open>events\<close>, the event with the memory its pointers refer to.
  Pointers into the input buffer are offsets.
\<close>

section \<open>State\<close>

datatype mqtt_client_state =
    MQTT_STATE_ERROR
  | MQTT_STATE_UNKNOWN
  | MQTT_STATE_INIT
  | MQTT_STATE_CONNECTED
  | MQTT_STATE_WAIT_TIMEOUT

datatype mqtt_event_id =
    MQTT_EVENT_ERROR
  | MQTT_EVENT_CONNECTED
  | MQTT_EVENT_DISCONNECTED
  | MQTT_EVENT_SUBSCRIBED
  | MQTT_EVENT_UNSUBSCRIBED
  | MQTT_EVENT_PUBLISHED
  | MQTT_EVENT_DATA

record mqtt_event =
  event_id :: mqtt_event_id
  ev_data :: "nat option"
  data_len :: nat
  total_data_len :: nat
  current_data_offset :: nat
  ev_topic :: "nat option"
  topic_len :: nat
  ev_msg_id :: nat
  session_present :: u8

text \<open>\<open>esp_transport_read\<close> gives its result and the bytes it left at the start of the buffer.\<close>

record 'n mqtt_env =
  transport_connect :: "'n \<Rightarrow> int \<times> 'n"
  transport_write :: "u8 list \<Rightarrow> 'n \<Rightarrow> int \<times> 'n"
  transport_read :: "nat \<Rightarrow> 'n \<Rightarrow> int \<times> u8 list \<times> 'n"
  payload_read :: "nat \<Rightarrow> 'n \<Rightarrow> int \<times> u8 list \<times> 'n"
  transport_close :: "'n \<Rightarrow> 'n"
  tick_get_ms :: "'n \<Rightarrow> int \<times> 'n"
  alloc :: "nat \<Rightarrow> 'n \<Rightarrow> bool \<times> 'n"

record 'n mqtt_client =
  in_buffer :: memory
  in_buffer_length :: nat
  out_buffer :: memory
  out_buffer_length :: nat
  message_length :: nat
  message_length_read :: nat
  connection :: mqtt_connection
  pending_msg_id :: nat
  pending_msg_type :: u8
  pending_msg_count :: int
  connect_info :: mqtt_connect_info
  cl_state :: mqtt_client_state
  keepalive_tick :: int
  reconnect_tick :: int
  wait_timeout_ms :: int
  auto_reconnect :: bool
  event :: mqtt_event
  event_handle :: bool
  cl_run :: bool
  wait_for_ping_resp :: bool
  cl_outbox :: outbox
  proto311 :: bool
  randoms :: "u32 list"
  events :: "(mqtt_event \<times> memory) list"
  net :: 'n

definition MQTT_RECONNECT_TIMEOUT_MS :: int where "MQTT_RECONNECT_TIMEOUT_MS = 10 * 1000"
definition OUTBOX_EXPIRED_TIMEOUT_MS :: int where "OUTBOX_EXPIRED_TIMEOUT_MS = 30 * 1000"
definition OUTBOX_MAX_SIZE :: int where "OUTBOX_MAX_SIZE = 4 * 1024"
definition MQTT_MSG_TYPE_CONNACK :: u8 where "MQTT_MSG_TYPE_CONNACK = 2"

section \<open>Sending\<close>

definition platform_tick_get_ms :: "'n mqtt_env \<Rightarrow> 'n mqtt_client \<Rightarrow> int \<times> 'n mqtt_client" where
  "platform_tick_get_ms env cl = (case tick_get_ms env (net cl) of (t, n) \<Rightarrow> (t, cl\<lparr>net := n\<rparr>))"

text \<open>The bytes of the outbound message, which is always the message of the connection.\<close>

definition outbound :: "'n mqtt_client \<Rightarrow> u8 list" where
  "outbound cl = msg_bytes (connection cl)"

definition mqtt_write_data :: "'n mqtt_env \<Rightarrow> 'n mqtt_client \<Rightarrow> esp_err \<times> 'n mqtt_client" where
  "mqtt_write_data env cl =
    (case transport_write env (outbound cl) (net cl) of (write_len, n) \<Rightarrow>
       let cl1 = cl\<lparr>net := n\<rparr> in
       if write_len \<le> 0 then (ESP_FAIL, cl1)
       else case platform_tick_get_ms env cl1 of (t, cl2) \<Rightarrow> (ESP_OK, cl2\<lparr>keepalive_tick := t\<rparr>))"

definition esp_mqtt_dispatch_event :: "'n mqtt_client \<Rightarrow> 'n mqtt_client" where
  "esp_mqtt_dispatch_event cl =
    (let ev = (event cl)\<lparr>ev_msg_id := mqtt_get_id (in_buffer cl) (in_buffer_length cl)\<rparr>;
         cl1 = cl\<lparr>event := ev\<rparr>
     in if event_handle cl then cl1\<lparr>events := events cl @ [(ev, in_buffer cl)]\<rparr> else cl1)"

definition raise_event :: "mqtt_event_id \<Rightarrow> 'n mqtt_client \<Rightarrow> 'n mqtt_client" where
  "raise_event e cl = esp_mqtt_dispatch_event (cl\<lparr>event := (event cl)\<lparr>event_id := e\<rparr>\<rparr>)"

definition mqtt_enqueue :: "'n mqtt_env \<Rightarrow> 'n mqtt_client \<Rightarrow> 'n mqtt_client" where
  "mqtt_enqueue env cl =
    (if pending_msg_count cl > 0
     then case platform_tick_get_ms env cl of (t, cl1) \<Rightarrow>
          case alloc env 32 (net cl1) of (item_ok, n1) \<Rightarrow>
          case (if item_ok then alloc env (length (outbound cl)) n1 else (False, n1)) of (buf_ok, n2) \<Rightarrow>
            cl1\<lparr>net := n2,
                cl_outbox := snd (outbox_enqueue item_ok buf_ok (outbound cl)
                   (int (pending_msg_id cl)) (uint (pending_msg_type cl)) (s32_of_int t) (cl_outbox cl))\<rparr>
     else cl)"

definition esp_mqtt_client_ping :: "'n mqtt_env \<Rightarrow> 'n mqtt_client \<Rightarrow> esp_err \<times> 'n mqtt_client" where
  "esp_mqtt_client_ping env cl = mqtt_write_data env (cl\<lparr>connection := mqtt_msg_pingreq (connection cl)\<rparr>)"

text \<open>The end of \<open>esp_mqtt_client_subscribe\<close> and \<open>esp_mqtt_client_unsubscribe\<close>: the message becomes the
  pending one and is sent.\<close>

definition send_pending ::
    "'n mqtt_env \<Rightarrow> nat \<times> u32 list \<times> mqtt_connection \<Rightarrow> 'n mqtt_client \<Rightarrow> int \<times> 'n mqtt_client" where
  "send_pending env r cl =
    (case r of (mid, rs, c) \<Rightarrow>
       let cl1 = cl\<lparr>connection := c, randoms := rs, pending_msg_id := mid,
                    pending_msg_type := mqtt_get_type (msg_ptr c),
                    pending_msg_count := s32_of_int (pending_msg_count cl + 1)\<rparr>
       in case mqtt_write_data env cl1 of (e, cl2) \<Rightarrow>
            (if e \<noteq> ESP_OK then - 1 else int (pending_msg_id cl2), cl2))"

text \<open>A failed encoder leaves the identifier alone that the caller passed by reference.\<close>

definition kept_id :: "nat \<Rightarrow> u8 list option \<Rightarrow> nat \<times> u32 list \<times> mqtt_connection \<Rightarrow> nat \<times> u32 list \<times> mqtt_connection" where
  "kept_id old topic r = (if no_string topic then (case r of (mid, rs, c) \<Rightarrow> (old, rs, c)) else r)"

definition esp_mqtt_client_subscribe ::
    "'n mqtt_env \<Rightarrow> u8 list option \<Rightarrow> int \<Rightarrow> 'n mqtt_client \<Rightarrow> (int \<times> 'n mqtt_client) option" where
  "esp_mqtt_client_subscribe env topic qos cl =
    (if cl_state cl \<noteq> MQTT_STATE_CONNECTED then Some (- 1, cl)
     else let cl1 = mqtt_enqueue env cl in
       case mqtt_msg_subscribe (randoms cl1) topic qos (connection cl1) of
         None \<Rightarrow> None
       | Some r \<Rightarrow> Some (send_pending env (kept_id (pending_msg_id cl1) topic r) cl1))"

definition esp_mqtt_client_unsubscribe ::
    "'n mqtt_env \<Rightarrow> u8 list option \<Rightarrow> 'n mqtt_client \<Rightarrow> (int \<times> 'n mqtt_client) option" where
  "esp_mqtt_client_unsubscribe env topic cl =
    (if cl_state cl \<noteq> MQTT_STATE_CONNECTED then Some (- 1, cl)
     else let cl1 = mqtt_enqueue env cl in
       case mqtt_msg_unsubscribe (randoms cl1) topic (connection cl1) of
         None \<Rightarrow> None
       | Some r \<Rightarrow> Some (send_pending env (kept_id (pending_msg_id cl1) topic r) cl1))"

text \<open>\<open>data\<close> is the memory from the pointer on; a length of 0 or less asks for a C string.\<close>

definition publish_data :: "u8 list \<Rightarrow> int \<Rightarrow> u8 list" where
  "publish_data data len = (if len \<le> 0 then takeWhile (\<lambda>b. b \<noteq> 0) data else take (nat len) data)"

definition esp_mqtt_client_publish ::
    "'n mqtt_env \<Rightarrow> u8 list option \<Rightarrow> u8 list \<Rightarrow> int \<Rightarrow> int \<Rightarrow> int \<Rightarrow> 'n mqtt_client
       \<Rightarrow> (int \<times> 'n mqtt_client) option" where
  "esp_mqtt_client_publish env topic data len qos retain cl =
    (if cl_state cl \<noteq> MQTT_STATE_CONNECTED then Some (- 1, cl)
     else case mqtt_msg_publish (randoms cl) topic (publish_data data len) qos retain (connection cl) of
       None \<Rightarrow> None
     | Some (mid, rs, c) \<Rightarrow>
         let cl1 = cl\<lparr>connection := c, randoms := rs\<rparr>;
             cl2 = (if qos > 0
                    then let cl' = mqtt_enqueue env cl1 in
                         cl'\<lparr>pending_msg_type := mqtt_get_type (msg_ptr c), pending_msg_id := mid,
                             pending_msg_count := s32_of_int (pending_msg_count cl' + 1)\<rparr>
                    else cl1)
         in case mqtt_write_data env cl2 of (e, cl3) \<Rightarrow>
              Some (if e \<noteq> ESP_OK then - 1 else int mid, cl3))"

section \<open>Receiving\<close>

text \<open>The loop of \<open>deliver_publish\<close>.  \<open>len\<close> is the length of the first read; the message is parsed while
  the total length is still 0, and later pieces are payload only.\<close>

definition data_event :: "nat option \<Rightarrow> nat \<Rightarrow> nat \<Rightarrow> nat \<Rightarrow> nat option \<Rightarrow> nat \<Rightarrow> 'n mqtt_client \<Rightarrow> 'n mqtt_client" where
  "data_event dat dlen tot offs topic tlen cl =
     esp_mqtt_dispatch_event (cl\<lparr>event := (event cl)\<lparr>event_id := MQTT_EVENT_DATA, ev_data := dat,
       data_len := dlen, total_data_len := tot, current_data_offset := offs, ev_topic := topic,
       topic_len := tlen\<rparr>\<rparr>)"

definition first_piece :: "nat \<Rightarrow> 'n mqtt_client \<Rightarrow> (nat option \<times> nat \<times> nat option \<times> nat \<times> nat) option" where
  "first_piece len cl =
    (case mqtt_get_publish_topic (in_buffer cl) len of None \<Rightarrow> None
     | Some (topic, tlen) \<Rightarrow>
         (case mqtt_get_publish_data (in_buffer cl) len of None \<Rightarrow> None
          | Some (dat, dlen) \<Rightarrow>
              Some (dat, dlen, topic, tlen,
                    u32_of_int (int (message_length cl) - int (message_length_read cl) + int dlen))))"

partial_function (option) deliver_loop ::
    "'n mqtt_env \<Rightarrow> nat \<Rightarrow> nat \<Rightarrow> nat \<Rightarrow> nat \<Rightarrow> 'n mqtt_client \<Rightarrow> 'n mqtt_client option" where
  "deliver_loop env len tot offs len_read cl =
    (case (if tot = 0 then first_piece len cl else Some (Some 0, len_read, None, 0, tot)) of
       None \<Rightarrow> None
     | Some (dat, dlen, topic, tlen, total1) \<Rightarrow>
         let cl1 = data_event dat dlen total1 offs topic tlen cl;
             offs1 = (offs + dlen) mod 2 ^ 32;
             missing = u32_of_int (int (message_length cl1) - int (message_length_read cl1))
         in if message_length_read cl1 \<ge> message_length cl1 then Some cl1
            else case payload_read env (if missing > in_buffer_length cl1 then in_buffer_length cl1 else missing)
                        (net cl1) of
              (n, bs, w) \<Rightarrow>
                let cl2 = cl1\<lparr>in_buffer := mcpy (in_buffer cl1) 0 bs, net := w\<rparr>
                in if n \<le> 0 then Some cl2
                   else deliver_loop env len total1 offs1 (nat n)
                          (cl2\<lparr>message_length_read := u32_of_int (int (message_length_read cl2) + n)\<rparr>))"

definition deliver_publish :: "'n mqtt_env \<Rightarrow> nat \<Rightarrow> 'n mqtt_client \<Rightarrow> 'n mqtt_client option" where
  "deliver_publish env len cl = deliver_loop env len 0 0 0 cl"

definition is_valid_mqtt_msg :: "u8 \<Rightarrow> nat \<Rightarrow> 'n mqtt_client \<Rightarrow> bool \<times> 'n mqtt_client" where
  "is_valid_mqtt_msg msg_type msg_id cl =
    (if pending_msg_count cl = 0 then (False, cl)
     else case outbox_delete (cl_outbox cl) (int msg_id) (uint msg_type) of (r, q) \<Rightarrow>
       let cl1 = cl\<lparr>cl_outbox := q\<rparr>; less = (\<lambda>c. c\<lparr>pending_msg_count := s32_of_int (pending_msg_count c - 1)\<rparr>)
       in if r = ESP_OK then (True, less cl1)
          else if pending_msg_type cl = msg_type \<and> pending_msg_id cl = msg_id then (True, less cl1)
          else (False, cl1))"

definition on_ack :: "u8 \<Rightarrow> mqtt_event_id \<Rightarrow> nat \<Rightarrow> 'n mqtt_client \<Rightarrow> 'n mqtt_client" where
  "on_ack msg_type e msg_id cl =
    (case is_valid_mqtt_msg msg_type msg_id cl of (ok, cl1) \<Rightarrow> if ok then raise_event e cl1 else cl1)"

text \<open>An answer built in the output buffer and written; the result of writing it is ignored.\<close>

definition answer ::
    "'n mqtt_env \<Rightarrow> (u32 list \<Rightarrow> nat \<Rightarrow> mqtt_connection \<Rightarrow> (u32 list \<times> mqtt_connection) option) \<Rightarrow> nat
       \<Rightarrow> 'n mqtt_client \<Rightarrow> 'n mqtt_client option" where
  "answer env build msg_id cl =
    (case build (randoms cl) msg_id (connection cl) of None \<Rightarrow> None
     | Some (rs, c) \<Rightarrow> Some (snd (mqtt_write_data env (cl\<lparr>randoms := rs, connection := c\<rparr>))))"

definition on_publish :: "'n mqtt_env \<Rightarrow> nat \<Rightarrow> u8 \<Rightarrow> nat \<Rightarrow> 'n mqtt_client \<Rightarrow> 'n mqtt_client option" where
  "on_publish env read_len qos msg_id cl =
    (case (if qos = 1 then answer env mqtt_msg_puback msg_id cl
           else if qos = 2 then answer env mqtt_msg_pubrec msg_id cl else Some cl) of
       None \<Rightarrow> None
     | Some cl1 \<Rightarrow>
         (case mqtt_get_total_length (in_buffer cl1) read_len of None \<Rightarrow> None
          | Some tot \<Rightarrow>
              deliver_publish env read_len
                (cl1\<lparr>message_length_read := read_len, message_length := unat tot\<rparr>)))"

definition handle_message :: "'n mqtt_env \<Rightarrow> nat \<Rightarrow> 'n mqtt_client \<Rightarrow> 'n mqtt_client option" where
  "handle_message env read_len cl =
    (let b = in_buffer cl; msg_type = mqtt_get_type b; msg_id = mqtt_get_id b (in_buffer_length cl) in
     if msg_type = MQTT_MSG_TYPE_SUBACK
     then Some (on_ack MQTT_MSG_TYPE_SUBSCRIBE MQTT_EVENT_SUBSCRIBED msg_id cl)
     else if msg_type = MQTT_MSG_TYPE_UNSUBACK
     then Some (on_ack MQTT_MSG_TYPE_UNSUBSCRIBE MQTT_EVENT_UNSUBSCRIBED msg_id cl)
     else if msg_type = MQTT_MSG_TYPE_PUBLISH then on_publish env read_len (mqtt_get_qos b) msg_id cl
     else if msg_type = MQTT_MSG_TYPE_PUBACK
     then Some (on_ack MQTT_MSG_TYPE_PUBLISH MQTT_EVENT_PUBLISHED msg_id cl)
     else if msg_type = MQTT_MSG_TYPE_PUBREC then answer env mqtt_msg_pubrel msg_id cl
     else if msg_type = MQTT_MSG_TYPE_PUBREL then answer env mqtt_msg_pubcomp msg_id cl
     else if msg_type = MQTT_MSG_TYPE_PUBCOMP
     then Some (on_ack MQTT_MSG_TYPE_PUBLISH MQTT_EVENT_PUBLISHED msg_id cl)
     else if msg_type = MQTT_MSG_TYPE_PINGRESP then Some (cl\<lparr>wait_for_ping_resp := False\<rparr>)
     else Some cl)"

definition mqtt_process_receive :: "'n mqtt_env \<Rightarrow> 'n mqtt_client \<Rightarrow> (esp_err \<times> 'n mqtt_client) option" where
  "mqtt_process_receive env cl =
    (case transport_read env (in_buffer_length cl) (net cl) of (read_len, bs, n) \<Rightarrow>
       let cl1 = cl\<lparr>in_buffer := mcpy (in_buffer cl) 0 bs, net := n\<rparr> in
       if read_len < 0 then Some (ESP_FAIL, cl1)
       else if read_len = 0 then Some (ESP_OK, cl1)
       else map_option (\<lambda>c. (ESP_OK, c)) (handle_message env (nat read_len) cl1))"

section \<open>Connecting\<close>

definition esp_mqtt_connect :: "'n mqtt_env \<Rightarrow> 'n mqtt_client \<Rightarrow> esp_err \<times> 'n mqtt_client" where
  "esp_mqtt_connect env cl =
    (let c = mqtt_msg_connect (proto311 cl) (connect_info cl) (mqtt_msg_init (out_buffer cl) (out_buffer_length cl));
         cl1 = cl\<lparr>wait_for_ping_resp := False, connection := c, pending_msg_type := mqtt_get_type (msg_ptr c),
                  pending_msg_id := mqtt_get_id (msg_ptr c) (msg_length c)\<rparr>
     in case transport_write env (outbound cl1) (net cl1) of (write_len, n1) \<Rightarrow>
        let cl2 = cl1\<lparr>net := n1\<rparr> in
        if write_len < 0 then (ESP_FAIL, cl2)
        else case transport_read env (in_buffer_length cl2) n1 of (read_len, bs, n2) \<Rightarrow>
          let cl3 = cl2\<lparr>net := n2, in_buffer := mcpy (in_buffer cl2) 0 bs\<rparr> in
          if read_len < 0 then (ESP_FAIL, cl3)
          else if mqtt_get_type (in_buffer cl3) \<noteq> MQTT_MSG_TYPE_CONNACK then (ESP_FAIL, cl3)
          else if mqtt_get_connect_return_code (in_buffer cl3) = 0 then (ESP_OK, cl3)
          else (ESP_FAIL, cl3))"

definition esp_mqtt_abort_connection :: "'n mqtt_env \<Rightarrow> 'n mqtt_client \<Rightarrow> 'n mqtt_client" where
  "esp_mqtt_abort_connection env cl =
    (case platform_tick_get_ms env (cl\<lparr>net := transport_close env (net cl)\<rparr>) of (t, cl1) \<Rightarrow>
       raise_event MQTT_EVENT_DISCONNECTED
         (cl1\<lparr>wait_timeout_ms := MQTT_RECONNECT_TIMEOUT_MS, reconnect_tick := t,
              cl_state := MQTT_STATE_WAIT_TIMEOUT, wait_for_ping_resp := False\<rparr>))"

section \<open>The task\<close>

text \<open>Half of the keepalive time in milliseconds, in \<open>int\<close> with division towards 0.\<close>

definition ping_interval :: "'n mqtt_client \<Rightarrow> int" where
  "ping_interval cl =
    (let k = s32_of_int (keepalive (connect_info cl) * 1000) in if k < 0 then - ((- k) div 2) else k div 2)"

definition task_init :: "'n mqtt_env \<Rightarrow> 'n mqtt_client \<Rightarrow> 'n mqtt_client" where
  "task_init env cl =
    (case transport_connect env (net cl) of (r, n) \<Rightarrow>
       let cl1 = cl\<lparr>net := n\<rparr> in
       if r < 0 then esp_mqtt_abort_connection env cl1
       else case esp_mqtt_connect env cl1 of (e, cl2) \<Rightarrow>
         if e \<noteq> ESP_OK then esp_mqtt_abort_connection env cl2
         else raise_event MQTT_EVENT_CONNECTED
                (cl2\<lparr>event := (event cl2)\<lparr>session_present := mqtt_get_connect_session_present (in_buffer cl2)\<rparr>,
                     cl_state := MQTT_STATE_CONNECTED\<rparr>))"

text \<open>The keepalive check; the flag says whether the connection is still up.\<close>

definition keepalive_check :: "'n mqtt_env \<Rightarrow> 'n mqtt_client \<Rightarrow> bool \<times> 'n mqtt_client" where
  "keepalive_check env cl =
    (case platform_tick_get_ms env cl of (t, cl1) \<Rightarrow>
       if t - keepalive_tick cl1 > ping_interval cl1
       then if wait_for_ping_resp cl1
            then (False, (esp_mqtt_abort_connection env cl1)\<lparr>wait_for_ping_resp := False\<rparr>)
            else case esp_mqtt_client_ping env cl1 of (e, cl2) \<Rightarrow>
              if e = ESP_FAIL then (False, esp_mqtt_abort_connection env cl2)
              else (True, cl2\<lparr>wait_for_ping_resp := True\<rparr>)
       else (True, cl1))"

definition trim_outbox :: "'n mqtt_env \<Rightarrow> 'n mqtt_client \<Rightarrow> 'n mqtt_client" where
  "trim_outbox env cl =
    (case platform_tick_get_ms env cl of (t, cl1) \<Rightarrow>
       cl1\<lparr>cl_outbox := snd (outbox_cleanup
             (outbox_delete_expired (cl_outbox cl1) (s32_of_int t) OUTBOX_EXPIRED_TIMEOUT_MS) OUTBOX_MAX_SIZE)\<rparr>)"

definition task_connected :: "'n mqtt_env \<Rightarrow> 'n mqtt_client \<Rightarrow> 'n mqtt_client option" where
  "task_connected env cl =
    (case mqtt_process_receive env cl of None \<Rightarrow> None
     | Some (e, cl1) \<Rightarrow>
         if e = ESP_FAIL then Some (esp_mqtt_abort_connection env cl1)
         else case keepalive_check env cl1 of (up, cl2) \<Rightarrow>
           Some (if up then trim_outbox env cl2 else cl2))"

definition task_wait :: "'n mqtt_env \<Rightarrow> 'n mqtt_client \<Rightarrow> 'n mqtt_client" where
  "task_wait env cl =
    (if \<not> auto_reconnect cl then cl\<lparr>cl_run := False\<rparr>
     else case platform_tick_get_ms env cl of (t, cl1) \<Rightarrow>
       if t - reconnect_tick cl1 > wait_timeout_ms cl1
       then (case platform_tick_get_ms env (cl1\<lparr>cl_state := MQTT_STATE_INIT\<rparr>) of (t2, cl2) \<Rightarrow>
               cl2\<lparr>reconnect_tick := t2\<rparr>)
       else cl1)"

text \<open>One round of the loop of \<open>esp_mqtt_task\<close>, with a transport for the scheme.\<close>

definition task_step :: "'n mqtt_env \<Rightarrow> 'n mqtt_client \<Rightarrow> 'n mqtt_client option" where
  "task_step env cl =
    (case cl_state cl of
       MQTT_STATE_INIT \<Rightarrow> Some (task_init env cl)
     | MQTT_STATE_CONNECTED \<Rightarrow> task_connected env cl
     | MQTT_STATE_WAIT_TIMEOUT \<Rightarrow> Some (task_wait env cl)
     | MQTT_STATE_ERROR \<Rightarrow> Some cl
     | MQTT_STATE_UNKNOWN \<Rightarrow> Some cl)"

definition task_start :: "'n mqtt_client \<Rightarrow> 'n mqtt_client" where
  "task_start cl = cl\<lparr>cl_run := True, cl_state := MQTT_STATE_INIT\<rparr>"

definition esp_mqtt_client_start :: "bool \<Rightarrow> 'n mqtt_client \<Rightarrow> esp_err \<times> 'n mqtt_client" where
  "esp_mqtt_client_start task_ok cl =
    (if cl_state cl \<in> {MQTT_STATE_INIT, MQTT_STATE_CONNECTED, MQTT_STATE_WAIT_TIMEOUT} then (ESP_FAIL, cl)
     else if task_ok then (ESP_OK, task_start cl) else (ESP_FAIL, cl))"

text \<open>\<open>esp_mqtt_client_stop\<close>, with the task's last round and its closing of the transport.\<close>

definition esp_mqtt_client_stop :: "'n mqtt_env \<Rightarrow> 'n mqtt_client \<Rightarrow> esp_err \<times> 'n mqtt_client" where
  "esp_mqtt_client_stop env cl =
    (if cl_run cl
     then (ESP_OK, cl\<lparr>cl_run := False, net := transport_close env (net cl), cl_state := MQTT_STATE_UNKNOWN\<rparr>)
     else (ESP_FAIL, cl))"

end
