(* ===== verification/MqttReceive.thy ===== *)
theory MqttReceive
  imports MqttClient
begin

text \<open>
  Receiving in \<open>mqtt_client.c\<close>: a PUBLISH message that arrives in pieces is handed to the
  application piece by piece, and what else a read brings is lost.  The parsers are applied to a
  prefix of the reference encoding (\<open>prefix_wire\<close>); \<open>serves\<close> states what the transport is expected to
  do, and \<open>pieces\<close> what the application should see.
\<close>

section \<open>The parsers on the first part of a message\<close>

lemma mget_take: "m \<le> n \<Longrightarrow> mget b a m = take m (mget b a n)"
  by (rule nth_equalityI) auto

lemma mget_drop: "mget b (a + k) m = drop k (mget b a (k + m))"
  by (simp add: mget_add)

text \<open>A buffer that holds the first \<open>k\<close> bytes of a message agrees there with one that holds it all.\<close>

lemma prefix_agrees:
  assumes "mget b 0 k = take k L" "k \<le> length L" "x + m \<le> k"
  shows "mget b x m = mget (mcpy b 0 L) x m"
proof (rule mget_cong)
  fix i assume "x \<le> i" "i < x + m"
  then have i: "i < k" using assms(3) by linarith
  then have "b i = L ! i" using arg_cong [OF assms(1), of "\<lambda>l. l ! i"] by simp
  then show "b i = mcpy b 0 L i" using i assms(2) by (simp add: mem_simps)
qed

lemma prefix_wire:
  assumes L: "L = wire ty qos retain (mstr t @ ids @ data)"
    and b: "mget b 0 k = take k L"
    and q: "ty \<in> set (map of_nat [0..<16])" "qos \<in> {0, 1, 2}" "retain \<in> {0, 1}"
    and ids: "length ids = (if qos > 0 then 2 else 0)"
    and r: "length (mstr t @ ids @ data) < 16384"
    and h: "h = Suc (length (remaining_bytes (length (mstr t @ ids @ data))))"
    and k: "h + 2 + length t + length ids < k" "k \<le> length L"
  shows "mqtt_get_publish_topic b k = Some (Some (h + 2), length t)"
    and "mget b (h + 2) (length t) = t"
    and "mqtt_get_publish_data b k
           = Some (Some (h + 2 + length t + length ids), k - (h + 2 + length t + length ids))"
    and "mget b (h + 2 + length t + length ids) (k - (h + 2 + length t + length ids))
           = take (k - (h + 2 + length t + length ids)) data"
    and "mqtt_get_total_length b k = Some (of_nat (length L))"
    and "length L = h + 2 + length t + length ids + length data"
proof -
  let ?B = "mcpy b 0 L" and ?i = "h + 2 + length t" and ?j = "h + 2 + length t + length ids"
  have g: "mget ?B 0 (length L) = wire ty qos retain (mstr t @ ids @ data)"
    using L by (simp add: mem_simps)
  note agree = prefix_agrees [OF b k(2)]
  note p = wire_parts [OF g]
  show n: "length L = ?j + length data" using p(4) h by simp
  have "b 0 = ?B 0" using agree [of 0 1] k(1) by (simp add: mget_Suc)
  then have b0: "b 0 = fixed_header ty 0 qos retain" using p(1) by simp
  have lens: "1 + length (remaining_bytes (length (mstr t @ ids @ data))) \<le> k"
    "h + 2 \<le> k" "h + 2 + length t \<le> k" using k(1) h by simp_all
  have b1: "mget b 1 (length (remaining_bytes (length (mstr t @ ids @ data))))
      = remaining_bytes (length (mstr t @ ids @ data))"
    using agree [OF lens(1)] p(2) by simp
  have lk: "length (remaining_bytes (length (mstr t @ ids @ data))) < k" using k(1) h by linarith
  note loop = remaining_loop_ok [OF b1 r lk, folded h]
  have "mget b h 2 = mget ?B h 2" by (rule agree [OF lens(2)])
  then have "b h = ?B h \<and> b (h + 1) = ?B (h + 1)" by (simp add: mget_Suc numeral_2_eq_2)
  then have be: "be16 b h = length t"
    using string_wire(1) [OF g r] unfolding h be16_def by simp
  show tt: "mget b (h + 2) (length t) = t"
    using agree [OF lens(3)] string_wire(2) [OF g r] unfolding h by simp
  show "mqtt_get_publish_topic b k = Some (Some (h + 2), length t)"
    using be k(1) unfolding mqtt_get_publish_topic_def loop by (simp add: Let_def)
  note f = header_fields [of b _ qos retain, OF b0 q]
  have qq: "0 < mqtt_get_qos b \<longleftrightarrow> qos > 0" using q(2) f(2) by auto
  have n16: "length L < 20000"
    using n r length_remaining(2) [of "length (mstr t @ ids @ data)"] h by simp
  have s: "(of_nat (length (mstr t @ ids @ data)) + of_nat h :: u32) = of_nat (length L)"
    using n h by simp
  have tot: "sint (of_nat (length (mstr t @ ids @ data)) + of_nat h :: u32) = int (length L)"
    unfolding s using n16 by (simp add: signed_of_nat signed_take_bit_int_eq_self)
  have c: "\<not> k \<le> h + 2" "\<not> k \<le> ?i" "qos > 0 \<Longrightarrow> \<not> k \<le> ?i + 2" "\<not> int (length L) < int ?j"
    "int (length L) \<le> int k \<Longrightarrow> nat (int (length L) - int ?j) = k - ?j"
    using k n ids by auto
  show "mqtt_get_publish_data b k = Some (Some ?j, k - ?j)"
    using c ids unfolding mqtt_get_publish_data_def loop option.case prod.case tot Let_def be qq
    by auto
  show "mqtt_get_total_length b k = Some (of_nat (length L))"
  proof -
    have "k < 65536" using k(2) n16 by linarith
    then show ?thesis using loop s by (simp add: mqtt_get_total_length_def)
  qed
  have "mget ?B ?i (length (ids @ data)) = ids @ data"
    using string_wire(3) [OF g r] unfolding h .
  then have "mget ?B ?i (length ids + length data) = ids @ data" by simp
  from mget_split [OF this refl] have d: "mget ?B ?j (length data) = data" by simp
  have "k - ?j \<le> length data" using k(2) n by linarith
  then have "mget ?B ?j (k - ?j) = take (k - ?j) data"
    using mget_take [of "k - ?j" "length data" ?B ?j] d by simp
  moreover have "mget b ?j (k - ?j) = mget ?B ?j (k - ?j)"
    by (rule agree) (use k(1) in linarith)
  ultimately show "mget b ?j (k - ?j) = take (k - ?j) data" by simp
qed

section \<open>A message that arrives in pieces\<close>

text \<open>The transport delivers the pieces \<open>ps\<close>, one for each read, no longer than what was asked for: the
  room in the buffer, or what is missing of the message.\<close>

primrec serves :: "'n mqtt_env \<Rightarrow> nat \<Rightarrow> 'n \<Rightarrow> u8 list list \<Rightarrow> bool" where
  "serves env cap w [] \<longleftrightarrow> True"
| "serves env cap w (p # ps) \<longleftrightarrow>
     (let want = (if length (concat (p # ps)) > cap then cap else length (concat (p # ps)));
          r = payload_read env want w
      in p \<noteq> [] \<and> length p \<le> cap \<and> fst r = int (length p) \<and> fst (snd r) = p
         \<and> serves env cap (snd (snd r)) ps)"

text \<open>What the application sees of an event: total length, offset, the bytes, and the topic if any.\<close>

fun seen :: "mqtt_event \<times> memory \<Rightarrow> nat \<times> nat \<times> u8 list \<times> u8 list option" where
  "seen (e, m) = (total_data_len e, current_data_offset e, mget m (the (ev_data e)) (data_len e),
     map_option (\<lambda>a. mget m a (topic_len e)) (ev_topic e))"

primrec pieces :: "nat \<Rightarrow> nat \<Rightarrow> u8 list option \<Rightarrow> u8 list list
    \<Rightarrow> (nat \<times> nat \<times> u8 list \<times> u8 list option) list" where
  "pieces tot offs topic [] = []"
| "pieces tot offs topic (p # ps) = (tot, offs, p, topic) # pieces tot (offs + length p) None ps"

lemma data_event_sel [simp]:
  "message_length (data_event d dl tot offs tp tn cl) = message_length cl"
  "message_length_read (data_event d dl tot offs tp tn cl) = message_length_read cl"
  "in_buffer (data_event d dl tot offs tp tn cl) = in_buffer cl"
  "in_buffer_length (data_event d dl tot offs tp tn cl) = in_buffer_length cl"
  "net (data_event d dl tot offs tp tn cl) = net cl"
  "event_handle (data_event d dl tot offs tp tn cl) = event_handle cl"
  by (simp_all add: data_event_def esp_mqtt_dispatch_event_def Let_def)

lemma data_event_seen:
  "event_handle cl \<Longrightarrow> map seen (events (data_event d dl tot offs tp tn cl))
     = map seen (events cl) @ [(tot, offs, mget (in_buffer cl) (the d) dl,
         map_option (\<lambda>a. mget (in_buffer cl) a tn) tp)]"
  by (simp add: data_event_def esp_mqtt_dispatch_event_def Let_def)

text \<open>One round of the loop, and all of them, once the piece \<open>p\<close> of the payload has been found.\<close>

lemma deliver_rest:
  assumes "event_handle cl" "serves env (in_buffer_length cl) (net cl) ps"
    and "message_length cl < 2 ^ 31"
    and "message_length_read cl + length (concat ps) = message_length cl"
    and "offs + dl + length (concat ps) < 2 ^ 31" and "tot \<noteq> 0"
    and "mget (in_buffer cl) (the d) dl = p" "length p = dl"
    and "(if tot0 = 0 then first_piece len cl else Some (Some 0, lr, None, 0, tot0)) = Some (d, dl, tp, tn, tot)"
    and "topic = map_option (\<lambda>a. mget (in_buffer cl) a tn) tp"
  shows "\<exists>cl'. deliver_loop env len tot0 offs lr cl = Some cl'
     \<and> message_length_read cl' = message_length cl
     \<and> map seen (events cl') = map seen (events cl) @ pieces tot offs topic (p # ps)"
  using assms
proof (induction ps arbitrary: cl offs d dl tp tn tot0 lr topic p)
  case Nil
  let ?cl1 = "data_event d dl tot offs tp tn cl"
  have "deliver_loop env len tot0 offs lr cl = Some ?cl1"
    using Nil.prems(4) unfolding deliver_loop.simps [of env len tot0] Nil.prems(9) by simp
  then show ?case
    using Nil.prems(1,4,7,8,10) data_event_seen [OF Nil.prems(1), of d dl tot offs tp tn] by auto
next
  case (Cons p1 ps)
  let ?cl1 = "data_event d dl tot offs tp tn cl"
  let ?miss = "length (concat (p1 # ps))"
  let ?want = "if ?miss > in_buffer_length cl then in_buffer_length cl else ?miss"
  obtain n bs w where r: "payload_read env ?want (net cl) = (n, bs, w)" by (metis prod_cases3)
  then have n: "n = int (length p1)" "bs = p1" "p1 \<noteq> []" "serves env (in_buffer_length cl) w ps"
    using Cons.prems(2) by (simp_all add: Let_def)
  have miss: "u32_of_int (int (message_length cl) - int (message_length_read cl)) = ?miss"
  proof -
    have "int (message_length cl) - int (message_length_read cl) = int ?miss" using Cons.prems(4) by linarith
    moreover have "message_length cl < 4294967296" using Cons.prems(3) by simp
    then have "?miss < 4294967296" using Cons.prems(4) by linarith
    ultimately show ?thesis by simp
  qed
  have more: "\<not> message_length cl \<le> message_length_read cl" 
  proof -
    have "0 < length p1" using n(3) by simp
    moreover have "?miss = length p1 + length (concat ps)" by simp
    ultimately show ?thesis using Cons.prems(4) by linarith
  qed
  define cl3 where "cl3 = (?cl1\<lparr>in_buffer := mcpy (in_buffer cl) 0 p1, net := w\<rparr>)
      \<lparr>message_length_read := message_length_read cl + length p1\<rparr>"
  have rd: "u32_of_int (int (message_length_read cl) + n) = message_length_read cl + length p1"
    using Cons.prems(3,4) n(1) by (simp add: nat_add_distrib)
  have o: "(offs + dl) mod 2 ^ 32 = offs + dl" using Cons.prems(5) by simp
  have step: "deliver_loop env len tot0 offs lr cl = deliver_loop env len tot (offs + dl) (length p1) cl3"
    unfolding deliver_loop.simps [of env len tot0] Cons.prems(9) option.case prod.case Let_def
      data_event_sel miss if_not_P [OF more] r
    using n(1-3) rd o by (simp add: cl3_def)
  have ih: "\<exists>cl'. deliver_loop env len tot (offs + dl) (length p1) cl3 = Some cl'
     \<and> message_length_read cl' = message_length cl3
     \<and> map seen (events cl') = map seen (events cl3) @ pieces tot (offs + dl) None (p1 # ps)"
  proof (rule Cons.IH)
    show "(if tot = 0 then first_piece len cl3 else Some (Some 0, length p1, None, 0, tot))
        = Some (Some 0, length p1, None, 0, tot)" using Cons.prems(6) by simp
    show "mget (in_buffer cl3) (the (Some 0)) (length p1) = p1" by (simp add: cl3_def mem_simps)
  qed (use Cons.prems n in \<open>simp_all add: cl3_def\<close>)
  have "map seen (events cl3) = map seen (events cl) @ [(tot, offs, p, topic)]"
    using data_event_seen [OF Cons.prems(1), of d dl tot offs tp tn] Cons.prems(7,10) by (simp add: cl3_def)
  then show ?case using ih step Cons.prems(8) by (auto simp: cl3_def)
qed

lemma deliver_publish_pieces:
  assumes L: "L = wire MQTT_MSG_TYPE_PUBLISH qos retain (publish_body t qos mid data)"
    and q: "qos \<in> {0, 1, 2}" "retain \<in> {0, 1}"
    and r: "length (publish_body t qos mid data) < 16384"
    and k: "length L - length data < k" "k \<le> length L"
    and b: "mget (in_buffer cl) 0 k = take k L"
    and m: "message_length_read cl = k" "message_length cl = length L"
    and ps: "drop k L = concat ps" "serves env (in_buffer_length cl) (net cl) ps"
    and h: "event_handle cl"
  shows "\<exists>cl'. deliver_publish env k cl = Some cl' \<and> message_length_read cl' = length L
     \<and> map seen (events cl') = map seen (events cl)
         @ pieces (length data) 0 (Some t) (take (k - (length L - length data)) data # ps)"
proof -
  let ?ids = "if qos > 0 then mid_bytes mid else []"
  define bs where "bs = mstr t @ ?ids @ data"
  define i where "i = Suc (length (remaining_bytes (length bs)))"
  have body: "publish_body t qos mid data = mstr t @ ?ids @ data" by (simp add: publish_body_def)
  have ids: "length ?ids = (if qos > 0 then 2 else 0)" by simp
  have r': "length (mstr t @ ?ids @ data) < 16384" using r body by simp
  let ?j = "i + 2 + length t + length ?ids"
  have n: "length L = ?j + length data"
    using L by (simp add: length_wire body bs_def i_def)
  have kj: "?j < k" using k(1) n by simp
  note p = prefix_wire [OF L [unfolded body] b type_in_range(1) q ids r' i_def [unfolded bs_def] kj k(2)]
  have n16: "length L < 20000"
    using n r' length_remaining(2) [of "length bs"] unfolding i_def by simp
  have tot: "u32_of_int (int (message_length cl) - int (message_length_read cl) + int (k - ?j)) = length data"
  proof -
    have "int (message_length cl) - int (message_length_read cl) + int (k - ?j) = int (length data)"
      using m n kj k(2) by linarith
    then show ?thesis using n16 n by simp
  qed
  have first: "first_piece k cl = Some (Some ?j, k - ?j, Some (i + 2), length t, length data)"
    unfolding first_piece_def p(1) p(3) option.case prod.case tot ..
  have c: "length (concat ps) = length L - k" using arg_cong [OF ps(1), of length] by simp
  have "\<exists>cl'. deliver_loop env k 0 0 0 cl = Some cl' \<and> message_length_read cl' = message_length cl
     \<and> map seen (events cl') = map seen (events cl)
         @ pieces (length data) 0 (Some t) (take (k - ?j) data # ps)"
  proof (rule deliver_rest [OF h ps(2)])
    show "message_length cl < 2 ^ 31" using m(2) n16 by simp
    show "message_length_read cl + length (concat ps) = message_length cl" using m c k(2) by simp
    have z: "0 + (k - ?j) + length (concat ps) < 20000" unfolding c using n16 k(2) by linarith
    show "0 + (k - ?j) + length (concat ps) < 2 ^ 31" by (rule less_trans [OF z]) simp
    have "0 < length data" using kj k(2) n by linarith
    then show "length data \<noteq> 0" by simp
    show "mget (in_buffer cl) (the (Some ?j)) (k - ?j) = take (k - ?j) data" using p(4) by simp
    show "length (take (k - ?j) data) = k - ?j" using k(2) n by simp
    show "(if (0::nat) = 0 then first_piece k cl else Some (Some 0, 0, None, 0, 0))
        = Some (Some ?j, k - ?j, Some (i + 2), length t, length data)" using first by simp
    show "Some t = map_option (\<lambda>a. mget (in_buffer cl) a (length t)) (Some (i + 2))" using p(2) by simp
  qed
  moreover have "length L - length data = ?j" using n by simp
  ultimately show ?thesis by (simp add: deliver_publish_def m)
qed

lemma write_data_sel [simp]:
  "in_buffer (snd (mqtt_write_data env cl)) = in_buffer cl"
  "in_buffer_length (snd (mqtt_write_data env cl)) = in_buffer_length cl"
  "events (snd (mqtt_write_data env cl)) = events cl"
  "event_handle (snd (mqtt_write_data env cl)) = event_handle cl"
  by (simp_all add: mqtt_write_data_def platform_tick_get_ms_def Let_def split: prod.splits)

lemma answer_sel:
  "answer env build i cl = Some cl' \<Longrightarrow> in_buffer cl' = in_buffer cl
     \<and> in_buffer_length cl' = in_buffer_length cl \<and> events cl' = events cl \<and> event_handle cl' = event_handle cl"
  by (auto simp: answer_def split: option.splits prod.splits)

text \<open>C27: A PUBLISH message with a remaining length below 16384 whose first read brings the whole header, the topic, the
  identifier and at least one byte of the payload, and nothing behind the message, reaches the application
  complete and in order, however the rest of the payload is cut into reads that bring at least one byte each
  and no more than they ask for: the data events carry the pieces of the payload with their offsets and the
  total length, the topic comes with the first of them, and nothing else is delivered.  The acknowledgement of
  a message of quality of service 1 or 2 is taken to be built before (it needs no random number unless the
  identifier is 0).  A first read that ends inside the header or the topic is outside of this: it is not
  completed by the code.\<close>

theorem mqtt_receive_publish:
  assumes "L = wire MQTT_MSG_TYPE_PUBLISH qos retain (publish_body t qos mid data)"
    and "qos \<in> {0, 1, 2}" and "retain \<in> {0, 1}"
    and "length (publish_body t qos mid data) < 16384"
    and "length L - length data < k" and "k \<le> length L"
    and "transport_read env (in_buffer_length cl) (net cl) = (int k, take k L, w)"
    and "cl0 = cl\<lparr>in_buffer := mcpy (in_buffer cl) 0 (take k L), net := w\<rparr>"
    and "(if qos = 1 then answer env mqtt_msg_puback (mqtt_get_id (in_buffer cl0) (in_buffer_length cl0)) cl0
          else if qos = 2 then answer env mqtt_msg_pubrec (mqtt_get_id (in_buffer cl0) (in_buffer_length cl0)) cl0
          else Some cl0) = Some cl1"
    and "drop k L = concat ps" and "serves env (in_buffer_length cl) (net cl1) ps"
    and "event_handle cl"
  shows "\<exists>cl'. mqtt_process_receive env cl = Some (ESP_OK, cl')
     \<and> map seen (events cl') = map seen (events cl)
         @ pieces (length data) 0 (Some t) (take (k - (length L - length data)) data # ps)"
proof -
  have k0: "0 < k" using assms(5) by simp
  have sel: "in_buffer cl1 = in_buffer cl0" "in_buffer_length cl1 = in_buffer_length cl"
    "events cl1 = events cl" "event_handle cl1"
    using assms(9,12) answer_sel [of env _ _ cl0 cl1] by (auto simp: assms(8) split: if_splits)
  have b: "mget (in_buffer cl0) 0 k = take k L"
    using assms(6) by (simp add: assms(8) mem_simps)
  have "in_buffer cl0 0 = L ! 0" using arg_cong [OF b, of "\<lambda>l. l ! 0"] k0 by simp
  then have b0: "in_buffer cl0 0 = fixed_header MQTT_MSG_TYPE_PUBLISH 0 qos retain"
    by (simp add: assms(1) wire_def)
  note f = header_fields [of "in_buffer cl0" _ qos retain, OF b0 type_in_range(1) assms(2,3)]
  let ?cl2 = "cl1\<lparr>message_length_read := k, message_length := length L\<rparr>"
  have d: "length L = length L - length data + length data"
    using assms(1) by (simp add: length_wire publish_body_def)
  have len: "length L < 20000"
    using assms(1,4) length_remaining(2) [of "length (publish_body t qos mid data)"]
    by (simp add: length_wire)
  have tl: "mqtt_get_total_length (in_buffer cl1) k = Some (of_nat (length L))"
  proof -
    let ?ids = "if qos > 0 then mid_bytes mid else []"
    have body: "publish_body t qos mid data = mstr t @ ?ids @ data" by (simp add: publish_body_def)
    have r': "length (mstr t @ ?ids @ data) < 16384" using assms(4) body by simp
    have ids: "length ?ids = (if qos > 0 then 2 else 0)" by simp
    have "Suc (length (remaining_bytes (length (mstr t @ ?ids @ data)))) + 2 + length t + length ?ids < k"
      using assms(1,5) by (simp add: length_wire body)
    from prefix_wire(5) [OF assms(1) [unfolded body] b type_in_range(1) assms(2,3) ids r' refl this assms(6)]
    show ?thesis using sel(1) by simp
  qed
  have cases: "(if mqtt_get_qos (in_buffer cl0) = 1
        then answer env mqtt_msg_puback (mqtt_get_id (in_buffer cl0) (in_buffer_length cl0)) cl0
        else if mqtt_get_qos (in_buffer cl0) = 2
        then answer env mqtt_msg_pubrec (mqtt_get_id (in_buffer cl0) (in_buffer_length cl0)) cl0
        else Some cl0) = Some cl1"
    using assms(2,9) f(2) by auto
  have "handle_message env k cl0 = deliver_publish env k ?cl2"
    unfolding handle_message_def Let_def f(1) on_publish_def cases option.case tl
    using len by (simp add: mqtt_types unat_of_nat)
  moreover obtain cl' where "deliver_publish env k ?cl2 = Some cl'"
    "map seen (events cl') = map seen (events cl)
         @ pieces (length data) 0 (Some t) (take (k - (length L - length data)) data # ps)"
    using deliver_publish_pieces [OF assms(1-6), of ?cl2 ps env] b sel assms(10,11) by auto
  moreover have "mqtt_process_receive env cl = map_option (\<lambda>c. (ESP_OK, c)) (handle_message env k cl0)"
    using k0 by (simp add: mqtt_process_receive_def assms(7,8))
  ultimately show ?thesis by auto
qed

text \<open>A transport over a list of pieces, with a clock that stands still.\<close>

definition piece_env :: "u8 list list mqtt_env" where
  "piece_env = \<lparr>transport_connect = (\<lambda>w. (0, w)), transport_write = (\<lambda>bs w. (int (length bs), w)),
     transport_read = (\<lambda>m w. case w of [] \<Rightarrow> (0, [], []) | p # ps \<Rightarrow> (int (length p), p, ps)),
     payload_read = (\<lambda>m w. case w of [] \<Rightarrow> (0, [], []) | p # ps \<Rightarrow> (int (length p), p, ps)),
     transport_close = (\<lambda>w. w), tick_get_ms = (\<lambda>w. (0, w)), alloc = (\<lambda>n w. (True, w))\<rparr>"

definition sample_event :: mqtt_event where
  "sample_event = \<lparr>event_id = MQTT_EVENT_CONNECTED, ev_data = None, data_len = 0, total_data_len = 0,
     current_data_offset = 0, ev_topic = None, topic_len = 0, ev_msg_id = 0, session_present = 0\<rparr>"

definition sample_client :: "'n \<Rightarrow> 'n mqtt_client" where
  "sample_client w = \<lparr>in_buffer = (\<lambda>_. 0), in_buffer_length = 64, out_buffer = (\<lambda>_. 0), out_buffer_length = 64,
     message_length = 0, message_length_read = 0, connection = mqtt_msg_init (\<lambda>_. 0) 64,
     pending_msg_id = 0, pending_msg_type = 0, pending_msg_count = 0, connect_info = sample_info,
     cl_state = MQTT_STATE_CONNECTED, keepalive_tick = 0, reconnect_tick = 0, wait_timeout_ms = 0,
     auto_reconnect = True, event = sample_event, event_handle = True, cl_run = True,
     wait_for_ping_resp = False, cl_outbox = [], proto311 = True, randoms = [7, 8], events = [], net = w\<rparr>"

theorem mqtt_receive_publish_witness:
  "\<exists>cl'. mqtt_process_receive piece_env (sample_client [[0x30, 6, 0, 1, 97, 1], [2], [3]]) = Some (ESP_OK, cl')
     \<and> map seen (events cl') = [(3, 0, [1], Some [97]), (3, 1, [2], None), (3, 2, [3], None)]"
proof -
  let ?start = "sample_client [[0x30, 6, 0, 1, 97, 1], [2], [3]] :: u8 list list mqtt_client"
  have L: "wire MQTT_MSG_TYPE_PUBLISH 0 0 (publish_body [97] 0 0 [1, 2, 3]) = [0x30, 6, 0, 1, 97, 1, 2, 3]"
    by (simp add: wire_def publish_body_def mstr_def remaining_bytes_def fixed_header_def mqtt_types)
  let ?got = "?start\<lparr>in_buffer := mcpy (in_buffer ?start) 0 (take 6 [0x30, 6, 0, 1, 97, 1, 2, 3]), net := [[2], [3]]\<rparr>"
  have "\<exists>cl'. mqtt_process_receive piece_env ?start = Some (ESP_OK, cl')
     \<and> map seen (events cl') = map seen (events ?start)
         @ pieces (length [1, 2, 3 :: u8]) 0 (Some [97])
             (take (6 - (length [0x30, 6, 0, 1, 97, 1, 2, 3 :: u8] - length [1, 2, 3 :: u8])) [1, 2, 3] # [[2], [3]])"
    by (rule mqtt_receive_publish [of _ 0 0 _ 0 _ _ _ ?start "[[2], [3]]" ?got ?got, OF L [symmetric]])
      (simp_all add: piece_env_def sample_client_def publish_body_def mstr_def Let_def)
  then show ?thesis by (simp add: sample_client_def numeral_3_eq_3 numeral_2_eq_2)
qed

section \<open>What a read brings beyond its first message is lost\<close>

text \<open>Only the first message of a read is looked at: when an acknowledgement is followed in the same
  read by anything else, at most one event is raised and at most one message is taken off the books,
  whatever the rest is, and the rest has left the transport.\<close>

theorem mqtt_second_message_lost:
  assumes "transport_read env (in_buffer_length cl) (net cl)
      = (int (4 + length rest), wire MQTT_MSG_TYPE_PUBACK 0 0 (mid_bytes mid) @ rest, w)"
    and "mid < 65536" and "4 \<le> in_buffer_length cl" and "in_buffer_length cl < 65536"
    and "0 \<le> pending_msg_count cl" and "pending_msg_count cl < 2 ^ 31"
  shows "\<exists>cl'. mqtt_process_receive env cl = Some (ESP_OK, cl') \<and> net cl' = w
     \<and> pending_msg_count cl - 1 \<le> pending_msg_count cl'
     \<and> length (cl_outbox cl) - 1 \<le> length (cl_outbox cl')
     \<and> length (events cl') \<le> length (events cl) + 1"
proof -
  let ?ack = "wire MQTT_MSG_TYPE_PUBACK 0 0 (mid_bytes mid)"
  define cl0 where "cl0 = cl\<lparr>in_buffer := mcpy (in_buffer cl) 0 (?ack @ rest), net := w\<rparr>"
  have g: "mget (in_buffer cl0) 0 4 = ?ack"
  proof -
    have l: "length ?ack = 4" by (simp add: length_wire remaining_bytes_def)
    have "mget (in_buffer cl0) 0 (length ?ack + length rest) = ?ack @ rest"
      by (simp add: cl0_def mem_simps)
    from mget_split [OF this refl] show ?thesis unfolding l by simp
  qed
  have ty: "mqtt_get_type (in_buffer cl0) = MQTT_MSG_TYPE_PUBACK"
    using ack_id(1) [OF g assms(2)] by simp
  have msg: "handle_message env n cl0
      = Some (on_ack MQTT_MSG_TYPE_PUBLISH MQTT_EVENT_PUBLISHED
          (mqtt_get_id (in_buffer cl0) (in_buffer_length cl0)) cl0)" for n
    unfolding handle_message_def Let_def ty by (simp add: mqtt_types)
  have run: "mqtt_process_receive env cl
      = Some (ESP_OK, on_ack MQTT_MSG_TYPE_PUBLISH MQTT_EVENT_PUBLISHED
          (mqtt_get_id (in_buffer cl0) (in_buffer_length cl0)) cl0)"
    using msg by (simp add: mqtt_process_receive_def assms(1) flip: cl0_def)
  have del: "length q - 1 \<le> length (snd (outbox_delete q i t))" for q i t
    by (induction q) (auto split: prod.splits)
  obtain b cl1 where v: "is_valid_mqtt_msg MQTT_MSG_TYPE_PUBLISH
      (mqtt_get_id (in_buffer cl0) (in_buffer_length cl0)) cl0 = (b, cl1)" by fastforce
  have c1: "net cl1 = w" "events cl1 = events cl" "pending_msg_count cl - 1 \<le> pending_msg_count cl1"
    "length (cl_outbox cl) - 1 \<le> length (cl_outbox cl1)"
    using v assms(5,6) del [of "cl_outbox cl"]
    by (auto simp: is_valid_mqtt_msg_def cl0_def Let_def split: if_splits prod.splits; metis snd_conv)+
  then show ?thesis
    unfolding run on_ack_def v prod.case
    by (cases b) (simp_all add: raise_event_def esp_mqtt_dispatch_event_def Let_def)
qed

theorem mqtt_second_message_lost_witness:
  "\<exists>cl'. mqtt_process_receive piece_env
       ((sample_client [[0x40, 2, 0, 7, 0x40, 2, 0, 8]])\<lparr>pending_msg_count := 2, pending_msg_id := 8,
          pending_msg_type := 3\<rparr>) = Some (ESP_OK, cl')
     \<and> net cl' = [] \<and> 1 \<le> pending_msg_count cl' \<and> length (events cl') \<le> 1"
proof -
  let ?start = "(sample_client [[0x40, 2, 0, 7, 0x40, 2, 0, 8]])\<lparr>pending_msg_count := 2, pending_msg_id := 8,
          pending_msg_type := 3\<rparr> :: u8 list list mqtt_client"
  have ack: "wire MQTT_MSG_TYPE_PUBACK 0 0 (mid_bytes 7) = [0x40, 2, 0, 7]"
    by (simp add: wire_def mid_bytes_def remaining_bytes_def fixed_header_def mqtt_types)
  have "\<exists>cl'. mqtt_process_receive piece_env ?start = Some (ESP_OK, cl') \<and> net cl' = []
     \<and> pending_msg_count ?start - 1 \<le> pending_msg_count cl'
     \<and> length (cl_outbox ?start) - 1 \<le> length (cl_outbox cl')
     \<and> length (events cl') \<le> length (events ?start) + 1"
    by (rule mqtt_second_message_lost [of _ _ "[0x40, 2, 0, 8]" 7])
      (simp_all add: ack piece_env_def sample_client_def)
  then show ?thesis by (simp add: sample_client_def)
qed

end
