(* ===== verification/MqttSession.thy ===== *)
theory MqttSession
  imports MqttReceive
begin

text \<open>
  The client over time: the steps of \<open>mqtt_client.c\<close> as a transition relation, the size of the outbox in
  every reachable state (through the contract \<open>message_store\<close> that \<open>MqttOutbox\<close> fulfils), the keepalive
  timer that ends the connection to a silent server, and what publishing does to the outbox.
\<close>

section \<open>Steps of the client\<close>

inductive client_step :: "'n mqtt_env \<Rightarrow> 'n mqtt_client \<Rightarrow> 'n mqtt_client \<Rightarrow> bool" for env where
  round: "cl_run cl \<Longrightarrow> task_step env cl = Some cl' \<Longrightarrow> client_step env cl cl'"
| publish: "esp_mqtt_client_publish env topic data len qos retain cl = Some (r, cl') \<Longrightarrow> client_step env cl cl'"
| subscribe: "esp_mqtt_client_subscribe env topic qos cl = Some (r, cl') \<Longrightarrow> client_step env cl cl'"
| unsubscribe: "esp_mqtt_client_unsubscribe env topic cl = Some (r, cl') \<Longrightarrow> client_step env cl cl'"
| start: "esp_mqtt_client_start task_ok cl = (e, cl') \<Longrightarrow> client_step env cl cl'"
| stop: "esp_mqtt_client_stop env cl = (e, cl') \<Longrightarrow> client_step env cl cl'"

inductive client_reach :: "'n mqtt_env \<Rightarrow> 'n mqtt_client \<Rightarrow> 'n mqtt_client \<Rightarrow> bool" for env cl0 where
  here: "client_reach env cl0 cl0"
| more: "client_reach env cl0 cl \<Longrightarrow> client_step env cl cl' \<Longrightarrow> client_reach env cl0 cl'"

section \<open>What the operations do to the outbox\<close>

lemma dispatch_outbox [simp]: "cl_outbox (esp_mqtt_dispatch_event cl) = cl_outbox cl"
  by (simp add: esp_mqtt_dispatch_event_def Let_def)

lemma raise_outbox [simp]: "cl_outbox (raise_event e cl) = cl_outbox cl"
  by (simp add: raise_event_def)

lemma write_outbox [simp]: "cl_outbox (snd (mqtt_write_data env cl)) = cl_outbox cl"
  by (simp add: mqtt_write_data_def platform_tick_get_ms_def Let_def split: prod.splits)

lemma abort_outbox [simp]: "cl_outbox (esp_mqtt_abort_connection env cl) = cl_outbox cl"
  by (simp add: esp_mqtt_abort_connection_def platform_tick_get_ms_def split: prod.splits)

lemma connect_outbox [simp]: "cl_outbox (snd (esp_mqtt_connect env cl)) = cl_outbox cl"
  by (simp add: esp_mqtt_connect_def Let_def split: prod.splits)

lemma data_event_outbox [simp]: "cl_outbox (data_event d dl tot offs tp tn cl) = cl_outbox cl"
  by (simp add: data_event_def)

lemma write_outboxD: "mqtt_write_data env cl = (e, cl') \<Longrightarrow> cl_outbox cl' = cl_outbox cl"
  using write_outbox [of env cl] by simp

lemma deliver_outbox:
  assumes a: "deliver_loop env len tot offs lr cl = Some cl'"
  shows "cl_outbox cl' = cl_outbox cl"
proof (rule deliver_loop.raw_induct [OF _ a, where P = "\<lambda>env len tot offs lr cl cl'. cl_outbox cl' = cl_outbox cl"],
    goal_cases)
  case (1 f env len tot offs lr cl cl')
  show ?case
    using 1(2) by (auto simp: Let_def dest!: 1(1) split: option.splits prod.splits if_splits)
qed

lemma answer_outbox: "answer env build i cl = Some cl' \<Longrightarrow> cl_outbox cl' = cl_outbox cl"
  by (auto simp: answer_def split: option.splits prod.splits)

lemma on_publish_outbox: "on_publish env n qos i cl = Some cl' \<Longrightarrow> cl_outbox cl' = cl_outbox cl"
  by (auto simp: on_publish_def deliver_publish_def dest!: deliver_outbox answer_outbox
      split: option.splits if_splits)

lemma on_ack_unmarked: "none_pending (cl_outbox cl) \<Longrightarrow> none_pending (cl_outbox (on_ack ty e i cl))"
  using ob.delete_unmarked [of "cl_outbox cl" "int i" "uint ty"]
  by (auto simp: on_ack_def is_valid_mqtt_msg_def Let_def split: prod.splits if_splits)

lemma handle_unmarked:
  "none_pending (cl_outbox cl) \<Longrightarrow> handle_message env n cl = Some cl' \<Longrightarrow> none_pending (cl_outbox cl')"
  by (auto simp: handle_message_def Let_def on_ack_unmarked dest: on_publish_outbox answer_outbox
      split: if_splits)

lemma receive_unmarked:
  "none_pending (cl_outbox cl) \<Longrightarrow> mqtt_process_receive env cl = Some (e, cl') \<Longrightarrow> none_pending (cl_outbox cl')"
  by (auto simp: mqtt_process_receive_def Let_def split: prod.splits if_splits dest: handle_unmarked [rotated])

lemma mqtt_enqueue_unmarked: "none_pending (cl_outbox cl) \<Longrightarrow> none_pending (cl_outbox (mqtt_enqueue env cl))"
  by (auto simp: mqtt_enqueue_def platform_tick_get_ms_def ob.enqueue_unmarked split: prod.splits)

lemma keepalive_outbox [simp]: "cl_outbox (snd (keepalive_check env cl)) = cl_outbox cl"
proof -
  have "cl_outbox cl2 = cl_outbox cl1" if "esp_mqtt_client_ping env cl1 = (e, cl2)" for e cl1 cl2
    using that write_outbox [of env "cl1\<lparr>connection := mqtt_msg_pingreq (connection cl1)\<rparr>"]
    by (simp add: esp_mqtt_client_ping_def)
  then show ?thesis
    by (auto simp: keepalive_check_def platform_tick_get_ms_def split: prod.splits)
qed

lemma trim_outbox_unmarked: "none_pending (cl_outbox cl) \<Longrightarrow> none_pending (cl_outbox (trim_outbox env cl))"
  by (simp add: trim_outbox_def platform_tick_get_ms_def ob.trim_unmarked split: prod.splits)

lemma trim_size:
  "none_pending (cl_outbox cl) \<Longrightarrow> outbox_get_size (cl_outbox (trim_outbox env cl)) \<le> OUTBOX_MAX_SIZE"
  by (simp add: trim_outbox_def platform_tick_get_ms_def ob.trim_limit OUTBOX_MAX_SIZE_def split: prod.splits)

lemma send_pending_outbox [simp]: "cl_outbox (snd (send_pending env r cl)) = cl_outbox cl"
  by (auto simp: send_pending_def Let_def dest!: write_outboxD split: prod.splits)

lemma task_unmarked:
  assumes "none_pending (cl_outbox cl)" "task_step env cl = Some cl'"
  shows "none_pending (cl_outbox cl')"
proof (cases "cl_state cl")
  case MQTT_STATE_INIT
  have c: "cl_outbox cl2 = cl_outbox cl1" if "esp_mqtt_connect env cl1 = (e, cl2)" for e cl1 cl2
    using that connect_outbox [of env cl1] by simp
  show ?thesis using assms MQTT_STATE_INIT
    by (auto simp: task_step_def task_init_def Let_def dest!: c split: prod.splits if_splits)
next
  case MQTT_STATE_CONNECTED
  have k: "cl_outbox cl2 = cl_outbox cl1" if "keepalive_check env cl1 = (up, cl2)" for up cl1 cl2
    using that keepalive_outbox [of env cl1] by simp
  obtain e cl1 where r: "mqtt_process_receive env cl = Some (e, cl1)"
    using assms(2) MQTT_STATE_CONNECTED by (auto simp: task_step_def task_connected_def split: option.splits)
  note np = receive_unmarked [OF assms(1) r]
  show ?thesis using assms(2) MQTT_STATE_CONNECTED r np
    by (auto simp: task_step_def task_connected_def trim_outbox_unmarked dest!: k split: prod.splits if_splits)
next
  case MQTT_STATE_WAIT_TIMEOUT
  then show ?thesis using assms
    by (auto simp: task_step_def task_wait_def platform_tick_get_ms_def split: prod.splits if_splits)
qed (use assms in \<open>simp_all add: task_step_def\<close>)

lemma publish_unmarked:
  assumes "none_pending (cl_outbox cl)" "esp_mqtt_client_publish env topic data len qos retain cl = Some (r, cl')"
  shows "none_pending (cl_outbox cl')"
proof -
  have "none_pending (cl_outbox (mqtt_enqueue env (cl\<lparr>connection := c, randoms := rs\<rparr>)))" for c rs
    by (rule mqtt_enqueue_unmarked) (simp add: assms(1))
  then show ?thesis using assms
    by (auto simp: esp_mqtt_client_publish_def Let_def dest!: write_outboxD
        split: if_splits option.splits prod.splits)
qed

lemma subscribe_unmarked:
  assumes "none_pending (cl_outbox cl)"
  shows "esp_mqtt_client_subscribe env topic qos cl = Some (r, cl') \<Longrightarrow> none_pending (cl_outbox cl')"
    and "esp_mqtt_client_unsubscribe env topic cl = Some (r, cl') \<Longrightarrow> none_pending (cl_outbox cl')"
proof -
  have s: "cl_outbox cl2 = cl_outbox cl1" if "send_pending env x cl1 = (r, cl2)" for x cl1 cl2 r
    using that send_pending_outbox [of env x cl1] by simp
  note e = mqtt_enqueue_unmarked [OF assms]
  show "esp_mqtt_client_subscribe env topic qos cl = Some (r, cl') \<Longrightarrow> none_pending (cl_outbox cl')"
    using assms e by (auto simp: esp_mqtt_client_subscribe_def Let_def dest!: s split: if_splits option.splits)
  show "esp_mqtt_client_unsubscribe env topic cl = Some (r, cl') \<Longrightarrow> none_pending (cl_outbox cl')"
    using assms e by (auto simp: esp_mqtt_client_unsubscribe_def Let_def dest!: s split: if_splits option.splits)
qed

lemma step_unmarked: "client_step env cl cl' \<Longrightarrow> none_pending (cl_outbox cl) \<Longrightarrow> none_pending (cl_outbox cl')"
proof (induction rule: client_step.induct)
  case (start task_ok cl e cl')
  then show ?case by (auto simp: esp_mqtt_client_start_def task_start_def split: if_splits)
next
  case (stop cl e cl')
  then show ?case by (auto simp: esp_mqtt_client_stop_def split: if_splits)
qed (auto dest: task_unmarked [rotated] publish_unmarked [rotated] subscribe_unmarked)

lemma reach_unmarked:
  "client_reach env cl0 cl \<Longrightarrow> none_pending (cl_outbox cl0) \<Longrightarrow> none_pending (cl_outbox cl)"
  by (induction rule: client_reach.induct) (auto dest: step_unmarked)

text \<open>C28: The outbox stays bounded: in whatever state the client has come to, by any sequence of task rounds
  and calls, a round of the task that keeps the connection leaves at most 4096 bytes of unacknowledged
  messages, because no message is ever marked as pending and the clean-up therefore always succeeds.\<close>

theorem mqtt_outbox_bounded:
  assumes "client_reach env cl0 cl" and "cl_outbox cl0 = []"
    and "cl_state cl = MQTT_STATE_CONNECTED" and "task_step env cl = Some cl'"
    and "cl_state cl' = MQTT_STATE_CONNECTED"
  shows "outbox_get_size (cl_outbox cl') \<le> OUTBOX_MAX_SIZE"
proof -
  have np: "none_pending (cl_outbox cl)"
    using reach_unmarked [OF assms(1)] assms(2) by (simp add: none_pending_def)
  obtain e cl1 where r: "mqtt_process_receive env cl = Some (e, cl1)"
    using assms(3,4) by (auto simp: task_step_def task_connected_def split: option.splits)
  note np1 = receive_unmarked [OF np r]
  have abort: "cl_state (esp_mqtt_abort_connection env c) = MQTT_STATE_WAIT_TIMEOUT" for c
    by (simp add: esp_mqtt_abort_connection_def raise_event_def esp_mqtt_dispatch_event_def
        platform_tick_get_ms_def Let_def split: prod.splits)
  obtain up cl2 where k: "keepalive_check env cl1 = (up, cl2)" by fastforce
  have np2: "none_pending (cl_outbox cl2)" using np1 keepalive_outbox [of env cl1] k by simp
  have "up" if "cl_state cl2 = MQTT_STATE_CONNECTED"
    using k that abort by (auto simp: keepalive_check_def split: prod.splits if_splits)
  then have "cl' = trim_outbox env cl2"
    using assms(3,4,5) r k abort by (auto simp: task_step_def task_connected_def split: if_splits)
  then show ?thesis using trim_size [OF np2] by simp
qed

section \<open>The keepalive timer\<close>

primrec rounds :: "'n mqtt_env \<Rightarrow> nat \<Rightarrow> 'n mqtt_client \<Rightarrow> 'n mqtt_client option" where
  "rounds env 0 cl = Some cl"
| "rounds env (Suc n) cl = (case task_step env cl of None \<Rightarrow> None | Some cl1 \<Rightarrow> rounds env n cl1)"

text \<open>A server that says nothing: every read times out with nothing read, and takes time; every write
  succeeds.\<close>

definition silent :: "'n mqtt_env \<Rightarrow> ('n \<Rightarrow> int) \<Rightarrow> bool" where
  "silent env clock \<longleftrightarrow>
     (\<forall>w. tick_get_ms env w = (clock w, w))
     \<and> (\<forall>n w. fst (transport_read env n w) = 0 \<and> fst (snd (transport_read env n w)) = []
              \<and> clock w < clock (snd (snd (transport_read env n w))))
     \<and> (\<forall>bs w. 0 < fst (transport_write env bs w) \<and> clock w \<le> clock (snd (transport_write env bs w)))"

definition patience :: "('n \<Rightarrow> int) \<Rightarrow> 'n mqtt_client \<Rightarrow> nat" where
  "patience clock cl =
     (if wait_for_ping_resp cl then 0 else nat (ping_interval cl + 1) + 1)
       + nat (ping_interval cl + keepalive_tick cl - clock (net cl) + 1)"

text \<open>The event that is raised last, and the last one that the application got, say that the connection is gone.\<close>

definition given_up :: "'n mqtt_client \<Rightarrow> bool" where
  "given_up cl \<longleftrightarrow> event_id (event cl) = MQTT_EVENT_DISCONNECTED
     \<and> (event_handle cl \<longrightarrow> events cl \<noteq> [] \<and> event_id (fst (last (events cl))) = MQTT_EVENT_DISCONNECTED)"

text \<open>One round with a silent server: the connection is given up, or patience gets shorter.\<close>

lemma silent_round:
  assumes s: "silent env clock" and c: "cl_state cl = MQTT_STATE_CONNECTED"
  shows "\<exists>cl'. task_step env cl = Some cl' \<and> event_handle cl' = event_handle cl
     \<and> (cl_state cl' = MQTT_STATE_WAIT_TIMEOUT \<and> given_up cl'
        \<or> cl_state cl' = MQTT_STATE_CONNECTED \<and> patience clock cl' < patience clock cl)"
proof -
  have tick: "\<And>w. tick_get_ms env w = (clock w, w)" using s by (simp add: silent_def)
  obtain w where rd: "transport_read env (in_buffer_length cl) (net cl) = (0, [], w)"
    and lt: "clock (net cl) < clock w"
    using s unfolding silent_def by (metis prod.collapse)
  define cl1 where "cl1 = cl\<lparr>net := w\<rparr>"
  have recv: "mqtt_process_receive env cl = Some (ESP_OK, cl1)"
    by (simp add: mqtt_process_receive_def rd cl1_def)
  have int: "ping_interval cl1 = ping_interval cl" by (simp add: ping_interval_def cl1_def)
  have abort: "cl_state (esp_mqtt_abort_connection env x) = MQTT_STATE_WAIT_TIMEOUT
      \<and> event_handle (esp_mqtt_abort_connection env x) = event_handle x
      \<and> given_up ((esp_mqtt_abort_connection env x)\<lparr>wait_for_ping_resp := False\<rparr>)" for x
    by (auto simp: given_up_def esp_mqtt_abort_connection_def raise_event_def esp_mqtt_dispatch_event_def
        platform_tick_get_ms_def Let_def split: prod.splits)
  consider (quiet) "\<not> clock w - keepalive_tick cl > ping_interval cl"
    | (lost) "clock w - keepalive_tick cl > ping_interval cl" "wait_for_ping_resp cl"
    | (ping) "clock w - keepalive_tick cl > ping_interval cl" "\<not> wait_for_ping_resp cl" by blast
  then show ?thesis
  proof cases
    case quiet
    then have "keepalive_check env cl1 = (True, cl1)"
      using int by (simp add: keepalive_check_def platform_tick_get_ms_def tick cl1_def)
    then have step: "task_step env cl = Some (trim_outbox env cl1)"
      using c recv by (simp add: task_step_def task_connected_def)
    have "patience clock (trim_outbox env cl1) < patience clock cl"
      using quiet lt int by (simp add: patience_def trim_outbox_def platform_tick_get_ms_def tick
          ping_interval_def cl1_def)
    moreover have "cl_state (trim_outbox env cl1) = MQTT_STATE_CONNECTED" "event_handle (trim_outbox env cl1) = event_handle cl"
      using c by (simp_all add: trim_outbox_def platform_tick_get_ms_def tick cl1_def)
    ultimately show ?thesis using step by blast
  next
    case lost
    then have "keepalive_check env cl1
        = (False, (esp_mqtt_abort_connection env cl1)\<lparr>wait_for_ping_resp := False\<rparr>)"
      using int by (simp add: keepalive_check_def platform_tick_get_ms_def tick cl1_def)
    then have "task_step env cl = Some ((esp_mqtt_abort_connection env cl1)\<lparr>wait_for_ping_resp := False\<rparr>)"
      using c recv by (simp add: task_step_def task_connected_def)
    then show ?thesis using abort [of cl1] by (simp add: cl1_def)
  next
    case ping
    define cl2 where "cl2 = cl1\<lparr>connection := mqtt_msg_pingreq (connection cl1)\<rparr>"
    obtain n w2 where wr: "transport_write env (outbound cl2) w = (n, w2)" by fastforce
    then have n: "0 < n" using s unfolding silent_def by (metis fst_conv)
    define cl3 where "cl3 = cl2\<lparr>net := w2, keepalive_tick := clock w2, wait_for_ping_resp := True\<rparr>"
    have "esp_mqtt_client_ping env cl1 = (ESP_OK, cl2\<lparr>net := w2, keepalive_tick := clock w2\<rparr>)"
      using wr n by (simp add: esp_mqtt_client_ping_def mqtt_write_data_def platform_tick_get_ms_def tick
          cl2_def cl1_def Let_def)
    then have "keepalive_check env cl1 = (True, cl3)"
      using ping int by (simp add: keepalive_check_def platform_tick_get_ms_def tick cl3_def cl1_def)
    then have step: "task_step env cl = Some (trim_outbox env cl3)"
      using c recv by (simp add: task_step_def task_connected_def)
    have "patience clock (trim_outbox env cl3) < patience clock cl"
      using ping by (simp add: patience_def trim_outbox_def platform_tick_get_ms_def tick
          ping_interval_def cl3_def cl2_def cl1_def)
    moreover have "cl_state (trim_outbox env cl3) = MQTT_STATE_CONNECTED" "event_handle (trim_outbox env cl3) = event_handle cl"
      using c by (simp_all add: trim_outbox_def platform_tick_get_ms_def tick cl3_def cl2_def cl1_def)
    ultimately show ?thesis using step by blast
  qed
qed

text \<open>C29: A dead server is noticed by an idle client: from any connected state, if the server says nothing any
  more (every read times out with nothing, after some time) although writing to it keeps succeeding, and the
  application makes no call, the task gives the
  connection up after finitely many rounds of its loop, the last event it raises for the application's
  handler is MQTT_EVENT_DISCONNECTED, and it goes to the reconnection state.\<close>

theorem mqtt_dead_server_detected:
  assumes "silent env clock" and "cl_state cl = MQTT_STATE_CONNECTED"
  shows "\<exists>n cl'. rounds env n cl = Some cl' \<and> cl_state cl' = MQTT_STATE_WAIT_TIMEOUT
     \<and> event_id (event cl') = MQTT_EVENT_DISCONNECTED
     \<and> (event_handle cl \<longrightarrow> events cl' \<noteq> [] \<and> event_id (fst (last (events cl'))) = MQTT_EVENT_DISCONNECTED)"
  using assms(2)
proof (induction "patience clock cl" arbitrary: cl rule: less_induct)
  case less
  obtain cl1 where r: "task_step env cl = Some cl1" "event_handle cl1 = event_handle cl"
    and d: "cl_state cl1 = MQTT_STATE_WAIT_TIMEOUT \<and> given_up cl1
        \<or> cl_state cl1 = MQTT_STATE_CONNECTED \<and> patience clock cl1 < patience clock cl"
    using silent_round [OF assms(1) less.prems] by blast
  from d show ?case
  proof
    assume "cl_state cl1 = MQTT_STATE_WAIT_TIMEOUT \<and> given_up cl1"
    then show ?thesis using r by (intro exI [of _ 1] exI [of _ cl1]) (simp add: given_up_def)
  next
    assume "cl_state cl1 = MQTT_STATE_CONNECTED \<and> patience clock cl1 < patience clock cl"
    then obtain n cl' where "rounds env n cl1 = Some cl'" "cl_state cl' = MQTT_STATE_WAIT_TIMEOUT"
      "event_id (event cl') = MQTT_EVENT_DISCONNECTED"
      "event_handle cl \<longrightarrow> events cl' \<noteq> [] \<and> event_id (fst (last (events cl'))) = MQTT_EVENT_DISCONNECTED"
      using less.hyps r(2) by metis
    then show ?thesis using r by (intro exI [of _ "Suc n"] exI [of _ cl']) simp
  qed
qed

text \<open>A client that publishes before every round never notices: the publication, which gets no answer, resets
  the keepalive time, and as long as a round takes at most half of the keepalive time no ping is sent.\<close>

primrec busy_rounds :: "'n mqtt_env \<Rightarrow> u8 list option \<Rightarrow> u8 list \<Rightarrow> nat \<Rightarrow> 'n mqtt_client \<Rightarrow> 'n mqtt_client option" where
  "busy_rounds env topic data 0 cl = Some cl"
| "busy_rounds env topic data (Suc n) cl =
    (case esp_mqtt_client_publish env topic data (int (length data)) 0 0 cl of None \<Rightarrow> None
     | Some (mid, cl1) \<Rightarrow> (case task_step env cl1 of None \<Rightarrow> None | Some cl2 \<Rightarrow> busy_rounds env topic data n cl2))"

lemma publish_qos0: "\<exists>rs' c'. mqtt_msg_publish rs topic data 0 retain c = Some (0, rs', c')"
  by (auto simp: mqtt_msg_publish_def Let_def split: option.splits)

lemma busy_round:
  assumes s: "silent env clock" and c: "cl_state cl = MQTT_STATE_CONNECTED"
    and short: "\<And>n w. clock (snd (snd (transport_read env n w))) - clock w \<le> ping_interval cl"
  shows "\<exists>mid cl1 cl2. esp_mqtt_client_publish env topic data (int (length data)) 0 0 cl = Some (mid, cl1)
    \<and> task_step env cl1 = Some cl2 \<and> cl_state cl2 = MQTT_STATE_CONNECTED \<and> ping_interval cl2 = ping_interval cl"
proof -
  have tick: "\<And>w. tick_get_ms env w = (clock w, w)" using s by (simp add: silent_def)
  obtain rs c' where m: "mqtt_msg_publish (randoms cl) topic (publish_data data (int (length data))) 0 0 (connection cl)
      = Some (0, rs, c')" using publish_qos0 by blast
  define cl0 where "cl0 = cl\<lparr>connection := c', randoms := rs\<rparr>"
  obtain n w where wr: "transport_write env (outbound cl0) (net cl) = (n, w)" by fastforce
  then have n: "0 < n" using s unfolding silent_def by (metis fst_conv)
  define cl1 where "cl1 = cl0\<lparr>net := w, keepalive_tick := clock w\<rparr>"
  have "mqtt_write_data env cl0 = (ESP_OK, cl1)"
    using wr n by (simp add: mqtt_write_data_def platform_tick_get_ms_def tick cl1_def cl0_def Let_def)
  then have p: "esp_mqtt_client_publish env topic data (int (length data)) 0 0 cl = Some (0, cl1)"
    using c m by (simp add: esp_mqtt_client_publish_def Let_def flip: cl0_def)
  obtain w2 where rd: "transport_read env (in_buffer_length cl) w = (0, [], w2)"
    using s unfolding silent_def by (metis prod.collapse)
  define cl2 where "cl2 = cl1\<lparr>net := w2\<rparr>"
  have recv: "mqtt_process_receive env cl1 = Some (ESP_OK, cl2)"
    using rd by (simp add: mqtt_process_receive_def cl2_def cl1_def cl0_def)
  have int: "ping_interval cl2 = ping_interval cl" by (simp add: ping_interval_def cl2_def cl1_def cl0_def)
  have "clock w2 - clock w \<le> ping_interval cl" using short [of "in_buffer_length cl" w] rd by simp
  then have "keepalive_check env cl2 = (True, cl2)"
    using int by (simp add: keepalive_check_def platform_tick_get_ms_def tick cl2_def cl1_def)
  then have "task_step env cl1 = Some (trim_outbox env cl2)"
    using c recv by (simp add: task_step_def task_connected_def cl1_def cl0_def)
  moreover have "cl_state (trim_outbox env cl2) = MQTT_STATE_CONNECTED" "ping_interval (trim_outbox env cl2) = ping_interval cl"
    using c int by (simp_all add: trim_outbox_def platform_tick_get_ms_def tick cl2_def cl1_def cl0_def ping_interval_def)
  ultimately show ?thesis using p by blast
qed

theorem mqtt_busy_client_never_notices:
  assumes "silent env clock" and "cl_state cl = MQTT_STATE_CONNECTED"
    and "\<And>n w. clock (snd (snd (transport_read env n w))) - clock w \<le> ping_interval cl"
  shows "\<exists>cl'. busy_rounds env topic data n cl = Some cl' \<and> cl_state cl' = MQTT_STATE_CONNECTED"
  using assms(2,3)
proof (induction n arbitrary: cl)
  case (Suc n)
  from busy_round [OF assms(1) Suc.prems, of topic data] obtain mid cl1 cl2 where
    "esp_mqtt_client_publish env topic data (int (length data)) 0 0 cl = Some (mid, cl1)" "task_step env cl1 = Some cl2"
    "cl_state cl2 = MQTT_STATE_CONNECTED" "ping_interval cl2 = ping_interval cl" by blast
  then show ?case using Suc.IH [of cl2] Suc.prems(2) by simp
qed simp

definition silent_env :: "int mqtt_env" where
  "silent_env = \<lparr>transport_connect = (\<lambda>w. (0, w)), transport_write = (\<lambda>bs w. (1, w)),
     transport_read = (\<lambda>m w. (0, [], w + 1000)), payload_read = (\<lambda>m w. (0, [], w + 1000)),
     transport_close = (\<lambda>w. w), tick_get_ms = (\<lambda>w. (w, w)), alloc = (\<lambda>n w. (True, w))\<rparr>"

theorem mqtt_dead_server_detected_witness:
  "\<exists>n cl'. rounds silent_env n (sample_client 0) = Some cl' \<and> cl_state cl' = MQTT_STATE_WAIT_TIMEOUT
     \<and> event_id (fst (last (events cl'))) = MQTT_EVENT_DISCONNECTED"
proof -
  have "silent silent_env (\<lambda>w. w)" "cl_state (sample_client 0 :: int mqtt_client) = MQTT_STATE_CONNECTED"
    "event_handle (sample_client 0 :: int mqtt_client)"
    by (simp_all add: silent_def silent_env_def sample_client_def)
  then show ?thesis using mqtt_dead_server_detected [of silent_env "\<lambda>w. w" "sample_client 0"] by metis
qed

theorem mqtt_busy_client_never_notices_witness:
  "\<exists>cl'. busy_rounds silent_env (Some [97]) [1] 1000 (sample_client 0) = Some cl' \<and> cl_state cl' = MQTT_STATE_CONNECTED"
  by (rule mqtt_busy_client_never_notices [of _ "\<lambda>w. w"])
    (simp_all add: silent_def silent_env_def sample_client_def sample_info_def ping_interval_def Let_def)

theorem mqtt_outbox_bounded_witness:
  "\<exists>cl'. task_step piece_env (sample_client []) = Some cl' \<and> outbox_get_size (cl_outbox cl') \<le> OUTBOX_MAX_SIZE"
proof -
  let ?start = "sample_client [] :: u8 list list mqtt_client"
  have s: "cl_state ?start = MQTT_STATE_CONNECTED" by (simp add: sample_client_def)
  have r: "mqtt_process_receive piece_env ?start = Some (ESP_OK, ?start)"
    by (simp add: mqtt_process_receive_def piece_env_def sample_client_def)
  have k: "keepalive_check piece_env ?start = (True, ?start)"
    by (simp add: keepalive_check_def platform_tick_get_ms_def piece_env_def sample_client_def
        ping_interval_def Let_def sample_info_def)
  have step: "task_step piece_env ?start = Some (trim_outbox piece_env ?start)"
    by (simp add: task_step_def task_connected_def s r k)
  have "cl_state (trim_outbox piece_env ?start) = MQTT_STATE_CONNECTED"
    by (simp add: trim_outbox_def platform_tick_get_ms_def piece_env_def sample_client_def)
  from mqtt_outbox_bounded [OF client_reach.here _ _ step this]
  have "outbox_get_size (cl_outbox (trim_outbox piece_env ?start)) \<le> OUTBOX_MAX_SIZE"
    by (simp add: sample_client_def)
  then show ?thesis using step by blast
qed

section \<open>Two defects\<close>

text \<open>Publishing with quality of service 1 or 2 spoils the stored copy of the message before it: the new
  message is built in the shared output buffer first, and what is then put in the outbox under the
  identifier and type of the message still pending is the new message.\<close>

theorem mqtt_publish_queues_new_bytes:
  assumes "cl_state cl = MQTT_STATE_CONNECTED" and "0 < pending_msg_count cl" and "0 < qos"
    and "\<And>n w. fst (alloc env n w)"
    and "esp_mqtt_client_publish env topic data len qos retain cl = Some (r, cl')"
  shows "\<exists>it. cl_outbox cl' = cl_outbox cl @ [it]
     \<and> ob_msg_id it = int (pending_msg_id cl) \<and> ob_msg_type it = uint (pending_msg_type cl)
     \<and> ob_buffer it = msg_bytes (connection cl')"
proof -
  have al: "alloc env n w = (True, snd (alloc env n w))" for n w
    using assms(4) [of n w] by (metis prod.collapse)
  have wr: "connection cl2 = connection cl1" if "mqtt_write_data env cl1 = (e, cl2)" for e cl1 cl2
    using that by (auto simp: mqtt_write_data_def platform_tick_get_ms_def Let_def split: prod.splits if_splits)
  have enq: "connection (mqtt_enqueue env cl1) = connection cl1
      \<and> (\<exists>it. cl_outbox (mqtt_enqueue env cl1) = cl_outbox cl1 @ [it]
           \<and> ob_msg_id it = int (pending_msg_id cl1) \<and> ob_msg_type it = uint (pending_msg_type cl1)
           \<and> ob_buffer it = outbound cl1)"
    if "0 < pending_msg_count cl1" for cl1
    using that by (subst (1 2) mqtt_enqueue_def, subst (1 2 3 4) al)
      (simp add: platform_tick_get_ms_def outbox_enqueue_def outbound_def Let_def split: prod.splits)
  obtain mid rs c where pub: "mqtt_msg_publish (randoms cl) topic (publish_data data len) qos retain (connection cl)
      = Some (mid, rs, c)"
    using assms(1,5) by (auto simp: esp_mqtt_client_publish_def split: option.splits)
  let ?q = "mqtt_enqueue env (cl\<lparr>connection := c, randoms := rs\<rparr>)"
  have q: "connection ?q = c" "\<exists>it. cl_outbox ?q = cl_outbox cl @ [it]
      \<and> ob_msg_id it = int (pending_msg_id cl) \<and> ob_msg_type it = uint (pending_msg_type cl)
      \<and> ob_buffer it = msg_bytes c"
    using enq [of "cl\<lparr>connection := c, randoms := rs\<rparr>"] assms(2) by (simp_all add: outbound_def)
  obtain e cl3 where w: "mqtt_write_data env (?q\<lparr>pending_msg_type := mqtt_get_type (msg_ptr c),
      pending_msg_id := mid, pending_msg_count := s32_of_int (pending_msg_count ?q + 1)\<rparr>) = (e, cl3)"
    by fastforce
  have "cl' = cl3" using assms(1,3,5) pub w by (simp add: esp_mqtt_client_publish_def Let_def)
  then show ?thesis using q wr [OF w] write_outboxD [OF w] by simp
qed

theorem mqtt_publish_queues_new_bytes_witness:
  "\<exists>r cl' it. esp_mqtt_client_publish piece_env (Some [97]) [1, 2] 2 1 0
       ((sample_client [])\<lparr>pending_msg_count := 1, pending_msg_id := 5, pending_msg_type := 8\<rparr>) = Some (r, cl')
     \<and> cl_outbox cl' = [it] \<and> ob_msg_id it = 5 \<and> ob_msg_type it = 8 \<and> ob_buffer it = msg_bytes (connection cl')"
proof -
  let ?start = "(sample_client [])\<lparr>pending_msg_count := 1, pending_msg_id := 5, pending_msg_type := 8\<rparr>
      :: u8 list list mqtt_client"
  have "3 + length (publish_body [97] 1 7 (publish_data [1, 2] 2)) \<le> cn_buffer_length (connection ?start)"
    "cn_buffer_length (connection ?start) < 65536"
    by (simp_all add: publish_body_def publish_data_def mstr_def sample_client_def mqtt_msg_init_def)
  from publish_wire [of "[97]" 1 "randoms ?start" 7 "[8]", OF _ _ this]
  obtain c where "mqtt_msg_publish (randoms ?start) (Some [97]) (publish_data [1, 2] 2) 1 0 (connection ?start)
      = Some (7, [8], c)" by (auto simp: sample_client_def)
  then have "esp_mqtt_client_publish piece_env (Some [97]) [1, 2] 2 1 0 ?start \<noteq> None"
    by (simp add: esp_mqtt_client_publish_def split: prod.splits)
  then obtain r cl' where run: "esp_mqtt_client_publish piece_env (Some [97]) [1, 2] 2 1 0 ?start = Some (r, cl')"
    by auto
  have "\<exists>it. cl_outbox cl' = cl_outbox ?start @ [it]
     \<and> ob_msg_id it = int (pending_msg_id ?start) \<and> ob_msg_type it = uint (pending_msg_type ?start)
     \<and> ob_buffer it = msg_bytes (connection cl')"
    by (rule mqtt_publish_queues_new_bytes [OF _ _ _ _ run]) (simp_all add: sample_client_def piece_env_def)
  then show ?thesis using run by (simp add: sample_client_def)
qed

text \<open>A connection attempt that times out can succeed: when the server does not answer at all, the read
  returns 0, which is not an error, and the answer is taken from what an earlier connection left in
  the input buffer.\<close>

theorem mqtt_connect_stale:
  assumes "\<And>bs w. 0 \<le> fst (transport_write env bs w)"
    and "\<And>n w. fst (transport_read env n w) = 0 \<and> fst (snd (transport_read env n w)) = []"
    and "mqtt_get_type (in_buffer cl) = MQTT_MSG_TYPE_CONNACK" and "in_buffer cl 3 = 0"
  shows "\<exists>cl'. esp_mqtt_connect env cl = (ESP_OK, cl') \<and> in_buffer cl' = in_buffer cl"
proof -
  have w: "0 \<le> n" if "transport_write env bs x = (n, y)" for bs x n y using assms(1) [of bs x] that by simp
  have r: "n = 0 \<and> bs = []" if "transport_read env m x = (n, bs, y)" for m x n bs y
    using assms(2) [of m x] that by simp
  show ?thesis
    using assms(3,4)
    by (auto simp: esp_mqtt_connect_def Let_def mqtt_get_connect_return_code_def dest!: w r split: prod.splits)
qed

theorem mqtt_connect_stale_witness:
  "\<exists>cl'. esp_mqtt_connect silent_env
       ((sample_client 0)\<lparr>in_buffer := (\<lambda>_. 0)(0 := 0x20, 1 := 2)\<rparr>) = (ESP_OK, cl')"
  using mqtt_connect_stale [of silent_env "(sample_client 0)\<lparr>in_buffer := (\<lambda>_. 0)(0 := 0x20, 1 := 2)\<rparr>"]
  by (auto simp: silent_env_def sample_client_def mqtt_get_type_def MQTT_MSG_TYPE_CONNACK_def)

end
