(* ===== verification/HeapCaps.thy ===== *)
theory HeapCaps
  imports Prelude
begin

text \<open>
  The capability-aware heap allocator, \<open>components/heap/src/esp_heap_caps.c\<close> with the inline
  functions of \<open>esp_heap_caps_priv.h\<close>.  A region is a doubly linked list of blocks in byte memory: each
  block starts with the words \<open>prev\<close> and \<open>next\<close>, whose top bits say whether the block is used and
  whether it is traced; traced blocks have two more words.  \<open>tracing\<close> is \<open>CONFIG_HEAP_TRACING\<close>;
  \<open>leaks\<close> is \<open>__g_heap_trace_mode == HEAP_TRACE_LEAKS\<close>.  The interrupt lock makes every operation
  atomic.  The loops along the list are partial functions, since nothing bounds them if the list is
  damaged.
\<close>

section \<open>Words and block headers\<close>

definition rd32 :: "memory \<Rightarrow> nat \<Rightarrow> u32" where
  "rd32 m a = of_le32 (mget m a 4)"

definition wr32 :: "memory \<Rightarrow> nat \<Rightarrow> u32 \<Rightarrow> memory" where
  "wr32 m a w = mcpy m a (le32 w)"

definition HEAP_ALIGN :: "nat \<Rightarrow> nat" where
  "HEAP_ALIGN p = align_up 4 p"

definition MEM_BLK_TAG :: u32 where "MEM_BLK_TAG = 0x80000000"

definition MEM_BLK_TRACE :: "bool \<Rightarrow> u32" where
  "MEM_BLK_TRACE tracing = (if tracing then 0x80000000 else 0)"

definition MEM_BLK_MIN :: nat where "MEM_BLK_MIN = 1"
definition MEM_HEAD_SIZE :: nat where "MEM_HEAD_SIZE = 8"

definition MEM2_HEAD_SIZE :: "bool \<Rightarrow> nat" where
  "MEM2_HEAD_SIZE tracing = (if tracing then 16 else 8)"

definition get_ptr :: "memory \<Rightarrow> nat \<Rightarrow> nat \<Rightarrow> u32 \<Rightarrow> nat" where
  "get_ptr m b off msk = unat (rd32 m (b + 4 * off) AND NOT msk)"

definition set_ptr :: "nat \<Rightarrow> nat \<Rightarrow> nat \<Rightarrow> u32 \<Rightarrow> memory \<Rightarrow> memory" where
  "set_ptr b v off msk m = wr32 m (b + 4 * off) (of_nat v OR (rd32 m (b + 4 * off) AND msk))"

definition mem_blk_prev :: "memory \<Rightarrow> nat \<Rightarrow> nat" where
  "mem_blk_prev m b = get_ptr m b 0 MEM_BLK_TAG"

definition mem_blk_next :: "bool \<Rightarrow> memory \<Rightarrow> nat \<Rightarrow> nat" where
  "mem_blk_next tracing m b = get_ptr m b 1 (MEM_BLK_TRACE tracing)"

definition mem_blk_set_prev :: "nat \<Rightarrow> nat \<Rightarrow> memory \<Rightarrow> memory" where
  "mem_blk_set_prev b v = set_ptr b v 0 MEM_BLK_TAG"

definition mem_blk_set_next :: "bool \<Rightarrow> nat \<Rightarrow> nat \<Rightarrow> memory \<Rightarrow> memory" where
  "mem_blk_set_next tracing b v = set_ptr b v 1 (MEM_BLK_TRACE tracing)"

definition mem_blk_head_size :: "bool \<Rightarrow> bool \<Rightarrow> nat" where
  "mem_blk_head_size tracing trace = (if trace then MEM2_HEAD_SIZE tracing else MEM_HEAD_SIZE)"

definition mem_blk_set_traced :: "bool \<Rightarrow> nat \<Rightarrow> u32 \<Rightarrow> u32 \<Rightarrow> memory \<Rightarrow> memory" where
  "mem_blk_set_traced tracing b file line m =
     (if tracing
      then wr32 (wr32 (wr32 m (b + 4) (rd32 m (b + 4) OR MEM_BLK_TRACE tracing)) (b + 8) file)
             (b + 12) (line OR MEM_BLK_TRACE tracing)
      else m)"

definition mem_blk_set_untraced :: "bool \<Rightarrow> nat \<Rightarrow> memory \<Rightarrow> memory" where
  "mem_blk_set_untraced tracing b m = wr32 m (b + 4) (rd32 m (b + 4) AND NOT (MEM_BLK_TRACE tracing))"

definition mem_blk_set_used :: "nat \<Rightarrow> memory \<Rightarrow> memory" where
  "mem_blk_set_used b m = wr32 m b (rd32 m b OR MEM_BLK_TAG)"

definition mem_blk_set_unused :: "nat \<Rightarrow> memory \<Rightarrow> memory" where
  "mem_blk_set_unused b m = wr32 m b (rd32 m b AND NOT MEM_BLK_TAG)"

definition mem_blk_is_used :: "memory \<Rightarrow> nat \<Rightarrow> bool" where
  "mem_blk_is_used m b \<longleftrightarrow> rd32 m b AND MEM_BLK_TAG \<noteq> 0"

definition mem_blk_is_end :: "bool \<Rightarrow> memory \<Rightarrow> nat \<Rightarrow> bool" where
  "mem_blk_is_end tracing m b \<longleftrightarrow> mem_blk_next tracing m b = 0"

definition blk_link_size :: "bool \<Rightarrow> memory \<Rightarrow> nat \<Rightarrow> nat" where
  "blk_link_size tracing m b = u32_of_int (int (mem_blk_next tracing m b) - int b)"

definition ptr2memblk_size :: "bool \<Rightarrow> nat \<Rightarrow> bool \<Rightarrow> nat" where
  "ptr2memblk_size tracing sz trace = HEAP_ALIGN ((sz + mem_blk_head_size tracing trace) mod 2 ^ 32)"

definition ptr_is_traced :: "bool \<Rightarrow> memory \<Rightarrow> nat \<Rightarrow> bool" where
  "ptr_is_traced tracing m p \<longleftrightarrow> rd32 m (p - 4) AND MEM_BLK_TRACE tracing \<noteq> 0"

definition ptr2blk :: "bool \<Rightarrow> nat \<Rightarrow> bool \<Rightarrow> nat" where
  "ptr2blk tracing p trace = p - mem_blk_head_size tracing trace"

definition blk2ptr :: "bool \<Rightarrow> nat \<Rightarrow> bool \<Rightarrow> nat" where
  "blk2ptr tracing b trace = b + mem_blk_head_size tracing trace"

definition ptr_size :: "bool \<Rightarrow> memory \<Rightarrow> nat \<Rightarrow> nat" where
  "ptr_size tracing m p =
     (let trace = ptr_is_traced tracing m p
      in u32_of_int (int (blk_link_size tracing m (ptr2blk tracing p trace))
                       - int (mem_blk_head_size tracing trace)))"

section \<open>Regions\<close>

record heap_region =
  start_addr :: nat
  total_size :: nat
  hr_caps :: u32
  free_blk :: nat
  free_bytes :: nat
  min_free_bytes :: nat

record heap =
  hp_mem :: memory
  hp_regions :: "heap_region list"
  leaks :: bool

text \<open>The addresses of the first and of the end block of a region.\<close>

definition region_first :: "heap_region \<Rightarrow> nat" where
  "region_first r = HEAP_ALIGN (start_addr r)"

definition region_end :: "heap_region \<Rightarrow> nat" where
  "region_end r =
    (let e = HEAP_ALIGN (start_addr r + total_size r);
         e1 = (if e \<noteq> start_addr r + total_size r then e - 4 else e)
     in e1 - MEM_HEAD_SIZE)"

definition init_region :: "bool \<Rightarrow> heap_region \<Rightarrow> memory \<Rightarrow> heap_region \<times> memory" where
  "init_region tracing r m =
    (let s = region_first r; e = region_end r;
         m1 = wr32 (wr32 m s 0) (s + 4) (of_nat e);
         m2 = wr32 (wr32 m1 e (of_nat s)) (e + 4) 0
     in (r\<lparr>free_blk := s, free_bytes := blk_link_size tracing m2 s, min_free_bytes := blk_link_size tracing m2 s\<rparr>,
         m2))"

primrec init_regions :: "bool \<Rightarrow> heap_region list \<Rightarrow> memory \<Rightarrow> heap_region list \<times> memory" where
  "init_regions tracing [] m = ([], m)"
| "init_regions tracing (r # rs) m =
    (case init_region tracing r m of (r', m1) \<Rightarrow>
       case init_regions tracing rs m1 of (rs', m2) \<Rightarrow> (r' # rs', m2))"

definition esp_heap_caps_init_region :: "bool \<Rightarrow> heap_region list \<Rightarrow> memory \<Rightarrow> heap" where
  "esp_heap_caps_init_region tracing rs m =
    (case init_regions tracing rs m of (rs', m') \<Rightarrow> \<lparr>hp_mem = m', hp_regions = rs', leaks = False\<rparr>)"

definition has_caps :: "u32 \<Rightarrow> heap_region \<Rightarrow> bool" where
  "has_caps caps r \<longleftrightarrow> hr_caps r AND caps = caps"

definition heap_caps_get_free_size :: "heap \<Rightarrow> u32 \<Rightarrow> nat" where
  "heap_caps_get_free_size h caps =
     fold (\<lambda>r bytes. if has_caps caps r then (bytes + free_bytes r) mod 2 ^ 32 else bytes) (hp_regions h) 0"

definition heap_caps_get_minimum_free_size :: "heap \<Rightarrow> u32 \<Rightarrow> nat" where
  "heap_caps_get_minimum_free_size h caps =
     fold (\<lambda>r bytes. if has_caps caps r then (bytes + min_free_bytes r) mod 2 ^ 32 else bytes) (hp_regions h) 0"

section \<open>Allocation\<close>

text \<open>The first block from \<open>b\<close> on that is not used and has \<open>need\<close> bytes, or the end.\<close>

partial_function (option) find_blk :: "bool \<Rightarrow> memory \<Rightarrow> nat \<Rightarrow> nat \<Rightarrow> nat option" where
  "find_blk tracing m need b =
    (if b \<noteq> 0 \<and> \<not> mem_blk_is_end tracing m b
        \<and> (mem_blk_is_used m b \<or> blk_link_size tracing m b < need)
     then find_blk tracing m need (mem_blk_next tracing m b) else Some b)"

partial_function (option) skip_used :: "bool \<Rightarrow> memory \<Rightarrow> nat \<Rightarrow> nat option" where
  "skip_used tracing m b =
    (if b \<noteq> 0 \<and> \<not> mem_blk_is_end tracing m b \<and> mem_blk_is_used m b
     then skip_used tracing m (mem_blk_next tracing m b) else Some b)"

text \<open>Cutting the block \<open>b\<close> at \<open>nb\<close>.\<close>

definition split_blk :: "bool \<Rightarrow> nat \<Rightarrow> nat \<Rightarrow> memory \<Rightarrow> memory" where
  "split_blk tracing b nb m =
    (let m1 = wr32 (wr32 m (nb + 4) 0) nb 0;
         m2 = mem_blk_set_prev nb b m1;
         m3 = mem_blk_set_next tracing nb (mem_blk_next tracing m2 b) m2;
         m4 = mem_blk_set_prev (mem_blk_next tracing m3 b) nb m3
     in mem_blk_set_next tracing b nb m4)"

definition malloc_region ::
    "bool \<Rightarrow> bool \<Rightarrow> nat \<Rightarrow> u32 \<Rightarrow> u32 \<Rightarrow> heap_region \<Rightarrow> memory \<Rightarrow> (nat option \<times> heap_region \<times> memory) option" where
  "malloc_region tracing trace sz file line r m =
    (let need = ptr2memblk_size tracing sz trace in
     if need > free_bytes r then Some (None, r, m)
     else case find_blk tracing m need (free_blk r) of
       None \<Rightarrow> None
     | Some b \<Rightarrow>
         if b = 0 \<or> mem_blk_is_end tracing m b then Some (None, r, m)
         else
           let head_size = mem_blk_head_size tracing trace;
               nb = (if blk_link_size tracing m b \<ge> (need + head_size + MEM_BLK_MIN) mod 2 ^ 32
                     then b + need else mem_blk_next tracing m b);
               m1 = (if mem_blk_next tracing m b \<noteq> nb then split_blk tracing b nb m else m);
               m2 = mem_blk_set_used b m1;
               m3 = (if trace then mem_blk_set_traced tracing b file line m2 else m2)
           in case (if free_blk r = b then skip_used tracing m3 b else Some (free_blk r)) of
                None \<Rightarrow> None
              | Some fb \<Rightarrow>
                  let left = u32_of_int (int (free_bytes r) - int (blk_link_size tracing m3 b))
                  in Some (Some (blk2ptr tracing b trace),
                           r\<lparr>free_blk := fb, free_bytes := left,
                             min_free_bytes := (if min_free_bytes r > left then left else min_free_bytes r)\<rparr>,
                           m3))"

text \<open>The loop over the regions.  Without \<open>CONFIG_HEAP_TRACING\<close> the variable \<open>trace\<close> is never set, but both
  kinds of header are then the same.\<close>

primrec malloc_loop ::
    "bool \<Rightarrow> bool \<Rightarrow> nat \<Rightarrow> u32 \<Rightarrow> u32 \<Rightarrow> u32 \<Rightarrow> heap_region list \<Rightarrow> memory
       \<Rightarrow> (nat option \<times> heap_region list \<times> memory) option" where
  "malloc_loop tracing trace sz caps file line [] m = Some (None, [], m)"
| "malloc_loop tracing trace sz caps file line (r # rs) m =
    (if \<not> has_caps caps r
     then map_option (\<lambda>(p, rs', m'). (p, r # rs', m')) (malloc_loop tracing trace sz caps file line rs m)
     else case malloc_region tracing trace sz file line r m of
       None \<Rightarrow> None
     | Some (Some p, r', m') \<Rightarrow> Some (Some p, r' # rs, m')
     | Some (None, r', m') \<Rightarrow>
         map_option (\<lambda>(p, rs', m'). (p, r' # rs', m')) (malloc_loop tracing trace sz caps file line rs m'))"

definition heap_caps_malloc ::
    "bool \<Rightarrow> nat \<Rightarrow> u32 \<Rightarrow> u32 \<Rightarrow> u32 \<Rightarrow> heap \<Rightarrow> (nat option \<times> heap) option" where
  "heap_caps_malloc tracing sz caps file line h =
    map_option (\<lambda>(p, rs, m). (p, h\<lparr>hp_regions := rs, hp_mem := m\<rparr>))
      (malloc_loop tracing (tracing \<and> leaks h) sz caps file line (hp_regions h) (hp_mem h))"

section \<open>Release\<close>

definition in_region :: "nat \<Rightarrow> heap_region \<Rightarrow> bool" where
  "in_region p r \<longleftrightarrow> p > start_addr r \<and> p < start_addr r + total_size r"

primrec get_blk_region :: "nat \<Rightarrow> heap_region list \<Rightarrow> nat" where
  "get_blk_region p [] = 0"
| "get_blk_region p (r # rs) = (if in_region p r then 0 else Suc (get_blk_region p rs))"

text \<open>Unlinking: the freed block \<open>b\<close> joins a free block before it and a free block after it.\<close>

definition join_blks :: "bool \<Rightarrow> nat \<Rightarrow> memory \<Rightarrow> memory" where
  "join_blks tracing b m =
    (let prev = mem_blk_prev m b; next = mem_blk_next tracing m b; last = mem_blk_next tracing m next;
         joins = (prev \<noteq> 0 \<and> \<not> mem_blk_is_used m prev);
         m1 = (if joins then mem_blk_set_prev next prev (mem_blk_set_next tracing prev next m) else m);
         tmp = (if joins then prev else b)
     in if last \<noteq> 0 \<and> \<not> mem_blk_is_used m1 next
        then mem_blk_set_prev last tmp (mem_blk_set_next tracing tmp last m1) else m1)"

definition free_region :: "bool \<Rightarrow> nat \<Rightarrow> heap_region \<Rightarrow> memory \<Rightarrow> heap_region \<times> memory" where
  "free_region tracing b r m =
    (let r1 = r\<lparr>free_bytes := (free_bytes r + blk_link_size tracing m b) mod 2 ^ 32\<rparr>;
         m1 = join_blks tracing b (mem_blk_set_untraced tracing b (mem_blk_set_unused b m))
     in (if b < free_blk r1 then r1\<lparr>free_blk := b\<rparr> else r1, m1))"

definition heap_caps_free :: "bool \<Rightarrow> nat \<Rightarrow> heap \<Rightarrow> heap" where
  "heap_caps_free tracing p h =
    (if p = 0 then h
     else let num = get_blk_region p (hp_regions h) in
       if num \<ge> length (hp_regions h) then h
       else let b = ptr2blk tracing p (ptr_is_traced tracing (hp_mem h) p) in
         if \<not> mem_blk_is_used (hp_mem h) b then h
         else case free_region tracing b (hp_regions h ! num) (hp_mem h) of
           (r, m) \<Rightarrow> h\<lparr>hp_regions := (hp_regions h)[num := r], hp_mem := m\<rparr>)"

section \<open>The derived operations\<close>

definition memset0 :: "nat option \<Rightarrow> nat \<Rightarrow> heap \<Rightarrow> heap" where
  "memset0 p n h = (case p of None \<Rightarrow> h | Some a \<Rightarrow> h\<lparr>hp_mem := mcpy (hp_mem h) a (replicate n 0)\<rparr>)"

definition heap_caps_calloc ::
    "bool \<Rightarrow> nat \<Rightarrow> nat \<Rightarrow> u32 \<Rightarrow> u32 \<Rightarrow> u32 \<Rightarrow> heap \<Rightarrow> (nat option \<times> heap) option" where
  "heap_caps_calloc tracing count sz caps file line h =
    map_option (\<lambda>(p, h'). (p, memset0 p (count * sz mod 2 ^ 32) h'))
      (heap_caps_malloc tracing (count * sz mod 2 ^ 32) caps file line h)"

definition heap_caps_zalloc ::
    "bool \<Rightarrow> nat \<Rightarrow> u32 \<Rightarrow> u32 \<Rightarrow> u32 \<Rightarrow> heap \<Rightarrow> (nat option \<times> heap) option" where
  "heap_caps_zalloc tracing sz caps file line h =
    map_option (\<lambda>(p, h'). (p, memset0 p sz h')) (heap_caps_malloc tracing sz caps file line h)"

definition heap_caps_realloc ::
    "bool \<Rightarrow> nat \<Rightarrow> nat \<Rightarrow> u32 \<Rightarrow> u32 \<Rightarrow> u32 \<Rightarrow> heap \<Rightarrow> (nat option \<times> heap) option" where
  "heap_caps_realloc tracing mem newsize caps file line h =
    map_option (\<lambda>(p, h').
        case p of
          None \<Rightarrow> (p, h')
        | Some a \<Rightarrow>
            if mem = 0 then (p, h')
            else let n = min newsize (ptr_size tracing (hp_mem h') mem);
                     h2 = h'\<lparr>hp_mem := mcpy (hp_mem h') a (mget (hp_mem h') mem n)\<rparr>
                 in (p, heap_caps_free tracing mem h2))
      (heap_caps_malloc tracing newsize caps file line h)"

definition heap_trace_start :: "bool \<Rightarrow> heap \<Rightarrow> heap" where
  "heap_trace_start mode_leaks h = h\<lparr>leaks := mode_leaks\<rparr>"

definition heap_trace_stop :: "heap \<Rightarrow> heap" where
  "heap_trace_stop h = h\<lparr>leaks := False\<rparr>"

definition heap_trace_resume :: "heap \<Rightarrow> heap" where
  "heap_trace_resume h = h\<lparr>leaks := True\<rparr>"

definition heap_trace_is_on :: "heap \<Rightarrow> bool" where
  "heap_trace_is_on h = leaks h"

section \<open>The regions of the ESP8266\<close>

text \<open>\<open>port/esp8266/esp_heap_init.c\<close>: the linker symbols \<open>_iram_end\<close> and \<open>_bss_end\<close> and the size of the
  instruction RAM are arguments; \<open>use_iram\<close> is the absence of \<open>CONFIG_HEAP_DISABLE_IRAM\<close>.\<close>

definition MALLOC_CAP_32BIT :: u32 where "MALLOC_CAP_32BIT = 2"
definition MALLOC_CAP_8BIT :: u32 where "MALLOC_CAP_8BIT = 4"
definition MALLOC_CAP_DMA :: u32 where "MALLOC_CAP_DMA = 8"

definition new_region :: "nat \<Rightarrow> nat \<Rightarrow> u32 \<Rightarrow> heap_region" where
  "new_region s n caps = \<lparr>start_addr = s, total_size = n, hr_caps = caps, free_blk = 0, free_bytes = 0,
     min_free_bytes = 0\<rparr>"

definition heap_caps_init :: "bool \<Rightarrow> bool \<Rightarrow> nat \<Rightarrow> nat \<Rightarrow> nat \<Rightarrow> memory \<Rightarrow> heap" where
  "heap_caps_init tracing use_iram soc_iram_size iram_end bss_end m =
    (let iram_size = u32_of_int (0x40100000 + int soc_iram_size - int iram_end);
         iram = (if use_iram \<and> iram_size > 512 \<and> iram_size < 0x10000
                 then [new_region iram_end iram_size MALLOC_CAP_32BIT] else []);
         dram = new_region bss_end (u32_of_int (0x40000000 - int bss_end))
                  (MALLOC_CAP_8BIT OR MALLOC_CAP_32BIT OR MALLOC_CAP_DMA)
     in esp_heap_caps_init_region tracing (iram @ [dram]) m)"

definition heap_caps_get_dram_free_size :: "bool \<Rightarrow> heap \<Rightarrow> nat" where
  "heap_caps_get_dram_free_size use_iram h =
     (if use_iram then free_bytes (hp_regions h ! (length (hp_regions h) - 1)) else free_bytes (hp_regions h ! 0))"

end
