(* ===== verification/HeapBlocks.thy ===== *)
theory HeapBlocks
  imports HeapCaps
begin

text \<open>
  A heap region as a list of blocks.  \<open>chain\<close> says that the memory from an address on holds the headers
  of the blocks of a list, each pointing to its neighbours, and then the end block; the loops along the
  list, the cutting of a block and the joining of free neighbours are shown to be list operations.
\<close>

section \<open>Words with a tag bit\<close>

lemma bit_tag: "bit (0x80000000 :: u32) n \<longleftrightarrow> n = 31"
proof -
  have "(0x80000000 :: u32) = push_bit 31 1" by simp
  then show ?thesis by (simp only: bit_push_bit_iff) (auto simp: bit_simps)
qed

lemma bit_addr: "a < 2 ^ 31 \<Longrightarrow> bit (of_nat a :: u32) n \<Longrightarrow> n < 31"
proof (rule ccontr)
  assume a: "a < 2 ^ 31" and b: "bit (of_nat a :: u32) n" and n: "\<not> n < 31"
  have "(2::nat) ^ 31 \<le> 2 ^ n" using n by (intro power_increasing) auto
  then have "a div 2 ^ n = 0" using a by simp
  then have "\<not> bit a n" by (simp add: bit_iff_odd)
  then show False using b by (simp add: bit_simps)
qed

lemma tag_test: "a < 2 ^ 31 \<Longrightarrow> (of_nat a :: u32) AND 0x80000000 = 0"
  by (rule bit_word_eqI) (auto simp only: bit_and_iff bit_tag bit_0_eq bot_apply bot_bool_def dest: bit_addr)

lemma tagged:
  assumes "a < 2 ^ 31"
  shows "((of_nat a :: u32) OR (if u then 0x80000000 else 0)) AND NOT 0x80000000 = of_nat a"
    and "(((of_nat a :: u32) OR (if u then 0x80000000 else 0)) AND 0x80000000 \<noteq> 0) = u"
    and "((of_nat a :: u32) OR (if u then 0x80000000 else 0)) AND 0x80000000 = (if u then 0x80000000 else 0)"
proof -
  have c: "((of_nat a :: u32) OR (if u then 0x80000000 else 0)) AND 0x80000000 = (if u then 0x80000000 else 0)"
    using tag_test [OF assms] by (simp add: bit.conj_disj_distrib2)
  show "((of_nat a :: u32) OR (if u then 0x80000000 else 0)) AND 0x80000000 = (if u then 0x80000000 else 0)"
    by (rule c)
  show "(((of_nat a :: u32) OR (if u then 0x80000000 else 0)) AND 0x80000000 \<noteq> 0) = u"
    unfolding c by simp
  show "((of_nat a :: u32) OR (if u then 0x80000000 else 0)) AND NOT 0x80000000 = of_nat a"
    by (rule bit_word_eqI) (cases u, auto simp only: bit_and_iff bit_or_iff bit_not_iff bit_tag bit_0_eq
        bot_apply bot_bool_def if_True if_False possible_bit_word dest: bit_addr [OF assms])
qed

lemma unat_addr: "a < 2 ^ 31 \<Longrightarrow> unat (of_nat a :: u32) = a"
  by (simp add: unat_of_nat)

section \<open>Words in memory\<close>

lemma rd32_wr32 [simp]: "rd32 (wr32 m a w) a = w"
  by (simp add: rd32_def wr32_def mget_mcpy_same)

lemma rd32_wr32_other: "b + 4 \<le> a \<or> a + 4 \<le> b \<Longrightarrow> rd32 (wr32 m a w) b = rd32 m b"
  by (simp add: rd32_def wr32_def mget_mcpy_disjoint)

lemma wr32_out: "x < a \<or> a + 4 \<le> x \<Longrightarrow> wr32 m a w x = m x"
  by (simp add: wr32_def mcpy_out)

lemma rd32_cong: "(\<And>x. a \<le> x \<Longrightarrow> x < a + 4 \<Longrightarrow> m x = m' x) \<Longrightarrow> rd32 m a = rd32 m' a"
  unfolding rd32_def by (rule arg_cong [where f = of_le32], rule mget_cong) auto

section \<open>Blocks\<close>

datatype blk = Blk (bk_size: nat) (bk_used: bool) (bk_traced: bool)

definition hword1 :: "nat \<Rightarrow> bool \<Rightarrow> u32" where
  "hword1 prv used = of_nat prv OR (if used then MEM_BLK_TAG else 0)"

definition hword2 :: "bool \<Rightarrow> nat \<Rightarrow> bool \<Rightarrow> u32" where
  "hword2 t nxt traced = of_nat nxt OR (if traced then MEM_BLK_TRACE t else 0)"

definition head_ok :: "bool \<Rightarrow> memory \<Rightarrow> nat \<Rightarrow> nat \<Rightarrow> blk \<Rightarrow> bool" where
  "head_ok t m prv p b \<longleftrightarrow> rd32 m p = hword1 prv (bk_used b)
     \<and> rd32 m (p + 4) = hword2 t (p + bk_size b) (bk_traced b)
     \<and> (bk_traced b \<longrightarrow> rd32 m (p + 12) AND MEM_BLK_TRACE t \<noteq> 0)"

definition blk_ok :: "bool \<Rightarrow> blk \<Rightarrow> bool" where
  "blk_ok t b \<longleftrightarrow> 8 \<le> bk_size b \<and> 4 dvd bk_size b \<and> (bk_traced b \<longrightarrow> bk_used b \<and> t \<and> 16 \<le> bk_size b)"

primrec bend :: "nat \<Rightarrow> blk list \<Rightarrow> nat" where
  "bend p [] = p"
| "bend p (b # bs) = bend (p + bk_size b) bs"

primrec lastp :: "nat \<Rightarrow> nat \<Rightarrow> blk list \<Rightarrow> nat" where
  "lastp prv p [] = prv"
| "lastp prv p (b # bs) = lastp p (p + bk_size b) bs"

text \<open>The headers of a segment of blocks, and of a segment with the end block behind it.\<close>

primrec heads :: "bool \<Rightarrow> memory \<Rightarrow> nat \<Rightarrow> nat \<Rightarrow> blk list \<Rightarrow> bool" where
  "heads t m prv p [] \<longleftrightarrow> True"
| "heads t m prv p (b # bs) \<longleftrightarrow> head_ok t m prv p b \<and> heads t m p (p + bk_size b) bs"

primrec chain :: "bool \<Rightarrow> memory \<Rightarrow> nat \<Rightarrow> nat \<Rightarrow> blk list \<Rightarrow> bool" where
  "chain t m prv p [] \<longleftrightarrow> rd32 m p = hword1 prv False \<and> rd32 m (p + 4) = 0"
| "chain t m prv p (b # bs) \<longleftrightarrow> head_ok t m prv p b \<and> chain t m p (p + bk_size b) bs"

primrec used_at :: "blk list \<Rightarrow> bool" where
  "used_at [] = False"
| "used_at (b # bs) = bk_used b"

lemma bend_append [simp]: "bend p (as @ bs) = bend (bend p as) bs"
  by (induction as arbitrary: p) auto

lemma lastp_append [simp]: "lastp prv p (as @ bs) = lastp (lastp prv p as) (bend p as) bs"
  by (induction as arbitrary: prv p) auto

lemma heads_append [simp]:
  "heads t m prv p (as @ bs) \<longleftrightarrow> heads t m prv p as \<and> heads t m (lastp prv p as) (bend p as) bs"
  by (induction as arbitrary: prv p) auto

lemma blk_chain_append [simp]:
  "chain t m prv p (as @ bs) \<longleftrightarrow> heads t m prv p as \<and> chain t m (lastp prv p as) (bend p as) bs"
  by (induction as arbitrary: prv p) auto

lemma bend_ge: "p \<le> bend p bs"
  by (induction bs arbitrary: p) (auto intro: order_trans [OF le_add1])

lemma lastp_bounds: "list_all (blk_ok t) bs \<Longrightarrow> bs \<noteq> [] \<Longrightarrow> p \<le> lastp prv p bs \<and> lastp prv p bs + 8 \<le> bend p bs"
proof (induction bs arbitrary: prv p)
  case (Cons b bs)
  then have "8 \<le> bk_size b" by (simp add: blk_ok_def)
  then show ?case using Cons.IH [of "p + bk_size b" p] Cons.prems by (cases "bs = []") auto
qed simp

lemma bend_dvd: "list_all (blk_ok t) bs \<Longrightarrow> 4 dvd p \<Longrightarrow> 4 dvd bend p bs"
  by (induction bs arbitrary: p) (auto simp: blk_ok_def)

lemma head_ok_cong:
  assumes "head_ok t m prv p b" "blk_ok t b" "\<And>x. p \<le> x \<Longrightarrow> x < p + bk_size b \<Longrightarrow> m' x = m x"
  shows "head_ok t m' prv p b"
proof -
  have "rd32 m' a = rd32 m a" if "p \<le> a" "a + 4 \<le> p + bk_size b" for a
  proof (rule rd32_cong)
    fix x assume "a \<le> x" "x < a + 4"
    then show "m' x = m x" using assms(3) [of x] that by simp
  qed
  then show ?thesis using assms(1,2) by (auto simp: head_ok_def blk_ok_def)
qed

lemma heads_cong:
  "heads t m prv p bs \<Longrightarrow> list_all (blk_ok t) bs \<Longrightarrow> (\<And>x. p \<le> x \<Longrightarrow> x < bend p bs \<Longrightarrow> m' x = m x)
    \<Longrightarrow> heads t m' prv p bs"
proof (induction bs arbitrary: prv p)
  case (Cons b bs)
  have e: "p + bk_size b \<le> bend (p + bk_size b) bs" by (rule bend_ge)
  have "head_ok t m' prv p b"
  proof (rule head_ok_cong [of t m])
    fix x assume "p \<le> x" "x < p + bk_size b"
    then show "m' x = m x" using Cons.prems(3) [of x] e by simp
  qed (use Cons.prems in simp_all)
  moreover have "heads t m' p (p + bk_size b) bs"
  proof (rule Cons.IH)
    fix x assume "p + bk_size b \<le> x" "x < bend (p + bk_size b) bs"
    then show "m' x = m x" using Cons.prems(3) [of x] by simp
  qed (use Cons.prems in simp_all)
  ultimately show ?case by simp
qed simp

lemma chain_cong:
  "chain t m prv p bs \<Longrightarrow> list_all (blk_ok t) bs \<Longrightarrow> (\<And>x. p \<le> x \<Longrightarrow> x < bend p bs + 8 \<Longrightarrow> m' x = m x)
    \<Longrightarrow> chain t m' prv p bs"
proof (induction bs arbitrary: prv p)
  case Nil
  have "rd32 m' p = rd32 m p" "rd32 m' (p + 4) = rd32 m (p + 4)"
    by (rule rd32_cong, simp add: Nil.prems(3))+
  then show ?case using Nil.prems(1) by simp
next
  case (Cons b bs)
  have e: "p + bk_size b \<le> bend (p + bk_size b) bs" by (rule bend_ge)
  have "head_ok t m' prv p b"
  proof (rule head_ok_cong [of t m])
    fix x assume "p \<le> x" "x < p + bk_size b"
    then show "m' x = m x" using Cons.prems(3) [of x] e by simp
  qed (use Cons.prems in simp_all)
  moreover have "chain t m' p (p + bk_size b) bs"
  proof (rule Cons.IH)
    fix x assume "p + bk_size b \<le> x" "x < bend (p + bk_size b) bs + 8"
    then show "m' x = m x" using Cons.prems(3) [of x] by simp
  qed (use Cons.prems in simp_all)
  ultimately show ?case by simp
qed

lemma chain_first: "chain t m prv p bs \<Longrightarrow> rd32 m p = hword1 prv (used_at bs)"
  by (cases bs) (auto simp: head_ok_def)

text \<open>The first block of a chain gets another predecessor.\<close>

lemma chain_relink:
  assumes "chain t m prv p bs" "list_all (blk_ok t) bs" "rd32 m' p = hword1 prv' (used_at bs)"
    and "\<And>x. p + 4 \<le> x \<Longrightarrow> x < bend p bs + 8 \<Longrightarrow> m' x = m x"
  shows "chain t m' prv' p bs"
proof (cases bs)
  case Nil
  have "rd32 m' (p + 4) = rd32 m (p + 4)" using assms(4) Nil by (intro rd32_cong) auto
  then show ?thesis using assms(1,3) Nil by simp
next
  case (Cons b cs)
  have ok: "blk_ok t b" "list_all (blk_ok t) cs" and e: "p + bk_size b \<le> bend (p + bk_size b) cs"
    using assms(2) Cons bend_ge by auto
  have "rd32 m' a = rd32 m a" if "p + 4 \<le> a" "a + 4 \<le> p + bk_size b" for a
  proof (rule rd32_cong)
    fix x assume "a \<le> x" "x < a + 4"
    then show "m' x = m x" using assms(4) [of x] that e Cons by simp
  qed
  then have "head_ok t m' prv' p b"
    using assms(1,3) ok(1) Cons by (auto simp: head_ok_def blk_ok_def)
  moreover have "chain t m' p (p + bk_size b) cs"
  proof (rule chain_cong [of t m])
    fix x assume "p + bk_size b \<le> x" "x < bend (p + bk_size b) cs + 8"
    then show "m' x = m x" using assms(4) [of x] ok(1) Cons by (simp add: blk_ok_def)
  qed (use assms(1) ok Cons in simp_all)
  ultimately show ?thesis using Cons by simp
qed

section \<open>Reading headers\<close>

lemma hword1_get:
  assumes "prv < 2 ^ 31"
  shows "unat (hword1 prv u AND NOT MEM_BLK_TAG) = prv" "(hword1 prv u AND MEM_BLK_TAG \<noteq> 0) = u"
    "hword1 prv u AND MEM_BLK_TAG = (if u then MEM_BLK_TAG else 0)"
  unfolding hword1_def MEM_BLK_TAG_def
  by (simp only: tagged(1) [OF assms] unat_addr [OF assms], rule tagged(2) [OF assms], rule tagged(3) [OF assms])

lemma hword2_get:
  assumes "nxt < 2 ^ 31"
  shows "unat (hword2 t nxt tr AND NOT (MEM_BLK_TRACE t)) = nxt"
    "hword2 t nxt tr AND MEM_BLK_TRACE t = (if tr then MEM_BLK_TRACE t else 0)"
proof -
  note tg = tagged(1,3) [OF assms, of tr] tag_test [OF assms] unat_addr [OF assms]
  show "unat (hword2 t nxt tr AND NOT (MEM_BLK_TRACE t)) = nxt"
    by (cases t) (simp_all only: hword2_def MEM_BLK_TRACE_def if_True if_False if_cancel or.right_neutral
        bit.compl_zero bit.conj_one_right tg)
  show "hword2 t nxt tr AND MEM_BLK_TRACE t = (if tr then MEM_BLK_TRACE t else 0)"
    by (cases t) (simp_all only: hword2_def MEM_BLK_TRACE_def if_True if_False if_cancel or.right_neutral
        bit.conj_zero_right tg)
qed

lemma head_get:
  assumes "head_ok t m prv p b" "prv < 2 ^ 31" "p + bk_size b < 2 ^ 31" "0 < p"
  shows "mem_blk_prev m p = prv" "mem_blk_next t m p = p + bk_size b" "mem_blk_is_used m p = bk_used b"
    "\<not> mem_blk_is_end t m p" "blk_link_size t m p = bk_size b"
proof -
  show "mem_blk_prev m p = prv" "mem_blk_is_used m p = bk_used b"
    using assms(1) hword1_get [OF assms(2)]
    by (simp_all add: mem_blk_prev_def get_ptr_def mem_blk_is_used_def head_ok_def)
  show n: "mem_blk_next t m p = p + bk_size b"
    using assms(1) hword2_get(1) [OF assms(3)] by (simp add: mem_blk_next_def get_ptr_def head_ok_def)
  then show "\<not> mem_blk_is_end t m p" using assms(4) by (simp add: mem_blk_is_end_def)
  have "int (p + bk_size b) - int p = int (bk_size b)" by simp
  then show "blk_link_size t m p = bk_size b" using n assms(3) by (simp add: blk_link_size_def)
qed

lemma end_get:
  assumes "chain t m prv p []" "prv < 2 ^ 31"
  shows "mem_blk_prev m p = prv" "mem_blk_next t m p = 0" "\<not> mem_blk_is_used m p" "mem_blk_is_end t m p"
  using assms(1) hword1_get [OF assms(2), of False]
  by (simp_all add: mem_blk_prev_def mem_blk_next_def get_ptr_def mem_blk_is_used_def mem_blk_is_end_def)

section \<open>The loops along the list\<close>

lemma find_blk_chain:
  assumes "chain t m prv p bs" "prv < 2 ^ 31" "0 < p" "bend p bs < 2 ^ 31"
  shows "find_blk t m need p = Some (bend p (takeWhile (\<lambda>b. bk_used b \<or> bk_size b < need) bs))"
  using assms
proof (induction bs arbitrary: prv p)
  case Nil
  then show ?case using end_get(4) [OF Nil.prems(1,2)] by (simp add: find_blk.simps [of t m need p])
next
  case (Cons b bs)
  have e: "p + bk_size b < 2 ^ 31"
    using Cons.prems(4) bend_ge [of "p + bk_size b" bs] by simp
  have "head_ok t m prv p b" using Cons.prems(1) by simp
  note g = head_get [OF this Cons.prems(2) e Cons.prems(3)]
  show ?case
  proof (cases "bk_used b \<or> bk_size b < need")
    case True
    have "find_blk t m need (p + bk_size b)
        = Some (bend (p + bk_size b) (takeWhile (\<lambda>b. bk_used b \<or> bk_size b < need) bs))"
      using Cons.prems e by (intro Cons.IH [of p]) auto
    then show ?thesis using True g Cons.prems(3) by (simp add: find_blk.simps [of t m need p])
  next
    case False
    then show ?thesis using g by (simp add: find_blk.simps [of t m need p])
  qed
qed

lemma skip_used_chain:
  assumes "chain t m prv p bs" "prv < 2 ^ 31" "0 < p" "bend p bs < 2 ^ 31"
  shows "skip_used t m p = Some (bend p (takeWhile bk_used bs))"
  using assms
proof (induction bs arbitrary: prv p)
  case Nil
  then show ?case using end_get(4) [OF Nil.prems(1,2)] by (simp add: skip_used.simps [of t m p])
next
  case (Cons b bs)
  have e: "p + bk_size b < 2 ^ 31"
    using Cons.prems(4) bend_ge [of "p + bk_size b" bs] by simp
  have "head_ok t m prv p b" using Cons.prems(1) by simp
  note g = head_get [OF this Cons.prems(2) e Cons.prems(3)]
  show ?case
  proof (cases "bk_used b")
    case True
    have "skip_used t m (p + bk_size b) = Some (bend (p + bk_size b) (takeWhile bk_used bs))"
      using Cons.prems e by (intro Cons.IH [of p]) auto
    then show ?thesis using True g Cons.prems(3) by (simp add: skip_used.simps [of t m p])
  next
    case False
    then show ?thesis using g by (simp add: skip_used.simps [of t m p])
  qed
qed

section \<open>Writing headers\<close>

text \<open>Writing a pointer keeps the tag bit of the word.\<close>

lemma set_prev_word:
  assumes "rd32 m p = hword1 prv u" "prv < 2 ^ 31"
  shows "mem_blk_set_prev p v m = wr32 m p (hword1 v u)"
  using hword1_get(3) [OF assms(2), of u] assms(1)
  by (simp add: mem_blk_set_prev_def set_ptr_def hword1_def)

lemma set_next_word:
  assumes "rd32 m (p + 4) = hword2 t nxt tr" "nxt < 2 ^ 31"
  shows "mem_blk_set_next t p v m = wr32 m (p + 4) (hword2 t v tr)"
  using hword2_get(2) [OF assms(2), of t tr] assms(1)
  by (simp add: mem_blk_set_next_def set_ptr_def hword2_def)

lemma next_word:
  assumes "rd32 m (p + 4) = hword2 t nxt tr" "nxt < 2 ^ 31"
  shows "mem_blk_next t m p = nxt"
  using hword2_get(1) [OF assms(2)] assms(1) by (simp add: mem_blk_next_def get_ptr_def)

lemma hword_0: "hword1 0 False = 0" "hword2 t 0 False = 0"
  by (simp_all add: hword1_def hword2_def)

text \<open>Cutting a block: the four words that change.\<close>

lemma split_words:
  assumes h: "head_ok t m prv p b" and c: "chain t m p (p + bk_size b) bs"
    and p: "0 < p" "p + bk_size b < 2 ^ 31" and n: "8 \<le> n" "n + 8 \<le> bk_size b"
  shows "split_blk t p (p + n) m
    = wr32 (wr32 (wr32 (wr32 (wr32 (wr32 m (p + n + 4) 0) (p + n) 0) (p + n) (hword1 p False))
        (p + n + 4) (hword2 t (p + bk_size b) False)) (p + bk_size b) (hword1 (p + n) (used_at bs)))
        (p + 4) (hword2 t (p + n) (bk_traced b))"
proof -
  let ?q = "p + bk_size b" and ?nb = "p + n"
  let ?m1 = "wr32 (wr32 m (?nb + 4) 0) ?nb 0"
  let ?m2 = "wr32 ?m1 ?nb (hword1 p False)"
  let ?m3 = "wr32 ?m2 (?nb + 4) (hword2 t ?q False)"
  let ?m4 = "wr32 ?m3 ?q (hword1 ?nb (used_at bs))"
  note o = rd32_wr32_other
  have w2: "rd32 x (p + 4) = hword2 t ?q (bk_traced b)" if "x = m \<or> x = ?m2 \<or> x = ?m3 \<or> x = ?m4" for x
    using that h n by (auto simp: head_ok_def o)
  have "mem_blk_set_prev ?nb p ?m1 = ?m2"
    by (rule set_prev_word [where prv = 0]) (simp_all add: hword_0)
  moreover have "mem_blk_next t ?m2 p = ?q" using w2 [of ?m2] p(2) by (intro next_word) simp_all
  moreover have "mem_blk_set_next t ?nb ?q ?m2 = ?m3"
    by (rule set_next_word [where nxt = 0]) (simp_all add: hword_0 o)
  moreover have "mem_blk_next t ?m3 p = ?q" using w2 [of ?m3] p(2) by (intro next_word) simp_all
  moreover have "mem_blk_set_prev ?q ?nb ?m3 = ?m4"
  proof (rule set_prev_word [where prv = p])
    show "rd32 ?m3 ?q = hword1 p (used_at bs)" using chain_first [OF c] n by (simp add: o)
  qed (use p in simp)
  moreover have "mem_blk_set_next t p ?nb ?m4 = wr32 ?m4 (p + 4) (hword2 t ?nb (bk_traced b))"
    using w2 [of ?m4] p(2) by (intro set_next_word [where nxt = ?q]) simp_all
  ultimately show ?thesis by (simp add: split_blk_def Let_def)
qed

end
