(* ===== verification/HeapAlloc.thy ===== *)
theory HeapAlloc
  imports HeapBlocks
begin

text \<open>
  What allocation does to the list of blocks of one region: the block found is cut in two or taken
  whole (\<open>taken\<close>), its header is marked, and every other header and every payload byte stays as it was.
\<close>

section \<open>Marking a block used\<close>

definition mark :: "bool \<Rightarrow> bool \<Rightarrow> nat \<Rightarrow> u32 \<Rightarrow> u32 \<Rightarrow> memory \<Rightarrow> memory" where
  "mark t trace p file line m =
     (if trace then mem_blk_set_traced t p file line (mem_blk_set_used p m) else mem_blk_set_used p m)"

lemma hword_mark: "hword1 prv False OR MEM_BLK_TAG = hword1 prv True"
    "hword2 t nxt False OR MEM_BLK_TRACE t = hword2 t nxt True"
  by (simp_all add: hword1_def hword2_def)

lemma mark_out: "x < p \<or> p + mem_blk_head_size t trace \<le> x \<Longrightarrow> trace \<longrightarrow> t \<Longrightarrow> mark t trace p file line m x = m x"
  by (auto simp: mark_def mem_blk_set_traced_def mem_blk_set_used_def wr32_out mem_blk_head_size_def
      MEM2_HEAD_SIZE_def MEM_HEAD_SIZE_def)

lemma mark_head:
  assumes "head_ok t m prv p (Blk n False False)" "trace \<longrightarrow> t"
  shows "head_ok t (mark t trace p file line m) prv p (Blk n True trace)"
proof -
  have "(line OR 0x80000000) AND 0x80000000 = (0x80000000 :: u32)"
    by (metis or.commute word_ao_absorbs(7))
  then show ?thesis
    using assms by (auto simp: head_ok_def mark_def mem_blk_set_traced_def mem_blk_set_used_def rd32_wr32_other
        hword_mark hword_mark(2) [where t = True, unfolded MEM_BLK_TRACE_def if_True] MEM_BLK_TRACE_def [of True])
qed

lemma mark_chain:
  assumes c: "chain t m prv p (Blk n False False # bs)" and ok: "list_all (blk_ok t) bs"
    and tr: "trace \<longrightarrow> t" and n: "mem_blk_head_size t trace \<le> n"
  shows "chain t (mark t trace p file line m) prv p (Blk n True trace # bs)"
proof -
  have "chain t (mark t trace p file line m) p (p + n) bs"
  proof (rule chain_cong [of t m])
    fix x assume "p + n \<le> x" "x < bend (p + n) bs + 8"
    then show "mark t trace p file line m x = m x" using n by (intro mark_out tr) auto
  qed (use c ok in simp_all)
  then show ?thesis using c mark_head [OF _ tr] by simp
qed

section \<open>Cutting a block\<close>

lemma split_out:
  assumes h: "head_ok t m prv p b" and c: "chain t m p (p + bk_size b) bs"
    and p: "0 < p" "p + bk_size b < 2 ^ 31" and n: "8 \<le> n" "n + 8 \<le> bk_size b"
    and x: "x < p \<or> p + bk_size b + 4 \<le> x"
  shows "split_blk t p (p + n) m x = m x"
  using x n by (auto simp: split_words [OF h c p n] wr32_out)

lemma split_chain:
  assumes h: "head_ok t m prv p b" and c: "chain t m p (p + bk_size b) bs" and ok: "list_all (blk_ok t) bs"
    and u: "\<not> bk_traced b"
    and p: "0 < p" "p + bk_size b < 2 ^ 31" and n: "8 \<le> n" "n + 8 \<le> bk_size b"
  shows "chain t (split_blk t p (p + n) m) prv p (Blk n (bk_used b) False # Blk (bk_size b - n) False False # bs)"
proof -
  let ?m = "split_blk t p (p + n) m"
  note w = split_words [OF h c p n] and o = rd32_wr32_other
  have e: "p + n + (bk_size b - n) = p + bk_size b" using n by simp
  have "head_ok t ?m prv p (Blk n (bk_used b) False)"
    using h u n by (auto simp: head_ok_def w o)
  moreover have "head_ok t ?m p (p + n) (Blk (bk_size b - n) False False)"
    using n e by (auto simp: head_ok_def w o)
  moreover have "chain t ?m (p + n) (p + bk_size b) bs"
  proof (rule chain_relink [OF c ok])
    show "rd32 ?m (p + bk_size b) = hword1 (p + n) (used_at bs)" using n by (simp add: w o)
    fix x assume "p + bk_size b + 4 \<le> x"
    then show "?m x = m x" by (intro split_out [OF h c p n]) simp
  qed
  ultimately show ?thesis using e by simp
qed

section \<open>The block taken\<close>

definition taken :: "bool \<Rightarrow> bool \<Rightarrow> nat \<Rightarrow> blk \<Rightarrow> blk list" where
  "taken t trace need b =
     (if need + mem_blk_head_size t trace + MEM_BLK_MIN \<le> bk_size b
      then [Blk need True trace, Blk (bk_size b - need) False False]
      else [Blk (bk_size b) True trace])"

definition take_mem :: "bool \<Rightarrow> bool \<Rightarrow> u32 \<Rightarrow> u32 \<Rightarrow> nat \<Rightarrow> nat \<Rightarrow> memory \<Rightarrow> memory" where
  "take_mem t trace file line need p m =
     (let nb = (if blk_link_size t m p \<ge> (need + mem_blk_head_size t trace + MEM_BLK_MIN) mod 2 ^ 32
                then p + need else mem_blk_next t m p)
      in mark t trace p file line (if mem_blk_next t m p \<noteq> nb then split_blk t p nb m else m))"

lemma head_size_vals: "mem_blk_head_size t trace = (if trace \<and> t then 16 else 8)"
  by (simp add: mem_blk_head_size_def MEM2_HEAD_SIZE_def MEM_HEAD_SIZE_def)

lemma take_mem_eq:
  assumes h: "head_ok t m prv p b" and fit: "need \<le> bk_size b"
    and p: "0 < p" "p + bk_size b < 2 ^ 31" "prv < 2 ^ 31"
  shows "take_mem t trace file line need p m =
     mark t trace p file line
       (if need + mem_blk_head_size t trace + MEM_BLK_MIN \<le> bk_size b then split_blk t p (p + need) m else m)"
proof -
  note g = head_get [OF h p(3) p(2) p(1)]
  have hs: "0 < mem_blk_head_size t trace" "mem_blk_head_size t trace \<le> 16" by (simp_all add: head_size_vals)
  then have "(need + mem_blk_head_size t trace + MEM_BLK_MIN) mod 2 ^ 32 = need + mem_blk_head_size t trace + MEM_BLK_MIN"
    using fit p(2) by (intro mod_less) (simp add: MEM_BLK_MIN_def)
  then show ?thesis using g hs by (auto simp: take_mem_def Let_def simp del: numeral_pow)
qed

lemma take_mem_chain:
  assumes c: "chain t m prv p (b # bs)" and ok: "list_all (blk_ok t) (b # bs)"
    and u: "\<not> bk_used b" and fit: "need \<le> bk_size b"
    and need: "mem_blk_head_size t trace \<le> need" "4 dvd need" and tr: "trace \<longrightarrow> t"
    and p: "0 < p" "p + bk_size b < 2 ^ 31" "prv < 2 ^ 31"
  shows "chain t (take_mem t trace file line need p m) prv p (taken t trace need b @ bs)"
    "list_all (blk_ok t) (taken t trace need b)"
    "\<And>x. x < p \<or> p + bk_size b + 4 \<le> x \<Longrightarrow> take_mem t trace file line need p m x = m x"
proof -
  let ?cut = "need + mem_blk_head_size t trace + MEM_BLK_MIN \<le> bk_size b"
  have h: "head_ok t m prv p b" and cs: "chain t m p (p + bk_size b) bs" and nt: "\<not> bk_traced b"
    and oks: "list_all (blk_ok t) bs" "8 \<le> bk_size b" "4 dvd bk_size b" using c ok u by (auto simp: blk_ok_def)
  note eq = take_mem_eq [OF h fit p]
  have hs: "8 \<le> mem_blk_head_size t trace" "mem_blk_head_size t trace \<le> 16" by (simp_all add: head_size_vals)
  have bs: "b = Blk (bk_size b) False False" using u nt by (cases b) auto
  have n: "8 \<le> need" "need + 8 \<le> bk_size b" if ?cut using hs need that by simp_all
  note sc = split_chain [OF h cs oks(1) nt p(1,2)] and so = split_out [OF h cs p(1,2)]
  show "chain t (take_mem t trace file line need p m) prv p (taken t trace need b @ bs)"
  proof (cases ?cut)
    case True
    have "chain t (split_blk t p (p + need) m) prv p (Blk need False False # Blk (bk_size b - need) False False # bs)"
      using sc [OF n [OF True]] u by simp
    from mark_chain [OF this _ tr need(1)] show ?thesis
      using True oks n [OF True] need(2) by (simp add: eq taken_def blk_ok_def)
  next
    case False
    then show ?thesis using mark_chain [OF _ oks(1) tr, of m prv p "bk_size b"] c fit need(1) bs
      by (simp add: eq taken_def)
  qed
  show "list_all (blk_ok t) (taken t trace need b)"
    using hs oks n need tr fit by (auto simp: taken_def blk_ok_def head_size_vals)
  show "take_mem t trace file line need p m x = m x" if "x < p \<or> p + bk_size b + 4 \<le> x" for x
  proof -
    have "mark t trace p file line m' x = m' x" for m'
      using that need fit by (intro mark_out tr) auto
    then show ?thesis using so [OF n _ ] that by (simp add: eq)
  qed
qed

end
