(* ===== verification/HeapRegion.thy ===== *)
theory HeapRegion
  imports HeapAlloc
begin

text \<open>
  The invariant of a region (\<open>region_ok\<close>): its memory holds the headers of a list of blocks that tile
  it, no two neighbours are both free, \<open>free_bytes\<close> is the sum of the free blocks, \<open>min_free_bytes\<close>
  is at most that, and \<open>free_blk\<close> is the first block that is not used.  Initialisation establishes it;
  \<open>malloc_region\<close> is a first fit on the list of blocks and keeps it.
\<close>

section \<open>Geometry\<close>

definition region_wf :: "heap_region \<Rightarrow> bool" where
  "region_wf r \<longleftrightarrow> 0 < start_addr r \<and> 24 \<le> total_size r \<and> start_addr r + total_size r \<le> 2 ^ 31"

lemma region_geometry:
  assumes "region_wf r"
  shows "0 < region_first r" "start_addr r \<le> region_first r" "4 dvd region_first r" "4 dvd region_end r"
    "region_first r + 8 \<le> region_end r" "region_end r + 8 \<le> start_addr r + total_size r"
    "region_end r < 2 ^ 31"
proof -
  let ?s = "start_addr r" and ?e = "start_addr r + total_size r"
  have w: "0 < ?s" "24 \<le> total_size r" "?e \<le> 2147483648" using assms by (simp_all add: region_wf_def)
  then have b: "?s + (4 - 1) < 2 ^ 32" "?e + (4 - 1) < 2 ^ 32" by simp_all
  note s = align_up_ge [OF _ b(1), of] align_up_less [OF _ b(1)]
  note e = align_up_ge [OF _ b(2), of] align_up_less [OF _ b(2)]
  have f: "?s \<le> region_first r" "region_first r < ?s + 4" using s by (simp_all add: region_first_def HEAP_ALIGN_def)
  have en: "region_end r + 8 \<le> ?e" "?e < region_end r + 12"
    using e w by (auto simp: region_end_def HEAP_ALIGN_def MEM_HEAD_SIZE_def Let_def)
  show "0 < region_first r" "start_addr r \<le> region_first r" "region_end r + 8 \<le> start_addr r + total_size r"
    using f w(1) en by simp_all
  show "4 dvd region_first r" by (simp add: region_first_def HEAP_ALIGN_def)
  have "region_end r = align_up 4 ?e - 8 \<or> region_end r = align_up 4 ?e - 12"
    by (auto simp: region_end_def HEAP_ALIGN_def MEM_HEAD_SIZE_def Let_def)
  moreover have "4 dvd align_up 4 ?e - 8" "4 dvd align_up 4 ?e - 12" by (rule dvd_diff_nat, simp_all)+
  ultimately show "4 dvd region_end r" by (elim disjE) (simp_all only:)
  show "region_first r + 8 \<le> region_end r" using f en w by linarith
  show "region_end r < 2 ^ 31" using en w by simp
qed

section \<open>The invariant\<close>

definition free_sum :: "blk list \<Rightarrow> nat" where
  "free_sum bs = (\<Sum>b\<leftarrow>bs. if bk_used b then 0 else bk_size b)"

definition no_adj :: "blk list \<Rightarrow> bool" where
  "no_adj = successively (\<lambda>a b. bk_used a \<or> bk_used b)"

definition region_ok :: "bool \<Rightarrow> memory \<Rightarrow> heap_region \<Rightarrow> blk list \<Rightarrow> bool" where
  "region_ok t m r bs \<longleftrightarrow> region_wf r
     \<and> chain t m 0 (region_first r) bs \<and> list_all (blk_ok t) bs \<and> bend (region_first r) bs = region_end r
     \<and> no_adj bs \<and> free_bytes r = free_sum bs \<and> min_free_bytes r \<le> free_bytes r
     \<and> free_blk r = bend (region_first r) (takeWhile bk_used bs)"

lemma free_sum_simps [simp]:
  "free_sum [] = 0" "free_sum (b # bs) = (if bk_used b then 0 else bk_size b) + free_sum bs"
  "free_sum (as @ bs) = free_sum as + free_sum bs"
  by (simp_all add: free_sum_def)

lemma no_adj_simps [simp]:
  "no_adj []" "no_adj [b]" "no_adj (a # b # bs) \<longleftrightarrow> (bk_used a \<or> bk_used b) \<and> no_adj (b # bs)"
  by (simp_all add: no_adj_def)

lemma no_adj_append:
  "no_adj (as @ bs) \<longleftrightarrow> no_adj as \<and> no_adj bs \<and> (as = [] \<or> bs = [] \<or> bk_used (last as) \<or> bk_used (hd bs))"
  by (auto simp: no_adj_def successively_append_iff)

lemma free_sum_le: "p + free_sum bs \<le> bend p bs"
proof (induction bs arbitrary: p)
  case (Cons b bs)
  show ?case using Cons.IH [of "p + bk_size b"] by auto
qed simp

lemma region_ok_cong:
  assumes "region_ok t m r bs" "\<And>x. start_addr r \<le> x \<Longrightarrow> x < start_addr r + total_size r \<Longrightarrow> m' x = m x"
  shows "region_ok t m' r bs"
proof -
  have wf: "region_wf r" using assms(1) by (simp add: region_ok_def)
  have "chain t m' 0 (region_first r) bs"
  proof (rule chain_cong [of t m])
    fix x assume "region_first r \<le> x" "x < bend (region_first r) bs + 8"
    then show "m' x = m x" using assms(1) region_geometry [OF wf] by (intro assms(2)) (auto simp: region_ok_def)
  qed (use assms(1) in \<open>simp_all add: region_ok_def\<close>)
  then show ?thesis using assms(1) by (simp add: region_ok_def)
qed

section \<open>Initialisation\<close>

lemma init_region_ok:
  assumes "region_wf r"
  shows "init_region t r m = (r', m') \<Longrightarrow>
      region_ok t m' r' [Blk (region_end r - region_first r) False False]
      \<and> start_addr r' = start_addr r \<and> total_size r' = total_size r \<and> hr_caps r' = hr_caps r
      \<and> (\<forall>x. x < start_addr r \<or> start_addr r + total_size r \<le> x \<longrightarrow> m' x = m x)"
proof -
  assume i: "init_region t r m = (r', m')"
  note g = region_geometry [OF assms]
  let ?s = "region_first r" and ?e = "region_end r"
  let ?b = "Blk (?e - ?s) False False"
  let ?m2 = "wr32 (wr32 (wr32 (wr32 m ?s 0) (?s + 4) (of_nat ?e)) ?e (of_nat ?s)) (?e + 4) 0"
  have m': "m' = ?m2" using i by (simp add: init_region_def Let_def)
  have h: "head_ok t ?m2 0 ?s ?b"
    using g(5) by (simp add: head_ok_def rd32_wr32_other hword1_def hword2_def)
  moreover have "chain t ?m2 ?s ?e []" by (simp add: rd32_wr32_other hword1_def)
  ultimately have c: "chain t ?m2 0 ?s [?b]" using g(5) by simp
  have "blk_link_size t ?m2 ?s = ?e - ?s"
    using head_get(5) [OF h] g by simp
  then have r': "r' = r\<lparr>free_blk := ?s, free_bytes := ?e - ?s, min_free_bytes := ?e - ?s\<rparr>"
    using i by (simp add: init_region_def Let_def)
  have fe: "region_first r' = ?s" "region_end r' = ?e" "region_wf r'"
    using assms by (simp_all add: r' region_first_def region_end_def region_wf_def)
  have "blk_ok t ?b" using g(3,4,5) by (simp add: blk_ok_def)
  then have "region_ok t m' r' [?b]"
    using c g(5) by (simp add: region_ok_def fe m') (simp add: r')
  moreover have "m' x = m x" if "x < start_addr r \<or> start_addr r + total_size r \<le> x" for x
    using that g(2,5,6) by (auto simp: m' wr32_out)
  ultimately show ?thesis by (simp add: r')
qed

section \<open>Allocation in a region\<close>

text \<open>The block \<open>find_blk\<close> looks for: not used, and large enough.\<close>

abbreviation unfit :: "nat \<Rightarrow> blk \<Rightarrow> bool" where
  "unfit need b \<equiv> bk_used b \<or> bk_size b < need"

lemma takeWhile_two:
  assumes "\<And>x. P x \<Longrightarrow> Q x"
  shows "takeWhile P xs @ takeWhile Q (dropWhile P xs) = takeWhile Q xs"
  by (induction xs) (auto simp: assms)

lemma region_find:
  assumes ok: "region_ok t m r bs"
  shows "find_blk t m need (free_blk r) = Some (bend (region_first r) (takeWhile (unfit need) bs))"
proof -
  let ?p = "region_first r" and ?u = "takeWhile bk_used bs" and ?d = "dropWhile bk_used bs"
  have wf: "region_wf r" and c: "chain t m 0 ?p (?u @ ?d)" and l: "list_all (blk_ok t) bs"
    and e: "bend ?p bs = region_end r" and fb: "free_blk r = bend ?p ?u"
    using ok unfolding region_ok_def by simp_all
  note g = region_geometry [OF wf]
  have pos: "0 < bend ?p ?u" using bend_ge [of ?p ?u] g(1) by simp
  have le: "bend (bend ?p ?u) ?d < 2 ^ 31" using e g(7) bend_append [of ?p ?u ?d] by simp
  have "list_all (blk_ok t) ?u" using l by (simp add: list_all_iff) (metis set_takeWhileD)
  then have "lastp 0 ?p ?u \<le> bend ?p ?u" using lastp_bounds [of t ?u ?p 0] by (cases "?u = []") auto
  also have "bend ?p ?u \<le> bend (bend ?p ?u) ?d" by (rule bend_ge)
  finally have "lastp 0 ?p ?u < 2 ^ 31" using le by simp
  moreover have "chain t m (lastp 0 ?p ?u) (bend ?p ?u) ?d" using c by (simp only: blk_chain_append)
  ultimately have "find_blk t m need (bend ?p ?u) = Some (bend (bend ?p ?u) (takeWhile (unfit need) ?d))"
    using pos le by (intro find_blk_chain [where prv = "lastp 0 ?p ?u"])
  also have "bend (bend ?p ?u) (takeWhile (unfit need) ?d) = bend ?p (?u @ takeWhile (unfit need) ?d)" by simp
  also have "?u @ takeWhile (unfit need) ?d = takeWhile (unfit need) bs" by (rule takeWhile_two) simp
  finally show ?thesis by (simp add: fb)
qed

text \<open>A block in the middle of the list: its address and what its header says.\<close>

lemma region_block:
  assumes ok: "region_ok t m r (pre @ b # post)"
  defines "p \<equiv> bend (region_first r) pre"
  shows "chain t m (lastp 0 (region_first r) pre) p (b # post)"
    "heads t m 0 (region_first r) pre"
    "lastp 0 (region_first r) pre < 2 ^ 31" "0 < p" "region_first r \<le> p" "p + bk_size b < 2 ^ 31"
    "blk_ok t b" "list_all (blk_ok t) pre" "list_all (blk_ok t) post"
    "bend (p + bk_size b) post = region_end r"
    "p + bk_size b \<le> region_end r"
proof -
  have wf: "region_wf r" and l: "list_all (blk_ok t) (pre @ b # post)"
    and e: "bend (region_first r) (pre @ b # post) = region_end r"
    and c: "chain t m 0 (region_first r) (pre @ b # post)"
    using ok unfolding region_ok_def by simp_all
  note g = region_geometry [OF wf]
  show "chain t m (lastp 0 (region_first r) pre) p (b # post)" "heads t m 0 (region_first r) pre"
    "blk_ok t b" "list_all (blk_ok t) pre" "list_all (blk_ok t) post"
    using c l by (simp_all add: p_def)
  show "bend (p + bk_size b) post = region_end r" using e by (simp add: p_def)
  show fp: "region_first r \<le> p" using bend_ge by (simp add: p_def)
  then show "0 < p" using g(1) by simp
  show pe: "p + bk_size b \<le> region_end r" using bend_ge [of "p + bk_size b" post] e by (simp add: p_def)
  then show "p + bk_size b < 2 ^ 31" using g(7) by simp
  have "lastp 0 (region_first r) pre \<le> p"
    using lastp_bounds [of t pre "region_first r" 0] \<open>list_all (blk_ok t) pre\<close> by (cases "pre = []") (auto simp: p_def)
  then show "lastp 0 (region_first r) pre < 2 ^ 31" using pe g(7) by simp
qed

lemma takeWhile_fit:
  assumes "takeWhile P bs = pre" "dropWhile P bs = b # post"
  shows "bs = pre @ b # post" "\<forall>a \<in> set pre. P a" "\<not> P b"
  using assms takeWhile_dropWhile_id [of P bs] hd_dropWhile [of P bs] by (auto dest: set_takeWhileD)

lemma malloc_region_none:
  assumes ok: "region_ok t m r bs" and none: "\<forall>b \<in> set bs. unfit (ptr2memblk_size t sz trace) b"
  shows "malloc_region t trace sz file line r m = Some (None, r, m)"
proof -
  let ?need = "ptr2memblk_size t sz trace"
  have wf: "region_wf r" and c: "chain t m 0 (region_first r) (bs @ [])" and l: "list_all (blk_ok t) bs"
    and e: "bend (region_first r) bs = region_end r" using ok unfolding region_ok_def by simp_all
  note g = region_geometry [OF wf]
  have "takeWhile (unfit ?need) bs = bs" using none by (simp add: takeWhile_eq_all_conv)
  then have f: "find_blk t m ?need (free_blk r) = Some (region_end r)"
    using region_find [OF ok, of ?need] by (simp only: e)
  have "lastp 0 (region_first r) bs \<le> region_end r"
    using lastp_bounds [OF l, of "region_first r" 0] e by (cases "bs = []") auto
  then have l: "lastp 0 (region_first r) bs < 2 ^ 31" using g(7) by simp
  have "chain t m (lastp 0 (region_first r) bs) (region_end r) []" using c unfolding blk_chain_append e by blast
  then have "mem_blk_is_end t m (region_end r)" using l by (rule end_get(4))
  then show ?thesis using f by (simp add: malloc_region_def Let_def)
qed

lemma takeWhile_used_prefix:
  assumes "region_first r = p0" "list_all (blk_ok t) pre"
  shows "bend p0 (takeWhile bk_used pre) = bend p0 pre \<longleftrightarrow> list_all bk_used pre"
proof
  show "bend p0 (takeWhile bk_used pre) = bend p0 pre" if "list_all bk_used pre"
  proof -
    have "takeWhile bk_used pre = pre" using that by (simp add: takeWhile_eq_all_conv list_all_iff)
    then show ?thesis by (simp only:)
  qed
  show "list_all bk_used pre" if a: "bend p0 (takeWhile bk_used pre) = bend p0 pre"
  proof (rule ccontr)
    assume "\<not> list_all bk_used pre"
    then obtain d ds where d: "dropWhile bk_used pre = d # ds"
      by (cases "dropWhile bk_used pre") (auto simp: list_all_iff)
    have e: "pre = takeWhile bk_used pre @ d # ds" using takeWhile_dropWhile_id [of bk_used pre] d by simp
    have "bend p0 pre = bend (bend p0 (takeWhile bk_used pre) + bk_size d) ds"
      using bend_append [of p0 "takeWhile bk_used pre" "d # ds"] unfolding e [symmetric] by simp
    moreover have "blk_ok t d" using assms(2) by (subst (asm) e) simp
    ultimately have "bend p0 pre = bend (bend p0 (takeWhile bk_used pre) + bk_size d) ds" "blk_ok t d" by blast+
    then show False using a bend_ge [of "bend p0 (takeWhile bk_used pre) + bk_size d" ds] by (simp add: blk_ok_def)
  qed
qed

lemma takeWhile_skip: "list_all P pre \<Longrightarrow> takeWhile P (pre @ ys) = pre @ takeWhile P ys"
  by (induction pre) auto

lemma takeWhile_blocked: "\<not> list_all P pre \<Longrightarrow> takeWhile P (pre @ ys) = takeWhile P pre"
  by (induction pre) auto

lemma taken_sizes:
  assumes "need \<le> bk_size b" "\<not> bk_used b"
  shows "bend p (taken t trace need b) = p + bk_size b"
    "free_sum (taken t trace need b) + bk_size (hd (taken t trace need b)) = bk_size b"
    "need \<le> bk_size (hd (taken t trace need b))"
    "\<exists>bs. taken t trace need b = Blk (bk_size (hd (taken t trace need b))) True trace # bs"
  using assms by (auto simp: taken_def)

lemma taken_no_adj:
  assumes "no_adj (pre @ b # post)" "\<not> bk_used b"
  shows "no_adj (pre @ taken t trace need b @ post)"
  using assms by (cases post) (auto simp: no_adj_append taken_def)

text \<open>A fitting block is taken.\<close>

lemma malloc_region_take_mem:
  "malloc_region t trace sz file line r m =
    (let need = ptr2memblk_size t sz trace in
     if need > free_bytes r then Some (None, r, m)
     else case find_blk t m need (free_blk r) of
       None \<Rightarrow> None
     | Some b \<Rightarrow>
         if b = 0 \<or> mem_blk_is_end t m b then Some (None, r, m)
         else let m3 = take_mem t trace file line need b m
           in case (if free_blk r = b then skip_used t m3 b else Some (free_blk r)) of
                None \<Rightarrow> None
              | Some fb \<Rightarrow>
                  let left = u32_of_int (int (free_bytes r) - int (blk_link_size t m3 b))
                  in Some (Some (b + mem_blk_head_size t trace),
                       r\<lparr>free_blk := fb, free_bytes := left,
                         min_free_bytes := (if min_free_bytes r > left then left else min_free_bytes r)\<rparr>, m3))"
  by (simp only: malloc_region_def take_mem_def mark_def Let_def blk2ptr_def)

lemma malloc_region_unfold:
  assumes "need \<le> free_bytes r" "find_blk t m need (free_blk r) = Some b" "b \<noteq> 0" "\<not> mem_blk_is_end t m b"
    "m3 = take_mem t trace file line need b m" "need = ptr2memblk_size t sz trace"
    "(if free_blk r = b then skip_used t m3 b else Some (free_blk r)) = Some fb"
    "left = u32_of_int (int (free_bytes r) - int (blk_link_size t m3 b))"
  shows "malloc_region t trace sz file line r m = Some (Some (b + mem_blk_head_size t trace),
          r\<lparr>free_blk := fb, free_bytes := left,
            min_free_bytes := (if min_free_bytes r > left then left else min_free_bytes r)\<rparr>, m3)"
proof -
  have "\<not> (b = 0 \<or> mem_blk_is_end t m b)" "\<not> need > free_bytes r" using assms by simp_all
  then show ?thesis
    unfolding malloc_region_take_mem assms(6) [symmetric] Let_def
    by (simp only: assms(2,7) assms(5) [symmetric] assms(8) [symmetric] if_False option.case)
qed

lemma malloc_region_some:
  fixes r :: heap_region
  assumes ok: "region_ok t m r (pre @ b # post)"
    and pre: "\<forall>a \<in> set pre. unfit need a" and b: "\<not> bk_used b" "need \<le> bk_size b"
    and need: "need = ptr2memblk_size t sz trace" "mem_blk_head_size t trace \<le> need" and tr: "trace \<longrightarrow> t"
  defines "p \<equiv> bend (region_first r) pre"
  shows "\<exists>r' m'. malloc_region t trace sz file line r m = Some (Some (p + mem_blk_head_size t trace), r', m')
    \<and> region_ok t m' r' (pre @ taken t trace need b @ post)
    \<and> start_addr r' = start_addr r \<and> total_size r' = total_size r \<and> hr_caps r' = hr_caps r
    \<and> (\<forall>x. x < p \<or> p + bk_size b + 4 \<le> x \<longrightarrow> m' x = m x)"
proof -
  let ?p0 = "region_first r" and ?tk = "taken t trace need b" and ?m' = "take_mem t trace file line need p m"
  let ?bs' = "pre @ ?tk @ post"
  let ?left = "free_sum pre + free_sum ?tk + free_sum post"
  note rb = region_block [OF ok, folded p_def]
  have wf: "region_wf r" and fb: "free_bytes r = free_sum (pre @ b # post)" and mn: "min_free_bytes r \<le> free_bytes r"
    and fr: "free_blk r = bend ?p0 (takeWhile bk_used (pre @ b # post))" and na: "no_adj (pre @ b # post)"
    using ok by (simp_all add: region_ok_def)
  note g = region_geometry [OF wf]
  have d4: "4 dvd need" by (simp add: need(1) ptr2memblk_size_def HEAP_ALIGN_def)
  have okb: "list_all (blk_ok t) (b # post)" using rb(7,9) by simp
  note tm = take_mem_chain [OF rb(1) okb b need(2) d4 tr rb(4,6,3)]
  have h: "head_ok t m (lastp 0 ?p0 pre) p b" using rb(1) by simp
  note gt = head_get [OF h rb(3) rb(6) rb(4)]
  obtain rest where tk: "?tk = Blk (bk_size (hd ?tk)) True trace # rest" using taken_sizes(4) [OF b(2,1)] by blast
  note ts = taken_sizes [OF b(2,1), where t = t and trace = trace]
  have "?p0 + free_sum (pre @ b # post) \<le> region_end r"
    using free_sum_le [of ?p0 "pre @ b # post"] ok by (simp add: region_ok_def)
  then have fbb: "free_bytes r < 2 ^ 31" using g(7) fb by simp
  have f: "find_blk t m need (free_blk r) = Some p"
    using region_find [OF ok, of need] pre b by (simp add: p_def takeWhile_append2 takeWhile_append)
  have hd: "chain t ?m' 0 ?p0 ?bs'"
  proof -
    have "heads t ?m' 0 ?p0 pre"
      by (rule heads_cong [OF rb(2,8)]) (rule tm(3), simp add: p_def)
    then show ?thesis using tm(1) by (simp add: p_def)
  qed
  have lok: "list_all (blk_ok t) ?bs'" using tm(2) rb(8,9) by simp
  have en: "bend ?p0 ?bs' = region_end r" using ts(1) rb(10) by (simp add: p_def)
  have ctk: "chain t ?m' (lastp 0 ?p0 pre) p (?tk @ post)" by (rule tm(1))
  have link: "blk_link_size t ?m' p = bk_size (hd ?tk)"
  proof -
    have "head_ok t ?m' (lastp 0 ?p0 pre) p (Blk (bk_size (hd ?tk)) True trace)"
      using ctk by (subst (asm) tk) simp
    moreover have "p + bk_size (hd ?tk) < 2 ^ 31" using ts(2) rb(6) by simp
    ultimately show ?thesis using head_get(5) [of t ?m' "lastp 0 ?p0 pre" p] rb(3,4) by fastforce
  qed
  have fb2: "(if free_blk r = p then skip_used t ?m' p else Some (free_blk r)) = Some (bend ?p0 (takeWhile bk_used ?bs'))"
  proof (cases "list_all bk_used pre")
    case True
    have "skip_used t ?m' p = Some (bend p (takeWhile bk_used (?tk @ post)))"
      using rb(10) ts(1) g(7) by (intro skip_used_chain [OF ctk rb(3,4)]) simp
    moreover have "free_blk r = p" using fr b(1) True by (simp add: takeWhile_skip p_def)
    ultimately show ?thesis using True by (simp add: takeWhile_skip p_def)
  next
    case False
    then have "free_blk r = bend ?p0 (takeWhile bk_used pre)" using fr by (simp add: takeWhile_blocked)
    moreover have "bend ?p0 (takeWhile bk_used pre) \<noteq> p"
      using takeWhile_used_prefix [OF refl rb(8)] False by (simp add: p_def)
    ultimately show ?thesis using False by (simp add: takeWhile_blocked)
  qed
  have left: "u32_of_int (int (free_bytes r) - int (blk_link_size t ?m' p)) = ?left"
    using ts(2) fb b(1) fbb by (simp add: link)
  let ?r' = "r\<lparr>free_blk := bend ?p0 (takeWhile bk_used ?bs'), free_bytes := ?left,
     min_free_bytes := (if min_free_bytes r > ?left then ?left else min_free_bytes r)\<rparr>"
  have "ptr2memblk_size t sz trace \<le> free_bytes r" using b fb need(1) by simp
  then have "malloc_region t trace sz file line r m = Some (Some (p + mem_blk_head_size t trace), ?r', ?m')"
    using f rb(4) left need(1) by (intro malloc_region_unfold [OF _ _ _ gt(4) refl need(1) fb2]) simp_all
  moreover have "region_ok t ?m' ?r' ?bs'"
    using wf hd lok en taken_no_adj [OF na b(1)]
    by (simp add: region_ok_def region_wf_def region_first_def region_end_def)
  ultimately show ?thesis using tm(3) by (intro exI [of _ ?r'] exI [of _ ?m']) simp
qed

end
