(* ===== verification/HeapFree.thy ===== *)
theory HeapFree
  imports HeapRegion
begin

text \<open>
  What releasing a block does to the list of blocks of its region: the block becomes free and is joined
  with a free block before it and a free block after it (\<open>release\<close>).  Only header words are written
  (\<open>hdrs\<close>), and the invariant of the region is kept.
\<close>

section \<open>Joining two neighbours\<close>

lemma join_words:
  assumes h: "head_ok t m prv p a" and c: "chain t m p' (p' + n) bs" and n: "p + bk_size a \<le> p'" "8 \<le> bk_size a" "8 \<le> n"
    and p: "0 < p" "p' + n < 2 ^ 31"
  shows "mem_blk_set_prev (p' + n) p (mem_blk_set_next t p (p' + n) m)
    = wr32 (wr32 m (p + 4) (hword2 t (p' + n) (bk_traced a))) (p' + n) (hword1 p (used_at bs))"
proof -
  let ?m1 = "wr32 m (p + 4) (hword2 t (p' + n) (bk_traced a))"
  have "mem_blk_set_next t p (p' + n) m = ?m1"
    using h p n by (intro set_next_word [where nxt = "p + bk_size a"]) (auto simp: head_ok_def)
  moreover have "mem_blk_set_prev (p' + n) p ?m1 = wr32 ?m1 (p' + n) (hword1 p (used_at bs))"
    using chain_first [OF c] n p by (intro set_prev_word [where prv = p']) (auto simp: rd32_wr32_other)
  ultimately show ?thesis by simp
qed

lemma join_chain:
  assumes c: "chain t m prv p (a # d # bs)" and ok: "list_all (blk_ok t) (a # d # bs)"
    and p: "0 < p" "p + bk_size a + bk_size d < 2 ^ 31" and u: "\<not> bk_used a"
  defines "q \<equiv> p + bk_size a + bk_size d"
  defines "m' \<equiv> mem_blk_set_prev q p (mem_blk_set_next t p q m)"
  shows "chain t m' prv p (Blk (bk_size a + bk_size d) False False # bs)"
    and "\<And>x. \<not> (p + 4 \<le> x \<and> x < p + 8) \<Longrightarrow> \<not> (q \<le> x \<and> x < q + 4) \<Longrightarrow> m' x = m x"
proof -
  have h: "head_ok t m prv p a" and cb: "chain t m (p + bk_size a) q bs" and lb: "list_all (blk_ok t) bs"
    and s: "8 \<le> bk_size a" "8 \<le> bk_size d" and nt: "\<not> bk_traced a"
    using c ok u by (auto simp: q_def blk_ok_def)
  have m': "m' = wr32 (wr32 m (p + 4) (hword2 t q False)) q (hword1 p (used_at bs))"
    using join_words [OF h, of "p + bk_size a" "bk_size d" bs] cb s p nt by (simp add: m'_def q_def)
  show fr: "m' x = m x" if "\<not> (p + 4 \<le> x \<and> x < p + 8)" "\<not> (q \<le> x \<and> x < q + 4)" for x
    using that by (auto simp: m' wr32_out)
  have "head_ok t m' prv p (Blk (bk_size a + bk_size d) False False)"
    using h s u nt by (simp add: head_ok_def m' q_def rd32_wr32_other add.assoc)
  moreover have "chain t m' p q bs"
  proof (rule chain_relink [OF cb lb])
    show "rd32 m' q = hword1 p (used_at bs)" by (simp add: m')
    show "m' x = m x" if "q + 4 \<le> x" for x using that s by (intro fr) (auto simp: q_def)
  qed
  ultimately show "chain t m' prv p (Blk (bk_size a + bk_size d) False False # bs)" by (simp add: q_def add.assoc)
qed

section \<open>Clearing the marks\<close>

lemma hword_clear:
  assumes "a < 2 ^ 31"
  shows "hword1 a u AND NOT MEM_BLK_TAG = hword1 a False"
    "hword2 t a u AND NOT (MEM_BLK_TRACE t) = hword2 t a False"
proof -
  show "hword1 a u AND NOT MEM_BLK_TAG = hword1 a False"
    by (simp only: hword1_def MEM_BLK_TAG_def tagged(1) [OF assms] if_False or.right_neutral)
  show "hword2 t a u AND NOT (MEM_BLK_TRACE t) = hword2 t a False"
    by (cases t) (simp_all only: hword2_def MEM_BLK_TRACE_def tagged(1) [OF assms] if_True if_False if_cancel
        or.right_neutral bit.compl_zero bit.conj_one_right)
qed

lemma clear_chain:
  assumes c: "chain t m prv p (b # bs)" and ok: "list_all (blk_ok t) (b # bs)"
    and p: "prv < 2 ^ 31" "p + bk_size b < 2 ^ 31"
  defines "m' \<equiv> mem_blk_set_untraced t p (mem_blk_set_unused p m)"
  shows "chain t m' prv p (Blk (bk_size b) False False # bs)"
    and "\<And>x. \<not> (p \<le> x \<and> x < p + 8) \<Longrightarrow> m' x = m x"
proof -
  have h: "head_ok t m prv p b" and cb: "chain t m p (p + bk_size b) bs" and s: "8 \<le> bk_size b"
    using c ok by (auto simp: blk_ok_def)
  have m': "m' = wr32 (wr32 m p (hword1 prv False)) (p + 4) (hword2 t (p + bk_size b) False)"
    using h hword_clear(1) [OF p(1)] hword_clear(2) [OF p(2)]
    by (simp add: m'_def mem_blk_set_untraced_def mem_blk_set_unused_def head_ok_def rd32_wr32_other)
  show fr: "m' x = m x" if "\<not> (p \<le> x \<and> x < p + 8)" for x
    using that by (auto simp: m' wr32_out)
  have "head_ok t m' prv p (Blk (bk_size b) False False)" by (simp add: head_ok_def m' rd32_wr32_other)
  moreover have "chain t m' p (p + bk_size b) bs"
    using ok s by (intro chain_cong [OF cb]) (auto intro: fr)
  ultimately show "chain t m' prv p (Blk (bk_size b) False False # bs)" by simp
qed

section \<open>The header words of a list of blocks\<close>

primrec hdrs :: "nat \<Rightarrow> blk list \<Rightarrow> nat set" where
  "hdrs p [] = {p..<p + 8}"
| "hdrs p (b # bs) = {p..<p + 8} \<union> hdrs (p + bk_size b) bs"

lemma hdrs_first: "{p..<p + 8} \<subseteq> hdrs p bs"
  by (cases bs) auto

lemma hdrs_firstI: "p \<le> x \<Longrightarrow> x < p + 8 \<Longrightarrow> x \<in> hdrs p bs"
  by (cases bs) auto

lemma hdrs_append [simp]: "hdrs p (as @ bs) = hdrs p as \<union> hdrs (bend p as) bs"
  using hdrs_first by (induction as arbitrary: p) auto

section \<open>The list operation\<close>

definition release :: "blk list \<Rightarrow> nat \<Rightarrow> blk list \<Rightarrow> blk list" where
  "release pre n post =
    (let (pre', n') = (if pre \<noteq> [] \<and> \<not> bk_used (last pre) then (butlast pre, bk_size (last pre) + n) else (pre, n));
         (n'', post') = (case post of [] \<Rightarrow> (n', []) | c # cs \<Rightarrow> if bk_used c then (n', post) else (n' + bk_size c, cs))
     in pre' @ Blk n'' False False # post')"

lemma chain_replace:
  "chain t m prv p (pre @ xs) \<Longrightarrow> list_all (blk_ok t) pre \<Longrightarrow> chain t m' (lastp prv p pre) (bend p pre) ys
    \<Longrightarrow> (\<And>x. x < bend p pre \<Longrightarrow> m' x = m x) \<Longrightarrow> chain t m' prv p (pre @ ys)"
  by (auto intro: heads_cong [of t m])

text \<open>The join with the block before.\<close>

lemma join_before:
  assumes c: "chain t m 0 p0 (pre @ Blk n False False # post)"
    and ok: "list_all (blk_ok t) (pre @ Blk n False False # post)"
    and p0: "0 < p0" and lim: "bend p0 pre + n < 2 ^ 31"
  defines "p \<equiv> bend p0 pre" and "prv \<equiv> lastp 0 p0 pre"
  defines "joins \<equiv> prv \<noteq> 0 \<and> \<not> mem_blk_is_used m prv"
  defines "m1 \<equiv> (if joins then mem_blk_set_prev (p + n) prv (mem_blk_set_next t prv (p + n) m) else m)"
  defines "tmp \<equiv> (if joins then prv else p)"
  shows "\<exists>pre1 n1. (pre1, n1) = (if pre \<noteq> [] \<and> \<not> bk_used (last pre) then (butlast pre, bk_size (last pre) + n) else (pre, n))
    \<and> chain t m1 0 p0 (pre1 @ Blk n1 False False # post) \<and> list_all (blk_ok t) (pre1 @ Blk n1 False False # post)
    \<and> tmp = bend p0 pre1 \<and> tmp + n1 = p + n
    \<and> (\<forall>x. x \<notin> hdrs p0 (pre @ Blk n False False # post) \<longrightarrow> m1 x = m x)"
proof (cases "pre = [] \<or> bk_used (last pre)")
  case True
  have "\<not> joins"
  proof (cases "pre = []")
    case False
    then obtain pre0 a where pa: "pre = pre0 @ [a]" by (metis rev_exhaust)
    have h: "head_ok t m (lastp 0 p0 pre0) prv a" using c by (simp add: pa prv_def)
    have "bk_used a" using True pa by simp
    then show ?thesis using h by (simp add: joins_def mem_blk_is_used_def head_ok_def hword1_def MEM_BLK_TAG_def)
  qed (simp add: joins_def prv_def)
  then show ?thesis using True c ok by (intro exI [of _ pre] exI [of _ n]) (auto simp: m1_def tmp_def p_def)
next
  case False
  then obtain pre0 a where pa: "pre = pre0 @ [a]" by (metis rev_exhaust)
  have ua: "\<not> bk_used a" using False pa by simp
  have pv: "prv = bend p0 pre0" and pe: "p = prv + bk_size a" by (simp_all add: prv_def p_def pa)
  have pos: "0 < prv" using bend_ge [of p0 pre0] p0 by (simp add: pv)
  have ca: "chain t m (lastp 0 p0 pre0) prv (a # Blk n False False # post)" using c by (simp add: pa pv)
  have okp: "list_all (blk_ok t) pre0" "list_all (blk_ok t) (a # Blk n False False # post)" using ok pa by simp_all
  have lp: "lastp 0 p0 pre0 < 2 ^ 31"
    using lastp_bounds [OF okp(1), of p0 0] lim pv pe p_def by (cases "pre0 = []") auto
  have h: "head_ok t m (lastp 0 p0 pre0) prv a" using ca by simp
  have "\<not> mem_blk_is_used m prv" using head_get(3) [OF h lp _ pos] ua lim pe p_def by simp
  then have j: "joins" using pos by (simp add: joins_def)
  have lm: "prv + bk_size a + bk_size (Blk n False False) < 2 ^ 31" using lim pe p_def by simp
  have m1: "m1 = mem_blk_set_prev (prv + bk_size a + bk_size (Blk n False False)) prv
      (mem_blk_set_next t prv (prv + bk_size a + bk_size (Blk n False False)) m)"
    using j by (simp add: m1_def pe)
  note jc = join_chain [OF ca okp(2) pos lm ua, folded m1]
  have "chain t m1 0 p0 (pre0 @ Blk (bk_size a + n) False False # post)"
  proof (rule chain_replace [of t m 0 p0 pre0 "a # Blk n False False # post"])
    show "chain t m1 (lastp 0 p0 pre0) (bend p0 pre0) (Blk (bk_size a + n) False False # post)"
      using jc(1) by (simp add: pv)
    show "m1 x = m x" if "x < bend p0 pre0" for x using that by (intro jc(2)) (auto simp: pv)
  qed (use c okp pa in simp_all)
  moreover have "m1 x = m x" if "x \<notin> hdrs p0 (pre @ Blk n False False # post)" for x
    using that by (intro jc(2)) (auto simp: pa pv p_def intro: hdrs_firstI)
  moreover have "list_all (blk_ok t) (pre0 @ Blk (bk_size a + n) False False # post)"
    using okp ua by (auto simp: blk_ok_def)
  ultimately show ?thesis using False j pe
    by (intro exI [of _ pre0] exI [of _ "bk_size a + n"]) (auto simp: pa pv tmp_def)
qed

text \<open>The join with the block behind, which the code finds through the header it has just left.\<close>

lemma join_behind:
  assumes c: "chain t m prv p (Blk n False False # post)"
    and ok: "list_all (blk_ok t) (Blk n False False # post)"
    and p: "0 < p" "prv < 2 ^ 31" "bend (p + n) post < 2 ^ 31"
    and last: "post = [] \<Longrightarrow> l = 0" "\<And>d ds. post = d # ds \<Longrightarrow> l = p + n + bk_size d"
  defines "m' \<equiv> (if l \<noteq> 0 \<and> \<not> mem_blk_is_used m (p + n) then mem_blk_set_prev l p (mem_blk_set_next t p l m) else m)"
  shows "chain t m' prv p (release [] n post) \<and> (\<forall>x. x \<notin> hdrs p (Blk n False False # post) \<longrightarrow> m' x = m x)
    \<and> (\<forall>x < p. m' x = m x) \<and> list_all (blk_ok t) (release [] n post)"
proof (cases post)
  case Nil
  then show ?thesis using c ok last(1) by (simp add: m'_def release_def)
next
  case (Cons d ds)
  have l: "l = p + n + bk_size d" using last(2) Cons by simp
  have lim: "p + n + bk_size d < 2 ^ 31" using p(3) bend_ge [of "p + n + bk_size d" ds] Cons by simp
  have h: "head_ok t m p (p + n) d" using c Cons by simp
  have u: "mem_blk_is_used m (p + n) = bk_used d" using head_get(3) [OF h _ lim] lim p by simp
  show ?thesis
  proof (cases "bk_used d")
    case True
    then show ?thesis using c ok u Cons by (simp add: m'_def release_def)
  next
    case False
    have c': "chain t m prv p (Blk n False False # d # ds)" "list_all (blk_ok t) (Blk n False False # d # ds)"
      using c ok Cons by simp_all
    have m': "m' = mem_blk_set_prev l p (mem_blk_set_next t p l m)" using False u l p(1) by (simp add: m'_def)
    note jc = join_chain [OF c' p(1), unfolded blk.sel, OF lim, folded l, folded m']
    have "m' x = m x" if "x \<notin> hdrs p (Blk n False False # post)" for x
      using that by (intro jc(2)) (auto simp: Cons l intro: hdrs_firstI)
    moreover have "m' x = m x" if "x < p" for x using that by (intro jc(2)) (auto simp: l)
    moreover have "blk_ok t (Blk (n + bk_size d) False False)" using c'(2) by (auto simp: blk_ok_def)
    ultimately show ?thesis using jc(1) False Cons c'(2) by (simp add: release_def)
  qed
qed

lemma release_split:
  "(pre1, n1) = (if pre \<noteq> [] \<and> \<not> bk_used (last pre) then (butlast pre, bk_size (last pre) + n) else (pre, n))
    \<Longrightarrow> release pre n post = pre1 @ release [] n1 post"
  by (auto simp: release_def split: list.splits if_splits)

lemma join_blks_chain:
  assumes c: "chain t m 0 p0 (pre @ Blk n False False # post)"
    and ok: "list_all (blk_ok t) (pre @ Blk n False False # post)"
    and p0: "0 < p0" and lim: "bend (bend p0 pre + n) post < 2 ^ 31"
  defines "m' \<equiv> join_blks t (bend p0 pre) m"
  shows "chain t m' 0 p0 (release pre n post) \<and> list_all (blk_ok t) (release pre n post)
    \<and> (\<forall>x. x \<notin> hdrs p0 (pre @ Blk n False False # post) \<longrightarrow> m' x = m x)"
proof -
  let ?p = "bend p0 pre" and ?prv = "lastp 0 p0 pre"
  have pos: "0 < ?p" using bend_ge [of p0 pre] p0 by simp
  have limn: "?p + n < 2 ^ 31" using lim bend_ge [of "?p + n" post] by simp
  have lp: "?prv < 2 ^ 31" using lastp_bounds [of t pre p0 0] ok limn by (cases "pre = []") auto
  have h: "head_ok t m ?prv ?p (Blk n False False)" and cp: "chain t m ?p (?p + n) post" using c by simp_all
  have g: "mem_blk_prev m ?p = ?prv" "mem_blk_next t m ?p = ?p + n"
    using head_get(1,2) [OF h lp _ pos] limn by simp_all
  obtain l where l: "l = mem_blk_next t m (?p + n)" by simp
  have l1: "post = [] \<Longrightarrow> l = 0" unfolding l using end_get(2) [of t m ?p "?p + n"] cp limn by simp
  have l2: "l = ?p + n + bk_size d" if "post = d # ds" for d ds
    unfolding l using head_get(2) [of t m ?p "?p + n" d] pos cp that lim bend_ge [of "?p + n + bk_size d" ds] by simp
  obtain pre1 n1 m1 tmp where jb:
      "(pre1, n1) = (if pre \<noteq> [] \<and> \<not> bk_used (last pre) then (butlast pre, bk_size (last pre) + n) else (pre, n))"
      "chain t m1 0 p0 (pre1 @ Blk n1 False False # post)" "list_all (blk_ok t) (pre1 @ Blk n1 False False # post)"
      "tmp = bend p0 pre1" "tmp + n1 = ?p + n"
      "\<forall>x. x \<notin> hdrs p0 (pre @ Blk n False False # post) \<longrightarrow> m1 x = m x"
    and m': "m' = (if l \<noteq> 0 \<and> \<not> mem_blk_is_used m1 (?p + n) then mem_blk_set_prev l tmp (mem_blk_set_next t tmp l m1) else m1)"
    using join_before [OF c ok p0 limn] unfolding m'_def join_blks_def Let_def g l [symmetric] by blast
  have pt: "0 < tmp" using bend_ge [of p0 pre1] p0 jb(4) by simp
  have lp1: "lastp 0 p0 pre1 < 2 ^ 31"
    using lastp_bounds [of t pre1 p0 0] jb(3,4,5) limn by (cases "pre1 = []") auto
  have c1: "chain t m1 (lastp 0 p0 pre1) tmp (Blk n1 False False # post)" using jb(2,4) by simp
  have ok1: "list_all (blk_ok t) (Blk n1 False False # post)" using jb(3) by simp
  have le: "bend (tmp + n1) post < 2 ^ 31" using lim jb(5) by simp
  have e2: "\<And>d ds. post = d # ds \<Longrightarrow> l = tmp + n1 + bk_size d" using l2 jb(5) by simp
  have jn: "chain t m' (lastp 0 p0 pre1) tmp (release [] n1 post)
      \<and> (\<forall>x. x \<notin> hdrs tmp (Blk n1 False False # post) \<longrightarrow> m' x = m1 x)
      \<and> (\<forall>x < tmp. m' x = m1 x) \<and> list_all (blk_ok t) (release [] n1 post)"
    unfolding m' jb(5) [symmetric] by (rule join_behind [OF c1 ok1 pt lp1 le l1 e2])
  have "chain t m' 0 p0 (pre1 @ release [] n1 post)"
    by (rule chain_replace [OF jb(2)]) (use jn jb(3,4) in auto)
  moreover have "m' x = m x" if x: "x \<notin> hdrs p0 (pre @ Blk n False False # post)" for x
  proof -
    have "hdrs tmp (Blk n1 False False # post) \<subseteq> hdrs p0 (pre @ Blk n False False # post)"
    proof (cases "pre \<noteq> [] \<and> \<not> bk_used (last pre)")
      case True
      then have "pre = pre1 @ [last pre]" using jb(1) by simp
      then have "hdrs p0 pre \<union> hdrs (?p + n) post \<supseteq> {tmp..<tmp + 8} \<union> hdrs (?p + n) post"
        using hdrs_append [of p0 pre1 "[last pre]"] jb(4) by auto
      then show ?thesis using jb(5) by auto
    next
      case False
      then show ?thesis using jb(1,4) by (simp only: if_False) auto
    qed
    then have "m' x = m1 x" using x jn by blast
    also have "m1 x = m x" using jb(6) x by blast
    finally show ?thesis .
  qed
  ultimately show ?thesis using jn jb(3) by (simp add: release_split [OF jb(1)])
qed

section \<open>Release in a region\<close>

lemma no_adj_Cons: "no_adj (b # bs) \<longleftrightarrow> no_adj bs \<and> (bs = [] \<or> bk_used b \<or> bk_used (hd bs))"
  by (cases bs) auto

lemma takeWhile_blocked2: "\<not> P x \<Longrightarrow> takeWhile P (ys @ x # zs) = takeWhile P ys"
  by (induction ys) auto

lemma release_facts:
  "bend p (release pre n post) = bend (bend p pre + n) post"
  "free_sum (release pre n post) = free_sum pre + n + free_sum post"
  by (cases pre rule: rev_cases; cases post; simp add: release_def add.assoc)+

lemma release_no_adj: "no_adj (pre @ b # post) \<Longrightarrow> no_adj (release pre n post)"
  by (cases pre rule: rev_cases; cases post) (auto simp: release_def no_adj_append no_adj_Cons)

lemma release_first_free:
  "takeWhile bk_used (release pre n post) = (if list_all bk_used pre then pre else takeWhile bk_used pre)"
  by (cases pre rule: rev_cases; cases post)
    (auto simp: release_def takeWhile_skip takeWhile_blocked takeWhile_blocked2)

lemma free_region_ok:
  fixes r :: heap_region
  assumes ok: "region_ok t m r (pre @ b # post)" and u: "bk_used b"
  defines "p \<equiv> bend (region_first r) pre"
  shows "\<exists>r' m'. free_region t p r m = (r', m') \<and> region_ok t m' r' (release pre (bk_size b) post)
    \<and> start_addr r' = start_addr r \<and> total_size r' = total_size r \<and> hr_caps r' = hr_caps r
    \<and> (\<forall>x. x \<notin> hdrs (region_first r) (pre @ b # post) \<longrightarrow> m' x = m x)"
proof -
  let ?p0 = "region_first r" and ?n = "bk_size b"
  note rb = region_block [OF ok, folded p_def]
  have wf: "region_wf r" and fb: "free_bytes r = free_sum (pre @ b # post)" and mn: "min_free_bytes r \<le> free_bytes r"
    and fr: "free_blk r = bend ?p0 (takeWhile bk_used (pre @ b # post))" and na: "no_adj (pre @ b # post)"
    and c: "chain t m 0 ?p0 (pre @ b # post)"
    using ok by (simp_all add: region_ok_def)
  note g = region_geometry [OF wf]
  define m1 where "m1 = mem_blk_set_untraced t p (mem_blk_set_unused p m)"
  note cc = clear_chain [OF rb(1) _ rb(3,6), folded m1_def]
  have okb: "list_all (blk_ok t) (b # post)" using rb(7,9) by simp
  have c1: "chain t m1 0 ?p0 (pre @ Blk ?n False False # post)"
    by (rule chain_replace [OF c rb(8)]) (use cc [OF okb] in \<open>auto simp: p_def\<close>)
  have ok1: "list_all (blk_ok t) (pre @ Blk ?n False False # post)" using rb(7-9) by (auto simp: blk_ok_def)
  have lim: "bend (bend ?p0 pre + ?n) post < 2 ^ 31" using rb(10) g(7) by (simp add: p_def)
  note jb = join_blks_chain [OF c1 ok1 g(1) lim, folded p_def]
  let ?m' = "join_blks t p m1"
  have h: "head_ok t m (lastp 0 ?p0 pre) p b" using rb(1) by simp
  have link: "blk_link_size t m p = ?n" using head_get(5) [OF h rb(3,6,4)] .
  have "?p0 + free_sum (pre @ Blk ?n False False # post) \<le> region_end r"
    using free_sum_le [of ?p0 "pre @ Blk ?n False False # post"] rb(10) by (simp add: p_def)
  then have fbn: "(free_bytes r + blk_link_size t m p) mod 2 ^ 32 = free_sum pre + ?n + free_sum post"
    using g(7) fb u by (simp add: link)
  let ?fb = "if p < free_blk r then p else free_blk r"
  have first: "?fb = bend ?p0 (takeWhile bk_used (release pre ?n post))"
  proof (cases "list_all bk_used pre")
    case True
    have "p + ?n \<le> free_blk r" using fr True u bend_ge by (simp add: takeWhile_skip p_def)
    then show ?thesis using True rb(7) by (simp add: release_first_free p_def blk_ok_def)
  next
    case False
    then have f: "free_blk r = bend ?p0 (takeWhile bk_used pre)" using fr by (simp add: takeWhile_blocked)
    moreover have "bend ?p0 pre = bend (bend ?p0 (takeWhile bk_used pre)) (dropWhile bk_used pre)"
      by (simp flip: bend_append)
    ultimately have "free_blk r \<le> p" using bend_ge by (simp add: p_def)
    then show ?thesis using f False by (simp add: release_first_free)
  qed
  let ?r' = "r\<lparr>free_bytes := free_sum pre + ?n + free_sum post, free_blk := ?fb\<rparr>"
  have "free_region t p r m = (?r', ?m')"
    unfolding free_region_def Let_def fbn m1_def [symmetric] by simp
  moreover have "region_ok t ?m' ?r' (release pre ?n post)"
    using wf jb mn fb u release_no_adj [OF na] rb(10) first
    by (simp add: region_ok_def region_wf_def region_first_def region_end_def release_facts p_def)
  moreover have "?m' x = m x" if "x \<notin> hdrs ?p0 (pre @ b # post)" for x
  proof -
    have "m1 x = m x" using that by (intro cc(2) [OF okb]) (auto simp: p_def)
    moreover have "?m' x = m1 x" using that jb by auto
    ultimately show ?thesis by simp
  qed
  ultimately show ?thesis by (intro exI [of _ ?r'] exI [of _ ?m']) simp
qed

end
