(* ===== verification/HeapState.thy ===== *)
theory HeapState
  imports HeapFree "HOL-Library.Multiset"
begin

text \<open>
  The heap of several regions: the invariant \<open>heap_ok\<close> (every region is well formed, the regions do not
  overlap), the blocks in use (\<open>allocs\<close>, as pairs of the payload's first address and its end), and what
  malloc, free and a client's writes into its own blocks do to both.
\<close>

section \<open>The invariant of the heap\<close>

definition apart :: "heap_region \<Rightarrow> heap_region \<Rightarrow> bool" where
  "apart r r' \<longleftrightarrow> start_addr r + total_size r \<le> start_addr r' \<or> start_addr r' + total_size r' \<le> start_addr r"

definition heap_ok :: "bool \<Rightarrow> memory \<Rightarrow> heap_region list \<Rightarrow> blk list list \<Rightarrow> bool" where
  "heap_ok t m rs bss \<longleftrightarrow> list_all2 (region_ok t m) rs bss \<and> sorted_wrt apart rs"

definition same_place :: "heap_region \<Rightarrow> heap_region \<Rightarrow> bool" where
  "same_place r r' \<longleftrightarrow> start_addr r' = start_addr r \<and> total_size r' = total_size r \<and> hr_caps r' = hr_caps r"

definition inside :: "heap_region \<Rightarrow> nat \<Rightarrow> bool" where
  "inside r x \<longleftrightarrow> start_addr r \<le> x \<and> x < start_addr r + total_size r"

lemma same_place_first: "same_place r r' \<Longrightarrow> region_first r' = region_first r"
  by (simp add: same_place_def region_first_def)

lemma sorted_wrt_apart_update:
  assumes "sorted_wrt apart rs" "i < length rs" "same_place (rs ! i) r'"
  shows "sorted_wrt apart (rs[i := r'])"
proof -
  have "apart (rs[i := r'] ! j) x \<longleftrightarrow> apart (rs ! j) x" "apart x (rs[i := r'] ! j) \<longleftrightarrow> apart x (rs ! j)" if "j < length rs" for j x
    using assms(2,3) that by (auto simp: nth_list_update same_place_def apart_def)
  then show ?thesis using assms(1) by (auto simp: sorted_wrt_iff_nth_less)
qed

lemma apart_other:
  assumes "sorted_wrt apart rs" "i < length rs" "j < length rs" "i \<noteq> j" "inside (rs ! i) x"
  shows "\<not> inside (rs ! j) x"
proof -
  have "apart (rs ! i) (rs ! j) \<or> apart (rs ! j) (rs ! i)"
    using assms(1-4) by (cases "i < j") (auto simp: sorted_wrt_iff_nth_less)
  then show ?thesis using assms(5) by (auto simp: apart_def inside_def)
qed

lemma heap_ok_update:
  assumes ok: "heap_ok t m rs bss" and i: "i < length rs" and r': "region_ok t m' r' bs'" "same_place (rs ! i) r'"
    and fr: "\<And>x. \<not> inside (rs ! i) x \<Longrightarrow> m' x = m x"
  shows "heap_ok t m' (rs[i := r']) (bss[i := bs'])"
proof -
  have l: "list_all2 (region_ok t m) rs bss" and s: "sorted_wrt apart rs" using ok by (simp_all add: heap_ok_def)
  have "region_ok t m' (rs[i := r'] ! j) (bss[i := bs'] ! j)" if "j < length rs" for j
  proof (cases "j = i")
    case True
    then show ?thesis using r' i l by (simp add: list_all2_lengthD [symmetric])
  next
    case False
    have "region_ok t m' (rs ! j) (bss ! j)"
    proof (rule region_ok_cong)
      show "region_ok t m (rs ! j) (bss ! j)" using l that by (simp add: list_all2_nthD)
      show "m' x = m x" if x: "start_addr (rs ! j) \<le> x" "x < start_addr (rs ! j) + total_size (rs ! j)" for x
        using apart_other [OF s _ i False, of x] that \<open>j < length rs\<close> by (intro fr) (simp add: inside_def)
    qed
    then show ?thesis using False by simp
  qed
  then have "list_all2 (region_ok t m') (rs[i := r']) (bss[i := bs'])"
    using l by (simp add: list_all2_conv_all_nth)
  then show ?thesis using sorted_wrt_apart_update [OF s i r'(2)] by (simp add: heap_ok_def)
qed

section \<open>The blocks in use\<close>

primrec used_blks :: "bool \<Rightarrow> nat \<Rightarrow> blk list \<Rightarrow> (nat \<times> nat) list" where
  "used_blks t p [] = []"
| "used_blks t p (b # bs) =
    (if bk_used b then [(p + mem_blk_head_size t (bk_traced b), p + bk_size b)] else []) @ used_blks t (p + bk_size b) bs"

definition allocs :: "bool \<Rightarrow> heap_region list \<Rightarrow> blk list list \<Rightarrow> (nat \<times> nat) list" where
  "allocs t rs bss = concat (map2 (\<lambda>r bs. used_blks t (region_first r) bs) rs bss)"

lemma used_blks_append [simp]: "used_blks t p (as @ bs) = used_blks t p as @ used_blks t (bend p as) bs"
  by (induction as arbitrary: p) auto

lemma used_blks_bounds:
  "list_all (blk_ok t) bs \<Longrightarrow> (lo, hi) \<in> set (used_blks t p bs) \<Longrightarrow> p < lo \<and> lo \<le> hi \<and> hi \<le> bend p bs"
proof (induction bs arbitrary: p)
  case (Cons b bs)
  have "p + bk_size b \<le> bend (p + bk_size b) bs" by (rule bend_ge)
  then show ?case using Cons.IH [of "p + bk_size b"] Cons.prems
    by (auto simp: head_size_vals blk_ok_def split: if_splits)
qed simp

definition sep :: "nat \<times> nat \<Rightarrow> nat \<times> nat \<Rightarrow> bool" where
  "sep a b \<longleftrightarrow> snd a < fst b \<or> snd b < fst a"

lemma used_blks_sep: "list_all (blk_ok t) bs \<Longrightarrow> sorted_wrt sep (used_blks t p bs)"
proof (induction bs arbitrary: p)
  case (Cons b bs)
  have "p + bk_size b < fst x" if "x \<in> set (used_blks t (p + bk_size b) bs)" for x
    using used_blks_bounds [of t bs "fst x" "snd x"] Cons.prems that by simp
  then show ?case using Cons by (auto simp: sep_def)
qed simp

lemma release_used: "mset (used_blks t p (release pre n post)) = mset (used_blks t p pre) + mset (used_blks t (bend p pre + n) post)"
  by (cases pre rule: rev_cases; cases post) (auto simp: release_def add.assoc)

lemma taken_used:
  "\<not> bk_used b \<Longrightarrow> need \<le> bk_size b \<Longrightarrow>
    used_blks t p (taken t trace need b) = [(p + mem_blk_head_size t trace, p + bk_size (hd (taken t trace need b)))]"
  by (simp add: taken_def)

lemma allocs_update:
  assumes "i < length rs" "length rs = length bss" "same_place (rs ! i) r'"
  shows "mset (allocs t (rs[i := r']) (bss[i := bs'])) + mset (used_blks t (region_first (rs ! i)) (bss ! i))
    = mset (allocs t rs bss) + mset (used_blks t (region_first (rs ! i)) bs')"
  using assms
proof (induction rs arbitrary: bss i)
  case (Cons r rs)
  obtain bs bss0 where b: "bss = bs # bss0" using Cons.prems(2) by (cases bss) auto
  show ?case
  proof (cases i)
    case 0
    then show ?thesis using Cons.prems b same_place_first [of r r'] by (simp add: allocs_def)
  next
    case (Suc k)
    have "mset (allocs t (rs[k := r']) (bss0[k := bs'])) + mset (used_blks t (region_first (rs ! k)) (bss0 ! k))
        = mset (allocs t rs bss0) + mset (used_blks t (region_first (rs ! k)) bs')"
      using Cons.prems b Suc by (intro Cons.IH) simp_all
    then show ?thesis using b Suc by (simp add: allocs_def)
  qed
qed simp

lemma allocs_in:
  assumes "(lo, hi) \<in> set (allocs t rs bss)" "length rs = length bss"
  obtains i pre b post where "i < length rs" "bss ! i = pre @ b # post" "bk_used b"
    "lo = bend (region_first (rs ! i)) pre + mem_blk_head_size t (bk_traced b)"
    "hi = bend (region_first (rs ! i)) pre + bk_size b"
proof -
  have split: "\<exists>pre b post. bs = pre @ b # post \<and> bk_used b \<and> lo = bend p pre + mem_blk_head_size t (bk_traced b)
      \<and> hi = bend p pre + bk_size b" if "(lo, hi) \<in> set (used_blks t p bs)" for p bs
    using that
  proof (induction bs arbitrary: p)
    case (Cons b bs)
    show ?case
    proof (cases "(lo, hi) \<in> set (used_blks t (p + bk_size b) bs)")
      case True
      then obtain pre c post where "bs = pre @ c # post" "bk_used c"
        "lo = bend (p + bk_size b) pre + mem_blk_head_size t (bk_traced c)" "hi = bend (p + bk_size b) pre + bk_size c"
        using Cons.IH by blast
      then show ?thesis by (intro exI [of _ "b # pre"]) auto
    next
      case False
      then show ?thesis using Cons.prems by (intro exI [of _ "[]"]) (auto split: if_splits)
    qed
  qed simp
  have "\<exists>i < length rs. (lo, hi) \<in> set (used_blks t (region_first (rs ! i)) (bss ! i))"
    using assms by (auto simp: allocs_def set_zip)
  then show ?thesis using split that by blast
qed

end
