(* ===== verification/HeapOps.thy ===== *)
theory HeapOps
  imports HeapState
begin

text \<open>
  Allocation, release and writing on a heap of several regions that satisfies the invariant: which block
  of which region is taken or given back, and what becomes of the invariant, of the blocks in use and of
  the bytes in memory.
\<close>

section \<open>Allocation\<close>

text \<open>What \<open>heap_caps_malloc\<close> is to do: the first fitting block of the first region with the capabilities.\<close>

definition fits :: "bool \<Rightarrow> bool \<Rightarrow> nat \<Rightarrow> bool" where
  "fits t trace sz \<longleftrightarrow> sz + mem_blk_head_size t trace + 3 < 2 ^ 32"

lemma need_facts:
  assumes "fits t trace sz"
  shows "sz + mem_blk_head_size t trace \<le> ptr2memblk_size t sz trace" "mem_blk_head_size t trace \<le> ptr2memblk_size t sz trace"
proof -
  have "sz + mem_blk_head_size t trace + (4 - 1) < 2 ^ 32" using assms by (simp add: fits_def)
  moreover from this have "(sz + mem_blk_head_size t trace) mod 2 ^ 32 = sz + mem_blk_head_size t trace" by (intro mod_less) simp
  ultimately show "sz + mem_blk_head_size t trace \<le> ptr2memblk_size t sz trace"
    using align_up_ge [of 4 "sz + mem_blk_head_size t trace"] by (simp add: ptr2memblk_size_def HEAP_ALIGN_def del: numeral_pow)
  then show "mem_blk_head_size t trace \<le> ptr2memblk_size t sz trace" by simp
qed

definition no_fit :: "u32 \<Rightarrow> nat \<Rightarrow> heap_region \<Rightarrow> blk list \<Rightarrow> bool" where
  "no_fit caps need r bs \<longleftrightarrow> has_caps caps r \<longrightarrow> (\<forall>b \<in> set bs. unfit need b)"

lemma split_first:
  assumes "\<not> (\<forall>b \<in> set bs. P b)"
  obtains pre b post where "bs = pre @ b # post" "\<forall>a \<in> set pre. P a" "\<not> P b"
  using split_list_first_prop [of bs "\<lambda>b. \<not> P b"] assms by auto

lemma same_place_refl [simp]: "same_place r r"
  by (simp add: same_place_def)

lemma malloc_loop_first:
  assumes "list_all2 (region_ok t m) rs bss" and f: "fits t trace sz" and tr: "trace \<longrightarrow> t"
  defines "need \<equiv> ptr2memblk_size t sz trace"
  shows "(malloc_loop t trace sz caps fl ln rs m = Some (None, rs, m) \<and> list_all2 (no_fit caps need) rs bss)
    \<or> (\<exists>i pre b post r' m'. i < length rs \<and> has_caps caps (rs ! i)
        \<and> bss ! i = pre @ b # post \<and> \<not> bk_used b \<and> need \<le> bk_size b \<and> (\<forall>a \<in> set pre. unfit need a)
        \<and> (\<forall>j < i. no_fit caps need (rs ! j) (bss ! j))
        \<and> malloc_loop t trace sz caps fl ln rs m
            = Some (Some (bend (region_first (rs ! i)) pre + mem_blk_head_size t trace), rs[i := r'], m')
        \<and> region_ok t m' r' (pre @ taken t trace need b @ post) \<and> same_place (rs ! i) r'
        \<and> (\<forall>x. x < bend (region_first (rs ! i)) pre \<or> bend (region_first (rs ! i)) pre + bk_size b + 4 \<le> x \<longrightarrow> m' x = m x))"
  using assms(1)
proof (induction rs bss rule: list_all2_induct)
  case Nil
  then show ?case by simp
next
  case (Cons r rs bs bss)
  show ?case
  proof (cases "no_fit caps need r bs")
    case True
    have skip: "malloc_loop t trace sz caps fl ln (r # rs) m
        = map_option (\<lambda>(p, rs', m'). (p, r # rs', m')) (malloc_loop t trace sz caps fl ln rs m)"
    proof (cases "has_caps caps r")
      case c: True
      then have "malloc_region t trace sz fl ln r m = Some (None, r, m)"
        using True Cons.hyps(1) by (intro malloc_region_none) (auto simp: no_fit_def need_def)
      then show ?thesis using c by simp
    qed simp
    from Cons.IH show ?thesis
    proof (elim disjE exE conjE, goal_cases)
      case 1
      then show ?thesis using True skip by simp
    next
      case (2 i pre b post r' m')
      then show ?thesis using True skip
        by (intro disjI2 exI [of _ "Suc i"] exI [of _ pre] exI [of _ b] exI [of _ post] exI [of _ r'] exI [of _ m'])
          (auto simp: less_Suc_eq_0_disj)
    qed
  next
    case False
    then have c: "has_caps caps r" and "\<not> (\<forall>b \<in> set bs. unfit need b)" by (auto simp: no_fit_def)
    then obtain pre b post where d: "bs = pre @ b # post" "\<forall>a \<in> set pre. unfit need a" "\<not> unfit need b"
      by (elim split_first)
    obtain r' m' where mr: "malloc_region t trace sz fl ln r m
          = Some (Some (bend (region_first r) pre + mem_blk_head_size t trace), r', m')"
        "region_ok t m' r' (pre @ taken t trace need b @ post)" "same_place r r'"
        "\<forall>x. x < bend (region_first r) pre \<or> bend (region_first r) pre + bk_size b + 4 \<le> x \<longrightarrow> m' x = m x"
      using malloc_region_some [of t m r pre b post need sz trace fl ln] Cons.hyps(1) d need_facts(2) [OF f] tr
      unfolding need_def same_place_def by auto
    show ?thesis using c d mr
      by (intro disjI2 exI [of _ 0] exI [of _ pre] exI [of _ b] exI [of _ post] exI [of _ r'] exI [of _ m']) simp
  qed
qed

lemma heap_ok_nth:
  assumes "heap_ok t m rs bss" "i < length rs"
  shows "region_ok t m (rs ! i) (bss ! i)" "length bss = length rs" "region_wf (rs ! i)"
  using assms by (auto simp: heap_ok_def list_all2_conv_all_nth region_ok_def)

text \<open>A block of a region of the heap lies inside the region, with the end block behind it.\<close>

lemma heap_block:
  assumes ok: "heap_ok t m rs bss" and i: "i < length rs" and b: "bss ! i = pre @ b # post"
  defines "p \<equiv> bend (region_first (rs ! i)) pre"
  shows "start_addr (rs ! i) \<le> p" "p + bk_size b + 8 \<le> start_addr (rs ! i) + total_size (rs ! i)"
    "8 \<le> bk_size b" "0 < p" "p + bk_size b < 2 ^ 31" "4 dvd p" "mem_blk_head_size t (bk_traced b) \<le> bk_size b"
proof -
  have r: "region_ok t m (rs ! i) (pre @ b # post)" using heap_ok_nth(1) [OF ok i] b by simp
  note rb = region_block [OF r] and g = region_geometry [OF heap_ok_nth(3) [OF ok i]]
  show "start_addr (rs ! i) \<le> p" "p + bk_size b + 8 \<le> start_addr (rs ! i) + total_size (rs ! i)" "8 \<le> bk_size b"
    "0 < p" "p + bk_size b < 2 ^ 31" "mem_blk_head_size t (bk_traced b) \<le> bk_size b"
    using rb(4,5,6,7,11) g by (auto simp: p_def blk_ok_def head_size_vals)
  show "4 dvd p" using bend_dvd [OF rb(8) g(3)] by (simp add: p_def)
qed

lemma malloc_heap:
  assumes ok: "heap_ok t (hp_mem h) (hp_regions h) bss" and f: "fits t (t \<and> leaks h) sz"
  defines "need \<equiv> ptr2memblk_size t sz (t \<and> leaks h)"
  shows "(heap_caps_malloc t sz caps fl ln h = Some (None, h) \<and> list_all2 (no_fit caps need) (hp_regions h) bss)
    \<or> (\<exists>i pre b post h'. i < length (hp_regions h) \<and> has_caps caps (hp_regions h ! i)
        \<and> bss ! i = pre @ b # post \<and> \<not> bk_used b \<and> need \<le> bk_size b \<and> (\<forall>a \<in> set pre. unfit need a)
        \<and> (\<forall>j < i. no_fit caps need (hp_regions h ! j) (bss ! j))
        \<and> heap_caps_malloc t sz caps fl ln h
            = Some (Some (bend (region_first (hp_regions h ! i)) pre + mem_blk_head_size t (t \<and> leaks h)), h')
        \<and> heap_ok t (hp_mem h') (hp_regions h') (bss[i := pre @ taken t (t \<and> leaks h) need b @ post])
        \<and> leaks h' = leaks h \<and> (\<exists>r'. hp_regions h' = (hp_regions h)[i := r'] \<and> same_place (hp_regions h ! i) r')
        \<and> (\<forall>x. x < bend (region_first (hp_regions h ! i)) pre
             \<or> bend (region_first (hp_regions h ! i)) pre + bk_size b + 4 \<le> x \<longrightarrow> hp_mem h' x = hp_mem h x))"
proof -
  let ?rs = "hp_regions h" and ?m = "hp_mem h" and ?tr = "t \<and> leaks h"
  have l: "list_all2 (region_ok t ?m) ?rs bss" using ok by (simp add: heap_ok_def)
  have "t \<and> leaks h \<longrightarrow> t" by simp
  from malloc_loop_first [OF l f this, folded need_def, where caps = caps and fl = fl and ln = ln] show ?thesis
  proof (elim disjE exE conjE, goal_cases)
    case 1
    then show ?thesis by (simp add: heap_caps_malloc_def)
  next
    case (2 i pre b post r' m')
    let ?h' = "h\<lparr>hp_regions := ?rs[i := r'], hp_mem := m'\<rparr>"
    note hb = heap_block [OF ok \<open>i < length ?rs\<close> \<open>bss ! i = pre @ b # post\<close>]
    have "heap_ok t m' (?rs[i := r']) (bss[i := pre @ taken t ?tr need b @ post])"
    proof (rule heap_ok_update [OF ok])
      show "m' x = ?m x" if "\<not> inside (?rs ! i) x" for x
        using that hb(1,2) 2 by (auto simp: inside_def)
    qed (use 2 in simp_all)
    then show ?thesis using 2
      by (intro disjI2 exI [of _ i] exI [of _ pre] exI [of _ b] exI [of _ post] exI [of _ ?h'])
        (auto simp: heap_caps_malloc_def)
  qed
qed

section \<open>From a payload back to its block\<close>

lemma get_blk_region_eq:
  "i < length rs \<Longrightarrow> in_region q (rs ! i) \<Longrightarrow> \<forall>j < i. \<not> in_region q (rs ! j) \<Longrightarrow> get_blk_region q rs = i"
proof (induction rs arbitrary: i)
  case (Cons r rs)
  then show ?case by (cases i) (auto simp: All_less_Suc2)
qed simp

lemma traced_word:
  assumes h: "head_ok t m prv p b" and ok: "blk_ok t b" and e: "p + bk_size b < 2 ^ 31"
  shows "ptr_is_traced t m (p + mem_blk_head_size t (bk_traced b)) = bk_traced b"
proof (cases "bk_traced b")
  case True
  then show ?thesis using h ok by (simp add: ptr_is_traced_def head_ok_def blk_ok_def head_size_vals add.commute)
next
  case False
  have "hword2 t (p + bk_size b) False AND MEM_BLK_TRACE t = 0" using hword2_get(2) [OF e] by simp
  then show ?thesis using h False by (simp add: ptr_is_traced_def head_ok_def head_size_vals add.commute)
qed

text \<open>What the code reads off a pointer to a block in use.\<close>

lemma payload_facts:
  assumes ok: "heap_ok t m rs bss" and i: "i < length rs" and b: "bss ! i = pre @ b # post"
  defines "p \<equiv> bend (region_first (rs ! i)) pre"
  defines "q \<equiv> p + mem_blk_head_size t (bk_traced b)"
  shows "get_blk_region q rs = i" "ptr_is_traced t m q = bk_traced b" "ptr2blk t q (bk_traced b) = p"
    "mem_blk_is_used m p = bk_used b" "ptr_size t m q = bk_size b - mem_blk_head_size t (bk_traced b)" "q \<noteq> 0"
proof -
  have r: "region_ok t m (rs ! i) (pre @ b # post)" using heap_ok_nth(1) [OF ok i] b by simp
  note rb = region_block [OF r, folded p_def] and hb = heap_block [OF ok i b, folded p_def]
  have h: "head_ok t m (lastp 0 (region_first (rs ! i)) pre) p b" using rb(1) by simp
  note hg = head_get [OF h rb(3,6,4)]
  have hs: "8 \<le> mem_blk_head_size t (bk_traced b)" by (simp add: head_size_vals)
  have s: "sorted_wrt apart rs" using ok by (simp add: heap_ok_def)
  have ins: "start_addr (rs ! i) < q" "q < start_addr (rs ! i) + total_size (rs ! i)"
    using hb(1,2,7) hs by (auto simp: q_def)
  have "\<not> in_region q (rs ! j)" if "j < i" for j
    using apart_other [OF s i, of j q] that i ins by (auto simp: inside_def in_region_def)
  then show "get_blk_region q rs = i" using ins i by (intro get_blk_region_eq) (auto simp: in_region_def)
  show tr: "ptr_is_traced t m q = bk_traced b" using traced_word [OF h rb(7,6)] by (simp add: q_def)
  show pb: "ptr2blk t q (bk_traced b) = p" by (simp add: ptr2blk_def q_def)
  show "mem_blk_is_used m p = bk_used b" using hg(3) .
  show "q \<noteq> 0" using hs by (simp add: q_def)
  show "ptr_size t m q = bk_size b - mem_blk_head_size t (bk_traced b)"
  proof -
    have "int (bk_size b) - int (mem_blk_head_size t (bk_traced b)) = int (bk_size b - mem_blk_head_size t (bk_traced b))"
      using hb(7) by simp
    moreover have "blk_link_size t m (ptr2blk t q (bk_traced b)) = bk_size b" unfolding pb by (rule hg(5))
    moreover have "u32_of_int (int (bk_size b - mem_blk_head_size t (bk_traced b))) = bk_size b - mem_blk_head_size t (bk_traced b)"
      using rb(6) by simp
    ultimately show ?thesis unfolding ptr_size_def Let_def tr by (simp only:)
  qed
qed

section \<open>Release\<close>

lemma hdrs_bounds: "x \<in> hdrs p bs \<Longrightarrow> list_all (blk_ok t) bs \<Longrightarrow> p \<le> x \<and> x < bend p bs + 8"
proof (induction bs arbitrary: p)
  case (Cons b bs)
  have "p + bk_size b \<le> bend (p + bk_size b) bs" by (rule bend_ge)
  then show ?case using Cons.IH [of "p + bk_size b"] Cons.prems by (auto simp: blk_ok_def)
qed simp

lemma free_heap:
  assumes ok: "heap_ok t (hp_mem h) (hp_regions h) bss" and i: "i < length (hp_regions h)"
    and b: "bss ! i = pre @ b # post" "bk_used b"
  shows "\<exists>h'. heap_caps_free t (bend (region_first (hp_regions h ! i)) pre + mem_blk_head_size t (bk_traced b)) h = h'
    \<and> heap_ok t (hp_mem h') (hp_regions h') (bss[i := release pre (bk_size b) post])
    \<and> leaks h' = leaks h \<and> (\<exists>r'. hp_regions h' = (hp_regions h)[i := r'] \<and> same_place (hp_regions h ! i) r')
    \<and> (\<forall>x. x \<notin> hdrs (region_first (hp_regions h ! i)) (bss ! i) \<longrightarrow> hp_mem h' x = hp_mem h x)"
proof -
  let ?rs = "hp_regions h" and ?m = "hp_mem h"
  note pf = payload_facts [OF ok i b(1)]
  have r: "region_ok t ?m (?rs ! i) (pre @ b # post)" using heap_ok_nth(1) [OF ok i] b by simp
  obtain r' m' where fr: "free_region t (bend (region_first (?rs ! i)) pre) (?rs ! i) ?m = (r', m')"
      "region_ok t m' r' (release pre (bk_size b) post)" "same_place (?rs ! i) r'"
      "\<forall>x. x \<notin> hdrs (region_first (?rs ! i)) (bss ! i) \<longrightarrow> m' x = ?m x"
    using free_region_ok [OF r b(2)] b(1) unfolding same_place_def by auto
  have "heap_ok t m' (?rs[i := r']) (bss[i := release pre (bk_size b) post])"
  proof (rule heap_ok_update [OF ok i fr(2,3)])
    note g = region_geometry [OF heap_ok_nth(3) [OF ok i]]
    show "m' x = ?m x" if x: "\<not> inside (?rs ! i) x" for x
    proof -
      have l: "list_all (blk_ok t) (bss ! i)" and e: "bend (region_first (?rs ! i)) (bss ! i) = region_end (?rs ! i)"
        using heap_ok_nth(1) [OF ok i] by (simp_all add: region_ok_def)
      have "x \<notin> hdrs (region_first (?rs ! i)) (bss ! i)"
        using hdrs_bounds [OF _ l, of x "region_first (?rs ! i)"] x g(2,6) unfolding e inside_def by linarith
      then show ?thesis using fr(4) by blast
    qed
  qed
  moreover have "heap_caps_free t (bend (region_first (?rs ! i)) pre + mem_blk_head_size t (bk_traced b)) h
      = h\<lparr>hp_regions := ?rs[i := r'], hp_mem := m'\<rparr>"
    using i b(2) unfolding heap_caps_free_def Let_def pf(1-4) fr(1) if_not_P [OF pf(6)] by simp
  ultimately show ?thesis using fr by auto
qed

section \<open>Writing into a block\<close>

lemma write_heap:
  assumes ok: "heap_ok t m rs bss" and i: "i < length rs" and b: "bss ! i = pre @ b # post"
    and a: "bend (region_first (rs ! i)) pre + mem_blk_head_size t (bk_traced b) \<le> a"
      "a + length ds \<le> bend (region_first (rs ! i)) pre + bk_size b"
  shows "heap_ok t (mcpy m a ds) rs bss"
proof -
  let ?p = "bend (region_first (rs ! i)) pre"
  have r: "region_ok t m (rs ! i) (pre @ b # post)" using heap_ok_nth(1) [OF ok i] b by simp
  note rb = region_block [OF r] and hb = heap_block [OF ok i b]
  have fr: "mcpy m a ds x = m x" if "x < ?p + mem_blk_head_size t (bk_traced b) \<or> ?p + bk_size b \<le> x" for x
    using that a by (intro mcpy_out) auto
  have w: "rd32 (mcpy m a ds) c = rd32 m c" if "c + 4 \<le> ?p + mem_blk_head_size t (bk_traced b)" for c
    using that by (intro rd32_cong fr) simp
  have w4: "rd32 (mcpy m a ds) ?p = rd32 m ?p" "rd32 (mcpy m a ds) (?p + 4) = rd32 m (?p + 4)"
    "bk_traced b \<longrightarrow> rd32 (mcpy m a ds) (?p + 12) = rd32 m (?p + 12)"
    using rb(7) by (intro w impI; simp add: head_size_vals blk_ok_def)+
  have "head_ok t m (lastp 0 (region_first (rs ! i)) pre) ?p b" using rb(1) by simp
  then have "head_ok t (mcpy m a ds) (lastp 0 (region_first (rs ! i)) pre) ?p b"
    using w4 unfolding head_ok_def by metis
  moreover have "chain t (mcpy m a ds) ?p (?p + bk_size b) post"
  proof (rule chain_cong [of t m])
    show "mcpy m a ds x = m x" if "?p + bk_size b \<le> x" for x by (rule fr) (simp add: that)
  qed (use rb(1,9) in simp_all)
  ultimately have cp: "chain t (mcpy m a ds) (lastp 0 (region_first (rs ! i)) pre) ?p (b # post)" by simp
  have "chain t m 0 (region_first (rs ! i)) (pre @ b # post)" using r by (simp add: region_ok_def)
  then have "chain t (mcpy m a ds) 0 (region_first (rs ! i)) (pre @ b # post)"
  proof (rule chain_replace [OF _ rb(8) cp])
    show "mcpy m a ds x = m x" if "x < ?p" for x by (intro fr disjI1 trans_less_add1 that)
  qed
  then have "region_ok t (mcpy m a ds) (rs ! i) (bss ! i)" using r b by (simp add: region_ok_def)
  then have "heap_ok t (mcpy m a ds) (rs[i := rs ! i]) (bss[i := bss ! i])"
  proof (rule heap_ok_update [OF ok i _ same_place_refl])
    show "mcpy m a ds x = m x" if "\<not> inside (rs ! i) x" for x
      using that hb(1,2) by (intro fr) (auto simp: inside_def)
  qed
  then show ?thesis by simp
qed

end
