(* ===== verification/HeapReach.thy ===== *)
theory HeapReach
  imports HeapOps
begin

text \<open>
  Every run of the heap: the calls of \<open>heap_caps_malloc\<close>, \<open>heap_caps_free\<close>, \<open>heap_caps_realloc\<close> and
  the writes of the clients into the memory they hold, from initialisation on.  The state of a run is the
  heap and the list of the pointers handed out and not yet given back, each with the size asked for.
\<close>

section \<open>The pointers held and the blocks in use\<close>

definition room :: "nat \<times> nat \<Rightarrow> nat \<times> nat \<Rightarrow> bool" where
  "room a c \<longleftrightarrow> fst a = fst c \<and> fst a + snd a \<le> snd c"

definition live_ok :: "bool \<Rightarrow> heap \<Rightarrow> blk list list \<Rightarrow> (nat \<times> nat) list \<Rightarrow> bool" where
  "live_ok t h bss L \<longleftrightarrow> heap_ok t (hp_mem h) (hp_regions h) bss
     \<and> rel_mset room (mset L) (mset (allocs t (hp_regions h) bss))"

lemma live_ok_heap: "live_ok t h bss L \<Longrightarrow> heap_ok t (hp_mem h) (hp_regions h) bss"
  by (simp add: live_ok_def)

text \<open>The block of a pointer that is held.\<close>

lemma live_block:
  assumes l: "live_ok t h bss L" and q: "(q, n) \<in> set L"
  obtains i pre b post where "i < length (hp_regions h)" "bss ! i = pre @ b # post" "bk_used b"
    "q = bend (region_first (hp_regions h ! i)) pre + mem_blk_head_size t (bk_traced b)"
    "q + n \<le> bend (region_first (hp_regions h ! i)) pre + bk_size b"
proof -
  have "mset L = add_mset (q, n) (mset (remove1 (q, n) L))" using q by simp
  then have "rel_mset room (add_mset (q, n) (mset (remove1 (q, n) L))) (mset (allocs t (hp_regions h) bss))"
    using l by (simp add: live_ok_def)
  then obtain N c where c: "mset (allocs t (hp_regions h) bss) = add_mset c N" "room (q, n) c"
    by (metis msed_rel_invL)
  then have "(q, snd c) \<in> set (allocs t (hp_regions h) bss)" and hi: "q + n \<le> snd c"
    by (auto simp: room_def simp flip: set_mset_mset)
  moreover have "length (hp_regions h) = length bss"
    using heap_ok_nth(2) l by (auto simp: live_ok_def heap_ok_def list_all2_lengthD)
  ultimately show ?thesis by (elim allocs_in) (use that hi in auto)
qed

text \<open>A payload lies outside all headers, and outside every other block.\<close>

lemma payload_not_hdr:
  assumes "list_all (blk_ok t) (pre @ b # post)" "bend p pre + 8 \<le> x" "x < bend p pre + bk_size b"
  shows "x \<notin> hdrs p (pre @ b # post)"
  using assms hdrs_bounds [of x p pre t] hdrs_bounds [of x "bend p pre + bk_size b" post t] by auto

lemma other_block:
  assumes e: "pre @ b # post = pre' @ b' # post'" and u: "\<not> bk_used b" "bk_used b'"
    and x: "bend p pre' + 8 \<le> x" "x < bend p pre' + bk_size b'"
  shows "x < bend p pre \<or> bend p pre + bk_size b + 4 \<le> x"
proof -
  consider zs where "pre = pre' @ b' # zs" | zs where "pre' = pre @ b # zs"
    using e u by (auto simp: append_eq_append_conv2 Cons_eq_append_conv append_eq_Cons_conv)
  then show ?thesis
  proof cases
    case 1
    then show ?thesis using x bend_ge [of "bend p pre' + bk_size b'" zs] by simp
  next
    case 2
    then show ?thesis using x bend_ge [of "bend p pre + bk_size b" zs] by simp
  qed
qed

definition keeps :: "(nat \<times> nat) list \<Rightarrow> memory \<Rightarrow> memory \<Rightarrow> bool" where
  "keeps L m m' \<longleftrightarrow> (\<forall>(q, n) \<in> set L. mget m' q n = mget m q n)"

lemma keepsI: "(\<And>q n x. (q, n) \<in> set L \<Longrightarrow> q \<le> x \<Longrightarrow> x < q + n \<Longrightarrow> m' x = m x) \<Longrightarrow> keeps L m m'"
  unfolding keeps_def by (fastforce intro: mget_cong)

lemma head_ge_8: "8 \<le> mem_blk_head_size t trace"
  by (simp add: head_size_vals)

definition places :: "heap \<Rightarrow> (nat \<times> nat \<times> u32) list" where
  "places h = map (\<lambda>r. (start_addr r, total_size r, hr_caps r)) (hp_regions h)"

lemma places_update:
  assumes "hp_regions h' = (hp_regions h)[i := r']" "i < length (hp_regions h)" "same_place (hp_regions h ! i) r'"
  shows "places h' = places h"
  using assms by (auto simp: places_def same_place_def list_eq_iff_nth_eq nth_list_update)

section \<open>Allocation\<close>

lemma malloc_live:
  assumes l: "live_ok t h bss L" and f: "fits t (t \<and> leaks h) sz"
  shows "heap_caps_malloc t sz caps fl ln h = Some (None, h)
    \<or> (\<exists>q h' bss'. heap_caps_malloc t sz caps fl ln h = Some (Some q, h') \<and> live_ok t h' bss' ((q, sz) # L)
        \<and> keeps L (hp_mem h) (hp_mem h') \<and> leaks h' = leaks h \<and> places h' = places h)"
proof -
  let ?tr = "t \<and> leaks h" and ?rs = "hp_regions h"
  let ?need = "ptr2memblk_size t sz ?tr"
  note ok = live_ok_heap [OF l]
  from malloc_heap [OF ok f, of caps fl ln] show ?thesis
  proof (elim disjE exE conjE, goal_cases)
    case 1
    then show ?thesis by simp
  next
    case (2 i pre b post h' r')
    let ?p = "bend (region_first (?rs ! i)) pre" and ?tk = "taken t ?tr ?need b"
    let ?q = "?p + mem_blk_head_size t ?tr" and ?bss' = "bss[i := pre @ ?tk @ post]"
    let ?hi = "?p + bk_size (hd ?tk)"
    note ts = taken_sizes [OF \<open>?need \<le> bk_size b\<close> \<open>\<not> bk_used b\<close>, where t = t and trace = ?tr]
    have len: "length ?rs = length bss" using heap_ok_nth(2) [OF ok 2(1)] by simp
    have "mset (allocs t (hp_regions h') ?bss') = add_mset (?q, ?hi) (mset (allocs t ?rs bss))"
      using allocs_update [OF 2(1) len \<open>same_place (?rs ! i) r'\<close>, of t "pre @ ?tk @ post"] 2 ts(1)
      by (simp add: taken_used)
    moreover have "room (?q, sz) (?q, ?hi)"
      using need_facts(1) [OF f] ts(3) by (simp add: room_def)
    ultimately have "live_ok t h' ?bss' ((?q, sz) # L)"
      using 2 l by (simp add: live_ok_def rel_mset_Plus)
    moreover have "keeps L (hp_mem h) (hp_mem h')"
    proof (rule keepsI)
      fix q' n x assume q: "(q', n) \<in> set L" and x: "q' \<le> x" "x < q' + n"
      obtain j pre' b' post' where j: "j < length ?rs" "bss ! j = pre' @ b' # post'" "bk_used b'"
          "q' = bend (region_first (?rs ! j)) pre' + mem_blk_head_size t (bk_traced b')"
          "q' + n \<le> bend (region_first (?rs ! j)) pre' + bk_size b'"
        using live_block [OF l q] by metis
      have "x < ?p \<or> ?p + bk_size b + 4 \<le> x"
      proof (cases "j = i")
        case True
        then show ?thesis using other_block [of pre b post pre' b' post'] 2 j x head_ge_8 [of t "bk_traced b'"] by simp
      next
        case False
        have "inside (?rs ! j) x" using heap_block(1,2) [OF ok j(1,2)] j x by (auto simp: inside_def)
        then have "\<not> inside (?rs ! i) x"
          using apart_other [of ?rs j i x] ok j(1) 2(1) False by (simp add: heap_ok_def)
        then show ?thesis using heap_block(1,2) [OF ok 2(1) \<open>bss ! i = pre @ b # post\<close>] by (auto simp: inside_def)
      qed
      then show "hp_mem h' x = hp_mem h x" using 2 by blast
    qed
    moreover have "places h' = places h" using 2 by (intro places_update)
    ultimately show ?thesis using 2 by blast
  qed
qed

section \<open>Release\<close>

lemma free_live:
  assumes l: "live_ok t h bss L" and L: "mset L = add_mset (q, n) (mset L')"
  shows "\<exists>bss'. live_ok t (heap_caps_free t q h) bss' L' \<and> keeps L (hp_mem h) (hp_mem (heap_caps_free t q h))
    \<and> leaks (heap_caps_free t q h) = leaks h \<and> places (heap_caps_free t q h) = places h"
proof -
  let ?rs = "hp_regions h" and ?h' = "heap_caps_free t q h"
  note ok = live_ok_heap [OF l]
  obtain N c where c: "mset (allocs t ?rs bss) = add_mset c N" "room (q, n) c" "rel_mset room (mset L') N"
    using l unfolding live_ok_def L by (metis msed_rel_invL)
  then have "(q, snd c) \<in> set (allocs t ?rs bss)" by (auto simp: room_def simp flip: set_mset_mset)
  moreover have len: "length ?rs = length bss" using ok by (auto simp: heap_ok_def list_all2_lengthD)
  ultimately obtain i pre b post where b: "i < length ?rs" "bss ! i = pre @ b # post" "bk_used b"
      "q = bend (region_first (?rs ! i)) pre + mem_blk_head_size t (bk_traced b)"
      "snd c = bend (region_first (?rs ! i)) pre + bk_size b"
    by (elim allocs_in)
  let ?bss' = "bss[i := release pre (bk_size b) post]"
  obtain r' where h': "heap_ok t (hp_mem ?h') (hp_regions ?h') ?bss'" "leaks ?h' = leaks h"
      "hp_regions ?h' = ?rs[i := r']" "same_place (?rs ! i) r'"
      "\<forall>x. x \<notin> hdrs (region_first (?rs ! i)) (bss ! i) \<longrightarrow> hp_mem ?h' x = hp_mem h x"
    using free_heap [OF ok b(1,2,3)] b(4) by auto
  have "c = (q, snd c)" using c(2) by (cases c) (simp add: room_def)
  then have "mset (allocs t (hp_regions ?h') ?bss') = N"
    using allocs_update [OF b(1) len h'(4), of t "release pre (bk_size b) post"] b c(1) h'(3)
    by (simp add: release_used)
  then have "live_ok t ?h' ?bss' L'" using h'(1) c(3) by (simp add: live_ok_def)
  moreover have "keeps L (hp_mem h) (hp_mem ?h')"
  proof (rule keepsI)
    fix q' n' x assume q: "(q', n') \<in> set L" and x: "q' \<le> x" "x < q' + n'"
    obtain j pre' b' post' where j: "j < length ?rs" "bss ! j = pre' @ b' # post'" "bk_used b'"
        "q' = bend (region_first (?rs ! j)) pre' + mem_blk_head_size t (bk_traced b')"
        "q' + n' \<le> bend (region_first (?rs ! j)) pre' + bk_size b'"
      using live_block [OF l q] by metis
    have lok: "list_all (blk_ok t) (bss ! k)" "bend (region_first (?rs ! k)) (bss ! k) = region_end (?rs ! k)" if "k < length ?rs" for k
      using heap_ok_nth(1) [OF ok that] by (simp_all add: region_ok_def)
    have "x \<notin> hdrs (region_first (?rs ! i)) (bss ! i)"
    proof (cases "j = i")
      case True
      then show ?thesis using payload_not_hdr [of t pre' b' post' "region_first (?rs ! i)" x] lok(1) [OF b(1)] j x
          head_ge_8 [of t "bk_traced b'"] by auto
    next
      case False
      have "inside (?rs ! j) x" using heap_block(1,2) [OF ok j(1,2)] j x by (auto simp: inside_def)
      then have "\<not> inside (?rs ! i) x"
        using apart_other [of ?rs j i x] ok j(1) b(1) False by (simp add: heap_ok_def)
      then show ?thesis
        using hdrs_bounds [OF _ lok(1) [OF b(1)], of x "region_first (?rs ! i)"] lok(2) [OF b(1)]
          region_geometry(2,6) [OF heap_ok_nth(3) [OF ok b(1)]] unfolding inside_def by linarith
    qed
    then show "hp_mem ?h' x = hp_mem h x" using h'(5) by blast
  qed
  moreover have "places ?h' = places h" by (rule places_update [OF h'(3) b(1) h'(4)])
  ultimately show ?thesis using h'(2) by blast
qed

section \<open>The blocks in use are apart\<close>

lemma used_blks_inside:
  assumes "region_ok t m r bs" "(lo, hi) \<in> set (used_blks t (region_first r) bs)"
  shows "start_addr r < lo" "lo \<le> hi" "hi + 8 \<le> start_addr r + total_size r"
  using assms used_blks_bounds [of t bs lo hi "region_first r"] region_geometry [of r] by (auto simp: region_ok_def)

lemma allocs_sep: "heap_ok t m rs bss \<Longrightarrow> sorted_wrt sep (allocs t rs bss)"
proof -
  assume "heap_ok t m rs bss"
  then have "list_all2 (region_ok t m) rs bss" "sorted_wrt apart rs" by (simp_all add: heap_ok_def)
  then show ?thesis
  proof (induction rs bss rule: list_all2_induct)
    case (Cons r rs bs bss)
    have other: "\<exists>r' \<in> set rs. start_addr r' < lo \<and> lo \<le> hi \<and> hi + 8 \<le> start_addr r' + total_size r'"
      if "(lo, hi) \<in> set (allocs t rs bss)" for lo hi
    proof -
      obtain r' bs' where z: "(r', bs') \<in> set (zip rs bss)" "(lo, hi) \<in> set (used_blks t (region_first r') bs')"
        using \<open>(lo, hi) \<in> set (allocs t rs bss)\<close> by (auto simp: allocs_def)
      then have "region_ok t m r' bs'" "r' \<in> set rs"
        using Cons.hyps(2) by (auto simp: list_all2_iff dest: set_zip_leftD)
      then show ?thesis using used_blks_inside [OF _ z(2)] by blast
    qed
    have "sep x y" if x: "x \<in> set (used_blks t (region_first r) bs)" and y: "y \<in> set (allocs t rs bss)" for x y
    proof -
      obtain r' where r': "r' \<in> set rs" "start_addr r' < fst y" "fst y \<le> snd y" "snd y + 8 \<le> start_addr r' + total_size r'"
        using other [of "fst y" "snd y"] y by auto
      have "apart r r'" using Cons.prems r'(1) by simp
      then show ?thesis using used_blks_inside [OF Cons.hyps(1), of "fst x" "snd x"] x r' by (auto simp: apart_def sep_def)
    qed
    moreover have "sorted_wrt sep (used_blks t (region_first r) bs)"
      using Cons.hyps(1) by (intro used_blks_sep) (simp add: region_ok_def)
    moreover have "sorted_wrt sep (allocs t rs bss)" using Cons by simp
    ultimately show ?case by (simp add: allocs_def sorted_wrt_append)
  qed (simp add: allocs_def)
qed

lemma sorted_wrt_pair:
  assumes "sorted_wrt P xs" "\<And>x y. P x y \<Longrightarrow> P y x" "mset xs = add_mset a (add_mset b M)"
  shows "P a b"
proof -
  have "a \<in> set xs" using assms(3) by (simp flip: set_mset_mset)
  then obtain ys zs where xs: "xs = ys @ a # zs" by (auto dest: split_list)
  then have "mset ys + mset zs = add_mset b M" using assms(3) by simp
  then have "b \<in># mset ys + mset zs" by simp
  then have "b \<in> set ys \<or> b \<in> set zs" by simp
  then show ?thesis using assms(1,2) xs by (auto simp: sorted_wrt_append)
qed

lemma live_apart:
  assumes l: "live_ok t h bss L" and L: "mset L = add_mset (q, n) (add_mset (q', n') M)"
  shows "q + n < q' \<or> q' + n' < q"
proof -
  obtain N c where c: "mset (allocs t (hp_regions h) bss) = add_mset c N" "room (q, n) c" "rel_mset room (add_mset (q', n') M) N"
    using l unfolding live_ok_def L by (metis msed_rel_invL)
  then obtain N' c' where c': "N = add_mset c' N'" "room (q', n') c'" by (metis msed_rel_invL)
  have "sep c c'"
    using sorted_wrt_pair [OF allocs_sep [OF live_ok_heap [OF l]], of c c' N'] c(1) c'(1) by (auto simp: sep_def)
  then show ?thesis using c(2) c'(2) by (auto simp: sep_def room_def)
qed

lemma live_apart_in:
  assumes "live_ok t h bss ((a, sz) # L)" "(q, n) \<in> set L"
  shows "a + sz < q \<or> q + n < a"
  using live_apart [OF assms(1), of a sz q n "mset (remove1 (q, n) L)"] assms(2) by simp

section \<open>Writing, reallocation, initialisation\<close>

lemma write_live:
  assumes l: "live_ok t h bss L" and q: "(q, n) \<in> set L" "q \<le> a" "a + length ds \<le> q + n"
  shows "live_ok t (h\<lparr>hp_mem := mcpy (hp_mem h) a ds\<rparr>) bss L"
proof -
  obtain i pre b post where b: "i < length (hp_regions h)" "bss ! i = pre @ b # post" "bk_used b"
      "q = bend (region_first (hp_regions h ! i)) pre + mem_blk_head_size t (bk_traced b)"
      "q + n \<le> bend (region_first (hp_regions h ! i)) pre + bk_size b"
    using live_block [OF l q(1)] by metis
  have "heap_ok t (mcpy (hp_mem h) a ds) (hp_regions h) bss"
    using b q by (intro write_heap [OF live_ok_heap [OF l] b(1,2)]) auto
  then show ?thesis using l by (simp add: live_ok_def)
qed

lemma ptr_size_live:
  assumes l: "live_ok t h bss L" and q: "(q, n) \<in> set L"
  shows "n \<le> ptr_size t (hp_mem h) q" "q \<noteq> 0"
proof -
  obtain i pre b post where b: "i < length (hp_regions h)" "bss ! i = pre @ b # post" "bk_used b"
      "q = bend (region_first (hp_regions h ! i)) pre + mem_blk_head_size t (bk_traced b)"
      "q + n \<le> bend (region_first (hp_regions h ! i)) pre + bk_size b"
    using live_block [OF l q] by metis
  note pf = payload_facts [OF live_ok_heap [OF l] b(1,2)]
  show "n \<le> ptr_size t (hp_mem h) q" using pf(5) b(4,5) by simp
  show "q \<noteq> 0" using pf(6) b(4) by simp
qed

lemma keeps_nth: "keeps L m m' \<Longrightarrow> (q, n) \<in> set L \<Longrightarrow> mget m' q n = mget m q n"
  by (auto simp: keeps_def)

lemma mget_shorten: "k \<le> n \<Longrightarrow> mget m' q n = mget m q n \<Longrightarrow> mget m' q k = mget m q k"
  using mget_add [of m' q k "n - k"] mget_add [of m q k "n - k"] by simp

lemma realloc_live:
  assumes l: "live_ok t h bss L" and q: "(q, n) \<in> set L" and f: "fits t (t \<and> leaks h) sz"
  shows "heap_caps_realloc t q sz caps fl ln h = Some (None, h)
    \<or> (\<exists>a h' bss'. heap_caps_realloc t q sz caps fl ln h = Some (Some a, h')
        \<and> live_ok t h' bss' ((a, sz) # remove1 (q, n) L) \<and> leaks h' = leaks h \<and> places h' = places h
        \<and> mget (hp_mem h') a (min sz n) = mget (hp_mem h) q (min sz n)
        \<and> keeps (remove1 (q, n) L) (hp_mem h) (hp_mem h'))"
proof -
  from malloc_live [OF l f, of caps fl ln] show ?thesis
  proof (elim disjE exE conjE, goal_cases)
    case 1
    then show ?thesis by (simp add: heap_caps_realloc_def)
  next
    case (2 a h1 bss1)
    let ?k = "min sz (ptr_size t (hp_mem h1) q)"
    let ?ds = "mget (hp_mem h1) q ?k"
    let ?h2 = "h1\<lparr>hp_mem := mcpy (hp_mem h1) a ?ds\<rparr>"
    let ?h3 = "heap_caps_free t q ?h2"
    have q1: "(q, n) \<in> set ((a, sz) # L)" using q by simp
    note ps = ptr_size_live [OF 2(2) q1]
    have l2: "live_ok t ?h2 bss1 ((a, sz) # L)" by (rule write_live [OF 2(2), of a sz]) simp_all
    have "mset ((a, sz) # L) = add_mset (q, n) (mset ((a, sz) # remove1 (q, n) L))" using q by simp
    from free_live [OF l2 this] obtain bss3 where
      l3: "live_ok t ?h3 bss3 ((a, sz) # remove1 (q, n) L)" and k3: "keeps ((a, sz) # L) (hp_mem ?h2) (hp_mem ?h3)"
      and lk: "leaks ?h3 = leaks ?h2" "places ?h3 = places ?h2" by blast
    have "mget (hp_mem ?h3) a sz = mget (hp_mem ?h2) a sz" using keeps_nth [OF k3, of a sz] by simp
    then have "mget (hp_mem ?h3) a (min sz n) = mget (hp_mem ?h2) a (min sz n)" by (rule mget_shorten [rotated]) simp
    also have "\<dots> = mget (hp_mem h1) q (min sz n)"
      using ps(1) by (intro nth_equalityI) (auto simp: mcpy_in)
    also have "\<dots> = mget (hp_mem h) q (min sz n)"
      using keeps_nth [OF 2(3) q] by (rule mget_shorten [rotated]) simp
    finally have cont: "mget (hp_mem ?h3) a (min sz n) = mget (hp_mem h) q (min sz n)" .
    have "mget (hp_mem ?h3) q' n' = mget (hp_mem h) q' n'" if r: "(q', n') \<in> set L" for q' n'
    proof -
      have "mget (hp_mem ?h3) q' n' = mget (hp_mem ?h2) q' n'" using keeps_nth [OF k3, of q' n'] r by simp
      also have "\<dots> = mget (hp_mem h1) q' n'"
        using live_apart_in [OF 2(2) r] by (auto simp: mget_mcpy_disjoint)
      finally show ?thesis using keeps_nth [OF 2(3) r] by simp
    qed
    then have "keeps (remove1 (q, n) L) (hp_mem h) (hp_mem ?h3)"
      using set_remove1_subset [of "(q, n)" L] by (auto simp: keeps_def)
    moreover have "heap_caps_realloc t q sz caps fl ln h = Some (Some a, ?h3)"
      using 2(1) ps(2) by (simp add: heap_caps_realloc_def Let_def)
    moreover have "leaks ?h3 = leaks h" using lk(1) \<open>leaks h1 = leaks h\<close> by simp
    moreover have "places ?h3 = places h" using lk(2) \<open>places h1 = places h\<close> by (simp add: places_def)
    ultimately show ?thesis using l3 cont by blast
  qed
qed

section \<open>Initialisation\<close>

definition regions_ok :: "heap_region list \<Rightarrow> bool" where
  "regions_ok rs \<longleftrightarrow> list_all region_wf rs \<and> sorted_wrt apart rs"

lemma init_regions_ok:
  "list_all region_wf rs \<Longrightarrow> sorted_wrt apart rs \<Longrightarrow> init_regions t rs m = (rs', m') \<Longrightarrow>
    list_all2 (region_ok t m') rs' (map (\<lambda>r. [Blk (region_end r - region_first r) False False]) rs)
    \<and> list_all2 same_place rs rs'
    \<and> (\<forall>x. (\<forall>r \<in> set rs. \<not> inside r x) \<longrightarrow> m' x = m x)"
proof (induction rs arbitrary: m rs')
  case (Cons r rs)
  obtain r1 m1 where i: "init_region t r m = (r1, m1)" by (cases "init_region t r m")
  obtain rs1 where j: "init_regions t rs m1 = (rs1, m')" "rs' = r1 # rs1"
    using Cons.prems(3) i by (auto split: prod.splits)
  have wf: "region_wf r" using Cons.prems(1) by simp
  note ir = init_region_ok [OF wf i]
  have sp: "same_place r r1" using ir by (simp add: same_place_def)
  note IH = Cons.IH [OF _ _ j(1)]
  have "region_ok t m' r1 [Blk (region_end r - region_first r) False False]"
  proof (rule region_ok_cong)
    show "region_ok t m1 r1 [Blk (region_end r - region_first r) False False]" using ir by simp
    fix x assume "start_addr r1 \<le> x" "x < start_addr r1 + total_size r1"
    then have x: "inside r x" using sp by (simp add: same_place_def inside_def)
    have "\<not> inside r' x" if "r' \<in> set rs" for r'
      using Cons.prems(2) that x by (auto simp: apart_def inside_def)
    then show "m' x = m1 x" using IH Cons.prems by auto
  qed
  moreover have "m' x = m x" if "\<forall>r' \<in> set (r # rs). \<not> inside r' x" for x
  proof -
    have "m' x = m1 x" using that IH Cons.prems by auto
    moreover have "m1 x = m x" using that ir by (auto simp: inside_def not_le not_less)
    ultimately show ?thesis by simp
  qed
  ultimately show ?case using IH Cons.prems sp j(2) by auto
qed simp

lemma init_live:
  assumes "regions_ok rs"
  shows "\<exists>bss. live_ok t (esp_heap_caps_init_region t rs m) bss []"
    "list_all2 same_place rs (hp_regions (esp_heap_caps_init_region t rs m))"
proof -
  let ?h = "esp_heap_caps_init_region t rs m"
  let ?bss = "map (\<lambda>r. [Blk (region_end r - region_first r) False False]) rs"
  obtain rs' m' where i: "init_regions t rs m = (rs', m')" by (cases "init_regions t rs m")
  have h: "hp_mem ?h = m'" "hp_regions ?h = rs'" using i by (simp_all add: esp_heap_caps_init_region_def)
  note io = init_regions_ok [OF _ _ i]
  have sp: "list_all2 same_place rs rs'" using assms io by (simp add: regions_ok_def)
  then show "list_all2 same_place rs (hp_regions ?h)" by (simp add: h)
  have ap: "sorted_wrt apart rs'"
    using assms sp by (simp add: regions_ok_def sorted_wrt_iff_nth_less list_all2_conv_all_nth same_place_def apart_def)
  have "allocs t rs' ?bss = []" by (auto simp: allocs_def in_set_zip)
  then have "live_ok t ?h ?bss []" using assms io ap by (simp add: live_ok_def heap_ok_def h regions_ok_def rel_mset_Zero)
  then show "\<exists>bss. live_ok t ?h bss []" by blast
qed

section \<open>Runs\<close>

text \<open>The largest size whose block size does not wrap, with either kind of header.\<close>

definition max_request :: nat where "max_request = 0xFFFFFFEC"

lemma fits_max: "sz \<le> max_request \<Longrightarrow> fits t trace sz"
  by (simp add: fits_def max_request_def head_size_vals)

inductive heap_reach :: "bool \<Rightarrow> heap_region list \<Rightarrow> memory \<Rightarrow> heap \<Rightarrow> (nat \<times> nat) list \<Rightarrow> bool" for t rs m where
  start: "heap_reach t rs m (esp_heap_caps_init_region t rs m) []"
| malloc: "heap_reach t rs m h L \<Longrightarrow> sz \<le> max_request \<Longrightarrow>
    heap_caps_malloc t sz caps fl ln h = Some (Some q, h') \<Longrightarrow> heap_reach t rs m h' ((q, sz) # L)"
| malloc_null: "heap_reach t rs m h L \<Longrightarrow> sz \<le> max_request \<Longrightarrow>
    heap_caps_malloc t sz caps fl ln h = Some (None, h') \<Longrightarrow> heap_reach t rs m h' L"
| release: "heap_reach t rs m h L \<Longrightarrow> (q, n) \<in> set L \<Longrightarrow>
    heap_reach t rs m (heap_caps_free t q h) (remove1 (q, n) L)"
| release_null: "heap_reach t rs m h L \<Longrightarrow> heap_reach t rs m (heap_caps_free t 0 h) L"
| realloc: "heap_reach t rs m h L \<Longrightarrow> (q, n) \<in> set L \<Longrightarrow> sz \<le> max_request \<Longrightarrow>
    heap_caps_realloc t q sz caps fl ln h = Some (Some a, h') \<Longrightarrow> heap_reach t rs m h' ((a, sz) # remove1 (q, n) L)"
| realloc_null: "heap_reach t rs m h L \<Longrightarrow> (q, n) \<in> set L \<Longrightarrow> sz \<le> max_request \<Longrightarrow>
    heap_caps_realloc t q sz caps fl ln h = Some (None, h') \<Longrightarrow> heap_reach t rs m h' L"
| client_write: "heap_reach t rs m h L \<Longrightarrow> (q, n) \<in> set L \<Longrightarrow> q \<le> a \<Longrightarrow> a + length ds \<le> q + n \<Longrightarrow>
    heap_reach t rs m (h\<lparr>hp_mem := mcpy (hp_mem h) a ds\<rparr>) L"
| trace_mode: "heap_reach t rs m h L \<Longrightarrow> heap_reach t rs m (heap_trace_start b h) L"

lemma reach_live:
  assumes "heap_reach t rs m h L" "regions_ok rs"
  shows "\<exists>bss. live_ok t h bss L \<and> places h = places (esp_heap_caps_init_region t rs m)"
  using assms
proof (induction rule: heap_reach.induct)
  case start
  then show ?case using init_live(1) by blast
next
  case (malloc h L sz caps fl ln q h')
  then obtain bss where l: "live_ok t h bss L" and pl: "places h = places (esp_heap_caps_init_region t rs m)" by blast
  from malloc_live [OF l fits_max [OF malloc.hyps(2)], of caps fl ln] show ?case using malloc.hyps(3) pl by auto
next
  case (malloc_null h L sz caps fl ln h')
  then obtain bss where l: "live_ok t h bss L" and pl: "places h = places (esp_heap_caps_init_region t rs m)" by blast
  from malloc_live [OF l fits_max [OF malloc_null.hyps(2)], of caps fl ln] show ?case
    using malloc_null.hyps(3) l pl by auto
next
  case (release h L q n)
  then obtain bss where l: "live_ok t h bss L" and pl: "places h = places (esp_heap_caps_init_region t rs m)" by blast
  from free_live [OF l, of q n "remove1 (q, n) L"] show ?case using release.hyps(2) pl by auto
next
  case (release_null h L)
  then show ?case by (simp add: heap_caps_free_def)
next
  case (realloc h L q n sz caps fl ln a h')
  then obtain bss where l: "live_ok t h bss L" and pl: "places h = places (esp_heap_caps_init_region t rs m)" by blast
  from realloc_live [OF l realloc.hyps(2) fits_max [OF realloc.hyps(3)], of caps fl ln] show ?case
    using realloc.hyps(4) pl by auto
next
  case (realloc_null h L q n sz caps fl ln h')
  then obtain bss where l: "live_ok t h bss L" and pl: "places h = places (esp_heap_caps_init_region t rs m)" by blast
  from realloc_live [OF l realloc_null.hyps(2) fits_max [OF realloc_null.hyps(3)], of caps fl ln] show ?case
    using realloc_null.hyps(4) l pl by auto
next
  case (client_write h L q n a ds)
  then show ?case using write_live [OF _ client_write.hyps(2,3,4)] by (auto simp: places_def)
next
  case (trace_mode h L b)
  then show ?case by (auto simp: heap_trace_start_def live_ok_def places_def)
qed

end
