(* ===== verification/HeapProps.thy ===== *)
theory HeapProps
  imports HeapReach
begin

text \<open>
  The properties of the heap.  \<open>place\<close> is the abstract allocator, a first fit on lists of blocks, which
  the model refines; the rest is about every reachable heap: the memory handed out never overlaps and
  belongs to its holder alone, a reallocation keeps the contents, and once everything is given back the
  regions are whole again.
\<close>

section \<open>The abstract allocator\<close>

primrec place :: "bool \<Rightarrow> bool \<Rightarrow> nat \<Rightarrow> nat \<Rightarrow> blk list \<Rightarrow> (nat \<times> blk list) option" where
  "place t trace need p [] = None"
| "place t trace need p (b # bs) =
    (if bk_used b \<or> bk_size b < need
     then map_option (\<lambda>(q, bs'). (q, b # bs')) (place t trace need (p + bk_size b) bs)
     else Some (p + mem_blk_head_size t trace, taken t trace need b @ bs))"

primrec place_all :: "bool \<Rightarrow> bool \<Rightarrow> nat \<Rightarrow> u32 \<Rightarrow> heap_region list \<Rightarrow> blk list list \<Rightarrow> (nat \<times> blk list list) option" where
  "place_all t trace need caps [] bss = None"
| "place_all t trace need caps (r # rs) bss =
    (case (if has_caps caps r then place t trace need (region_first r) (hd bss) else None) of
       Some (q, bs') \<Rightarrow> Some (q, bs' # tl bss)
     | None \<Rightarrow> map_option (\<lambda>(q, bss'). (q, hd bss # bss')) (place_all t trace need caps rs (tl bss)))"

lemma place_none: "\<forall>b \<in> set bs. unfit need b \<Longrightarrow> place t trace need p bs = None"
  by (induction bs arbitrary: p) auto

lemma place_some:
  "\<forall>a \<in> set pre. unfit need a \<Longrightarrow> \<not> unfit need b \<Longrightarrow>
    place t trace need p (pre @ b # post) = Some (bend p pre + mem_blk_head_size t trace, pre @ taken t trace need b @ post)"
  by (induction pre arbitrary: p) auto

lemma place_all_none: "list_all2 (no_fit caps need) rs bss \<Longrightarrow> place_all t trace need caps rs bss = None"
  by (induction rs bss rule: list_all2_induct) (auto simp: no_fit_def place_none)

lemma place_all_some:
  "i < length rs \<Longrightarrow> length bss = length rs \<Longrightarrow> has_caps caps (rs ! i) \<Longrightarrow> \<forall>j < i. no_fit caps need (rs ! j) (bss ! j)
    \<Longrightarrow> place t trace need (region_first (rs ! i)) (bss ! i) = Some (q, bs')
    \<Longrightarrow> place_all t trace need caps rs bss = Some (q, bss[i := bs'])"
proof (induction rs arbitrary: i bss)
  case (Cons r rs)
  obtain bs bss0 where b: "bss = bs # bss0" using Cons.prems(2) by (cases bss) auto
  show ?case
  proof (cases i)
    case 0
    then show ?thesis using Cons.prems b by simp
  next
    case (Suc k)
    have "no_fit caps need r bs" using Cons.prems(4) b Suc by force
    then have "has_caps caps r \<longrightarrow> place t trace need (region_first r) bs = None"
      by (simp add: no_fit_def place_none)
    moreover have "place_all t trace need caps rs bss0 = Some (q, bss0[k := bs'])"
      using Cons.prems b Suc by (intro Cons.IH) (auto simp: All_less_Suc2)
    ultimately show ?thesis using b Suc by simp
  qed
qed simp

lemma malloc_places:
  assumes ok: "heap_ok t (hp_mem h) (hp_regions h) bss" and f: "fits t (t \<and> leaks h) sz"
  shows "case place_all t (t \<and> leaks h) (ptr2memblk_size t sz (t \<and> leaks h)) caps (hp_regions h) bss of
      None \<Rightarrow> heap_caps_malloc t sz caps fl ln h = Some (None, h)
    | Some (q, bss') \<Rightarrow> \<exists>h'. heap_caps_malloc t sz caps fl ln h = Some (Some q, h')
        \<and> heap_ok t (hp_mem h') (hp_regions h') bss'"
proof -
  from malloc_heap [OF ok f, of caps fl ln] show ?thesis
  proof (elim disjE exE conjE, goal_cases)
    case 1
    then show ?thesis by (simp add: place_all_none)
  next
    case (2 i pre b post h' r')
    then show ?thesis
      using place_all_some [OF 2(1) heap_ok_nth(2) [OF ok 2(1)] 2(2)] place_some [of pre _ b] by simp
  qed
qed

section \<open>A small heap\<close>

definition sample_heap :: heap where
  "sample_heap = esp_heap_caps_init_region False [new_region 64 128 4] (\<lambda>_. 0)"

lemma sample_regions: "regions_ok [new_region 64 128 4]"
  by (simp add: regions_ok_def region_wf_def new_region_def)

lemma sample_bounds: "region_first (new_region 64 128 4) = 64" "region_end (new_region 64 128 4) = 184"
  by (simp_all add: region_first_def region_end_def new_region_def HEAP_ALIGN_def align_up_def MEM_HEAD_SIZE_def)

lemma sample_init:
  "heap_ok False (hp_mem sample_heap) (hp_regions sample_heap) [[Blk 120 False False]]"
  "list_all2 same_place [new_region 64 128 4] (hp_regions sample_heap)" "leaks sample_heap = False"
proof -
  obtain rs' m' where i: "init_regions False [new_region 64 128 4] (\<lambda>_. 0) = (rs', m')" by fastforce
  then have h: "hp_mem sample_heap = m'" "hp_regions sample_heap = rs'"
    by (simp_all add: sample_heap_def esp_heap_caps_init_region_def)
  show sp: "list_all2 same_place [new_region 64 128 4] (hp_regions sample_heap)"
    using init_live(2) [OF sample_regions] by (simp add: sample_heap_def)
  show "heap_ok False (hp_mem sample_heap) (hp_regions sample_heap) [[Blk 120 False False]]"
    using init_regions_ok [OF _ _ i] sample_regions sp
    by (auto simp: heap_ok_def h regions_ok_def sample_bounds list_all2_Cons1)
  show "leaks sample_heap = False"
    by (simp add: sample_heap_def esp_heap_caps_init_region_def split: prod.split)
qed

lemma sample_place:
  "place_all False False (ptr2memblk_size False 8 False) 4 (hp_regions sample_heap) [[Blk 120 False False]]
    = Some (72, [[Blk 16 True False, Blk 104 False False]])"
proof -
  obtain r where r: "hp_regions sample_heap = [r]" "same_place (new_region 64 128 4) r"
    using sample_init(2) by (auto simp: list_all2_Cons1)
  have "region_first r = 64" using same_place_first [OF r(2)] sample_bounds by simp
  moreover have "has_caps 4 r" using r(2) by (simp add: has_caps_def same_place_def new_region_def)
  moreover have "ptr2memblk_size False 8 False = 16"
    by (simp add: ptr2memblk_size_def head_size_vals HEAP_ALIGN_def align_up_def)
  ultimately show ?thesis using r(1) by (simp add: taken_def head_size_vals MEM_BLK_MIN_def)
qed

text \<open>One block of 8 bytes, at address 72.\<close>

lemma sample_alloc:
  "\<exists>h. heap_caps_malloc False 8 4 0 0 sample_heap = Some (Some 72, h)
    \<and> heap_ok False (hp_mem h) (hp_regions h) [[Blk 16 True False, Blk 104 False False]]
    \<and> heap_reach False [new_region 64 128 4] (\<lambda>_. 0) h [(72, 8)]"
proof -
  have f: "fits False (False \<and> leaks sample_heap) 8" by (simp add: fits_def head_size_vals)
  obtain h where h: "heap_caps_malloc False 8 4 0 0 sample_heap = Some (Some 72, h)"
      "heap_ok False (hp_mem h) (hp_regions h) [[Blk 16 True False, Blk 104 False False]]"
    using malloc_places [OF sample_init(1) f, of 4 0 0] by (auto simp: sample_place)
  have "heap_reach False [new_region 64 128 4] (\<lambda>_. 0) sample_heap []"
    unfolding sample_heap_def by (rule heap_reach.start)
  then have "heap_reach False [new_region 64 128 4] (\<lambda>_. 0) h [(72, 8)]"
    by (rule heap_reach.malloc) (use h in \<open>simp_all add: max_request_def\<close>)
  then show ?thesis using h by blast
qed

section \<open>Allocation is a first fit\<close>

text \<open>C14: heap_caps_malloc refines the abstract allocator: on a heap whose memory holds the lists of blocks
  bss, a request of at most 0xFFFFFFEC bytes always returns; it takes the first free block that is large
  enough in the first region with the capabilities, cuts it when a header and four bytes would be left,
  and leaves a heap that holds the new lists; when no such block exists it returns NULL and changes
  nothing.\<close>

theorem heap_malloc_first_fit:
  assumes "heap_ok t (hp_mem h) (hp_regions h) bss" "sz \<le> max_request"
  shows "case place_all t (t \<and> leaks h) (ptr2memblk_size t sz (t \<and> leaks h)) caps (hp_regions h) bss of
      None \<Rightarrow> heap_caps_malloc t sz caps fl ln h = Some (None, h)
    | Some (q, bss') \<Rightarrow> \<exists>h'. heap_caps_malloc t sz caps fl ln h = Some (Some q, h')
        \<and> heap_ok t (hp_mem h') (hp_regions h') bss'"
  by (rule malloc_places [OF assms(1) fits_max [OF assms(2)]])

theorem heap_malloc_first_fit_witness:
  "\<exists>h'. heap_caps_malloc False 8 4 0 0 sample_heap = Some (Some 72, h')
    \<and> heap_ok False (hp_mem h') (hp_regions h') [[Blk 16 True False, Blk 104 False False]]"
  using heap_malloc_first_fit [OF sample_init(1), of 8 4 0 0] by (simp add: sample_place max_request_def)

section \<open>Release coalesces\<close>

text \<open>C15: heap_caps_free of the payload of a block in use makes the block free and joins it with a free
  neighbour on either side, so that no two free blocks are ever adjacent; the free size of the region grows
  by the size of the block, and only header words of the region are written.\<close>

theorem heap_free_coalesces:
  assumes "heap_ok t (hp_mem h) (hp_regions h) bss" "i < length (hp_regions h)"
    "bss ! i = pre @ b # post" "bk_used b"
    "q = bend (region_first (hp_regions h ! i)) pre + mem_blk_head_size t (bk_traced b)"
  shows "heap_ok t (hp_mem (heap_caps_free t q h)) (hp_regions (heap_caps_free t q h))
      (bss[i := release pre (bk_size b) post])
    \<and> free_bytes (hp_regions (heap_caps_free t q h) ! i) = free_bytes (hp_regions h ! i) + bk_size b
    \<and> (\<forall>x. x \<notin> hdrs (region_first (hp_regions h ! i)) (bss ! i) \<longrightarrow> hp_mem (heap_caps_free t q h) x = hp_mem h x)"
proof -
  let ?h' = "heap_caps_free t q h" and ?bss' = "bss[i := release pre (bk_size b) post]"
  have f: "heap_ok t (hp_mem ?h') (hp_regions ?h') ?bss'" "length (hp_regions ?h') = length (hp_regions h)"
    "\<forall>x. x \<notin> hdrs (region_first (hp_regions h ! i)) (bss ! i) \<longrightarrow> hp_mem ?h' x = hp_mem h x"
    using free_heap [OF assms(1-4)] unfolding assms(5) by auto
  have "region_ok t (hp_mem ?h') (hp_regions ?h' ! i) (release pre (bk_size b) post)"
    using heap_ok_nth(1) [OF f(1), of i] f(2) assms(2) heap_ok_nth(2) [OF assms(1,2)] by simp
  moreover have "region_ok t (hp_mem h) (hp_regions h ! i) (pre @ b # post)"
    using heap_ok_nth(1) [OF assms(1,2)] assms(3) by simp
  ultimately have "free_bytes (hp_regions ?h' ! i) = free_bytes (hp_regions h ! i) + bk_size b"
    using assms(4) by (simp add: region_ok_def release_facts)
  then show ?thesis using f by blast
qed

theorem heap_free_coalesces_witness:
  "\<exists>h. heap_ok False (hp_mem h) (hp_regions h) [[Blk 16 True False, Blk 104 False False]]
    \<and> heap_ok False (hp_mem (heap_caps_free False 72 h)) (hp_regions (heap_caps_free False 72 h)) [[Blk 120 False False]]"
proof -
  obtain h where h: "heap_ok False (hp_mem h) (hp_regions h) [[Blk 16 True False, Blk 104 False False]]"
      "heap_reach False [new_region 64 128 4] (\<lambda>_. 0) h [(72, 8)]" using sample_alloc by blast
  have p: "places h = places sample_heap" using reach_live [OF h(2) sample_regions] by (auto simp: sample_heap_def)
  then have "hp_regions h \<noteq> []" and s: "start_addr (hp_regions h ! 0) = 64"
    using sample_init(2) by (auto simp: places_def list_all2_Cons1 same_place_def new_region_def)
  moreover from this have "region_first (hp_regions h ! 0) = 64"
    by (simp add: region_first_def HEAP_ALIGN_def align_up_def)
  ultimately show ?thesis
    using heap_free_coalesces [OF h(1), of 0 "[]" "Blk 16 True False" "[Blk 104 False False]" 72] h(1)
    by (auto simp: head_size_vals release_def)
qed

section \<open>The contract between an allocator and its clients\<close>

text \<open>What a client relies on: \<open>run\<close> relates a heap with the pointers handed out; blocks are apart, and
  the operations of the others leave what is stored in them alone.\<close>

locale allocator =
  fixes run :: "'h \<Rightarrow> (nat \<times> nat) list \<Rightarrow> bool"
    and load :: "'h \<Rightarrow> nat \<Rightarrow> nat \<Rightarrow> 'b list"
    and store :: "nat \<Rightarrow> 'b list \<Rightarrow> 'h \<Rightarrow> 'h"
    and alloc :: "nat \<Rightarrow> 'h \<Rightarrow> (nat \<times> 'h) option"
    and release :: "nat \<Rightarrow> 'h \<Rightarrow> 'h"
  assumes separate: "run h L \<Longrightarrow> mset L = add_mset (q, n) (add_mset (q', n') M) \<Longrightarrow> q + n \<le> q' \<or> q' + n' \<le> q"
    and stored: "run h L \<Longrightarrow> (q, n) \<in> set L \<Longrightarrow> length ds \<le> n \<Longrightarrow> run (store q ds h) L"
    and load_store: "k = length ds \<Longrightarrow> load (store q ds h) q k = ds"
    and load_other: "q' + n' \<le> q \<or> q + length ds \<le> q' \<Longrightarrow> load (store q ds h) q' n' = load h q' n'"
    and allocated: "run h L \<Longrightarrow> alloc n h = Some (q, h') \<Longrightarrow> run h' ((q, n) # L)"
    and alloc_keeps: "run h L \<Longrightarrow> alloc n h = Some (q, h') \<Longrightarrow> (q', n') \<in> set L \<Longrightarrow> load h' q' n' = load h q' n'"
    and released: "run h L \<Longrightarrow> (q, n) \<in> set L \<Longrightarrow> run (release q h) (remove1 (q, n) L)"
    and release_keeps: "run h L \<Longrightarrow> (q, n) \<in> set L \<Longrightarrow> (q', n') \<in> set L \<Longrightarrow> load (release q h) q' n' = load h q' n'"
begin

lemma store_private:
  assumes "run h L" "mset L = add_mset (q, n) (add_mset (q', n') M)" "length ds \<le> n"
  shows "load (store q ds h) q' n' = load h q' n'"
  using separate [OF assms(1,2)] assms(3) by (intro load_other) auto

text \<open>A client that allocates a block and fills it finds its data there after any other block was given
  back.\<close>

lemma survives_release:
  assumes "run h L" "alloc (length ds) h = Some (q, h')" "(q', n') \<in> set L"
  shows "load (release q' (store q ds h')) q (length ds) = ds"
proof -
  have r: "run (store q ds h') ((q, length ds) # L)"
    using allocated [OF assms(1,2)] by (intro stored [where n = "length ds"]) simp_all
  have "load (release q' (store q ds h')) q (length ds) = load (store q ds h') q (length ds)"
    by (rule release_keeps [OF r, of q' n' q "length ds"]) (use assms(3) in simp_all)
  then show ?thesis by (simp add: load_store)
qed

text \<open>And its own allocation does not disturb the blocks of the others.\<close>

lemma fill_keeps_others:
  assumes "run h L" "alloc (length ds) h = Some (q, h')" "(q', n') \<in> set L"
  shows "load (store q ds h') q' n' = load h q' n'"
proof -
  have r: "run h' ((q, length ds) # L)" by (rule allocated [OF assms(1,2)])
  have "mset ((q, length ds) # L) = add_mset (q, length ds) (add_mset (q', n') (mset (remove1 (q', n') L)))"
    using assms(3) by simp
  then have "load (store q ds h') q' n' = load h' q' n'" by (rule store_private [OF r]) simp
  then show ?thesis using alloc_keeps [OF assms] by simp
qed

end

text \<open>The heap allocator of the code as such an allocator, for requests that do not wrap.\<close>

definition heap_run :: "bool \<Rightarrow> heap_region list \<Rightarrow> memory \<Rightarrow> heap \<Rightarrow> (nat \<times> nat) list \<Rightarrow> bool" where
  "heap_run t rs m h L \<longleftrightarrow> regions_ok rs \<and> heap_reach t rs m h L"

definition heap_alloc :: "bool \<Rightarrow> u32 \<Rightarrow> nat \<Rightarrow> heap \<Rightarrow> (nat \<times> heap) option" where
  "heap_alloc t caps sz h =
     (if sz \<le> max_request
      then case heap_caps_malloc t sz caps 0 0 h of Some (Some q, h') \<Rightarrow> Some (q, h') | _ \<Rightarrow> None
      else None)"

definition heap_store :: "nat \<Rightarrow> u8 list \<Rightarrow> heap \<Rightarrow> heap" where
  "heap_store q ds h = h\<lparr>hp_mem := mcpy (hp_mem h) q ds\<rparr>"

lemma heap_run_live: "heap_run t rs m h L \<Longrightarrow> \<exists>bss. live_ok t h bss L"
  using reach_live by (auto simp: heap_run_def)

lemma heap_alloc_some:
  "heap_alloc t caps n h = Some (q, h') \<Longrightarrow> n \<le> max_request \<and> heap_caps_malloc t n caps 0 0 h = Some (Some q, h')"
  by (auto simp: heap_alloc_def split: if_splits option.splits)

interpretation hp: allocator "heap_run t rs m" "\<lambda>h. mget (hp_mem h)" heap_store "heap_alloc t caps" "heap_caps_free t"
proof (unfold_locales, goal_cases)
  case (1 h L q n q' n' M)
  then show ?case using heap_run_live live_apart by (meson less_imp_le)
next
  case (2 h L q n ds)
  then show ?case unfolding heap_run_def heap_store_def
    by (auto intro: heap_reach.client_write [where q = q and n = n])
next
  case (3 k ds q h)
  then show ?case by (simp add: heap_store_def mget_mcpy_same)
next
  case (4 q' n' q ds h)
  then show ?case by (simp add: heap_store_def mget_mcpy_disjoint)
next
  case (5 h L n q h')
  then show ?case using heap_reach.malloc heap_alloc_some unfolding heap_run_def by blast
next
  case (6 h L n q h' q' n')
  obtain bss where l: "live_ok t h bss L" using heap_run_live [OF 6(1)] by blast
  note a = heap_alloc_some [OF 6(2)]
  have "keeps L (hp_mem h) (hp_mem h')"
    using malloc_live [OF l fits_max [OF conjunct1 [OF a]], of caps 0 0] a by auto
  then show ?case using 6(3) by (rule keeps_nth)
next
  case (7 h L q n)
  then show ?case using heap_reach.release unfolding heap_run_def by blast
next
  case (8 h L q n q' n')
  obtain bss where l: "live_ok t h bss L" using heap_run_live [OF 8(1)] by blast
  have "mset L = add_mset (q, n) (mset (remove1 (q, n) L))" using 8(2) by simp
  from free_live [OF l this] show ?case using keeps_nth [OF _ 8(3)] by blast
qed

section \<open>Every reachable heap\<close>

lemma mset_two:
  assumes "i < j" "j < length L"
  obtains M where "mset L = add_mset (L ! i) (add_mset (L ! j) M)"
proof -
  have L: "L = take i L @ L ! i # drop (Suc i) L" using assms by (simp add: id_take_nth_drop)
  have "drop (Suc i) L ! (j - Suc i) = L ! j" "j - Suc i < length (drop (Suc i) L)" using assms by simp_all
  then have "L ! j \<in> set (drop (Suc i) L)" by (metis nth_mem)
  then obtain K where "mset (drop (Suc i) L) = add_mset (L ! j) K" by (metis multi_member_split set_mset_mset)
  moreover have "mset L = mset (take i L) + add_mset (L ! i) (mset (drop (Suc i) L))"
    by (subst L) simp
  ultimately show ?thesis using that [of "mset (take i L) + K"] by simp
qed

lemma places_nth:
  assumes "heap_reach t rs m h L" "regions_ok rs" "i < length (hp_regions h)"
  shows "\<exists>r \<in> set rs. start_addr r = start_addr (hp_regions h ! i) \<and> total_size r = total_size (hp_regions h ! i)"
proof -
  let ?h0 = "esp_heap_caps_init_region t rs m"
  have "places h = places ?h0" using reach_live [OF assms(1,2)] by blast
  moreover have "list_all2 same_place rs (hp_regions ?h0)" by (rule init_live(2) [OF assms(2)])
  ultimately have "length rs = length (hp_regions h)" "same_place (rs ! i) (hp_regions h ! i)"
    using assms(3) by (auto simp: places_def list_all2_conv_all_nth list_eq_iff_nth_eq same_place_def)
  then show ?thesis using assms(3) by (intro bexI [of _ "rs ! i"]) (auto simp: same_place_def)
qed

text \<open>C16: In every heap that any sequence of allocations, releases, reallocations, trace-mode changes and
  client writes reaches from initialisation, every held block is aligned to four bytes and lies inside one of
  the regions, behind its header, and it does not overlap any other held block (headers lie between them).\<close>

theorem heap_blocks_apart:
  assumes "regions_ok rs" "heap_reach t rs m h L" "i < length L"
  shows "4 dvd fst (L ! i)
    \<and> (\<exists>r \<in> set rs. start_addr r < fst (L ! i) \<and> fst (L ! i) + snd (L ! i) + 8 \<le> start_addr r + total_size r)
    \<and> (\<forall>j < length L. j \<noteq> i \<longrightarrow>
         fst (L ! i) + snd (L ! i) < fst (L ! j) \<or> fst (L ! j) + snd (L ! j) < fst (L ! i))"
proof (intro conjI allI impI)
  obtain bss where l: "live_ok t h bss L" using reach_live [OF assms(2,1)] by blast
  obtain q n where qn: "L ! i = (q, n)" by fastforce
  show "fst (L ! i) + snd (L ! i) < fst (L ! j) \<or> fst (L ! j) + snd (L ! j) < fst (L ! i)"
    if j: "j < length L" "j \<noteq> i" for j
  proof (cases "i < j")
    case True
    obtain M where "mset L = add_mset (L ! i) (add_mset (L ! j) M)" using mset_two [OF True j(1)] .
    then show ?thesis using live_apart [OF l, of q n "fst (L ! j)" "snd (L ! j)"] qn by simp
  next
    case False
    then have "j < i" using j(2) by simp
    obtain M where "mset L = add_mset (L ! j) (add_mset (L ! i) M)" using mset_two [OF \<open>j < i\<close> assms(3)] .
    then show ?thesis using live_apart [OF l, of "fst (L ! j)" "snd (L ! j)" q n] qn by auto
  qed
  have "(q, n) \<in> set L" using assms(3) qn nth_mem [of i L] by simp
  from live_block [OF l this] obtain k pre b post where b: "k < length (hp_regions h)" "bss ! k = pre @ b # post"
      "q = bend (region_first (hp_regions h ! k)) pre + mem_blk_head_size t (bk_traced b)"
      "q + n \<le> bend (region_first (hp_regions h ! k)) pre + bk_size b" by metis
  note hb = heap_block [OF live_ok_heap [OF l] b(1,2)]
  show "4 dvd fst (L ! i)" using hb(6) b(3) qn by (auto simp: head_size_vals)
  obtain r where "r \<in> set rs" "start_addr r = start_addr (hp_regions h ! k)" "total_size r = total_size (hp_regions h ! k)"
    using places_nth [OF assms(2,1) b(1)] by blast
  then show "\<exists>r \<in> set rs. start_addr r < fst (L ! i) \<and> fst (L ! i) + snd (L ! i) + 8 \<le> start_addr r + total_size r"
    using hb(1,2) b(3,4) qn head_ge_8 [of t "bk_traced b"] by (intro bexI [of _ r]) auto
qed

text \<open>C17: Memory belongs to its holder: data stored in a fresh block is still there after any other block
  was given back, and storing it changed no byte of any other block.\<close>

theorem heap_client_data_safe:
  assumes "regions_ok rs" "heap_reach t rs m h L" "heap_alloc t caps (length ds) h = Some (q, h')"
    "(q', n') \<in> set L"
  shows "mget (hp_mem (heap_caps_free t q' (heap_store q ds h'))) q (length ds) = ds
    \<and> mget (hp_mem (heap_store q ds h')) q' n' = mget (hp_mem h) q' n'"
proof -
  have "heap_run t rs m h L" using assms(1,2) by (simp add: heap_run_def)
  from hp.survives_release [OF this assms(3,4)] hp.fill_keeps_others [OF this assms(3,4)] show ?thesis ..
qed

text \<open>C32: In a reachable heap heap_caps_realloc of a held block, for a size of at most \<open>max_request\<close> (0xFFFFFFEC) bytes, always
  returns.  Either it fails, and then nothing at all has changed and the old block stays held; or it returns
  a block of the requested size, the bytes up to the smaller of the two sizes are those of the old block,
  the old block has been given back, and the contents of every other held block are what they were.\<close>

theorem heap_realloc_keeps:
  assumes "regions_ok rs" "heap_reach t rs m h L" "(q, n) \<in> set L" "sz \<le> max_request"
  shows "heap_caps_realloc t q sz caps fl ln h = Some (None, h)
    \<or> (\<exists>a h'. heap_caps_realloc t q sz caps fl ln h = Some (Some a, h')
        \<and> heap_reach t rs m h' ((a, sz) # remove1 (q, n) L)
        \<and> mget (hp_mem h') a (min sz n) = mget (hp_mem h) q (min sz n)
        \<and> keeps (remove1 (q, n) L) (hp_mem h) (hp_mem h'))"
proof -
  obtain bss where l: "live_ok t h bss L" using reach_live [OF assms(2,1)] by blast
  from realloc_live [OF l assms(3) fits_max [OF assms(4)], of caps fl ln] show ?thesis
    using heap_reach.realloc [OF assms(2,3,4)] by blast
qed

lemma allocs_empty:
  assumes "allocs t rs bss = []" "i < length rs" "length rs = length bss"
  shows "used_blks t (region_first (rs ! i)) (bss ! i) = []"
  using assms by (force simp: allocs_def set_zip)

lemma no_used: "used_blks t p bs = [] \<Longrightarrow> \<forall>b \<in> set bs. \<not> bk_used b"
  by (induction bs arbitrary: p) (auto split: if_splits)

lemma one_block:
  assumes r: "region_ok t m r bs" and u: "used_blks t (region_first r) bs = []"
  shows "free_bytes r = region_end r - region_first r" "free_blk r = region_first r"
    "\<exists>b. bs = [b] \<and> \<not> bk_used b"
proof -
  have wf: "region_wf r" and e: "bend (region_first r) bs = region_end r" and na: "no_adj bs"
    and fs: "free_bytes r = free_sum bs" "free_blk r = bend (region_first r) (takeWhile bk_used bs)"
    using r by (simp_all add: region_ok_def)
  have un: "\<forall>b \<in> set bs. \<not> bk_used b" by (rule no_used [OF u])
  have "bs \<noteq> []" using e region_geometry(5) [OF wf] by auto
  then obtain b cs where b: "bs = b # cs" by (cases bs) auto
  have "cs = []" using na un b by (cases cs) auto
  then show "free_bytes r = region_end r - region_first r" "free_blk r = region_first r" "\<exists>b. bs = [b] \<and> \<not> bk_used b"
    using b e un fs by auto
qed

text \<open>The header of the one block of a region in which nothing is held.\<close>

lemma one_block_head:
  assumes r: "region_ok t m r bs" and u: "used_blks t (region_first r) bs = []"
  shows "mem_blk_next t m (region_first r) = region_end r \<and> \<not> mem_blk_is_used m (region_first r)
    \<and> \<not> mem_blk_is_end t m (region_first r) \<and> mem_blk_is_end t m (region_end r)
    \<and> mem_blk_prev m (region_end r) = region_first r"
proof -
  obtain b where b: "bs = [b]" "\<not> bk_used b" using one_block(3) [OF r u] by blast
  have wf: "region_wf r" and c: "chain t m 0 (region_first r) [b]" and e: "region_first r + bk_size b = region_end r"
    using r b(1) unfolding region_ok_def by (simp_all only: bend.simps simp_thms)
  note g = region_geometry [OF wf]
  have "head_ok t m 0 (region_first r) b" and en: "chain t m (region_first r) (region_end r) []"
    using c e [symmetric] by simp_all
  from head_get(2-4) [OF this(1)] end_get(1,4) [OF en] g e b(2) show ?thesis by simp
qed

text \<open>C18: Nothing is lost: in a reachable heap in which everything was given back, every region is again
  one free block: the header at its first address is not in use and links to the end block, which links
  back to it; the region's free pointer is that block, and its free size is the whole region, as after
  initialisation.\<close>

theorem heap_all_freed:
  assumes "regions_ok rs" "heap_reach t rs m h []"
  shows "length (hp_regions h) = length rs
    \<and> (\<forall>i < length rs. free_blk (hp_regions h ! i) = region_first (rs ! i)
         \<and> free_bytes (hp_regions h ! i) = region_end (rs ! i) - region_first (rs ! i)
         \<and> mem_blk_next t (hp_mem h) (region_first (rs ! i)) = region_end (rs ! i)
         \<and> \<not> mem_blk_is_used (hp_mem h) (region_first (rs ! i))
         \<and> \<not> mem_blk_is_end t (hp_mem h) (region_first (rs ! i))
         \<and> mem_blk_is_end t (hp_mem h) (region_end (rs ! i))
         \<and> mem_blk_prev (hp_mem h) (region_end (rs ! i)) = region_first (rs ! i))"
proof -
  let ?h0 = "esp_heap_caps_init_region t rs m"
  obtain bss where l: "live_ok t h bss []" and "places h = places ?h0" using reach_live [OF assms(2,1)] by blast
  moreover have "list_all2 same_place rs (hp_regions ?h0)" by (rule init_live(2) [OF assms(1)])
  ultimately have len: "length (hp_regions h) = length rs"
    and sp: "\<And>i. i < length rs \<Longrightarrow> same_place (rs ! i) (hp_regions h ! i)"
    by (auto simp: places_def list_all2_conv_all_nth list_eq_iff_nth_eq same_place_def)
  have em: "allocs t (hp_regions h) bss = []" using l by (simp add: live_ok_def)
  show ?thesis
  proof (rule conjI [OF len], rule allI, rule impI)
    fix i assume i: "i < length rs"
    then have ih: "i < length (hp_regions h)" using len by simp
    note ok = heap_ok_nth [OF live_ok_heap [OF l] ih]
    have u: "used_blks t (region_first (hp_regions h ! i)) (bss ! i) = []"
      using em ih ok(2) by (intro allocs_empty) simp_all
    have g: "region_first (hp_regions h ! i) = region_first (rs ! i)" "region_end (hp_regions h ! i) = region_end (rs ! i)"
      using sp [OF i] by (simp_all add: same_place_def region_first_def region_end_def)
    show "free_blk (hp_regions h ! i) = region_first (rs ! i)
         \<and> free_bytes (hp_regions h ! i) = region_end (rs ! i) - region_first (rs ! i)
         \<and> mem_blk_next t (hp_mem h) (region_first (rs ! i)) = region_end (rs ! i)
         \<and> \<not> mem_blk_is_used (hp_mem h) (region_first (rs ! i))
         \<and> \<not> mem_blk_is_end t (hp_mem h) (region_first (rs ! i))
         \<and> mem_blk_is_end t (hp_mem h) (region_end (rs ! i))
         \<and> mem_blk_prev (hp_mem h) (region_end (rs ! i)) = region_first (rs ! i)"
      using one_block(1,2) [OF ok(1) u] one_block_head [OF ok(1) u] by (simp add: g)
  qed
qed

section \<open>Requests that wrap\<close>

text \<open>ptr2memblk_size adds the header size without a check.  A request for the last three sizes below
  4 GiB is therefore handled exactly as a request for no bytes at all (it succeeds with an empty block
  whenever 8 bytes are free), and heap_caps_calloc multiplies without a check: for a product of exactly
  4 GiB it is the allocation of an empty block, although the caller owns count * size bytes.\<close>

theorem heap_malloc_wraps:
  assumes "0xFFFFFFFD \<le> sz" "sz < 2 ^ 32" "\<not> (t \<and> leaks h)" "cnt * esz = 2 ^ 32"
  shows "heap_caps_malloc t sz caps fl ln h = heap_caps_malloc t 0 caps fl ln h
    \<and> heap_caps_calloc t cnt esz caps fl ln h = heap_caps_malloc t 0 caps fl ln h"
proof -
  have "sz = 4294967293 \<or> sz = 4294967294 \<or> sz = 4294967295" using assms(1,2) by auto
  then have n: "ptr2memblk_size t sz False = ptr2memblk_size t 0 False"
    by (elim disjE) (simp_all add: ptr2memblk_size_def mem_blk_head_size_def MEM_HEAD_SIZE_def HEAP_ALIGN_def align_up_def)
  have "malloc_region t False sz fl ln r m = malloc_region t False 0 fl ln r m" for r m
    unfolding malloc_region_def n ..
  then have l: "malloc_loop t False sz caps fl ln rs m = malloc_loop t False 0 caps fl ln rs m" for rs m
    by (induction rs arbitrary: m) (auto split: option.splits)
  have *: "map_option (\<lambda>(p, h'). (p, memset0 p 0 h')) x = x" for x
    by (cases x) (auto simp: memset0_def split: option.splits)
  have f: "(t \<and> leaks h) = False" using assms(3) by simp
  have "heap_caps_malloc t sz caps fl ln h = heap_caps_malloc t 0 caps fl ln h"
    unfolding heap_caps_malloc_def f l ..
  then show ?thesis using * assms(4) by (simp add: heap_caps_calloc_def)
qed

theorem heap_malloc_wraps_witness:
  "heap_caps_malloc False 0xFFFFFFFF 4 0 0 sample_heap = heap_caps_malloc False 0 4 0 0 sample_heap
    \<and> heap_caps_calloc False 65536 65536 4 0 0 sample_heap = heap_caps_malloc False 0 4 0 0 sample_heap"
  by (rule heap_malloc_wraps) simp_all

section \<open>Two blocks\<close>

lemma sample_place2:
  assumes "places h = places sample_heap"
  shows "place_all False False (ptr2memblk_size False 8 False) 4 (hp_regions h) [[Blk 16 True False, Blk 104 False False]]
    = Some (88, [[Blk 16 True False, Blk 16 True False, Blk 88 False False]])"
proof -
  obtain r where r: "hp_regions h = [r]" "start_addr r = 64" "hr_caps r = 4"
    using sample_init(2) assms by (auto simp: places_def list_all2_Cons1 same_place_def new_region_def)
  have "ptr2memblk_size False 8 False = 16"
    by (simp add: ptr2memblk_size_def head_size_vals HEAP_ALIGN_def align_up_def)
  then show ?thesis using r
    by (simp add: taken_def head_size_vals MEM_BLK_MIN_def has_caps_def region_first_def HEAP_ALIGN_def align_up_def)
qed

lemma sample_two:
  obtains h where "heap_reach False [new_region 64 128 4] (\<lambda>_. 0) h [(88, 8), (72, 8)]"
proof -
  obtain h where h: "heap_ok False (hp_mem h) (hp_regions h) [[Blk 16 True False, Blk 104 False False]]"
      "heap_reach False [new_region 64 128 4] (\<lambda>_. 0) h [(72, 8)]" using sample_alloc by blast
  have p: "places h = places sample_heap" using reach_live [OF h(2) sample_regions] by (auto simp: sample_heap_def)
  have f: "fits False (False \<and> leaks h) 8" by (simp add: fits_def head_size_vals)
  obtain h' where "heap_caps_malloc False 8 4 0 0 h = Some (Some 88, h')"
    using malloc_places [OF h(1) f, of 4 0 0] by (auto simp: sample_place2 [OF p])
  then have "heap_reach False [new_region 64 128 4] (\<lambda>_. 0) h' [(88, 8), (72, 8)]"
    by (intro heap_reach.malloc [OF h(2)]) (simp_all add: max_request_def)
  then show ?thesis by (rule that)
qed

theorem heap_blocks_apart_witness:
  "\<exists>h. heap_reach False [new_region 64 128 4] (\<lambda>_. 0) h [(88, 8), (72, 8)] \<and> 4 dvd (88::nat)
    \<and> (\<exists>r \<in> set [new_region 64 128 4]. start_addr r < 88 \<and> 88 + 8 + 8 \<le> start_addr r + total_size r)
    \<and> (88 + 8 < (72::nat) \<or> 72 + 8 < (88::nat))"
proof -
  obtain h where h: "heap_reach False [new_region 64 128 4] (\<lambda>_. 0) h [(88, 8), (72, 8)]" by (rule sample_two)
  from heap_blocks_apart [OF sample_regions h, of 0] h show ?thesis
    by (intro exI [of _ h]) (auto dest: spec [of _ "1::nat"])
qed

theorem heap_client_data_safe_witness:
  "\<exists>h h'. heap_alloc False 4 (length [1, 2, 3, 4, 5, 6, 7, 8::u8]) h = Some (88, h')
    \<and> mget (hp_mem (heap_caps_free False 72 (heap_store 88 [1, 2, 3, 4, 5, 6, 7, 8] h'))) 88 8 = [1, 2, 3, 4, 5, 6, 7, 8]"
proof -
  obtain h where h: "heap_ok False (hp_mem h) (hp_regions h) [[Blk 16 True False, Blk 104 False False]]"
      "heap_reach False [new_region 64 128 4] (\<lambda>_. 0) h [(72, 8)]" using sample_alloc by blast
  have p: "places h = places sample_heap" using reach_live [OF h(2) sample_regions] by (auto simp: sample_heap_def)
  have f: "fits False (False \<and> leaks h) 8" by (simp add: fits_def head_size_vals)
  obtain h' where "heap_caps_malloc False 8 4 0 0 h = Some (Some 88, h')"
    using malloc_places [OF h(1) f, of 4 0 0] by (auto simp: sample_place2 [OF p])
  then have a: "heap_alloc False 4 (length [1, 2, 3, 4, 5, 6, 7, 8::u8]) h = Some (88, h')"
  proof -
    have n: "length [1, 2, 3, 4, 5, 6, 7, 8::u8] = 8" by simp
    show ?thesis using \<open>heap_caps_malloc False 8 4 0 0 h = Some (Some 88, h')\<close>
      unfolding heap_alloc_def n max_request_def by simp
  qed
  moreover from heap_client_data_safe [OF sample_regions h(2) a, of 72 8]
  have "mget (hp_mem (heap_caps_free False 72 (heap_store 88 [1, 2, 3, 4, 5, 6, 7, 8] h'))) 88 8 = [1, 2, 3, 4, 5, 6, 7, 8]"
    by (simp add: numeral_eq_Suc)
  ultimately show ?thesis by blast
qed

theorem heap_realloc_keeps_witness:
  "\<exists>h. heap_caps_realloc False 72 16 4 0 0 h = Some (None, h)
    \<or> (\<exists>a h'. heap_caps_realloc False 72 16 4 0 0 h = Some (Some a, h') \<and> mget (hp_mem h') a 8 = mget (hp_mem h) 72 8)"
proof -
  obtain h where h: "heap_reach False [new_region 64 128 4] (\<lambda>_. 0) h [(88, 8), (72, 8)]" by (rule sample_two)
  have "(72, 8) \<in> set [(88, 8), (72::nat, 8::nat)]" "16 \<le> max_request" by (simp_all add: max_request_def)
  from heap_realloc_keeps [OF sample_regions h this, of 4 0 0] show ?thesis by auto
qed

theorem heap_all_freed_witness:
  "\<exists>h. heap_reach False [new_region 64 128 4] (\<lambda>_. 0) h [] \<and> map free_bytes (hp_regions h) = [120]
    \<and> mem_blk_next False (hp_mem h) 64 = 184 \<and> \<not> mem_blk_is_used (hp_mem h) 64 \<and> mem_blk_is_end False (hp_mem h) 184"
proof -
  obtain h where "heap_reach False [new_region 64 128 4] (\<lambda>_. 0) h [(88, 8), (72, 8)]" by (rule sample_two)
  from heap_reach.release [OF heap_reach.release [OF this, of 88 8], of 72 8]
  obtain h' where h: "heap_reach False [new_region 64 128 4] (\<lambda>_. 0) h' []" by auto
  from heap_all_freed [OF sample_regions h] h show ?thesis
    by (intro exI [of _ h']) (auto simp: sample_bounds length_Suc_conv)
qed

end
