(* ===== verification/EventLoop.thy ===== *)
theory EventLoop
  imports Prelude
begin

text \<open>
  The event loop library, \<open>components/esp_event/esp_event.c\<close>: the tree in which a loop keeps its handlers,
  registration and unregistration, posting, dispatching and deletion, with the default loop of
  \<open>default_event_loop.c\<close>.  The lists of \<open>sys/queue.h\<close> are lists of nodes; the kernel's queue is a list of
  at most \<open>queue_size\<close> posts.

  Each call of \<open>calloc\<close> may fail; one registration asks for at most one node of each kind, so its outcome is
  the predicate \<open>mem\<close> on kinds.  The counter \<open>live_blocks\<close> stands for the heap: the number of blocks the library
  holds, raised by \<open>calloc\<close> and lowered by \<open>free\<close>.  \<open>None\<close> is a crash.  Every call runs under the
  loop's recursive mutex, so that calls are atomic; a handler may post to the loop it runs in, and handlers
  that change the registrations while they are dispatched are outside the model.
\<close>

section \<open>Data\<close>

text \<open>An event base is a pointer to a string: null, the library's own string \<open>any\<close>, or another address.\<close>

datatype event_base = ESP_EVENT_ANY_BASE | esp_event_any_base | Base nat

definition ESP_EVENT_ANY_ID :: int where "ESP_EVENT_ANY_ID = -1"

record handler_instance =
  hi_handler :: nat
  hi_arg :: nat

record id_node =
  id_id :: int
  id_handlers :: "handler_instance list"

record base_node =
  bn_base :: event_base
  bn_handlers :: "handler_instance list"
  bn_ids :: "id_node list"

record loop_node =
  ln_handlers :: "handler_instance list"
  ln_bases :: "base_node list"

record event_post =
  post_base :: event_base
  post_id :: int
  data_allocated :: bool
  post_data :: "u8 list option"

record event_loop =
  queue_size :: nat
  queue :: "event_post list"
  loop_task :: "nat option"
  running_task :: "nat option"
  loop_nodes :: "loop_node list"
  live_blocks :: int

datatype alloc_kind = LoopNode | BaseNode | IdNode | Handler

type_synonym mem = "alloc_kind \<Rightarrow> bool"

section \<open>Registration\<close>

text \<open>\<open>SLIST_FOREACH\<close> with a pointer to the last element that matches, or that is looked at.\<close>

fun find_last :: "('a \<Rightarrow> bool) \<Rightarrow> 'a list \<Rightarrow> nat option" where
  "find_last P [] = None"
| "find_last P (x # xs) =
     (case find_last P xs of Some i \<Rightarrow> Some (Suc i) | None \<Rightarrow> if P x then Some 0 else None)"

fun overwrite_arg :: "handler_instance list \<Rightarrow> nat \<Rightarrow> nat \<Rightarrow> handler_instance list option" where
  "overwrite_arg [] handler arg = None"
| "overwrite_arg (it # its) handler arg =
     (if hi_handler it = handler then Some (it\<lparr>hi_arg := arg\<rparr> # its)
      else map_option ((#) it) (overwrite_arg its handler arg))"

definition handler_instances_add ::
  "mem \<Rightarrow> handler_instance list \<Rightarrow> nat \<Rightarrow> nat \<Rightarrow> int \<Rightarrow> esp_err \<times> handler_instance list \<times> int" where
  "handler_instances_add mem handlers handler arg live =
     (if \<not> mem Handler then (ESP_ERR_NO_MEM, handlers, live)
      else
        let live = live + 1; inst = \<lparr>hi_handler = handler, hi_arg = arg\<rparr> in
        case overwrite_arg handlers handler arg of
          Some handlers \<Rightarrow> (ESP_OK, handlers, live - 1)
        | None \<Rightarrow> (ESP_OK, handlers @ [inst], live))"

definition base_node_add_handler ::
  "mem \<Rightarrow> base_node \<Rightarrow> int \<Rightarrow> nat \<Rightarrow> nat \<Rightarrow> int \<Rightarrow> esp_err \<times> base_node \<times> int" where
  "base_node_add_handler mem bn eid handler arg live =
     (if eid = ESP_EVENT_ANY_ID then
        (case handler_instances_add mem (bn_handlers bn) handler arg live of
          (err, hs, live) \<Rightarrow> (err, bn\<lparr>bn_handlers := hs\<rparr>, live))
      else case find_last (\<lambda>it. id_id it = eid) (bn_ids bn) of
        None \<Rightarrow>
          if \<not> mem IdNode then (ESP_ERR_NO_MEM, bn, live)
          else
            (case handler_instances_add mem [] handler arg (live + 1) of (err, hs, live) \<Rightarrow>
              if err = ESP_OK
              then (err, bn\<lparr>bn_ids := bn_ids bn @ [\<lparr>id_id = eid, id_handlers = hs\<rparr>]\<rparr>, live)
              else (err, bn, live - 1))
      | Some i \<Rightarrow>
          (case handler_instances_add mem (id_handlers (bn_ids bn ! i)) handler arg live of
            (err, hs, live) \<Rightarrow> (err, bn\<lparr>bn_ids := (bn_ids bn)[i := (bn_ids bn ! i)\<lparr>id_handlers := hs\<rparr>]\<rparr>, live)))"

definition new_base_needed :: "base_node list \<Rightarrow> event_base \<Rightarrow> int \<Rightarrow> bool" where
  "new_base_needed bns base eid \<longleftrightarrow>
     (case find_last (\<lambda>it. bn_base it = base) bns of
        None \<Rightarrow> True
      | Some i \<Rightarrow> bn_ids (bns ! i) \<noteq> [] \<and> eid = ESP_EVENT_ANY_ID
          \<or> bn_base (last bns) \<noteq> base \<and> bn_ids (last bns) \<noteq> [] \<and> eid = ESP_EVENT_ANY_ID)"

definition loop_node_add_handler ::
  "mem \<Rightarrow> loop_node \<Rightarrow> event_base \<Rightarrow> int \<Rightarrow> nat \<Rightarrow> nat \<Rightarrow> int \<Rightarrow> esp_err \<times> loop_node \<times> int" where
  "loop_node_add_handler mem ln base eid handler arg live =
     (if base = esp_event_any_base \<and> eid = ESP_EVENT_ANY_ID then
        (case handler_instances_add mem (ln_handlers ln) handler arg live of
          (err, hs, live) \<Rightarrow> (err, ln\<lparr>ln_handlers := hs\<rparr>, live))
      else if new_base_needed (ln_bases ln) base eid then
        if \<not> mem BaseNode then (ESP_ERR_NO_MEM, ln, live)
        else
          (case base_node_add_handler mem \<lparr>bn_base = base, bn_handlers = [], bn_ids = []\<rparr> eid handler arg (live + 1) of
            (err, bn, live) \<Rightarrow>
              if err = ESP_OK then (err, ln\<lparr>ln_bases := ln_bases ln @ [bn]\<rparr>, live)
              else (err, ln, live - 1))
      else
        let i = the (find_last (\<lambda>it. bn_base it = base) (ln_bases ln)) in
        (case base_node_add_handler mem (ln_bases ln ! i) eid handler arg live of
          (err, bn, live) \<Rightarrow> (err, ln\<lparr>ln_bases := (ln_bases ln)[i := bn]\<rparr>, live)))"

definition esp_event_handler_register_with ::
  "mem \<Rightarrow> event_loop \<Rightarrow> event_base \<Rightarrow> int \<Rightarrow> nat \<Rightarrow> nat \<Rightarrow> (esp_err \<times> event_loop) option" where
  "esp_event_handler_register_with mem l base eid handler arg =
     (if base = ESP_EVENT_ANY_BASE \<and> eid \<noteq> ESP_EVENT_ANY_ID then Some (ESP_ERR_INVALID_ARG, l)
      else
        let base = (if base = ESP_EVENT_ANY_BASE then esp_event_any_base else base);
            is_loop_level = (base = esp_event_any_base \<and> eid = ESP_EVENT_ANY_ID);
            lns = loop_nodes l in
        if lns = [] \<or> (ln_bases (last lns) \<noteq> [] \<and> is_loop_level) then
          if \<not> mem LoopNode then None
          else
            (case loop_node_add_handler mem \<lparr>ln_handlers = [], ln_bases = []\<rparr> base eid handler arg (live_blocks l + 1) of
              (err, ln, live) \<Rightarrow>
                if err = ESP_OK then Some (err, l\<lparr>loop_nodes := lns @ [ln], live_blocks := live\<rparr>)
                else Some (err, l\<lparr>live_blocks := live - 1\<rparr>))
        else
          (case loop_node_add_handler mem (last lns) base eid handler arg (live_blocks l) of
            (err, ln, live) \<Rightarrow> Some (err, l\<lparr>loop_nodes := butlast lns @ [ln], live_blocks := live\<rparr>)))"

section \<open>Unregistration\<close>

fun handler_instances_remove ::
  "handler_instance list \<Rightarrow> nat \<Rightarrow> int \<Rightarrow> esp_err \<times> handler_instance list \<times> int" where
  "handler_instances_remove [] handler live = (ESP_ERR_NOT_FOUND, [], live)"
| "handler_instances_remove (it # its) handler live =
     (if hi_handler it = handler then (ESP_OK, its, live - 1)
      else case handler_instances_remove its handler live of (err, its, live) \<Rightarrow> (err, it # its, live))"

fun ids_remove :: "id_node list \<Rightarrow> int \<Rightarrow> nat \<Rightarrow> int \<Rightarrow> esp_err \<times> id_node list \<times> int" where
  "ids_remove [] eid handler live = (ESP_ERR_NOT_FOUND, [], live)"
| "ids_remove (it # its) eid handler live =
     (if id_id it = eid then
        (case handler_instances_remove (id_handlers it) handler live of (res, hs, live) \<Rightarrow>
          if res = ESP_OK \<and> hs = [] then (ESP_OK, its, live - 1)
          else case ids_remove its eid handler live of (err, its, live) \<Rightarrow> (err, it\<lparr>id_handlers := hs\<rparr> # its, live))
      else case ids_remove its eid handler live of (err, its, live) \<Rightarrow> (err, it # its, live))"

definition base_node_remove_handler ::
  "base_node \<Rightarrow> int \<Rightarrow> nat \<Rightarrow> int \<Rightarrow> esp_err \<times> base_node \<times> int" where
  "base_node_remove_handler bn eid handler live =
     (if eid = ESP_EVENT_ANY_ID then
        (case handler_instances_remove (bn_handlers bn) handler live of
          (err, hs, live) \<Rightarrow> (err, bn\<lparr>bn_handlers := hs\<rparr>, live))
      else case ids_remove (bn_ids bn) eid handler live of (err, ids, live) \<Rightarrow> (err, bn\<lparr>bn_ids := ids\<rparr>, live))"

fun bases_remove ::
  "base_node list \<Rightarrow> event_base \<Rightarrow> int \<Rightarrow> nat \<Rightarrow> int \<Rightarrow> esp_err \<times> base_node list \<times> int" where
  "bases_remove [] base eid handler live = (ESP_ERR_NOT_FOUND, [], live)"
| "bases_remove (it # its) base eid handler live =
     (if bn_base it = base then
        (case base_node_remove_handler it eid handler live of (res, bn, live) \<Rightarrow>
          if res = ESP_OK \<and> bn_handlers bn = [] \<and> bn_ids bn = [] then (ESP_OK, its, live - 1)
          else case bases_remove its base eid handler live of (err, its, live) \<Rightarrow> (err, bn # its, live))
      else case bases_remove its base eid handler live of (err, its, live) \<Rightarrow> (err, it # its, live))"

definition loop_node_remove_handler ::
  "loop_node \<Rightarrow> event_base \<Rightarrow> int \<Rightarrow> nat \<Rightarrow> int \<Rightarrow> esp_err \<times> loop_node \<times> int" where
  "loop_node_remove_handler ln base eid handler live =
     (if base = esp_event_any_base \<and> eid = ESP_EVENT_ANY_ID then
        (case handler_instances_remove (ln_handlers ln) handler live of
          (err, hs, live) \<Rightarrow> (err, ln\<lparr>ln_handlers := hs\<rparr>, live))
      else case bases_remove (ln_bases ln) base eid handler live of
        (err, bns, live) \<Rightarrow> (err, ln\<lparr>ln_bases := bns\<rparr>, live))"

fun loops_remove :: "loop_node list \<Rightarrow> event_base \<Rightarrow> int \<Rightarrow> nat \<Rightarrow> int \<Rightarrow> loop_node list \<times> int" where
  "loops_remove [] base eid handler live = ([], live)"
| "loops_remove (it # its) base eid handler live =
     (case loop_node_remove_handler it base eid handler live of (res, ln, live) \<Rightarrow>
       if res = ESP_OK \<and> ln_bases ln = [] \<and> ln_handlers ln = [] then (its, live - 1)
       else case loops_remove its base eid handler live of (its, live) \<Rightarrow> (ln # its, live))"

definition esp_event_handler_unregister_with ::
  "event_loop \<Rightarrow> event_base \<Rightarrow> int \<Rightarrow> nat \<Rightarrow> esp_err \<times> event_loop" where
  "esp_event_handler_unregister_with l base eid handler =
     (if base = ESP_EVENT_ANY_BASE \<and> eid \<noteq> ESP_EVENT_ANY_ID then (ESP_FAIL, l)
      else
        let base = (if base = ESP_EVENT_ANY_BASE then esp_event_any_base else base) in
        case loops_remove (loop_nodes l) base eid handler (live_blocks l) of
          (lns, live) \<Rightarrow> (ESP_OK, l\<lparr>loop_nodes := lns, live_blocks := live\<rparr>))"

section \<open>Posting\<close>

definition post_instance_delete :: "event_post \<Rightarrow> int \<Rightarrow> int" where
  "post_instance_delete p live = (if data_allocated p then live - 1 else live)"

text \<open>\<open>xQueueSendToBack\<close> after whatever waiting it did: the post is queued when there is room.\<close>

definition queue_send :: "event_loop \<Rightarrow> event_post \<Rightarrow> bool \<times> event_loop" where
  "queue_send l p = (if length (queue l) < queue_size l then (True, l\<lparr>queue := queue l @ [p]\<rparr>) else (False, l))"

text \<open>How long a post by task \<open>cur\<close> may wait for room in the queue.\<close>

definition post_ticks :: "event_loop \<Rightarrow> nat \<Rightarrow> nat \<Rightarrow> nat" where
  "post_ticks l cur ticks_to_wait =
     (case loop_task l of
        None \<Rightarrow> if running_task l \<noteq> Some cur then ticks_to_wait else 0
      | Some t \<Rightarrow> if t \<noteq> cur then ticks_to_wait else 0)"

text \<open>\<open>copy_ok\<close>: the copy of the data could be allocated; \<open>taken\<close>: the mutex of a loop without a task was
  got in time.\<close>

definition esp_event_post_to ::
  "bool \<Rightarrow> bool \<Rightarrow> event_loop \<Rightarrow> event_base \<Rightarrow> int \<Rightarrow> u8 list option \<Rightarrow> esp_err \<times> event_loop" where
  "esp_event_post_to copy_ok taken l base eid data =
     (if base = ESP_EVENT_ANY_BASE \<or> eid = ESP_EVENT_ANY_ID then (ESP_ERR_INVALID_ARG, l)
      else
        let has_data = (data \<noteq> None \<and> data \<noteq> Some []) in
        if has_data \<and> \<not> copy_ok then (ESP_ERR_NO_MEM, l)
        else
          let l = (if has_data then l\<lparr>live_blocks := live_blocks l + 1\<rparr> else l);
              post = \<lparr>post_base = base, post_id = eid, data_allocated = has_data,
                      post_data = (if has_data then data else None)\<rparr>;
              (result, l) = (if loop_task l = None \<and> \<not> taken then (False, l) else queue_send l post) in
          if \<not> result then (ESP_ERR_TIMEOUT, l\<lparr>live_blocks := post_instance_delete post (live_blocks l)\<rparr>)
          else (ESP_OK, l))"

text \<open>From an interrupt at most the four bytes of \<open>post.data.val\<close>; a shorter datum is padded with zeros.\<close>

definition esp_event_isr_post_to ::
  "event_loop \<Rightarrow> event_base \<Rightarrow> int \<Rightarrow> u8 list option \<Rightarrow> nat \<Rightarrow> esp_err \<times> event_loop" where
  "esp_event_isr_post_to l base eid data data_size =
     (if base = ESP_EVENT_ANY_BASE \<or> eid = ESP_EVENT_ANY_ID then (ESP_ERR_INVALID_ARG, l)
      else if 4 < data_size then (ESP_ERR_INVALID_ARG, l)
      else
        let data_set = (data \<noteq> None \<and> data_size \<noteq> 0);
            post = \<lparr>post_base = base, post_id = eid, data_allocated = False,
                    post_data = (if data_set then Some (take 4 (take data_size (the data) @ replicate 4 0)) else None)\<rparr>;
            (result, l) = queue_send l post in
        if \<not> result then (ESP_FAIL, l\<lparr>live_blocks := post_instance_delete post (live_blocks l)\<rparr>)
        else (ESP_OK, l))"

section \<open>Dispatching\<close>

text \<open>A handler is a function of its argument and the event on the state \<open>'w\<close> of the program; it may post
  to the loop, which the record \<open>post_req\<close> asks for.\<close>

record post_req =
  rq_copy_ok :: bool
  rq_base :: event_base
  rq_id :: int
  rq_data :: "u8 list option"

type_synonym 'w handlers = "nat \<Rightarrow> nat \<Rightarrow> event_base \<Rightarrow> int \<Rightarrow> u8 list option \<Rightarrow> 'w \<Rightarrow> 'w \<times> post_req list"

definition send_req :: "post_req \<Rightarrow> event_loop \<Rightarrow> event_loop" where
  "send_req rq l = snd (esp_event_post_to (rq_copy_ok rq) True l (rq_base rq) (rq_id rq) (rq_data rq))"

definition handler_execute ::
  "'w handlers \<Rightarrow> event_post \<Rightarrow> handler_instance \<Rightarrow> event_loop \<times> 'w \<times> bool \<Rightarrow> event_loop \<times> 'w \<times> bool" where
  "handler_execute hf p h = (\<lambda>(l, w, exec).
     case hf (hi_handler h) (hi_arg h) (post_base p) (post_id p) (post_data p) w of
       (w, rqs) \<Rightarrow> (fold send_req rqs l, w, True))"

definition run_id_nodes ::
  "'w handlers \<Rightarrow> event_post \<Rightarrow> id_node list \<Rightarrow> event_loop \<times> 'w \<times> bool \<Rightarrow> event_loop \<times> 'w \<times> bool" where
  "run_id_nodes hf p ids s =
     (case find (\<lambda>n. id_id n = post_id p) ids of
        None \<Rightarrow> s
      | Some n \<Rightarrow> fold (handler_execute hf p) (id_handlers n) s)"

definition run_base_node ::
  "'w handlers \<Rightarrow> event_post \<Rightarrow> base_node \<Rightarrow> event_loop \<times> 'w \<times> bool \<Rightarrow> event_loop \<times> 'w \<times> bool" where
  "run_base_node hf p bn s =
     (if bn_base bn = post_base p then run_id_nodes hf p (bn_ids bn) (fold (handler_execute hf p) (bn_handlers bn) s)
      else s)"

definition run_loop_node ::
  "'w handlers \<Rightarrow> event_post \<Rightarrow> loop_node \<Rightarrow> event_loop \<times> 'w \<times> bool \<Rightarrow> event_loop \<times> 'w \<times> bool" where
  "run_loop_node hf p ln s = fold (run_base_node hf p) (ln_bases ln) (fold (handler_execute hf p) (ln_handlers ln) s)"

text \<open>The body of the loop of \<open>esp_event_loop_run\<close> for the post just received, up to \<open>post_instance_delete\<close>.\<close>

definition dispatch_post ::
  "'w handlers \<Rightarrow> nat \<Rightarrow> event_post \<Rightarrow> event_loop \<Rightarrow> 'w \<Rightarrow> event_loop \<times> 'w" where
  "dispatch_post hf cur p l w =
     (let l = l\<lparr>running_task := Some cur\<rparr>;
          (l, w, exec) = fold (run_loop_node hf p) (loop_nodes l) (l, w, False) in
      (l\<lparr>live_blocks := post_instance_delete p (live_blocks l)\<rparr>, w))"

text \<open>One turn of the loop: while the task waits for \<open>waited\<close> ticks other tasks post \<open>arrivals\<close>, and the
  dispatch takes \<open>worked\<close> ticks.  \<open>ticks_to_run = None\<close> is \<open>portMAX_DELAY\<close>, with which the wait does not end
  before a post has come.  The result holds the ticks
  that have passed; it is \<open>None\<close> while the loop is still running when the turns end.\<close>

record turn =
  arrivals :: "post_req list"
  waited :: nat
  worked :: nat

fun run_turns ::
  "'w handlers \<Rightarrow> nat \<Rightarrow> nat option \<Rightarrow> int \<Rightarrow> nat \<Rightarrow> turn list \<Rightarrow> event_loop \<times> 'w \<Rightarrow> nat option \<times> event_loop \<times> 'w" where
  "run_turns hf cur ticks_to_run remaining now [] (l, w) = (None, l, w)"
| "run_turns hf cur ticks_to_run remaining now (t # ts) (l, w) =
     (let l = fold send_req (arrivals t) l in
      case queue l of
        [] \<Rightarrow>
          if ticks_to_run = None then run_turns hf cur ticks_to_run remaining (now + waited t) ts (l, w)
          else (Some (now + waited t), l, w)
      | p # q \<Rightarrow>
          let (l, w) = dispatch_post hf cur p (l\<lparr>queue := q\<rparr>) w;
              now = now + waited t + worked t;
              remaining = remaining - int (waited t + worked t) in
          if ticks_to_run \<noteq> None \<and> remaining \<le> 0 then (Some now, l, w)
          else run_turns hf cur ticks_to_run remaining now ts (l\<lparr>running_task := None\<rparr>, w))"

definition esp_event_loop_run ::
  "'w handlers \<Rightarrow> nat \<Rightarrow> nat option \<Rightarrow> turn list \<Rightarrow> event_loop \<times> 'w \<Rightarrow> nat option \<times> event_loop \<times> 'w" where
  "esp_event_loop_run hf cur ticks_to_run ts s =
     run_turns hf cur ticks_to_run (case ticks_to_run of None \<Rightarrow> 0 | Some n \<Rightarrow> int n) 0 ts s"

section \<open>Creation and deletion\<close>

text \<open>The outcomes of creating the loop, its queue, its mutex and its task are arguments; \<open>task\<close> is \<open>None\<close>
  when no task is asked for.\<close>

definition esp_event_loop_create ::
  "bool \<Rightarrow> bool \<Rightarrow> bool \<Rightarrow> bool \<Rightarrow> nat option \<Rightarrow> nat \<Rightarrow> esp_err + event_loop" where
  "esp_event_loop_create loop_ok queue_ok mutex_ok task_ok task size_arg =
     (if \<not> loop_ok \<or> \<not> queue_ok \<or> \<not> mutex_ok then Inl ESP_ERR_NO_MEM
      else if task \<noteq> None \<and> \<not> task_ok then Inl ESP_FAIL
      else Inr \<lparr>queue_size = size_arg, queue = [], loop_task = task, running_task = None, loop_nodes = [], live_blocks = 0\<rparr>)"

fun handler_instances_remove_all :: "handler_instance list \<Rightarrow> int \<Rightarrow> int" where
  "handler_instances_remove_all [] live = live"
| "handler_instances_remove_all (it # its) live = handler_instances_remove_all its (live - 1)"

fun ids_remove_all :: "id_node list \<Rightarrow> int \<Rightarrow> int" where
  "ids_remove_all [] live = live"
| "ids_remove_all (it # its) live = ids_remove_all its (handler_instances_remove_all (id_handlers it) live - 1)"

definition base_node_remove_all_handler :: "base_node \<Rightarrow> int \<Rightarrow> int" where
  "base_node_remove_all_handler bn live = ids_remove_all (bn_ids bn) (handler_instances_remove_all (bn_handlers bn) live)"

fun bases_remove_all :: "base_node list \<Rightarrow> int \<Rightarrow> int" where
  "bases_remove_all [] live = live"
| "bases_remove_all (it # its) live = bases_remove_all its (base_node_remove_all_handler it live - 1)"

definition loop_node_remove_all_handler :: "loop_node \<Rightarrow> int \<Rightarrow> int" where
  "loop_node_remove_all_handler ln live = bases_remove_all (ln_bases ln) (handler_instances_remove_all (ln_handlers ln) live)"

fun loops_remove_all :: "loop_node list \<Rightarrow> int \<Rightarrow> int" where
  "loops_remove_all [] live = live"
| "loops_remove_all (it # its) live = loops_remove_all its (loop_node_remove_all_handler it live - 1)"

text \<open>\<open>esp_event_loop_delete\<close>: the number of blocks left.\<close>

definition esp_event_loop_delete :: "event_loop \<Rightarrow> int" where
  "esp_event_loop_delete l = fold post_instance_delete (queue l) (loops_remove_all (loop_nodes l) (live_blocks l))"

section \<open>The default loop\<close>

text \<open>\<open>s_default_loop\<close> is \<open>None\<close> before \<open>esp_event_loop_create_default\<close>, whose task and queue size are
  \<open>sys_evt\<close> and the configured number.\<close>

definition esp_event_loop_create_default ::
  "bool \<Rightarrow> bool \<Rightarrow> bool \<Rightarrow> bool \<Rightarrow> nat \<Rightarrow> nat \<Rightarrow> event_loop option \<Rightarrow> esp_err \<times> event_loop option" where
  "esp_event_loop_create_default loop_ok queue_ok mutex_ok task_ok sys_evt n s_default_loop =
     (case s_default_loop of
        Some l \<Rightarrow> (ESP_ERR_INVALID_STATE, Some l)
      | None \<Rightarrow>
          (case esp_event_loop_create loop_ok queue_ok mutex_ok task_ok (Some sys_evt) n of
            Inl err \<Rightarrow> (err, None)
          | Inr l \<Rightarrow> (ESP_OK, Some l)))"

definition esp_event_loop_delete_default :: "event_loop option \<Rightarrow> esp_err \<times> event_loop option" where
  "esp_event_loop_delete_default s_default_loop =
     (case s_default_loop of None \<Rightarrow> (ESP_ERR_INVALID_STATE, None) | Some l \<Rightarrow> (ESP_OK, None))"

definition esp_event_handler_register ::
  "mem \<Rightarrow> event_loop option \<Rightarrow> event_base \<Rightarrow> int \<Rightarrow> nat \<Rightarrow> nat \<Rightarrow> (esp_err \<times> event_loop option) option" where
  "esp_event_handler_register mem s_default_loop base eid handler arg =
     (case s_default_loop of
        None \<Rightarrow> Some (ESP_ERR_INVALID_STATE, None)
      | Some l \<Rightarrow> map_option (map_prod id Some) (esp_event_handler_register_with mem l base eid handler arg))"

definition esp_event_handler_unregister ::
  "event_loop option \<Rightarrow> event_base \<Rightarrow> int \<Rightarrow> nat \<Rightarrow> esp_err \<times> event_loop option" where
  "esp_event_handler_unregister s_default_loop base eid handler =
     (case s_default_loop of
        None \<Rightarrow> (ESP_ERR_INVALID_STATE, None)
      | Some l \<Rightarrow> map_prod id Some (esp_event_handler_unregister_with l base eid handler))"

definition esp_event_post ::
  "bool \<Rightarrow> bool \<Rightarrow> event_loop option \<Rightarrow> event_base \<Rightarrow> int \<Rightarrow> u8 list option \<Rightarrow> esp_err \<times> event_loop option" where
  "esp_event_post copy_ok taken s_default_loop base eid data =
     (case s_default_loop of
        None \<Rightarrow> (ESP_ERR_INVALID_STATE, None)
      | Some l \<Rightarrow> map_prod id Some (esp_event_post_to copy_ok taken l base eid data))"

definition esp_event_isr_post ::
  "event_loop option \<Rightarrow> event_base \<Rightarrow> int \<Rightarrow> u8 list option \<Rightarrow> nat \<Rightarrow> esp_err \<times> event_loop option" where
  "esp_event_isr_post s_default_loop base eid data data_size =
     (case s_default_loop of
        None \<Rightarrow> (ESP_ERR_INVALID_STATE, None)
      | Some l \<Rightarrow> map_prod id Some (esp_event_isr_post_to l base eid data data_size))"

end
