(* ===== verification/EventTree.thy ===== *)
theory EventTree
  imports EventLoop
begin

text \<open>
  The tree of an event loop.  \<open>tree_ok\<close> is its well-formedness: no empty node, one node per identifier; every
  operation keeps it and the count of blocks.  \<open>entries\<close> lists what one event reaches, in the order of the
  code, each instance with the key it was registered under: registration appends to it, unregistration
  filters it, and posting only extends the queue.
\<close>

section \<open>Well-formed trees and their blocks\<close>

definition ids_ok :: "id_node list \<Rightarrow> bool" where
  "ids_ok ids \<longleftrightarrow> distinct (map id_id ids) \<and> (\<forall>n \<in> set ids. id_id n \<noteq> ESP_EVENT_ANY_ID \<and> id_handlers n \<noteq> [])"

definition base_ok :: "base_node \<Rightarrow> bool" where
  "base_ok bn \<longleftrightarrow> (bn_handlers bn \<noteq> [] \<or> bn_ids bn \<noteq> []) \<and> ids_ok (bn_ids bn)"

definition loop_ok :: "loop_node \<Rightarrow> bool" where
  "loop_ok ln \<longleftrightarrow> (ln_handlers ln \<noteq> [] \<or> ln_bases ln \<noteq> []) \<and> (\<forall>bn \<in> set (ln_bases ln). base_ok bn)"

definition tree_ok :: "loop_node list \<Rightarrow> bool" where
  "tree_ok lns \<longleftrightarrow> (\<forall>ln \<in> set lns. loop_ok ln)"

definition ids_blocks :: "id_node list \<Rightarrow> int" where
  "ids_blocks ids = (\<Sum>n\<leftarrow>ids. 1 + int (length (id_handlers n)))"

definition base_blocks :: "base_node \<Rightarrow> int" where
  "base_blocks bn = int (length (bn_handlers bn)) + ids_blocks (bn_ids bn)"

definition bases_blocks :: "base_node list \<Rightarrow> int" where
  "bases_blocks bns = (\<Sum>bn\<leftarrow>bns. 1 + base_blocks bn)"

definition loop_blocks :: "loop_node \<Rightarrow> int" where
  "loop_blocks ln = int (length (ln_handlers ln)) + bases_blocks (ln_bases ln)"

definition tree_blocks :: "loop_node list \<Rightarrow> int" where
  "tree_blocks lns = (\<Sum>ln\<leftarrow>lns. 1 + loop_blocks ln)"

lemma blocks_simps [simp]:
  "ids_blocks [] = 0" "ids_blocks (n # ids) = 1 + int (length (id_handlers n)) + ids_blocks ids"
  "ids_blocks (ids @ ids') = ids_blocks ids + ids_blocks ids'"
  "bases_blocks [] = 0" "bases_blocks (bn # bns) = 1 + base_blocks bn + bases_blocks bns"
  "bases_blocks (bns @ bns') = bases_blocks bns + bases_blocks bns'"
  "tree_blocks [] = 0" "tree_blocks (ln # lns) = 1 + loop_blocks ln + tree_blocks lns"
  "tree_blocks (lns @ lns') = tree_blocks lns + tree_blocks lns'"
  by (simp_all add: ids_blocks_def bases_blocks_def tree_blocks_def)

lemma sum_list_upd:
  fixes f :: "'a \<Rightarrow> int"
  assumes "i < length xs"
  shows "sum_list (map f (xs[i := x])) = sum_list (map f xs) + f x - f (xs ! i)"
  using assms by (induction xs arbitrary: i) (auto split: nat.split)

lemma ids_ok_simps [simp]: "ids_ok []"
  "ids_ok (n # ids) \<longleftrightarrow> id_id n \<notin> id_id ` set ids \<and> id_id n \<noteq> ESP_EVENT_ANY_ID \<and> id_handlers n \<noteq> [] \<and> ids_ok ids"
  by (auto simp: ids_ok_def)

lemma tree_ok_simps [simp]: "tree_ok []" "tree_ok (ln # lns) \<longleftrightarrow> loop_ok ln \<and> tree_ok lns"
  "tree_ok (lns @ lns') \<longleftrightarrow> tree_ok lns \<and> tree_ok lns'"
  by (auto simp: tree_ok_def)

section \<open>Lists\<close>

lemma find_last_None: "find_last P xs = None \<longleftrightarrow> (\<forall>x \<in> set xs. \<not> P x)"
  by (induction xs) (auto split: option.splits)

lemma find_last_Some:
  "find_last P xs = Some i \<Longrightarrow> i < length xs \<and> P (xs ! i) \<and> (\<forall>j. i < j \<and> j < length xs \<longrightarrow> \<not> P (xs ! j))"
proof (induction xs arbitrary: i)
  case (Cons x xs)
  show ?case
  proof (cases "find_last P xs")
    case None
    then have "i = 0" "P x" using Cons.prems by (auto split: if_splits)
    then show ?thesis using None by (auto simp: find_last_None nth_Cons split: nat.split)
  next
    case (Some k)
    then have "i = Suc k" using Cons.prems by simp
    then show ?thesis using Cons.IH [OF Some] by (auto simp: less_Suc_eq_0_disj nth_Cons split: nat.split)
  qed
qed simp

lemma find_last_split:
  assumes "find_last P xs = Some i"
  obtains as bs where "xs = as @ xs ! i # bs" "length as = i" "P (xs ! i)" "\<forall>x \<in> set bs. \<not> P x"
    "\<And>y. xs[i := y] = as @ y # bs"
proof (rule that)
  note i = find_last_Some [OF assms]
  show "xs = take i xs @ xs ! i # drop (Suc i) xs" using i by (simp add: id_take_nth_drop)
  show "length (take i xs) = i" "P (xs ! i)" using i by auto
  show "\<forall>x \<in> set (drop (Suc i) xs). \<not> P x" using i by (auto simp: in_set_conv_nth)
  show "xs[i := y] = take i xs @ y # drop (Suc i) xs" for y using i by (simp add: upd_conv_take_nth_drop)
qed

lemma find_map_cong: "find P xs = find Q xs" if "\<And>x. x \<in> set xs \<Longrightarrow> P x = Q x"
  using that by (induction xs) auto

section \<open>Registration keeps the tree\<close>

lemma overwrite_arg_length: "overwrite_arg hs h a = Some hs' \<Longrightarrow> length hs' = length hs \<and> hs' \<noteq> []"
  by (induction hs arbitrary: hs') (auto split: if_splits)

lemma handlers_add_blocks:
  assumes "handler_instances_add mem hs h a lv = (err, hs', lv')"
  shows "(err = ESP_OK \<and> hs' \<noteq> [] \<or> err = ESP_ERR_NO_MEM \<and> hs' = hs) \<and> lv' - lv = int (length hs') - int (length hs)"
  using assms by (auto simp: handler_instances_add_def Let_def split: if_splits option.splits dest!: overwrite_arg_length)

lemma base_add_blocks:
  assumes "base_node_add_handler mem bn eid h a lv = (err, bn', lv')" and "ids_ok (bn_ids bn)"
  shows "(err = ESP_OK \<and> base_ok bn' \<or> err = ESP_ERR_NO_MEM \<and> bn' = bn)
    \<and> bn_base bn' = bn_base bn \<and> lv' - lv = base_blocks bn' - base_blocks bn"
proof (cases "eid = ESP_EVENT_ANY_ID")
  case True
  then obtain hs' where add: "handler_instances_add mem (bn_handlers bn) h a lv = (err, hs', lv')"
    and bn': "bn' = bn\<lparr>bn_handlers := hs'\<rparr>"
    using assms(1) by (auto simp: base_node_add_handler_def split: prod.splits)
  show ?thesis using handlers_add_blocks [OF add] assms(2) by (auto simp: bn' base_ok_def base_blocks_def)
next
  case eid: False
  show ?thesis
  proof (cases "find_last (\<lambda>it. id_id it = eid) (bn_ids bn)")
    case None
    then have new: "eid \<notin> id_id ` set (bn_ids bn)" by (auto simp: find_last_None)
    obtain err1 hs1 lv1 where add: "handler_instances_add mem [] h a (lv + 1) = (err1, hs1, lv1)"
      by (metis prod_cases3)
    show ?thesis using handlers_add_blocks [OF add] assms new eid None add
      by (auto simp: base_node_add_handler_def base_ok_def base_blocks_def ids_ok_def split: if_splits)
  next
    case (Some i)
    obtain err1 hs1 lv1 where add: "handler_instances_add mem (id_handlers (bn_ids bn ! i)) h a lv = (err1, hs1, lv1)"
      by (metis prod_cases3)
    note i = find_last_Some [OF Some]
    have b: "err = err1" "bn' = bn\<lparr>bn_ids := (bn_ids bn)[i := (bn_ids bn ! i)\<lparr>id_handlers := hs1\<rparr>]\<rparr>" "lv' = lv1"
      using assms(1) eid Some add by (auto simp: base_node_add_handler_def)
    have m: "map id_id ((bn_ids bn)[i := (bn_ids bn ! i)\<lparr>id_handlers := hs1\<rparr>]) = map id_id (bn_ids bn)"
      using i by (simp add: map_update list_update_same_conv)
    have "(bn_ids bn)[i := (bn_ids bn ! i)\<lparr>id_handlers := id_handlers (bn_ids bn ! i)\<rparr>] = bn_ids bn"
      using i by (simp add: list_update_same_conv)
    then show ?thesis using handlers_add_blocks [OF add] assms(2) i m
      by (auto simp: b base_ok_def base_blocks_def ids_blocks_def sum_list_upd ids_ok_def
          dest!: set_update_subset_insert [THEN subsetD])
  qed
qed

lemma loop_add_blocks:
  assumes "loop_node_add_handler mem ln base eid h a lv = (err, ln', lv')" and "\<forall>bn \<in> set (ln_bases ln). base_ok bn"
  shows "(err = ESP_OK \<and> loop_ok ln' \<or> err = ESP_ERR_NO_MEM \<and> ln' = ln) \<and> lv' - lv = loop_blocks ln' - loop_blocks ln"
proof -
  consider (loop) "base = esp_event_any_base \<and> eid = ESP_EVENT_ANY_ID"
    | (new) "\<not> (base = esp_event_any_base \<and> eid = ESP_EVENT_ANY_ID)" "new_base_needed (ln_bases ln) base eid"
    | (old) i where "\<not> (base = esp_event_any_base \<and> eid = ESP_EVENT_ANY_ID)" "\<not> new_base_needed (ln_bases ln) base eid"
        "find_last (\<lambda>it. bn_base it = base) (ln_bases ln) = Some i"
    by (cases "find_last (\<lambda>it. bn_base it = base) (ln_bases ln)") (auto simp: new_base_needed_def)
  then show ?thesis
  proof cases
    case loop
    obtain err1 hs1 lv1 where add: "handler_instances_add mem (ln_handlers ln) h a lv = (err1, hs1, lv1)"
      by (metis prod_cases3)
    show ?thesis using handlers_add_blocks [OF add] assms loop add
      by (auto simp: loop_node_add_handler_def loop_ok_def loop_blocks_def)
  next
    case new
    obtain err1 bn1 lv1 where add:
      "base_node_add_handler mem \<lparr>bn_base = base, bn_handlers = [], bn_ids = []\<rparr> eid h a (lv + 1) = (err1, bn1, lv1)"
      by (metis prod_cases3)
    show ?thesis using base_add_blocks [OF add] assms new add
      by (auto simp: loop_node_add_handler_def loop_ok_def loop_blocks_def base_blocks_def split: if_splits)
  next
    case old
    obtain err1 bn1 lv1 where add: "base_node_add_handler mem (ln_bases ln ! i) eid h a lv = (err1, bn1, lv1)"
      by (metis prod_cases3)
    have i: "i < length (ln_bases ln)" using find_last_Some [OF old(3)] by simp
    then have "ids_ok (bn_ids (ln_bases ln ! i))" using assms(2) by (auto simp: base_ok_def)
    note b = base_add_blocks [OF add this]
    have "set ((ln_bases ln)[i := bn1]) \<subseteq> insert bn1 (set (ln_bases ln))" by (rule set_update_subset_insert)
    then show ?thesis using b assms old i add
      by (auto simp: loop_node_add_handler_def Let_def loop_ok_def loop_blocks_def bases_blocks_def sum_list_upd)
  qed
qed

lemma register_tree:
  assumes "esp_event_handler_register_with mem l base eid h a = Some (err, l')" and "tree_ok (loop_nodes l)"
  shows "tree_ok (loop_nodes l') \<and> live_blocks l' - live_blocks l = tree_blocks (loop_nodes l') - tree_blocks (loop_nodes l)
    \<and> queue l' = queue l \<and> queue_size l' = queue_size l"
proof -
  let ?b = "if base = ESP_EVENT_ANY_BASE then esp_event_any_base else base" and ?lns = "loop_nodes l"
  consider (bad) "base = ESP_EVENT_ANY_BASE \<and> eid \<noteq> ESP_EVENT_ANY_ID"
    | (new) "\<not> (base = ESP_EVENT_ANY_BASE \<and> eid \<noteq> ESP_EVENT_ANY_ID)"
        "?lns = [] \<or> ln_bases (last ?lns) \<noteq> [] \<and> ?b = esp_event_any_base \<and> eid = ESP_EVENT_ANY_ID"
    | (old) "\<not> (base = ESP_EVENT_ANY_BASE \<and> eid \<noteq> ESP_EVENT_ANY_ID)"
        "\<not> (?lns = [] \<or> ln_bases (last ?lns) \<noteq> [] \<and> ?b = esp_event_any_base \<and> eid = ESP_EVENT_ANY_ID)"
    by blast
  then show ?thesis
  proof cases
    case bad then show ?thesis using assms by (simp add: esp_event_handler_register_with_def)
  next
    case new
    obtain err1 ln1 lv1 where add:
      "loop_node_add_handler mem \<lparr>ln_handlers = [], ln_bases = []\<rparr> ?b eid h a (live_blocks l + 1) = (err1, ln1, lv1)"
      by (metis prod_cases3)
    show ?thesis using loop_add_blocks [OF add] assms new add
      by (auto simp: esp_event_handler_register_with_def Let_def loop_blocks_def split: if_splits)
  next
    case old
    obtain err1 ln1 lv1 where add: "loop_node_add_handler mem (last ?lns) ?b eid h a (live_blocks l) = (err1, ln1, lv1)"
      by (metis prod_cases3)
    have lns: "?lns = butlast ?lns @ [last ?lns]" using old by simp
    have ok: "tree_ok (butlast ?lns)" "loop_ok (last ?lns)" using assms(2) tree_ok_simps(3) lns by (metis tree_ok_simps(2))+
    have "tree_blocks ?lns = tree_blocks (butlast ?lns) + 1 + loop_blocks (last ?lns)"
      by (subst lns) (simp del: append_butlast_last_id)
    moreover have "\<forall>bn \<in> set (ln_bases (last ?lns)). base_ok bn" using ok by (simp add: loop_ok_def)
    ultimately show ?thesis using loop_add_blocks [OF add] assms old add ok
      by (auto simp: esp_event_handler_register_with_def Let_def)
  qed
qed

section \<open>Unregistration and deletion\<close>

lemma handlers_remove_blocks:
  "handler_instances_remove hs h lv = (err, hs', lv') \<Longrightarrow>
     (err = ESP_OK \<or> err = ESP_ERR_NOT_FOUND \<and> hs' = hs) \<and> lv' - lv = int (length hs') - int (length hs)"
  by (induction hs arbitrary: hs' lv') (auto split: if_splits prod.splits)

lemma ids_remove_blocks:
  "ids_remove ids eid h lv = (err, ids', lv') \<Longrightarrow> ids_ok ids \<Longrightarrow>
     ids_ok ids' \<and> id_id ` set ids' \<subseteq> id_id ` set ids \<and> (err = ESP_OK \<or> err = ESP_ERR_NOT_FOUND \<and> (ids' = [] \<longrightarrow> ids = []))
     \<and> lv' - lv = ids_blocks ids' - ids_blocks ids"
proof (induction ids arbitrary: err lv ids' lv')
  case (Cons n ids)
  obtain err1 hs1 lv1 where r: "handler_instances_remove (id_handlers n) h lv = (err1, hs1, lv1)" by (metis prod_cases3)
  obtain err2 ids2 lv2 where s: "ids_remove ids eid h (if id_id n = eid then lv1 else lv) = (err2, ids2, lv2)"
    by (metis prod_cases3)
  note IH = Cons.IH [OF s]
  consider (gone) "id_id n = eid" "err1 = ESP_OK \<and> hs1 = []" | (kept) "id_id n = eid" "\<not> (err1 = ESP_OK \<and> hs1 = [])"
    | (other) "id_id n \<noteq> eid" by blast
  then show ?case
  proof cases
    case gone then show ?thesis using Cons.prems r handlers_remove_blocks [OF r] by auto
  next
    case kept
    then have e: "err = err2" "ids' = n\<lparr>id_handlers := hs1\<rparr> # ids2" "lv' = lv2" using Cons.prems(1) r s by auto
    have "hs1 \<noteq> []" using kept handlers_remove_blocks [OF r] Cons.prems(2) by auto
    then show ?thesis using IH handlers_remove_blocks [OF r] Cons.prems(2) kept(1) by (auto simp: e)
  next
    case other
    then have e: "err = err2" "ids' = n # ids2" "lv' = lv2" using Cons.prems(1) s by auto
    show ?thesis using IH Cons.prems(2) other by (auto simp: e)
  qed
qed simp

lemma base_remove_blocks:
  assumes "base_node_remove_handler bn eid h lv = (err, bn', lv')" and "base_ok bn"
  shows "bn_base bn' = bn_base bn \<and> ids_ok (bn_ids bn') \<and> (err = ESP_OK \<or> base_ok bn')
    \<and> lv' - lv = base_blocks bn' - base_blocks bn"
proof (cases "eid = ESP_EVENT_ANY_ID")
  case True
  obtain err1 hs1 lv1 where r: "handler_instances_remove (bn_handlers bn) h lv = (err1, hs1, lv1)" by (metis prod_cases3)
  show ?thesis using assms True r handlers_remove_blocks [OF r]
    by (auto simp: base_node_remove_handler_def base_ok_def base_blocks_def)
next
  case False
  obtain err1 ids1 lv1 where r: "ids_remove (bn_ids bn) eid h lv = (err1, ids1, lv1)" by (metis prod_cases3)
  show ?thesis using assms False r ids_remove_blocks [OF r]
    by (auto simp: base_node_remove_handler_def base_ok_def base_blocks_def)
qed

lemma bases_remove_blocks:
  "bases_remove bns base eid h lv = (err, bns', lv') \<Longrightarrow> \<forall>bn \<in> set bns. base_ok bn \<Longrightarrow>
     (\<forall>bn \<in> set bns'. base_ok bn) \<and> (err = ESP_OK \<or> (bns' = [] \<longrightarrow> bns = [])) \<and> lv' - lv = bases_blocks bns' - bases_blocks bns"
proof (induction bns arbitrary: err lv bns' lv')
  case (Cons bn bns)
  obtain err1 bn1 lv1 where r: "base_node_remove_handler bn eid h lv = (err1, bn1, lv1)" by (metis prod_cases3)
  obtain err2 bns2 lv2 where s: "bases_remove bns base eid h (if bn_base bn = base then lv1 else lv) = (err2, bns2, lv2)"
    by (metis prod_cases3)
  have "base_ok bn" using Cons.prems by simp
  note b = base_remove_blocks [OF r this] and IH = Cons.IH [OF s]
  consider (gone) "bn_base bn = base" "err1 = ESP_OK \<and> bn_handlers bn1 = [] \<and> bn_ids bn1 = []"
    | (kept) "bn_base bn = base" "\<not> (err1 = ESP_OK \<and> bn_handlers bn1 = [] \<and> bn_ids bn1 = [])"
    | (other) "bn_base bn \<noteq> base" by blast
  then show ?case
  proof cases
    case gone then show ?thesis using Cons.prems r b by (auto simp: base_blocks_def)
  next
    case kept
    then have e: "err = err2" "bns' = bn1 # bns2" "lv' = lv2" using Cons.prems(1) r s by auto
    have "base_ok bn1" using kept b by (auto simp: base_ok_def)
    then show ?thesis using IH b Cons.prems(2) kept(1) by (auto simp: e)
  next
    case other
    then have e: "err = err2" "bns' = bn # bns2" "lv' = lv2" using Cons.prems(1) s by auto
    show ?thesis using IH Cons.prems(2) other by (auto simp: e)
  qed
qed simp

lemma loop_remove_blocks:
  assumes "loop_node_remove_handler ln base eid h lv = (err, ln', lv')" and "loop_ok ln"
  shows "(err = ESP_OK \<and> ln_bases ln' = [] \<and> ln_handlers ln' = [] \<or> loop_ok ln') \<and> lv' - lv = loop_blocks ln' - loop_blocks ln"
proof (cases "base = esp_event_any_base \<and> eid = ESP_EVENT_ANY_ID")
  case True
  obtain err1 hs1 lv1 where r: "handler_instances_remove (ln_handlers ln) h lv = (err1, hs1, lv1)" by (metis prod_cases3)
  show ?thesis using assms True r handlers_remove_blocks [OF r]
    by (auto simp: loop_node_remove_handler_def loop_ok_def loop_blocks_def)
next
  case False
  obtain err1 bns1 lv1 where r: "bases_remove (ln_bases ln) base eid h lv = (err1, bns1, lv1)" by (metis prod_cases3)
  show ?thesis using assms False r bases_remove_blocks [OF r]
    by (auto simp: loop_node_remove_handler_def loop_ok_def loop_blocks_def)
qed

lemma loops_remove_blocks:
  "loops_remove lns base eid h lv = (lns', lv') \<Longrightarrow> tree_ok lns \<Longrightarrow> tree_ok lns' \<and> lv' - lv = tree_blocks lns' - tree_blocks lns"
proof (induction lns arbitrary: lv lns' lv')
  case (Cons ln lns)
  obtain err1 ln1 lv1 where r: "loop_node_remove_handler ln base eid h lv = (err1, ln1, lv1)" by (metis prod_cases3)
  obtain lns2 lv2 where s: "loops_remove lns base eid h lv1 = (lns2, lv2)" by (metis surj_pair)
  have "loop_ok ln" using Cons.prems by simp
  note b = loop_remove_blocks [OF r this] and IH = Cons.IH [OF s]
  show ?case using Cons.prems r s IH b by (auto simp: loop_blocks_def split: if_splits)
qed simp

lemma unregister_tree:
  assumes "esp_event_handler_unregister_with l base eid h = (err, l')" and "tree_ok (loop_nodes l)"
  shows "tree_ok (loop_nodes l') \<and> live_blocks l' - live_blocks l = tree_blocks (loop_nodes l') - tree_blocks (loop_nodes l)
    \<and> queue l' = queue l \<and> queue_size l' = queue_size l"
proof -
  obtain lns lv where r: "loops_remove (loop_nodes l) (if base = ESP_EVENT_ANY_BASE then esp_event_any_base else base)
    eid h (live_blocks l) = (lns, lv)" by (metis surj_pair)
  show ?thesis using assms r loops_remove_blocks [OF r]
    by (auto simp: esp_event_handler_unregister_with_def Let_def split: if_splits)
qed

lemma remove_all_blocks:
  "handler_instances_remove_all hs lv = lv - int (length hs)"
  "ids_remove_all ids lv = lv - ids_blocks ids"
  "bases_remove_all bns lv = lv - bases_blocks bns"
  "loops_remove_all lns lv = lv - tree_blocks lns"
proof -
  show h: "handler_instances_remove_all hs lv = lv - int (length hs)" for hs lv
    by (induction hs arbitrary: lv) auto
  show i: "ids_remove_all ids lv = lv - ids_blocks ids" for ids lv
    by (induction ids arbitrary: lv) (auto simp: h)
  show b: "bases_remove_all bns lv = lv - bases_blocks bns" for bns lv
    by (induction bns arbitrary: lv) (auto simp: h i base_node_remove_all_handler_def base_blocks_def)
  show "loops_remove_all lns lv = lv - tree_blocks lns"
    by (induction lns arbitrary: lv) (auto simp: h b loop_node_remove_all_handler_def loop_blocks_def)
qed

section \<open>Posts\<close>

definition posts_blocks :: "event_post list \<Rightarrow> int" where
  "posts_blocks ps = int (length (filter data_allocated ps))"

text \<open>\<open>loop_inv\<close>: the tree is well formed, the queue is within its size, and the blocks the library holds are
  its nodes, its handler instances and the data of the queued posts.\<close>

definition loop_inv :: "event_loop \<Rightarrow> bool" where
  "loop_inv l \<longleftrightarrow> tree_ok (loop_nodes l) \<and> length (queue l) \<le> queue_size l
     \<and> (\<forall>p \<in> set (queue l). post_id p \<noteq> ESP_EVENT_ANY_ID)
     \<and> live_blocks l = tree_blocks (loop_nodes l) + posts_blocks (queue l)"

lemma posts_blocks_simps [simp]: "posts_blocks [] = 0"
  "posts_blocks (p # ps) = (if data_allocated p then 1 else 0) + posts_blocks ps"
  "posts_blocks (ps @ qs) = posts_blocks ps + posts_blocks qs"
  by (auto simp: posts_blocks_def)

lemma post_appends:
  assumes "esp_event_post_to ok tk l base eid d = (err, l')"
  shows "loop_nodes l' = loop_nodes l \<and> queue_size l' = queue_size l \<and> (\<exists>ps. queue l' = queue l @ ps
    \<and> length ps = (if err = ESP_OK then 1 else 0) \<and> (\<forall>p \<in> set ps. post_id p \<noteq> ESP_EVENT_ANY_ID) \<and> live_blocks l' = live_blocks l + posts_blocks ps)
    \<and> (length (queue l) \<le> queue_size l \<longrightarrow> length (queue l') \<le> queue_size l)
    \<and> loop_task l' = loop_task l \<and> running_task l' = running_task l"
  using assms by (auto simp: esp_event_post_to_def queue_send_def post_instance_delete_def Let_def split: if_splits)

lemma isr_post_appends:
  assumes "esp_event_isr_post_to l base eid d n = (err, l')"
  shows "loop_nodes l' = loop_nodes l \<and> queue_size l' = queue_size l \<and> (\<exists>ps. queue l' = queue l @ ps
    \<and> length ps = (if err = ESP_OK then 1 else 0) \<and> (\<forall>p \<in> set ps. post_id p \<noteq> ESP_EVENT_ANY_ID) \<and> live_blocks l' = live_blocks l + posts_blocks ps)
    \<and> (length (queue l) \<le> queue_size l \<longrightarrow> length (queue l') \<le> queue_size l)
    \<and> loop_task l' = loop_task l \<and> running_task l' = running_task l"
  using assms by (auto simp: esp_event_isr_post_to_def queue_send_def post_instance_delete_def Let_def split: if_splits)

text \<open>What posting does, many times over: the queue grows at its end and nothing else changes.\<close>

definition posted :: "event_loop \<Rightarrow> event_loop \<Rightarrow> event_post list \<Rightarrow> bool" where
  "posted l l' ps \<longleftrightarrow> loop_nodes l' = loop_nodes l \<and> queue_size l' = queue_size l \<and> queue l' = queue l @ ps
     \<and> live_blocks l' = live_blocks l + posts_blocks ps \<and> (length (queue l) \<le> queue_size l \<longrightarrow> length (queue l') \<le> queue_size l)
     \<and> (\<forall>p \<in> set ps. post_id p \<noteq> ESP_EVENT_ANY_ID) \<and> loop_task l' = loop_task l \<and> running_task l' = running_task l"

lemma posted_refl: "posted l l []"
  by (simp add: posted_def)

lemma posted_trans: "posted l l1 ps \<Longrightarrow> posted l1 l2 qs \<Longrightarrow> posted l l2 (ps @ qs)"
  by (auto simp: posted_def)

lemma send_req_posted: "\<exists>ps. posted l (send_req rq l) ps"
  using post_appends [of "rq_copy_ok rq" True l "rq_base rq" "rq_id rq" "rq_data rq"]
  by (auto simp: send_req_def posted_def prod_eq_iff)

lemma send_reqs_posted: "\<exists>ps. posted l (fold send_req rqs l) ps"
proof (induction rqs arbitrary: l)
  case (Cons rq rqs)
  obtain ps where p: "posted l (send_req rq l) ps" using send_req_posted by blast
  obtain qs where "posted (send_req rq l) (fold send_req rqs (send_req rq l)) qs" using Cons.IH by blast
  then show ?case using posted_trans [OF p] by auto
qed (auto intro: posted_refl)

lemma executes_posted: "\<exists>ps. posted l (fst (fold (handler_execute hf p) hs (l, w, ex))) ps"
proof (induction hs arbitrary: l w ex)
  case (Cons h hs)
  obtain w1 rqs where c: "hf (hi_handler h) (hi_arg h) (post_base p) (post_id p) (post_data p) w = (w1, rqs)"
    by (metis surj_pair)
  obtain ps where p: "posted l (fold send_req rqs l) ps" using send_reqs_posted by blast
  obtain qs where "posted (fold send_req rqs l) (fst (fold (handler_execute hf p) hs (fold send_req rqs l, w1, True))) qs"
    using Cons.IH by blast
  then have "posted l (fst (fold (handler_execute hf p) (h # hs) (l, w, ex))) (ps @ qs)"
    using posted_trans [OF p] c by (simp add: handler_execute_def)
  then show ?case ..
qed (auto intro: posted_refl)

section \<open>What an event reaches\<close>

type_synonym key = "event_base \<times> int"

definition kd_ids :: "event_base \<Rightarrow> int \<Rightarrow> id_node list \<Rightarrow> (key \<times> handler_instance) list" where
  "kd_ids b i ids = (case find (\<lambda>n. id_id n = i) ids of None \<Rightarrow> [] | Some n \<Rightarrow> map (Pair (b, i)) (id_handlers n))"

definition kd_base :: "event_base \<Rightarrow> int \<Rightarrow> base_node \<Rightarrow> (key \<times> handler_instance) list" where
  "kd_base b i bn =
     (if bn_base bn = b then map (Pair (b, ESP_EVENT_ANY_ID)) (bn_handlers bn) @ kd_ids b i (bn_ids bn) else [])"

definition kd_bases :: "event_base \<Rightarrow> int \<Rightarrow> base_node list \<Rightarrow> (key \<times> handler_instance) list" where
  "kd_bases b i bns = concat (map (kd_base b i) bns)"

definition kd_loop :: "event_base \<Rightarrow> int \<Rightarrow> loop_node \<Rightarrow> (key \<times> handler_instance) list" where
  "kd_loop b i ln = map (Pair (esp_event_any_base, ESP_EVENT_ANY_ID)) (ln_handlers ln) @ kd_bases b i (ln_bases ln)"

definition entries :: "event_base \<Rightarrow> int \<Rightarrow> loop_node list \<Rightarrow> (key \<times> handler_instance) list" where
  "entries b i lns = concat (map (kd_loop b i) lns)"

lemma entries_simps [simp]:
  "kd_bases b i [] = []" "kd_bases b i (bn # bns) = kd_base b i bn @ kd_bases b i bns"
  "kd_bases b i (bns @ bns') = kd_bases b i bns @ kd_bases b i bns'"
  "entries b i [] = []" "entries b i (ln # lns) = kd_loop b i ln @ entries b i lns"
  "entries b i (lns @ lns') = entries b i lns @ entries b i lns'"
  "kd_ids b i [] = []" "kd_ids b i (n # ids) = (if id_id n = i then map (Pair (b, i)) (id_handlers n) else kd_ids b i ids)"
  by (simp_all add: kd_bases_def entries_def kd_ids_def)

lemma run_base_entries:
  "run_base_node hf p bn s = fold (handler_execute hf p) (map snd (kd_base (post_base p) (post_id p) bn)) s"
  by (auto simp: run_base_node_def run_id_nodes_def kd_base_def kd_ids_def comp_def split: option.split)

lemma run_loop_entries:
  "run_loop_node hf p ln s = fold (handler_execute hf p) (map snd (kd_loop (post_base p) (post_id p) ln)) s"
proof -
  have "fold (run_base_node hf p) bns s = fold (handler_execute hf p) (map snd (kd_bases (post_base p) (post_id p) bns)) s"
    for bns s by (induction bns arbitrary: s) (auto simp: run_base_entries)
  then show ?thesis by (simp add: run_loop_node_def kd_loop_def comp_def)
qed

lemma run_entries:
  "fold (run_loop_node hf p) lns s = fold (handler_execute hf p) (map snd (entries (post_base p) (post_id p) lns)) s"
  by (induction lns arbitrary: s) (auto simp: run_loop_entries)

section \<open>Registration appends\<close>

text \<open>The keys a caller can name: all events, all events of a base, one event.\<close>

definition valid_key :: "key \<Rightarrow> bool" where
  "valid_key k \<longleftrightarrow> k = (esp_event_any_base, ESP_EVENT_ANY_ID) \<or> (\<exists>y. fst k = Base y)"

definition key_matches :: "key \<Rightarrow> event_base \<Rightarrow> int \<Rightarrow> bool" where
  "key_matches k b i \<longleftrightarrow> k = (esp_event_any_base, ESP_EVENT_ANY_ID)
     \<or> fst k = b \<and> (snd k = ESP_EVENT_ANY_ID \<or> snd k = i)"

definition reg_tag :: "key \<times> handler_instance \<Rightarrow> key \<times> nat" where
  "reg_tag e = (fst e, hi_handler (snd e))"

definition is_reg :: "key \<Rightarrow> nat \<Rightarrow> key \<times> handler_instance \<Rightarrow> bool" where
  "is_reg k h e \<longleftrightarrow> reg_tag e = (k, h)"

lemma reg_tag_Pair [simp]: "reg_tag (k, z) = (k, hi_handler z)"
  by (simp add: reg_tag_def)

lemma overwrite_fresh: "h \<notin> hi_handler ` set hs \<Longrightarrow> overwrite_arg hs h a = None"
  by (induction hs) auto

lemma handlers_add_fresh:
  assumes "handler_instances_add mem hs h a lv = (ESP_OK, hs', lv')" and "h \<notin> hi_handler ` set hs"
  shows "hs' = hs @ [\<lparr>hi_handler = h, hi_arg = a\<rparr>]"
  using assms by (simp add: handler_instances_add_def overwrite_fresh Let_def split: if_splits)

lemma kd_ids_append: "kd_ids b i (as @ bs) = (if i \<in> id_id ` set as then kd_ids b i as else kd_ids b i bs)"
  by (induction as) auto

lemma kd_ids_none: "i \<notin> id_id ` set ids \<Longrightarrow> kd_ids b i ids = []"
  by (induction ids) auto

lemma base_add_entries:
  assumes "base_node_add_handler mem bn eid h a lv = (ESP_OK, bn', lv')" and "ids_ok (bn_ids bn)"
    and "eid = ESP_EVENT_ANY_ID \<longrightarrow> bn_ids bn = []" and "i \<noteq> ESP_EVENT_ANY_ID" and "bn_base bn = Base y"
    and "\<forall>j. j \<noteq> ESP_EVENT_ANY_ID \<longrightarrow> (\<forall>e \<in> set (kd_base (Base y) j bn). \<not> is_reg (Base y, eid) h e)"
  shows "kd_base b i bn' = kd_base b i bn @
    (if key_matches (Base y, eid) b i then [((Base y, eid), \<lparr>hi_handler = h, hi_arg = a\<rparr>)] else [])"
proof (cases "eid = ESP_EVENT_ANY_ID")
  case True
  obtain err1 hs1 lv1 where add: "handler_instances_add mem (bn_handlers bn) h a lv = (err1, hs1, lv1)"
    by (metis prod_cases3)
  have "\<not> is_reg (Base y, eid) h ((Base y, eid), z)" if "z \<in> set (bn_handlers bn)" for z
    using that assms(4,5) True by (intro assms(6) [rule_format, of i]) (simp_all add: kd_base_def)
  then have "h \<notin> hi_handler ` set (bn_handlers bn)" by (auto simp: is_reg_def)
  then show ?thesis using handlers_add_fresh [of mem "bn_handlers bn" h a lv hs1 lv1] assms(1,3,5) True add
    by (auto simp: base_node_add_handler_def kd_base_def key_matches_def)
next
  case eid: False
  show ?thesis
  proof (cases "find_last (\<lambda>it. id_id it = eid) (bn_ids bn)")
    case None
    then have new: "eid \<notin> id_id ` set (bn_ids bn)" by (auto simp: find_last_None)
    obtain err1 hs1 lv1 where add: "handler_instances_add mem [] h a (lv + 1) = (err1, hs1, lv1)"
      by (metis prod_cases3)
    have b: "bn' = bn\<lparr>bn_ids := bn_ids bn @ [\<lparr>id_id = eid, id_handlers = hs1\<rparr>]\<rparr>" "err1 = ESP_OK"
      using assms(1) eid None add by (auto simp: base_node_add_handler_def split: if_splits)
    have "hs1 = [\<lparr>hi_handler = h, hi_arg = a\<rparr>]" using handlers_add_fresh [of mem "[]"] add b(2) by auto
    then show ?thesis using eid new kd_ids_none [of i "bn_ids bn"] assms(5)
      by (auto simp: b(1) kd_base_def key_matches_def kd_ids_append)
  next
    case (Some k)
    obtain err1 hs1 lv1 where add: "handler_instances_add mem (id_handlers (bn_ids bn ! k)) h a lv = (err1, hs1, lv1)"
      by (metis prod_cases3)
    obtain as bs where s: "bn_ids bn = as @ bn_ids bn ! k # bs" "id_id (bn_ids bn ! k) = eid"
      "\<And>z. (bn_ids bn)[k := z] = as @ z # bs" using find_last_split [OF Some] by metis
    let ?n = "bn_ids bn ! k"
    have b: "bn' = bn\<lparr>bn_ids := as @ ?n\<lparr>id_handlers := hs1\<rparr> # bs\<rparr>" "err1 = ESP_OK"
      using assms(1) eid Some add s(3) by (auto simp: base_node_add_handler_def)
    have "distinct (map id_id (as @ ?n # bs))" using assms(2) s(1) by (metis ids_ok_def)
    then have as: "eid \<notin> id_id ` set as" using s(2) by auto
    then have kd: "kd_ids (Base y) eid (bn_ids bn) = map (Pair (Base y, eid)) (id_handlers ?n)"
      using s(2) by (subst s(1)) (simp add: kd_ids_append)
    have "\<not> is_reg (Base y, eid) h ((Base y, eid), z)" if "z \<in> set (id_handlers ?n)" for z
      using that eid assms(5) by (intro assms(6) [rule_format, of eid]) (simp_all add: kd_base_def kd)
    then have "h \<notin> hi_handler ` set (id_handlers ?n)" by (auto simp: is_reg_def)
    then have hs1: "hs1 = id_handlers ?n @ [\<lparr>hi_handler = h, hi_arg = a\<rparr>]"
      using handlers_add_fresh add b(2) by auto
    have i: "kd_ids (Base y) i (as @ ?n\<lparr>id_handlers := hs1\<rparr> # bs) = kd_ids (Base y) i (as @ ?n # bs)
        @ (if i = eid then [((Base y, eid), \<lparr>hi_handler = h, hi_arg = a\<rparr>)] else [])"
      using as s(2) by (auto simp: kd_ids_append hs1)
    show ?thesis using i eid assms(5) s(1) by (auto simp: b(1) kd_base_def key_matches_def)
  qed
qed

lemma kd_bases_none: "\<forall>bn \<in> set bns. bn_base bn \<noteq> b \<Longrightarrow> kd_bases b i bns = []"
  by (induction bns) (auto simp: kd_base_def)

lemma loop_add_entries:
  assumes "loop_node_add_handler mem ln base eid h a lv = (ESP_OK, ln', lv')" and "\<forall>bn \<in> set (ln_bases ln). base_ok bn"
    and "i \<noteq> ESP_EVENT_ANY_ID" and "valid_key (base, eid)" and "base = esp_event_any_base \<longrightarrow> ln_bases ln = []"
    and fresh: "\<forall>x j. j \<noteq> ESP_EVENT_ANY_ID \<longrightarrow> (\<forall>e \<in> set (kd_loop (Base x) j ln). \<not> is_reg (base, eid) h e)"
  shows "kd_loop (Base x) i ln' = kd_loop (Base x) i ln @
    (if key_matches (base, eid) (Base x) i then [((base, eid), \<lparr>hi_handler = h, hi_arg = a\<rparr>)] else [])"
proof -
  let ?e = "if key_matches (base, eid) (Base x) i then [((base, eid), \<lparr>hi_handler = h, hi_arg = a\<rparr>)] else []"
  consider (loop) "base = esp_event_any_base \<and> eid = ESP_EVENT_ANY_ID"
    | (new) y where "base = Base y" "new_base_needed (ln_bases ln) base eid"
    | (old) y k where "base = Base y" "\<not> new_base_needed (ln_bases ln) base eid"
        "find_last (\<lambda>it. bn_base it = base) (ln_bases ln) = Some k"
  proof (cases "base = esp_event_any_base \<and> eid = ESP_EVENT_ANY_ID")
    case False
    then obtain y where y: "base = Base y" using assms(4) by (auto simp: valid_key_def)
    have "\<exists>k. find_last (\<lambda>it. bn_base it = base) (ln_bases ln) = Some k" if "\<not> new_base_needed (ln_bases ln) base eid"
      using that by (auto simp: new_base_needed_def split: option.splits)
    then show thesis using y that by blast
  qed (rule that)
  then show ?thesis
  proof cases
    case loop
    obtain err1 hs1 lv1 where add: "handler_instances_add mem (ln_handlers ln) h a lv = (err1, hs1, lv1)"
      by (metis prod_cases3)
    have "\<not> is_reg (base, eid) h ((base, eid), z)" if "z \<in> set (ln_handlers ln)" for z
      using that loop by (intro fresh [rule_format, of 0]) (simp_all add: kd_loop_def ESP_EVENT_ANY_ID_def)
    then have "h \<notin> hi_handler ` set (ln_handlers ln)" by (auto simp: is_reg_def)
    then show ?thesis using handlers_add_fresh [of mem "ln_handlers ln" h a lv hs1 lv1] assms(1,5) loop add
      by (auto simp: loop_node_add_handler_def kd_loop_def key_matches_def)
  next
    case new
    let ?bn = "\<lparr>bn_base = base, bn_handlers = [], bn_ids = []\<rparr>"
    obtain err1 bn1 lv1 where add: "base_node_add_handler mem ?bn eid h a (lv + 1) = (err1, bn1, lv1)"
      by (metis prod_cases3)
    have l: "err1 = ESP_OK" "ln' = ln\<lparr>ln_bases := ln_bases ln @ [bn1]\<rparr>"
      using assms(1) new add by (auto simp: loop_node_add_handler_def split: if_splits)
    have "kd_base (Base x) i bn1 = kd_base (Base x) i ?bn @ ?e"
      using base_add_entries [of mem ?bn eid h a "lv + 1" bn1 lv1 i y "Base x"] add l(1) new(1) assms(3)
      by (auto simp: kd_base_def)
    then show ?thesis by (simp add: l(2) kd_loop_def) (simp add: kd_base_def)
  next
    case old
    obtain err1 bn1 lv1 where add: "base_node_add_handler mem (ln_bases ln ! k) eid h a lv = (err1, bn1, lv1)"
      by (metis prod_cases3)
    obtain as bs where s: "ln_bases ln = as @ ln_bases ln ! k # bs" "bn_base (ln_bases ln ! k) = base"
      "\<forall>z \<in> set bs. bn_base z \<noteq> base" "\<And>z. (ln_bases ln)[k := z] = as @ z # bs"
      using find_last_split [OF old(3)] by metis
    let ?bn = "ln_bases ln ! k"
    have l: "err1 = ESP_OK" "ln' = ln\<lparr>ln_bases := as @ bn1 # bs\<rparr>"
      using assms(1) old add s(4) by (auto simp: loop_node_add_handler_def Let_def)
    have any: "eid = ESP_EVENT_ANY_ID \<longrightarrow> bn_ids ?bn = []" using old(2,3) by (auto simp: new_base_needed_def)
    have ok: "ids_ok (bn_ids ?bn)" using assms(2) s(1) by (metis base_ok_def in_set_conv_decomp)
    have "\<forall>e \<in> set (kd_base (Base y) j ?bn). \<not> is_reg (Base y, eid) h e" if "j \<noteq> ESP_EVENT_ANY_ID" for j
    proof -
      have "set (kd_base (Base y) j ?bn) \<subseteq> set (kd_bases (Base y) j (as @ ?bn # bs))" by auto
      then show ?thesis using fresh [rule_format, OF that, of _ y] old(1) s(1) by (auto simp: kd_loop_def)
    qed
    then have "kd_base (Base x) i bn1 = kd_base (Base x) i ?bn @ ?e"
      using base_add_entries [of mem ?bn eid h a lv bn1 lv1 i y "Base x"] add l(1) ok any assms(3) s(2) old(1) by auto
    moreover have "key_matches (base, eid) (Base x) i \<Longrightarrow> kd_bases (Base x) i bs = []"
      using s(3) old(1) by (intro kd_bases_none) (auto simp: key_matches_def)
    ultimately have "kd_bases (Base x) i (as @ bn1 # bs) = kd_bases (Base x) i (as @ ?bn # bs) @ ?e" by auto
    then show ?thesis using s(1) by (simp add: l(2) kd_loop_def)
  qed
qed

lemma register_entries:
  assumes "esp_event_handler_register_with mem l base eid h a = Some (err, l')" and "tree_ok (loop_nodes l)"
    and k: "k = (if base = ESP_EVENT_ANY_BASE then esp_event_any_base else base, eid)" "base \<noteq> esp_event_any_base"
    and "i \<noteq> ESP_EVENT_ANY_ID"
    and fresh: "\<forall>x j. j \<noteq> ESP_EVENT_ANY_ID \<longrightarrow> (\<forall>e \<in> set (entries (Base x) j (loop_nodes l)). \<not> is_reg k h e)"
  shows "entries (Base x) i (loop_nodes l') = entries (Base x) i (loop_nodes l) @
    (if err = ESP_OK \<and> key_matches k (Base x) i then [(k, \<lparr>hi_handler = h, hi_arg = a\<rparr>)] else [])"
proof -
  let ?b = "fst k" and ?lns = "loop_nodes l"
  let ?e = "if err = ESP_OK \<and> key_matches k (Base x) i then [(k, \<lparr>hi_handler = h, hi_arg = a\<rparr>)] else []"
  consider (bad) "base = ESP_EVENT_ANY_BASE \<and> eid \<noteq> ESP_EVENT_ANY_ID"
    | (new) "valid_key k" "\<not> (base = ESP_EVENT_ANY_BASE \<and> eid \<noteq> ESP_EVENT_ANY_ID)"
        "?lns = [] \<or> ln_bases (last ?lns) \<noteq> [] \<and> ?b = esp_event_any_base \<and> eid = ESP_EVENT_ANY_ID"
    | (old) "valid_key k" "\<not> (base = ESP_EVENT_ANY_BASE \<and> eid \<noteq> ESP_EVENT_ANY_ID)"
        "\<not> (?lns = [] \<or> ln_bases (last ?lns) \<noteq> [] \<and> ?b = esp_event_any_base \<and> eid = ESP_EVENT_ANY_ID)"
    using k by (cases base) (auto simp: valid_key_def)
  then show ?thesis
  proof cases
    case bad then show ?thesis using assms(1) by (auto simp: esp_event_handler_register_with_def)
  next
    case new
    let ?ln = "\<lparr>ln_handlers = [], ln_bases = []\<rparr>"
    obtain err1 ln1 lv1 where add: "loop_node_add_handler mem ?ln ?b eid h a (live_blocks l + 1) = (err1, ln1, lv1)"
      by (metis prod_cases3)
    have "err1 = ESP_OK \<Longrightarrow> kd_loop (Base x) i ln1 =
        (if key_matches k (Base x) i then [(k, \<lparr>hi_handler = h, hi_arg = a\<rparr>)] else [])"
      using loop_add_entries [of mem ?ln ?b eid h a "live_blocks l + 1" ln1 lv1 i x] add new(1) assms(5) k
      by (auto simp: kd_loop_def)
    then show ?thesis using assms(1) new add k
      by (auto simp: esp_event_handler_register_with_def Let_def split: if_splits)
  next
    case old
    obtain err1 ln1 lv1 where add: "loop_node_add_handler mem (last ?lns) ?b eid h a (live_blocks l) = (err1, ln1, lv1)"
      by (metis prod_cases3)
    obtain lns ln where lns: "?lns = lns @ [ln]" using old by (metis append_butlast_last_id)
    have ok: "\<forall>bn \<in> set (ln_bases ln). base_ok bn" using assms(2) by (simp add: lns loop_ok_def)
    have l': "err = err1" "loop_nodes l' = lns @ [ln1]"
      using assms(1) old add k by (auto simp: esp_event_handler_register_with_def Let_def lns)
    have any: "?b = esp_event_any_base \<longrightarrow> ln_bases ln = []" using old k by (auto simp: lns)
    have f: "\<not> is_reg (?b, eid) h e" if "j \<noteq> ESP_EVENT_ANY_ID" "e \<in> set (kd_loop (Base x) j ln)" for x j e
    proof -
      have "e \<in> set (entries (Base x) j ?lns)" using that(2) by (simp add: lns)
      then show ?thesis using fresh that(1) k(1) by auto
    qed
    show ?thesis
    proof (cases "err1 = ESP_OK")
      case True
      then show ?thesis using loop_add_entries [of mem ln ?b eid h a "live_blocks l" ln1 lv1 i x] add ok any f old(1) assms(5) k
        by (auto simp: l' lns)
    next
      case False
      then show ?thesis using loop_add_blocks [OF add] ok by (auto simp: l' lns)
    qed
  qed
qed

section \<open>Unregistration removes\<close>

text \<open>\<open>apart\<close>: no handler stands twice under one key.\<close>

definition apart :: "(key \<times> handler_instance) list \<Rightarrow> bool" where
  "apart es \<longleftrightarrow> distinct (map reg_tag es)"

lemma apart_append [simp]: "apart []"
  "apart (es @ fs) \<longleftrightarrow> apart es \<and> apart fs \<and> reg_tag ` set es \<inter> reg_tag ` set fs = {}"
  by (auto simp: apart_def)

lemma apart_Pair: "apart (map (Pair k) hs) \<longleftrightarrow> distinct (map hi_handler hs)"
  by (induction hs) (auto simp: apart_def)

abbreviation without :: "key \<Rightarrow> nat \<Rightarrow> (key \<times> handler_instance) list \<Rightarrow> (key \<times> handler_instance) list" where
  "without k h \<equiv> filter (\<lambda>e. \<not> is_reg k h e)"

lemma without_Pair: "without k h (map (Pair k') hs) =
    map (Pair k') (if k' = k then filter (\<lambda>z. hi_handler z \<noteq> h) hs else hs)"
  by (induction hs) (auto simp: is_reg_def)

lemma without_apart:
  assumes "apart (es @ fs)" and "e \<in> set es" and "is_reg k h e"
  shows "without k h fs = fs"
proof -
  have "(k, h) \<in> reg_tag ` set es" using assms(2,3) by (metis image_eqI is_reg_def)
  then have "(k, h) \<notin> reg_tag ` set fs" using assms(1) by auto
  then show ?thesis by (auto simp: filter_id_conv is_reg_def image_iff)
qed

lemma handlers_remove_filter:
  "handler_instances_remove hs h lv = (err, hs', lv') \<Longrightarrow> distinct (map hi_handler hs) \<Longrightarrow>
     hs' = filter (\<lambda>z. hi_handler z \<noteq> h) hs \<and> (err = ESP_OK \<longrightarrow> h \<in> hi_handler ` set hs)"
proof (induction hs arbitrary: hs' lv')
  case (Cons z hs)
  have "h \<notin> hi_handler ` set hs \<Longrightarrow> filter (\<lambda>z. hi_handler z \<noteq> h) hs = hs" by (auto simp: filter_id_conv)
  then show ?case using Cons by (auto split: if_splits prod.splits)
qed simp

lemma handlers_remove_without:
  assumes "handler_instances_remove hs h lv = (err, hs', lv')" and "apart (map (Pair k) hs)"
  shows "map (Pair k) hs' = without k h (map (Pair k) hs)
    \<and> (err = ESP_OK \<longrightarrow> (\<exists>e \<in> set (map (Pair k) hs). is_reg k h e))"
proof -
  have d: "distinct (map hi_handler hs)" using assms(2) by (simp add: apart_Pair)
  show ?thesis unfolding without_Pair using handlers_remove_filter [OF assms(1) d] by (auto simp: is_reg_def)
qed

lemma ids_remove_other:
  "ids_remove ids eid h lv = (err, ids', lv') \<Longrightarrow> i \<noteq> eid \<Longrightarrow> kd_ids b i ids' = kd_ids b i ids"
  by (induction ids arbitrary: err lv ids' lv') (auto split: if_splits prod.splits)

lemma ids_remove_none: "eid \<notin> id_id ` set ids \<Longrightarrow> ids_remove ids eid h lv = (ESP_ERR_NOT_FOUND, ids, lv)"
  by (induction ids) auto

lemma ids_remove_without:
  "ids_remove ids eid h lv = (err, ids', lv') \<Longrightarrow> ids_ok ids \<Longrightarrow> apart (kd_ids b eid ids) \<Longrightarrow>
     kd_ids b eid ids' = without (b, eid) h (kd_ids b eid ids)
     \<and> (err = ESP_OK \<longrightarrow> (\<exists>e \<in> set (kd_ids b eid ids). is_reg (b, eid) h e))"
proof (induction ids arbitrary: err lv ids' lv')
  case (Cons n ids)
  show ?case
  proof (cases "id_id n = eid")
    case True
    obtain err1 hs1 lv1 where r: "handler_instances_remove (id_handlers n) h lv = (err1, hs1, lv1)" by (metis prod_cases3)
    have none: "eid \<notin> id_id ` set ids" using Cons.prems(2) True by simp
    have w: "map (Pair (b, eid)) hs1 = without (b, eid) h (kd_ids b eid (n # ids))"
      "err1 = ESP_OK \<longrightarrow> (\<exists>e \<in> set (kd_ids b eid (n # ids)). is_reg (b, eid) h e)"
      using handlers_remove_without [OF r] Cons.prems(3) True by auto
    show ?thesis
    proof (cases "err1 = ESP_OK \<and> hs1 = []")
      case gone: True
      then show ?thesis using w Cons.prems(1) r none True kd_ids_none [of eid ids b] by auto
    next
      case False
      then have "ids' = n\<lparr>id_handlers := hs1\<rparr> # ids" "err = ESP_ERR_NOT_FOUND"
        using Cons.prems(1) r True none by (auto simp: ids_remove_none)
      then show ?thesis using w True by auto
    qed
  next
    case False
    obtain err2 ids2 lv2 where s: "ids_remove ids eid h lv = (err2, ids2, lv2)" by (metis prod_cases3)
    show ?thesis using Cons.prems Cons.IH [OF s] False s by auto
  qed
qed simp

text \<open>One call of a removal loop on the list of nodes: what it does to the entries of an event, as the
  relation between the entries before and after; \<open>found\<close> says that the call ended early.\<close>

definition removes :: "key \<Rightarrow> nat \<Rightarrow> event_base \<Rightarrow> int \<Rightarrow> (key \<times> handler_instance) list \<Rightarrow>
    (key \<times> handler_instance) list \<Rightarrow> bool \<Rightarrow> bool" where
  "removes k h b i es es' found \<longleftrightarrow>
     (if key_matches k b i then es' = without k h es \<and> (found \<longrightarrow> (\<exists>e \<in> set es. is_reg k h e)) else es' = es)"

lemma removes_append:
  assumes "removes k h b i es es' f" and "removes k h b i fs fs' g"
  shows "removes k h b i (es @ fs) (es' @ fs') g"
  using assms by (auto simp: removes_def split: if_splits)

lemma removes_first:
  assumes "removes k h b i es [] True" and "apart (es @ fs)"
  shows "removes k h b i (es @ fs) fs True"
proof (cases "key_matches k b i")
  case True
  then obtain e where e: "e \<in> set es" "is_reg k h e" "without k h es = []" using assms(1) by (auto simp: removes_def)
  then show ?thesis using True without_apart [OF assms(2) e(1,2)] by (auto simp: removes_def)
next
  case False
  then show ?thesis using assms(1) by (simp add: removes_def)
qed

lemma base_remove_removes:
  assumes "base_node_remove_handler bn eid h lv = (err, bn', lv')" and "ids_ok (bn_ids bn)" and "bn_base bn = Base y"
    and "apart (kd_base (Base x) i bn)" and "i \<noteq> ESP_EVENT_ANY_ID"
  shows "removes (Base y, eid) h (Base x) i (kd_base (Base x) i bn) (kd_base (Base x) i bn') (err = ESP_OK) \<and> bn_base bn' = Base y"
proof (cases "eid = ESP_EVENT_ANY_ID")
  case True
  obtain err1 hs1 lv1 where r: "handler_instances_remove (bn_handlers bn) h lv = (err1, hs1, lv1)" by (metis prod_cases3)
  have b: "err = err1" "bn' = bn\<lparr>bn_handlers := hs1\<rparr>" using assms(1) True r by (auto simp: base_node_remove_handler_def)
  have "without (Base y, eid) h (kd_ids (Base x) i ids) = kd_ids (Base x) i ids" for ids
    using assms(5) True by (auto simp: filter_id_conv is_reg_def kd_ids_def split: option.splits)
  then show ?thesis using handlers_remove_without [OF r, of "(Base y, eid)"] assms(3,4,5) True
    by (auto simp: removes_def kd_base_def key_matches_def b bex_Un)
next
  case False
  obtain err1 ids1 lv1 where r: "ids_remove (bn_ids bn) eid h lv = (err1, ids1, lv1)" by (metis prod_cases3)
  have b: "err = err1" "bn' = bn\<lparr>bn_ids := ids1\<rparr>" using assms(1) False r by (auto simp: base_node_remove_handler_def)
  have w: "without (Base y, eid) h (map (Pair (b, ESP_EVENT_ANY_ID)) hs) = map (Pair (b, ESP_EVENT_ANY_ID)) hs" for b hs
    using False by (simp add: without_Pair)
  show ?thesis
  proof (cases "x = y \<and> i = eid")
    case True
    then have "apart (kd_ids (Base y) eid (bn_ids bn))" using assms(3,4) by (simp add: kd_base_def)
    then show ?thesis using ids_remove_without [OF r assms(2)] True assms(3) w
      by (auto simp: removes_def kd_base_def key_matches_def b bex_Un)
  next
    case False
    then show ?thesis using ids_remove_other [OF r, of i] assms(3) \<open>eid \<noteq> ESP_EVENT_ANY_ID\<close>
      by (auto simp: removes_def kd_base_def key_matches_def b bex_Un)
  qed
qed

lemma bases_remove_removes:
  "bases_remove bns (Base y) eid h lv = (err, bns', lv') \<Longrightarrow> \<forall>bn \<in> set bns. base_ok bn \<Longrightarrow>
     apart (kd_bases (Base x) i bns) \<Longrightarrow> i \<noteq> ESP_EVENT_ANY_ID \<Longrightarrow>
     removes (Base y, eid) h (Base x) i (kd_bases (Base x) i bns) (kd_bases (Base x) i bns') (err = ESP_OK)"
proof (induction bns arbitrary: err lv bns' lv')
  case (Cons bn bns)
  obtain err1 bn1 lv1 where r: "base_node_remove_handler bn eid h lv = (err1, bn1, lv1)" by (metis prod_cases3)
  obtain err2 bns2 lv2 where s: "bases_remove bns (Base y) eid h (if bn_base bn = Base y then lv1 else lv) = (err2, bns2, lv2)"
    by (metis prod_cases3)
  have ap: "apart (kd_base (Base x) i bn @ kd_bases (Base x) i bns)" using Cons.prems(3) by simp
  have IH: "removes (Base y, eid) h (Base x) i (kd_bases (Base x) i bns) (kd_bases (Base x) i bns2) (err2 = ESP_OK)"
    using Cons.IH [OF s] Cons.prems(2,4) ap by auto
  show ?case
  proof (cases "bn_base bn = Base y")
    case True
    have b: "removes (Base y, eid) h (Base x) i (kd_base (Base x) i bn) (kd_base (Base x) i bn1) (err1 = ESP_OK)"
      using base_remove_removes [OF r _ True] Cons.prems(2,4) ap by (auto simp: base_ok_def)
    show ?thesis
    proof (cases "err1 = ESP_OK \<and> bn_handlers bn1 = [] \<and> bn_ids bn1 = []")
      case gone: True
      then have "kd_base (Base x) i bn1 = []" by (auto simp: kd_base_def)
      then show ?thesis using removes_first [OF _ ap] b gone True Cons.prems(1) r by auto
    next
      case False
      then have "bns' = bn1 # bns2" "err = err2" using Cons.prems(1) r s True by auto
      then show ?thesis using removes_append [OF b IH] by simp
    qed
  next
    case False
    have "removes (Base y, eid) h (Base x) i (kd_base (Base x) i bn) (kd_base (Base x) i bn) False"
      using False by (auto simp: removes_def key_matches_def kd_base_def)
    moreover have "bns' = bn # bns2" "err = err2" using Cons.prems(1) s False by auto
    ultimately show ?thesis using removes_append [OF _ IH] by simp
  qed
qed (simp add: removes_def)

lemma loop_remove_removes:
  assumes "loop_node_remove_handler ln base eid h lv = (err, ln', lv')" and "loop_ok ln" and "valid_key (base, eid)"
    and "apart (kd_loop (Base x) i ln)" and "i \<noteq> ESP_EVENT_ANY_ID"
  shows "removes (base, eid) h (Base x) i (kd_loop (Base x) i ln) (kd_loop (Base x) i ln') (err = ESP_OK)"
proof (cases "base = esp_event_any_base \<and> eid = ESP_EVENT_ANY_ID")
  case True
  obtain err1 hs1 lv1 where r: "handler_instances_remove (ln_handlers ln) h lv = (err1, hs1, lv1)" by (metis prod_cases3)
  have b: "err = err1" "ln' = ln\<lparr>ln_handlers := hs1\<rparr>" using assms(1) True r by (auto simp: loop_node_remove_handler_def)
  have "without (base, eid) h (kd_bases (Base x) i bns) = kd_bases (Base x) i bns" for bns
    using assms(5) True
    by (auto simp: filter_id_conv is_reg_def kd_bases_def kd_base_def kd_ids_def split: option.splits if_splits)
  then show ?thesis using handlers_remove_without [OF r, of "(base, eid)"] assms(4) True
    by (auto simp: removes_def kd_loop_def key_matches_def b bex_Un)
next
  case False
  then obtain y where y: "base = Base y" using assms(3) by (auto simp: valid_key_def)
  obtain err1 bns1 lv1 where r: "bases_remove (ln_bases ln) (Base y) eid h lv = (err1, bns1, lv1)" by (metis prod_cases3)
  have b: "err = err1" "ln' = ln\<lparr>ln_bases := bns1\<rparr>"
    using assms(1) y r by (auto simp: loop_node_remove_handler_def)
  have "removes (Base y, eid) h (Base x) i (map (Pair (esp_event_any_base, ESP_EVENT_ANY_ID)) (ln_handlers ln))
      (map (Pair (esp_event_any_base, ESP_EVENT_ANY_ID)) (ln_handlers ln)) False"
    by (simp add: removes_def without_Pair)
  moreover have "removes (Base y, eid) h (Base x) i (kd_bases (Base x) i (ln_bases ln)) (kd_bases (Base x) i bns1) (err1 = ESP_OK)"
    using bases_remove_removes [OF r] assms(2,4,5) by (auto simp: loop_ok_def kd_loop_def)
  ultimately show ?thesis using removes_append by (auto simp: kd_loop_def b y)
qed

lemma loops_remove_removes:
  "loops_remove lns base eid h lv = (lns', lv') \<Longrightarrow> tree_ok lns \<Longrightarrow> valid_key (base, eid) \<Longrightarrow>
     apart (entries (Base x) i lns) \<Longrightarrow> i \<noteq> ESP_EVENT_ANY_ID \<Longrightarrow>
     removes (base, eid) h (Base x) i (entries (Base x) i lns) (entries (Base x) i lns') False"
proof (induction lns arbitrary: lv lns' lv')
  case (Cons ln lns)
  obtain err1 ln1 lv1 where r: "loop_node_remove_handler ln base eid h lv = (err1, ln1, lv1)" by (metis prod_cases3)
  obtain lns2 lv2 where s: "loops_remove lns base eid h lv1 = (lns2, lv2)" by (metis surj_pair)
  have ap: "apart (kd_loop (Base x) i ln @ entries (Base x) i lns)" using Cons.prems(4) by simp
  have IH: "removes (base, eid) h (Base x) i (entries (Base x) i lns) (entries (Base x) i lns2) False"
    using Cons.IH [OF s] Cons.prems ap by auto
  have b: "removes (base, eid) h (Base x) i (kd_loop (Base x) i ln) (kd_loop (Base x) i ln1) (err1 = ESP_OK)"
    using loop_remove_removes [OF r] Cons.prems ap by auto
  show ?case
  proof (cases "err1 = ESP_OK \<and> ln_bases ln1 = [] \<and> ln_handlers ln1 = []")
    case gone: True
    then have "kd_loop (Base x) i ln1 = []" by (simp add: kd_loop_def)
    then have "removes (base, eid) h (Base x) i (kd_loop (Base x) i ln @ entries (Base x) i lns) (entries (Base x) i lns) True"
      using removes_first [OF _ ap] b gone by auto
    then show ?thesis using gone Cons.prems(1) r by (auto simp: removes_def)
  next
    case False
    then have "lns' = ln1 # lns2" using Cons.prems(1) r s by auto
    then show ?thesis using removes_append [OF b IH] by simp
  qed
qed (simp add: removes_def)

end
