(* ===== verification/EventProps.thy ===== *)
theory EventProps
  imports EventTree
begin

text \<open>
  Properties of the event loop library.  \<open>ev_run\<close> is reachability by registrations, unregistrations, posts
  and runs, with the history of the accepted registrations.  What an event reaches is what the history says,
  in its order; posts are served first in, first out; nothing is leaked; a run ends within twice its time.
  The last section shows what becomes of a handler that is registered twice.
\<close>

section \<open>Runs\<close>

definition norm_base :: "event_base \<Rightarrow> event_base" where
  "norm_base b = (if b = ESP_EVENT_ANY_BASE then esp_event_any_base else b)"

text \<open>The history of a loop: the registrations and unregistrations that were accepted.\<close>

datatype reg_call = Registered key handler_instance | Unregistered key nat

fun after_call :: "reg_call \<Rightarrow> (key \<times> handler_instance) list \<Rightarrow> (key \<times> handler_instance) list" where
  "after_call (Registered k z) R = R @ [(k, z)]"
| "after_call (Unregistered k h) R = without k h R"

definition registered :: "reg_call list \<Rightarrow> (key \<times> handler_instance) list" where
  "registered cs = fold after_call cs []"

text \<open>No handler is registered under a key under which it is registered already.\<close>

definition no_double :: "reg_call list \<Rightarrow> bool" where
  "no_double cs \<longleftrightarrow> (\<forall>n < length cs. \<forall>k z. cs ! n = Registered k z \<longrightarrow>
     (\<forall>e \<in> set (registered (take n cs)). \<not> is_reg k (hi_handler z) e))"

inductive ev_run :: "reg_call list \<Rightarrow> event_loop \<Rightarrow> 'w \<Rightarrow> bool" where
  create: "esp_event_loop_create ok1 ok2 ok3 ok4 task n = Inr l \<Longrightarrow> ev_run [] l w"
| registered: "ev_run cs l w \<Longrightarrow> base \<noteq> esp_event_any_base \<Longrightarrow>
    esp_event_handler_register_with mem l base eid h a = Some (ESP_OK, l') \<Longrightarrow>
    ev_run (cs @ [Registered (norm_base base, eid) \<lparr>hi_handler = h, hi_arg = a\<rparr>]) l' w"
| not_registered: "ev_run cs l w \<Longrightarrow> base \<noteq> esp_event_any_base \<Longrightarrow>
    esp_event_handler_register_with mem l base eid h a = Some (err, l') \<Longrightarrow> err \<noteq> ESP_OK \<Longrightarrow> ev_run cs l' w"
| unregistered: "ev_run cs l w \<Longrightarrow> base \<noteq> esp_event_any_base \<Longrightarrow>
    esp_event_handler_unregister_with l base eid h = (ESP_OK, l') \<Longrightarrow>
    ev_run (cs @ [Unregistered (norm_base base, eid) h]) l' w"
| post: "ev_run cs l w \<Longrightarrow> esp_event_post_to ok tk l base eid d = (err, l') \<Longrightarrow> ev_run cs l' w"
| isr_post: "ev_run cs l w \<Longrightarrow> esp_event_isr_post_to l base eid d n = (err, l') \<Longrightarrow> ev_run cs l' w"
| run: "ev_run cs l w \<Longrightarrow> esp_event_loop_run hf cur ticks ts (l, w) = (r, l', w') \<Longrightarrow> ev_run cs l' w'"

subsection \<open>Dispatching one post\<close>

lemma dispatch_entries:
  "dispatch_post hf cur p l w = (case fold (handler_execute hf p) (map snd (entries (post_base p) (post_id p) (loop_nodes l)))
     (l\<lparr>running_task := Some cur\<rparr>, w, False) of
      (l, w, ex) \<Rightarrow> (l\<lparr>live_blocks := post_instance_delete p (live_blocks l)\<rparr>, w))"
  by (simp add: dispatch_post_def Let_def run_entries)

lemma dispatch_posted:
  assumes "dispatch_post hf cur p l w = (l', w')"
  shows "\<exists>ps. posted (l\<lparr>running_task := Some cur, live_blocks := post_instance_delete p (live_blocks l)\<rparr>) l' ps"
proof -
  let ?es = "map snd (entries (post_base p) (post_id p) (loop_nodes l))" and ?l = "l\<lparr>running_task := Some cur\<rparr>"
  obtain l1 w1 ex where f: "fold (handler_execute hf p) ?es (?l, w, False) = (l1, w1, ex)" by (metis prod_cases3)
  then obtain ps where "posted ?l l1 ps" using executes_posted [of ?l hf p ?es w False] by auto
  then show ?thesis using assms f by (auto simp: dispatch_entries posted_def post_instance_delete_def)
qed

text \<open>What a whole run does to the state, whatever the handlers do: the posts \<open>served\<close> leave the front of the
  queue, the posts \<open>ps\<close> have come in at its end.\<close>

definition advanced :: "event_loop \<Rightarrow> event_loop \<Rightarrow> event_post list \<Rightarrow> event_post list \<Rightarrow> bool" where
  "advanced l l' ps served \<longleftrightarrow> loop_nodes l' = loop_nodes l \<and> queue_size l' = queue_size l \<and> loop_task l' = loop_task l
     \<and> queue l @ ps = served @ queue l' \<and> (\<forall>p \<in> set ps. post_id p \<noteq> ESP_EVENT_ANY_ID)
     \<and> live_blocks l' - posts_blocks (queue l') = live_blocks l - posts_blocks (queue l)
     \<and> (length (queue l) \<le> queue_size l \<longrightarrow> length (queue l') \<le> queue_size l)"

lemma advanced_refl: "advanced l l [] []"
  by (simp add: advanced_def)

lemma advanced_trans: "advanced l l1 ps served \<Longrightarrow> advanced l1 l2 qs served' \<Longrightarrow> advanced l l2 (ps @ qs) (served @ served')"
proof -
  assume a: "advanced l l1 ps served" and b: "advanced l1 l2 qs served'"
  then have "queue l @ ps @ qs = (served @ served') @ queue l2" unfolding advanced_def by (metis append_assoc)
  then show ?thesis using a b by (auto simp: advanced_def)
qed

lemma posted_advanced: "posted l l' ps \<Longrightarrow> advanced l l' ps []"
  by (auto simp: posted_def advanced_def)

lemma advanced_task: "advanced l l' ps served \<Longrightarrow> advanced l (l'\<lparr>running_task := t\<rparr>) ps served"
  by (simp add: advanced_def)

lemma dispatch_advanced:
  assumes "dispatch_post hf cur p (l\<lparr>queue := q\<rparr>) w = (l', w')" and "queue l = p # q"
  shows "\<exists>ps. advanced l l' ps [p]"
  using dispatch_posted [OF assms(1)] assms(2) by (auto simp: posted_def advanced_def post_instance_delete_def)

lemma run_turns_advanced:
  "run_turns hf cur ticks rem now ts (l, w) = (r, l', w') \<Longrightarrow> \<exists>ps served. advanced l l' ps served"
proof (induction ts arbitrary: rem now l w)
  case Nil then show ?case using advanced_refl by auto
next
  case (Cons t ts)
  let ?l = "fold send_req (arrivals t) l"
  obtain ps where "posted l ?l ps" using send_reqs_posted by blast
  then have a: "advanced l ?l ps []" by (rule posted_advanced)
  show ?case
  proof (cases "queue ?l")
    case Nil
    show ?thesis
    proof (cases "ticks = None")
      case True
      then have "run_turns hf cur ticks rem (now + waited t) ts (?l, w) = (r, l', w')" using Cons.prems Nil by simp
      then show ?thesis using Cons.IH [of rem "now + waited t" ?l w] advanced_trans [OF a] by blast
    next
      case False
      then have "l' = ?l" using Cons.prems Nil by auto
      then show ?thesis using a by blast
    qed
  next
    case (Cons p q)
    obtain l1 w1 where d: "dispatch_post hf cur p (?l\<lparr>queue := q\<rparr>) w = (l1, w1)" by (metis surj_pair)
    obtain qs where b: "advanced l l1 (ps @ qs) [p]" using dispatch_advanced [OF d Cons] advanced_trans [OF a] by auto
    have "l' = l1 \<or> (\<exists>rem now. run_turns hf cur ticks rem now ts (l1\<lparr>running_task := None\<rparr>, w1) = (r, l', w'))"
      using Cons.prems Cons d by (auto simp: Let_def split: if_splits)
    then show ?thesis using b Cons.IH [of _ _ "l1\<lparr>running_task := None\<rparr>" w1] advanced_trans [OF advanced_task [OF b]] by blast
  qed
qed

section \<open>The invariant\<close>

definition named :: "loop_node list \<Rightarrow> bool" where
  "named lns \<longleftrightarrow> (\<forall>ln \<in> set lns. \<forall>bn \<in> set (ln_bases ln). \<exists>y. bn_base bn = Base y)"

lemma loop_add_named:
  assumes "loop_node_add_handler mem ln base eid h a lv = (err, ln', lv')" and "valid_key (base, eid)" and "named [ln]"
  shows "named [ln']"
proof -
  have b: "bn_base bn' = bn_base bn" if "base_node_add_handler mem bn eid h a lv = (err, bn', lv')" for bn lv err bn' lv'
    using that by (auto simp: base_node_add_handler_def split: if_splits option.splits prod.splits)
  have i: "bn_base (ln_bases ln ! i) = c" if "find_last (\<lambda>it. bn_base it = c) (ln_bases ln) = Some i" for i c
    using find_last_Some [OF that] by simp
  show ?thesis using assms
    by (auto simp: loop_node_add_handler_def named_def valid_key_def Let_def new_base_needed_def
        dest!: b i set_update_subset_insert [THEN subsetD] split: if_splits prod.splits option.splits)
qed

lemma register_named:
  assumes "esp_event_handler_register_with mem l base eid h a = Some (err, l')" and "base \<noteq> esp_event_any_base"
    and "named (loop_nodes l)"
  shows "named (loop_nodes l')"
proof -
  let ?b = "if base = ESP_EVENT_ANY_BASE then esp_event_any_base else base" and ?lns = "loop_nodes l"
  have v: "\<not> (base = ESP_EVENT_ANY_BASE \<and> eid \<noteq> ESP_EVENT_ANY_ID) \<Longrightarrow> valid_key (?b, eid)"
    using assms(2) by (cases base) (auto simp: valid_key_def)
  have n: "named (xs @ [x]) \<longleftrightarrow> named xs \<and> named [x]" for xs x by (auto simp: named_def)
  have l: "?lns \<noteq> [] \<Longrightarrow> named (butlast ?lns) \<and> named [last ?lns]"
    using assms(3) n [of "butlast ?lns" "last ?lns"] by simp
  show ?thesis using assms(1,3) v l loop_add_named
    by (fastforce simp: esp_event_handler_register_with_def Let_def n named_def [of "[\<lparr>ln_handlers = [], ln_bases = []\<rparr>]"]
        split: if_splits prod.splits)
qed

lemma bases_remove_keep:
  "bases_remove bns base eid h lv = (err, bns', lv') \<Longrightarrow> \<forall>bn \<in> set bns. Q (bn_base bn) \<Longrightarrow> \<forall>bn \<in> set bns'. Q (bn_base bn)"
proof (induction bns arbitrary: err lv bns' lv')
  case (Cons bn bns)
  have b: "bn_base bn' = bn_base bn" if "base_node_remove_handler bn eid h lv = (err, bn', lv')" for bn' lv err lv'
    using that by (auto simp: base_node_remove_handler_def split: if_splits prod.splits)
  obtain err1 bn1 lv1 where r: "base_node_remove_handler bn eid h lv = (err1, bn1, lv1)" by (metis prod_cases3)
  obtain err2 bns2 lv2 where s: "bases_remove bns base eid h (if bn_base bn = base then lv1 else lv) = (err2, bns2, lv2)"
    by (metis prod_cases3)
  have "bns' \<in> {bns, bn1 # bns2, bn # bns2}" using Cons.prems(1) r s by (auto split: if_splits)
  then show ?case using Cons.IH [OF s] Cons.prems(2) b [OF r] by auto
qed simp

lemma loop_remove_named:
  assumes "loop_node_remove_handler ln base eid h lv = (err, ln', lv')" and "named [ln]"
  shows "named [ln']"
proof (cases "base = esp_event_any_base \<and> eid = ESP_EVENT_ANY_ID")
  case True
  obtain err1 hs1 lv1 where r: "handler_instances_remove (ln_handlers ln) h lv = (err1, hs1, lv1)" by (metis prod_cases3)
  show ?thesis using assms True r by (auto simp: loop_node_remove_handler_def named_def)
next
  case False
  obtain err1 bns1 lv1 where r: "bases_remove (ln_bases ln) base eid h lv = (err1, bns1, lv1)" by (metis prod_cases3)
  show ?thesis using assms False r bases_remove_keep [OF r, of "\<lambda>b. \<exists>y. b = Base y"]
    by (auto simp: loop_node_remove_handler_def named_def)
qed

lemma loops_remove_named: "loops_remove lns base eid h lv = (lns', lv') \<Longrightarrow> named lns \<Longrightarrow> named lns'"
proof (induction lns arbitrary: lv lns' lv')
  case (Cons ln lns)
  obtain err1 ln1 lv1 where r: "loop_node_remove_handler ln base eid h lv = (err1, ln1, lv1)" by (metis prod_cases3)
  obtain lns2 lv2 where s: "loops_remove lns base eid h lv1 = (lns2, lv2)" by (metis surj_pair)
  have n: "named (x # xs) \<longleftrightarrow> named [x] \<and> named xs" for x xs by (simp add: named_def)
  have "named [ln]" "named lns" using Cons.prems(2) n [of ln lns] by simp_all
  then have "named lns2" "named [ln1]" using Cons.IH [OF s] loop_remove_named [OF r] by simp_all
  moreover have "lns' \<in> {lns, ln1 # lns2}" using Cons.prems(1) r s by (auto split: if_splits)
  ultimately show ?case using \<open>named lns\<close> n [of ln1 lns2] by auto
qed simp

lemma unregister_named:
  assumes "esp_event_handler_unregister_with l base eid h = (err, l')" and "named (loop_nodes l)"
  shows "named (loop_nodes l')"
proof -
  obtain lns lv where r: "loops_remove (loop_nodes l) (if base = ESP_EVENT_ANY_BASE then esp_event_any_base else base)
    eid h (live_blocks l) = (lns, lv)" by (metis surj_pair)
  show ?thesis using assms loops_remove_named [OF r] r
    by (auto simp: esp_event_handler_unregister_with_def Let_def split: if_splits)
qed

lemma entries_other_base:
  assumes "named lns" and "\<forall>y. b \<noteq> Base y"
  shows "entries b i lns = filter (\<lambda>e. fst e = (esp_event_any_base, ESP_EVENT_ANY_ID)) (entries (Base x) i lns)"
proof -
  have "kd_bases b i bns = []" if "\<forall>bn \<in> set bns. \<exists>y. bn_base bn = Base y" for bns
    using that assms(2) by (intro kd_bases_none) auto
  moreover have "filter (\<lambda>e. fst e = (esp_event_any_base, ESP_EVENT_ANY_ID)) (kd_bases (Base x) i bns) = []" for bns
    by (auto simp: filter_empty_conv kd_bases_def kd_base_def kd_ids_def split: if_splits option.splits)
  ultimately show ?thesis using assms(1) by (induction lns) (auto simp: named_def kd_loop_def)
qed

lemma register_failed:
  assumes "esp_event_handler_register_with mem l base eid h a = Some (err, l')" and "err \<noteq> ESP_OK" and "tree_ok (loop_nodes l)"
  shows "loop_nodes l' = loop_nodes l"
proof (cases "loop_nodes l = []")
  case True
  then show ?thesis using assms by (auto simp: esp_event_handler_register_with_def Let_def split: if_splits prod.splits)
next
  case False
  let ?b = "if base = ESP_EVENT_ANY_BASE then esp_event_any_base else base" and ?ln = "last (loop_nodes l)"
  obtain err1 ln1 lv1 where add: "loop_node_add_handler mem ?ln ?b eid h a (live_blocks l) = (err1, ln1, lv1)"
    by (metis prod_cases3)
  have "loop_ok ?ln" using assms(3) False by (simp add: tree_ok_def)
  then have "err1 = ESP_OK \<or> ln1 = ?ln" using loop_add_blocks [OF add] by (auto simp: loop_ok_def)
  then show ?thesis using assms(1,2) False add
    by (auto simp: esp_event_handler_register_with_def Let_def split: if_splits prod.splits)
qed

lemma registered_snoc [simp]: "registered (cs @ [c]) = after_call c (registered cs)" "registered [] = []"
  by (simp_all add: registered_def)

lemma no_double_snoc: "no_double (cs @ [c]) \<longleftrightarrow> no_double cs \<and>
    (\<forall>k z. c = Registered k z \<longrightarrow> (\<forall>e \<in> set (registered cs). \<not> is_reg k (hi_handler z) e))"
  by (auto simp: no_double_def nth_append less_Suc_eq)

lemma registered_apart: "no_double cs \<Longrightarrow> apart (registered cs)"
proof (induction cs rule: rev_induct)
  case (snoc c cs)
  then show ?case
    by (cases c) (auto simp: no_double_snoc apart_def distinct_map_filter is_reg_def image_iff)
qed simp

lemma run_inv:
  assumes "ev_run cs l w"
  shows "loop_inv l \<and> named (loop_nodes l)"
  using assms
proof induction
  case (create ok1 ok2 ok3 ok4 task n l w)
  then show ?case by (auto simp: esp_event_loop_create_def loop_inv_def named_def split: if_splits)
next
  case (registered cs l w base mem eid h a l')
  then show ?case using register_tree [OF registered(3)] register_named [OF registered(3,2)]
    by (auto simp: loop_inv_def)
next
  case (not_registered cs l w base mem eid h a err l')
  then show ?case using register_tree [OF not_registered(3)] register_named [OF not_registered(3,2)]
    by (auto simp: loop_inv_def)
next
  case (unregistered cs l w base eid h l')
  then show ?case using unregister_tree [OF unregistered(3)] unregister_named [OF unregistered(3)]
    by (auto simp: loop_inv_def)
next
  case (post cs l w ok tk base eid d err l')
  then show ?case using post_appends [OF post(2)] by (auto simp: loop_inv_def)
next
  case (isr_post cs l w base eid d n err l')
  then show ?case using isr_post_appends [OF isr_post(2)] by (auto simp: loop_inv_def)
next
  case (run cs l w hf cur ticks ts r l' w')
  obtain ps served where a: "advanced l l' ps served"
    using run_turns_advanced run(2) unfolding esp_event_loop_run_def by metis
  then have "set (queue l') \<subseteq> set (queue l) \<union> set ps" unfolding advanced_def
    by (metis set_append Un_upper2)
  then show ?case using a run(3) by (auto simp: loop_inv_def advanced_def)
qed

lemma run_keys:
  assumes "ev_run cs l w"
  shows "\<forall>e \<in> set (registered cs). valid_key (fst e)"
  using assms
proof induction
  case (registered cs l w base mem eid h a l')
  have "valid_key (norm_base base, eid)" using registered.hyps(2,3)
    by (cases base) (auto simp: esp_event_handler_register_with_def valid_key_def norm_base_def split: if_splits)
  then show ?case using registered.IH by simp
qed simp_all

section \<open>Dispatch follows the history\<close>

definition reached :: "event_base \<Rightarrow> int \<Rightarrow> (key \<times> handler_instance) list \<Rightarrow> (key \<times> handler_instance) list" where
  "reached b i R = filter (\<lambda>e. key_matches (fst e) b i) R"

lemma apart_filter: "apart es \<Longrightarrow> apart (filter P es)"
  by (simp add: apart_def distinct_map_filter)

lemma reached_without: "reached b i (without k h R) = without k h (reached b i R)"
  by (simp add: reached_def conj_commute)

lemma removes_reached:
  assumes "removes k h b i (reached b i R) es' f"
  shows "es' = reached b i (without k h R)"
proof (cases "key_matches k b i")
  case True then show ?thesis using assms by (simp add: removes_def reached_without)
next
  case False
  then have "\<not> is_reg k h e" if "e \<in> set (reached b i R)" for e
    using that by (auto simp: reached_def is_reg_def reg_tag_def)
  then have "without k h (reached b i R) = reached b i R" unfolding filter_id_conv by blast
  then show ?thesis using assms False by (simp add: removes_def reached_without)
qed

lemma run_reached:
  "ev_run cs l w \<Longrightarrow> no_double cs \<Longrightarrow> i \<noteq> ESP_EVENT_ANY_ID \<Longrightarrow>
     entries (Base x) i (loop_nodes l) = reached (Base x) i (registered cs)"
proof (induction arbitrary: x i rule: ev_run.induct)
  case (create ok1 ok2 ok3 ok4 task n l w)
  then show ?case by (auto simp: esp_event_loop_create_def reached_def split: if_splits)
next
  case (registered cs l w base mem eid h a l')
  let ?k = "(norm_base base, eid)"
  have cs: "no_double cs" "\<forall>e \<in> set (EventProps.registered cs). \<not> is_reg ?k h e"
    using registered.prems(1) by (simp_all add: no_double_snoc)
  have ok: "tree_ok (loop_nodes l)" using run_inv [OF registered.hyps(1)] by (simp add: loop_inv_def)
  have "\<not> is_reg ?k h e" if "j \<noteq> ESP_EVENT_ANY_ID" "e \<in> set (entries (Base x) j (loop_nodes l))" for x j e
    using that cs registered.IH by (auto simp: reached_def)
  then have "\<forall>x j. j \<noteq> ESP_EVENT_ANY_ID \<longrightarrow> (\<forall>e \<in> set (entries (Base x) j (loop_nodes l)). \<not> is_reg ?k h e)"
    by blast
  then have "entries (Base x) i (loop_nodes l') = entries (Base x) i (loop_nodes l) @
      (if ESP_OK = ESP_OK \<and> key_matches ?k (Base x) i then [(?k, \<lparr>hi_handler = h, hi_arg = a\<rparr>)] else [])"
    using registered.prems(2) registered.hyps(2)
    by (intro register_entries [OF registered.hyps(3) ok]) (simp_all add: norm_base_def)
  then show ?case using registered.IH [OF cs(1) registered.prems(2)] by (simp add: reached_def)
next
  case (not_registered cs l w base mem eid h a err l')
  have "tree_ok (loop_nodes l)" using run_inv [OF not_registered.hyps(1)] by (simp add: loop_inv_def)
  then have "loop_nodes l' = loop_nodes l"
    using register_failed [OF not_registered.hyps(3,4)] by simp
  then show ?case using not_registered by simp
next
  case (unregistered cs l w base eid h l')
  have cs: "no_double cs" using unregistered.prems(1) by (simp add: no_double_snoc)
  have ok: "tree_ok (loop_nodes l)" using run_inv [OF unregistered.hyps(1)] by (simp add: loop_inv_def)
  have v: "\<not> (base = ESP_EVENT_ANY_BASE \<and> eid \<noteq> ESP_EVENT_ANY_ID)" "valid_key (norm_base base, eid)"
    using unregistered.hyps(2,3)
    by (cases base; auto simp: esp_event_handler_unregister_with_def valid_key_def norm_base_def split: if_splits)+
  obtain lns lv where r: "loops_remove (loop_nodes l) (norm_base base) eid h (live_blocks l) = (lns, lv)" by (metis surj_pair)
  have l': "loop_nodes l' = lns"
    using unregistered.hyps(3) v(1) r by (auto simp: esp_event_handler_unregister_with_def norm_base_def)
  note IH = unregistered.IH [OF cs unregistered.prems(2)]
  have "apart (entries (Base x) i (loop_nodes l))" unfolding IH reached_def
    by (rule apart_filter [OF registered_apart [OF cs]])
  then have "removes (norm_base base, eid) h (Base x) i (entries (Base x) i (loop_nodes l)) (entries (Base x) i lns) False"
    by (rule loops_remove_removes [OF r ok v(2) _ unregistered.prems(2)])
  then show ?case using removes_reached unfolding IH by (simp add: l')
next
  case (post cs l w ok tk base eid d err l')
  then show ?case using post_appends [OF post.hyps(2)] by simp
next
  case (isr_post cs l w base eid d n err l')
  then show ?case using isr_post_appends [OF isr_post.hyps(2)] by simp
next
  case (run cs l w hf cur ticks ts r l' w')
  obtain ps served where "advanced l l' ps served"
    using run_turns_advanced run.hyps(2) unfolding esp_event_loop_run_def by metis
  then show ?case using run.IH run.prems by (simp add: advanced_def)
qed

lemma run_entries_reached:
  assumes "ev_run cs l w" and "no_double cs" and "i \<noteq> ESP_EVENT_ANY_ID"
  shows "entries b i (loop_nodes l) = reached b i (registered cs)"
proof (cases "\<exists>x. b = Base x")
  case True then show ?thesis using run_reached [OF assms] by auto
next
  case False
  have n: "named (loop_nodes l)" using run_inv [OF assms(1)] by simp
  have "\<forall>e \<in> set (registered cs). \<exists>y. fst (fst e) = Base y \<or> fst e = (esp_event_any_base, ESP_EVENT_ANY_ID)"
    using run_keys [OF assms(1)] by (auto simp: valid_key_def)
  then have "filter (\<lambda>e. fst e = (esp_event_any_base, ESP_EVENT_ANY_ID)) (reached (Base 0) i (registered cs)) = reached b i (registered cs)"
    using False by (auto simp: reached_def key_matches_def intro!: filter_cong)
  then show ?thesis using entries_other_base [OF n, of b i 0] False run_reached [OF assms] by simp
qed

lemmas register_simps = esp_event_handler_register_with_def loop_node_add_handler_def base_node_add_handler_def
  handler_instances_add_def new_base_needed_def Let_def

lemmas entry_simps = kd_loop_def kd_base_def key_matches_def

section \<open>A loop with two handlers\<close>

definition demo_post :: event_post where
  "demo_post = \<lparr>post_base = Base 1, post_id = 5, data_allocated = True, post_data = Some [7]\<rparr>"

definition demo_loop :: event_loop where
  "demo_loop = \<lparr>queue_size = 4, queue = [demo_post], loop_task = None, running_task = None,
     loop_nodes = [\<lparr>ln_handlers = [],
       ln_bases = [\<lparr>bn_base = Base 1, bn_handlers = [\<lparr>hi_handler = 10, hi_arg = 0\<rparr>],
         bn_ids = [\<lparr>id_id = 5, id_handlers = [\<lparr>hi_handler = 11, hi_arg = 1\<rparr>]\<rparr>]\<rparr>]\<rparr>],
     live_blocks = 6\<rparr>"

definition demo_calls :: "reg_call list" where
  "demo_calls = [Registered (Base 1, ESP_EVENT_ANY_ID) \<lparr>hi_handler = 10, hi_arg = 0\<rparr>,
     Registered (Base 1, 5) \<lparr>hi_handler = 11, hi_arg = 1\<rparr>]"

lemma demo_run: "ev_run demo_calls demo_loop v"
proof -
  let ?la = "demo_loop\<lparr>queue := [], loop_nodes := [], live_blocks := 0\<rparr>"
  let ?lb = "demo_loop\<lparr>queue := [], loop_nodes := [\<lparr>ln_handlers = [],
    ln_bases = [\<lparr>bn_base = Base 1, bn_handlers = [\<lparr>hi_handler = 10, hi_arg = 0\<rparr>], bn_ids = []\<rparr>]\<rparr>], live_blocks := 3\<rparr>"
  let ?lc = "demo_loop\<lparr>queue := [], live_blocks := 5\<rparr>"
  have "ev_run [] ?la v"
    by (rule ev_run.create [of True True True True None 4]) (simp add: esp_event_loop_create_def demo_loop_def)
  then have "ev_run ([] @ [Registered (norm_base (Base 1), ESP_EVENT_ANY_ID) \<lparr>hi_handler = 10, hi_arg = 0\<rparr>]) ?lb v"
    by (rule ev_run.registered [where mem = "\<lambda>_. True"]) (simp_all add: register_simps demo_loop_def ESP_EVENT_ANY_ID_def)
  then have "ev_run (([] @ [Registered (norm_base (Base 1), ESP_EVENT_ANY_ID) \<lparr>hi_handler = 10, hi_arg = 0\<rparr>])
      @ [Registered (norm_base (Base 1), 5) \<lparr>hi_handler = 11, hi_arg = 1\<rparr>]) ?lc v"
    by (rule ev_run.registered [where mem = "\<lambda>_. True"]) (simp_all add: register_simps demo_loop_def ESP_EVENT_ANY_ID_def)
  then have "ev_run demo_calls ?lc v" by (simp add: demo_calls_def norm_base_def)
  then show ?thesis
    by (rule ev_run.post [of _ _ _ True True "Base 1" 5 "Some [7]" ESP_OK])
      (simp add: esp_event_post_to_def queue_send_def demo_loop_def demo_post_def ESP_EVENT_ANY_ID_def)
qed

lemma demo_no_double: "no_double demo_calls"
  by (auto simp: no_double_def demo_calls_def registered_def less_Suc_eq is_reg_def ESP_EVENT_ANY_ID_def)

section \<open>The properties\<close>

text \<open>C19: Events are dispatched in the order of registration: in every reachable state in which no handler
  was registered twice under one key, the dispatch of a post calls exactly the handlers that are registered
  for all events, for its base or for itself, in the order in which they were registered, whatever tree of
  nodes the registrations and unregistrations have left behind.\<close>

theorem event_dispatch_order:
  assumes "ev_run cs l w" and "no_double cs" and "post_id p \<noteq> ESP_EVENT_ANY_ID"
  shows "dispatch_post hf cur p l v =
    (case fold (handler_execute hf p) (map snd (reached (post_base p) (post_id p) (registered cs)))
       (l\<lparr>running_task := Some cur\<rparr>, v, False) of
      (l', v', ex) \<Rightarrow> (l'\<lparr>live_blocks := post_instance_delete p (live_blocks l')\<rparr>, v'))"
  using run_entries_reached [OF assms] by (simp add: dispatch_entries)

lemma event_dispatch_order_witness:
  "snd (dispatch_post (\<lambda>h a b i d v. (v @ [(h, a)], [])) 1 demo_post demo_loop []) = [(10, 0), (11, 1)]"
proof -
  have "reached (post_base demo_post) (post_id demo_post) (registered demo_calls)
      = [((Base 1, ESP_EVENT_ANY_ID), \<lparr>hi_handler = 10, hi_arg = 0\<rparr>), ((Base 1, 5), \<lparr>hi_handler = 11, hi_arg = 1\<rparr>)]"
    by (simp add: reached_def registered_def demo_calls_def demo_post_def key_matches_def)
  then show ?thesis using event_dispatch_order [OF demo_run demo_no_double, of demo_post "\<lambda>h a b i d v. (v @ [(h, a)], [])" 1 "[]"]
    by (simp add: handler_execute_def) (simp add: demo_post_def ESP_EVENT_ANY_ID_def)
qed

lemma nothing_reached:
  assumes "tree_ok lns" and "named lns" and "\<forall>x i. i \<noteq> ESP_EVENT_ANY_ID \<longrightarrow> entries (Base x) i lns = []"
  shows "lns = []"
proof (rule ccontr)
  assume "lns \<noteq> []"
  then obtain ln where ln: "ln \<in> set lns" by (cases lns) auto
  have e: "i \<noteq> ESP_EVENT_ANY_ID \<Longrightarrow> kd_loop (Base x) i ln = []" for x i
    using assms(3) ln by (auto simp: entries_def)
  have "ln_handlers ln = []" using e [of 0] by (simp add: kd_loop_def ESP_EVENT_ANY_ID_def)
  moreover have "loop_ok ln" using assms(1) ln by (simp add: tree_ok_def)
  ultimately obtain bn where bn: "bn \<in> set (ln_bases ln)" "base_ok bn" by (cases "ln_bases ln") (auto simp: loop_ok_def)
  then obtain y where y: "bn_base bn = Base y" using assms(2) ln by (auto simp: named_def)
  have b: "i \<noteq> ESP_EVENT_ANY_ID \<Longrightarrow> kd_base (Base y) i bn = []" for i
    using e [of i y] bn(1) by (auto simp: kd_loop_def kd_bases_def)
  have "bn_handlers bn = []" using b [of 0] y by (simp add: kd_base_def ESP_EVENT_ANY_ID_def)
  then obtain n ids where n: "bn_ids bn = n # ids" "id_handlers n \<noteq> []" "id_id n \<noteq> ESP_EVENT_ANY_ID"
    using bn(2) by (cases "bn_ids bn") (auto simp: base_ok_def)
  then show False using b [of "id_id n"] y by (simp add: kd_base_def)
qed

lemma fold_post_delete: "fold post_instance_delete ps lv = lv - posts_blocks ps"
  by (induction ps arbitrary: lv) (auto simp: post_instance_delete_def)

text \<open>C20: In every reachable state the tree is well formed (no empty node, one node per identifier), the queue is
  within its size, and the heap blocks the library holds are exactly its nodes, its handler instances and the
  data of the queued posts; so deletion frees everything, and once every handler has been unregistered only
  the data of queued posts is held.\<close>

theorem event_loop_accounts:
  assumes "ev_run cs l w"
  shows "tree_ok (loop_nodes l) \<and> length (queue l) \<le> queue_size l
    \<and> live_blocks l = tree_blocks (loop_nodes l) + posts_blocks (queue l) \<and> esp_event_loop_delete l = 0
    \<and> (no_double cs \<and> registered cs = [] \<longrightarrow> loop_nodes l = [] \<and> live_blocks l = posts_blocks (queue l))"
proof -
  have inv: "loop_inv l" "named (loop_nodes l)" using run_inv [OF assms] by simp_all
  then have "esp_event_loop_delete l = 0"
    by (simp add: esp_event_loop_delete_def remove_all_blocks fold_post_delete loop_inv_def)
  moreover have "loop_nodes l = []" if "no_double cs" "registered cs = []"
    using run_entries_reached [OF assms that(1)] that(2) inv
    by (intro nothing_reached) (auto simp: loop_inv_def reached_def)
  ultimately show ?thesis using inv(1) by (auto simp: loop_inv_def)
qed

lemma event_loop_accounts_witness: "live_blocks demo_loop = tree_blocks (loop_nodes demo_loop) + posts_blocks (queue demo_loop)
    \<and> esp_event_loop_delete demo_loop = 0 \<and> tree_blocks (loop_nodes demo_loop) = 5"
  using event_loop_accounts [OF demo_run] by (simp add: demo_loop_def loop_blocks_def base_blocks_def)

text \<open>The calls that a post causes, as a handler that records them sees them.\<close>

type_synonym handler_call = "nat \<times> nat \<times> event_base \<times> int \<times> u8 list option"

definition calls_of :: "event_post \<Rightarrow> handler_instance list \<Rightarrow> handler_call list" where
  "calls_of p hs = map (\<lambda>z. (hi_handler z, hi_arg z, post_base p, post_id p, post_data p)) hs"

lemma executes_notes:
  assumes "\<forall>h a b i d v. fst (hf h a b i d v) = v @ [(h, a, b, i, d)]"
  shows "fst (snd (fold (handler_execute hf p) hs (l, v, ex))) = v @ calls_of p hs"
proof (induction hs arbitrary: l v ex)
  case (Cons z hs)
  obtain v1 rqs where c: "hf (hi_handler z) (hi_arg z) (post_base p) (post_id p) (post_data p) v = (v1, rqs)"
    by (metis surj_pair)
  then have "v1 = v @ [(hi_handler z, hi_arg z, post_base p, post_id p, post_data p)]" using assms by (metis fst_conv)
  then show ?case using Cons.IH c by (simp add: handler_execute_def calls_of_def)
qed (simp add: calls_of_def)

lemma dispatch_notes:
  assumes "\<forall>h a b i d v. fst (hf h a b i d v) = v @ [(h, a, b, i, d)]"
    and "dispatch_post hf cur p l v = (l', v')"
  shows "v' = v @ calls_of p (map snd (entries (post_base p) (post_id p) (loop_nodes l)))"
proof -
  let ?es = "map snd (entries (post_base p) (post_id p) (loop_nodes l))"
  obtain l1 v1 ex where f: "fold (handler_execute hf p) ?es (l\<lparr>running_task := Some cur\<rparr>, v, False) = (l1, v1, ex)"
    by (metis prod_cases3)
  show ?thesis using executes_notes [OF assms(1), of p ?es "l\<lparr>running_task := Some cur\<rparr>" v False] assms(2) f
    by (simp add: dispatch_entries)
qed

lemma run_turns_notes:
  assumes "\<forall>h a b i d v. fst (hf h a b i d v) = v @ [(h, a, b, i, d)]"
  shows "run_turns hf cur ticks rem now ts (l, v) = (r, l', v') \<Longrightarrow> \<exists>ps served. advanced l l' ps served \<and>
    v' = v @ concat (map (\<lambda>p. calls_of p (map snd (entries (post_base p) (post_id p) (loop_nodes l)))) served)
    \<and> (ticks = None \<longrightarrow> r = None)"
proof (induction ts arbitrary: rem now l v)
  case Nil
  then show ?case by (intro exI [of _ "[]"]) (simp add: advanced_refl)
next
  case (Cons t ts)
  let ?l = "fold send_req (arrivals t) l"
  obtain ps where "posted l ?l ps" using send_reqs_posted by blast
  then have a: "advanced l ?l ps []" by (rule posted_advanced)
  then have same: "loop_nodes ?l = loop_nodes l" by (simp add: advanced_def)
  show ?case
  proof (cases "queue ?l")
    case Nil
    show ?thesis
    proof (cases "ticks = None")
      case True
      then have "run_turns hf cur ticks rem (now + waited t) ts (?l, v) = (r, l', v')" using Cons.prems Nil by simp
      then obtain qs served where q: "advanced ?l l' qs served"
        "v' = v @ concat (map (\<lambda>p. calls_of p (map snd (entries (post_base p) (post_id p) (loop_nodes l)))) served)"
        "ticks = None \<longrightarrow> r = None" using Cons.IH [of rem "now + waited t" ?l v] unfolding same by blast
      have "advanced l l' (ps @ qs) served" using advanced_trans [OF a q(1)] by simp
      then show ?thesis using q by blast
    next
      case False
      then have "l' = ?l" "v' = v" using Cons.prems Nil by auto
      then show ?thesis using a False by - (rule exI [of _ ps], rule exI [of _ "[]"], auto)
    qed
  next
    case (Cons p q)
    obtain l1 v1 where d: "dispatch_post hf cur p (?l\<lparr>queue := q\<rparr>) v = (l1, v1)" by (metis surj_pair)
    obtain qs where b: "advanced l l1 (ps @ qs) [p]" using dispatch_advanced [OF d Cons] advanced_trans [OF a] by auto
    have n: "v1 = v @ calls_of p (map snd (entries (post_base p) (post_id p) (loop_nodes l)))"
      using dispatch_notes [OF assms d] same by simp
    have c: "advanced l (l1\<lparr>running_task := None\<rparr>) (ps @ qs) [p]" by (rule advanced_task [OF b])
    then have same': "loop_nodes (l1\<lparr>running_task := None\<rparr>) = loop_nodes l" by (simp add: advanced_def)
    consider (stop) "l' = l1" "v' = v1" "ticks \<noteq> None"
      | (go) rem now where "run_turns hf cur ticks rem now ts (l1\<lparr>running_task := None\<rparr>, v1) = (r, l', v')"
      using Cons.prems Cons d by (auto simp: Let_def split: if_splits)
    then show ?thesis
    proof cases
      case stop then show ?thesis using b n by - (rule exI [of _ "ps @ qs"], rule exI [of _ "[p]"], auto)
    next
      case go
      obtain rs served where r: "advanced (l1\<lparr>running_task := None\<rparr>) l' rs served"
        "v' = v1 @ concat (map (\<lambda>p. calls_of p (map snd (entries (post_base p) (post_id p) (loop_nodes l)))) served)"
        "ticks = None \<longrightarrow> r = None" using Cons.IH [OF go] unfolding same' by blast
      show ?thesis using advanced_trans [OF c r(1)] r n
        by - (rule exI [of _ "(ps @ qs) @ rs"], rule exI [of _ "[p] @ served"], simp)
    qed
  qed
qed

text \<open>C21: A run serves the posts first in, first out, those that arrive or are posted by handlers meanwhile
  included: the posts it has served and those left in the queue are the queue before followed by the posts
  accepted meanwhile, and the calls it has made are, post by post, those of the handlers registered for the
  post, in the order of registration and with the data of the post.  A run without time limit does not end.\<close>

theorem event_run_fifo:
  assumes "ev_run cs l v" and "no_double cs" and "\<forall>h a b i d v. fst (hf h a b i d v) = v @ [(h, a, b, i, d)]"
    and "esp_event_loop_run hf cur ticks ts (l, v) = (r, l', v')"
  shows "(\<exists>ps served. queue l @ ps = served @ queue l' \<and>
      v' = v @ concat (map (\<lambda>p. calls_of p (map snd (reached (post_base p) (post_id p) (registered cs)))) served))
    \<and> (ticks = None \<longrightarrow> r = None)"
proof -
  obtain ps served where a: "advanced l l' ps served"
    "v' = v @ concat (map (\<lambda>p. calls_of p (map snd (entries (post_base p) (post_id p) (loop_nodes l)))) served)"
    "ticks = None \<longrightarrow> r = None"
    using run_turns_notes [OF assms(3) assms(4) [unfolded esp_event_loop_run_def]] by blast
  have q: "queue l @ ps = served @ queue l'" using a(1) by (simp add: advanced_def)
  have "post_id p \<noteq> ESP_EVENT_ANY_ID" if "p \<in> set served" for p
  proof -
    have "p \<in> set (queue l @ ps)" unfolding q using that by simp
    then show ?thesis using run_inv [OF assms(1)] a(1) by (auto simp: loop_inv_def advanced_def)
  qed
  then have m: "map (\<lambda>p. calls_of p (map snd (entries (post_base p) (post_id p) (loop_nodes l)))) served =
      map (\<lambda>p. calls_of p (map snd (reached (post_base p) (post_id p) (registered cs)))) served"
    by (simp add: run_entries_reached [OF assms(1,2)])
  show ?thesis using a(2,3) q unfolding m by blast
qed

lemma event_run_fifo_witness:
  "\<exists>l' v' ps served. esp_event_loop_run (\<lambda>h a b i d v. (v @ [(h, a, b, i, d)], [])) 1 (Some 10)
      [\<lparr>arrivals = [], waited = 0, worked = 20\<rparr>] (demo_loop, []) = (Some 20, l', v') \<and> queue demo_loop @ ps = served @ queue l'
    \<and> v' = [(10, 0, Base 1, 5, Some [7]), (11, 1, Base 1, 5, Some [7])]
    \<and> v' = concat (map (\<lambda>p. calls_of p (map snd (reached (post_base p) (post_id p) (registered demo_calls)))) served)"
proof -
  let ?hf = "\<lambda>h a b i d v. (v @ [(h, a, b, i, d)], []) :: handler_call list \<times> post_req list"
  let ?ts = "[\<lparr>arrivals = [], waited = 0, worked = 20\<rparr>]"
  obtain r l' v' where run: "esp_event_loop_run ?hf 1 (Some 10) ?ts (demo_loop, []) = (r, l', v')" by (metis prod_cases3)
  have rv: "r = Some 20" "v' = [(10, 0, Base 1, 5, Some [7]), (11, 1, Base 1, 5, Some [7])]"
    using run by (simp_all add: esp_event_loop_run_def demo_loop_def demo_post_def dispatch_post_def Let_def run_loop_node_def
        run_base_node_def run_id_nodes_def handler_execute_def)
  show ?thesis using event_run_fifo [OF demo_run demo_no_double _ run] rv unfolding run by auto
qed

text \<open>A run with a time limit: the turn \<open>k\<close> in which it ends, when every turn takes time.\<close>

lemma run_turns_ends:
  assumes "\<forall>t \<in> set ts. waited t \<le> T \<and> 0 < waited t + worked t" and "ts \<noteq> []" and "rem \<le> int (length ts)"
    and "int now + rem = int T" and "now = 0 \<or> 0 < rem"
  shows "\<exists>k < length ts. \<exists>n l' v'. fst (run_turns hf cur (Some T) rem now (take k ts) (l, v)) = None
    \<and> run_turns hf cur (Some T) rem now (take (Suc k) ts) (l, v) = (Some n, l', v')
    \<and> run_turns hf cur (Some T) rem now ts (l, v) = (Some n, l', v') \<and> n \<le> 2 * T - 1 + worked (ts ! k)"
  using assms
proof (induction ts arbitrary: rem now l v)
  case (Cons t ts)
  let ?l = "fold send_req (arrivals t) l"
  have t: "now \<le> T" "now = 0 \<or> now < T" "waited t \<le> T" "0 < waited t + worked t" using Cons.prems by auto
  show ?case
  proof (cases "queue ?l")
    case Nil
    then show ?thesis using t by (intro exI [of _ 0]) auto
  next
    case (Cons p q)
    obtain l1 v1 where d: "dispatch_post hf cur p (?l\<lparr>queue := q\<rparr>) v = (l1, v1)" by (metis surj_pair)
    let ?rem = "rem - int (waited t + worked t)" and ?now = "now + waited t + worked t"
    show ?thesis
    proof (cases "?rem \<le> 0")
      case True
      then show ?thesis using t d Cons by (intro exI [of _ 0]) (auto simp: Let_def)
    next
      case False
      have go: "run_turns hf cur (Some T) rem now (t # us) (l, v)
          = run_turns hf cur (Some T) ?rem ?now us (l1\<lparr>running_task := None\<rparr>, v1)" for us
        using False d Cons by (simp add: Let_def)
      have "ts \<noteq> []" using False Cons.prems(3) t(4) by (cases ts) auto
      from Cons.IH [OF _ this, of ?rem ?now "l1\<lparr>running_task := None\<rparr>" v1] Cons.prems False
      obtain k n l' v' where k: "k < length ts"
        "fst (run_turns hf cur (Some T) ?rem ?now (take k ts) (l1\<lparr>running_task := None\<rparr>, v1)) = None"
        "run_turns hf cur (Some T) ?rem ?now (take (Suc k) ts) (l1\<lparr>running_task := None\<rparr>, v1) = (Some n, l', v')"
        "run_turns hf cur (Some T) ?rem ?now ts (l1\<lparr>running_task := None\<rparr>, v1) = (Some n, l', v')"
        "n \<le> 2 * T - 1 + worked (ts ! k)" by auto
      show ?thesis
        using k(1,2,5) k(3,4) by (intro exI [of _ "Suc k"] conjI exI [of _ n] exI [of _ l'] exI [of _ v'])
          (simp_all only: take_Suc_Cons nth_Cons_Suc go length_Cons Suc_less_eq)
    qed
  qed
qed simp

text \<open>C22: A run of \<open>T\<close> ticks ends: when every turn of its loop takes at least one tick and no wait for a post
  is longer than the \<open>ticks_to_run\<close> it asks for, it ends in one of the first \<open>T\<close> turns (the first one when
  \<open>T = 0\<close>), not before that turn, and less than twice \<open>T\<close> ticks and the handlers' time of that very turn
  after it began.\<close>

theorem event_run_time:
  assumes "\<forall>t \<in> set ts. waited t \<le> T \<and> 0 < waited t + worked t" and "length ts = max 1 T"
  shows "\<exists>k < max 1 T. \<exists>n l' v'. fst (esp_event_loop_run hf cur (Some T) (take k ts) (l, v)) = None
    \<and> esp_event_loop_run hf cur (Some T) (take (Suc k) ts) (l, v) = (Some n, l', v')
    \<and> esp_event_loop_run hf cur (Some T) ts (l, v) = (Some n, l', v') \<and> n \<le> 2 * T - 1 + worked (ts ! k)"
proof -
  have "ts \<noteq> []" "int T \<le> int (length ts)" using assms(2) by auto
  from run_turns_ends [OF assms(1) this, of 0 hf cur l v] show ?thesis
    using assms(2) by (simp add: esp_event_loop_run_def)
qed

lemma event_run_time_witness:
  "\<exists>n l' v'. esp_event_loop_run (\<lambda>h a b i d v. (v, [])) 1 (Some 1)
      [\<lparr>arrivals = [], waited = 1, worked = 20\<rparr>] (demo_loop, ()) = (Some n, l', v') \<and> n \<le> 2 * 1 - 1 + 20"
proof -
  let ?hf = "\<lambda>h a b i d v. (v, []) :: unit \<times> post_req list" and ?ts = "[\<lparr>arrivals = [], waited = 1, worked = 20\<rparr>]"
  have "\<forall>t \<in> set ?ts. waited t \<le> 1 \<and> 0 < waited t + worked t" "length ?ts = max 1 1" by simp_all
  from event_run_time [OF this, of ?hf 1 demo_loop "()"] obtain k n l' v' where
    k: "k < max 1 (1::nat)" "esp_event_loop_run ?hf 1 (Some 1) ?ts (demo_loop, ()) = (Some n, l', v')"
      "n \<le> 2 * 1 - 1 + worked (?ts ! k)" by metis
  then have "k = 0" by simp
  then show ?thesis using k(2,3) by (simp only: nth_Cons_0 turn.simps) blast
qed

text \<open>The time limit counts only the whole waits that have passed, and each wait may last \<open>ticks_to_run\<close> again.\<close>

lemma event_run_overruns:
  assumes "0 < T" and "0 < queue_size l" and "queue l = []" and "loop_nodes l = []" and "loop_task l = None"
  shows "\<exists>ts l'. (\<forall>t \<in> set ts. waited t \<le> T \<and> worked t = 0)
    \<and> esp_event_loop_run hf cur (Some T) ts (l, v) = (Some (2 * T - 1), l', v)"
proof -
  let ?rq = "\<lparr>rq_copy_ok = True, rq_base = Base 0, rq_id = 0, rq_data = None\<rparr>"
  let ?ts = "[\<lparr>arrivals = [?rq], waited = T - 1, worked = 0\<rparr>, \<lparr>arrivals = [], waited = T, worked = 0\<rparr>]"
  have "fst (esp_event_loop_run hf cur (Some T) ?ts (l, v)) = Some (2 * T - 1)
      \<and> snd (snd (esp_event_loop_run hf cur (Some T) ?ts (l, v))) = v"
    using assms by (auto simp: esp_event_loop_run_def send_req_def esp_event_post_to_def queue_send_def
        dispatch_post_def post_instance_delete_def ESP_EVENT_ANY_ID_def Let_def)
  then obtain l' where "esp_event_loop_run hf cur (Some T) ?ts (l, v) = (Some (2 * T - 1), l', v)"
    by (metis prod.collapse)
  then show ?thesis using assms(1) by (intro exI [of _ ?ts] exI [of _ l']) auto
qed

text \<open>A handler that posts to the loop it runs in never waits for room in the queue.  The early exit of a run
  leaves \<open>running_task\<close> behind, so that later posts of that task do not wait either.\<close>

lemma handler_post_no_wait: "loop_task l = None \<or> loop_task l = Some cur \<Longrightarrow> post_ticks (l\<lparr>running_task := Some cur\<rparr>) cur n = 0"
  by (auto simp: post_ticks_def)

lemma run_leaves_running_task:
  "running_task (fst (snd (esp_event_loop_run (\<lambda>h a b i d v. (v, [])) 1 (Some 10)
     [\<lparr>arrivals = [], waited = 3, worked = 20\<rparr>] (demo_loop, ())))) = Some 1"
  by (simp add: esp_event_loop_run_def demo_loop_def demo_post_def dispatch_post_def Let_def run_loop_node_def
      run_base_node_def run_id_nodes_def handler_execute_def)

section \<open>Handlers that are registered twice\<close>

text \<open>C23: A second registration of a handler under one key does not overwrite the first when a handler for a single
  event of the base has been registered between them: the handler is then called twice for the event.  And when
  the first of two nodes that hold a handler becomes empty by an unregistration, the search stops there: the
  handler is still called after it has been unregistered.\<close>

theorem event_double_registration:
  assumes "loop_nodes l = []" and "i \<noteq> ESP_EVENT_ANY_ID"
  shows "(\<exists>l1 l2 l3. esp_event_handler_register_with (\<lambda>_. True) l (Base x) ESP_EVENT_ANY_ID h a = Some (ESP_OK, l1)
      \<and> esp_event_handler_register_with (\<lambda>_. True) l1 (Base x) i g c = Some (ESP_OK, l2)
      \<and> esp_event_handler_register_with (\<lambda>_. True) l2 (Base x) ESP_EVENT_ANY_ID h b = Some (ESP_OK, l3)
      \<and> map (\<lambda>e. (hi_handler (snd e), hi_arg (snd e))) (entries (Base x) i (loop_nodes l3)) = [(h, a), (g, c), (h, b)])
    \<and> (\<exists>l1 l2 l3 l4 l5. esp_event_handler_register_with (\<lambda>_. True) l ESP_EVENT_ANY_BASE ESP_EVENT_ANY_ID h a = Some (ESP_OK, l1)
      \<and> esp_event_handler_register_with (\<lambda>_. True) l1 (Base x) i g c = Some (ESP_OK, l2)
      \<and> esp_event_handler_register_with (\<lambda>_. True) l2 ESP_EVENT_ANY_BASE ESP_EVENT_ANY_ID h b = Some (ESP_OK, l3)
      \<and> esp_event_handler_unregister_with l3 (Base x) i g = (ESP_OK, l4)
      \<and> esp_event_handler_unregister_with l4 ESP_EVENT_ANY_BASE ESP_EVENT_ANY_ID h = (ESP_OK, l5)
      \<and> map (\<lambda>e. (hi_handler (snd e), hi_arg (snd e))) (entries (Base x) i (loop_nodes l5)) = [(h, b)])"
  using assms
  by (simp add: register_simps entry_simps esp_event_handler_unregister_with_def loop_node_remove_handler_def
      base_node_remove_handler_def)

lemma event_double_registration_witness:
  "\<exists>l1 l2 l3. esp_event_handler_register_with (\<lambda>_. True) (demo_loop\<lparr>loop_nodes := []\<rparr>) (Base 1) ESP_EVENT_ANY_ID 10 0 = Some (ESP_OK, l1)
    \<and> esp_event_handler_register_with (\<lambda>_. True) l1 (Base 1) 5 11 1 = Some (ESP_OK, l2)
    \<and> esp_event_handler_register_with (\<lambda>_. True) l2 (Base 1) ESP_EVENT_ANY_ID 10 2 = Some (ESP_OK, l3)
    \<and> map (\<lambda>e. (hi_handler (snd e), hi_arg (snd e))) (entries (Base 1) 5 (loop_nodes l3)) = [(10, 0), (11, 1), (10, 2)]"
  using event_double_registration [of "demo_loop\<lparr>loop_nodes := []\<rparr>" 5 1 10 0 11 1 2] by (simp add: ESP_EVENT_ANY_ID_def)

end
