(* ===== verification/WsTransport.thy ===== *)
theory WsTransport
  imports Hash
begin

text \<open>
  The WebSocket transport, \<open>components/tcp_transport/transport_ws.c\<close>: the framing between its parent
  transport and the client above it.  The parent (a socket) is a record of functions on a state of any type;
  \<open>getrandom\<close> is among them.  A \<open>char\<close> is unsigned, as the compiler for this chip has it.  The caller's
  buffer is a list whose length is \<open>len\<close>; \<open>None\<close> is an access outside it.  \<open>hdr0\<close> is what the 16 bytes of
  the local array \<open>ws_header\<close> held before: a short read leaves some of them in use.
\<close>

section \<open>Data\<close>

record 't parent_ops =
  t_poll_read :: "'t \<Rightarrow> int \<times> 't"
  t_poll_write :: "'t \<Rightarrow> int \<times> 't"
  t_read :: "nat \<Rightarrow> 't \<Rightarrow> int \<times> u8 list \<times> 't"
  t_write :: "u8 list \<Rightarrow> 't \<Rightarrow> int \<times> 't"
  t_random :: "nat \<Rightarrow> 't \<Rightarrow> u8 list \<times> 't"

record 't transport_ws =
  ws_opcode :: u8
  ws_mask_key :: "u8 list"
  ws_payload_len :: int
  ws_remaining :: int
  ws_parent :: 't

definition WS_FIN :: u8 where "WS_FIN = 0x80"
definition WS_OPCODE_BINARY :: u8 where "WS_OPCODE_BINARY = 0x02"
definition WS_OPCODE_PING :: u8 where "WS_OPCODE_PING = 0x09"
definition WS_MASK :: u8 where "WS_MASK = 0x80"
definition WS_SIZE16 :: u8 where "WS_SIZE16 = 126"
definition WS_SIZE64 :: u8 where "WS_SIZE64 = 127"

text \<open>The loops \<open>buffer[i] = buffer[i] ^ mask[i % 4]\<close>.\<close>

definition xor_mask :: "u8 list \<Rightarrow> u8 list \<Rightarrow> u8 list" where
  "xor_mask key buffer = map (\<lambda>i. buffer ! i XOR key ! (i mod 4)) [0..<length buffer]"

section \<open>Writing\<close>

definition ws_header :: "u8 \<Rightarrow> u8 \<Rightarrow> nat \<Rightarrow> u8 list" where
  "ws_header opcode mask_flag len =
     (if len \<le> 125 then [opcode, of_nat len OR mask_flag]
      else if len < 65536 then
        [opcode, WS_SIZE16 OR mask_flag, ucast (drop_bit 8 (of_nat len :: u32)), ucast (of_nat len AND 0xFF :: u32)]
      else [opcode, WS_SIZE64 OR mask_flag, 0, 0, 0, 0] @ be32 (of_nat len))"

definition ws_write_frame ::
  "'t parent_ops \<Rightarrow> u8 \<Rightarrow> u8 \<Rightarrow> u8 list \<Rightarrow> 't transport_ws \<Rightarrow> int \<times> u8 list \<times> 't transport_ws" where
  "ws_write_frame env opcode mask_flag buffer ws =
     (let (poll_write, t) = t_poll_write env (ws_parent ws) in
      if poll_write \<le> 0 then (poll_write, buffer, ws\<lparr>ws_parent := t\<rparr>)
      else
        let header = ws_header opcode mask_flag (length buffer);
            (key, t) = (if mask_flag \<noteq> 0 then t_random env 4 t else ([], t));
            header = header @ key;
            masked = (if mask_flag \<noteq> 0 then xor_mask key buffer else buffer);
            (r, t) = t_write env header t in
        if r \<noteq> int (length header) then (-1, masked, ws\<lparr>ws_parent := t\<rparr>)
        else if length buffer = 0 then (0, masked, ws\<lparr>ws_parent := t\<rparr>)
        else
          let (ret, t) = t_write env masked t in
          (ret, if mask_flag \<noteq> 0 then xor_mask key masked else masked, ws\<lparr>ws_parent := t\<rparr>))"

definition esp_transport_ws_send_raw ::
  "'t parent_ops \<Rightarrow> u8 \<Rightarrow> u8 list \<Rightarrow> 't transport_ws \<Rightarrow> int \<times> u8 list \<times> 't transport_ws" where
  "esp_transport_ws_send_raw env opcode b ws = ws_write_frame env (opcode OR WS_FIN) WS_MASK b ws"

definition ws_write :: "'t parent_ops \<Rightarrow> u8 list \<Rightarrow> 't transport_ws \<Rightarrow> int \<times> u8 list \<times> 't transport_ws" where
  "ws_write env b ws =
     (if b = [] then ws_write_frame env (WS_OPCODE_PING OR WS_FIN) WS_MASK [] ws
      else ws_write_frame env (WS_OPCODE_BINARY OR WS_FIN) WS_MASK b ws)"

section \<open>Reading\<close>

definition ws_read_payload ::
  "'t parent_ops \<Rightarrow> u8 list \<Rightarrow> 't transport_ws \<Rightarrow> int \<times> u8 list \<times> 't transport_ws" where
  "ws_read_payload env buffer ws =
     (let bytes_to_read = (if ws_remaining ws > int (length buffer) then length buffer else nat (ws_remaining ws));
          (rlen, bs, t) = (if bytes_to_read \<noteq> 0 then t_read env bytes_to_read (ws_parent ws) else (0, [], ws_parent ws)) in
      if bytes_to_read \<noteq> 0 \<and> rlen \<le> 0 then (rlen, buffer, ws\<lparr>ws_parent := t\<rparr>)
      else
        let buffer = overwrite buffer 0 bs;
            buffer = overwrite buffer 0 (xor_mask (ws_mask_key ws) (take bytes_to_read buffer)) in
        (rlen, buffer, ws\<lparr>ws_parent := t, ws_remaining := ws_remaining ws - rlen\<rparr>))"

text \<open>The length field: \<open>None\<close> when a read failed with the given result.\<close>

definition read_length ::
  "'t parent_ops \<Rightarrow> u8 list \<Rightarrow> 't \<Rightarrow> (int + int) \<times> 't" where
  "read_length env hdr t =
     (let len7 = uint (hdr ! 1 AND 0x7F) in
      if len7 = 126 then
        (case t_read env 2 t of (rlen, bs, t) \<Rightarrow>
          if rlen \<le> 0 then (Inl rlen, t)
          else let hdr = overwrite hdr 2 bs in (Inr (uint (hdr ! 2) * 256 + uint (hdr ! 3)), t))
      else if len7 = 127 then
        (case t_read env 8 t of (rlen, bs, t) \<Rightarrow>
          if rlen \<le> 0 then (Inl rlen, t)
          else
            let hdr = overwrite hdr 2 bs in
            if hdr ! 2 \<noteq> 0 \<or> hdr ! 3 \<noteq> 0 \<or> hdr ! 4 \<noteq> 0 \<or> hdr ! 5 \<noteq> 0 then (Inr (s32_of_int 0xFFFFFFFF), t)
            else (Inr (s32_of_int (uint (of_be32 (drop 6 hdr)))), t))
      else (Inr len7, t))"

definition ws_read_header ::
  "'t parent_ops \<Rightarrow> u8 list \<Rightarrow> u8 list \<Rightarrow> 't transport_ws \<Rightarrow> (int \<times> u8 list \<times> 't transport_ws) option" where
  "ws_read_header env hdr0 buffer ws =
     (let (poll_read, t) = t_poll_read env (ws_parent ws); ws = ws\<lparr>ws_parent := t\<rparr> in
      if poll_read \<le> 0 then Some (poll_read, buffer, ws)
      else
        let (rlen, bs, t) = t_read env 2 t; ws = ws\<lparr>ws_parent := t\<rparr> in
        if rlen \<le> 0 then Some (rlen, buffer, ws)
        else
          let hdr = overwrite hdr0 0 bs;
              ws = ws\<lparr>ws_opcode := hdr ! 0 AND 0x0F\<rparr>;
              masked = drop_bit 7 (hdr ! 1) AND 1;
              (pl, t) = read_length env hdr t; ws = ws\<lparr>ws_parent := t\<rparr> in
          case pl of
            Inl rlen \<Rightarrow> Some (rlen, buffer, ws)
          | Inr payload_len \<Rightarrow>
              let done_with = (\<lambda>key buffer ws. Some (payload_len, buffer,
                    ws\<lparr>ws_mask_key := key, ws_payload_len := payload_len, ws_remaining := payload_len\<rparr>)) in
              if masked = 0 then done_with [0, 0, 0, 0] buffer ws
              else if payload_len = 0 then
                if length buffer < 4 then None else done_with (take 4 buffer) buffer ws
              else
                let (rlen, bs, t) = t_read env 4 t; ws = ws\<lparr>ws_parent := t\<rparr> in
                if rlen \<le> 0 then Some (rlen, buffer, ws)
                else if length buffer < 4 then None
                else let buffer = overwrite buffer 0 bs in done_with (take 4 buffer) buffer ws)"

definition ws_read ::
  "'t parent_ops \<Rightarrow> u8 list \<Rightarrow> u8 list \<Rightarrow> 't transport_ws \<Rightarrow> (int \<times> u8 list \<times> 't transport_ws) option" where
  "ws_read env hdr0 buffer ws =
     (case (if ws_remaining ws \<le> 0 then ws_read_header env hdr0 buffer ws else Some (0, buffer, ws)) of
        None \<Rightarrow> None
      | Some (rlen, buffer, ws') \<Rightarrow>
          if ws_remaining ws \<le> 0 \<and> rlen \<le> 0 then Some (rlen, buffer, ws'\<lparr>ws_remaining := 0\<rparr>)
          else if ws_payload_len ws' \<noteq> 0 then
            (case ws_read_payload env buffer ws' of (rlen, buffer, ws'') \<Rightarrow>
              Some (rlen, buffer, if rlen \<le> 0 then ws''\<lparr>ws_remaining := 0\<rparr> else ws''))
          else Some (rlen, buffer, ws'))"

definition ws_get_payload_transport_handle :: "'t transport_ws \<Rightarrow> 't \<times> 't transport_ws" where
  "ws_get_payload_transport_handle ws = (ws_parent ws, ws\<lparr>ws_remaining := 0\<rparr>)"

definition ws_poll_read :: "'t parent_ops \<Rightarrow> 't transport_ws \<Rightarrow> int \<times> 't transport_ws" where
  "ws_poll_read env ws = (case t_poll_read env (ws_parent ws) of (r, t) \<Rightarrow> (r, ws\<lparr>ws_parent := t\<rparr>))"

definition ws_poll_write :: "'t parent_ops \<Rightarrow> 't transport_ws \<Rightarrow> int \<times> 't transport_ws" where
  "ws_poll_write env ws = (case t_poll_write env (ws_parent ws) of (r, t) \<Rightarrow> (r, ws\<lparr>ws_parent := t\<rparr>))"

section \<open>Frames, as the protocol has them\<close>

text \<open>A frame of RFC 6455: the final bit and the opcode, the mask bit and the length in 7, 7+16 or 7+64 bits,
  most significant byte first, the masking key if there is one, and the payload, masked byte by byte.\<close>

definition frame_length :: "nat \<Rightarrow> nat \<Rightarrow> u8 list" where
  "frame_length flag n =
     (if n \<le> 125 then [of_nat (flag + n)]
      else if n < 2 ^ 16 then of_nat (flag + 126) # map (\<lambda>k. of_nat (n div 256 ^ k)) [1, 0]
      else of_nat (flag + 127) # map (\<lambda>k. of_nat (n div 256 ^ k)) [7, 6, 5, 4, 3, 2, 1, 0])"

definition masked_by :: "u8 list \<Rightarrow> u8 list \<Rightarrow> u8 list" where
  "masked_by key xs = map2 (XOR) xs (take (length xs) (concat (replicate (length xs) key)))"

definition frame :: "nat \<Rightarrow> u8 list option \<Rightarrow> u8 list \<Rightarrow> u8 list" where
  "frame opcode key xs = of_nat (128 + opcode) #
     (case key of
        None \<Rightarrow> frame_length 0 (length xs) @ xs
      | Some k \<Rightarrow> frame_length 128 (length xs) @ k @ masked_by k xs)"

lemma length_xor_mask [simp]: "length (xor_mask m xs) = length xs"
  by (simp add: xor_mask_def)

lemma nth_xor_mask [simp]: "i < length xs \<Longrightarrow> xor_mask m xs ! i = xs ! i XOR m ! (i mod 4)"
  by (simp add: xor_mask_def)

lemma xor_mask_twice [simp]: "xor_mask m (xor_mask m xs) = xs"
  by (rule nth_equalityI) (simp_all add: xor.assoc)

lemma xor_mask_zero [simp]: "xor_mask [0, 0, 0, 0] xs = xs"
proof (rule nth_equalityI)
  fix i assume "i < length (xor_mask [0, 0, 0, 0] xs)"
  moreover have "[0, 0, 0, 0 :: u8] ! (i mod 4) = 0"
  proof -
    have "i mod 4 = 0 \<or> i mod 4 = 1 \<or> i mod 4 = 2 \<or> i mod 4 = 3" by presburger
    then show ?thesis by (elim disjE) (simp_all add: nth_Cons')
  qed
  ultimately show "xor_mask [0, 0, 0, 0] xs ! i = xs ! i" by simp
qed simp

lemma nth_concat_replicate: "length k = 4 \<Longrightarrow> i < 4 * n \<Longrightarrow> concat (replicate n k) ! i = k ! (i mod 4)"
proof (induction n arbitrary: i)
  case (Suc n)
  then show ?case
  proof (cases "i < 4")
    case False
    then have "i = 4 + (i - 4)" by simp
    then have "(i - 4) mod 4 = i mod 4" using mod_add_self1 [of 4 "i - 4"] by simp
    then show ?thesis using Suc False by (simp add: nth_append)
  qed (simp add: nth_append)
qed simp

lemma masked_by_eq: "length k = 4 \<Longrightarrow> masked_by k xs = xor_mask k xs"
proof (rule nth_equalityI)
  assume k: "length k = 4"
  have l: "length (concat (replicate n k)) = 4 * n" for n using k by (induction n) simp_all
  show "length (masked_by k xs) = length (xor_mask k xs)" by (simp add: masked_by_def l)
  fix i assume "i < length (masked_by k xs)"
  then have "i < length xs" by (simp add: masked_by_def)
  then show "masked_by k xs ! i = xor_mask k xs ! i" by (simp add: masked_by_def l nth_concat_replicate [OF k])
qed

lemma len7_or: "n < 128 \<Longrightarrow> of_nat n OR WS_MASK = (of_nat (128 + n) :: u8)"
proof -
  assume n: "n < 128"
  have "list_all (\<lambda>n. of_nat n OR WS_MASK = (of_nat (128 + n) :: u8)) [0..<128]" by code_simp
  then show ?thesis using n by (simp add: list_all_iff)
qed

lemma byte_of_u32: "k \<le> 24 \<Longrightarrow> ucast (drop_bit k (of_nat n :: u32)) = (of_nat (n div 2 ^ k) :: u8)"
  by (intro bit_word_eqI) (auto simp: bit_simps drop_bit_eq_div [symmetric])

lemma be32_of_nat: "be32 (of_nat n) = map (\<lambda>k. of_nat (n div 256 ^ k)) [3, 2, 1, 0]"
  using byte_of_u32 [of 8 n] byte_of_u32 [of 16 n] byte_of_u32 [of 24 n] byte_of_u32 [of 0 n] by (simp add: be32_def)

lemma low_byte: "ucast (of_nat n AND 0xFF :: u32) = (of_nat n :: u8)"
proof -
  have e: "(0xFF :: u32) = mask 8" by (simp add: mask_eq_exp_minus_1)
  show ?thesis unfolding e by (intro bit_word_eqI) (auto simp: bit_simps)
qed

lemma frame_length_long:
  assumes "2 ^ 16 \<le> n" and "n < 2 ^ 31"
  shows "frame_length flag n = of_nat (flag + 127) # [0, 0, 0, 0] @ be32 (of_nat n)"
proof -
  have "n div 256 ^ 7 = 0" "n div 256 ^ 6 = 0" "n div 256 ^ 5 = 0" "n div 256 ^ 4 = 0"
    using assms(2) by (simp_all add: div_less)
  then show ?thesis using assms unfolding frame_length_def be32_of_nat by (simp del: of_nat_add)
qed

lemma ws_header_frame:
  assumes "n < 2 ^ 31"
  shows "ws_header op WS_MASK n = op # frame_length 128 n"
proof -
  have w: "WS_SIZE16 OR WS_MASK = of_nat (128 + 126)" "WS_SIZE64 OR WS_MASK = of_nat (128 + 127)"
    by (simp_all add: WS_SIZE16_def WS_SIZE64_def WS_MASK_def)
  consider (short) "n \<le> 125" | (middle) "\<not> n \<le> 125" "n < 65536" | (long) "\<not> n \<le> 125" "\<not> n < 65536" by blast
  then show ?thesis
  proof cases
    case short then show ?thesis by (simp add: ws_header_def frame_length_def len7_or)
  next
    case middle
    then show ?thesis using byte_of_u32 [of 8 n] by (simp add: ws_header_def frame_length_def low_byte w del: of_nat_add)
  next
    case long
    have "frame_length 128 n = of_nat (128 + 127) # [0, 0, 0, 0] @ be32 (of_nat n)"
      using long assms by (intro frame_length_long) simp_all
    then show ?thesis using long by (simp add: ws_header_def w del: of_nat_add)
  qed
qed

end
