(* ===== verification/WsProps.thy ===== *)
theory WsProps
  imports WsTransport
begin

text \<open>
  Properties of the WebSocket transport.  A parent transport is described by the bytes it has yet to deliver
  (\<open>source\<close>) and the bytes it has taken (\<open>sink\<close>).  Writing produces frames of the protocol; successive reads
  return the payloads of the frames that arrive, as one stream.
\<close>

section \<open>Parent transports\<close>

text \<open>\<open>sink\<close>: what a write accepts is appended to \<open>out\<close>; polling and the random numbers leave it alone.\<close>

definition sink :: "'t parent_ops \<Rightarrow> ('t \<Rightarrow> u8 list) \<Rightarrow> bool" where
  "sink env out \<longleftrightarrow>
     (\<forall>bs t r t'. t_write env bs t = (r, t') \<longrightarrow> r \<le> int (length bs) \<and> out t' = out t @ take (nat r) bs)
     \<and> (\<forall>t r t'. t_poll_write env t = (r, t') \<longrightarrow> out t' = out t)
     \<and> (\<forall>n t bs t'. t_random env n t = (bs, t') \<longrightarrow> length bs = n \<and> out t' = out t)"





section \<open>Writing\<close>

text \<open>The four ways in which a masked write ends: the parent is not ready to write, it does not take the whole
  header, there is no payload, or as much of the payload is written as it takes.  \<open>hl\<close> is the length of the header
  with the key.\<close>

lemma ws_write_frame_cases:
  assumes "sink env out" and "length payload < 2 ^ 31"
    and "ws_write_frame env (of_nat (128 + op)) WS_MASK payload ws = (r, buf, ws')"
  obtains key hl where "length key = 4" "length (frame op (Some key) payload) = hl + length payload"
    "r \<le> 0 \<and> buf = payload \<and> out (ws_parent ws') = out (ws_parent ws)
     \<or> r = -1 \<and> buf = xor_mask key payload
         \<and> (\<exists>k < hl. out (ws_parent ws') = out (ws_parent ws) @ take k (frame op (Some key) payload))
     \<or> payload = [] \<and> r = 0 \<and> buf = [] \<and> out (ws_parent ws') = out (ws_parent ws) @ frame op (Some key) []
     \<or> payload \<noteq> [] \<and> r \<le> int (length payload) \<and> buf = payload
         \<and> out (ws_parent ws') = out (ws_parent ws) @ take (hl + nat r) (frame op (Some key) payload)"
proof -
  obtain pw t1 where p: "t_poll_write env (ws_parent ws) = (pw, t1)" by (metis surj_pair)
  obtain key t2 where k: "t_random env 4 t1 = (key, t2)" by (metis surj_pair)
  let ?h = "ws_header (of_nat (128 + op)) WS_MASK (length payload) @ key"
  let ?m = "xor_mask key payload"
  obtain rh t3 where h: "t_write env ?h t2 = (rh, t3)" by (metis surj_pair)
  obtain ret t4 where d: "t_write env ?m t3 = (ret, t4)" by (metis surj_pair)
  have m: "WS_MASK \<noteq> 0" by (simp add: WS_MASK_def)
  have o: "out t1 = out (ws_parent ws)" "length key = 4" "out t2 = out t1" "rh \<le> int (length ?h)"
    "out t3 = out t2 @ take (nat rh) ?h" "ret \<le> int (length ?m)" "out t4 = out t3 @ take (nat ret) ?m"
    using assms(1) p k h d unfolding sink_def by blast+
  have fr: "frame op (Some key) payload = ?h @ ?m"
    by (simp add: frame_def ws_header_frame [OF assms(2)] masked_by_eq [OF o(2)])
  have x: "payload = [] \<Longrightarrow> ?m = []" by (simp add: xor_mask_def)
  consider (closed) "ws_parent ws' = t1" "r \<le> 0" "buf = payload"
    | (header) "ws_parent ws' = t3" "rh \<noteq> int (length ?h)" "r = -1" "buf = ?m"
    | (empty) "ws_parent ws' = t3" "rh = int (length ?h)" "payload = []" "r = 0" "buf = []"
    | (data) "ws_parent ws' = t4" "rh = int (length ?h)" "payload \<noteq> []" "r = ret" "buf = payload"
  proof -
    have w: "(if pw \<le> 0 then (pw, payload, ws\<lparr>ws_parent := t1\<rparr>)
        else if rh \<noteq> int (length ?h) then (-1, ?m, ws\<lparr>ws_parent := t3\<rparr>)
        else if payload = [] then (0, ?m, ws\<lparr>ws_parent := t3\<rparr>)
        else (ret, payload, ws\<lparr>ws_parent := t4\<rparr>)) = (r, buf, ws')"
      using assms(3) m unfolding ws_write_frame_def Let_def p prod.case k h d
      by (simp only: if_True if_False xor_mask_twice length_0_conv prod.case not_False_eq_True k h d)
    consider "pw \<le> 0" | "\<not> pw \<le> 0" "rh \<noteq> int (length ?h)" | "\<not> pw \<le> 0" "rh = int (length ?h)" "payload = []"
      | "\<not> pw \<le> 0" "rh = int (length ?h)" "payload \<noteq> []" by blast
    then show thesis
    proof cases
      case 1 then show ?thesis using w by (intro closed) auto
    next
      case 2 then show ?thesis using w by (intro header) auto
    next
      case 3 then show ?thesis using w x by (intro empty) auto
    next
      case 4 then show ?thesis using w by (intro data) auto
    qed
  qed
  then have "r \<le> 0 \<and> buf = payload \<and> out (ws_parent ws') = out (ws_parent ws)
     \<or> r = -1 \<and> buf = ?m \<and> (\<exists>k < length ?h. out (ws_parent ws') = out (ws_parent ws) @ take k (?h @ ?m))
     \<or> payload = [] \<and> r = 0 \<and> buf = [] \<and> out (ws_parent ws') = out (ws_parent ws) @ ?h @ ?m
     \<or> payload \<noteq> [] \<and> r \<le> int (length payload) \<and> buf = payload
         \<and> out (ws_parent ws') = out (ws_parent ws) @ take (length ?h + nat r) (?h @ ?m)"
  proof cases
    case closed
    then show ?thesis using o(1) by blast
  next
    case header
    have "nat rh < length ?h" using header(2) o(2,4) by simp
    then have "\<exists>k < length ?h. out (ws_parent ws') = out (ws_parent ws) @ take k (?h @ ?m)"
      using header(1) o(1,3,5) by (intro exI [of _ "nat rh"]) simp
    then show ?thesis using header(3,4) by blast
  next
    case empty
    then show ?thesis using o(1,3,5) x by simp
  next
    case data
    then show ?thesis using o(1,3,5,6,7) by simp
  qed
  then have "r \<le> 0 \<and> buf = payload \<and> out (ws_parent ws') = out (ws_parent ws)
     \<or> r = -1 \<and> buf = ?m \<and> (\<exists>k < length ?h. out (ws_parent ws') = out (ws_parent ws) @ take k (frame op (Some key) payload))
     \<or> payload = [] \<and> r = 0 \<and> buf = [] \<and> out (ws_parent ws') = out (ws_parent ws) @ frame op (Some key) []
     \<or> payload \<noteq> [] \<and> r \<le> int (length payload) \<and> buf = payload
         \<and> out (ws_parent ws') = out (ws_parent ws) @ take (length ?h + nat r) (frame op (Some key) payload)"
    unfolding fr [symmetric] by (elim disjE) simp_all
  moreover have "length (frame op (Some key) payload) = length ?h + length payload" unfolding fr by simp
  ultimately show thesis by (rule that [OF o(2), rotated])
qed

text \<open>When the write of the header fails the caller's data stays masked.\<close>

lemma ws_failed_write_masks:
  assumes "t_poll_write env (ws_parent ws) = (1, t1)" and "t_random env 4 t1 = (key, t2)"
    and "t_write env (ws_header op WS_MASK (length payload) @ key) t2 = (-1, t3)"
  shows "ws_write_frame env op WS_MASK payload ws = (-1, xor_mask key payload, ws\<lparr>ws_parent := t3\<rparr>)"
  using assms by (auto simp: ws_write_frame_def Let_def WS_MASK_def)

section \<open>Reading\<close>


lemma of_be32_be32 [simp]: "of_be32 (be32 w @ xs) = w"
proof (rule bit_word_eqI)
  fix n assume "n < LENGTH(32)"
  then have "n < 8 \<or> 8 \<le> n \<and> n < 16 \<or> 16 \<le> n \<and> n < 24 \<or> 24 \<le> n \<and> n < 32" by auto
  then show "bit (of_be32 (be32 w @ xs)) n \<longleftrightarrow> bit w n"
    by (elim disjE) (auto simp: of_be32_def be32_def bit_simps)
qed







section \<open>The stream of payloads\<close>





text \<open>Successive calls of \<open>ws_read\<close> with the given buffers: the bytes they return, one after the other.\<close>

fun ws_reads ::
  "'t parent_ops \<Rightarrow> u8 list \<Rightarrow> u8 list list \<Rightarrow> 't transport_ws \<Rightarrow> (u8 list \<times> 't transport_ws) option" where
  "ws_reads env hdr0 [] ws = Some ([], ws)"
| "ws_reads env hdr0 (buffer # bufs) ws =
     (case ws_read env hdr0 buffer ws of
        None \<Rightarrow> None
      | Some (r, buffer, ws) \<Rightarrow>
          map_option (\<lambda>(bs, ws). (take (nat r) buffer @ bs, ws)) (ws_reads env hdr0 bufs ws))"







section \<open>A wire\<close>

text \<open>A parent that keeps what is written to it and reads it back in pieces of at most 8 bytes; its random
  numbers count up from the number of bytes it holds.\<close>

definition wire :: "u8 list parent_ops" where
  "wire = \<lparr>t_poll_read = (\<lambda>t. (if t = [] then 0 else 1, t)),
     t_poll_write = (\<lambda>t. (1, t)),
     t_read = (\<lambda>n t. if t = [] then (-1, [], t) else (int (length (take (min n 8) t)), take (min n 8) t, drop (min n 8) t)),
     t_write = (\<lambda>bs t. (int (length bs), t @ bs)),
     t_random = (\<lambda>n t. (map (\<lambda>i. of_nat (length t + 17 * i)) [0..<n], t))\<rparr>"

lemma wire_sink: "sink wire (\<lambda>t. t)"
  by (auto simp: sink_def wire_def)



section \<open>What a write leaves on the wire\<close>

lemma ws_write_opcodes: "WS_OPCODE_PING OR WS_FIN = of_nat (128 + 9)" "WS_OPCODE_BINARY OR WS_FIN = of_nat (128 + 2)"
  by (simp_all add: WS_OPCODE_PING_def WS_OPCODE_BINARY_def WS_FIN_def)

text \<open>C30: What a write of less than 2 GiB leaves on the wire and in the caller's buffer, whatever the parent
  accepts.  The frame is one masked frame of the protocol with a key of four bytes: a binary frame with the
  caller's data, or a ping when there is none; \<open>hl\<close> is the length of its header with the key.  Either nothing was
  written, the result is not positive and the buffer is untouched (the parent was not ready); or the header was
  cut, the result is -1 and the buffer is left masked; or it was the ping, which is written whole, with result 0;
  or the whole header and as many bytes of the masked data as the result says are written, and the buffer has its
  contents back.  So when the result is the length of the data, which is not empty, the whole frame is there.\<close>

theorem ws_write_is_frame:
  assumes "sink env out" and "length xs < 2 ^ 31" and "ws_write env xs ws = (r, buf, ws')"
  shows "\<exists>key hl. length key = 4 \<and> length (frame (if xs = [] then 9 else 2) (Some key) xs) = hl + length xs
    \<and> (r \<le> 0 \<and> buf = xs \<and> out (ws_parent ws') = out (ws_parent ws)
       \<or> r = -1 \<and> buf = xor_mask key xs
           \<and> (\<exists>k < hl. out (ws_parent ws') = out (ws_parent ws) @ take k (frame (if xs = [] then 9 else 2) (Some key) xs))
       \<or> xs = [] \<and> r = 0 \<and> buf = [] \<and> out (ws_parent ws') = out (ws_parent ws) @ frame 9 (Some key) []
       \<or> xs \<noteq> [] \<and> r \<le> int (length xs) \<and> buf = xs
           \<and> out (ws_parent ws') = out (ws_parent ws) @ take (hl + nat r) (frame 2 (Some key) xs))
    \<and> (xs \<noteq> [] \<and> r = int (length xs) \<longrightarrow>
         buf = xs \<and> out (ws_parent ws') = out (ws_parent ws) @ frame 2 (Some key) xs)"
proof -
  let ?op = "if xs = [] then 9 else 2 :: nat"
  have wf: "ws_write_frame env (of_nat (128 + ?op)) WS_MASK xs ws = (r, buf, ws')"
    using assms(3) by (cases "xs = []") (simp_all add: ws_write_def ws_write_opcodes)
  obtain key hl where
    k: "length key = 4" "length (frame ?op (Some key) xs) = hl + length xs"
    and c: "r \<le> 0 \<and> buf = xs \<and> out (ws_parent ws') = out (ws_parent ws)
       \<or> r = -1 \<and> buf = xor_mask key xs \<and> (\<exists>k < hl. out (ws_parent ws') = out (ws_parent ws) @ take k (frame ?op (Some key) xs))
       \<or> xs = [] \<and> r = 0 \<and> buf = [] \<and> out (ws_parent ws') = out (ws_parent ws) @ frame ?op (Some key) []
       \<or> xs \<noteq> [] \<and> r \<le> int (length xs) \<and> buf = xs
           \<and> out (ws_parent ws') = out (ws_parent ws) @ take (hl + nat r) (frame ?op (Some key) xs)"
    by (rule ws_write_frame_cases [OF assms(1,2) wf])
  show ?thesis
  proof (cases "xs = []")
    case True
    show ?thesis using k c by (intro exI [of _ key] exI [of _ hl]) (simp only: True if_True simp_thms)
  next
    case False
    have w: "buf = xs \<and> out (ws_parent ws') = out (ws_parent ws) @ frame 2 (Some key) xs" if r: "r = int (length xs)"
    proof -
      have "0 < r" "r \<noteq> -1" using r False by simp_all
      then have "buf = xs \<and> out (ws_parent ws') = out (ws_parent ws) @ take (hl + nat r) (frame 2 (Some key) xs)"
        using c False by auto
      moreover have "hl + nat r = length (frame 2 (Some key) xs)" using k(2) r False by simp
      ultimately show ?thesis by simp
    qed
    show ?thesis using k c by (intro exI [of _ key] exI [of _ hl]) (simp only: False if_False simp_thms, rule impI, rule w)
  qed
qed

lemma ws_write_is_frame_witness:
  "\<exists>key. length key = 4
    \<and> [7] @ [0x82, 0x83, 1, 18, 35, 52, 0x60, 0x70, 0x40] = [7] @ frame 2 (Some key) [0x61, 0x62, 0x63]"
proof -
  let ?ws = "\<lambda>t. \<lparr>ws_opcode = 0, ws_mask_key = [0, 0, 0, 0], ws_payload_len = 0, ws_remaining = 0, ws_parent = t\<rparr>"
  have "ws_write wire [0x61, 0x62, 0x63] (?ws [7]) =
      (3, [0x61, 0x62, 0x63], ?ws ([7] @ [0x82, 0x83, 1, 18, 35, 52, 0x60, 0x70, 0x40]))"
    by code_simp
  note t = ws_write_is_frame [OF wire_sink _ this]
  have "length [0x61, 0x62, 0x63 :: u8] < 2 ^ 31" by simp
  from t [OF this] obtain key where k: "length key = 4"
    and i: "[0x61, 0x62, 0x63 :: u8] \<noteq> [] \<and> (3 :: int) = int (length [0x61, 0x62, 0x63 :: u8]) \<longrightarrow>
      [0x61, 0x62, 0x63] = [0x61, 0x62, 0x63 :: u8]
      \<and> ws_parent (?ws ([7] @ [0x82, 0x83, 1, 18, 35, 52, 0x60, 0x70, 0x40])) = ws_parent (?ws [7]) @ frame 2 (Some key) [0x61, 0x62, 0x63]"
    by (elim exE conjE)
  have "[0x61, 0x62, 0x63 :: u8] \<noteq> [] \<and> (3 :: int) = int (length [0x61, 0x62, 0x63 :: u8])" by simp
  from i [THEN mp, OF this] show ?thesis using k by (simp only: transport_ws.select_convs) blast
qed

abbreviation (input) ws_on :: "'t \<Rightarrow> 't transport_ws" where
  "ws_on t \<equiv> \<lparr>ws_opcode = 0, ws_mask_key = [0, 0, 0, 0], ws_payload_len = 0, ws_remaining = 0, ws_parent = t\<rparr>"

section \<open>Where the framing is lost\<close>

text \<open>A read that times out in the middle of a frame forgets the frame: the next call takes payload for a header.  The
  parent delivers five of ten bytes, then nothing once, then the rest, which looks like a frame of two bytes.\<close>

definition scripted :: "u8 list list parent_ops" where
  "scripted = \<lparr>t_poll_read = (\<lambda>t. (1, t)), t_poll_write = (\<lambda>t. (1, t)),
     t_read = (\<lambda>n t. case t of [] \<Rightarrow> (-1, [], []) | [] # t \<Rightarrow> (0, [], t)
       | bs # t \<Rightarrow> (int (length (take n bs)), take n bs, if length bs \<le> n then t else drop n bs # t)),
     t_write = (\<lambda>bs t. (int (length bs), t)), t_random = (\<lambda>n t. (replicate n 0, t))\<rparr>"

lemma ws_timeout_desync:
  "map_option fst (ws_reads scripted (replicate 16 0) (replicate 3 (replicate 16 0))
     (ws_on [[0x82, 10, 1, 2, 3, 4, 5], [], [0x82, 2, 8, 9, 10]])) = Some [1, 2, 3, 4, 5, 8, 9]"
  by code_simp

text \<open>The key starts again with every piece: a masked frame cut after two bytes comes out wrong from there on.\<close>

lemma ws_masked_cut:
  "map_option fst (ws_reads scripted (replicate 16 0) (replicate 2 (replicate 4 0))
     (ws_on [take 8 (frame 2 (Some [1, 2, 3, 4]) [97, 98, 99, 100]), drop 8 (frame 2 (Some [1, 2, 3, 4]) [97, 98, 99, 100])]))
   \<noteq> Some [97, 98, 99, 100]"
  by code_simp

text \<open>The key of a masked frame goes through the caller's buffer, whatever its size.\<close>

lemma ws_mask_overflow: "ws_read scripted (replicate 16 0) [0] (ws_on [frame 2 (Some [1, 2, 3, 4]) [5]]) = None"
  by code_simp

text \<open>The key of a masked frame with no payload is never read: it is taken for the next header.\<close>

lemma ws_masked_empty:
  "\<exists>b ws1 b' ws2. ws_read scripted (replicate 16 0) [0, 0, 0, 0] (ws_on [frame 9 (Some [0x82, 1, 3, 4]) []]) = Some (0, b, ws1)
    \<and> ws_read scripted (replicate 16 0) b ws1 = Some (1, b', ws2) \<and> b' ! 0 = 3"
proof -
  have "(case ws_read scripted (replicate 16 0) [0, 0, 0, 0] (ws_on [frame 9 (Some [0x82, 1, 3, 4]) []]) of
      Some (r0, b, ws1) \<Rightarrow> r0 = 0 \<and> (case ws_read scripted (replicate 16 0) b ws1 of Some (r, b', ws2) \<Rightarrow> r = 1 \<and> b' ! 0 = 3 | _ \<Rightarrow> False)
    | _ \<Rightarrow> False)" by code_simp
  then show ?thesis by (auto split: option.splits prod.splits if_splits)
qed

end
