(* ===== verification/Base64.thy ===== *)
theory Base64
  imports Prelude
begin

text \<open>
  The base64 codec, \<open>components/util/src/base64.c\<close>.  Source and result are byte lists; the two tables are
  the 32-bit words of the code, read bytewise.  The terminating zero that the encoder writes behind its
  result is part of the bytes it stores.
\<close>

section \<open>The tables\<close>

definition s_base64_enc_lut :: "u32 list" where
  "s_base64_enc_lut = [
    0x44434241, 0x48474645, 0x4c4b4a49, 0x504f4e4d,
    0x54535251, 0x58575655, 0x62615a59, 0x66656463,
    0x6a696867, 0x6e6d6c6b, 0x7271706f, 0x76757473,
    0x7a797877, 0x33323130, 0x37363534, 0x2f2b3938]"

definition s_base64_dec_lut :: "u32 list" where
  "s_base64_dec_lut = [
    0x7f7f7f7f, 0x7f7f7f7f, 0x7f7f7f7f, 0x7f7f7f7f,
    0x7f7f7f7f, 0x7f7f7f7f, 0x7f7f7f7f, 0x7f7f7f7f,
    0x7f7f7f7f, 0x7f7f7f7f, 0x3e7f7f7f, 0x3f7f7f7f,
    0x37363534, 0x3b3a3938, 0x7f7f3d3c, 0x7f7f407f,
    0x0201007f, 0x06050403, 0x0a090807, 0x0e0d0c0b,
    0x1211100f, 0x16151413, 0x7f191817, 0x7f7f7f7f,
    0x1c1b1a7f, 0x201f1e1d, 0x24232221, 0x28272625,
    0x2c2b2a29, 0x302f2e2d, 0x7f333231, 0x7f7f7f7f]"

definition ESP_IBUS_GET_U8_DATA :: "nat \<Rightarrow> u32 list \<Rightarrow> u8" where
  "ESP_IBUS_GET_U8_DATA i tab = ucast (drop_bit (8 * (i mod 4)) (tab ! (i div 4)))"

section \<open>Encoding\<close>

datatype b64_err = EINVAL | ENOBUFS

definition enc_char :: "u32 \<Rightarrow> u8" where
  "enc_char x = ESP_IBUS_GET_U8_DATA (unat (x AND 0x3F)) s_base64_enc_lut"

text \<open>The loop over whole groups of three bytes and the last group.\<close>

fun encode_loop :: "u8 list \<Rightarrow> u8 list" where
  "encode_loop (b1 # b2 # b3 # src) =
    (let C1 = ucast b1 :: u32; C2 = ucast b2 :: u32; C3 = ucast b3 :: u32 in
     enc_char (drop_bit 2 C1) # enc_char (push_bit 4 (C1 AND 3) + drop_bit 4 C2)
       # enc_char (push_bit 2 (C2 AND 15) + drop_bit 6 C3) # enc_char C3 # encode_loop src)"
| "encode_loop [b1, b2] =
    (let C1 = ucast b1 :: u32; C2 = ucast b2 :: u32 in
     [enc_char (drop_bit 2 C1), enc_char (push_bit 4 (C1 AND 3) + drop_bit 4 C2), enc_char (push_bit 2 (C2 AND 15)), 61])"
| "encode_loop [b1] =
    (let C1 = ucast b1 :: u32 in [enc_char (drop_bit 2 C1), enc_char (push_bit 4 (C1 AND 3)), 61, 61])"
| "encode_loop [] = []"

text \<open>The four arguments must be non-zero (\<open>assert\<close>); the result is the stored bytes and the returned
  length.\<close>

definition esp_base64_encode :: "u8 list \<Rightarrow> nat \<Rightarrow> b64_err + u8 list \<times> nat" where
  "esp_base64_encode src dlen =
    (let slen = length src;
         n = (slen div 3 + (if slen mod 3 \<noteq> 0 then 1 else 0)) * 4 mod 2 ^ 32
     in if dlen < (n + 1) mod 2 ^ 32 then Inl ENOBUFS
        else let out = encode_loop src in Inr (out @ [0], length out))"

section \<open>Decoding\<close>

definition dec_val :: "u8 \<Rightarrow> u8" where
  "dec_val c = ESP_IBUS_GET_U8_DATA (unat c) s_base64_dec_lut"

lemma dropWhile_shorter: "dropWhile P src = c # rest \<Longrightarrow> length rest < length src"
  by (metis length_Cons length_dropWhile_le less_eq_Suc_le)

text \<open>The first pass: \<open>n\<close> counts the characters that are not white space, \<open>j\<close> the padding characters.\<close>

function check_pass :: "u8 list \<Rightarrow> nat \<Rightarrow> nat \<Rightarrow> (nat \<times> nat) option" where
  "check_pass src n j =
    (case dropWhile (\<lambda>c. c = 32) src of
       [] \<Rightarrow> Some (n, j)
     | c # rest \<Rightarrow>
         let x = length (takeWhile (\<lambda>c. c = 32) src); j' = (if c = 61 then j + 1 else j) in
         if length (c # rest) \<ge> 2 \<and> c = 13 \<and> rest ! 0 = 10 then check_pass rest n j
         else if c = 10 then check_pass rest n j
         else if x \<noteq> 0 then None
         else if c = 61 \<and> j' > 2 then None
         else if c > 127 \<or> dec_val c = 127 then None
         else if dec_val c < 64 \<and> j' \<noteq> 0 then None
         else check_pass rest (n + 1) j')"
  by pat_completeness auto
termination
  by (relation "measure (\<lambda>(src, n, j). length src)") (auto dest: dropWhile_shorter)

declare check_pass.simps [simp del]

text \<open>The second pass; \<open>j\<close> and \<open>x\<close> are 32-bit words.\<close>

fun decode_loop :: "u8 list \<Rightarrow> u32 \<Rightarrow> nat \<Rightarrow> u32 \<Rightarrow> u8 list" where
  "decode_loop [] j n x = []"
| "decode_loop (c # src) j n x =
    (if c = 13 \<or> c = 10 \<or> c = 32 then decode_loop src j n x
     else let j' = (if dec_val c = 64 then j - 1 else j); x' = push_bit 6 x OR (ucast (dec_val c) AND 0x3F) in
       if n + 1 = 4
       then (if j' > 0 then [ucast (drop_bit 16 x')] else []) @ (if j' > 1 then [ucast (drop_bit 8 x')] else [])
              @ (if j' > 2 then [ucast x'] else []) @ decode_loop src j' 0 x'
       else decode_loop src j' (n + 1) x')"

definition esp_base64_decode :: "u8 list \<Rightarrow> nat \<Rightarrow> b64_err + u8 list" where
  "esp_base64_decode src dlen =
    (case check_pass src 0 0 of
       None \<Rightarrow> Inl EINVAL
     | Some (n, j) \<Rightarrow>
         if n = 0 then Inl EINVAL
         else let n1 = (6 * (n div 8) + (6 * (n mod 8) + 7) div 8) - j in
           if dlen < n1 then Inl ENOBUFS else Inr (decode_loop src 3 0 0))"

section \<open>The tables are inverse\<close>

lemma get_u8_nat: "ESP_IBUS_GET_U8_DATA i tab = of_nat (unat (tab ! (i div 4)) div 2 ^ (8 * (i mod 4)) mod 256)"
proof -
  have "unat (ucast (drop_bit k w) :: u8) = unat w div 2 ^ k mod 256" for w :: u32 and k
  proof -
    have "take_bit 32 (unat w) = unat w"
      using unsigned_less [of w] by (intro take_bit_nat_eq_self) simp
    then have "unat (drop_bit k w) = drop_bit k (unat w)" by (simp add: unsigned_drop_bit_eq)
    then show ?thesis by (simp add: unsigned_ucast_eq take_bit_eq_mod) (simp add: drop_bit_eq_div)
  qed
  then show ?thesis unfolding ESP_IBUS_GET_U8_DATA_def by (metis of_nat_unat ucast_id)
qed

definition alphabet :: "u8 list" where
  "alphabet = [65, 66, 67, 68, 69, 70, 71, 72, 73, 74, 75, 76, 77, 78, 79, 80, 81, 82, 83, 84, 85,
    86, 87, 88, 89, 90, 97, 98, 99, 100, 101, 102, 103, 104, 105, 106, 107, 108, 109,
    110, 111, 112, 113, 114, 115, 116, 117, 118, 119, 120, 121, 122, 48, 49, 50, 51,
    52, 53, 54, 55, 56, 57, 43, 47]"

lemma upt_64: "[0..<64] = [0, 1, 2, 3, 4, 5, 6, 7, 8, 9, 10, 11, 12, 13, 14, 15, 16, 17, 18, 19, 20, 21, 22,
    23, 24, 25, 26, 27, 28, 29, 30, 31, 32, 33, 34, 35, 36, 37, 38, 39, 40, 41, 42, 43,
    44, 45, 46, 47, 48, 49, 50, 51, 52, 53, 54, 55, 56, 57, 58, 59, 60, 61, 62, 63]"
  by code_simp

lemma enc_table: "map (\<lambda>k. ESP_IBUS_GET_U8_DATA k s_base64_enc_lut) [0..<64] = alphabet"
  unfolding upt_64 by (simp add: get_u8_nat s_base64_enc_lut_def alphabet_def)

lemma dec_table: "map dec_val alphabet = map of_nat [0..<64]"
  unfolding upt_64 alphabet_def by (simp add: dec_val_def get_u8_nat s_base64_dec_lut_def)

lemma alphabet_facts: "length alphabet = 64" "\<forall>c \<in> set alphabet. c \<le> 127 \<and> c \<notin> {13, 10, 32, 61}"
  by (simp_all add: alphabet_def)

lemma tables:
  assumes "k < 64"
  shows "dec_val (ESP_IBUS_GET_U8_DATA k s_base64_enc_lut) = of_nat k"
    "ESP_IBUS_GET_U8_DATA k s_base64_enc_lut \<le> 127" "ESP_IBUS_GET_U8_DATA k s_base64_enc_lut \<notin> {13, 10, 32, 61}"
proof -
  have e: "ESP_IBUS_GET_U8_DATA k s_base64_enc_lut = alphabet ! k"
    using assms arg_cong [OF enc_table, of "\<lambda>xs. xs ! k"] by simp
  have "alphabet ! k \<in> set alphabet" using assms alphabet_facts(1) by simp
  then show "ESP_IBUS_GET_U8_DATA k s_base64_enc_lut \<le> 127" "ESP_IBUS_GET_U8_DATA k s_base64_enc_lut \<notin> {13, 10, 32, 61}"
    using alphabet_facts(2) e by simp_all
  show "dec_val (ESP_IBUS_GET_U8_DATA k s_base64_enc_lut) = of_nat k"
    using assms arg_cong [OF dec_table, of "\<lambda>xs. xs ! k"] e alphabet_facts(1) by simp
qed

lemma enc_char_facts:
  "dec_val (enc_char x) = ucast (x AND 0x3F)" "enc_char x \<le> 127" "enc_char x \<notin> {13, 10, 32, 61}"
proof -
  have "unat (x AND 0x3F) < 64"
    using word_and_le1 [of x "0x3F"] by (simp add: word_le_nat_alt)
  note k = tables [OF this]
  have "(of_nat (unat (x AND 0x3F)) :: u8) = ucast (x AND 0x3F)" by simp
  then show "dec_val (enc_char x) = ucast (x AND 0x3F)" using k by (simp add: enc_char_def)
  show "enc_char x \<le> 127" "enc_char x \<notin> {13, 10, 32, 61}" using k by (simp_all add: enc_char_def)
qed

lemma dec_61: "dec_val 61 = 64"
  by (simp add: dec_val_def get_u8_nat s_base64_dec_lut_def)

lemma low_bits: "v AND 0x3F = take_bit 6 v" "v AND 15 = take_bit 4 v" "v AND 3 = take_bit 2 v" for v :: u32
  by (simp_all add: take_bit_eq_mask mask_eq_exp_minus_1)

text \<open>One character of the code at a time.\<close>

lemma decode_char:
  "decode_loop (enc_char v # src) j n x =
    (let x' = push_bit 6 x OR (v AND 0x3F) in
     if n + 1 = 4
     then (if j > 0 then [ucast (drop_bit 16 x')] else []) @ (if j > 1 then [ucast (drop_bit 8 x')] else [])
            @ (if j > 2 then [ucast x'] else []) @ decode_loop src j 0 x'
     else decode_loop src j (n + 1) x')"
proof -
  have c: "(ucast (ucast (v AND 0x3F) :: u8) AND 0x3F :: u32) = v AND 0x3F"
    unfolding low_bits by (rule bit_word_eqI) (auto simp: bit_simps)
  have "\<not> bit (ucast (take_bit 6 v) :: u8) 6" by (simp add: bit_simps)
  moreover have "bit (64 :: u8) 6" by (simp add: bit_simps)
  ultimately have "(ucast (v AND 0x3F) :: u8) \<noteq> 64" unfolding low_bits by metis
  then show ?thesis using enc_char_facts [of v] c by (simp add: Let_def)
qed

lemma decode_pad: "decode_loop (61 # src) j n x =
    (let j' = j - 1; x' = push_bit 6 x in
     if n + 1 = 4
     then (if j' > 0 then [ucast (drop_bit 16 x')] else []) @ (if j' > 1 then [ucast (drop_bit 8 x')] else [])
            @ (if j' > 2 then [ucast x'] else []) @ decode_loop src j' 0 x'
     else decode_loop src j' (n + 1) x')"
proof -
  have "dec_val 61 = 64" by (rule dec_61)
  then show ?thesis by (simp add: Let_def)
qed

lemma bit_u8: "8 \<le> n \<Longrightarrow> \<not> bit (w :: u8) n"
  using bit_imp_le_length [of w n] by auto

definition quad :: "u32 \<Rightarrow> u32 \<Rightarrow> u32 \<Rightarrow> u32 \<Rightarrow> u32 \<Rightarrow> u32" where
  "quad x s1 s2 s3 s4 = push_bit 6 (push_bit 6 (push_bit 6 (push_bit 6 x OR (s1 AND 0x3F)) OR (s2 AND 0x3F)) OR (s3 AND 0x3F))
     OR (s4 AND 0x3F)"

lemma decode_mid:
  "decode_loop (enc_char v # src) j 0 x = decode_loop src j 1 (push_bit 6 x OR (v AND 0x3F))"
  "decode_loop (enc_char v # src) j 1 x = decode_loop src j 2 (push_bit 6 x OR (v AND 0x3F))"
  "decode_loop (enc_char v # src) j 2 x = decode_loop src j 3 (push_bit 6 x OR (v AND 0x3F))"
  by (subst decode_char, simp add: Let_def numeral_2_eq_2 numeral_3_eq_3)+

lemma decode_last:
  "decode_loop (enc_char v # src) 3 3 x
    = ucast (drop_bit 16 (push_bit 6 x OR (v AND 0x3F))) # ucast (drop_bit 8 (push_bit 6 x OR (v AND 0x3F)))
      # ucast (push_bit 6 x OR (v AND 0x3F)) # decode_loop src 3 0 (push_bit 6 x OR (v AND 0x3F))"
  by (subst decode_char, simp add: Let_def)

lemma decode_pad_mid: "decode_loop (61 # src) 3 2 x = decode_loop src 2 3 (push_bit 6 x)"
  by (subst decode_pad, simp add: Let_def)

lemma decode_pad_last:
  "decode_loop (61 # src) 3 3 x
    = ucast (drop_bit 16 (push_bit 6 x)) # ucast (drop_bit 8 (push_bit 6 x)) # decode_loop src 2 0 (push_bit 6 x)"
  "decode_loop (61 # src) 2 3 x = ucast (drop_bit 16 (push_bit 6 x)) # decode_loop src 1 0 (push_bit 6 x)"
  by (subst decode_pad, simp add: Let_def)+

lemma decode_quad:
  "decode_loop (enc_char s1 # enc_char s2 # enc_char s3 # enc_char s4 # src) 3 0 x
    = (let y = quad x s1 s2 s3 s4
       in ucast (drop_bit 16 y) # ucast (drop_bit 8 y) # ucast y # decode_loop src 3 0 y)"
  "decode_loop [enc_char s1, enc_char s2, enc_char s3, 61] 3 0 x
    = (let y = quad x s1 s2 s3 0 in [ucast (drop_bit 16 y), ucast (drop_bit 8 y)])"
  "decode_loop [enc_char s1, enc_char s2, 61, 61] 3 0 x
    = (let y = quad x s1 s2 0 0 in [ucast (drop_bit 16 y)])"
  unfolding quad_def Let_def
  by (simp_all only: decode_mid decode_last decode_pad_mid decode_pad_last decode_loop.simps(1) and_zero_eq zero_and_eq or.right_neutral)

lemma four_chars:
  fixes x :: u32 and ba bb bc :: u8
  defines "C1 \<equiv> ucast ba :: u32" and "C2 \<equiv> ucast bb :: u32" and "C3 \<equiv> ucast bc :: u32"
  defines "y \<equiv> quad x (drop_bit 2 C1) (push_bit 4 (C1 AND 3) + drop_bit 4 C2) (push_bit 2 (C2 AND 15) + drop_bit 6 C3) C3"
  shows "ucast (drop_bit 16 y) = ba" "ucast (drop_bit 8 y) = bb" "ucast y = bc"
proof -
  have a1: "push_bit 4 (C1 AND 3) + drop_bit 4 C2 = push_bit 4 (C1 AND 3) OR drop_bit 4 C2"
    unfolding low_bits by (rule disjunctive_add) (auto simp: C2_def bit_simps dest: bit_imp_le_length)
  have a2: "push_bit 2 (C2 AND 15) + drop_bit 6 C3 = push_bit 2 (C2 AND 15) OR drop_bit 6 C3"
    unfolding low_bits by (rule disjunctive_add) (auto simp: C3_def bit_simps dest: bit_imp_le_length)
  have n8: "n < 8 \<Longrightarrow> n = 0 \<or> n = 1 \<or> n = 2 \<or> n = 3 \<or> n = 4 \<or> n = 5 \<or> n = 6 \<or> n = 7" for n :: nat by arith
  show "ucast (drop_bit 16 y) = ba"
    unfolding y_def quad_def low_bits a1 [unfolded low_bits] a2 [unfolded low_bits]
    by (rule bit_word_eqI, simp, drule n8, elim disjE) (simp_all add: C1_def C2_def C3_def bit_simps bit_u8)
  show "ucast (drop_bit 8 y) = bb"
    unfolding y_def quad_def low_bits a1 [unfolded low_bits] a2 [unfolded low_bits]
    by (rule bit_word_eqI, simp, drule n8, elim disjE) (simp_all add: C1_def C2_def C3_def bit_simps bit_u8)
  show "ucast y = bc"
    unfolding y_def quad_def low_bits a1 [unfolded low_bits] a2 [unfolded low_bits]
    by (rule bit_word_eqI, simp, drule n8, elim disjE) (simp_all add: C1_def C2_def C3_def bit_simps bit_u8)
qed

lemma decode_encode_loop: "decode_loop (encode_loop bs) 3 0 x = bs"
proof (induction bs arbitrary: x rule: encode_loop.induct)
  case (1 b1 b2 b3 src)
  show ?case unfolding encode_loop.simps Let_def decode_quad(1) four_chars by (simp only: 1)
next
  case (2 b1 b2)
  show ?case using four_chars(1,2) [of x b1 b2 0] unfolding encode_loop.simps Let_def decode_quad(2) by simp
next
  case (3 b1)
  show ?case using four_chars(1) [of x b1 0 0] unfolding encode_loop.simps Let_def decode_quad(3) by simp
qed simp

lemma length_encode_loop: "length (encode_loop bs) = 4 * ((length bs + 2) div 3)"
proof (induction bs rule: encode_loop.induct)
  case (1 b1 b2 b3 src)
  have "length (encode_loop (b1 # b2 # b3 # src)) = length (encode_loop src) + 4"
    unfolding encode_loop.simps Let_def list.size by simp
  also have "\<dots> = 4 * ((length src + 2) div 3) + 4" using 1 [OF refl refl refl] by (simp only:)
  also have "\<dots> = 4 * ((length src + 2 + 3) div 3)" by (subst div_add_self2) simp_all
  also have "length src + 2 + 3 = length (b1 # b2 # b3 # src) + 2" by simp
  finally show ?case .
next
  case (2 b1 b2)
  show ?case unfolding encode_loop.simps Let_def list.size by simp
next
  case (3 b1)
  show ?case unfolding encode_loop.simps Let_def list.size by simp
qed simp

section \<open>The first pass\<close>

lemma check_char: "check_pass (enc_char v # src) n 0 = check_pass src (n + 1) 0"
proof -
  have "uint (ucast (take_bit 6 v) :: u8) = take_bit 6 (uint v)"
    by (simp add: unsigned_ucast_eq unsigned_take_bit_eq min_def)
  then have "(ucast (take_bit 6 v) :: u8) < 64"
    using take_bit_int_less_exp [of 6 "uint v"] by (simp add: word_less_def)
  then show ?thesis
    using enc_char_facts [of v] unfolding low_bits by (subst check_pass.simps) (auto simp: Let_def)
qed

lemma check_pad: "j < 2 \<Longrightarrow> check_pass (61 # src) n j = check_pass src (n + 1) (j + 1)"
proof -
  have "dec_val 61 = 64" by (rule dec_61)
  then show "j < 2 \<Longrightarrow> check_pass (61 # src) n j = check_pass src (n + 1) (j + 1)"
    by (subst check_pass.simps) (simp add: Let_def)
qed

definition pads :: "nat \<Rightarrow> nat" where
  "pads n = (if n mod 3 = 0 then 0 else 3 - n mod 3)"

lemma check_encode: "check_pass (encode_loop bs) n 0 = Some (n + length (encode_loop bs), pads (length bs))"
proof (induction bs arbitrary: n rule: encode_loop.induct)
  case (1 b1 b2 b3 src)
  have "pads (length (b1 # b2 # b3 # src)) = pads (length src)" by (simp add: pads_def)
  moreover have "check_pass (encode_loop (b1 # b2 # b3 # src)) n 0 = check_pass (encode_loop src) (n + 1 + 1 + 1 + 1) 0"
    unfolding encode_loop.simps Let_def check_char ..
  moreover have "length (encode_loop (b1 # b2 # b3 # src)) = 4 + length (encode_loop src)"
    unfolding encode_loop.simps Let_def by simp
  ultimately show ?case using 1 [of "ucast b1" "ucast b2" "ucast b3" "n + 1 + 1 + 1 + 1"]
    by (simp del: encode_loop.simps)
next
  case (2 b1 b2)
  show ?case unfolding encode_loop.simps Let_def check_char
    by (simp add: check_pad check_pass.simps [of "[]"] pads_def)
next
  case (3 b1)
  show ?case unfolding encode_loop.simps Let_def check_char
    by (simp add: check_pad check_pass.simps [of "[]"] pads_def)
next
  case 4
  show ?case by (simp add: check_pass.simps [of "[]"] pads_def)
qed

section \<open>The shape of what the first pass accepts\<close>

text \<open>Without the white space: characters of the alphabet, then at most two padding characters.\<close>

definition white :: "u8 \<Rightarrow> bool" where
  "white c \<longleftrightarrow> c = 13 \<or> c = 10 \<or> c = 32"

definition codes :: "u8 list" where
  "codes = [127, 127, 127, 127, 127, 127, 127, 127, 127, 127, 127, 127, 127, 127, 127, 127, 127,
    127, 127, 127, 127, 127, 127, 127, 127, 127, 127, 127, 127, 127, 127, 127, 127, 127,
    127, 127, 127, 127, 127, 127, 127, 127, 127, 62, 127, 127, 127, 63, 52, 53, 54, 55,
    56, 57, 58, 59, 60, 61, 127, 127, 127, 64, 127, 127, 127, 0, 1, 2, 3, 4, 5, 6, 7,
    8, 9, 10, 11, 12, 13, 14, 15, 16, 17, 18, 19, 20, 21, 22, 23, 24, 25, 127, 127, 127,
    127, 127, 127, 26, 27, 28, 29, 30, 31, 32, 33, 34, 35, 36, 37, 38, 39, 40, 41, 42,
    43, 44, 45, 46, 47, 48, 49, 50, 51, 127, 127, 127, 127, 127]"

lemma upt_128: "[0..<128] = [0, 1, 2, 3, 4, 5, 6, 7, 8, 9, 10, 11, 12, 13, 14, 15, 16, 17, 18, 19, 20, 21, 22,
    23, 24, 25, 26, 27, 28, 29, 30, 31, 32, 33, 34, 35, 36, 37, 38, 39, 40, 41, 42, 43,
    44, 45, 46, 47, 48, 49, 50, 51, 52, 53, 54, 55, 56, 57, 58, 59, 60, 61, 62, 63, 64,
    65, 66, 67, 68, 69, 70, 71, 72, 73, 74, 75, 76, 77, 78, 79, 80, 81, 82, 83, 84, 85,
    86, 87, 88, 89, 90, 91, 92, 93, 94, 95, 96, 97, 98, 99, 100, 101, 102, 103, 104,
    105, 106, 107, 108, 109, 110, 111, 112, 113, 114, 115, 116, 117, 118, 119, 120, 121,
    122, 123, 124, 125, 126, 127]"
  by code_simp

lemma codes_table: "map (\<lambda>k. ESP_IBUS_GET_U8_DATA k s_base64_dec_lut) [0..<128] = codes"
  unfolding upt_128 by (simp add: get_u8_nat s_base64_dec_lut_def codes_def)

lemma codes_61: "filter (\<lambda>k. \<not> (codes ! k < 64 \<or> codes ! k = 127)) [0..<128] = [61]"
  unfolding upt_128 by (simp add: codes_def)

lemma dec_cases: "c \<le> 127 \<Longrightarrow> dec_val c < 64 \<or> dec_val c = 127 \<or> c = 61"
proof -
  assume "c \<le> 127"
  then have k: "unat c < 128" by (simp add: word_le_nat_alt)
  then have e: "dec_val c = codes ! unat c"
    using arg_cong [OF codes_table, of "\<lambda>xs. xs ! unat c"] by (simp add: dec_val_def)
  show ?thesis
  proof (rule ccontr)
    assume n: "\<not> (dec_val c < 64 \<or> dec_val c = 127 \<or> c = 61)"
    then have "unat c \<in> set (filter (\<lambda>k. \<not> (codes ! k < 64 \<or> codes ! k = 127)) [0..<128])" using k e by simp
    then have "unat c = 61" unfolding codes_61 by simp
    then have "c = 61" by (metis of_nat_numeral of_nat_unat ucast_id)
    then show False using n by simp
  qed
qed

lemma dec_13: "dec_val 13 = 127"
  by (simp add: dec_val_def get_u8_nat s_base64_dec_lut_def)

lemma filter_dropWhile: "(\<And>c. P c \<Longrightarrow> \<not> Q c) \<Longrightarrow> filter Q (dropWhile P xs) = filter Q xs"
  by (induction xs) auto

lemma check_shape:
  "check_pass src n j = Some (n', j') \<Longrightarrow> j \<le> 2 \<Longrightarrow>
    \<exists>gs. filter (\<lambda>c. \<not> white c) src = gs @ replicate (j' - j) 61 \<and> (\<forall>c \<in> set gs. dec_val c < 64)
      \<and> (j > 0 \<longrightarrow> gs = []) \<and> n' = n + length gs + (j' - j) \<and> j \<le> j' \<and> j' \<le> 2"
proof (induction src n j rule: check_pass.induct)
  case (1 src n j)
  have fil: "filter (\<lambda>c. \<not> white c) src = filter (\<lambda>c. \<not> white c) (dropWhile (\<lambda>c. c = 32) src)"
    by (rule filter_dropWhile [symmetric]) (simp add: white_def)
  show ?case
  proof (cases "dropWhile (\<lambda>c. c = 32) src")
    case Nil
    have "filter (\<lambda>c. \<not> white c) src = []" unfolding fil Nil by simp
    moreover have "n' = n" "j' = j" using 1(4) unfolding check_pass.simps [of src] Nil by simp_all
    ultimately show ?thesis using 1(5) by (intro exI [of _ "[]"]) simp
  next
    case (Cons c rest)
    consider (crlf) "length (c # rest) \<ge> 2" "c = 13" "rest ! 0 = 10" | (lf) "c = 10" "\<not> (length (c # rest) \<ge> 2 \<and> c = 13 \<and> rest ! 0 = 10)"
      | (char) "c \<noteq> 10" "\<not> (length (c # rest) \<ge> 2 \<and> c = 13 \<and> rest ! 0 = 10)" by blast
    then show ?thesis
    proof cases
      case crlf
      have "check_pass rest n j = Some (n', j')" using 1(4) crlf Cons by (simp add: check_pass.simps [of src] Let_def)
      from 1(1) [OF Cons refl refl _ this 1(5)] crlf show ?thesis using fil Cons by (simp add: white_def)
    next
      case lf
      have "check_pass rest n j = Some (n', j')" using 1(4) lf Cons by (simp add: check_pass.simps [of src] Let_def)
      from 1(2) [OF Cons refl refl lf(2) lf(1) this 1(5)] lf show ?thesis using fil Cons by (simp add: white_def)
    next
      case char
      let ?j = "if c = 61 then j + 1 else j"
      have a: "check_pass rest (n + 1) ?j = Some (n', j')" and b: "takeWhile (\<lambda>c. c = 32) src = []"
        "\<not> (c = 61 \<and> ?j > 2)" "\<not> (c > 127 \<or> dec_val c = 127)" "\<not> (dec_val c < 64 \<and> ?j \<noteq> 0)"
        using 1(4) char Cons by (auto simp: check_pass.simps [of src] Let_def split: if_splits)
      have c32: "c \<noteq> 32" using Cons hd_dropWhile [of "\<lambda>c. c = 32" src] by auto
      have nw: "\<not> white c" using b(3) c32 char(1) dec_13 by (auto simp: white_def)
      have "?j \<le> 2" using b(2) 1(5) by auto
      from 1(3) [OF Cons refl refl char(2,1) _ b(2,3,4) a this] b(1)
      obtain gs where gs: "filter (\<lambda>c. \<not> white c) rest = gs @ replicate (j' - ?j) 61" "\<forall>c \<in> set gs. dec_val c < 64"
          "?j > 0 \<longrightarrow> gs = []" "n' = n + 1 + length gs + (j' - ?j)" "?j \<le> j'" "j' \<le> 2" by auto
      show ?thesis
      proof (cases "c = 61")
        case True
        then have "j' - j = Suc (j' - (j + 1))" "gs = []" using gs(3,5) by auto
        then show ?thesis using fil Cons gs nw True by (intro exI [of _ "[]"]) simp
      next
        case False
        then have "dec_val c < 64" "j = 0" using dec_cases [of c] b(3,4) by (auto simp: not_less)
        then show ?thesis using fil Cons gs nw False by (intro exI [of _ "c # gs"]) simp
      qed
    qed
  qed
qed

section \<open>What the second pass writes\<close>

lemma decode_filter: "decode_loop src j n x = decode_loop (filter (\<lambda>c. \<not> white c) src) j n x"
  by (induction src j n x rule: decode_loop.induct) (auto simp: white_def Let_def)

lemma dec_white: "white c \<Longrightarrow> dec_val c = 127"
  by (auto simp: white_def dec_val_def get_u8_nat s_base64_dec_lut_def)

lemma decode_good:
  "\<forall>c \<in> set gs. dec_val c < 64 \<Longrightarrow> n < 4 \<Longrightarrow>
    \<exists>out y. decode_loop (gs @ ps) 3 n x = out @ decode_loop ps 3 ((n + length gs) mod 4) y
      \<and> length out = 3 * ((n + length gs) div 4)"
proof (induction gs arbitrary: n x)
  case (Cons c gs)
  have c: "dec_val c \<noteq> 64" "\<not> white c" using Cons.prems(1) dec_white [of c] by (auto simp: word_less_nat_alt)
  let ?x = "push_bit 6 x OR (ucast (dec_val c) AND 0x3F)"
  show ?case
  proof (cases "n = 3")
    case True
    obtain out y where "decode_loop (gs @ ps) 3 0 ?x = out @ decode_loop ps 3 (length gs mod 4) y"
        "length out = 3 * (length gs div 4)" using Cons.IH [of 0 ?x] Cons.prems by auto
    moreover have e: "n + length (c # gs) = length gs + 4" using True by simp
    have "(length gs + 4) div 4 = length gs div 4 + 1" "(length gs + 4) mod 4 = length gs mod 4" by simp_all
    moreover have "decode_loop ((c # gs) @ ps) 3 n x
        = [ucast (drop_bit 16 ?x), ucast (drop_bit 8 ?x), ucast ?x] @ decode_loop (gs @ ps) 3 0 ?x"
      using c True by (simp add: white_def Let_def)
    ultimately show ?thesis unfolding e
      by (intro exI [of _ "[ucast (drop_bit 16 ?x), ucast (drop_bit 8 ?x), ucast ?x] @ out"] exI [of _ y]) simp
  next
    case False
    obtain out y where "decode_loop (gs @ ps) 3 (n + 1) ?x = out @ decode_loop ps 3 ((n + 1 + length gs) mod 4) y"
        "length out = 3 * ((n + 1 + length gs) div 4)" using Cons.IH [of "n + 1" ?x] Cons.prems False by auto
    then show ?thesis using c False
      by (intro exI [of _ out] exI [of _ y]) (simp add: white_def Let_def)
  qed
qed (auto intro: exI [of _ "[]"])

text \<open>The padding characters finish at most one more group.\<close>

lemma pad_out:
  "length (decode_loop [] 3 n x) = 0"
  "length (decode_loop [61] 3 n x) = (if n = 3 then 2 else 0)"
  "length (decode_loop [61, 61] 3 n x) = (if n = 3 then 2 else if n = 2 then 1 else 0)"
  by (simp_all add: dec_61 Let_def)

definition room_for :: "nat \<Rightarrow> nat \<Rightarrow> nat" where
  "room_for n j = (6 * (n div 8) + (6 * (n mod 8) + 7) div 8) - j"

lemma room_for_bound:
  assumes "j \<le> 2"
  shows "3 * (g div 4) + (if j = 1 \<and> g mod 4 = 3 then 2 else if j = 2 \<and> g mod 4 = 3 then 2 else if j = 2 \<and> g mod 4 = 2 then 1 else 0)
    \<le> room_for (g + j) j"
proof -
  obtain q r where g: "g = 8 * q + r" "r < 8" by (metis mod_less_divisor mult_div_mod_eq zero_less_numeral)
  have "j = 0 \<or> j = 1 \<or> j = 2" "r = 0 \<or> r = 1 \<or> r = 2 \<or> r = 3 \<or> r = 4 \<or> r = 5 \<or> r = 6 \<or> r = 7"
    using assms g(2) by auto
  moreover have "(8 * q + k) div 4 = 2 * q + k div 4" "(8 * q + k) mod 4 = k mod 4"
    "(8 * q + k) div 8 = q + k div 8" "(8 * q + k) mod 8 = k mod 8" for k by presburger+
  note m = this
  ultimately show ?thesis unfolding room_for_def g(1) add.assoc m by (elim disjE) simp_all
qed

lemma decode_length:
  assumes "check_pass src 0 0 = Some (n, j)"
  shows "length (decode_loop src 3 0 0) \<le> room_for n j"
proof -
  obtain gs where gs: "filter (\<lambda>c. \<not> white c) src = gs @ replicate j 61" "\<forall>c \<in> set gs. dec_val c < 64"
      "n = length gs + j" "j \<le> 2" using check_shape [OF assms] by auto
  obtain out y where o: "decode_loop (gs @ replicate j 61) 3 0 0 = out @ decode_loop (replicate j 61) 3 (length gs mod 4) y"
      "length out = 3 * (length gs div 4)" using decode_good [OF gs(2), of 0 "replicate j 61" 0] by auto
  have "j = 0 \<or> j = 1 \<or> j = 2" using gs(4) by auto
  then have "length (decode_loop (replicate j 61) 3 (length gs mod 4) y)
      = (if j = 1 \<and> length gs mod 4 = 3 then 2 else if j = 2 \<and> length gs mod 4 = 3 then 2 else if j = 2 \<and> length gs mod 4 = 2 then 1 else 0)"
    by (elim disjE) (simp_all only: pad_out replicate_0 replicate_Suc One_nat_def numeral_2_eq_2 if_True if_False simp_thms, simp_all)
  then show ?thesis using room_for_bound [OF gs(4), of "length gs"] o gs(1,3)
    by (subst decode_filter) simp
qed

section \<open>The codec\<close>

lemma room_for_exact: "n = 4 * ((k + 2) div 3) \<Longrightarrow> room_for n (pads k) = k"
proof -
  assume n: "n = 4 * ((k + 2) div 3)"
  obtain q r where k: "k = 6 * q + r" "r < 6" by (metis mod_less_divisor mult_div_mod_eq zero_less_numeral)
  have "r = 0 \<or> r = 1 \<or> r = 2 \<or> r = 3 \<or> r = 4 \<or> r = 5" using k(2) by auto
  moreover have "(6 * q + i) div 3 = 2 * q + i div 3" "(6 * q + i) mod 3 = i mod 3" for i by presburger+
  note m = this
  have "(4 * (2 * q + i)) div 8 = q + i div 2" "(4 * (2 * q + i)) mod 8 = 4 * (i mod 2)" for i by presburger+
  note m = m this
  ultimately show ?thesis unfolding n room_for_def pads_def k(1) add.assoc m by (elim disjE) simp_all
qed

text \<open>C33: Encoding and decoding are inverse: whatever bytes esp_base64_encode accepts, it stores a
  zero-terminated text of the returned length inside the destination, and esp_base64_decode of that text,
  given a destination of at least the original size, returns exactly the bytes.\<close>

theorem base64_roundtrip:
  assumes "bs \<noteq> []" "length bs \<le> 0x40000000" "esp_base64_encode bs dlen = Inr (out, k)" "length bs \<le> dlen2"
  shows "length out = k + 1 \<and> k < dlen \<and> out ! k = 0 \<and> esp_base64_decode (take k out) dlen2 = Inr bs"
proof -
  let ?e = "encode_loop bs"
  have n: "length bs div 3 + (if length bs mod 3 \<noteq> 0 then 1 else 0) = (length bs + 2) div 3" by presburger
  have o: "out = ?e @ [0]" "k = length ?e" and d: "\<not> dlen < (4 * ((length bs + 2) div 3) mod 2 ^ 32 + 1) mod 2 ^ 32"
    using assms(3) unfolding esp_base64_encode_def Let_def n by (auto simp: mult.commute split: if_splits)
  have "4 * ((length bs + 2) div 3) < 2 ^ 32 - 1" using assms(2) by simp
  then have kd: "k < dlen" using d o(2) by (simp add: length_encode_loop)
  have "length ?e > 0" using assms(1) unfolding length_encode_loop by (cases bs) simp_all
  moreover have "room_for (length ?e) (pads (length bs)) = length bs"
    by (rule room_for_exact) (rule length_encode_loop)
  ultimately have "esp_base64_decode ?e dlen2 = Inr bs"
    using check_encode [of bs 0] assms(4) by (simp add: esp_base64_decode_def room_for_def decode_encode_loop)
  then show ?thesis using o kd by (simp add: nth_append)
qed

theorem base64_roundtrip_witness:
  "esp_base64_encode [0xFF, 0x00] 5 = Inr (encode_loop [0xFF, 0x00] @ [0], 4)
    \<and> esp_base64_decode (take 4 (encode_loop [0xFF, 0x00] @ [0])) 2 = Inr [0xFF, 0x00]"
proof -
  have e: "esp_base64_encode [0xFF, 0x00] 5 = Inr (encode_loop [0xFF, 0x00] @ [0], 4)"
    by (simp add: esp_base64_encode_def Let_def)
  from base64_roundtrip [OF _ _ e, of 2] e show ?thesis by simp
qed

text \<open>esp_base64_decode never stores more bytes than the destination holds, whatever the text is: white
  space anywhere, one or two padding characters, incomplete groups.\<close>

theorem base64_decode_in_buffer:
  assumes "esp_base64_decode src dlen = Inr out"
  shows "length out \<le> dlen"
  using assms decode_length [of src]
  by (auto simp: esp_base64_decode_def room_for_def split: option.splits if_splits)

theorem base64_decode_in_buffer_witness: "length [0xFF, 0x00 :: u8] \<le> (2::nat)"
proof -
  have "esp_base64_decode (encode_loop [0xFF, 0x00]) 2 = Inr [0xFF, 0x00]"
    using check_encode [of "[0xFF, 0x00]" 0] decode_encode_loop [of "[0xFF, 0x00]" 0]
    by (simp add: esp_base64_decode_def pads_def Let_def)
  then show ?thesis by (rule base64_decode_in_buffer)
qed

end
