(* ===== verification/LogLevels.thy ===== *)
theory LogLevels
  imports Prelude
begin

text \<open>
  The log levels per tag, \<open>components/log/log.c\<close> with \<open>CONFIG_LOG_SET_LEVEL\<close>.  The entries live in the
  heap: \<open>ent_tag\<close> and \<open>ent_level\<close> are the contents of their memory, \<open>s_log_uncached_tags\<close> the addresses in
  the order of the list, \<open>live\<close> the addresses allocated.  Freeing an entry leaves its contents in place,
  as the heap allocator does (it writes only block headers).  \<open>mal\<close> is \<open>malloc\<close>: it gets the addresses in
  use and a size.  The recursive lock makes every operation atomic.
\<close>

section \<open>State and operations\<close>

record log_state =
  s_global_tag_level :: nat
  s_log_uncached_tags :: "nat list"
  s_uncached_tag_entry_prev :: "nat option"
  ent_tag :: "nat \<Rightarrow> string"
  ent_level :: "nat \<Rightarrow> nat"
  live :: "nat set"

definition ESP_LOG_VERBOSE :: nat where "ESP_LOG_VERBOSE = 5"

definition log_init :: log_state where
  "log_init = \<lparr>s_global_tag_level = ESP_LOG_VERBOSE, s_log_uncached_tags = [], s_uncached_tag_entry_prev = None,
     ent_tag = (\<lambda>_. []), ent_level = (\<lambda>_. 0), live = {}\<rparr>"

definition GLOBAL_TAG :: string where "GLOBAL_TAG = ''*''"

definition esp_log_get_tag_entry :: "string \<Rightarrow> log_state \<Rightarrow> nat option" where
  "esp_log_get_tag_entry tag s = find (\<lambda>it. ent_tag s it = tag) (s_log_uncached_tags s)"

text \<open>The loop removes and frees the entry it stands on and then reads the link of the freed entry.\<close>

primrec clear_loop :: "nat list \<Rightarrow> log_state \<Rightarrow> log_state" where
  "clear_loop [] s = s"
| "clear_loop (it # rest) s =
    clear_loop rest (s\<lparr>s_log_uncached_tags := remove1 it (s_log_uncached_tags s), live := live s - {it}\<rparr>)"

definition clear_log_level_list :: "log_state \<Rightarrow> log_state" where
  "clear_log_level_list s = clear_loop (s_log_uncached_tags s) s"

definition esp_log_get_level :: "string \<Rightarrow> log_state \<Rightarrow> nat \<times> log_state" where
  "esp_log_get_level tag s =
    (case s_uncached_tag_entry_prev s of
       Some p \<Rightarrow> if ent_tag s p = tag then (ent_level s p, s)
         else (case esp_log_get_tag_entry tag s of
             Some e \<Rightarrow> (ent_level s e, s\<lparr>s_uncached_tag_entry_prev := Some e\<rparr>)
           | None \<Rightarrow> (s_global_tag_level s, s))
     | None \<Rightarrow> (case esp_log_get_tag_entry tag s of
             Some e \<Rightarrow> (ent_level s e, s\<lparr>s_uncached_tag_entry_prev := Some e\<rparr>)
           | None \<Rightarrow> (s_global_tag_level s, s)))"

definition should_output :: "nat \<Rightarrow> nat \<Rightarrow> bool" where
  "should_output user_level system_level \<longleftrightarrow> user_level \<le> system_level"

text \<open>An entry is a link, a level byte and the tag with its zero; the level is stored in a byte.\<close>

definition esp_log_level_set :: "(nat set \<Rightarrow> nat \<Rightarrow> nat option) \<Rightarrow> string \<Rightarrow> nat \<Rightarrow> log_state \<Rightarrow> log_state" where
  "esp_log_level_set mal tag level s =
    (if tag = GLOBAL_TAG then clear_log_level_list (s\<lparr>s_global_tag_level := level\<rparr>)
     else case esp_log_get_tag_entry tag s of
       Some e \<Rightarrow> s\<lparr>ent_level := (ent_level s)(e := level mod 256)\<rparr>
     | None \<Rightarrow>
         (case mal (live s) (8 + (length tag + 1)) of
            None \<Rightarrow> s
          | Some a \<Rightarrow> s\<lparr>ent_level := (ent_level s)(a := level mod 256), ent_tag := (ent_tag s)(a := tag),
              s_log_uncached_tags := a # s_log_uncached_tags s, live := insert a (live s)\<rparr>))"

text \<open>Whether \<open>esp_log_write\<close> prints a message of a level under a tag.\<close>

definition esp_log_write_outputs :: "nat \<Rightarrow> string \<Rightarrow> log_state \<Rightarrow> bool \<times> log_state" where
  "esp_log_write_outputs level tag s =
    (case esp_log_get_level tag s of (l, s') \<Rightarrow> (should_output level l, s'))"

section \<open>Sequences of calls\<close>

datatype log_op = SetLevel string nat | Message nat string

definition log_step :: "(nat set \<Rightarrow> nat \<Rightarrow> nat option) \<Rightarrow> log_op \<Rightarrow> log_state \<Rightarrow> log_state" where
  "log_step mal op s =
    (case op of SetLevel tag level \<Rightarrow> esp_log_level_set mal tag level s
     | Message level tag \<Rightarrow> snd (esp_log_write_outputs level tag s))"

definition log_run :: "(nat set \<Rightarrow> nat \<Rightarrow> nat option) \<Rightarrow> log_op list \<Rightarrow> log_state \<Rightarrow> log_state" where
  "log_run mal ops s = fold (log_step mal) ops s"

text \<open>The levels as a map with a default, when the allocations succeed; setting the level of \<open>*\<close> sets the
  default and forgets the levels of all tags.\<close>

fun spec_step :: "log_op \<Rightarrow> nat \<times> (string \<rightharpoonup> nat) \<Rightarrow> nat \<times> (string \<rightharpoonup> nat)" where
  "spec_step (SetLevel tag level) (g, m) = (if tag = GLOBAL_TAG then (level, Map.empty) else (g, m(tag \<mapsto> level)))"
| "spec_step (Message level tag) (g, m) = (g, m)"

fun level_of :: "nat \<times> (string \<rightharpoonup> nat) \<Rightarrow> string \<Rightarrow> nat" where
  "level_of (g, m) tag = (case m tag of Some l \<Rightarrow> l | None \<Rightarrow> g)"

definition malloc_ok :: "(nat set \<Rightarrow> nat \<Rightarrow> nat option) \<Rightarrow> bool" where
  "malloc_ok mal \<longleftrightarrow> (\<forall>L n. finite L \<longrightarrow> (\<exists>a. mal L n = Some a \<and> a \<notin> L))"

text \<open>The invariant: the entries of the list are live, their tags are distinct, they hold the levels of the
  map, and the cached entry is one of them.\<close>

definition log_ok :: "nat \<Rightarrow> (string \<rightharpoonup> nat) \<Rightarrow> log_state \<Rightarrow> bool" where
  "log_ok g m s \<longleftrightarrow> finite (live s) \<and> set (s_log_uncached_tags s) \<subseteq> live s
     \<and> distinct (map (ent_tag s) (s_log_uncached_tags s))
     \<and> ent_tag s ` set (s_log_uncached_tags s) = dom m
     \<and> (\<forall>e \<in> set (s_log_uncached_tags s). m (ent_tag s e) = Some (ent_level s e))
     \<and> (\<forall>p. s_uncached_tag_entry_prev s = Some p \<longrightarrow> p \<in> set (s_log_uncached_tags s))
     \<and> s_global_tag_level s = g"

lemma find_entry:
  assumes "log_ok g m s"
  shows "case esp_log_get_tag_entry tag s of
      Some e \<Rightarrow> e \<in> set (s_log_uncached_tags s) \<and> ent_tag s e = tag \<and> m tag = Some (ent_level s e)
    | None \<Rightarrow> m tag = None"
proof (cases "esp_log_get_tag_entry tag s")
  case None
  then have "tag \<notin> ent_tag s ` set (s_log_uncached_tags s)"
    by (auto simp: esp_log_get_tag_entry_def find_None_iff)
  then show ?thesis using assms None by (auto simp: log_ok_def)
next
  case (Some e)
  then have "e \<in> set (s_log_uncached_tags s)" "ent_tag s e = tag"
    by (auto simp: esp_log_get_tag_entry_def find_Some_iff)
  then show ?thesis using assms Some by (auto simp: log_ok_def)
qed

lemma get_level_ok:
  assumes "log_ok g m s"
  shows "fst (esp_log_get_level tag s) = level_of (g, m) tag" "log_ok g m (snd (esp_log_get_level tag s))"
proof -
  have c: "m (ent_tag s p) = Some (ent_level s p)" if "s_uncached_tag_entry_prev s = Some p" for p
    using assms that by (simp add: log_ok_def)
  then show "fst (esp_log_get_level tag s) = level_of (g, m) tag"
    using find_entry [OF assms, of tag] assms
    by (auto simp: esp_log_get_level_def log_ok_def split: option.splits dest: c)
  show "log_ok g m (snd (esp_log_get_level tag s))"
    using assms find_entry [OF assms, of tag]
    by (auto simp: esp_log_get_level_def log_ok_def split: option.splits)
qed

lemma set_level_ok:
  assumes "log_ok g m s" "malloc_ok mal" "tag \<noteq> GLOBAL_TAG" "level < 256"
  shows "log_ok g (m(tag \<mapsto> level)) (esp_log_level_set mal tag level s)
    \<and> s_uncached_tag_entry_prev (esp_log_level_set mal tag level s) = s_uncached_tag_entry_prev s"
proof (cases "esp_log_get_tag_entry tag s")
  case (Some e)
  then have e: "e \<in> set (s_log_uncached_tags s)" "ent_tag s e = tag" "m tag = Some (ent_level s e)"
    using find_entry [OF assms(1), of tag] by auto
  have "inj_on (ent_tag s) (set (s_log_uncached_tags s))" using assms(1) by (simp add: log_ok_def distinct_map)
  then have u: "x \<in> set (s_log_uncached_tags s) \<Longrightarrow> ent_tag s x = tag \<longleftrightarrow> x = e" for x
    using e by (auto simp: inj_on_def)
  have "esp_log_level_set mal tag level s = s\<lparr>ent_level := (ent_level s)(e := level)\<rparr>"
    using assms(3,4) Some by (simp add: esp_log_level_set_def)
  moreover have "dom (m(tag \<mapsto> level)) = dom m" using e(3) by auto
  ultimately show ?thesis using assms(1) u unfolding log_ok_def by simp
next
  case None
  then have n: "m tag = None" using find_entry [OF assms(1), of tag] by simp
  obtain a where a: "mal (live s) (8 + (length tag + 1)) = Some a" "a \<notin> live s"
    using assms(1,2) unfolding malloc_ok_def log_ok_def by metis
  let ?l = "s_log_uncached_tags s" and ?t = "(ent_tag s)(a := tag)"
  have na: "a \<notin> set ?l" using a(2) assms(1) by (auto simp: log_ok_def)
  then have mp: "map ?t ?l = map (ent_tag s) ?l" "?t ` set ?l = ent_tag s ` set ?l" by auto
  have nt: "tag \<notin> ent_tag s ` set ?l" using assms(1) n by (auto simp: log_ok_def)
  have r: "esp_log_level_set mal tag level s = s\<lparr>ent_level := (ent_level s)(a := level), ent_tag := ?t,
      s_log_uncached_tags := a # ?l, live := insert a (live s)\<rparr>"
    using assms(3,4) None a by (simp add: esp_log_level_set_def)
  have "(m(tag \<mapsto> level)) (?t x) = Some (((ent_level s)(a := level)) x)" if "x \<in> set (a # ?l)" for x
    using that na nt assms(1) by (auto simp: log_ok_def)
  moreover have "distinct (map ?t (a # ?l))"
    using nt assms(1) unfolding list.map mp(1) log_ok_def by simp
  moreover have "?t ` set (a # ?l) = dom (m(tag \<mapsto> level))"
    using assms(1) unfolding list.set image_insert mp(2) log_ok_def by simp
  ultimately show ?thesis using assms(1) unfolding log_ok_def r by auto
qed

definition tag_op :: "log_op \<Rightarrow> bool" where
  "tag_op op = (case op of SetLevel tag level \<Rightarrow> tag \<noteq> GLOBAL_TAG \<and> level < 256 | Message level tag \<Rightarrow> True)"

lemma clear_loop_mem:
  "ent_tag (clear_loop its s) = ent_tag s" "ent_level (clear_loop its s) = ent_level s"
  "s_uncached_tag_entry_prev (clear_loop its s) = s_uncached_tag_entry_prev s"
  "s_global_tag_level (clear_loop its s) = s_global_tag_level s"
  by (induction its arbitrary: s) auto

lemma clear_loop_list:
  "s_log_uncached_tags s = its \<Longrightarrow> s_log_uncached_tags (clear_loop its s) = [] \<and> live (clear_loop its s) = live s - set its"
  by (induction its arbitrary: s) auto

text \<open>Clearing the list is harmless as long as no entry is cached.\<close>

lemma set_global_ok:
  assumes "log_ok g m s" "s_uncached_tag_entry_prev s = None"
  shows "log_ok level Map.empty (esp_log_level_set mal GLOBAL_TAG level s)
    \<and> s_uncached_tag_entry_prev (esp_log_level_set mal GLOBAL_TAG level s) = None"
  using assms clear_loop_list [of "s\<lparr>s_global_tag_level := level\<rparr>"]
  by (simp add: esp_log_level_set_def clear_log_level_list_def log_ok_def clear_loop_mem)

text \<open>The settings made before the first message.\<close>

definition set_op :: "log_op \<Rightarrow> bool" where
  "set_op op = (case op of SetLevel tag level \<Rightarrow> level < 256 | Message level tag \<Rightarrow> False)"

lemma settings_ok:
  "log_ok g m s \<Longrightarrow> s_uncached_tag_entry_prev s = None \<Longrightarrow> malloc_ok mal \<Longrightarrow> list_all set_op ops \<Longrightarrow>
    \<exists>g' m'. fold spec_step ops (g, m) = (g', m') \<and> log_ok g' m' (log_run mal ops s)"
proof (induction ops arbitrary: g m s)
  case (Cons op ops)
  obtain tag level where op: "op = SetLevel tag level" "level < 256" using Cons.prems(4) by (cases op) (auto simp: set_op_def)
  obtain g1 m1 where s1: "spec_step op (g, m) = (g1, m1)" by (metis surj_pair)
  have "log_ok g1 m1 (log_step mal op s) \<and> s_uncached_tag_entry_prev (log_step mal op s) = None"
  proof (cases "tag = GLOBAL_TAG")
    case True
    then show ?thesis using set_global_ok [OF Cons.prems(1,2)] s1 by (auto simp: op log_step_def)
  next
    case False
    then show ?thesis using set_level_ok [OF Cons.prems(1,3) False op(2)] s1 Cons.prems(2) by (auto simp: op log_step_def)
  qed
  then show ?case using Cons.IH [of g1 m1 "log_step mal op s"] Cons.prems(3,4) s1 by (simp add: log_run_def)
qed (simp add: log_run_def)

lemma run_ok:
  "log_ok g m s \<Longrightarrow> malloc_ok mal \<Longrightarrow> list_all tag_op ops \<Longrightarrow>
    \<exists>g' m'. fold spec_step ops (g, m) = (g', m') \<and> log_ok g' m' (log_run mal ops s)"
proof (induction ops arbitrary: g m s)
  case (Cons op ops)
  obtain g1 m1 where s1: "spec_step op (g, m) = (g1, m1)" by (metis surj_pair)
  have "log_ok g1 m1 (log_step mal op s)"
  proof (cases op)
    case (SetLevel tag level)
    then show ?thesis using set_level_ok [OF Cons.prems(1,2), of tag level] Cons.prems(3) s1
      by (auto simp: log_step_def tag_op_def)
  next
    case (Message level tag)
    then show ?thesis using get_level_ok(2) [OF Cons.prems(1), of tag] s1
      by (auto simp: log_step_def esp_log_write_outputs_def split: prod.splits)
  qed
  then show ?case using Cons.IH [of g1 m1 "log_step mal op s"] Cons.prems(2,3) s1 by (simp add: log_run_def)
qed (simp add: log_run_def)

lemma init_ok: "log_ok ESP_LOG_VERBOSE Map.empty log_init"
  by (simp add: log_ok_def log_init_def)

text \<open>C38: When memory does not run out, the levels fit in their byte and all settings of the global level, the tag \<open>*\<close>, are made before the first
  message, the tag list with its one-entry cache behaves as a map with a default: after the settings \<open>cfg\<close>, of
  any tags and of *, and any sequence of settings of other tags and messages, a message is printed exactly if its
  level is at most the level last set for its tag since the last setting of *, or the level set for * last
  (ESP_LOG_VERBOSE if never).  A later setting of * is outside of this: it leaves the cached entry behind.\<close>

theorem log_levels_as_map:
  assumes "malloc_ok mal" "list_all set_op cfg" "list_all tag_op ops"
  shows "fst (esp_log_write_outputs level tag (log_run mal (cfg @ ops) log_init))
    \<longleftrightarrow> level \<le> level_of (fold spec_step (cfg @ ops) (ESP_LOG_VERBOSE, Map.empty)) tag"
proof -
  have "s_uncached_tag_entry_prev log_init = None" by (simp add: log_init_def)
  from settings_ok [OF init_ok this assms(1,2)] obtain g m where
    c: "fold spec_step cfg (ESP_LOG_VERBOSE, Map.empty) = (g, m)" "log_ok g m (log_run mal cfg log_init)" by blast
  from run_ok [OF c(2) assms(1,3)] obtain g' m' where
    r: "fold spec_step ops (g, m) = (g', m')" "log_ok g' m' (log_run mal ops (log_run mal cfg log_init))" by blast
  have run: "log_run mal (cfg @ ops) log_init = log_run mal ops (log_run mal cfg log_init)" by (simp add: log_run_def)
  have spec: "fold spec_step (cfg @ ops) (ESP_LOG_VERBOSE, Map.empty) = (g', m')" using c(1) r(1) by simp
  show ?thesis unfolding run spec get_level_ok(1) [OF r(2), of tag, symmetric]
    by (simp add: esp_log_write_outputs_def should_output_def split: prod.splits)
qed

definition sample_malloc :: "nat set \<Rightarrow> nat \<Rightarrow> nat option" where
  "sample_malloc L n = Some (Suc (Max (insert 0 L)))"

lemma sample_malloc_ok: "malloc_ok sample_malloc"
proof -
  have "Suc (Max (insert 0 L)) \<notin> L" if "finite L" for L :: "nat set"
  proof
    assume "Suc (Max (insert 0 L)) \<in> L"
    then have "Suc (Max (insert 0 L)) \<le> Max (insert 0 L)" using that by (intro Max_ge) simp_all
    then show False by simp
  qed
  then show ?thesis by (simp add: malloc_ok_def sample_malloc_def)
qed

theorem log_levels_as_map_witness:
  "fst (esp_log_write_outputs 3 ''wifi'' (log_run sample_malloc
       ([SetLevel ''wifi'' 5, SetLevel ''*'' 2] @ [Message 1 ''wifi'', SetLevel ''ota'' 4, SetLevel ''wifi'' 3]) log_init))
   \<and> \<not> fst (esp_log_write_outputs 3 ''tcp'' (log_run sample_malloc
       ([SetLevel ''wifi'' 5, SetLevel ''*'' 2] @ [Message 1 ''wifi'', SetLevel ''ota'' 4, SetLevel ''wifi'' 3]) log_init))"
proof -
  let ?cfg = "[SetLevel ''wifi'' 5, SetLevel ''*'' 2]" and ?ops = "[Message 1 ''wifi'', SetLevel ''ota'' 4, SetLevel ''wifi'' 3]"
  have "list_all set_op ?cfg" "list_all tag_op ?ops" by (simp_all add: set_op_def tag_op_def GLOBAL_TAG_def)
  note t = log_levels_as_map [OF sample_malloc_ok this]
  have "fold spec_step (?cfg @ ?ops) (ESP_LOG_VERBOSE, Map.empty) = (2, [''ota'' \<mapsto> 4, ''wifi'' \<mapsto> 3])"
    by (simp add: GLOBAL_TAG_def)
  from t [of 3 "''wifi''", unfolded this] t [of 3 "''tcp''", unfolded this] show ?thesis by simp
qed

section \<open>The global level\<close>

text \<open>esp_log_level_set("*", level) empties the list and frees its entries, but it leaves the cached pointer
  s_uncached_tag_entry_prev: the tag looked up last is still found in the freed entry and keeps its old
  level, although every other tag gets the new one.\<close>

theorem log_global_level_stale:
  fixes mal :: "nat set \<Rightarrow> nat \<Rightarrow> nat option" and level :: nat
  assumes "s_uncached_tag_entry_prev s = Some p" "p \<in> set (s_log_uncached_tags s)" "other \<noteq> ent_tag s p"
  defines "s' \<equiv> esp_log_level_set mal ''*'' level s"
  shows "p \<notin> live s' \<and> fst (esp_log_get_level (ent_tag s p) s') = ent_level s p
    \<and> fst (esp_log_get_level other s') = level"
proof -
  have s': "s' = clear_loop (s_log_uncached_tags s) (s\<lparr>s_global_tag_level := level\<rparr>)"
    by (simp add: s'_def esp_log_level_set_def GLOBAL_TAG_def clear_log_level_list_def)
  then show ?thesis using assms(1-3) clear_loop_list [of "s\<lparr>s_global_tag_level := level\<rparr>"]
    by (simp add: esp_log_get_level_def clear_loop_mem esp_log_get_tag_entry_def)
qed

theorem log_global_level_stale_witness:
  "fst (esp_log_get_level ''wifi'' (esp_log_level_set sample_malloc ''*'' 2
     (log_run sample_malloc [SetLevel ''wifi'' 4, Message 1 ''wifi''] log_init))) = 4"
proof -
  let ?s = "log_run sample_malloc [SetLevel ''wifi'' 4, Message 1 ''wifi''] log_init"
  have s: "s_uncached_tag_entry_prev ?s = Some 1" "s_log_uncached_tags ?s = [1]" "ent_tag ?s 1 = ''wifi''" "ent_level ?s 1 = 4"
    by (simp_all add: log_run_def log_step_def esp_log_level_set_def GLOBAL_TAG_def log_init_def esp_log_get_tag_entry_def
        sample_malloc_def esp_log_write_outputs_def esp_log_get_level_def)
  from log_global_level_stale [OF s(1), of "''ota''" sample_malloc 2] s show ?thesis by simp
qed

end
