(* ===== verification/Spec2Isabelle.thy ===== *)
theory Spec2Isabelle
  imports Prelude Crc SpiFlash Partition OtaOps BootUtility BootImage Sha1 RingProps MqttSession HeapProps EventProps WsProps Base64 LogLevels
begin

text \<open>
  A verification development for the ESP8266 RTOS SDK tree in this repository: the C components
  under \<open>src/components\<close> on which an application such as those in \<open>src/Ai-examples\<close> stands.

  The program.  The applications connect a device to a broker by MQTT, keep their firmware in flash
  partitions and update it over the air.  The parts modelled here are those that this path goes through:

  \<^item> the flash: \<open>spi_flash.c\<close> and \<open>spi_flash_raw.c\<close> on top of the ROM routines (theory \<open>SpiFlash\<close>),
    partitions and the partition table, \<open>partition.c\<close> and \<open>flash_partitions.c\<close> (\<open>Partition\<close>), the
    checksums of \<open>crc.c\<close> (\<open>Crc\<close>);
  \<^item> the update: \<open>esp_ota_ops.c\<close> (\<open>OtaOps\<close>) writes images and selection records through the partition
    layer; the bootloader, \<open>bootloader_utility.c\<close>, \<open>bootloader_common.c\<close> and the mapping of
    \<open>bootloader_flash.c\<close> (\<open>BootUtility\<close>), reads the same flash and chooses what to boot; both check
    the image, \<open>esp_image_format.c\<close> (\<open>ImageFormat\<close>, \<open>ImageProps\<close>, \<open>BootImage\<close>), with the digest of
    \<open>sha256.c\<close> (\<open>Hash\<close>, \<open>Sha256\<close>);
  \<^item> the client: messages, \<open>mqtt_msg.c\<close> (\<open>MqttMsg\<close>, \<open>MqttCodec\<close>, \<open>MqttConnect\<close>), the store of
    unacknowledged messages, \<open>mqtt_outbox.c\<close> (\<open>MqttOutbox\<close>), and the client task, \<open>mqtt_client.c\<close>
    (\<open>MqttClient\<close>, \<open>MqttReceive\<close>, \<open>MqttSession\<close>), and the WebSocket framing it may go through,
    \<open>transport_ws.c\<close> (\<open>WsTransport\<close>, \<open>WsProps\<close>);
  \<^item> the services below: the heap, \<open>esp_heap_caps.c\<close> (\<open>HeapCaps\<close> to \<open>HeapProps\<close>), the ring buffer
    between tasks and interrupts, \<open>ringbuf.c\<close> (\<open>RingBuf\<close> to \<open>RingProps\<close>), the event loop,
    \<open>esp_event.c\<close> (\<open>EventLoop\<close>, \<open>EventTree\<close>, \<open>EventProps\<close>), the base64 codec,
    \<open>base64.c\<close> (\<open>Base64\<close>), the digest of \<open>sha1.c\<close> (\<open>Sha1\<close>), and the log levels, \<open>log.c\<close> (\<open>LogLevels\<close>).

  Conventions (\<open>Prelude\<close>).  A memory, a flash chip included, is a function from byte addresses to bytes;
  \<open>mget\<close> and \<open>mcpy\<close> read and write blocks of it.  Words that are shifted and masked are HOL words
  (\<open>u8\<close>, \<open>u16\<close>, \<open>u32\<close>); lengths and addresses are natural numbers with the wrap-around of
  \<open>size_t\<close> written out (\<open>mod 2 ^ 32\<close>, \<open>u32_of_int\<close>, \<open>s32_of_int\<close>) wherever the code could reach it.
  An error is a value: an \<open>esp_err\<close>, a sum type or an option.  A loop whose end is not obvious is a
  \<open>partial_function (option)\<close>, so that not returning is the value \<open>None\<close>, and the theorems prove that it
  returns; loops with an evident bound are structural.  A failed assertion, \<open>abort\<close> or division by zero is
  the outcome \<open>None\<close> as well, not a hypothesis.

  What stands for code outside the repository is an argument: the mask-ROM flash routines are the record
  \<open>flash_rom\<close> of functions on a chip state of any type.  The locale \<open>nor_chip\<close> states what a NOR flash
  promises of them, failure half way included; \<open>flash_dev\<close>, which the driver meets over any such chip, is
  the contract the partition and update layers use, and a chip with scripted faults is the instance.
  In \<open>OtaOps\<close> and \<open>BootUtility\<close> the verdict
  of \<open>esp_image_load\<close> is an argument, \<open>None\<close> when it does not return, and then its callers do not return
  either; \<open>BootImage\<close> instantiates it with the model of the code over the
  application's and the bootloader's flash reads; the transport, the clock and the allocator of the MQTT client are the functions of
  the record \<open>mqtt_env\<close> over an arbitrary state; random numbers are a list of values; the linker symbols
  of the heap are addresses; \<open>malloc\<close> in \<open>LogLevels\<close> is a function of the addresses in use.

  The component models and what is shown.

  \<^item> Flash.  Reading of any alignment returns the bytes of the chip; writing keeps everything outside the
    range, also around unaligned ends, and either programs the bits or leaves each bit old or new; erasing
    stays inside the sectors.  The cases where the code does not do this are theorems as well: 256 pages,
    an empty range, a size that wraps.
  \<^item> Partitions.  Iteration visits exactly the matching entries in table order; write (of at most 64 KiB)
    and erase (of a range that does not wrap) stay inside the partition; of a table the bootloader accepts
    the application loads the entries up to the first MD5 record.
  \<^item> Update and boot.  \<open>ota_update_boots\<close> composes four components over one flash: when
    \<open>esp_ota_set_boot_partition\<close> has accepted the image of a slot, the bootloader selects that slot,
    verifies its image again and boots it.
    \<open>ota_set_boot_keeps_old\<close> says that whatever fails during the change, the record that decided the boot
    before stays intact.  Choosing a slot returns exactly when the check of its image does: the sequence-number loop
    is shown to end.
  \<^item> Images and digests.  \<open>Hash\<close> states what the digests share: blocks, buffering, padding, and the
    locales \<open>absorber\<close> and \<open>digest\<close> with the streaming theorem; \<open>Sha256\<close> and \<open>Sha1\<close> interpret them on
    the code, and the results are the digests of FIPS 180-4, the table of constants being the cube roots
    it prescribes.  \<open>ImageProps\<close> shows that \<open>esp_image_load\<close> decides a predicate on the flash contents,
    that it detects a changed byte, and that it does not return for a segment length just below
    \<open>2^32\<close>, whose check is commented out.
  \<^item> Ring buffer.  \<open>RingBuf\<close> holds the operations with their headers in byte memory, \<open>RingLayout\<close> the
    layout predicates, \<open>RingItems\<close> and \<open>RingBytes\<close> the invariants of the two kinds of buffer,
    \<open>RingTypes\<close> their preservation and \<open>RingProps\<close> runs of calls: every run is a FIFO stream, items come
    out whole, no assertion fails, as long as items are given back safely, that is never while the buffer is
    full and completely read and another item is held; outside of this the code overwrites held items
    (\<open>ring_early_free\<close>, \<open>ring_overwrites_held\<close>).  Blocking calls get a list of turns (what other tasks do while the
    caller waits), so that any interleaving at the semaphores is a value of the list.
  \<^item> Heap.  \<open>HeapCaps\<close> holds the code: blocks are headers in byte memory whose pointers carry tag bits.
    \<open>HeapBlocks\<close> relates memory to a list of blocks (\<open>chain\<close>) and shows the loops to be list functions;
    \<open>HeapAlloc\<close>, \<open>HeapRegion\<close> and \<open>HeapFree\<close> show cutting, first fit and joining on one region,
    \<open>HeapState\<close> and \<open>HeapOps\<close> on several, \<open>HeapReach\<close> on every run, where clients write into what they
    hold; \<open>HeapProps\<close> has the theorems and the contract \<open>allocator\<close> between the heap and its clients,
    interpreted on the model.
  \<^item> Event loop.  The tree of nodes is shown to be a list of registrations: an event reaches the matching
    ones in order (\<open>EventTree\<close>), over every run (\<open>ev_run\<close>, an inductive relation with the history of
    the registrations); posts are served in order, nothing leaks, and a run with a time limit ends, less than
    twice the limit and one turn after it began, if every turn takes time.  Handlers are arbitrary functions that
    may post.
  \<^item> MQTT.  The encoders against a reference encoding and against the parsers, memory safety of all
    encoders, the outbox as a bounded FIFO (contract \<open>message_store\<close>, interpreted on the outbox),
    reception of a message whose first read brings header and topic, in any cut of the rest, the task rounds
    as an inductive relation with its invariant, and detection of a dead server by a client that is idle (one
    that publishes all the time does not notice it).  Messages of 16384 bytes and more, whose length the
    encoders get wrong, are excluded where they matter.
  \<^item> WebSocket framing.  What is written is a prefix of a frame of RFC 6455, and all of it on success; what
    is read is the stream of the payloads, if the parent never times out inside it and delivers every field of a
    header whole.  The parent transport is a record of functions under two contracts (\<open>sink\<close>, \<open>source\<close>).
    Reads that lose the frame are theorems as well.
  \<^item> Base64 and log levels.  Round trip and bounds of the codec; the cached level list as a map with a
    default while the global level is set before the first message only, and where it stops being one.

  Bounds.  Sizes are assumed below the wrap-around only where the theorem says so: flash writes of at
  most 64 KiB at a time, heap requests of at most \<open>0xFFFFFFEC\<close> bytes (\<open>max_request\<close>, the largest whose
  block size does not wrap with either header), base64 sources of at most 1 GiB, heap regions below
  \<open>2^31\<close>, which the two RAM banks of the chip are.  The lists of turns and results are arbitrary, so no
  fuel bound is hidden in them.

  Not modelled.  Register-level drivers, clock and cache set-up, and the radio libraries have no meaning
  apart from the hardware.  The vendored libraries (FreeRTOS, lwIP, mbedTLS, wolfSSL, libsodium, libcoap,
  protobuf-c, spiffs, argtable3, linenoise, wpa_supplicant) have their own upstreams.  NVS and wear
  levelling are C++.  Tasks of different priority are modelled by atomic calls and explicit turns, not by
  a scheduler; the MQTT client has no lock, so that concurrent calls into it are outside the model.  The
  remaining SDK components (HTTP client and server, provisioning, the socket transports and the WebSocket handshake,
  SHA-512, MD5, AES)
  and the applications are listed in the manifest as not modelled.
\<close>

end
